(* ===== verification/Lws_Prelude.thy ===== *)
theory Lws_Prelude
  imports Main "HOL-Library.Word"
begin

text \<open>
  Shared vocabulary of the development: the machine integers of the C sources, the outcome
  type of routines that can hit undefined behaviour, bounded buffer access, and the generic
  facts on lists and words that the component theories use.
\<close>

unbundle bit_operations_syntax

section \<open>Machine integers\<close>

type_synonym u8 = "8 word"
type_synonym u16 = "16 word"
type_synonym u32 = "32 word"
type_synonym u64 = "64 word"
type_synonym bytes = "8 word list"

text \<open>
  \<open>size_t\<close> and pointers are 64 bits wide: the package supports LP64 targets only, and the
  sources take their \<open>__LP64__\<close> branches.
\<close>

named_theorems lws_word \<open>word facts used to evaluate masks and shifts\<close>

lemma unat_lt_256 [simp]: "unat (x :: u8) < 256"
  using unsigned_less [of x] by simp

lemma u8_cases_lt: "x < (y :: u8) \<longleftrightarrow> unat x < unat y"
  by (rule word_less_nat_alt)

lemma u8_cases_le: "x \<le> (y :: u8) \<longleftrightarrow> unat x \<le> unat y"
  by (rule word_le_nat_alt)

lemma u8_eq_iff: "x = (y :: u8) \<longleftrightarrow> unat x = unat y"
  by (simp add: word_unat_eq_iff)

lemma unat_of_nat_le: "unat (of_nat n :: 'a :: len word) \<le> n"
  by (simp add: unsigned_of_nat take_bit_eq_mod)

lemma unat_of_nat_u8: "n < 256 \<Longrightarrow> unat (of_nat n :: u8) = n"
  by (simp add: unsigned_of_nat take_bit_nat_eq_self)

lemma unat_of_nat_u64: "n < 2 ^ 64 \<Longrightarrow> unat (of_nat n :: u64) = n"
  by (simp add: unsigned_of_nat take_bit_nat_eq_self)

lemmas u8_to_nat = u8_cases_lt u8_cases_le u8_eq_iff

text \<open>Conversions and subtraction at the width of \<open>int\<close> and \<open>uint32_t\<close>, on naturals.\<close>

definition c_int :: "nat \<Rightarrow> int" where
  "c_int x = (int x + 2 ^ 31) mod 2 ^ 32 - 2 ^ 31"

definition c_uint :: "nat \<Rightarrow> nat" where
  "c_uint x = x mod 2 ^ 32"

definition u32_sub :: "nat \<Rightarrow> nat \<Rightarrow> nat" where
  "u32_sub a b = nat ((int a - int b) mod 2 ^ 32)"

lemma c_int_small [simp]: "n < 2 ^ 31 \<Longrightarrow> c_int n = int n"
  by (simp add: c_int_def)

lemma c_uint_small [simp]: "n < 2 ^ 32 \<Longrightarrow> c_uint n = n"
  by (simp add: c_uint_def)

lemma u32_sub_small [simp]: "b \<le> a \<Longrightarrow> a < 2 ^ 32 \<Longrightarrow> u32_sub a b = a - b"
  by (simp add: u32_sub_def flip: of_nat_diff)

section \<open>Outcomes\<close>

text \<open>
  A routine of the sources either returns (\<open>Done\<close>) or runs into behaviour the C language
  leaves undefined, or into a failing \<open>assert\<close> (\<open>Fault\<close>).  Safety theorems state that the
  second outcome is unreachable.
\<close>

datatype 'a outcome = Done 'a | Fault

fun bind_outcome :: "'a outcome \<Rightarrow> ('a \<Rightarrow> 'b outcome) \<Rightarrow> 'b outcome" where
  "bind_outcome (Done x) f = f x"
| "bind_outcome Fault f = Fault"

lemma bind_outcome_eq_Done [simp]:
  "bind_outcome m f = Done y \<longleftrightarrow> (\<exists>x. m = Done x \<and> f x = Done y)"
  by (cases m) auto

lemma bind_outcome_eq_Fault [simp]:
  "bind_outcome m f = Fault \<longleftrightarrow> m = Fault \<or> (\<exists>x. m = Done x \<and> f x = Fault)"
  by (cases m) auto

lemma outcome_not_Fault_iff: "m \<noteq> Fault \<longleftrightarrow> (\<exists>x. m = Done x)"
  by (cases m) auto

section \<open>Bounded buffers\<close>

text \<open>\<open>memcpy (buf + ofs, src, length src)\<close>: a fault unless the target range is inside the buffer.\<close>

definition mem_store :: "'a list \<Rightarrow> nat \<Rightarrow> 'a list \<Rightarrow> 'a list outcome" where
  "mem_store buf ofs src =
     (if ofs + length src \<le> length buf
      then Done (take ofs buf @ src @ drop (ofs + length src) buf) else Fault)"

text \<open>\<open>memcpy (dst, buf + ofs, n)\<close>: the bytes read, a fault unless they are inside the buffer.\<close>

definition mem_load :: "'a list \<Rightarrow> nat \<Rightarrow> nat \<Rightarrow> 'a list outcome" where
  "mem_load buf ofs n =
     (if ofs + n \<le> length buf then Done (take n (drop ofs buf)) else Fault)"

lemma mem_store_length: "mem_store buf ofs src = Done buf' \<Longrightarrow> length buf' = length buf"
  by (auto simp: mem_store_def split: if_splits)

lemma mem_load_length: "mem_load buf ofs n = Done xs \<Longrightarrow> length xs = n"
  by (auto simp: mem_load_def split: if_splits)

lemma mem_load_store_same:
  "mem_store buf ofs src = Done buf' \<Longrightarrow> mem_load buf' ofs (length src) = Done src"
  by (auto simp: mem_store_def mem_load_def split: if_splits)

lemma mem_store_nth:
  assumes "mem_store buf ofs src = Done buf'" and "i < length buf"
  shows "buf' ! i = (if ofs \<le> i \<and> i < ofs + length src then src ! (i - ofs) else buf ! i)"
  using assms by (auto simp: mem_store_def nth_append split: if_splits)

lemma mem_store_one:
  "i < length buf \<Longrightarrow> mem_store buf i [c] = Done (buf[i := c])"
  by (simp add: mem_store_def upd_conv_take_nth_drop)

lemma take_Suc_list_update:
  "i < length xs \<Longrightarrow> take (Suc i) (xs[i := c]) = take i xs @ [c]"
  by (simp add: take_Suc_conv_app_nth)

lemma take_list_update_ge: "n \<le> i \<Longrightarrow> take n (xs[i := c]) = take n xs"
  by simp

section \<open>The FIFO interface\<close>

text \<open>
  What a byte queue promises its clients, whatever its storage: a push accepts a prefix of what
  it is given and appends it to the content; a pull of up to \<open>n\<close> elements, of \<open>unit\<close> bytes each, returns
  the first bytes of the content, in order, and removes exactly those.  \<open>fifo_run\<close> is a client that
  mixes the two.
\<close>

datatype 'a fifo_op = Push "'a list" | Pull nat

fun fifo_run ::
  "('q \<Rightarrow> 'a list \<Rightarrow> (nat \<times> 'q) outcome) \<Rightarrow> ('q \<Rightarrow> nat \<Rightarrow> ('a list \<times> 'q) outcome) \<Rightarrow>
   'q \<Rightarrow> 'a fifo_op list \<Rightarrow> ('a list \<times> 'a list \<times> 'q) outcome" where
  "fifo_run push pull q [] = Done ([], [], q)"
| "fifo_run push pull q (Push xs # ops) =
     bind_outcome (push q xs) (\<lambda>(k, q').
     bind_outcome (fifo_run push pull q' ops) (\<lambda>(ins, outs, q''). Done (take k xs @ ins, outs, q'')))"
| "fifo_run push pull q (Pull n # ops) =
     bind_outcome (pull q n) (\<lambda>(ys, q').
     bind_outcome (fifo_run push pull q' ops) (\<lambda>(ins, outs, q''). Done (ins, ys @ outs, q'')))"

locale fifo =
  fixes push :: "'q \<Rightarrow> 'a list \<Rightarrow> (nat \<times> 'q) outcome"
    and pull :: "'q \<Rightarrow> nat \<Rightarrow> ('a list \<times> 'q) outcome"
    and content :: "'q \<Rightarrow> 'a list"
    and invar :: "'q \<Rightarrow> bool"
    and unit :: nat
  assumes push_spec:
      "invar q \<Longrightarrow> \<exists>k q'. push q xs = Done (k, q') \<and> k \<le> length xs \<and>
         content q' = content q @ take k xs \<and> invar q'"
    and pull_spec:
      "invar q \<Longrightarrow> \<exists>q'. pull q n = Done (take (n * unit) (content q), q') \<and>
         content q' = drop (n * unit) (content q) \<and> invar q'"
begin

lemma run_order:
  "invar q \<Longrightarrow> \<exists>ins outs q'. fifo_run push pull q ops = Done (ins, outs, q') \<and> invar q' \<and>
     outs @ content q' = content q @ ins"
proof (induction ops arbitrary: q)
  case (Cons op ops)
  show ?case
  proof (cases op)
    case (Push xs)
    from push_spec [OF Cons.prems, of xs] obtain k q1 where
      "push q xs = Done (k, q1)" "content q1 = content q @ take k xs" "invar q1" by blast
    then show ?thesis using Cons.IH [of q1] Push by auto
  next
    case (Pull n)
    from pull_spec [OF Cons.prems, of n] obtain q1 where q1:
      "pull q n = Done (take (n * unit) (content q), q1)" "content q1 = drop (n * unit) (content q)" "invar q1"
      by blast
    from Cons.IH [OF q1(3)] obtain ins outs q2 where
      "fifo_run push pull q1 ops = Done (ins, outs, q2)" "invar q2"
      "outs @ content q2 = content q1 @ ins" by blast
    then show ?thesis using q1 Pull by simp
  qed
qed simp

end

end
