(* ===== verification/Lws_Ring.thy ===== *)
theory Lws_Ring
  imports Lws_Prelude
begin

text \<open>
  The ring buffer of \<open>misc/lws-ring.c\<close>: a byte buffer holding whole elements between a tail and the
  head, both byte offsets, with one tail kept in the ring and any number kept by its users.  Offsets
  are \<open>uint32_t\<close>; a division by zero, a \<open>memcpy\<close> outside a buffer and a negative length faults.  The
  optional callback that frees an element is represented by the list of the elements it was given.
  A null \<open>tail\<close> argument is \<open>None\<close>; a tail passed by address is returned updated.
\<close>

section \<open>State and operations\<close>

record lws_ring =
  ring_buf :: bytes
  ring_buflen :: nat
  ring_element_len :: nat
  ring_head :: nat
  ring_oldest_tail :: nat
  ring_has_destroy :: bool
  ring_destroyed :: "bytes list"

text \<open>\<open>ok\<close> and \<open>mem\<close> are what the two allocations return.\<close>

definition lws_ring_create :: "bool \<Rightarrow> bytes option \<Rightarrow> nat \<Rightarrow> nat \<Rightarrow> bool \<Rightarrow> lws_ring option" where
  "lws_ring_create ok mem element_len count destroy =
     (if \<not> ok then None
      else case mem of None \<Rightarrow> None
      | Some b \<Rightarrow> Some \<lparr>ring_buf = b, ring_buflen = c_uint (count * element_len mod 2 ^ 64),
          ring_element_len = c_uint element_len, ring_head = 0, ring_oldest_tail = 0, ring_has_destroy = destroy,
          ring_destroyed = []\<rparr>)"

text \<open>Freeing elements from the oldest tail up to a position.\<close>

partial_function (option) ring_destroy_to :: "lws_ring \<Rightarrow> nat \<Rightarrow> lws_ring outcome option" where
  "ring_destroy_to r tail =
     (if ring_oldest_tail r = tail then Some (Done r)
      else case mem_load (ring_buf r) (ring_oldest_tail r) (ring_element_len r) of
        Fault \<Rightarrow> Some Fault
      | Done e \<Rightarrow>
          if ring_buflen r = 0 then Some Fault
          else ring_destroy_to
            (r\<lparr>ring_destroyed := ring_destroyed r @ [e],
               ring_oldest_tail := c_uint (ring_oldest_tail r + ring_element_len r) mod ring_buflen r\<rparr>) tail)"

definition lws_ring_destroy :: "lws_ring \<Rightarrow> bytes list outcome option" where
  "lws_ring_destroy r =
     (if ring_has_destroy r
      then map_option (\<lambda>x. bind_outcome x (\<lambda>r. Done (ring_destroyed r))) (ring_destroy_to r (ring_head r))
      else Some (Done (ring_destroyed r)))"

definition lws_ring_update_oldest_tail :: "lws_ring \<Rightarrow> nat \<Rightarrow> lws_ring outcome option" where
  "lws_ring_update_oldest_tail r tail =
     (if \<not> ring_has_destroy r then Some (Done (r\<lparr>ring_oldest_tail := tail\<rparr>)) else ring_destroy_to r tail)"

definition lws_ring_get_oldest_tail :: "lws_ring \<Rightarrow> nat" where
  "lws_ring_get_oldest_tail r = ring_oldest_tail r"

definition lws_ring_get_count_free_elements :: "lws_ring \<Rightarrow> nat outcome" where
  "lws_ring_get_count_free_elements r =
     (let h = ring_head r; t = ring_oldest_tail r;
          f = c_int (if h = t then u32_sub (ring_buflen r) (ring_element_len r)
                     else if h < t then u32_sub (u32_sub t h) (ring_element_len r)
                     else u32_sub (c_uint (u32_sub (ring_buflen r) h + t)) (ring_element_len r))
      in if f < 2 then Done 0
         else if ring_element_len r = 0 then Fault
         else Done (nat f div ring_element_len r))"

definition lws_ring_get_count_waiting_elements :: "lws_ring \<Rightarrow> nat option \<Rightarrow> nat outcome" where
  "lws_ring_get_count_waiting_elements r tail =
     (let t = (case tail of None \<Rightarrow> ring_oldest_tail r | Some t \<Rightarrow> t); h = ring_head r;
          f = (if h = t then 0 else if h > t then u32_sub h t else c_uint (u32_sub (ring_buflen r) t + h))
      in if ring_element_len r = 0 then Fault else Done (f div ring_element_len r))"

text \<open>The return code with the offset of \<open>*start\<close> and \<open>*bytes\<close>.\<close>

definition lws_ring_next_linear_insert_range :: "lws_ring \<Rightarrow> (nat \<times> nat) option outcome" where
  "lws_ring_next_linear_insert_range r =
     bind_outcome (lws_ring_get_count_free_elements r) (\<lambda>c.
       let n = c_uint (c * ring_element_len r) in
       if n = 0 then Done None
       else if c_uint (ring_head r + n) > ring_buflen r
       then Done (Some (ring_head r, u32_sub (ring_buflen r) (ring_head r)))
       else Done (Some (ring_head r, n)))"

definition lws_ring_bump_head :: "lws_ring \<Rightarrow> nat \<Rightarrow> lws_ring outcome" where
  "lws_ring_bump_head r n =
     (if ring_buflen r = 0 then Fault
      else Done (r\<lparr>ring_head := c_uint (ring_head r + c_uint n) mod ring_buflen r\<rparr>))"

text \<open>A \<open>memcpy\<close> whose length is an \<open>int\<close>: a negative one is a huge \<open>size_t\<close>.\<close>

definition memcpy_in :: "bytes \<Rightarrow> nat \<Rightarrow> bytes \<Rightarrow> nat \<Rightarrow> nat \<Rightarrow> bytes outcome" where
  "memcpy_in buf at src ofs n =
     (if n \<ge> 2 ^ 31 then Fault else bind_outcome (mem_load src ofs n) (\<lambda>x. mem_store buf at x))"

definition memcpy_out :: "bytes \<Rightarrow> nat \<Rightarrow> nat \<Rightarrow> bytes outcome" where
  "memcpy_out buf at n = (if n \<ge> 2 ^ 31 then Fault else mem_load buf at n)"

definition lws_ring_insert :: "lws_ring \<Rightarrow> bytes \<Rightarrow> nat \<Rightarrow> (nat \<times> lws_ring) outcome" where
  "lws_ring_insert r src max_count =
     bind_outcome (lws_ring_get_count_free_elements r) (\<lambda>c.
       let elt = ring_element_len r; n = c_uint (c * elt);
           n = (if n > max_count * elt mod 2 ^ 64 then c_uint (max_count * elt mod 2 ^ 64) else n) in
       bind_outcome
         (if c_uint (ring_head r + n) > ring_buflen r then
            let m = u32_sub (ring_buflen r) (ring_head r) in
            bind_outcome (memcpy_in (ring_buf r) (ring_head r) src 0 m) (\<lambda>b.
              Done (m, u32_sub n m, r\<lparr>ring_buf := b, ring_head := 0\<rparr>))
          else Done (0, n, r))
         (\<lambda>(done, n, r).
           bind_outcome (memcpy_in (ring_buf r) (ring_head r) src done n) (\<lambda>b.
             if ring_buflen r = 0 \<or> elt = 0 then Fault
             else Done ((done + n) div elt,
               r\<lparr>ring_buf := b, ring_head := c_uint (ring_head r + n) mod ring_buflen r\<rparr>))))"

text \<open>The count, what was copied to \<open>dest\<close>, the tail afterwards, and the ring.\<close>

definition ring_finish_consume ::
  "lws_ring \<Rightarrow> nat option \<Rightarrow> nat \<Rightarrow> nat \<Rightarrow> bytes \<Rightarrow> (nat \<times> bytes \<times> nat \<times> lws_ring) outcome option" where
  "ring_finish_consume r orig_tail tail used out =
     (if ring_element_len r = 0 then Some Fault
      else if orig_tail = None
      then map_option (\<lambda>x. bind_outcome x (\<lambda>r. Done (used div ring_element_len r, out, tail, r)))
             (lws_ring_update_oldest_tail r tail)
      else Some (Done (used div ring_element_len r, out, tail, r)))"

definition lws_ring_consume ::
  "lws_ring \<Rightarrow> nat option \<Rightarrow> bool \<Rightarrow> nat \<Rightarrow> (nat \<times> bytes \<times> nat \<times> lws_ring) outcome option" where
  "lws_ring_consume r orig_tail dest max_count =
     (let tail = (case orig_tail of None \<Rightarrow> ring_oldest_tail r | Some t \<Rightarrow> t); elt = ring_element_len r in
      case lws_ring_get_count_waiting_elements r (Some tail) of
        Fault \<Rightarrow> Some Fault
      | Done c \<Rightarrow>
          let n = c_uint (c * elt);
              n = (if n > max_count * elt mod 2 ^ 64 then c_uint (max_count * elt mod 2 ^ 64) else n) in
          if ring_buflen r = 0 then Some Fault
          else if \<not> dest then
            ring_finish_consume r orig_tail (c_uint (tail + n) mod ring_buflen r) n []
          else case
            (if c_uint (tail + n) > ring_buflen r then
               let m = u32_sub (ring_buflen r) tail in
               bind_outcome (memcpy_out (ring_buf r) tail m) (\<lambda>x. Done (x, 0, u32_sub n m))
             else Done ([], tail, n)) of
            Fault \<Rightarrow> Some Fault
          | Done (x, tail, n') \<Rightarrow>
              (case memcpy_out (ring_buf r) tail n' of
                 Fault \<Rightarrow> Some Fault
               | Done y \<Rightarrow> ring_finish_consume r orig_tail (c_uint (tail + n') mod ring_buflen r) n (x @ y)))"

definition lws_ring_get_element :: "lws_ring \<Rightarrow> nat option \<Rightarrow> bytes option outcome" where
  "lws_ring_get_element r tail =
     (let t = (case tail of None \<Rightarrow> ring_oldest_tail r | Some t \<Rightarrow> t) in
      if t = ring_head r then Done None
      else bind_outcome (mem_load (ring_buf r) t (ring_element_len r)) (\<lambda>e. Done (Some e)))"

section \<open>Invariant and content\<close>

text \<open>The bytes from one position round to another.\<close>

definition ring_gap :: "nat \<Rightarrow> nat \<Rightarrow> nat \<Rightarrow> nat" where
  "ring_gap N t h = (if t \<le> h then h - t else N - t + h)"

definition ring_span :: "bytes \<Rightarrow> nat \<Rightarrow> nat \<Rightarrow> bytes" where
  "ring_span buf t n = map (\<lambda>i. buf ! ((t + i) mod length buf)) [0..<n]"

definition ring_from :: "lws_ring \<Rightarrow> nat \<Rightarrow> bytes" where
  "ring_from r t = ring_span (ring_buf r) t (ring_gap (ring_buflen r) t (ring_head r))"

definition ring_content :: "lws_ring \<Rightarrow> bytes" where
  "ring_content r = ring_from r (ring_oldest_tail r)"

definition ring_pos_ok :: "lws_ring \<Rightarrow> nat \<Rightarrow> bool" where
  "ring_pos_ok r t \<longleftrightarrow> t < ring_buflen r \<and> ring_element_len r dvd t"

definition ring_ok :: "nat \<Rightarrow> lws_ring \<Rightarrow> bool" where
  "ring_ok elt r \<longleftrightarrow> 0 < elt \<and> ring_element_len r = elt \<and> elt dvd ring_buflen r \<and> ring_buflen r < 2 ^ 31 \<and>
     length (ring_buf r) = ring_buflen r \<and> ring_pos_ok r (ring_head r) \<and> ring_pos_ok r (ring_oldest_tail r)"

lemma ring_span_length [simp]: "length (ring_span buf t n) = n"
  by (simp add: ring_span_def)

lemma ring_span_nth: "i < n \<Longrightarrow> ring_span buf t n ! i = buf ! ((t + i) mod length buf)"
  by (simp add: ring_span_def)

lemma ring_span_linear:
  assumes "t + n \<le> length buf"
  shows "ring_span buf t n = take n (drop t buf)"
proof (rule nth_equalityI)
  fix i
  assume "i < length (ring_span buf t n)"
  then have "t + i < length buf" "i < n" using assms by simp_all
  then show "ring_span buf t n ! i = take n (drop t buf) ! i" by (simp add: ring_span_nth)
qed (use assms in simp)

lemma ring_span_append: "ring_span buf t (m + n) = ring_span buf t m @ ring_span buf ((t + m) mod length buf) n"
proof (rule nth_equalityI)
  fix i
  assume i: "i < length (ring_span buf t (m + n))"
  show "ring_span buf t (m + n) ! i = (ring_span buf t m @ ring_span buf ((t + m) mod length buf) n) ! i"
  proof (cases "i < m")
    case False
    then obtain j where "i = m + j" using le_Suc_ex not_less by blast
    then show ?thesis using i by (simp add: ring_span_nth nth_append mod_add_left_eq add.assoc)
  qed (use i in \<open>simp add: ring_span_nth nth_append\<close>)
qed simp

lemma ring_span_take: "k \<le> n \<Longrightarrow> take k (ring_span buf t n) = ring_span buf t k"
  using ring_span_append [of buf t k "n - k"] by simp

lemma ring_span_drop: "k \<le> n \<Longrightarrow> drop k (ring_span buf t n) = ring_span buf ((t + k) mod length buf) (n - k)"
  using ring_span_append [of buf t k "n - k"] by simp

text \<open>Position arithmetic on a circle of length \<open>N\<close>.\<close>

lemma ring_mod: "h < N \<Longrightarrow> j < N \<Longrightarrow> (h + j) mod N = (if h + j < N then h + j else h + j - N)"
  for h j N :: nat
  by (simp add: mod_if)

lemma ring_gap_lt: "t < N \<Longrightarrow> h < N \<Longrightarrow> ring_gap N t h < N"
  by (auto simp: ring_gap_def)

lemma ring_gap_end: "t < N \<Longrightarrow> h < N \<Longrightarrow> (t + ring_gap N t h) mod N = h"
  using ring_mod [of t N "ring_gap N t h"] ring_gap_lt [of t N h] by (auto simp: ring_gap_def)

lemma ring_gap_advance:
  assumes "t < N" and "h < N" and "k \<le> ring_gap N t h"
  shows "ring_gap N ((t + k) mod N) h = ring_gap N t h - k"
proof -
  have "k < N" using assms ring_gap_lt [of t N h] by linarith
  then show ?thesis using assms unfolding ring_mod [OF assms(1) \<open>k < N\<close>] ring_gap_def by auto
qed

lemma ring_gap_grow:
  assumes "t < N" and "h < N" and "ring_gap N t h + k < N"
  shows "ring_gap N t ((h + k) mod N) = ring_gap N t h + k"
proof -
  have "k < N" using assms(3) by linarith
  then show ?thesis using assms unfolding ring_mod [OF assms(2) \<open>k < N\<close>] ring_gap_def by auto
qed

text \<open>What the one or two copies of an insertion leave in the buffer.\<close>

definition ring_put :: "bytes \<Rightarrow> nat \<Rightarrow> bytes \<Rightarrow> bytes \<Rightarrow> bool" where
  "ring_put buf h xs buf' \<longleftrightarrow> length buf' = length buf \<and>
     (\<forall>j < length buf. buf' ! ((h + j) mod length buf) =
        (if j < length xs then xs ! j else buf ! ((h + j) mod length buf)))"

lemma ring_put_linear:
  assumes "h < length buf" and "h + length xs \<le> length buf" and "mem_store buf h xs = Done buf'"
  shows "ring_put buf h xs buf'"
  unfolding ring_put_def
proof (intro conjI allI impI)
  show "length buf' = length buf" using mem_store_length [OF assms(3)] .
  fix j
  assume j: "j < length buf"
  let ?p = "(h + j) mod length buf"
  have "?p < length buf" using j by (intro mod_less_divisor) linarith
  then show "buf' ! ?p = (if j < length xs then xs ! j else buf ! ?p)"
    using mem_store_nth [OF assms(3), of ?p] assms(1,2) j by (auto simp: ring_mod split: if_splits)
qed

lemma ring_put_wrapped:
  assumes "h < length buf" and "length buf < h + length xs" and "length xs \<le> length buf"
    and "mem_store buf h (take (length buf - h) xs) = Done b1" and "mem_store b1 0 (drop (length buf - h) xs) = Done buf'"
  shows "ring_put buf h xs buf'"
  unfolding ring_put_def
proof (intro conjI allI impI)
  have l: "length b1 = length buf" "length buf' = length buf"
    using mem_store_length [OF assms(4)] mem_store_length [OF assms(5)] by simp_all
  then show "length buf' = length buf" by simp
  fix j
  assume j: "j < length buf"
  let ?p = "(h + j) mod length buf"
  have p: "?p < length buf" using j by (intro mod_less_divisor) linarith
  then have p1: "?p < length b1" using l by simp
  show "buf' ! ?p = (if j < length xs then xs ! j else buf ! ?p)"
    using mem_store_nth [OF assms(4) p] mem_store_nth [OF assms(5) p1] assms(1,2,3) j
    by (auto simp: ring_mod min_absorb2 split: if_splits)
qed

lemma ring_put_new:
  assumes "ring_put buf h xs buf'" and "length xs \<le> length buf"
  shows "ring_span buf' h (length xs) = xs"
  using assms by (intro nth_equalityI) (auto simp: ring_put_def ring_span_nth)

lemma ring_put_old:
  assumes "ring_put buf h xs buf'" and "h < length buf" and "t < length buf" and "(t + k) mod length buf = h"
    and "k + length xs \<le> length buf" and "k < length buf"
  shows "ring_span buf' t k = ring_span buf t k"
proof (rule nth_equalityI)
  fix i
  assume "i < length (ring_span buf' t k)"
  then have i: "i < k" by simp
  let ?N = "length buf" and ?j = "length buf - k + i"
  have "(h + ?j) mod ?N = (t + k + (?N - k + i)) mod ?N" using assms(4) by (metis mod_add_left_eq)
  also have "t + k + (?N - k + i) = t + i + ?N" using assms(6) i by simp
  also have "(t + i + ?N) mod ?N = (t + i) mod ?N" by simp
  finally have e: "(h + ?j) mod ?N = (t + i) mod ?N" .
  have "?j < ?N" "\<not> ?j < length xs" using assms(5,6) i by linarith+
  then have "buf' ! ((h + ?j) mod ?N) = buf ! ((h + ?j) mod ?N)" using assms(1) by (simp add: ring_put_def)
  then show "ring_span buf' t k ! i = ring_span buf t k ! i"
    using i assms(1) unfolding e by (simp add: ring_span_nth ring_put_def)
qed simp

section \<open>Counting\<close>

definition ring_waiting :: "lws_ring \<Rightarrow> nat \<Rightarrow> nat" where
  "ring_waiting r t = ring_gap (ring_buflen r) t (ring_head r)"

text \<open>A free space of one byte counts as none.\<close>

definition ring_room :: "lws_ring \<Rightarrow> nat" where
  "ring_room r =
     (let f = ring_buflen r - ring_element_len r - ring_waiting r (ring_oldest_tail r)
      in if f < 2 then 0 else f div ring_element_len r)"

lemma ring_okD:
  assumes "ring_ok elt r"
  shows "0 < elt" "ring_element_len r = elt" "elt dvd ring_buflen r" "ring_buflen r < 2 ^ 31"
    "length (ring_buf r) = ring_buflen r" "ring_head r < ring_buflen r" "elt dvd ring_head r"
    "ring_oldest_tail r < ring_buflen r" "elt dvd ring_oldest_tail r" "elt \<le> ring_buflen r" "elt < 2 ^ 31"
  using assms by (auto simp: ring_ok_def ring_pos_ok_def dest: dvd_imp_le)

lemma ring_waiting_dvd:
  assumes "ring_ok elt r" and "ring_pos_ok r t"
  shows "elt dvd ring_waiting r t" "ring_waiting r t + elt \<le> ring_buflen r" "ring_waiting r t < ring_buflen r"
proof -
  note r = ring_okD [OF assms(1)]
  have t: "t < ring_buflen r" "elt dvd t" using assms(2) r(2) by (simp_all add: ring_pos_ok_def)
  show d: "elt dvd ring_waiting r t"
    using r(3,7) t by (auto simp: ring_waiting_def ring_gap_def intro: dvd_diff_nat dvd_add)
  show lt: "ring_waiting r t < ring_buflen r" using ring_gap_lt [OF t(1) r(6)] by (simp add: ring_waiting_def)
  then have "elt dvd ring_buflen r - ring_waiting r t" "0 < ring_buflen r - ring_waiting r t"
    using d r(3) by (auto intro: dvd_diff_nat)
  then have "elt \<le> ring_buflen r - ring_waiting r t" by (rule dvd_imp_le)
  then show "ring_waiting r t + elt \<le> ring_buflen r" using lt by linarith
qed

lemma ring_oldest_pos: "ring_ok elt r \<Longrightarrow> ring_pos_ok r (ring_oldest_tail r)"
  by (simp add: ring_ok_def)

lemma ring_free_elements:
  assumes "ring_ok elt r"
  shows "lws_ring_get_count_free_elements r = Done (ring_room r)"
proof -
  note r = ring_okD [OF assms]
  let ?N = "ring_buflen r" and ?t = "ring_oldest_tail r" and ?h = "ring_head r"
  note W = ring_waiting_dvd(2) [OF assms ring_oldest_pos [OF assms]]
  define F where "F = ?N - elt - ring_waiting r ?t"
  have f: "(if ?h = ?t then u32_sub ?N elt else if ?h < ?t then u32_sub (u32_sub ?t ?h) elt
      else u32_sub (c_uint (u32_sub ?N ?h + ?t)) elt) = F"
    using r(4,6,8,10) W by (auto simp: F_def ring_waiting_def ring_gap_def split: if_splits)
  have c: "c_int F = int F" using r(4) by (simp add: F_def)
  have "ring_room r = (if F < 2 then 0 else F div elt)" by (simp add: ring_room_def Let_def F_def r(2))
  then show ?thesis using r(1) unfolding lws_ring_get_count_free_elements_def Let_def r(2) f c by simp
qed

lemma ring_waiting_elements:
  assumes "ring_ok elt r" and "ring_pos_ok r t"
  shows "lws_ring_get_count_waiting_elements r (Some t) = Done (ring_waiting r t div elt)"
proof -
  note r = ring_okD [OF assms(1)]
  have "t < ring_buflen r" using assms(2) by (simp add: ring_pos_ok_def)
  then show ?thesis using r(1,2,4,6)
    by (auto simp: lws_ring_get_count_waiting_elements_def ring_waiting_def ring_gap_def Let_def)
qed

lemma ring_room_bound:
  assumes "ring_ok elt r"
  shows "ring_room r * elt + ring_waiting r (ring_oldest_tail r) + elt \<le> ring_buflen r"
proof -
  note r = ring_okD [OF assms]
  note W = ring_waiting_dvd(2) [OF assms ring_oldest_pos [OF assms]]
  let ?f = "ring_buflen r - ring_element_len r - ring_waiting r (ring_oldest_tail r)"
  have "ring_room r = (if ?f < 2 then 0 else ?f div elt)" using r(2) by (simp add: ring_room_def Let_def)
  moreover have "?f div elt * elt \<le> ?f" by simp
  ultimately have "ring_room r * elt \<le> ?f" by simp
  then show ?thesis using W r(2) by linarith
qed

section \<open>Inserting\<close>

text \<open>The one or two copies of an insertion of \<open>n\<close> bytes.\<close>

lemma ring_insert_copies:
  assumes ok: "ring_ok elt r" and n: "n < ring_buflen r" "n \<le> length src"
  shows "\<exists>b. (bind_outcome
         (if c_uint (ring_head r + n) > ring_buflen r then
            let m = u32_sub (ring_buflen r) (ring_head r) in
            bind_outcome (memcpy_in (ring_buf r) (ring_head r) src 0 m) (\<lambda>b.
              Done (m, u32_sub n m, r\<lparr>ring_buf := b, ring_head := 0\<rparr>))
          else Done (0, n, r))
         (\<lambda>(done, n, r).
           bind_outcome (memcpy_in (ring_buf r) (ring_head r) src done n) (\<lambda>b.
             if ring_buflen r = 0 \<or> elt = 0 then Fault
             else Done ((done + n) div elt,
               r\<lparr>ring_buf := b, ring_head := c_uint (ring_head r + n) mod ring_buflen r\<rparr>)))) =
      Done (n div elt, r\<lparr>ring_buf := b, ring_head := (ring_head r + n) mod ring_buflen r\<rparr>) \<and>
    ring_put (ring_buf r) (ring_head r) (take n src) b"
proof -
  note r = ring_okD [OF ok]
  let ?N = "ring_buflen r" and ?h = "ring_head r"
  have cu: "c_uint (?h + n) = ?h + n" using r(4,6) n(1) by simp
  show ?thesis
  proof (cases "?h + n > ?N")
    case True
    let ?m = "?N - ?h"
    obtain b1 where b1: "mem_store (ring_buf r) ?h (take ?m src) = Done b1" "length b1 = ?N"
      using r(5,6) n(2) True by (auto simp: mem_store_def)
    obtain b2 where b2: "mem_store b1 0 (take (n - ?m) (drop ?m src)) = Done b2"
      using b1(2) n(1) by (simp add: mem_store_def min.coboundedI2)
    have "ring_put (ring_buf r) ?h (take n src) b2"
      using ring_put_wrapped [of ?h "ring_buf r" "take n src" b1 b2] b1 b2 r(5,6) n True
      by (simp add: min_absorb1 min_absorb2 drop_take)
    moreover have "(?h + n) mod ?N = n - ?m" using True r(6) n(1) ring_mod [of ?h ?N n] by simp
    moreover have "u32_sub ?N ?h = ?m" "u32_sub n ?m = n - ?m" "c_uint (n - ?m) = n - ?m" "(n - ?m) mod ?N = n - ?m"
      using r(4,6) n(1) True by simp_all
    moreover have "\<not> 2 ^ 31 \<le> n - ?m" "\<not> 2 ^ 31 \<le> ?m" "?m \<le> length src" using r(4) n True by simp_all
    ultimately show ?thesis using True b1 b2 r(1,4,6) n cu
      by (intro exI [of _ b2]) (simp add: memcpy_in_def mem_load_def Let_def)
  next
    case False
    obtain b where b: "mem_store (ring_buf r) ?h (take n src) = Done b"
      using r(5) n(2) False by (auto simp: mem_store_def)
    have "ring_put (ring_buf r) ?h (take n src) b"
      using ring_put_linear [OF _ _ b] r(5,6) n(2) False by simp
    then show ?thesis using False b r(1,4,6) n cu
      by (intro exI [of _ b]) (simp add: memcpy_in_def mem_load_def)
  qed
qed

lemma ring_insert_ok:
  assumes ok: "ring_ok elt r" and src: "max_count * elt \<le> length src" "max_count * elt < 2 ^ 64"
  shows "\<exists>r'. lws_ring_insert r src max_count = Done (min (ring_room r) max_count, r') \<and> ring_ok elt r' \<and>
    (\<forall>t. ring_pos_ok r t \<and> ring_waiting r t \<le> ring_waiting r (ring_oldest_tail r) \<longrightarrow>
       ring_from r' t = ring_from r t @ take (min (ring_room r) max_count * elt) src) \<and>
    ring_oldest_tail r' = ring_oldest_tail r \<and> ring_buflen r' = ring_buflen r \<and> ring_destroyed r' = ring_destroyed r \<and>
    ring_has_destroy r' = ring_has_destroy r"
proof -
  note r = ring_okD [OF ok]
  let ?N = "ring_buflen r" and ?h = "ring_head r" and ?k = "min (ring_room r) max_count"
  note room = ring_room_bound [OF ok]
  have "?k * elt \<le> max_count * elt" by (rule mult_le_mono1) simp
  then have k2: "?k * elt \<le> length src" using src(1) by linarith
  have k1: "?k * elt \<le> ring_room r * elt" by (rule mult_le_mono1) simp
  note k = k1 k2
  have kN: "?k * elt + ring_waiting r (ring_oldest_tail r) < ?N" using room k(1) r(1) by linarith
  have n: "(if c_uint (ring_room r * elt) > max_count * elt mod 2 ^ 64 then c_uint (max_count * elt mod 2 ^ 64)
      else c_uint (ring_room r * elt)) = ?k * elt"
  proof -
    have "ring_room r * elt < 2 ^ 32" using room r(4) by simp
    moreover from this have "max_count * elt < 2 ^ 32" if "max_count \<le> ring_room r"
      using mult_le_mono1 [OF that, of elt] by linarith
    ultimately show ?thesis using src(2) r(1) by (auto simp: min_def)
  qed
  obtain b where b: "lws_ring_insert r src max_count =
      Done (?k * elt div elt, r\<lparr>ring_buf := b, ring_head := (?h + ?k * elt) mod ?N\<rparr>)"
    "ring_put (ring_buf r) ?h (take (?k * elt) src) b"
    using ring_insert_copies [OF ok, of "?k * elt" src] kN k(2)
    unfolding lws_ring_insert_def ring_free_elements [OF ok] bind_outcome.simps Let_def r(2) n by auto
  let ?r = "r\<lparr>ring_buf := b, ring_head := (?h + ?k * elt) mod ?N\<rparr>"
  have lb: "length b = ?N" using b(2) r(5) by (simp add: ring_put_def)
  have "elt dvd (?h + ?k * elt) mod ?N" using r(3,7) by (simp add: dvd_mod)
  then have "ring_ok elt ?r" using ok lb r(1,4) by (auto simp: ring_ok_def ring_pos_ok_def)
  moreover have "ring_from ?r t = ring_from r t @ take (?k * elt) src"
    if t: "ring_pos_ok r t" "ring_waiting r t \<le> ring_waiting r (ring_oldest_tail r)" for t
  proof -
    have tN: "t < ?N" using t(1) by (simp add: ring_pos_ok_def)
    let ?g = "ring_gap ?N t ?h"
    have g: "?g + ?k * elt < ?N" using kN t(2) by (simp add: ring_waiting_def)
    have "ring_span b t (?g + ?k * elt) = ring_span b t ?g @ ring_span b ?h (?k * elt)"
      using ring_span_append [of b t ?g "?k * elt"] ring_gap_end [OF tN r(6)] lb by simp
    moreover have "ring_span b ?h (?k * elt) = take (?k * elt) src"
      using ring_put_new [OF b(2)] k(2) g r(5) by simp
    moreover have "ring_span b t ?g = ring_span (ring_buf r) t ?g"
      using ring_put_old [OF b(2), of t ?g] r(5,6) tN ring_gap_end [OF tN r(6)] g by simp
    ultimately show ?thesis using ring_gap_grow [OF tN r(6) g] by (simp add: ring_from_def)
  qed
  ultimately show ?thesis using b(1) r(1) by (intro exI [of _ ?r]) simp
qed

section \<open>Consuming\<close>

text \<open>The whole elements of a byte sequence.\<close>

definition ring_elements :: "nat \<Rightarrow> bytes \<Rightarrow> bytes list" where
  "ring_elements elt xs = map (\<lambda>i. take elt (drop (i * elt) xs)) [0..<length xs div elt]"

lemma ring_elements_Cons:
  assumes "0 < elt" and "length e = elt"
  shows "ring_elements elt (e @ xs) = e # ring_elements elt xs"
proof -
  have "length (e @ xs) div elt = Suc (length xs div elt)" using assms div_add_self1 [of elt "length xs"] by simp
  then show ?thesis using assms unfolding ring_elements_def
    by (simp add: upt_conv_Cons map_Suc_upt [symmetric] del: upt_Suc)
qed

lemma ring_destroy_to_ok:
  assumes "ring_ok elt r" and "j * elt < ring_buflen r"
  shows "ring_destroy_to r ((ring_oldest_tail r + j * elt) mod ring_buflen r) =
    Some (Done (r\<lparr>ring_oldest_tail := (ring_oldest_tail r + j * elt) mod ring_buflen r,
      ring_destroyed := ring_destroyed r @ ring_elements elt (ring_span (ring_buf r) (ring_oldest_tail r) (j * elt))\<rparr>))"
  using assms
proof (induction j arbitrary: r)
  case 0
  then show ?case using ring_okD(8) [OF 0(1)]
    by (simp add: ring_destroy_to.simps [of r] ring_elements_def ring_span_def)
next
  case (Suc j)
  note r = ring_okD [OF Suc.prems(1)]
  let ?N = "ring_buflen r" and ?t = "ring_oldest_tail r" and ?buf = "ring_buf r"
  have le: "?t + elt \<le> ?N" using r(1,3,8,9) by (metis Suc_leI add_diff_cancel_left' dvd_diff_nat dvd_imp_le
        le_add_diff_inverse less_or_eq_imp_le nat_add_left_cancel_le zero_less_diff)
  let ?e = "take elt (drop ?t ?buf)" and ?t1 = "(?t + elt) mod ?N"
  let ?r = "r\<lparr>ring_destroyed := ring_destroyed r @ [?e], ring_oldest_tail := ?t1\<rparr>"
  have ok: "ring_ok elt ?r"
    using Suc.prems(1) r(3,9) by (auto simp: ring_ok_def ring_pos_ok_def dvd_mod intro: mod_less_divisor)
  have ne: "?t \<noteq> (?t + Suc j * elt) mod ?N"
    using ring_mod [OF r(8) Suc.prems(2)] r(1) Suc.prems(2) by (auto split: if_splits)
  have "ring_destroy_to r ((?t + Suc j * elt) mod ?N) = ring_destroy_to ?r ((?t + Suc j * elt) mod ?N)"
    using ne le r(2,4,5,6,8) by (simp add: ring_destroy_to.simps [of r] mem_load_def)
  moreover have mm: "(?t + Suc j * elt) mod ?N = (?t1 + j * elt) mod ?N" by (simp add: mod_simps ac_simps)
  ultimately have step: "ring_destroy_to r ((?t + Suc j * elt) mod ?N) = ring_destroy_to ?r ((?t1 + j * elt) mod ?N)" by simp
  have sp: "ring_span ?buf ?t (Suc j * elt) = ?e @ ring_span ?buf ?t1 (j * elt)"
    using ring_span_append [of ?buf ?t elt "j * elt"] ring_span_linear [of ?t elt ?buf] le r(5) by simp
  have el: "ring_elements elt (ring_span ?buf ?t (Suc j * elt)) = ?e # ring_elements elt (ring_span ?buf ?t1 (j * elt))"
    unfolding sp using r(1,5) le by (intro ring_elements_Cons) simp_all
  have "j * elt < ring_buflen ?r" using Suc.prems(2) by simp
  from Suc.IH [OF ok this] show ?case unfolding step unfolding el mm by simp
qed

text \<open>The one or two copies of a consumer at \<open>t\<close>.\<close>

lemma ring_consume_copies:
  assumes "ring_ok elt r" and "t < ring_buflen r" and "n < ring_buflen r"
  shows "\<exists>x t1 n1. (if c_uint (t + n) > ring_buflen r then
               let m = u32_sub (ring_buflen r) t in
               bind_outcome (memcpy_out (ring_buf r) t m) (\<lambda>x. Done (x, 0, u32_sub n m))
             else Done ([], t, n)) = Done (x, t1, n1) \<and>
    memcpy_out (ring_buf r) t1 n1 = Done (drop (length x) (ring_span (ring_buf r) t n)) \<and>
    x = take (length x) (ring_span (ring_buf r) t n) \<and> c_uint (t1 + n1) mod ring_buflen r = (t + n) mod ring_buflen r"
proof -
  note r = ring_okD [OF assms(1)]
  let ?N = "ring_buflen r" and ?buf = "ring_buf r"
  have cu: "c_uint (t + n) = t + n" using r(4) assms(2,3) by simp
  show ?thesis
  proof (cases "t + n > ?N")
    case True
    let ?m = "?N - t"
    have sp: "ring_span ?buf t n = ring_span ?buf t ?m @ ring_span ?buf 0 (n - ?m)"
      using ring_span_append [of ?buf t ?m "n - ?m"] True assms(2) r(5) by simp
    have "ring_span ?buf t ?m = drop t ?buf" "ring_span ?buf 0 (n - ?m) = take (n - ?m) ?buf"
      using ring_span_linear [of t ?m ?buf] ring_span_linear [of 0 "n - ?m" ?buf] assms(2,3) r(5) by simp_all
    moreover have "(t + n) mod ?N = n - ?m" using ring_mod [OF assms(2,3)] True assms(2) by simp
    moreover have "u32_sub ?N t = ?m" "u32_sub n ?m = n - ?m" "c_uint (n - ?m) = n - ?m" "(n - ?m) mod ?N = n - ?m"
      "\<not> 2 ^ 31 \<le> n - ?m" "\<not> 2 ^ 31 \<le> ?m"
      using r(4) assms(2,3) True by simp_all
    ultimately show ?thesis using True cu sp assms(2,3) r(5)
      by (intro exI [of _ "drop t ?buf"] exI [of _ 0] exI [of _ "n - ?m"]) (simp add: memcpy_out_def mem_load_def Let_def)
  next
    case False
    then show ?thesis using cu ring_span_linear [of t n ?buf] r(4,5) assms(3)
      by (intro exI [of _ "[]"] exI [of _ t] exI [of _ n]) (simp add: memcpy_out_def mem_load_def)
  qed
qed

text \<open>A consumer with a tail of its own: the ring itself does not change.\<close>

lemma ring_consume_n:
  assumes ok: "ring_ok elt r" and "ring_pos_ok r t" and "max_count * elt < 2 ^ 64"
  defines "k \<equiv> min (ring_waiting r t div elt) max_count"
  shows "(if c_uint (ring_waiting r t div elt * elt) > max_count * elt mod 2 ^ 64 then c_uint (max_count * elt mod 2 ^ 64)
      else c_uint (ring_waiting r t div elt * elt)) = k * elt" "k * elt \<le> ring_waiting r t" "k * elt < ring_buflen r"
proof -
  note r = ring_okD [OF ok] and W = ring_waiting_dvd [OF ok assms(2)]
  have w: "ring_waiting r t div elt * elt = ring_waiting r t" using W(1) by simp
  have "k * elt \<le> ring_waiting r t div elt * elt" unfolding k_def by (rule mult_le_mono1) simp
  then show le: "k * elt \<le> ring_waiting r t" using w by simp
  then show "k * elt < ring_buflen r" using W(3) by simp
  have cW: "c_uint (ring_waiting r t) = ring_waiting r t" and mm: "max_count * elt mod 2 ^ 64 = max_count * elt"
    using W(3) r(4) assms(3) by simp_all
  show "(if c_uint (ring_waiting r t div elt * elt) > max_count * elt mod 2 ^ 64 then c_uint (max_count * elt mod 2 ^ 64)
      else c_uint (ring_waiting r t div elt * elt)) = k * elt"
  proof (cases "ring_waiting r t div elt \<le> max_count")
    case True
    then have "ring_waiting r t \<le> max_count * elt" using mult_le_mono1 [OF True, of elt] w by simp
    then show ?thesis using True cW unfolding mm w by (simp add: k_def w)
  next
    case False
    then have "max_count * elt < ring_waiting r t div elt * elt" using r(1) by simp
    then have lt: "max_count * elt < ring_waiting r t" using w by simp
    then have "c_uint (max_count * elt) = max_count * elt" using W(3) r(4) by simp
    then show ?thesis using False lt cW unfolding mm w by (simp add: k_def)
  qed
qed

lemma ring_consume_finish:
  assumes ok: "ring_ok elt r" and t: "ring_pos_ok r (case tail of None \<Rightarrow> ring_oldest_tail r | Some t \<Rightarrow> t)"
    and "max_count * elt < 2 ^ 64"
  defines "t \<equiv> case tail of None \<Rightarrow> ring_oldest_tail r | Some t \<Rightarrow> t"
  defines "n \<equiv> min (ring_waiting r t div elt) max_count * elt"
  shows "lws_ring_consume r tail True max_count =
    ring_finish_consume r tail ((t + n) mod ring_buflen r) n (take n (ring_from r t))"
proof -
  note r = ring_okD [OF ok]
  have t': "ring_pos_ok r t" using t by (simp add: t_def)
  note n = ring_consume_n [OF ok t' assms(3), folded n_def]
  have tN: "t < ring_buflen r" using t' by (simp add: ring_pos_ok_def)
  obtain x t1 n1 where c: "(if c_uint (t + n) > ring_buflen r then
               let m = u32_sub (ring_buflen r) t in
               bind_outcome (memcpy_out (ring_buf r) t m) (\<lambda>x. Done (x, 0, u32_sub n m))
             else Done ([], t, n)) = Done (x, t1, n1)"
    "memcpy_out (ring_buf r) t1 n1 = Done (drop (length x) (ring_span (ring_buf r) t n))"
    "x = take (length x) (ring_span (ring_buf r) t n)" "c_uint (t1 + n1) mod ring_buflen r = (t + n) mod ring_buflen r"
    using ring_consume_copies [OF ok tN n(3)] by blast
  have "take n (ring_from r t) = ring_span (ring_buf r) t n"
    using n(2) by (simp add: ring_from_def ring_waiting_def ring_span_take)
  also have "\<dots> = x @ drop (length x) (ring_span (ring_buf r) t n)" by (subst c(3)) simp
  finally have out: "take n (ring_from r t) = x @ drop (length x) (ring_span (ring_buf r) t n)" .
  have "ring_buflen r \<noteq> 0" using tN by simp
  then show ?thesis
    unfolding lws_ring_consume_def Let_def t_def [symmetric] ring_waiting_elements [OF ok t'] outcome.case r(2) n(1)
      c(1) [unfolded Let_def] prod.case c(2) c(4) out by simp
qed

lemma ring_advance:
  assumes ok: "ring_ok elt r" and "ring_pos_ok r t" and "n \<le> ring_waiting r t" and "elt dvd n"
  defines "t' \<equiv> (t + n) mod ring_buflen r"
  shows "ring_pos_ok r t'" "ring_from r t' = drop n (ring_from r t)" "ring_waiting r t' = ring_waiting r t - n"
proof -
  note r = ring_okD [OF ok]
  have t: "t < ring_buflen r" "elt dvd t" using assms(2) r(2) by (simp_all add: ring_pos_ok_def)
  show "ring_pos_ok r t'" using t r(2,3) assms(4) by (simp add: ring_pos_ok_def t'_def dvd_mod)
  show g: "ring_waiting r t' = ring_waiting r t - n"
    using ring_gap_advance [OF t(1) r(6), of n] assms(3) by (simp add: ring_waiting_def t'_def)
  show "ring_from r t' = drop n (ring_from r t)"
    using ring_span_drop [of n "ring_waiting r t" "ring_buf r" t] assms(3) g r(5)
    by (simp add: ring_from_def ring_waiting_def t'_def)
qed

lemma ring_consume_shared:
  assumes ok: "ring_ok elt r" and "ring_pos_ok r t" and "max_count * elt < 2 ^ 64"
  defines "n \<equiv> min (ring_waiting r t div elt) max_count * elt"
  shows "\<exists>t'. lws_ring_consume r (Some t) True max_count =
      Some (Done (min (ring_waiting r t div elt) max_count, take n (ring_from r t), t', r)) \<and>
    ring_pos_ok r t' \<and> ring_from r t' = drop n (ring_from r t) \<and> ring_waiting r t' = ring_waiting r t - n"
  using ring_consume_finish [of elt r "Some t" max_count] ring_advance [OF ok assms(2), of n] ok assms(2,3)
    ring_consume_n(2) [OF ok assms(2,3)] ring_okD(1,2) [OF ok]
  by (simp add: ring_finish_consume_def n_def)

lemma ring_content_length: "ring_ok elt r \<Longrightarrow> length (ring_content r) = ring_waiting r (ring_oldest_tail r)"
  by (simp add: ring_content_def ring_from_def ring_waiting_def)

lemma take_whole_elements:
  assumes "elt dvd length xs"
  shows "take (min (length xs div elt) m * elt) xs = take (m * elt) xs"
    "drop (min (length xs div elt) m * elt) xs = drop (m * elt) xs"
proof -
  have l: "length xs div elt * elt = length xs" using assms by simp
  show "take (min (length xs div elt) m * elt) xs = take (m * elt) xs"
    "drop (min (length xs div elt) m * elt) xs = drop (m * elt) xs"
    using mult_le_mono1 [of "length xs div elt" m elt] l by (cases "length xs div elt \<le> m"; simp add: min_def)+
qed

lemma ring_consume_single:
  assumes ok: "ring_ok elt r" and "max_count * elt < 2 ^ 64"
  defines "n \<equiv> max_count * elt"
  shows "\<exists>t' r'. lws_ring_consume r None True max_count =
      Some (Done (min (length (ring_content r) div elt) max_count, take n (ring_content r), t', r')) \<and>
    ring_ok elt r' \<and> ring_content r' = drop n (ring_content r) \<and> ring_has_destroy r' = ring_has_destroy r \<and>
    ring_destroyed r' = ring_destroyed r @ (if ring_has_destroy r then ring_elements elt (take n (ring_content r)) else [])"
proof -
  note r = ring_okD [OF ok] and pos = ring_oldest_pos [OF ok]
  let ?t = "ring_oldest_tail r" and ?N = "ring_buflen r"
  let ?k = "min (ring_waiting r ?t div elt) max_count"
  define t' where "t' = (?t + ?k * elt) mod ?N"
  have le: "?k * elt \<le> ring_waiting r ?t" "?k * elt < ?N" using ring_consume_n [OF ok pos assms(2)] by simp_all
  have len: "length (ring_content r) = ring_waiting r ?t" "elt dvd length (ring_content r)"
    using ring_content_length [OF ok] ring_waiting_dvd(1) [OF ok pos] by simp_all
  have cut: "take (?k * elt) (ring_content r) = take n (ring_content r)" "drop (?k * elt) (ring_content r) = drop n (ring_content r)"
    using take_whole_elements [OF len(2), of max_count] len(1) by (simp_all add: n_def)
  have adv: "ring_pos_ok r t'" "ring_from r t' = drop n (ring_content r)"
    using ring_advance [OF ok pos le(1)] cut(2) by (simp_all add: t'_def ring_content_def)
  let ?r = "r\<lparr>ring_oldest_tail := t', ring_destroyed := ring_destroyed r @
    (if ring_has_destroy r then ring_elements elt (take n (ring_content r)) else [])\<rparr>"
  have sp: "ring_span (ring_buf r) ?t (?k * elt) = take n (ring_content r)"
    using cut(1) le(1) by (simp add: ring_content_def ring_from_def ring_waiting_def ring_span_take)
  have "lws_ring_update_oldest_tail r t' = Some (Done ?r)"
    using ring_destroy_to_ok [OF ok le(2)] unfolding sp t'_def by (simp add: lws_ring_update_oldest_tail_def)
  moreover have "lws_ring_consume r None True max_count = ring_finish_consume r None t' (?k * elt) (take n (ring_content r))"
    using ring_consume_finish [of elt r None max_count] ok pos assms(2) cut(1) by (simp add: t'_def ring_content_def)
  ultimately have "lws_ring_consume r None True max_count = Some (Done (?k, take n (ring_content r), t', ?r))"
    using r(1,2) by (simp add: ring_finish_consume_def)
  moreover have "ring_ok elt ?r" using ok adv(1) by (auto simp: ring_ok_def ring_pos_ok_def)
  moreover have "ring_content ?r = drop n (ring_content r)" using adv(2) by (simp add: ring_content_def ring_from_def)
  ultimately show ?thesis using len(1) by (intro exI [of _ t'] exI [of _ ?r]) simp
qed

section \<open>The ring as a FIFO\<close>

definition ring_push :: "lws_ring \<Rightarrow> bytes \<Rightarrow> (nat \<times> lws_ring) outcome" where
  "ring_push r xs =
     bind_outcome (lws_ring_insert r xs (min (length xs div ring_element_len r) (2 ^ 32)))
       (\<lambda>(k, r'). Done (k * ring_element_len r, r'))"

definition ring_pull :: "lws_ring \<Rightarrow> nat \<Rightarrow> (bytes \<times> lws_ring) outcome" where
  "ring_pull r n =
     (case lws_ring_consume r None True (min n (2 ^ 32)) of
        None \<Rightarrow> Fault | Some Fault \<Rightarrow> Fault | Some (Done (k, out, t, r')) \<Rightarrow> Done (out, r'))"

lemma small_count:
  assumes "ring_ok elt r" and "m \<le> 2 ^ 32"
  shows "m * elt < 2 ^ 64"
proof -
  have "m * elt \<le> 2 ^ 32 * elt" using assms(2) by (rule mult_le_mono1)
  also have "\<dots> \<le> 2 ^ 32 * 2 ^ 31" using ring_okD(11) [OF assms(1)] by simp
  also have "\<dots> < 2 ^ 64" by simp
  finally show ?thesis .
qed

interpretation ring_fifo: fifo ring_push ring_pull ring_content "ring_ok elt" elt for elt
proof unfold_locales
  fix r :: lws_ring and xs :: bytes
  assume ok: "ring_ok elt r"
  let ?m = "min (length xs div elt) (2 ^ 32)" and ?k = "min (ring_room r) (min (length xs div elt) (2 ^ 32))"
  have "?m * elt \<le> length xs div elt * elt" by (rule mult_le_mono1) simp
  also have "\<dots> \<le> length xs" by simp
  finally have m: "?m * elt \<le> length xs" .
  have "?k * elt \<le> ?m * elt" by (rule mult_le_mono1) (rule min.cobounded2)
  then have k: "?k * elt \<le> length xs" using m by linarith
  obtain r' where r': "lws_ring_insert r xs ?m = Done (?k, r')" "ring_ok elt r'"
    "\<forall>t. ring_pos_ok r t \<and> ring_waiting r t \<le> ring_waiting r (ring_oldest_tail r) \<longrightarrow>
       ring_from r' t = ring_from r t @ take (?k * elt) xs" "ring_oldest_tail r' = ring_oldest_tail r"
    using ring_insert_ok [OF ok m small_count [OF ok]] by auto
  then show "\<exists>k r'. ring_push r xs = Done (k, r') \<and> k \<le> length xs \<and>
      ring_content r' = ring_content r @ take k xs \<and> ring_ok elt r'"
    using ring_oldest_pos [OF ok] ring_okD(2) [OF ok] k by (auto simp: ring_push_def ring_content_def)
next
  fix r :: lws_ring and n :: nat
  assume ok: "ring_ok elt r"
  note r = ring_okD [OF ok]
  let ?m = "min n (2 ^ 32)"
  have len: "length (ring_content r) < 2 ^ 31"
    using ring_content_length [OF ok] ring_waiting_dvd(3) [OF ok ring_oldest_pos [OF ok]] r(4) by simp
  have big: "length (ring_content r) \<le> 2 ^ 32 * elt" using len r(1) by (cases elt) auto
  have big': "length (ring_content r) \<le> n * elt" if "2 ^ 32 \<le> n"
    using big mult_le_mono1 [OF that, of elt] by linarith
  have "take (?m * elt) (ring_content r) = take (n * elt) (ring_content r)"
    "drop (?m * elt) (ring_content r) = drop (n * elt) (ring_content r)"
    using big big' by (cases "n \<le> 2 ^ 32"; simp add: min_def)+
  moreover obtain t' r' where "lws_ring_consume r None True ?m =
      Some (Done (min (length (ring_content r) div elt) ?m, take (?m * elt) (ring_content r), t', r'))"
    "ring_ok elt r'" "ring_content r' = drop (?m * elt) (ring_content r)"
    using ring_consume_single [OF ok small_count [OF ok]] by (metis min.cobounded2)
  ultimately show "\<exists>r'. ring_pull r n = Done (take (n * elt) (ring_content r), r') \<and>
      ring_content r' = drop (n * elt) (ring_content r) \<and> ring_ok elt r'"
    by (auto simp: ring_pull_def)
qed

text \<open>A new ring is empty and satisfies the invariant.\<close>

lemma ring_create_ok:
  assumes "0 < elt" and "0 < count" and "count * elt < 2 ^ 31" and "length b = count * elt"
  shows "\<exists>r. lws_ring_create True (Some b) elt count d = Some r \<and> ring_ok elt r \<and> ring_content r = [] \<and>
    ring_destroyed r = [] \<and> ring_has_destroy r = d \<and> ring_buflen r = count * elt"
proof -
  have "elt \<le> count * elt" using assms(2) by simp
  then have "elt < 2 ^ 31" using assms(3) by linarith
  then have "c_uint elt = elt" "c_uint (count * elt mod 2 ^ 64) = count * elt" using assms(3) by simp_all
  then show ?thesis using assms
    by (simp add: lws_ring_create_def ring_ok_def ring_pos_ok_def ring_content_def ring_from_def ring_gap_def ring_span_def)
qed

section \<open>Properties\<close>

text \<open>C24. The ring is a FIFO of whole elements: over any sequence of insertions and consumptions through
  the ring's own tail, what comes out followed by what is left is what was in it followed by what was
  accepted, byte for byte, across any number of wrap-arounds, and no access leaves the buffer.\<close>

theorem lws_ring_fifo_order:
  assumes "ring_ok elt r"
  shows "\<exists>ins outs r'. fifo_run ring_push ring_pull r ops = Done (ins, outs, r') \<and> ring_ok elt r' \<and>
    outs @ ring_content r' = ring_content r @ ins"
  using ring_fifo.run_order [OF assms] .

theorem lws_ring_fifo_order_witness:
  "\<exists>ins outs r'. fifo_run ring_push ring_pull
      \<lparr>ring_buf = [0, 0, 0, 0, 0, 0], ring_buflen = 6, ring_element_len = 2, ring_head = 4, ring_oldest_tail = 4,
       ring_has_destroy = False, ring_destroyed = []\<rparr> [Push [1, 2, 3, 4], Pull 1, Push [5, 6], Pull 5] = Done (ins, outs, r') \<and>
    ring_ok 2 r' \<and> outs @ ring_content r' = ring_content
      \<lparr>ring_buf = [0, 0, 0, 0, 0, 0], ring_buflen = 6, ring_element_len = 2, ring_head = 4, ring_oldest_tail = 4,
       ring_has_destroy = False, ring_destroyed = []\<rparr> @ ins"
  by (rule lws_ring_fifo_order) (simp add: ring_ok_def ring_pos_ok_def)

text \<open>Every consumer with a tail of its own sees every element: an insertion adds the same new elements
  after what any consumer not behind the oldest tail had waiting, and what one consumer takes changes
  nothing for the others.\<close>

theorem lws_ring_insert_reaches_every_tail:
  assumes "ring_ok elt r" and "max_count * elt \<le> length src" and "max_count * elt < 2 ^ 64"
    and "ring_pos_ok r t" and "ring_waiting r t \<le> ring_waiting r (ring_oldest_tail r)"
  shows "\<exists>k r'. lws_ring_insert r src max_count = Done (k, r') \<and> ring_ok elt r' \<and>
    (\<forall>n. n * elt < 2 ^ 64 \<longrightarrow> (\<exists>t'. lws_ring_consume r' (Some t) True n =
        Some (Done (min (length (ring_from r t) div elt + k) n, take (n * elt) (ring_from r t @ take (k * elt) src), t', r')) \<and>
      ring_from r' t' = drop (n * elt) (ring_from r t @ take (k * elt) src)))"
proof -
  let ?k = "min (ring_room r) max_count"
  obtain r' where r': "lws_ring_insert r src max_count = Done (?k, r')" "ring_ok elt r'"
    "ring_from r' t = ring_from r t @ take (?k * elt) src" "ring_oldest_tail r' = ring_oldest_tail r" "ring_buflen r' = ring_buflen r"
    using ring_insert_ok [OF assms(1-3)] assms(4,5) by blast
  have pos: "ring_pos_ok r' t"
    using assms(4) ring_okD(2) [OF assms(1)] ring_okD(2) [OF r'(2)] r'(5) by (simp add: ring_pos_ok_def)
  have len: "ring_waiting r' t = length (ring_from r' t)" "elt dvd length (ring_from r t)"
    using ring_waiting_dvd(1) [OF assms(1,4)] by (simp_all add: ring_from_def ring_waiting_def)
  have "?k * elt \<le> max_count * elt" by (rule mult_le_mono1) simp
  then have "?k * elt \<le> length src" using assms(2) by linarith
  then have kl: "length (take (?k * elt) src) = ?k * elt" by (simp add: min_absorb2)
  have d: "elt dvd length (ring_from r' t)" using len(2) kl r'(3) by simp
  have q: "length (ring_from r' t) div elt = length (ring_from r t) div elt + ?k"
  proof -
    have "length (ring_from r' t) = ?k * elt + length (ring_from r t)" using kl r'(3) by simp
    then show ?thesis using div_mult_self3 [of elt ?k "length (ring_from r t)"] ring_okD(1) [OF assms(1)] by simp
  qed
  have "\<exists>t'. lws_ring_consume r' (Some t) True n =
        Some (Done (min (length (ring_from r t) div elt + ?k) n, take (n * elt) (ring_from r t @ take (?k * elt) src), t', r')) \<and>
      ring_from r' t' = drop (n * elt) (ring_from r t @ take (?k * elt) src)" if lt: "n * elt < 2 ^ 64" for n
  proof -
    let ?m = "min (ring_waiting r' t div elt) n * elt"
    have m: "take ?m (ring_from r' t) = take (n * elt) (ring_from r' t)" "drop ?m (ring_from r' t) = drop (n * elt) (ring_from r' t)"
      using take_whole_elements [OF d, of n] unfolding len(1) by simp_all
    obtain t' where "lws_ring_consume r' (Some t) True n =
        Some (Done (min (ring_waiting r' t div elt) n, take (n * elt) (ring_from r' t), t', r'))"
      "ring_from r' t' = drop (n * elt) (ring_from r' t)"
      using ring_consume_shared [OF r'(2) pos lt] unfolding m by blast
    then show ?thesis unfolding len(1) q unfolding r'(3) by blast
  qed
  then show ?thesis using r'(1,2) by blast
qed

definition ring_sample :: lws_ring where
  "ring_sample = \<lparr>ring_buf = [1, 2, 3, 4, 0, 0, 0, 0], ring_buflen = 8, ring_element_len = 2, ring_head = 4,
     ring_oldest_tail = 0, ring_has_destroy = True, ring_destroyed = []\<rparr>"

lemma ring_sample_facts:
  "ring_ok 2 ring_sample" "ring_pos_ok ring_sample 2" "ring_waiting ring_sample 2 = 2" "ring_waiting ring_sample 0 = 4"
  "ring_from ring_sample 2 = [3, 4]" "ring_oldest_tail ring_sample = 0" "ring_content ring_sample = [1, 2, 3, 4]"
  "ring_has_destroy ring_sample" "ring_destroyed ring_sample = []"
  by (simp_all add: ring_sample_def ring_ok_def ring_pos_ok_def ring_waiting_def ring_gap_def ring_from_def ring_span_def
      ring_content_def upt_rec)

text \<open>With a callback that frees elements, each element is given to it exactly once and in order: those
  taken through the ring's own tail as they are taken, the rest when the ring is destroyed, which always
  returns.\<close>

theorem lws_ring_frees_each_once:
  assumes "ring_ok elt r" and "ring_has_destroy r" and "max_count * elt < 2 ^ 64"
  shows "\<exists>k out t' r'. lws_ring_consume r None True max_count = Some (Done (k, out, t', r')) \<and>
    out = take (max_count * elt) (ring_content r) \<and>
    ring_destroyed r' = ring_destroyed r @ ring_elements elt out \<and>
    lws_ring_destroy r' = Some (Done (ring_destroyed r' @ ring_elements elt (drop (max_count * elt) (ring_content r))))"
proof -
  obtain t' r' where r': "lws_ring_consume r None True max_count =
      Some (Done (min (length (ring_content r) div elt) max_count, take (max_count * elt) (ring_content r), t', r'))"
    "ring_ok elt r'" "ring_content r' = drop (max_count * elt) (ring_content r)" "ring_has_destroy r'"
    "ring_destroyed r' = ring_destroyed r @ ring_elements elt (take (max_count * elt) (ring_content r))"
    using ring_consume_single [OF assms(1,3)] assms(2) by auto
  note pos = ring_oldest_pos [OF r'(2)] and o = ring_okD [OF r'(2)]
  let ?w = "ring_waiting r' (ring_oldest_tail r')"
  have w: "?w div elt * elt = ?w" "?w < ring_buflen r'" using ring_waiting_dvd [OF r'(2) pos] by simp_all
  have "(ring_oldest_tail r' + ?w) mod ring_buflen r' = ring_head r'"
    using ring_gap_end [OF o(8,6)] by (simp add: ring_waiting_def)
  then have "lws_ring_destroy r' = Some (Done (ring_destroyed r' @ ring_elements elt (ring_content r')))"
    using ring_destroy_to_ok [OF r'(2), of "?w div elt"] w r'(4)
    by (simp add: lws_ring_destroy_def ring_content_def ring_from_def ring_waiting_def)
  then show ?thesis using r'(1,3,5) by auto
qed

text \<open>The counts agree with the space: waiting and free elements together with the one slot that is
  always kept empty make up the ring, for elements of two bytes or more.\<close>

theorem lws_ring_counts:
  assumes "ring_ok elt r" and "2 \<le> elt"
  shows "\<exists>f w. lws_ring_get_count_free_elements r = Done f \<and>
    lws_ring_get_count_waiting_elements r (Some (ring_oldest_tail r)) = Done w \<and>
    w * elt = length (ring_content r) \<and> (f + w + 1) * elt = ring_buflen r"
proof -
  note r = ring_okD [OF assms(1)] and pos = ring_oldest_pos [OF assms(1)]
  let ?w = "ring_waiting r (ring_oldest_tail r)" and ?N = "ring_buflen r"
  note W = ring_waiting_dvd [OF assms(1) pos]
  have d: "elt dvd ?N - elt - ?w" using r(3) W(1) by (auto intro!: dvd_diff_nat)
  have "ring_room r = (?N - elt - ?w) div elt"
    using d assms(2) r(2) by (auto simp: ring_room_def Let_def less_2_cases_iff)
  then have "ring_room r * elt = ?N - elt - ?w" using d by simp
  moreover have "?w div elt * elt = ?w" using W(1) by simp
  ultimately have "(ring_room r + ?w div elt + 1) * elt = ?N" using W(2) by (simp add: distrib_right)
  then show ?thesis
    using ring_free_elements [OF assms(1)] ring_waiting_elements [OF assms(1) pos] \<open>?w div elt * elt = ?w\<close>
      ring_content_length [OF assms(1)] by auto
qed

end
