(* ===== verification/Lws_Dll2.thy ===== *)
theory Lws_Dll2
  imports Lws_Prelude
begin

text \<open>
  The doubly linked lists of \<open>core/lws_dll2.c\<close>.  The objects live in an explicit store: for the address
  of a list member its \<open>next\<close>, \<open>prev\<close> and \<open>owner\<close> pointers, for the address of an owner its \<open>head\<close>, \<open>tail\<close> and
  \<open>count\<close>; \<open>None\<close> is the null pointer.  Every store may be aliased, so the operations are shown correct for
  all lists in the store at once: the named one changes as a list does, and the others do not change.
\<close>

section \<open>Store and operations\<close>

type_synonym addr = nat

record dll_store =
  dll_next :: "addr \<Rightarrow> addr option"
  dll_prev :: "addr \<Rightarrow> addr option"
  dll_owner :: "addr \<Rightarrow> addr option"
  own_head :: "addr \<Rightarrow> addr option"
  own_tail :: "addr \<Rightarrow> addr option"
  own_count :: "addr \<Rightarrow> u32"

text \<open>The assertion that a member without an owner has no neighbours faults.\<close>

definition lws_dll2_is_detached :: "dll_store \<Rightarrow> addr \<Rightarrow> bool outcome" where
  "lws_dll2_is_detached s d =
     (if dll_owner s d \<noteq> None then Done False
      else if dll_next s d \<noteq> None \<or> dll_prev s d \<noteq> None then Fault
      else Done True)"

definition lws_dll2_add_head :: "dll_store \<Rightarrow> addr \<Rightarrow> addr \<Rightarrow> dll_store outcome" where
  "lws_dll2_add_head s d own =
     bind_outcome (lws_dll2_is_detached s d) (\<lambda>det.
       if \<not> det then Fault
       else
         let s = (if own_head s own \<noteq> Some d then s\<lparr>dll_next := (dll_next s)(d := own_head s own)\<rparr> else s);
             s = (case dll_next s d of None \<Rightarrow> s | Some n \<Rightarrow> s\<lparr>dll_prev := (dll_prev s)(n := Some d)\<rparr>);
             s = s\<lparr>dll_prev := (dll_prev s)(d := None)\<rparr>;
             s = s\<lparr>own_head := (own_head s)(own := Some d)\<rparr>;
             s = (if own_tail s own = None then s\<lparr>own_tail := (own_tail s)(own := Some d)\<rparr> else s);
             s = s\<lparr>dll_owner := (dll_owner s)(d := Some own)\<rparr>
         in Done (s\<lparr>own_count := (own_count s)(own := own_count s own + 1)\<rparr>))"

definition lws_dll2_add_before :: "dll_store \<Rightarrow> addr \<Rightarrow> addr \<Rightarrow> dll_store outcome" where
  "lws_dll2_add_before s d after =
     bind_outcome (lws_dll2_is_detached s d) (\<lambda>det.
       if \<not> det then Fault
       else case dll_owner s after of
         None \<Rightarrow> Fault
       | Some own \<Rightarrow>
           let s = s\<lparr>dll_owner := (dll_owner s)(d := Some own)\<rparr>;
               s = s\<lparr>dll_next := (dll_next s)(d := Some after)\<rparr>;
               s = s\<lparr>dll_prev := (dll_prev s)(d := dll_prev s after)\<rparr>;
               s = (case dll_prev s after of
                      Some p \<Rightarrow> s\<lparr>dll_next := (dll_next s)(p := Some d)\<rparr>
                    | None \<Rightarrow> s\<lparr>own_head := (own_head s)(own := Some d)\<rparr>);
               s = s\<lparr>dll_prev := (dll_prev s)(after := Some d)\<rparr>
           in Done (s\<lparr>own_count := (own_count s)(own := own_count s own + 1)\<rparr>))"

definition lws_dll2_add_tail :: "dll_store \<Rightarrow> addr \<Rightarrow> addr \<Rightarrow> dll_store outcome" where
  "lws_dll2_add_tail s d own =
     bind_outcome (lws_dll2_is_detached s d) (\<lambda>det.
       if \<not> det then Fault
       else
         let s = s\<lparr>dll_prev := (dll_prev s)(d := own_tail s own)\<rparr>;
             s = (case dll_prev s d of None \<Rightarrow> s | Some p \<Rightarrow> s\<lparr>dll_next := (dll_next s)(p := Some d)\<rparr>);
             s = s\<lparr>dll_next := (dll_next s)(d := None)\<rparr>;
             s = s\<lparr>own_tail := (own_tail s)(own := Some d)\<rparr>;
             s = (if own_head s own = None then s\<lparr>own_head := (own_head s)(own := Some d)\<rparr> else s);
             s = s\<lparr>dll_owner := (dll_owner s)(d := Some own)\<rparr>
         in Done (s\<lparr>own_count := (own_count s)(own := own_count s own + 1)\<rparr>))"

definition lws_dll2_clear :: "dll_store \<Rightarrow> addr \<Rightarrow> dll_store" where
  "lws_dll2_clear s d =
     s\<lparr>dll_owner := (dll_owner s)(d := None), dll_prev := (dll_prev s)(d := None), dll_next := (dll_next s)(d := None)\<rparr>"

definition lws_dll2_owner_clear :: "dll_store \<Rightarrow> addr \<Rightarrow> dll_store" where
  "lws_dll2_owner_clear s own =
     s\<lparr>own_head := (own_head s)(own := None), own_tail := (own_tail s)(own := None), own_count := (own_count s)(own := 0)\<rparr>"

definition lws_dll2_remove :: "dll_store \<Rightarrow> addr \<Rightarrow> dll_store outcome" where
  "lws_dll2_remove s d =
     bind_outcome (lws_dll2_is_detached s d) (\<lambda>det.
       if det then Done s
       else
         let own = the (dll_owner s d);
             s = (case dll_next s d of None \<Rightarrow> s | Some n \<Rightarrow> s\<lparr>dll_prev := (dll_prev s)(n := dll_prev s d)\<rparr>);
             s = (case dll_prev s d of None \<Rightarrow> s | Some p \<Rightarrow> s\<lparr>dll_next := (dll_next s)(p := dll_next s d)\<rparr>);
             s = (if own_tail s own = Some d then s\<lparr>own_tail := (own_tail s)(own := dll_prev s d)\<rparr> else s);
             s = (if own_head s own = Some d then s\<lparr>own_head := (own_head s)(own := dll_next s d)\<rparr> else s);
             s = s\<lparr>own_count := (own_count s)(own := own_count s own - 1)\<rparr>
         in Done (lws_dll2_clear s d))"

text \<open>The walk of \<open>lws_dll2_add_sorted\<close>, from a member on; \<open>cmp\<close> is the caller's comparison.\<close>

partial_function (option) dll2_sorted_from ::
  "(addr \<Rightarrow> addr \<Rightarrow> int) \<Rightarrow> dll_store \<Rightarrow> addr \<Rightarrow> addr \<Rightarrow> addr option \<Rightarrow> dll_store outcome option" where
  "dll2_sorted_from cmp s d own p =
     (case p of
        None \<Rightarrow> Some (lws_dll2_add_tail s d own)
      | Some p \<Rightarrow>
          if p = d then Some Fault
          else if cmp p d \<ge> 0 then Some (lws_dll2_add_before s d p)
          else dll2_sorted_from cmp s d own (dll_next s p))"

definition lws_dll2_add_sorted ::
  "(addr \<Rightarrow> addr \<Rightarrow> int) \<Rightarrow> dll_store \<Rightarrow> addr \<Rightarrow> addr \<Rightarrow> dll_store outcome option" where
  "lws_dll2_add_sorted cmp s d own = dll2_sorted_from cmp s d own (own_head s own)"

text \<open>The variant whose comparison takes a private pointer.\<close>

definition lws_dll2_add_sorted_priv ::
  "'p \<Rightarrow> ('p \<Rightarrow> addr \<Rightarrow> addr \<Rightarrow> int) \<Rightarrow> dll_store \<Rightarrow> addr \<Rightarrow> addr \<Rightarrow> dll_store outcome option" where
  "lws_dll2_add_sorted_priv priv cmp3 s d own = dll2_sorted_from (cmp3 priv) s d own (own_head s own)"

text \<open>Visiting every member with a callback that may change the store; the successor is fetched before the
  callback runs.\<close>

partial_function (option) dll2_foreach_from ::
  "(addr \<Rightarrow> 'u \<times> dll_store \<Rightarrow> int \<times> 'u \<times> dll_store) \<Rightarrow> 'u \<times> dll_store \<Rightarrow> addr option \<Rightarrow> (int \<times> 'u \<times> dll_store) option" where
  "dll2_foreach_from cb us p =
     (case p of
        None \<Rightarrow> Some (0, us)
      | Some p \<Rightarrow>
          let tp = dll_next (snd us) p; (r, us) = cb p us in
          if r \<noteq> 0 then Some (1, us) else dll2_foreach_from cb us tp)"

definition lws_dll2_foreach_safe ::
  "(addr \<Rightarrow> 'u \<times> dll_store \<Rightarrow> int \<times> 'u \<times> dll_store) \<Rightarrow> 'u \<times> dll_store \<Rightarrow> addr \<Rightarrow> (int \<times> 'u \<times> dll_store) option" where
  "lws_dll2_foreach_safe cb us own = dll2_foreach_from cb us (own_head (snd us) own)"

section \<open>Lists in the store\<close>

text \<open>The members of a list with the right neighbours.\<close>

definition hd_or :: "'a option \<Rightarrow> 'a list \<Rightarrow> 'a option" where
  "hd_or q xs = (case xs of [] \<Rightarrow> q | x # _ \<Rightarrow> Some x)"

definition last_or :: "'a option \<Rightarrow> 'a list \<Rightarrow> 'a option" where
  "last_or p xs = (if xs = [] then p else Some (last xs))"

lemma hd_or_simps [simp]: "hd_or q [] = q" "hd_or q (x # xs) = Some x" "hd_or q (xs @ ys) = hd_or (hd_or q ys) xs"
  by (simp_all add: hd_or_def split: list.splits)

lemma last_or_simps [simp]: "last_or p [] = p" "last_or p (x # xs) = last_or (Some x) xs"
    "last_or p (xs @ ys) = last_or (last_or p xs) ys"
  by (simp_all add: last_or_def)

lemma hd_or_in: "hd_or None xs = Some x \<Longrightarrow> x \<in> set xs"
  by (cases xs) auto

lemma last_or_in: "last_or None xs = Some x \<Longrightarrow> x \<in> set xs"
  by (cases xs rule: rev_cases) auto

lemma ends_cases:
  obtains "xs = []" | h p where "\<And>q. hd_or q xs = Some h" "\<And>q. last_or q xs = Some p" 
      "\<And>z. z \<notin> set xs \<Longrightarrow> z \<noteq> h \<and> z \<noteq> p \<and> h \<noteq> z \<and> p \<noteq> z"
proof (cases "xs = []")
  case False
  then have "hd_or q xs = Some (hd xs)" "last_or q xs = Some (last xs)" for q by (cases xs; simp add: last_or_def)+
  moreover have "z \<noteq> hd xs \<and> z \<noteq> last xs \<and> hd xs \<noteq> z \<and> last xs \<noteq> z" if "z \<notin> set xs" for z
    using that False hd_in_set [of xs] last_in_set [of xs] by metis
  ultimately show ?thesis by (rule that(2))
qed (rule that(1))

fun dll_links :: "dll_store \<Rightarrow> addr option \<Rightarrow> addr list \<Rightarrow> addr option \<Rightarrow> bool" where
  "dll_links s p [] q = True"
| "dll_links s p (x # xs) q = (dll_prev s x = p \<and> dll_next s x = hd_or q xs \<and> dll_links s (Some x) xs q)"

definition dll_list :: "dll_store \<Rightarrow> addr \<Rightarrow> addr list \<Rightarrow> bool" where
  "dll_list s own xs \<longleftrightarrow> distinct xs \<and> dll_links s None xs None \<and> own_head s own = hd_or None xs \<and>
     own_tail s own = last_or None xs \<and> own_count s own = of_nat (length xs) \<and> (\<forall>x. dll_owner s x = Some own \<longleftrightarrow> x \<in> set xs)"

text \<open>All lists of a store at once.\<close>

definition dll_inv :: "dll_store \<Rightarrow> (addr \<Rightarrow> addr list) \<Rightarrow> bool" where
  "dll_inv s L \<longleftrightarrow> (\<forall>own. dll_list s own (L own)) \<and>
     (\<forall>x. dll_owner s x = None \<longrightarrow> dll_next s x = None \<and> dll_prev s x = None)"

lemma dll_links_append:
  "dll_links s p (xs @ ys) q \<longleftrightarrow> dll_links s p xs (hd_or q ys) \<and> dll_links s (last_or p xs) ys q"
  by (induction xs arbitrary: p) auto

lemma dll_links_frame:
  "(\<And>x. x \<in> set xs \<Longrightarrow> dll_prev s' x = dll_prev s x \<and> dll_next s' x = dll_next s x) \<Longrightarrow>
   dll_links s' p xs q = dll_links s p xs q"
  by (induction xs arbitrary: p) auto

lemma dll_links_hd: "dll_links s p xs q \<Longrightarrow> xs \<noteq> [] \<Longrightarrow> dll_prev s (hd xs) = p"
  by (cases xs) auto

lemma dll_links_last: "dll_links s p xs q \<Longrightarrow> xs \<noteq> [] \<Longrightarrow> dll_next s (last xs) = q"
  by (cases xs rule: rev_cases) (auto simp: dll_links_append)

text \<open>A run of members whose outer pointers are redirected.\<close>

lemma dll_links_ends:
  assumes "dll_links s p xs q" and "distinct xs"
    and "\<And>x. x \<in> set xs \<Longrightarrow> dll_prev s' x = (if x = hd xs then p' else dll_prev s x)"
    and "\<And>x. x \<in> set xs \<Longrightarrow> dll_next s' x = (if x = last xs then q' else dll_next s x)"
  shows "dll_links s' p' xs q'"
  using assms
proof (induction xs arbitrary: p p')
  case (Cons x xs)
  have "dll_links s' (Some x) xs q'"
  proof (rule Cons.IH)
    show "dll_links s (Some x) xs q" using Cons.prems(1) by simp
    show "distinct xs" using Cons.prems(2) by simp
    fix y assume y: "y \<in> set xs"
    then have "y \<noteq> x" using Cons.prems(2) by auto
    then show "dll_prev s' y = (if y = hd xs then Some x else dll_prev s y)"
      using y Cons.prems(1) Cons.prems(3) [of y] by (cases xs) auto
    show "dll_next s' y = (if y = last xs then q' else dll_next s y)" using y Cons.prems(4) [of y] by (cases xs) auto
  qed
  moreover have "dll_next s' x = hd_or q' xs"
    using Cons.prems(1,2) Cons.prems(4) [of x] by (cases xs rule: rev_cases) (auto simp: hd_or_def split: list.splits)
  ultimately show ?case using Cons.prems(3) [of x] by simp
qed simp

lemma dll_links_redirect_next:
  assumes l: "dll_links s p xs q" "distinct xs" and prev: "\<And>x. x \<in> set xs \<Longrightarrow> dll_prev s' x = dll_prev s x"
    and "next": "\<And>x. x \<in> set xs \<Longrightarrow> dll_next s' x = (if last_or None xs = Some x then q' else dll_next s x)"
  shows "dll_links s' p xs q'"
proof (rule dll_links_ends [OF l])
  fix x assume x: "x \<in> set xs"
  then have "xs \<noteq> []" by auto
  then show "dll_prev s' x = (if x = hd xs then p else dll_prev s x)" using prev [OF x] dll_links_hd [OF l(1)] by simp
  show "dll_next s' x = (if x = last xs then q' else dll_next s x)"
    using "next" [OF x] \<open>xs \<noteq> []\<close> by (auto simp: last_or_def)
qed

lemma dll_links_redirect_prev:
  assumes l: "dll_links s p xs q" "distinct xs" and "next": "\<And>x. x \<in> set xs \<Longrightarrow> dll_next s' x = dll_next s x"
    and prev: "\<And>x. x \<in> set xs \<Longrightarrow> dll_prev s' x = (if hd_or None xs = Some x then p' else dll_prev s x)"
  shows "dll_links s' p' xs q"
proof (rule dll_links_ends [OF l])
  fix x assume x: "x \<in> set xs"
  then have "xs \<noteq> []" by auto
  then show "dll_next s' x = (if x = last xs then q else dll_next s x)"
    using "next" [OF x] dll_links_last [OF l(1)] by simp
  show "dll_prev s' x = (if x = hd xs then p' else dll_prev s x)"
    using prev [OF x] \<open>xs \<noteq> []\<close> by (cases xs) auto
qed

text \<open>Changing one list and nothing else.\<close>

lemma dll_inv_update:
  assumes inv: "dll_inv s L" and xs: "dll_list s' own xs"
    and others: "\<And>o'. o' \<noteq> own \<Longrightarrow> own_head s' o' = own_head s o' \<and> own_tail s' o' = own_tail s o' \<and> own_count s' o' = own_count s o'"
    and frame: "\<And>x. x \<notin> set (L own) \<Longrightarrow> x \<notin> set xs \<Longrightarrow>
      dll_prev s' x = dll_prev s x \<and> dll_next s' x = dll_next s x \<and> dll_owner s' x = dll_owner s x"
    and new: "\<And>x. x \<in> set xs \<Longrightarrow> x \<notin> set (L own) \<Longrightarrow> dll_owner s x = None"
    and gone: "\<And>x. x \<in> set (L own) \<Longrightarrow> x \<notin> set xs \<Longrightarrow> dll_owner s' x = None \<and> dll_prev s' x = None \<and> dll_next s' x = None"
  shows "dll_inv s' (L(own := xs))"
proof -
  have list: "dll_list s o' (L o')" for o' using inv by (simp add: dll_inv_def)
  have ow': "x \<in> set xs \<longleftrightarrow> dll_owner s' x = Some own" for x using xs by (simp add: dll_list_def)
  have "dll_list s' o' (L o')" if o': "o' \<noteq> own" for o'
  proof -
    have ow: "x \<in> set (L p) \<longleftrightarrow> dll_owner s x = Some p" for x p using list [of p] by (simp add: dll_list_def)
    have out: "x \<notin> set (L own) \<and> x \<notin> set xs" if "x \<in> set (L o')" for x
      using that new [of x] o' unfolding ow by auto
    have "dll_owner s' x = Some o' \<longleftrightarrow> x \<in> set (L o')" for x
    proof (cases "x \<in> set (L own) \<or> x \<in> set xs")
      case True
      then have "dll_owner s' x = Some own \<or> dll_owner s' x = None" using gone [of x] ow' [of x] by (cases "x \<in> set xs") auto
      then show ?thesis using True out [of x] o' by auto
    next
      case False
      then show ?thesis using frame [of x] list [of o'] by (simp add: dll_list_def)
    qed
    then show ?thesis using list [of o'] others [OF o'] dll_links_frame [of "L o'" s' s] frame out
      by (simp add: dll_list_def)
  qed
  then have "dll_list s' o' ((L(own := xs)) o')" for o' using xs by simp
  moreover have "dll_next s' x = None \<and> dll_prev s' x = None" if x: "dll_owner s' x = None" for x
  proof (cases "x \<in> set (L own) \<or> x \<in> set xs")
    case True
    then show ?thesis using x gone [of x] ow' [of x] by auto
  next
    case False
    then show ?thesis using x frame [of x] inv by (simp add: dll_inv_def)
  qed
  ultimately show ?thesis by (simp add: dll_inv_def)
qed

lemma dll_listD:
  assumes "dll_inv s L"
  shows "distinct (L own)" "dll_links s None (L own) None" "own_head s own = hd_or None (L own)"
    "own_tail s own = last_or None (L own)" "own_count s own = of_nat (length (L own))"
    "dll_owner s x = Some own \<longleftrightarrow> x \<in> set (L own)"
  using assms by (auto simp: dll_inv_def dll_list_def)

lemma dll_detached:
  assumes "dll_inv s L" and "dll_owner s d = None"
  shows "lws_dll2_is_detached s d = Done True" "d \<notin> set (L own)" "dll_next s d = None" "dll_prev s d = None"
  using assms dll_listD(6) [OF assms(1), of d own] by (auto simp: dll_inv_def lws_dll2_is_detached_def)

section \<open>The operations on lists\<close>

definition opt_upd :: "('a \<Rightarrow> 'b) \<Rightarrow> 'a option \<Rightarrow> 'b \<Rightarrow> 'a \<Rightarrow> 'b" where
  "opt_upd f k v = (case k of None \<Rightarrow> f | Some k \<Rightarrow> f(k := v))"

lemma opt_upd_apply [simp]: "opt_upd f k v x = (if k = Some x then v else f x)"
  by (auto simp: opt_upd_def split: option.splits)

lemma opt_upd_simps [simp]: "opt_upd f None v = f" "opt_upd f (Some k) v = f(k := v)"
  by (simp_all add: opt_upd_def)

text \<open>What linking a detached member in between two parts of a list, and unlinking a member, leave behind.\<close>

definition dll_splice :: "dll_store \<Rightarrow> addr \<Rightarrow> addr list \<Rightarrow> addr \<Rightarrow> addr list \<Rightarrow> dll_store" where
  "dll_splice s own xs d ys = s\<lparr>
     dll_next := opt_upd ((dll_next s)(d := hd_or None ys)) (last_or None xs) (Some d),
     dll_prev := opt_upd ((dll_prev s)(d := last_or None xs)) (hd_or None ys) (Some d),
     dll_owner := (dll_owner s)(d := Some own),
     own_head := (own_head s)(own := hd_or (Some d) xs),
     own_tail := (own_tail s)(own := last_or (Some d) ys),
     own_count := (own_count s)(own := own_count s own + 1)\<rparr>"

definition dll_cut :: "dll_store \<Rightarrow> addr \<Rightarrow> addr list \<Rightarrow> addr \<Rightarrow> addr list \<Rightarrow> dll_store" where
  "dll_cut s own xs d ys = s\<lparr>
     dll_next := (opt_upd (dll_next s) (last_or None xs) (hd_or None ys))(d := None),
     dll_prev := (opt_upd (dll_prev s) (hd_or None ys) (last_or None xs))(d := None),
     dll_owner := (dll_owner s)(d := None),
     own_head := (own_head s)(own := hd_or None (xs @ ys)),
     own_tail := (own_tail s)(own := last_or None (xs @ ys)),
     own_count := (own_count s)(own := own_count s own - 1)\<rparr>"

lemma splice_inv:
  assumes inv: "dll_inv s L" and d: "dll_owner s d = None" and l: "L own = xs @ ys"
  shows "dll_inv (dll_splice s own xs d ys) (L(own := xs @ d # ys))"
proof -
  let ?s = "dll_splice s own xs d ys"
  have D: "distinct (xs @ ys)" and links: "dll_links s None xs (hd_or None ys)" "dll_links s (last_or None xs) ys None"
    and count: "own_count s own = of_nat (length (xs @ ys))" and ow: "dll_owner s x = Some own \<longleftrightarrow> x \<in> set (xs @ ys)" for x
    using dll_listD [OF inv, where own = own] by (simp_all add: l dll_links_append)
  have dn: "d \<notin> set xs" "d \<notin> set ys" using dll_detached(2) [OF inv d, of own] l by auto
  have "dll_links ?s None xs (Some d)"
    using D dn by (intro dll_links_redirect_next [OF links(1)])
      (auto simp: dll_splice_def dest: hd_or_in last_or_in)
  moreover have "dll_links ?s (Some d) ys None"
    using D dn by (intro dll_links_redirect_prev [OF links(2)])
      (auto simp: dll_splice_def dest: hd_or_in last_or_in)
  moreover have "dll_prev ?s d = last_or None xs" "dll_next ?s d = hd_or None ys"
    using dn hd_or_in [of ys d] last_or_in [of xs d] by (auto simp: dll_splice_def)
  ultimately have "dll_links ?s None (xs @ d # ys) None" by (simp add: dll_links_append)
  moreover have "dll_owner ?s x = Some own \<longleftrightarrow> x \<in> set (xs @ d # ys)" for x
    using ow [of x] by (simp add: dll_splice_def)
  ultimately have "dll_list ?s own (xs @ d # ys)"
    using D dn count by (simp add: dll_list_def dll_splice_def)
  then show ?thesis
  proof (rule dll_inv_update [OF inv])
    fix x
    assume "x \<notin> set (L own)" "x \<notin> set (xs @ d # ys)"
    then show "dll_prev ?s x = dll_prev s x \<and> dll_next ?s x = dll_next s x \<and> dll_owner ?s x = dll_owner s x"
      using hd_or_in [of ys x] last_or_in [of xs x] by (auto simp: dll_splice_def)
  qed (use d l in \<open>auto simp: dll_splice_def\<close>)
qed

lemma cut_inv:
  assumes inv: "dll_inv s L" and l: "L own = xs @ d # ys"
  shows "dll_inv (dll_cut s own xs d ys) (L(own := xs @ ys))"
proof -
  let ?s = "dll_cut s own xs d ys"
  have D: "distinct (xs @ d # ys)" and links: "dll_links s None xs (Some d)" "dll_links s (Some d) ys None"
    and count: "own_count s own = of_nat (length (xs @ d # ys))"
    and ow: "dll_owner s x = Some own \<longleftrightarrow> x \<in> set (xs @ d # ys)" for x
    using dll_listD [OF inv, where own = own] by (simp_all add: l dll_links_append)
  have "dll_links ?s None xs (hd_or None ys)"
    using D by (intro dll_links_redirect_next [OF links(1)])
      (auto simp: dll_cut_def dest: hd_or_in last_or_in)
  moreover have "dll_links ?s (last_or None xs) ys None"
    using D by (intro dll_links_redirect_prev [OF links(2)])
      (auto simp: dll_cut_def dest: hd_or_in last_or_in)
  ultimately have "dll_links ?s None (xs @ ys) None" by (simp add: dll_links_append)
  moreover have "dll_owner ?s x = Some own \<longleftrightarrow> x \<in> set (xs @ ys)" for x
    using ow [of x] D by (auto simp: dll_cut_def)
  ultimately have "dll_list ?s own (xs @ ys)"
    using D count by (simp add: dll_list_def dll_cut_def)
  then show ?thesis
  proof (rule dll_inv_update [OF inv])
    fix x
    assume "x \<notin> set (L own)" "x \<notin> set (xs @ ys)"
    then show "dll_prev ?s x = dll_prev s x \<and> dll_next ?s x = dll_next s x \<and> dll_owner ?s x = dll_owner s x"
      using hd_or_in [of ys x] last_or_in [of xs x] l by (auto simp: dll_cut_def)
  qed (use l in \<open>auto simp: dll_cut_def\<close>)
qed

lemma add_head_ok:
  assumes inv: "dll_inv s L" and d: "dll_owner s d = None"
  shows "\<exists>s'. lws_dll2_add_head s d own = Done s' \<and> dll_inv s' (L(own := d # L own))"
proof -
  note l = dll_listD [OF inv, where own = own] and det = dll_detached [OF inv d]
  have "own_head s own \<noteq> Some d" using l(3) det(2) [of own] hd_or_in [of "L own" d] by auto
  then have "lws_dll2_add_head s d own = Done (dll_splice s own [] d (L own))"
    using det l(3,4) by (cases "L own" rule: ends_cases)
      (auto simp: lws_dll2_add_head_def dll_splice_def Let_def fun_upd_twist fun_upd_idem)
  then show ?thesis using splice_inv [OF inv d, of own "[]" "L own"] by auto
qed

lemma add_tail_ok:
  assumes inv: "dll_inv s L" and d: "dll_owner s d = None"
  shows "\<exists>s'. lws_dll2_add_tail s d own = Done s' \<and> dll_inv s' (L(own := L own @ [d]))"
proof -
  note l = dll_listD [OF inv, where own = own] and det = dll_detached [OF inv d]
  have "own_tail s own \<noteq> Some d" using l(4) det(2) [of own] last_or_in [of "L own" d] by auto
  then have "lws_dll2_add_tail s d own = Done (dll_splice s own (L own) d [])"
    using det l(3,4) by (cases "L own" rule: ends_cases)
      (auto simp: lws_dll2_add_tail_def dll_splice_def Let_def fun_upd_twist fun_upd_idem)
  then show ?thesis using splice_inv [OF inv d, of own "L own" "[]"] by auto
qed

lemma add_before_ok:
  assumes inv: "dll_inv s L" and d: "dll_owner s d = None" and l: "L own = xs @ a # ys"
  shows "\<exists>s'. lws_dll2_add_before s d a = Done s' \<and> dll_inv s' (L(own := xs @ d # a # ys))"
proof -
  note L = dll_listD [OF inv, where own = own] and det = dll_detached [OF inv d]
  have "a \<noteq> d" using det(2) [of own] l by auto
  moreover have "dll_owner s a = Some own" using L(6) [of a] l by simp
  moreover have "dll_prev s a = last_or None xs" using L(2) l by (simp add: dll_links_append)
  moreover have "last_or None xs \<noteq> Some d" using det(2) [of own] l last_or_in [of xs d] by auto
  moreover have "own_head s own = hd_or (Some a) xs" "own_tail s own = last_or (Some a) ys" using L(3,4) l by simp_all
  ultimately have "lws_dll2_add_before s d a = Done (dll_splice s own xs d (a # ys))"
    using det(1) by (cases xs rule: ends_cases; cases ys rule: ends_cases)
      (auto simp: lws_dll2_add_before_def dll_splice_def Let_def fun_upd_twist fun_upd_idem)
  then show ?thesis using splice_inv [OF inv d l] by auto
qed

lemma remove_ok:
  assumes inv: "dll_inv s L" and l: "L own = xs @ d # ys"
  shows "\<exists>s'. lws_dll2_remove s d = Done s' \<and> dll_inv s' (L(own := xs @ ys))"
proof -
  note L = dll_listD [OF inv, where own = own]
  have "dll_owner s d = Some own" using L(6) [of d] l by simp
  moreover have "dll_prev s d = last_or None xs" "dll_next s d = hd_or None ys"
    using L(2) l by (simp_all add: dll_links_append)
  moreover have "d \<notin> set xs" "d \<notin> set ys" using L(1) l by auto
  moreover have "own_head s own = hd_or (Some d) xs" "own_tail s own = last_or (Some d) ys" using L(3,4) l by simp_all
  ultimately have "lws_dll2_remove s d = Done (dll_cut s own xs d ys)"
    by (cases xs rule: ends_cases; cases ys rule: ends_cases)
      (auto simp: lws_dll2_remove_def lws_dll2_is_detached_def lws_dll2_clear_def dll_cut_def Let_def fun_upd_twist fun_upd_idem)
  then show ?thesis using cut_inv [OF inv l] by auto
qed

text \<open>The lists as values: what each operation means when every owner holds a list of members.\<close>

datatype dll_op = Add_Head addr addr | Add_Tail addr addr | Add_Before addr addr | Remove_Member addr

fun dll_step :: "dll_store \<Rightarrow> dll_op \<Rightarrow> dll_store outcome" where
  "dll_step s (Add_Head d own) = lws_dll2_add_head s d own"
| "dll_step s (Add_Tail d own) = lws_dll2_add_tail s d own"
| "dll_step s (Add_Before d a) = lws_dll2_add_before s d a"
| "dll_step s (Remove_Member d) = lws_dll2_remove s d"

fun dll_run :: "dll_store \<Rightarrow> dll_op list \<Rightarrow> dll_store outcome" where
  "dll_run s [] = Done s"
| "dll_run s (c # cs) = bind_outcome (dll_step s c) (\<lambda>s. dll_run s cs)"

inductive list_step :: "(addr \<Rightarrow> addr list) \<Rightarrow> dll_op \<Rightarrow> (addr \<Rightarrow> addr list) \<Rightarrow> bool" where
  head: "(\<And>q. d \<notin> set (L q)) \<Longrightarrow> list_step L (Add_Head d own) (L(own := d # L own))"
| tail: "(\<And>q. d \<notin> set (L q)) \<Longrightarrow> list_step L (Add_Tail d own) (L(own := L own @ [d]))"
| before: "(\<And>q. d \<notin> set (L q)) \<Longrightarrow> L own = xs @ a # ys \<Longrightarrow>
    list_step L (Add_Before d a) (L(own := xs @ d # a # ys))"
| remove: "L own = xs @ d # ys \<Longrightarrow> list_step L (Remove_Member d) (L(own := xs @ ys))"
| remove_detached: "(\<And>q. d \<notin> set (L q)) \<Longrightarrow> list_step L (Remove_Member d) L"

inductive list_run :: "(addr \<Rightarrow> addr list) \<Rightarrow> dll_op list \<Rightarrow> (addr \<Rightarrow> addr list) \<Rightarrow> bool" where
  "list_run L [] L"
| "list_step L c L' \<Longrightarrow> list_run L' cs L'' \<Longrightarrow> list_run L (c # cs) L''"

lemma dll_detachedI: "dll_inv s L \<Longrightarrow> (\<And>q. d \<notin> set (L q)) \<Longrightarrow> dll_owner s d = None"
  using dll_listD(6) [of s L d] by (cases "dll_owner s d") auto

lemma dll_step_refines:
  assumes "list_step L c L'" and inv: "dll_inv s L"
  shows "\<exists>s'. dll_step s c = Done s' \<and> dll_inv s' L'"
  using assms(1)
proof cases
  case (head d own)
  then show ?thesis using add_head_ok [OF inv dll_detachedI [OF inv]] by simp
next
  case (tail d own)
  then show ?thesis using add_tail_ok [OF inv dll_detachedI [OF inv]] by simp
next
  case (before d own xs a ys)
  then show ?thesis using add_before_ok [OF inv dll_detachedI [OF inv]] by simp
next
  case (remove own xs d ys)
  then show ?thesis using remove_ok [OF inv] by simp
next
  case (remove_detached d)
  then show ?thesis using dll_detached(1) [OF inv dll_detachedI [OF inv]] inv by (simp add: lws_dll2_remove_def)
qed

text \<open>C23. The pointer operations implement lists.  Whatever lists the owners hold, and whichever sequence of
  \<open>lws_dll2_add_head\<close>, \<open>lws_dll2_add_tail\<close>, \<open>lws_dll2_add_before\<close> and \<open>lws_dll2_remove\<close> is applied to them, so
  long as only members of no list are added, no assertion fails and the store ends up holding the lists that the same
  sequence of operations on plain lists gives: every other list is untouched, next and prev pointers, the
  ends, the owner of each member and the count all agree.\<close>

theorem lws_dll2_refines_lists:
  assumes "dll_inv s L" and "list_run L cs L'"
  shows "\<exists>s'. dll_run s cs = Done s' \<and> dll_inv s' L'"
  using assms(2,1)
proof (induction arbitrary: s rule: list_run.induct)
  case (2 L c L' cs L'')
  obtain s' where "dll_step s c = Done s'" "dll_inv s' L'" using dll_step_refines [OF "2.hyps"(1) "2.prems"] by blast
  then show ?case using "2.IH" by simp
qed simp

section \<open>Sorted insertion\<close>

fun sorted_ins :: "(addr \<Rightarrow> addr \<Rightarrow> int) \<Rightarrow> addr \<Rightarrow> addr list \<Rightarrow> addr list" where
  "sorted_ins cmp d [] = [d]"
| "sorted_ins cmp d (x # xs) = (if cmp x d \<ge> 0 then d # x # xs else x # sorted_ins cmp d xs)"

lemma dll2_sorted_from_ok:
  assumes inv: "dll_inv s L" and d: "dll_owner s d = None" and "L own = xs @ ys"
  shows "\<exists>s'. dll2_sorted_from cmp s d own (hd_or None ys) = Some (Done s') \<and> dll_inv s' (L(own := xs @ sorted_ins cmp d ys))"
  using assms(3)
proof (induction ys arbitrary: xs)
  case Nil
  then show ?case using add_tail_ok [OF inv d, of own] by (simp add: dll2_sorted_from.simps [of _ _ _ _ None] fun_upd_def)
next
  case (Cons y ys)
  have "dll_next s y = hd_or None ys"
    using dll_listD(2) [OF inv, of own] Cons.prems by (simp add: dll_links_append)
  moreover have "y \<noteq> d" using dll_detached(2) [OF inv d, of own] Cons.prems by auto
  ultimately show ?case
    using Cons.IH [of "xs @ [y]"] add_before_ok [OF inv d Cons.prems] Cons.prems
    by (simp add: dll2_sorted_from.simps [of _ _ _ _ "Some y"] fun_upd_def)
qed

lemma sorted_ins_filter:
  assumes cmp: "\<And>x. cmp x d \<ge> 0 \<longleftrightarrow> key d \<le> (key x :: 'k :: linorder)" and "sorted (map key xs)"
  shows "sorted_ins cmp d xs = filter (\<lambda>x. key x < key d) xs @ d # filter (\<lambda>x. key d \<le> key x) xs"
  using assms(2)
proof (induction xs)
  case (Cons x xs)
  show ?case
  proof (cases "key d \<le> key x")
    case True
    then have "filter (\<lambda>x. key x < key d) (x # xs) = []" "filter (\<lambda>x. key d \<le> key x) (x # xs) = x # xs"
      using Cons.prems by (auto simp: filter_empty_conv filter_id_conv)
    then show ?thesis using True cmp [of x] by simp
  next
    case False
    then show ?thesis using Cons cmp [of x] by simp
  qed
qed simp

text \<open>Sorted insertion.  When the caller's comparison says whether the key of the first member is at least
  that of the second, and a list is in the order of its keys, \<open>lws_dll2_add_sorted\<close> puts a detached member
  after all members with a smaller key and before all others, those with an equal key included; the walk ends, no
  assertion fails, and the other lists are untouched.\<close>

theorem lws_dll2_add_sorted_places:
  assumes "dll_inv s L" and "dll_owner s d = None"
    and "\<And>x. cmp x d \<ge> 0 \<longleftrightarrow> key d \<le> (key x :: 'k :: linorder)" and "sorted (map key (L own))"
  shows "\<exists>s'. lws_dll2_add_sorted cmp s d own = Some (Done s') \<and>
    dll_inv s' (L(own := filter (\<lambda>x. key x < key d) (L own) @ d # filter (\<lambda>x. key d \<le> key x) (L own)))"
  using dll2_sorted_from_ok [OF assms(1,2), of own "[]" "L own" cmp]
  by (simp add: lws_dll2_add_sorted_def dll_listD(3) [OF assms(1)] sorted_ins_filter [of cmp d key, OF assms(3,4)])

section \<open>Visiting the members\<close>

text \<open>Visiting a list that is known beforehand.\<close>

fun visit :: "(addr \<Rightarrow> 'w \<Rightarrow> int \<times> 'w) \<Rightarrow> 'w \<Rightarrow> addr list \<Rightarrow> int \<times> 'w" where
  "visit cb w [] = (0, w)"
| "visit cb w (x # xs) = (case cb x w of (r, w') \<Rightarrow> if r \<noteq> 0 then (1, w') else visit cb w' xs)"

lemma dll2_foreach_from_ok:
  assumes keeps: "\<And>u s L p xs ys r u' s'. dll_inv s L \<Longrightarrow> L own = xs @ p # ys \<Longrightarrow> cb p (u, s) = (r, u', s') \<Longrightarrow>
      \<exists>L' xs'. dll_inv s' L' \<and> L' own = xs' @ ys"
    and "dll_inv s L" "L own = xs @ ys"
  shows "dll2_foreach_from cb (u, s) (hd_or None ys) = Some (visit cb (u, s) ys)"
  using assms(2,3)
proof (induction ys arbitrary: xs u s L)
  case Nil
  then show ?case by (simp add: dll2_foreach_from.simps)
next
  case (Cons y ys)
  obtain r u' s' where cb: "cb y (u, s) = (r, u', s')" by (cases "cb y (u, s)") auto
  obtain L' xs' where l: "dll_inv s' L'" "L' own = xs' @ ys" using keeps [OF Cons.prems cb] by blast
  have "dll_next s y = hd_or None ys"
    using dll_listD(2) [OF Cons.prems(1), of own] Cons.prems(2) by (simp add: dll_links_append)
  then show ?case using Cons.IH [OF l, of u'] cb by (simp add: dll2_foreach_from.simps [of _ _ "Some y"])
qed

text \<open>Safe iteration.  Let every call of the callback leave the members after the one it is given in place,
  whatever else it does to the store: it may remove and free the member it was called for, or add members before it.
  Then \<open>lws_dll2_foreach_safe\<close> ends, calls the callback once for each of the members the list had at the
  start, in order, and stops after the first call that returns nonzero, with the result 1, or else with 0.\<close>

theorem lws_dll2_foreach_safe_visits_all:
  assumes "\<And>u s L p xs ys r u' s'. dll_inv s L \<Longrightarrow> L own = xs @ p # ys \<Longrightarrow> cb p (u, s) = (r, u', s') \<Longrightarrow>
      \<exists>L' xs'. dll_inv s' L' \<and> L' own = xs' @ ys"
    and "dll_inv s L"
  shows "lws_dll2_foreach_safe cb (u, s) own = Some (visit cb (u, s) (L own))"
  using dll2_foreach_from_ok [where cb = cb and own = own and s = s and L = L and xs = "[]" and ys = "L own" and u = u] assms
  by (simp add: lws_dll2_foreach_safe_def dll_listD(3) [OF assms(2)])

section \<open>Instances\<close>

definition empty_store :: dll_store where
  "empty_store = \<lparr>dll_next = (\<lambda>_. None), dll_prev = (\<lambda>_. None), dll_owner = (\<lambda>_. None), own_head = (\<lambda>_. None),
     own_tail = (\<lambda>_. None), own_count = (\<lambda>_. 0)\<rparr>"

lemma empty_store_inv: "dll_inv empty_store (\<lambda>_. [])"
  by (simp add: dll_inv_def dll_list_def empty_store_def)

lemma example_run: "list_run (\<lambda>_. []) [Add_Tail 5 0, Add_Before 6 5, Remove_Member 5] ((\<lambda>_. [])(0 := [6]))"
proof (intro list_run.intros)
  show "list_step (\<lambda>_. []) (Add_Tail 5 0) ((\<lambda>_. [])(0 := [5]))"
    using list_step.tail [of 5 "\<lambda>_. []" 0] by simp
  show "list_step ((\<lambda>_. [])(0 := [5])) (Add_Before 6 5) ((\<lambda>_. [])(0 := [6, 5]))"
    using list_step.before [of 6 "(\<lambda>_. [])(0 := [5])" 0 "[]" 5 "[]"] by simp
  show "list_step ((\<lambda>_. [])(0 := [6, 5])) (Remove_Member 5) ((\<lambda>_. [])(0 := [6]))"
    using list_step.remove [of "(\<lambda>_. [])(0 := [6, 5])" 0 "[6]" 5 "[]"] by simp
qed (rule list_run.intros)

theorem lws_dll2_refines_lists_witness:
  "\<exists>s'. dll_run empty_store [Add_Tail 5 0, Add_Before 6 5, Remove_Member 5] = Done s' \<and> dll_inv s' ((\<lambda>_. [])(0 := [6]))"
  by (rule lws_dll2_refines_lists [OF empty_store_inv example_run])

end
