(* ===== verification/Lws_Sul.thy ===== *)
theory Lws_Sul
  imports Lws_Dll2
begin

text \<open>
  The scheduler of \<open>core-net/sorted-usec-list.c\<close>: timed callbacks (suls) on lists sorted by their due time, one
  list for events that may be missed while suspended and one for events that wake the system.  The lists are
  those of \<^theory_text>\<open>Lws_Dll2\<close>; the list member is the first field of a sul, so they share an address.  The
  clock, the callbacks and the \<open>attach\<close> operation are supplied by the platform and the application and are parameters.
\<close>

section \<open>State\<close>

text \<open>\<open>lws_usec_t\<close> is \<open>int64_t\<close>; arithmetic that leaves its range is undefined.\<close>

definition usec_ok :: "int \<Rightarrow> bool" where
  "usec_ok t \<longleftrightarrow> - (2 ^ 63) \<le> t \<and> t < 2 ^ 63"

definition LWS_SET_TIMER_USEC_CANCEL :: int where
  "LWS_SET_TIMER_USEC_CANCEL = -1"

definition LWSSULLI_MISS_IF_SUSPENDED :: nat where
  "LWSSULLI_MISS_IF_SUSPENDED = 0"

definition LWSSULLI_WAKE_IF_SUSPENDED :: nat where
  "LWSSULLI_WAKE_IF_SUSPENDED = 1"

text \<open>The part of \<open>lws_context_per_thread\<close> in use; \<open>pt_user\<close> is everything the callbacks see besides.  The owner
  \<open>pt_sul_owner[n]\<close> has the address \<open>sul_owner n\<close>.\<close>

record 'u sul_pt =
  sul_store :: dll_store
  sul_us :: "addr \<Rightarrow> int"
  sul_cb :: "addr \<Rightarrow> nat option"
  attach_count :: nat
  inside_lws_service :: bool
  pt_user :: 'u

definition sul_owner :: "nat \<Rightarrow> addr" where
  "sul_owner n = n"

text \<open>The result of \<open>system_ops->attach\<close> when asked for an item, and the environment.\<close>

datatype attach_result = Attach_Problem | Attach_None | Attach_Item nat

record 'u sul_env =
  run_cb :: "nat \<Rightarrow> addr \<Rightarrow> 'u sul_pt \<Rightarrow> 'u sul_pt"
  now_usecs :: "'u sul_pt \<Rightarrow> int"
  attach_op :: "('u sul_pt \<Rightarrow> attach_result \<times> 'u sul_pt) option"
  attach_cb :: "nat \<Rightarrow> 'u sul_pt \<Rightarrow> 'u sul_pt"

type_synonym ('u, 'r) sul_result = "('r \<times> 'u sul_pt) outcome option"

section \<open>Operations\<close>

definition sul_compare :: "(addr \<Rightarrow> int) \<Rightarrow> addr \<Rightarrow> addr \<Rightarrow> int" where
  "sul_compare us d i = (if us d > us i then 1 else if us d < us i then -1 else 0)"

definition with_store :: "'u sul_pt \<Rightarrow> dll_store outcome option \<Rightarrow> 'u sul_pt outcome option" where
  "with_store pt m = map_option (\<lambda>r. bind_outcome r (\<lambda>s. Done (pt\<lparr>sul_store := s\<rparr>))) m"

definition lws_sul_insert :: "'u sul_pt \<Rightarrow> addr \<Rightarrow> addr \<Rightarrow> 'u sul_pt outcome option" where
  "lws_sul_insert pt own sul =
     (case lws_dll2_remove (sul_store pt) sul of
        Fault \<Rightarrow> Some Fault
      | Done s \<Rightarrow>
          if sul_cb pt sul = None then Some Fault
          else with_store pt (lws_dll2_add_sorted (sul_compare (sul_us pt)) s sul own))"

definition lws_sul_cancel :: "'u sul_pt \<Rightarrow> addr \<Rightarrow> 'u sul_pt outcome" where
  "lws_sul_cancel pt sul =
     bind_outcome (lws_dll2_remove (sul_store pt) sul) (\<lambda>s.
       Done (pt\<lparr>sul_store := s, sul_us := (sul_us pt)(sul := 0)\<rparr>))"

definition lws_sul2_schedule :: "'u sul_pt \<Rightarrow> nat \<Rightarrow> addr \<Rightarrow> 'u sul_pt outcome option" where
  "lws_sul2_schedule pt flags sul =
     (if sul_cb pt sul = None then Some Fault
      else lws_sul_insert pt (sul_owner (if odd flags then 1 else 0)) sul)"

definition sul_schedule_on :: "nat \<Rightarrow> 'u sul_env \<Rightarrow> 'u sul_pt \<Rightarrow> addr \<Rightarrow> nat option \<Rightarrow> int \<Rightarrow> 'u sul_pt outcome option" where
  "sul_schedule_on flags env pt sul cb us =
     (if cb = None then Some Fault
      else if us = LWS_SET_TIMER_USEC_CANCEL then Some (lws_sul_cancel pt sul)
      else
        let due = now_usecs env pt + us; pt = pt\<lparr>sul_cb := (sul_cb pt)(sul := cb)\<rparr> in
        if \<not> usec_ok due then Some Fault
        else lws_sul2_schedule (pt\<lparr>sul_us := (sul_us pt)(sul := due)\<rparr>) flags sul)"

definition lws_sul_schedule :: "'u sul_env \<Rightarrow> 'u sul_pt \<Rightarrow> addr \<Rightarrow> nat option \<Rightarrow> int \<Rightarrow> 'u sul_pt outcome option" where
  "lws_sul_schedule = sul_schedule_on LWSSULLI_MISS_IF_SUSPENDED"

definition lws_sul_schedule_wakesuspend ::
  "'u sul_env \<Rightarrow> 'u sul_pt \<Rightarrow> addr \<Rightarrow> nat option \<Rightarrow> int \<Rightarrow> 'u sul_pt outcome option" where
  "lws_sul_schedule_wakesuspend = sul_schedule_on LWSSULLI_WAKE_IF_SUSPENDED"

text \<open>The search for the list whose head is due first.\<close>

fun sul_hit :: "'u sul_pt \<Rightarrow> addr list \<Rightarrow> (addr \<times> int) option \<Rightarrow> (addr \<times> int) option outcome" where
  "sul_hit pt [] hit = Done hit"
| "sul_hit pt (own # owns) hit =
     (if own_count (sul_store pt) own = 0 then sul_hit pt owns hit
      else case own_head (sul_store pt) own of
        None \<Rightarrow> Fault
      | Some sul \<Rightarrow>
          let us = sul_us pt sul in
          sul_hit pt owns (case hit of None \<Rightarrow> Some (sul, us)
            | Some (h, lowest) \<Rightarrow> if us \<le> lowest then Some (sul, us) else Some (h, lowest)))"

text \<open>One round: the result of the service call, or the state after a callback.\<close>

definition sul_service_round :: "'u sul_env \<Rightarrow> addr list \<Rightarrow> int \<Rightarrow> 'u sul_pt \<Rightarrow> ((int, 'u sul_pt) sum) outcome" where
  "sul_service_round env owns usnow pt =
     bind_outcome (sul_hit pt owns None) (\<lambda>hit.
       case hit of
         None \<Rightarrow> Done (Inl 0)
       | Some (sul, lowest) \<Rightarrow>
           if lowest > usnow then (if usec_ok (lowest - usnow) then Done (Inl (lowest - usnow)) else Fault)
           else case sul_cb pt sul of
             None \<Rightarrow> Done (Inl 0)
           | Some cb \<Rightarrow>
               bind_outcome (lws_dll2_remove (sul_store pt) sul) (\<lambda>s.
                 let pt = pt\<lparr>sul_store := s, sul_us := (sul_us pt)(sul := 0), inside_lws_service := True\<rparr>;
                     pt = run_cb env cb sul pt
                 in Done (Inr (pt\<lparr>inside_lws_service := False\<rparr>))))"

partial_function (option) sul_service_loop :: "'u sul_env \<Rightarrow> addr list \<Rightarrow> int \<Rightarrow> 'u sul_pt \<Rightarrow> ('u, int) sul_result" where
  "sul_service_loop env owns usnow pt =
     (case sul_service_round env owns usnow pt of
        Fault \<Rightarrow> Some Fault
      | Done (Inl r) \<Rightarrow> Some (Done (r, pt))
      | Done (Inr pt) \<Rightarrow> sul_service_loop env owns usnow pt)"

partial_function (option) lws_system_do_attach :: "'u sul_env \<Rightarrow> 'u sul_pt \<Rightarrow> ('u, int) sul_result" where
  "lws_system_do_attach env pt =
     (if attach_count pt = 0 then Some (Done (0, pt))
      else case attach_op env of
        None \<Rightarrow> Some Fault
      | Some attach \<Rightarrow>
          (case attach pt of
             (Attach_Problem, pt) \<Rightarrow> Some (Done (1, pt))
           | (Attach_None, pt) \<Rightarrow> Some (Done (0, pt))
           | (Attach_Item i, pt) \<Rightarrow> lws_system_do_attach env (attach_cb env i pt)))"

definition lws_sul_service_ripe :: "'u sul_env \<Rightarrow> addr list \<Rightarrow> int \<Rightarrow> 'u sul_pt \<Rightarrow> ('u, int) sul_result" where
  "lws_sul_service_ripe env owns usnow pt =
     (case (if attach_count pt \<noteq> 0 then lws_system_do_attach env pt else Some (Done (0, pt))) of
        None \<Rightarrow> None
      | Some Fault \<Rightarrow> Some Fault
      | Some (Done (_, pt)) \<Rightarrow> if owns = [] then Some Fault else sul_service_loop env owns usnow pt)"

text \<open>Moving every due time when the clock is stepped, and the earliest event that wakes the system.\<close>

partial_function (option) sul_adjust_from :: "int \<Rightarrow> 'u sul_pt \<Rightarrow> addr option \<Rightarrow> 'u sul_pt outcome option" where
  "sul_adjust_from step pt p =
     (case p of
        None \<Rightarrow> Some (Done pt)
      | Some sul \<Rightarrow>
          let us = sul_us pt sul + step in
          if \<not> usec_ok us then Some Fault
          else sul_adjust_from step (pt\<lparr>sul_us := (sul_us pt)(sul := us)\<rparr>) (dll_next (sul_store pt) sul))"

definition sul_adjust_list :: "int \<Rightarrow> 'u sul_pt \<Rightarrow> addr \<Rightarrow> 'u sul_pt outcome option" where
  "sul_adjust_list step pt own =
     (if own_count (sul_store pt) own = 0 then Some (Done pt)
      else sul_adjust_from step pt (own_head (sul_store pt) own))"

definition sul_adjust_pt :: "int \<Rightarrow> 'u sul_pt \<Rightarrow> 'u sul_pt outcome option" where
  "sul_adjust_pt step pt =
     (case sul_adjust_list step pt (sul_owner 0) of
        Some (Done pt) \<Rightarrow> sul_adjust_list step pt (sul_owner 1)
      | r \<Rightarrow> r)"

fun lws_sul_nonmonotonic_adjust :: "int \<Rightarrow> 'u sul_pt list \<Rightarrow> 'u sul_pt list outcome option" where
  "lws_sul_nonmonotonic_adjust step [] = Some (Done [])"
| "lws_sul_nonmonotonic_adjust step (pt # pts) =
     (case sul_adjust_pt step pt of
        Some (Done pt) \<Rightarrow> map_option (\<lambda>r. bind_outcome r (\<lambda>pts. Done (pt # pts))) (lws_sul_nonmonotonic_adjust step pts)
      | Some Fault \<Rightarrow> Some Fault
      | None \<Rightarrow> None)"

fun wakeable_from :: "'u sul_pt list \<Rightarrow> int option \<Rightarrow> int option outcome" where
  "wakeable_from [] lowest = Done lowest"
| "wakeable_from (pt # pts) lowest =
     (if own_count (sul_store pt) (sul_owner LWSSULLI_WAKE_IF_SUSPENDED) = 0 then wakeable_from pts lowest
      else case own_head (sul_store pt) (sul_owner LWSSULLI_WAKE_IF_SUSPENDED) of
        None \<Rightarrow> Fault
      | Some sul \<Rightarrow>
          wakeable_from pts (case lowest of None \<Rightarrow> Some (sul_us pt sul)
            | Some l \<Rightarrow> if sul_us pt sul < l then Some (sul_us pt sul) else Some l))"

text \<open>The result: 1 and no value when nothing is pending, 0 and the earliest due time otherwise.\<close>

definition lws_sul_earliest_wakeable_event :: "'u sul_pt list \<Rightarrow> (int \<times> int option) outcome" where
  "lws_sul_earliest_wakeable_event pts =
     bind_outcome (wakeable_from pts None) (\<lambda>lowest.
       case lowest of None \<Rightarrow> Done (1, None) | Some l \<Rightarrow> Done (0, Some l))"

section \<open>Well-formed schedules\<close>

text \<open>The lists are sorted by due time, whatever is scheduled has a callback, and the counts have not wrapped.\<close>

definition sul_inv :: "'u sul_pt \<Rightarrow> (addr \<Rightarrow> addr list) \<Rightarrow> bool" where
  "sul_inv pt L \<longleftrightarrow> dll_inv (sul_store pt) L \<and>
     (\<forall>n\<in>{0, 1}. sorted (map (sul_us pt) (L (sul_owner n))) \<and> length (L (sul_owner n)) < 2 ^ 32 \<and>
        (\<forall>x\<in>set (L (sul_owner n)). sul_cb pt x \<noteq> None \<and> usec_ok (sul_us pt x)))"

definition sul_owners :: "addr list" where
  "sul_owners = [sul_owner 0, sul_owner 1]"

definition sul_pending :: "'u sul_pt \<Rightarrow> addr \<Rightarrow> bool" where
  "sul_pending pt x \<longleftrightarrow> dll_owner (sul_store pt) x = Some (sul_owner 0) \<or> dll_owner (sul_store pt) x = Some (sul_owner 1)"

lemma sul_pending_iff: "sul_inv pt L \<Longrightarrow> sul_pending pt x \<longleftrightarrow> x \<in> set (L (sul_owner 0)) \<union> set (L (sul_owner 1))"
  unfolding sul_pending_def using dll_listD(6) by (auto simp: sul_inv_def)

lemma sul_owners_distinct [simp]: "sul_owner 0 \<noteq> sul_owner (Suc 0)" "sul_owner (Suc 0) \<noteq> sul_owner 0"
  by (simp_all add: sul_owner_def)

lemma sul_list:
  assumes "sul_inv pt L" and "n \<in> {0, 1}"
  shows "own_count (sul_store pt) (sul_owner n) = 0 \<longleftrightarrow> L (sul_owner n) = []"
    "own_head (sul_store pt) (sul_owner n) = hd_or None (L (sul_owner n))"
    "L (sul_owner n) = x # xs \<Longrightarrow> y \<in> set xs \<Longrightarrow> sul_us pt x \<le> sul_us pt y"
    "x \<in> set (L (sul_owner n)) \<Longrightarrow> sul_cb pt x \<noteq> None \<and> usec_ok (sul_us pt x)"
proof -
  have d: "dll_inv (sul_store pt) L" and len: "length (L (sul_owner n)) < 2 ^ 32"
    using assms by (auto simp: sul_inv_def)
  show "own_count (sul_store pt) (sul_owner n) = 0 \<longleftrightarrow> L (sul_owner n) = []"
    using len by (simp add: dll_listD(5) [OF d] word_unat_eq_iff unsigned_of_nat take_bit_nat_eq_self)
qed (use assms dll_listD(3) in \<open>auto simp: sul_inv_def\<close>)

lemma sul_hit_ok:
  assumes inv: "sul_inv pt L"
  obtains (idle) "sul_hit pt sul_owners None = Done None" "\<And>x. \<not> sul_pending pt x"
    | (hit) x n xs where "sul_hit pt sul_owners None = Done (Some (x, sul_us pt x))" "n \<in> {0, 1}" "L (sul_owner n) = x # xs"
        "sul_pending pt x" "\<And>y. sul_pending pt y \<Longrightarrow> sul_us pt x \<le> sul_us pt y"
proof -
  note l0 = sul_list [OF inv, of 0] and l1 = sul_list [OF inv, of 1] and pend = sul_pending_iff [OF inv]
  consider (e) "L (sul_owner 0) = []" "L (sul_owner 1) = []" | (a) x xs where "L (sul_owner 0) = x # xs" "L (sul_owner 1) = []"
    | (b) x xs where "L (sul_owner 0) = []" "L (sul_owner 1) = x # xs"
    | (c) x xs y ys where "L (sul_owner 0) = x # xs" "L (sul_owner 1) = y # ys"
    by (cases "L (sul_owner 0)"; cases "L (sul_owner 1)") auto
  then show thesis
  proof cases
    case e
    then show thesis using idle pend l0(1,2) l1(1,2) by (simp add: sul_owners_def)
  next
    case a
    then show thesis using hit [of x 0 xs] pend l0 l1 by (auto simp: sul_owners_def)
  next
    case b
    then show thesis using hit [of x 1 xs] pend l0 l1 by (auto simp: sul_owners_def)
  next
    case c
    show thesis
    proof (cases "sul_us pt y \<le> sul_us pt x")
      case True
      have "sul_us pt y \<le> sul_us pt z" if "sul_pending pt z" for z
        using that True l0(3) [OF _ c(1), of z] l1(3) [OF _ c(2), of z] by (auto simp: pend c simp del: One_nat_def)
      moreover have "sul_hit pt sul_owners None = Done (Some (y, sul_us pt y))" "sul_pending pt y"
        using c True l0(1,2) l1(1,2) pend by (simp_all add: sul_owners_def)
      ultimately show thesis using c by (intro hit [of y 1 ys]) auto
    next
      case False
      have "sul_us pt x \<le> sul_us pt z" if "sul_pending pt z" for z
        using that False l0(3) [OF _ c(1), of z] l1(3) [OF _ c(2), of z] by (auto simp: pend c simp del: One_nat_def)
      moreover have "sul_hit pt sul_owners None = Done (Some (x, sul_us pt x))" "sul_pending pt x"
        using c False l0(1,2) l1(1,2) pend by (simp_all add: sul_owners_def)
      ultimately show thesis using c by (intro hit [of x 0 xs]) auto
    qed
  qed
qed

text \<open>Taking a member off the schedule.\<close>

definition unscheduled :: "'u sul_pt \<Rightarrow> addr \<Rightarrow> 'u sul_pt \<Rightarrow> bool" where
  "unscheduled pt x pt' \<longleftrightarrow> (\<exists>s. lws_dll2_remove (sul_store pt) x = Done s \<and>
     pt' = pt\<lparr>sul_store := s, sul_us := (sul_us pt)(x := 0)\<rparr>)"

lemma sul_remove_inv:
  assumes inv: "sul_inv pt L" and s: "dll_inv s (L(own := xs @ ys))" and l: "L own = xs @ x # ys"
  shows "sul_inv (pt\<lparr>sul_store := s, sul_us := (sul_us pt)(x := t)\<rparr>) (L(own := xs @ ys))"
proof -
  have d: "dll_inv (sul_store pt) L" using inv by (simp add: sul_inv_def)
  have "x \<notin> set (L q)" if "q \<noteq> own" for q
    using that dll_listD(6) [OF d, of x q] dll_listD(6) [OF d, of x own] l by auto
  moreover have "x \<notin> set xs" "x \<notin> set ys" using dll_listD(1) [OF d, of own] l by auto
  ultimately have x: "x \<notin> set ((L(own := xs @ ys)) q)" for q by auto
  then have m: "map ((sul_us pt)(x := t)) ((L(own := xs @ ys)) q) = map (sul_us pt) ((L(own := xs @ ys)) q)" for q
    by (intro map_cong) auto
  have sub: "set ((L(own := xs @ ys)) q) \<subseteq> set (L q)" "length ((L(own := xs @ ys)) q) \<le> length (L q)" for q
    using l by auto
  have srt: "sorted (map (sul_us pt) ((L(own := xs @ ys)) q))" if "sorted (map (sul_us pt) (L q))" for q
    using that l by (auto simp: sorted_append)
  show ?thesis unfolding sul_inv_def
  proof (intro conjI ballI)
    fix n :: nat assume n: "n \<in> {0, 1}"
    then have i: "sorted (map (sul_us pt) (L (sul_owner n)))" "length (L (sul_owner n)) < 2 ^ 32"
      "\<And>y. y \<in> set (L (sul_owner n)) \<Longrightarrow> sul_cb pt y \<noteq> None \<and> usec_ok (sul_us pt y)" using inv by (auto simp: sul_inv_def)
    show "sorted (map (sul_us (pt\<lparr>sul_store := s, sul_us := (sul_us pt)(x := t)\<rparr>)) ((L(own := xs @ ys)) (sul_owner n)))"
      using srt [OF i(1), folded m [of "sul_owner n"]] by simp
    show "length ((L(own := xs @ ys)) (sul_owner n)) < 2 ^ 32" using sub(2) i(2) by (rule order_le_less_trans)
    fix y assume y: "y \<in> set ((L(own := xs @ ys)) (sul_owner n))"
    then have "y \<noteq> x" "y \<in> set (L (sul_owner n))" using x [of "sul_owner n"] sub(1) by auto
    then show "sul_cb (pt\<lparr>sul_store := s, sul_us := (sul_us pt)(x := t)\<rparr>) y \<noteq> None"
      "usec_ok (sul_us (pt\<lparr>sul_store := s, sul_us := (sul_us pt)(x := t)\<rparr>) y)" using i(3) by simp_all
  qed (use s in simp)
qed

text \<open>The callbacks: whatever a callback does, it leaves a well-formed schedule, and what is due by \<open>usnow\<close> after
  it was due already, at the same time, before it.\<close>

definition sul_callbacks_ok :: "'u sul_env \<Rightarrow> int \<Rightarrow> bool" where
  "sul_callbacks_ok env usnow \<longleftrightarrow> (\<forall>cb x pt L. sul_inv pt L \<longrightarrow>
     (\<exists>L'. sul_inv (run_cb env cb x pt) L') \<and>
     (\<forall>y. sul_pending (run_cb env cb x pt) y \<longrightarrow> usnow < sul_us (run_cb env cb x pt) y \<or>
        sul_pending pt y \<and> sul_us (run_cb env cb x pt) y = sul_us pt y))"

text \<open>What servicing a schedule is: the earliest of the due events is called, as long as there is one.\<close>

inductive sul_fires :: "'u sul_env \<Rightarrow> int \<Rightarrow> 'u sul_pt \<Rightarrow> (addr \<times> int) list \<Rightarrow> int \<Rightarrow> 'u sul_pt \<Rightarrow> bool" for env usnow where
  idle: "(\<And>y. \<not> sul_pending pt y) \<Longrightarrow> sul_fires env usnow pt [] 0 pt"
| wait: "sul_pending pt x \<Longrightarrow> (\<And>y. sul_pending pt y \<Longrightarrow> sul_us pt x \<le> sul_us pt y) \<Longrightarrow> usnow < sul_us pt x \<Longrightarrow>
    sul_fires env usnow pt [] (sul_us pt x - usnow) pt"
| fire: "sul_pending pt x \<Longrightarrow> (\<And>y. sul_pending pt y \<Longrightarrow> sul_us pt x \<le> sul_us pt y) \<Longrightarrow> sul_us pt x \<le> usnow \<Longrightarrow>
    sul_cb pt x = Some cb \<Longrightarrow> unscheduled pt x pt1 \<Longrightarrow> pt2 = run_cb env cb x (pt1\<lparr>inside_lws_service := True\<rparr>) \<Longrightarrow>
    sul_fires env usnow (pt2\<lparr>inside_lws_service := False\<rparr>) tr r pt' \<Longrightarrow>
    sul_fires env usnow pt ((x, sul_us pt x) # tr) r pt'"

lemma sul_inside_irrelevant [simp]:
  "sul_inv (pt\<lparr>inside_lws_service := b\<rparr>) L = sul_inv pt L"
  "sul_pending (pt\<lparr>inside_lws_service := b\<rparr>) = sul_pending pt"
  by (auto simp: sul_inv_def sul_pending_def fun_eq_iff)

definition sul_ripe :: "int \<Rightarrow> 'u sul_pt \<Rightarrow> addr set" where
  "sul_ripe usnow pt = {x. sul_pending pt x \<and> sul_us pt x \<le> usnow}"

lemma sul_ripe_finite: "sul_inv pt L \<Longrightarrow> finite (sul_ripe usnow pt)"
  by (rule finite_subset [of _ "set (L (sul_owner 0)) \<union> set (L (sul_owner 1))"])
    (auto simp: sul_ripe_def sul_pending_iff simp del: One_nat_def)

text \<open>The states a round goes through when an event is due.\<close>

lemma unscheduled_ok:
  assumes inv: "sul_inv pt L" and "n \<in> {0, 1}" and l: "L (sul_owner n) = x # xs"
  shows "\<exists>pt1 L1. unscheduled pt x pt1 \<and> sul_inv pt1 L1 \<and>
    (\<forall>y. sul_pending pt1 y \<longrightarrow> y \<noteq> x \<and> sul_pending pt y \<and> sul_us pt1 y = sul_us pt y)"
proof -
  have d: "dll_inv (sul_store pt) L" using inv by (simp add: sul_inv_def)
  obtain s where s: "lws_dll2_remove (sul_store pt) x = Done s" "dll_inv s (L(sul_owner n := xs))"
    using remove_ok [OF d, of "sul_owner n" "[]" x xs] l by auto
  let ?pt = "pt\<lparr>sul_store := s, sul_us := (sul_us pt)(x := 0)\<rparr>" and ?L = "L(sul_owner n := xs)"
  have i: "sul_inv ?pt ?L" using sul_remove_inv [OF inv, of s "sul_owner n" "[]" xs x 0] s(2) l by simp
  have "x \<notin> set (?L q)" for q
    using dll_listD(6) [OF d, of x q] dll_listD(6) [OF d, of x "sul_owner n"] dll_listD(1) [OF d, of "sul_owner n"] l
    by (cases "q = sul_owner n") auto
  moreover have "set (?L q) \<subseteq> set (L q)" for q using l by auto
  ultimately have "y \<noteq> x \<and> sul_pending pt y" if "sul_pending ?pt y" for y
    using that unfolding sul_pending_iff [OF i] sul_pending_iff [OF inv] by blast
  then show ?thesis using i s(1) by (intro exI [of _ ?pt] exI [of _ ?L]) (auto simp: unscheduled_def)
qed

lemma sul_service_loop_ok:
  assumes cbs: "sul_callbacks_ok env usnow" and "0 \<le> usnow" and "sul_inv pt L"
  shows "\<exists>r pt' tr. sul_service_loop env sul_owners usnow pt = Some (Done (r, pt')) \<and> sul_fires env usnow pt tr r pt' \<and>
    sorted (map snd tr) \<and> distinct (map fst tr) \<and> (\<forall>(y, t)\<in>set tr. y \<in> sul_ripe usnow pt \<and> t = sul_us pt y) \<and> sul_ripe usnow pt' = {}"
  using assms(3)
proof (induction "card (sul_ripe usnow pt)" arbitrary: pt L rule: less_induct)
  case less
  let ?Q = "\<lambda>pt (r, pt', tr). sul_service_loop env sul_owners usnow pt = Some (Done (r, pt')) \<and> sul_fires env usnow pt tr r pt' \<and>
    sorted (map snd tr) \<and> distinct (map fst tr) \<and> (\<forall>(y, t)\<in>set tr. y \<in> sul_ripe usnow pt \<and> t = sul_us pt y) \<and> sul_ripe usnow pt' = {}"
  note loop = sul_service_loop.simps [of env sul_owners usnow pt]
  from less.prems have "\<exists>w. ?Q pt w"
  proof (cases rule: sul_hit_ok)
    case idle
    then have "?Q pt (0, pt, [])"
      by (auto simp: loop sul_service_round_def sul_ripe_def intro: sul_fires.idle)
    then show ?thesis ..
  next
    case (hit x n xs)
    note min = hit(5)
    obtain cb where cb: "sul_cb pt x = Some cb" and ux: "usec_ok (sul_us pt x)"
      using sul_list(4) [OF less.prems hit(2), of x] hit(3) by auto
    show ?thesis
    proof (cases "usnow < sul_us pt x")
      case True
      then have "usec_ok (sul_us pt x - usnow)" using ux assms(2) by (simp add: usec_ok_def)
      then have "?Q pt (sul_us pt x - usnow, pt, [])" using True hit(1,4) min
        by (fastforce simp: loop sul_service_round_def sul_ripe_def intro: sul_fires.wait [of _ x])
      then show ?thesis ..
    next
      case False
      obtain pt1 L1 where un: "unscheduled pt x pt1" "sul_inv pt1 L1"
        and pend1: "\<And>y. sul_pending pt1 y \<Longrightarrow> y \<noteq> x \<and> sul_pending pt y \<and> sul_us pt1 y = sul_us pt y"
        using unscheduled_ok [OF less.prems hit(2,3)] by blast
      define pt2 where "pt2 = run_cb env cb x (pt1\<lparr>inside_lws_service := True\<rparr>)"
      define pt3 where "pt3 = pt2\<lparr>inside_lws_service := False\<rparr>"
      have c: "(\<exists>L'. sul_inv pt2 L') \<and> (\<forall>y. sul_pending pt2 y \<longrightarrow> usnow < sul_us pt2 y \<or> sul_pending pt1 y \<and> sul_us pt2 y = sul_us pt1 y)"
        using cbs [unfolded sul_callbacks_ok_def, rule_format, of "pt1\<lparr>inside_lws_service := True\<rparr>" L1 cb x] un(2)
        by (simp add: pt2_def)
      then obtain L3 where L3: "sul_inv pt3 L3" by (auto simp: pt3_def)
      have ripe3: "y \<noteq> x \<and> y \<in> sul_ripe usnow pt \<and> sul_us pt3 y = sul_us pt y" if "y \<in> sul_ripe usnow pt3" for y
        using that c pend1 [of y] by (auto simp: sul_ripe_def pt3_def)
      moreover have "x \<in> sul_ripe usnow pt" using hit(4) False by (simp add: sul_ripe_def)
      ultimately have sub: "sul_ripe usnow pt3 \<subset> sul_ripe usnow pt" by blast
      obtain r pt' tr where q: "?Q pt3 (r, pt', tr)"
        using less.hyps [OF psubset_card_mono [OF sul_ripe_finite [OF less.prems] sub] L3] by auto
      have step: "sul_service_loop env sul_owners usnow pt = sul_service_loop env sul_owners usnow pt3"
        using hit(1) False cb un(1) by (auto simp: loop sul_service_round_def unscheduled_def pt3_def pt2_def)
      have tr: "y \<noteq> x \<and> y \<in> sul_ripe usnow pt \<and> t = sul_us pt y \<and> sul_us pt x \<le> t" if "(y, t) \<in> set tr" for y t
        using that q ripe3 [of y] min [of y] by (auto simp: sul_ripe_def)
      have "?Q pt (r, pt', (x, sul_us pt x) # tr)"
      proof -
        have "sul_fires env usnow pt ((x, sul_us pt x) # tr) r pt'"
          using False cb un(1) hit(4) min q by (intro sul_fires.fire [OF _ _ _ _ _ pt2_def]) (auto simp: pt3_def)
        moreover have "x \<notin> fst ` set tr" using tr by fastforce
        ultimately show ?thesis using q tr step hit(4) False by (auto simp: sul_ripe_def)
      qed
      then show ?thesis ..
    qed
  qed
  then show ?case by auto
qed

text \<open>C21. The event loop's timers fire in order.  Take any well-formed schedule on both lists, and callbacks that may
  cancel or reschedule anything, themselves included, so long as nothing they schedule is due by the time \<open>usnow\<close>
  of this service call.  Then \<open>__lws_sul_service_ripe\<close> ends without a fault; it calls the callbacks one by one, each
  time that of an event that is due earliest on either list; the events called were all due, at times that never
  decrease, none is called twice; and none that is due by \<open>usnow\<close> is left.  The result is 0 if nothing is
  scheduled at the end and the time until the next event otherwise.\<close>

theorem lws_sul_service_ripe_in_order:
  assumes "sul_inv pt L" and "sul_callbacks_ok env usnow" and "0 \<le> usnow" and "attach_count pt = 0"
  shows "\<exists>r pt' tr. lws_sul_service_ripe env sul_owners usnow pt = Some (Done (r, pt')) \<and> sul_fires env usnow pt tr r pt' \<and>
    sorted (map snd tr) \<and> distinct (map fst tr) \<and> set tr \<subseteq> {(y, sul_us pt y) | y. y \<in> sul_ripe usnow pt} \<and>
    sul_ripe usnow pt' = {}"
proof -
  have sub: "set tr \<subseteq> {(y, sul_us pt y) | y. y \<in> sul_ripe usnow pt}"
    if "\<forall>(y, t)\<in>set tr. y \<in> sul_ripe usnow pt \<and> t = sul_us pt y" for tr
    using that by auto
  have "lws_sul_service_ripe env sul_owners usnow pt = sul_service_loop env sul_owners usnow pt"
    using assms(4) by (simp add: lws_sul_service_ripe_def sul_owners_def)
  then show ?thesis using sul_service_loop_ok [OF assms(2,3,1)] sub by (elim exE conjE) (intro exI conjI; assumption?; simp)
qed

section \<open>Scheduling\<close>

text \<open>A schedule as a value: for each scheduled event the list it is on and its due time.\<close>

definition sul_abs :: "'u sul_pt \<Rightarrow> addr \<Rightarrow> (nat \<times> int) option" where
  "sul_abs pt x = (if dll_owner (sul_store pt) x = Some (sul_owner 0) then Some (0, sul_us pt x)
     else if dll_owner (sul_store pt) x = Some (sul_owner 1) then Some (1, sul_us pt x) else None)"

lemma sul_abs_lists:
  "sul_inv pt L \<Longrightarrow> sul_abs pt = (\<lambda>x. if x \<in> set (L (sul_owner 0)) then Some (0, sul_us pt x)
     else if x \<in> set (L (sul_owner 1)) then Some (1, sul_us pt x) else None)"
  using dll_listD(6) [of "sul_store pt" L] by (simp add: sul_abs_def sul_inv_def fun_eq_iff)

text \<open>Removal, wherever the event is, and insertion on one list.\<close>

lemma sul_detach:
  assumes inv: "sul_inv pt L"
  obtains s L1 where "lws_dll2_remove (sul_store pt) x = Done s"
    "\<And>t. sul_inv (pt\<lparr>sul_store := s, sul_us := (sul_us pt)(x := t)\<rparr>) L1" "\<And>q. x \<notin> set (L1 q)"
    "\<And>q. set (L1 q) = set (L q) - {x}" "\<And>q. length (L1 q) \<le> length (L q)"
proof -
  have d: "dll_inv (sul_store pt) L" using inv by (simp add: sul_inv_def)
  show thesis
  proof (cases "dll_owner (sul_store pt) x")
    case None
    then have x: "x \<notin> set (L q)" for q using dll_listD(6) [OF d, of x q] by auto
    then have "map ((sul_us pt)(x := t)) (L q) = map (sul_us pt) (L q)" for t q by (intro map_cong) auto
    then have i: "sul_inv (pt\<lparr>sul_us := (sul_us pt)(x := t)\<rparr>) L" for t using inv x
      unfolding sul_inv_def by (auto simp del: map_eq_conv)
    have "lws_dll2_remove (sul_store pt) x = Done (sul_store pt)"
      using dll_detached(1) [OF d None] by (simp add: lws_dll2_remove_def)
    then show thesis using i x by (intro that [of "sul_store pt" L]) (auto simp: sul_inv_def)
  next
    case (Some own)
    then have "x \<in> set (L own)" using dll_listD(6) [OF d] by simp
    then obtain xs ys where l: "L own = xs @ x # ys" by (meson split_list)
    obtain s where s: "lws_dll2_remove (sul_store pt) x = Done s" "dll_inv s (L(own := xs @ ys))"
      using remove_ok [OF d l] by blast
    have "x \<notin> set (L q)" if "q \<noteq> own" for q using that Some dll_listD(6) [OF d, of x q] by auto
    moreover have "x \<notin> set xs" "x \<notin> set ys" using dll_listD(1) [OF d, of own] l by auto
    ultimately show thesis using l s
      by (intro that [OF s(1), of "L(own := xs @ ys)"] sul_remove_inv [OF inv s(2) l]) auto
  qed
qed

lemma sul_insert_ok:
  assumes inv: "sul_inv pt L" and n: "n \<in> {0, 1}" and room: "length (L (sul_owner n)) < 2 ^ 32 - 1"
    and due: "usec_ok t" and upd: "pt' = pt\<lparr>sul_cb := (sul_cb pt)(x \<mapsto> cb), sul_us := (sul_us pt)(x := t)\<rparr>"
  shows "\<exists>pt'' L''. lws_sul_insert pt' (sul_owner n) x = Some (Done pt'') \<and> sul_inv pt'' L'' \<and>
    sul_abs pt'' = (sul_abs pt)(x \<mapsto> (n, t)) \<and> sul_cb pt'' = (sul_cb pt)(x \<mapsto> cb)"
proof -
  obtain s L1 where r: "lws_dll2_remove (sul_store pt) x = Done s"
    and i: "\<And>t. sul_inv (pt\<lparr>sul_store := s, sul_us := (sul_us pt)(x := t)\<rparr>) L1" and x: "\<And>q. x \<notin> set (L1 q)"
    and L1: "\<And>q. set (L1 q) = set (L q) - {x}" "\<And>q. length (L1 q) \<le> length (L q)"
    using sul_detach [OF inv] by metis
  let ?us = "(sul_us pt)(x := t)"
  define ys where "ys = filter (\<lambda>y. ?us y < t) (L1 (sul_owner n)) @ x # filter (\<lambda>y. t \<le> ?us y) (L1 (sul_owner n))"
  have srt: "sorted (map ?us (L1 (sul_owner n)))" and d: "dll_inv s L1" using i [of t] n by (auto simp: sul_inv_def)
  have "dll_owner s x = None" using dll_detachedI [OF d x] .
  moreover have "\<And>y. sul_compare ?us y x \<ge> 0 \<longleftrightarrow> ?us x \<le> ?us y" by (simp add: sul_compare_def)
  ultimately obtain s' where s': "lws_dll2_add_sorted (sul_compare ?us) s x (sul_owner n) = Some (Done s')"
    "dll_inv s' (L1(sul_owner n := ys))"
    using dll2_sorted_from_ok [OF d, of x "sul_owner n" "[]" "L1 (sul_owner n)" "sul_compare ?us"]
      sorted_ins_filter [of "sul_compare ?us" x ?us, OF _ srt]
    by (auto simp: lws_dll2_add_sorted_def dll_listD(3) [OF d] ys_def)
  let ?pt = "pt'\<lparr>sul_store := s'\<rparr>" and ?L = "L1(sul_owner n := ys)"
  have op: "lws_sul_insert pt' (sul_owner n) x = Some (Done ?pt)"
    using r s'(1) by (simp add: lws_sul_insert_def with_store_def upd)
  have setys: "set ys = insert x (set (L1 (sul_owner n)))" by (auto simp: ys_def)
  have "length ys = Suc (length (L1 (sul_owner n)))"
    using sum_length_filter_compl [of "\<lambda>y. ?us y < t" "L1 (sul_owner n)"] by (simp add: ys_def not_less)
  then have len: "length ys < 2 ^ 32" using room L1(2) [of "sul_owner n"] by simp
  have sortys: "sorted (map ?us ys)"
    using sorted_filter [OF srt, of "\<lambda>y. ?us y < t"] sorted_filter [OF srt, of "\<lambda>y. t \<le> ?us y"] x [of "sul_owner n"]
    unfolding ys_def by (auto simp: sorted_append)
  have inv': "sul_inv ?pt ?L" unfolding sul_inv_def
  proof (intro conjI ballI)
    fix m :: nat assume m: "m \<in> {0, 1}"
    have im: "sorted (map ?us (L1 (sul_owner m)))" "length (L1 (sul_owner m)) < 2 ^ 32"
      "\<And>y. y \<in> set (L1 (sul_owner m)) \<Longrightarrow> sul_cb pt y \<noteq> None \<and> usec_ok (?us y)" using i [of t] m by (auto simp: sul_inv_def)
    show "sorted (map (sul_us ?pt) (?L (sul_owner m)))" using im(1) sortys by (simp add: upd)
    show "length (?L (sul_owner m)) < 2 ^ 32" using im(2) len by simp
    fix y assume "y \<in> set (?L (sul_owner m))"
    then have "y = x \<or> y \<in> set (L1 (sul_owner m))" using setys by (auto split: if_splits)
    then show "sul_cb ?pt y \<noteq> None" "usec_ok (sul_us ?pt y)" using im(3) [of y] due by (auto simp: upd)
  qed (use s'(2) in simp)
  have "sul_abs ?pt = (sul_abs pt)(x \<mapsto> (n, t))"
    using n x L1(1) setys unfolding sul_abs_lists [OF inv'] sul_abs_lists [OF inv]
    by (fastforce simp: fun_eq_iff upd)
  then show ?thesis using op inv' by (intro exI [of _ ?pt] exI [of _ ?L]) (simp add: upd)
qed

datatype sul_op = Schedule addr nat int | Schedule_Wake addr nat int | Cancel addr

fun sul_op_run :: "'u sul_env \<Rightarrow> 'u sul_pt \<Rightarrow> sul_op \<Rightarrow> 'u sul_pt outcome option" where
  "sul_op_run env pt (Schedule x cb us) = lws_sul_schedule env pt x (Some cb) us"
| "sul_op_run env pt (Schedule_Wake x cb us) = lws_sul_schedule_wakesuspend env pt x (Some cb) us"
| "sul_op_run env pt (Cancel x) = Some (lws_sul_cancel pt x)"

definition sched_spec :: "(addr \<Rightarrow> (nat \<times> int) option) \<Rightarrow> int \<Rightarrow> addr \<Rightarrow> nat \<Rightarrow> int \<Rightarrow> addr \<Rightarrow> (nat \<times> int) option" where
  "sched_spec m now x n us = (if us = -1 then m(x := None) else m(x \<mapsto> (n, now + us)))"

fun sul_op_spec :: "(addr \<Rightarrow> (nat \<times> int) option) \<Rightarrow> int \<Rightarrow> sul_op \<Rightarrow> addr \<Rightarrow> (nat \<times> int) option" where
  "sul_op_spec m now (Schedule x cb us) = sched_spec m now x 0 us"
| "sul_op_spec m now (Schedule_Wake x cb us) = sched_spec m now x 1 us"
| "sul_op_spec m now (Cancel x) = m(x := None)"

fun sul_op_due :: "sul_op \<Rightarrow> int" where
  "sul_op_due (Schedule x cb us) = us"
| "sul_op_due (Schedule_Wake x cb us) = us"
| "sul_op_due (Cancel x) = 0"

lemma sul_cancel_ok:
  assumes inv: "sul_inv pt L"
  shows "\<exists>pt' L'. lws_sul_cancel pt x = Done pt' \<and> sul_inv pt' L' \<and> sul_abs pt' = (sul_abs pt)(x := None)"
proof -
  obtain s L1 where r: "lws_dll2_remove (sul_store pt) x = Done s"
    and i: "\<And>t. sul_inv (pt\<lparr>sul_store := s, sul_us := (sul_us pt)(x := t)\<rparr>) L1" and x: "\<And>q. x \<notin> set (L1 q)"
    and L1: "\<And>q. set (L1 q) = set (L q) - {x}"
    using sul_detach [OF inv] by metis
  let ?pt = "pt\<lparr>sul_store := s, sul_us := (sul_us pt)(x := 0)\<rparr>"
  have "sul_abs ?pt = (sul_abs pt)(x := None)"
    using x L1 unfolding sul_abs_lists [OF i [of 0]] sul_abs_lists [OF inv] by (auto simp: fun_eq_iff)
  then show ?thesis using i [of 0] r by (intro exI [of _ ?pt] exI [of _ L1]) (simp add: lws_sul_cancel_def)
qed

lemma sul_schedule_on_ok:
  assumes inv: "sul_inv pt L" and n: "n \<in> {0, 1}" and room: "length (L (sul_owner n)) < 2 ^ 32 - 1"
    and due: "usec_ok (now_usecs env pt + us)"
  shows "\<exists>pt' L'. sul_schedule_on n env pt x (Some cb) us = Some (Done pt') \<and> sul_inv pt' L' \<and>
    sul_abs pt' = sched_spec (sul_abs pt) (now_usecs env pt) x n us"
proof (cases "us = LWS_SET_TIMER_USEC_CANCEL")
  case True
  then show ?thesis using sul_cancel_ok [OF inv, of x]
    by (auto simp: sul_schedule_on_def sched_spec_def LWS_SET_TIMER_USEC_CANCEL_def)
next
  case False
  obtain pt' L' where "lws_sul_insert (pt\<lparr>sul_cb := (sul_cb pt)(x \<mapsto> cb), sul_us := (sul_us pt)(x := now_usecs env pt + us)\<rparr>)
      (sul_owner n) x = Some (Done pt')" "sul_inv pt' L'" "sul_abs pt' = (sul_abs pt)(x \<mapsto> (n, now_usecs env pt + us))"
    using sul_insert_ok [OF inv n room due refl] by metis
  then show ?thesis using False n due
    by (intro exI [of _ pt'] exI [of _ L'])
      (auto simp: sul_schedule_on_def lws_sul2_schedule_def sched_spec_def LWS_SET_TIMER_USEC_CANCEL_def)
qed

text \<open>C22. Scheduling keeps one sorted schedule.  Seen as a map from events to list and due time, scheduling an event
  replaces its entry, whatever list it was on, by the current time plus the delay; a delay of
  \<open>LWS_SET_TIMER_USEC_CANCEL\<close> and \<open>lws_sul_cancel\<close> delete the entry; and both lists stay sorted by due
  time.  This holds while the due time is representable and the lists hold fewer than 2^32 - 1 events.\<close>

theorem lws_sul_schedule_refines_map:
  assumes "sul_inv pt L" and "length (L (sul_owner 0)) < 2 ^ 32 - 1" and "length (L (sul_owner 1)) < 2 ^ 32 - 1"
    and "usec_ok (now_usecs env pt + sul_op_due c)"
  shows "\<exists>pt' L'. sul_op_run env pt c = Some (Done pt') \<and> sul_inv pt' L' \<and>
    sul_abs pt' = sul_op_spec (sul_abs pt) (now_usecs env pt) c"
  using assms sul_schedule_on_ok [OF assms(1), of 0 env] sul_schedule_on_ok [OF assms(1), of 1 env]
    sul_cancel_ok [OF assms(1)]
  by (cases c) (simp_all add: lws_sul_schedule_def lws_sul_schedule_wakesuspend_def LWSSULLI_MISS_IF_SUSPENDED_def
      LWSSULLI_WAKE_IF_SUSPENDED_def)

section \<open>Clock steps and the next wakeup\<close>

definition us_step :: "int \<Rightarrow> addr set \<Rightarrow> (addr \<Rightarrow> int) \<Rightarrow> addr \<Rightarrow> int" where
  "us_step step X us x = (if x \<in> X then us x + step else us x)"

lemma sul_adjust_from_ok:
  assumes "dll_inv (sul_store pt) L" "L own = xs @ ys" "\<And>x. x \<in> set ys \<Longrightarrow> usec_ok (sul_us pt x + step)"
  shows "sul_adjust_from step pt (hd_or None ys) = Some (Done (pt\<lparr>sul_us := us_step step (set ys) (sul_us pt)\<rparr>))"
  using assms
proof (induction ys arbitrary: xs pt)
  case Nil
  have "us_step step {} (sul_us pt) = sul_us pt" by (simp add: us_step_def fun_eq_iff)
  then show ?case by (simp add: sul_adjust_from.simps)
next
  case (Cons y ys)
  let ?pt = "pt\<lparr>sul_us := (sul_us pt)(y := sul_us pt y + step)\<rparr>"
  have y: "dll_next (sul_store pt) y = hd_or None ys" "y \<notin> set ys"
    using dll_listD(1,2) [OF Cons.prems(1), of own] Cons.prems(2) by (simp_all add: dll_links_append)
  have "sul_adjust_from step ?pt (hd_or None ys) = Some (Done (?pt\<lparr>sul_us := us_step step (set ys) (sul_us ?pt)\<rparr>))"
    using Cons.prems y(2) by (intro Cons.IH [of _ "xs @ [y]"]) auto
  moreover have "us_step step (set ys) (sul_us ?pt) = us_step step (set (y # ys)) (sul_us pt)"
    using y(2) by (auto simp: us_step_def fun_eq_iff)
  ultimately show ?case using Cons.prems(3) [of y] y(1) by (simp add: sul_adjust_from.simps [of _ _ "Some y"])
qed

lemma sul_adjust_list_ok:
  assumes "dll_inv (sul_store pt) L" "length (L own) < 2 ^ 32" "\<And>x. x \<in> set (L own) \<Longrightarrow> usec_ok (sul_us pt x + step)"
  shows "sul_adjust_list step pt own = Some (Done (pt\<lparr>sul_us := us_step step (set (L own)) (sul_us pt)\<rparr>))"
proof -
  have "us_step step {} (sul_us pt) = sul_us pt" by (simp add: us_step_def fun_eq_iff)
  moreover have "own_count (sul_store pt) own = 0 \<longleftrightarrow> L own = []"
    using assms(2) by (simp add: dll_listD(5) [OF assms(1)] word_unat_eq_iff unsigned_of_nat take_bit_nat_eq_self)
  ultimately show ?thesis
    using sul_adjust_from_ok [OF assms(1), of own "[]" "L own" step] assms(3)
    by (simp add: sul_adjust_list_def dll_listD(3) [OF assms(1)])
qed

definition sul_adjusted :: "int \<Rightarrow> 'u sul_pt \<Rightarrow> 'u sul_pt" where
  "sul_adjusted step pt = pt\<lparr>sul_us := us_step step {x. sul_pending pt x} (sul_us pt)\<rparr>"

lemma sul_adjust_pt_ok:
  assumes inv: "sul_inv pt L" and ok: "\<And>x. sul_pending pt x \<Longrightarrow> usec_ok (sul_us pt x + step)"
  shows "sul_adjust_pt step pt = Some (Done (sul_adjusted step pt))" "sul_inv (sul_adjusted step pt) L"
proof -
  note pend = sul_pending_iff [OF inv]
  have d: "dll_inv (sul_store pt) L" and len: "length (L (sul_owner 0)) < 2 ^ 32" "length (L (sul_owner 1)) < 2 ^ 32"
    using inv by (auto simp: sul_inv_def)
  have dis: "x \<notin> set (L (sul_owner 1))" if "x \<in> set (L (sul_owner 0))" for x
    using that dll_listD(6) [OF d, of x "sul_owner 0"] dll_listD(6) [OF d, of x "sul_owner 1"] by auto
  let ?us = "us_step step (set (L (sul_owner 0))) (sul_us pt)"
  have "sul_adjust_list step pt (sul_owner 0) = Some (Done (pt\<lparr>sul_us := ?us\<rparr>))"
    using ok pend by (intro sul_adjust_list_ok [OF d len(1)]) auto
  moreover have "sul_adjust_list step (pt\<lparr>sul_us := ?us\<rparr>) (sul_owner 1) =
      Some (Done (pt\<lparr>sul_us := us_step step (set (L (sul_owner 1))) ?us\<rparr>))"
    using sul_adjust_list_ok [of "pt\<lparr>sul_us := ?us\<rparr>" L "sul_owner 1" step] d len(2) ok pend dis
    by (fastforce simp: us_step_def)
  moreover have "us_step step (set (L (sul_owner 1))) ?us = us_step step {x. sul_pending pt x} (sul_us pt)"
    using dis by (auto simp: us_step_def pend fun_eq_iff)
  ultimately show "sul_adjust_pt step pt = Some (Done (sul_adjusted step pt))"
    by (simp add: sul_adjust_pt_def sul_adjusted_def)
  have "sorted (map (us_step step {x. sul_pending pt x} (sul_us pt)) (L (sul_owner n)))" if n: "n \<in> {0, 1}" for n
  proof -
    have "sorted (map (sul_us pt) (L (sul_owner n)))" using inv n by (auto simp: sul_inv_def)
    moreover have "x \<in> set (L (sul_owner n)) \<Longrightarrow> sul_pending pt x" for x using n by (auto simp: pend)
    ultimately show ?thesis by (auto simp: sorted_map us_step_def elim: sorted_wrt_mono_rel [rotated])
  qed
  then show "sul_inv (sul_adjusted step pt) L"
    using inv ok pend by (auto simp: sul_inv_def sul_adjusted_def us_step_def)
qed

lemma sul_adjusted_pending [simp]: "sul_pending (sul_adjusted step pt) = sul_pending pt"
  by (simp add: sul_pending_def sul_adjusted_def fun_eq_iff)

text \<open>Stepping the clock.  \<open>lws_sul_nonmonotonic_adjust\<close> adds the step to the due time of every scheduled event of
  every service thread, and to nothing else; the schedules stay well-formed, and what is due once the clock
  has been stepped is what was due before.\<close>

theorem lws_sul_nonmonotonic_adjust_shifts:
  assumes "list_all (\<lambda>pt. (\<exists>L. sul_inv pt L) \<and> (\<forall>x. sul_pending pt x \<longrightarrow> usec_ok (sul_us pt x + step))) pts"
  shows "lws_sul_nonmonotonic_adjust step pts = Some (Done (map (sul_adjusted step) pts)) \<and>
    list_all (\<lambda>pt. (\<exists>L. sul_inv (sul_adjusted step pt) L) \<and>
       (\<forall>usnow. sul_ripe (usnow + step) (sul_adjusted step pt) = sul_ripe usnow pt)) pts"
proof -
  have "lws_sul_nonmonotonic_adjust step pts = Some (Done (map (sul_adjusted step) pts))"
    using assms by (induction pts) (auto simp: sul_adjust_pt_ok(1))
  moreover have "sul_ripe (usnow + step) (sul_adjusted step pt) = sul_ripe usnow pt" for usnow and pt :: "'a sul_pt"
    by (auto simp: sul_ripe_def) (auto simp: sul_adjusted_def us_step_def)
  ultimately show ?thesis using assms sul_adjust_pt_ok(2) by (fastforce simp: list_all_iff)
qed

text \<open>The events that wake the system, of all threads.\<close>

definition wake_times :: "'u sul_pt list \<Rightarrow> int set" where
  "wake_times pts = {sul_us pt x | pt x. pt \<in> set pts \<and> dll_owner (sul_store pt) x = Some (sul_owner 1)}"

lemma wake_times_Cons:
  "sul_inv pt L \<Longrightarrow> wake_times (pt # pts) = sul_us pt ` set (L (sul_owner 1)) \<union> wake_times pts"
  using dll_listD(6) [of "sul_store pt" L] by (auto simp: wake_times_def sul_inv_def)

lemma wakeable_from_ok:
  assumes "\<forall>pt\<in>set pts. \<exists>L. sul_inv pt L"
  shows "wakeable_from pts lowest = Done (if wake_times pts = {} then lowest
     else Some (Min (wake_times pts \<union> set_option lowest))) \<and> finite (wake_times pts)"
  using assms
proof (induction pts arbitrary: lowest)
  case Nil
  then show ?case by (simp add: wake_times_def)
next
  case (Cons pt pts)
  then obtain L where inv: "sul_inv pt L" by auto
  note l = sul_list [OF inv, of 1, simplified] and w = wake_times_Cons [OF inv, of pts]
  note IH = Cons.IH
  have fin: "finite (wake_times pts)" using IH Cons.prems by simp
  show ?case
  proof (cases "L (sul_owner 1)")
    case Nil
    then show ?thesis using IH [of lowest] Cons.prems l(1) w by (simp add: LWSSULLI_WAKE_IF_SUSPENDED_def)
  next
    case (Cons x xs)
    have mn: "Min (insert (sul_us pt x) (sul_us pt ` set xs)) = sul_us pt x"
      using l(3) Cons by (intro Min_eqI) auto
    have "Min (wake_times (pt # pts) \<union> set_option lowest) =
        Min (wake_times pts \<union> insert (sul_us pt x) (set_option lowest))"
    proof (rule Min_eqI)
      show "finite (wake_times (pt # pts) \<union> set_option lowest)" using fin w by simp
      show "Min (wake_times pts \<union> insert (sul_us pt x) (set_option lowest)) \<in> wake_times (pt # pts) \<union> set_option lowest"
        using Min_in [of "wake_times pts \<union> insert (sul_us pt x) (set_option lowest)"] fin w Cons by auto
      fix z assume "z \<in> wake_times (pt # pts) \<union> set_option lowest"
      then consider "z \<in> wake_times pts \<union> insert (sul_us pt x) (set_option lowest)" | y where "y \<in> set xs" "z = sul_us pt y"
        using w Cons by auto
      then show "Min (wake_times pts \<union> insert (sul_us pt x) (set_option lowest)) \<le> z"
      proof cases
        case 2
        have "Min (wake_times pts \<union> insert (sul_us pt x) (set_option lowest)) \<le> sul_us pt x" using fin by (intro Min_le) auto
        then show ?thesis using 2 l(3) [of x xs y] Cons by simp
      qed (use fin in \<open>auto intro: Min_le\<close>)
    qed
    moreover obtain low' where low': "low' = (case lowest of None \<Rightarrow> Some (sul_us pt x)
        | Some l \<Rightarrow> if sul_us pt x < l then Some (sul_us pt x) else Some l)" by blast
    then have low: "low' = Some (Min (insert (sul_us pt x) (set_option lowest)))"
      by (cases lowest) (auto simp: min_def)
    have step: "wakeable_from (pt # pts) lowest = wakeable_from pts low'"
      using Cons l(1,2) by (simp add: LWSSULLI_WAKE_IF_SUSPENDED_def low')
    have "Min (wake_times pts \<union> {Min (insert (sul_us pt x) (set_option lowest))}) =
        Min (wake_times pts \<union> insert (sul_us pt x) (set_option lowest))" if "wake_times pts \<noteq> {}"
      using fin that by (cases lowest) (simp_all add: Min_Un ac_simps)
    moreover have "wake_times (pt # pts) \<noteq> {}" using w Cons by simp
    ultimately show ?thesis using IH [of low'] Cons.prems w fin unfolding step low by (cases "wake_times pts = {}") simp_all
  qed
qed

text \<open>The next wakeup.  \<open>lws_sul_earliest_wakeable_event\<close> returns 1 if no event of any thread is scheduled to wake
  the system, and otherwise 0 with the earliest of their due times, over all events of all threads although it looks
  at the list heads only.\<close>

theorem lws_sul_earliest_wakeable_event_minimal:
  assumes "\<forall>pt\<in>set pts. \<exists>L. sul_inv pt L"
  shows "lws_sul_earliest_wakeable_event pts =
    Done (if wake_times pts = {} then (1, None) else (0, Some (Min (wake_times pts))))"
  using wakeable_from_ok [OF assms, of None] by (simp add: lws_sul_earliest_wakeable_event_def)

section \<open>Instances\<close>

definition one_sul :: "int \<Rightarrow> unit sul_pt" where
  "one_sul t = \<lparr>sul_store = \<lparr>dll_next = (\<lambda>_. None), dll_prev = (\<lambda>_. None), dll_owner = (\<lambda>_. None)(7 := Some 1),
       own_head = (\<lambda>_. None)(1 := Some 7), own_tail = (\<lambda>_. None)(1 := Some 7), own_count = (\<lambda>_. 0)(1 := 1)\<rparr>,
     sul_us = (\<lambda>_. 0)(7 := t), sul_cb = (\<lambda>_. None)(7 := Some 3), attach_count = 0, inside_lws_service = False, pt_user = ()\<rparr>"

definition plain_env :: "unit sul_env" where
  "plain_env = \<lparr>run_cb = (\<lambda>cb x pt. pt), now_usecs = (\<lambda>pt. 100), attach_op = None, attach_cb = (\<lambda>i pt. pt)\<rparr>"

lemma one_sul_inv: "usec_ok t \<Longrightarrow> sul_inv (one_sul t) ((\<lambda>_. [])(1 := [7]))"
  by (auto simp: sul_inv_def dll_inv_def dll_list_def one_sul_def sul_owner_def)

lemma one_sul_pending: "sul_pending (one_sul t) x \<longleftrightarrow> x = 7"
  by (simp add: sul_pending_def one_sul_def sul_owner_def)

lemma plain_env_ok: "sul_callbacks_ok plain_env usnow"
  by (auto simp: sul_callbacks_ok_def plain_env_def)

theorem lws_sul_service_ripe_in_order_witness:
  "\<exists>r pt' tr. lws_sul_service_ripe plain_env sul_owners 50 (one_sul 40) = Some (Done (r, pt')) \<and>
    sul_fires plain_env 50 (one_sul 40) tr r pt' \<and>
    sorted (map snd tr) \<and> distinct (map fst tr) \<and> set tr \<subseteq> {(y, sul_us (one_sul 40) y) | y. y \<in> sul_ripe 50 (one_sul 40)} \<and>
    sul_ripe 50 pt' = {}"
  by (rule lws_sul_service_ripe_in_order [OF one_sul_inv plain_env_ok]) (simp_all add: usec_ok_def one_sul_def)

theorem lws_sul_schedule_refines_map_witness:
  "\<exists>pt' L'. sul_op_run plain_env (one_sul 40) (Schedule 9 2 10) = Some (Done pt') \<and> sul_inv pt' L' \<and>
    sul_abs pt' = sul_op_spec (sul_abs (one_sul 40)) (now_usecs plain_env (one_sul 40)) (Schedule 9 2 10)"
  by (rule lws_sul_schedule_refines_map [OF one_sul_inv]) (simp_all add: usec_ok_def sul_owner_def plain_env_def)

end
