(* ===== verification/Lws_Sha1.thy ===== *)
theory Lws_Sha1
  imports Lws_Prelude
begin

text \<open>
  The SHA-1 implementation of \<open>misc/sha-1.c\<close>, as it is compiled on a little-endian machine, and its equivalence
  with the hash of FIPS 180.  The code keeps only sixteen words of the message schedule, in the message block
  itself, and takes its input in pieces of any size.
\<close>

section \<open>The code\<close>

record sha1_ctxt =
  sha_h :: "u32 list"
  sha_c :: u64
  sha_m :: bytes
  sha_count :: u8

definition K_table :: "u32 list" where
  "K_table = [0x5a827999, 0x6ed9eba1, 0x8f1bbcdc, 0xca62c1d6]"

definition K_of :: "nat \<Rightarrow> u32" where
  "K_of t = K_table ! (t div 20)"

definition F0 :: "u32 \<Rightarrow> u32 \<Rightarrow> u32 \<Rightarrow> u32" where
  "F0 b c d = (b AND c) OR (NOT b AND d)"

definition F1 :: "u32 \<Rightarrow> u32 \<Rightarrow> u32 \<Rightarrow> u32" where
  "F1 b c d = (b XOR c) XOR d"

definition F2 :: "u32 \<Rightarrow> u32 \<Rightarrow> u32 \<Rightarrow> u32" where
  "F2 b c d = (b AND c) OR (b AND d) OR (c AND d)"

definition F3 :: "u32 \<Rightarrow> u32 \<Rightarrow> u32 \<Rightarrow> u32" where
  "F3 b c d = (b XOR c) XOR d"

definition S_rot :: "nat \<Rightarrow> u32 \<Rightarrow> u32" where
  "S_rot n x = push_bit n x OR drop_bit (32 - n) x"

text \<open>The unions: words seen as bytes and bytes as words, least significant byte first.\<close>

definition le_bytes :: "u32 \<Rightarrow> bytes" where
  "le_bytes w = [ucast w, ucast (drop_bit 8 w), ucast (drop_bit 16 w), ucast (drop_bit 24 w)]"

fun le_words :: "bytes \<Rightarrow> u32 list" where
  "le_words (b0 # b1 # b2 # b3 # bs) =
     (ucast b0 OR push_bit 8 (ucast b1) OR push_bit 16 (ucast b2) OR push_bit 24 (ucast b3)) # le_words bs"
| "le_words _ = []"

text \<open>The byte swaps of the little-endian branches.\<close>

fun swap32 :: "bytes \<Rightarrow> bytes" where
  "swap32 (b0 # b1 # b2 # b3 # bs) = b3 # b2 # b1 # b0 # swap32 bs"
| "swap32 _ = []"

type_synonym sha_regs = "u32 \<times> u32 \<times> u32 \<times> u32 \<times> u32"

text \<open>One turn of each of the four loops; \<open>W\<close> holds the sixteen words of \<open>m.b32\<close>.\<close>

definition sha1_turn :: "(u32 \<Rightarrow> u32 \<Rightarrow> u32 \<Rightarrow> u32) \<Rightarrow> nat \<Rightarrow> sha_regs \<times> u32 list \<Rightarrow> sha_regs \<times> u32 list" where
  "sha1_turn F t = (\<lambda>((a, b, c, d, e), W).
     let s = t mod 16;
         W = (if t \<ge> 16 then W[s := S_rot 1 (W ! ((s + 13) mod 16) XOR W ! ((s + 8) mod 16) XOR W ! ((s + 2) mod 16) XOR W ! s)]
              else W);
         tmp = S_rot 5 a + F b c d + e + W ! s + K_of t
     in ((tmp, a, S_rot 30 b, c, d), W))"

definition sha1_step :: "sha1_ctxt \<Rightarrow> sha1_ctxt" where
  "sha1_step ctxt =
     (let W = le_words (swap32 (sha_m ctxt));
          h = sha_h ctxt;
          st = ((h ! 0, h ! 1, h ! 2, h ! 3, h ! 4), W);
          st = fold (sha1_turn F0) [0..<20] st;
          st = fold (sha1_turn F1) [20..<40] st;
          st = fold (sha1_turn F2) [40..<60] st;
          ((a, b, c, d, e), W) = fold (sha1_turn F3) [60..<80] st
      in ctxt\<lparr>sha_h := [h ! 0 + a, h ! 1 + b, h ! 2 + c, h ! 3 + d, h ! 4 + e], sha_m := replicate 64 0\<rparr>)"

definition sha1_init :: sha1_ctxt where
  "sha1_init = \<lparr>sha_h = [0x67452301, 0xefcdab89, 0x98badcfe, 0x10325476, 0xc3d2e1f0], sha_c = 0,
     sha_m = replicate 64 0, sha_count = 0\<rparr>"

text \<open>Writing into the block and running the step when it is full: \<open>PUTPAD\<close> for one byte, and the body
  of \<open>sha1_loop\<close> apart from the bit count.\<close>

definition sha1_fill :: "sha1_ctxt \<Rightarrow> bytes \<Rightarrow> sha1_ctxt outcome" where
  "sha1_fill ctxt xs =
     bind_outcome (mem_store (sha_m ctxt) (unat (sha_count ctxt) mod 64) xs) (\<lambda>m.
       let ctxt = ctxt\<lparr>sha_m := m, sha_count := (sha_count ctxt + of_nat (length xs)) mod 64\<rparr> in
       Done (if sha_count ctxt mod 64 = 0 then sha1_step ctxt else ctxt))"

fun sha1_putpads :: "sha1_ctxt \<Rightarrow> bytes \<Rightarrow> sha1_ctxt outcome" where
  "sha1_putpads ctxt [] = Done ctxt"
| "sha1_putpads ctxt (x # xs) = bind_outcome (sha1_fill ctxt [x]) (\<lambda>ctxt. sha1_putpads ctxt xs)"

definition c_b8 :: "u64 \<Rightarrow> nat \<Rightarrow> u8" where
  "c_b8 c i = ucast (drop_bit (8 * i) c)"

definition sha1_pad :: "sha1_ctxt \<Rightarrow> sha1_ctxt outcome" where
  "sha1_pad ctxt =
     bind_outcome (sha1_fill ctxt [0x80]) (\<lambda>ctxt.
       let padstart = unat (sha_count ctxt) mod 64; padlen = 64 - padstart in
       bind_outcome
         (if padlen < 8 then
            bind_outcome (mem_store (sha_m ctxt) padstart (replicate padlen 0)) (\<lambda>m.
              Done (sha1_step (ctxt\<lparr>sha_m := m, sha_count := (sha_count ctxt + of_nat padlen) mod 64\<rparr>)))
          else Done ctxt) (\<lambda>ctxt.
         let padstart = unat (sha_count ctxt) mod 64; padlen = 64 - padstart in
         bind_outcome (mem_store (sha_m ctxt) padstart (replicate (padlen - 8) 0)) (\<lambda>m.
           let ctxt = ctxt\<lparr>sha_m := m, sha_count := (sha_count ctxt + of_nat (padlen - 8)) mod 64\<rparr>;
               c = sha_c ctxt
           in sha1_putpads ctxt [c_b8 c 7, c_b8 c 6, c_b8 c 5, c_b8 c 4, c_b8 c 3, c_b8 c 2, c_b8 c 1, c_b8 c 0])))"

function sha1_loop :: "sha1_ctxt \<Rightarrow> bytes \<Rightarrow> sha1_ctxt outcome" where
  "sha1_loop ctxt input =
     (if input = [] then Done ctxt
      else let gaplen = 64 - unat (sha_count ctxt) mod 64;
               copysiz = (if gaplen < length input then gaplen else length input) in
        bind_outcome (sha1_fill ctxt (take copysiz input)) (\<lambda>ctxt.
          sha1_loop (ctxt\<lparr>sha_c := sha_c ctxt + of_nat (copysiz * 8)\<rparr>) (drop copysiz input)))"
  by pat_completeness auto
termination
  by (relation "measure (\<lambda>(ctxt, input). length input)") auto

declare sha1_loop.simps [simp del]

definition sha1_result :: "sha1_ctxt \<Rightarrow> bytes outcome" where
  "sha1_result ctxt =
     bind_outcome (sha1_pad ctxt) (\<lambda>ctxt. Done (swap32 (concat (map le_bytes (sha_h ctxt)))))"

definition lws_SHA1 :: "bytes \<Rightarrow> bytes outcome" where
  "lws_SHA1 d = bind_outcome (sha1_loop sha1_init d) sha1_result"

section \<open>The hash of FIPS 180\<close>

definition be_word :: "bytes \<Rightarrow> u32" where
  "be_word b = push_bit 24 (ucast (b ! 0)) OR push_bit 16 (ucast (b ! 1)) OR push_bit 8 (ucast (b ! 2)) OR ucast (b ! 3)"

definition be_bytes :: "u32 \<Rightarrow> bytes" where
  "be_bytes w = [ucast (drop_bit 24 w), ucast (drop_bit 16 w), ucast (drop_bit 8 w), ucast w]"

definition be64_bytes :: "u64 \<Rightarrow> bytes" where
  "be64_bytes c = map (\<lambda>i. ucast (drop_bit (8 * i) c)) (rev [0..<8])"

definition rotl :: "nat \<Rightarrow> u32 \<Rightarrow> u32" where
  "rotl n x = word_rotl n x"

definition fips_f :: "nat \<Rightarrow> u32 \<Rightarrow> u32 \<Rightarrow> u32 \<Rightarrow> u32" where
  "fips_f t x y z = (if t < 20 then (x AND y) XOR (NOT x AND z)
     else if t < 40 then x XOR y XOR z
     else if t < 60 then (x AND y) XOR (x AND z) XOR (y AND z)
     else x XOR y XOR z)"

definition fips_k :: "nat \<Rightarrow> u32" where
  "fips_k t = (if t < 20 then 0x5a827999 else if t < 40 then 0x6ed9eba1 else if t < 60 then 0x8f1bbcdc else 0xca62c1d6)"

fun fips_w :: "bytes \<Rightarrow> nat \<Rightarrow> u32" where
  "fips_w M t = (if t < 16 then be_word (take 4 (drop (4 * t) M))
     else rotl 1 (fips_w M (t - 3) XOR fips_w M (t - 8) XOR fips_w M (t - 14) XOR fips_w M (t - 16)))"

declare fips_w.simps [simp del]

definition fips_turn :: "bytes \<Rightarrow> nat \<Rightarrow> sha_regs \<Rightarrow> sha_regs" where
  "fips_turn M t = (\<lambda>(a, b, c, d, e). (rotl 5 a + fips_f t b c d + e + fips_k t + fips_w M t, a, rotl 30 b, c, d))"

definition fips_block :: "bytes \<Rightarrow> u32 list \<Rightarrow> u32 list" where
  "fips_block M h =
     (let (a, b, c, d, e) = fold (fips_turn M) [0..<80] (h ! 0, h ! 1, h ! 2, h ! 3, h ! 4)
      in [h ! 0 + a, h ! 1 + b, h ! 2 + c, h ! 3 + d, h ! 4 + e])"

fun fips_blocks :: "nat \<Rightarrow> bytes \<Rightarrow> u32 list \<Rightarrow> u32 list" where
  "fips_blocks 0 bs h = h"
| "fips_blocks (Suc n) bs h = fips_blocks n (drop 64 bs) (fips_block (take 64 bs) h)"

definition fips_pad :: "bytes \<Rightarrow> bytes" where
  "fips_pad msg = msg @ 0x80 # replicate ((119 - length msg mod 64) mod 64) 0 @ be64_bytes (of_nat (8 * length msg))"

definition fips_sha1 :: "bytes \<Rightarrow> bytes" where
  "fips_sha1 msg = (let p = fips_pad msg in
     concat (map be_bytes (fips_blocks (length p div 64) p [0x67452301, 0xefcdab89, 0x98badcfe, 0x10325476, 0xc3d2e1f0])))"

section \<open>One block\<close>

lemma S_rot_rotl: "0 < n \<Longrightarrow> n < 32 \<Longrightarrow> S_rot n x = rotl n x"
proof (rule bit_word_eqI)
  fix i assume n: "0 < n" "n < 32" and "i < LENGTH(32)"
  then have i: "i < 32" by simp
  show "bit (S_rot n x) i = bit (rotl n x) i"
  proof (cases "i < n")
    case True
    then have "(i + (32 - n)) mod 32 = 32 - n + i" using n by simp
    then have "bit (rotl n x) i = bit x (32 - n + i)" using n i by (simp add: rotl_def bit_word_rotl_iff)
    then show ?thesis using True n i by (simp add: S_rot_def bit_or_iff bit_push_bit_iff bit_drop_bit_eq)
  next
    case False
    then have "(i + (32 - n)) mod 32 = i - n" using n i by (simp add: mod_if)
    moreover have "\<not> bit x (32 - n + i)" using False n bit_imp_le_length [of x "32 - n + i"] by auto
    ultimately show ?thesis using False n i
      by (simp add: S_rot_def rotl_def bit_word_rotl_iff bit_or_iff bit_push_bit_iff bit_drop_bit_eq)
  qed
qed

lemma F_fips:
  "t < 20 \<Longrightarrow> F0 = fips_f t" "20 \<le> t \<Longrightarrow> t < 40 \<Longrightarrow> F1 = fips_f t"
  "40 \<le> t \<Longrightarrow> t < 60 \<Longrightarrow> F2 = fips_f t" "60 \<le> t \<Longrightarrow> F3 = fips_f t"
  by (auto simp: fun_eq_iff F0_def F1_def F2_def F3_def fips_f_def bit_eq_iff bit_simps)

lemma K_fips: "t < 80 \<Longrightarrow> K_of t = fips_k t"
proof -
  assume "t < 80"
  then consider "t < 20" | "20 \<le> t" "t < 40" | "40 \<le> t" "t < 60" | "60 \<le> t" "t < 80" by linarith
  then show ?thesis
  proof cases
    case 2
    then have "t div 20 = 1" by auto
    then show ?thesis using 2 by (simp add: K_of_def K_table_def fips_k_def)
  next
    case 3
    then have "t div 20 = 2" by auto
    then show ?thesis using 3 by (simp add: K_of_def K_table_def fips_k_def)
  next
    case 4
    then have "t div 20 = 3" by auto
    then show ?thesis using 4 by (simp add: K_of_def K_table_def fips_k_def)
  qed (simp add: K_of_def K_table_def fips_k_def)
qed

lemma block_words:
  "length M = 4 * n \<Longrightarrow> length (le_words (swap32 M)) = n \<and>
     (\<forall>i<n. le_words (swap32 M) ! i = be_word (take 4 (drop (4 * i) M)))"
proof (induction M arbitrary: n rule: swap32.induct)
  case (1 b0 b1 b2 b3 bs)
  then obtain k where n: "n = Suc k" "length bs = 4 * k" by (cases n) auto
  show ?case
  proof (intro conjI allI impI)
    fix i assume "i < n"
    moreover have "drop (4 * Suc j) (b0 # b1 # b2 # b3 # bs) = drop (4 * j) bs" for j by (simp add: numeral_eq_Suc)
    ultimately show "le_words (swap32 (b0 # b1 # b2 # b3 # bs)) ! i = be_word (take 4 (drop (4 * i) (b0 # b1 # b2 # b3 # bs)))"
      using 1(1) [OF n(2)] n(1) by (cases i) (simp_all add: be_word_def or.assoc or.commute or.left_commute)
  qed (use 1(1) [OF n(2)] n(1) in simp)
qed auto

text \<open>The sixteen words kept hold the latest part of the schedule.\<close>

definition sched :: "bytes \<Rightarrow> nat \<Rightarrow> u32 list \<Rightarrow> bool" where
  "sched M t W \<longleftrightarrow> length W = 16 \<and> (if t < 16 then \<forall>i<16. W ! i = fips_w M i
     else \<forall>k. 0 < k \<and> k \<le> 16 \<longrightarrow> W ! ((t - k) mod 16) = fips_w M (t - k))"

lemma sched_wrap: "t \<ge> 16 \<Longrightarrow> sched M t W \<Longrightarrow> 0 < k \<Longrightarrow> k \<le> 16 \<Longrightarrow> W ! ((t mod 16 + (16 - k)) mod 16) = fips_w M (t - k)"
proof -
  assume a: "t \<ge> 16" "sched M t W" "0 < k" "k \<le> 16"
  have "(t mod 16 + (16 - k)) mod 16 = (t + (16 - k)) mod 16" by (simp add: mod_add_left_eq)
  also have "t + (16 - k) = (t - k) + 16" using a by simp
  also have "(t - k + 16) mod 16 = (t - k) mod 16" by simp
  finally have "(t mod 16 + (16 - k)) mod 16 = (t - k) mod 16" .
  moreover have "W ! ((t - k) mod 16) = fips_w M (t - k)" using a by (simp add: sched_def)
  ultimately show ?thesis by simp
qed

lemma sha1_turn_fips:
  assumes W: "sched M t W" and t: "t < 80" and F: "F = fips_f t"
  shows "\<exists>W'. sha1_turn F t (r, W) = (fips_turn M t r, W') \<and> sched M (Suc t) W'"
proof (cases "t < 16")
  case True
  have "sched M (Suc t) W"
  proof (cases "Suc t < 16")
    case False
    then have t15: "t = 15" using True by simp
    have "W ! ((16 - k) mod 16) = fips_w M (16 - k)" if "0 < k" "k \<le> 16" for k
      using W that by (simp add: sched_def t15)
    then show ?thesis using W by (simp add: sched_def t15)
  qed (use W in \<open>simp add: sched_def\<close>)
  then show ?thesis using W True t F
    by (cases r) (auto simp: sha1_turn_def fips_turn_def sched_def S_rot_rotl K_fips ac_simps)
next
  case False
  let ?s = "t mod 16"
  define v where "v = S_rot 1 (W ! ((?s + 13) mod 16) XOR W ! ((?s + 8) mod 16) XOR W ! ((?s + 2) mod 16) XOR W ! ?s)"
  have "v = fips_w M t"
    using sched_wrap [OF _ W, of 3] sched_wrap [OF _ W, of 8] sched_wrap [OF _ W, of 14] sched_wrap [OF _ W, of 16] False
    by (simp add: v_def S_rot_rotl fips_w.simps [of M t])
  moreover have len: "length W = 16" using W by (simp add: sched_def)
  moreover have "sched M (Suc t) (W[?s := v])"
  proof -
    have "W[?s := v] ! ((Suc t - k) mod 16) = fips_w M (Suc t - k)" if k: "0 < k" "k \<le> 16" for k
    proof (cases "k = 1")
      case False
      have "(t - (k - 1)) mod 16 \<noteq> ?s"
      proof
        assume "(t - (k - 1)) mod 16 = ?s"
        then have "(16 :: nat) dvd t - (t - (k - 1))" by (metis diff_le_self mod_eq_dvd_iff_nat)
        then have "(16 :: nat) dvd k - 1" using \<open>\<not> t < 16\<close> k by simp
        then show False using k \<open>k \<noteq> 1\<close> by (auto dest: dvd_imp_le)
      qed
      moreover have "W ! ((t - (k - 1)) mod 16) = fips_w M (t - (k - 1))"
      proof -
        have A: "\<forall>j. 0 < j \<and> j \<le> 16 \<longrightarrow> W ! ((t - j) mod 16) = fips_w M (t - j)" using W \<open>\<not> t < 16\<close> by (simp add: sched_def)
        have B: "0 < k - 1 \<and> k - 1 \<le> 16" using k \<open>k \<noteq> 1\<close> by simp
        show ?thesis by (rule A [rule_format, OF B])
      qed
      moreover have e: "Suc t - k = t - (k - 1)" using k by simp
      ultimately show ?thesis unfolding e by (metis nth_list_update_neq)
    qed (use \<open>v = fips_w M t\<close> len in simp)
    then show ?thesis using False len by (simp add: sched_def)
  qed
  moreover obtain a b c d e where r: "r = (a, b, c, d, e)" by (cases r)
  ultimately have "sha1_turn F t (r, W) = (fips_turn M t r, W[?s := v])"
    using False t F K_fips [OF t] unfolding r sha1_turn_def fips_turn_def Let_def prod.case v_def [symmetric]
    by (simp add: S_rot_rotl)
  then show ?thesis using \<open>sched M (Suc t) (W[?s := v])\<close> by blast
qed

lemma sha1_turns_fips:
  assumes "sched M t W" and "t + n \<le> 80" and "\<And>u. t \<le> u \<Longrightarrow> u < t + n \<Longrightarrow> F = fips_f u"
  shows "\<exists>W'. fold (sha1_turn F) [t..<t + n] (r, W) = (fold (fips_turn M) [t..<t + n] r, W') \<and> sched M (t + n) W'"
  using assms
proof (induction n)
  case (Suc n)
  then obtain W' where W': "fold (sha1_turn F) [t..<t + n] (r, W) = (fold (fips_turn M) [t..<t + n] r, W')" "sched M (t + n) W'"
    by auto
  then show ?case using sha1_turn_fips [OF W'(2), of F "fold (fips_turn M) [t..<t + n] r"] Suc.prems by auto
qed auto

lemma sha1_step_fips:
  assumes "length (sha_m ctxt) = 64"
  shows "sha1_step ctxt = ctxt\<lparr>sha_h := fips_block (sha_m ctxt) (sha_h ctxt), sha_m := replicate 64 0\<rparr>"
proof -
  let ?M = "sha_m ctxt" and ?h = "sha_h ctxt"
  let ?r = "(?h ! 0, ?h ! 1, ?h ! 2, ?h ! 3, ?h ! 4)" and ?T = "fips_turn ?M"
  have "sched ?M 0 (le_words (swap32 ?M))"
    using block_words [of ?M 16] assms by (simp add: sched_def fips_w.simps)
  moreover have turns: "\<exists>W'. fold (sha1_turn F) [t..<t + 20] (r, W) = (fold ?T [t..<t + 20] r, W') \<and> sched ?M (t + 20) W'"
    if "sched ?M t W" "t \<le> 60" "\<And>u. t \<le> u \<Longrightarrow> u < t + 20 \<Longrightarrow> F = fips_f u" for F t r W
    using sha1_turns_fips [of ?M t W 20 F r] that by simp
  ultimately obtain W1 where 1: "fold (sha1_turn F0) [0..<20] (?r, le_words (swap32 ?M)) = (fold ?T [0..<20] ?r, W1)" "sched ?M 20 W1"
    using turns [of 0 "le_words (swap32 ?M)" F0 ?r] F_fips(1) by auto
  obtain W2 where 2: "fold (sha1_turn F1) [20..<40] (fold ?T [0..<20] ?r, W1) = (fold ?T [20..<40] (fold ?T [0..<20] ?r), W2)" "sched ?M 40 W2"
    using turns [OF 1(2), of F1 "fold ?T [0..<20] ?r"] F_fips(2) by auto
  obtain W3 where 3: "fold (sha1_turn F2) [40..<60] (fold ?T [20..<40] (fold ?T [0..<20] ?r), W2) =
      (fold ?T [40..<60] (fold ?T [20..<40] (fold ?T [0..<20] ?r)), W3)" "sched ?M 60 W3"
    using turns [OF 2(2), of F2 "fold ?T [20..<40] (fold ?T [0..<20] ?r)"] F_fips(3) by auto
  obtain W4 where 4: "fold (sha1_turn F3) [60..<80] (fold ?T [40..<60] (fold ?T [20..<40] (fold ?T [0..<20] ?r)), W3) =
      (fold ?T [60..<80] (fold ?T [40..<60] (fold ?T [20..<40] (fold ?T [0..<20] ?r))), W4)"
    using turns [OF 3(2), of F3 "fold ?T [40..<60] (fold ?T [20..<40] (fold ?T [0..<20] ?r))"] F_fips(4) by auto
  have "[0..<80 :: nat] = [0..<20] @ [20..<40] @ [40..<60] @ [60..<80]"
    using upt_add_eq_append [of 0 20 60] upt_add_eq_append [of 20 40 40] upt_add_eq_append [of 40 60 20]
    by (simp del: upt_rec_numeral)
  then have all: "fold ?T [0..<80] ?r = fold ?T [60..<80] (fold ?T [40..<60] (fold ?T [20..<40] (fold ?T [0..<20] ?r)))"
    by (simp del: upt_rec_numeral)
  show ?thesis unfolding sha1_step_def fips_block_def Let_def all 1(1) 2(1) 3(1) 4 by (simp split: prod.splits)
qed

section \<open>The message\<close>

text \<open>The state after the bytes \<open>p\<close>: whole blocks are hashed, the rest is in the block.\<close>

definition sha_rep :: "bytes \<Rightarrow> sha1_ctxt \<Rightarrow> bool" where
  "sha_rep p ctxt \<longleftrightarrow> length (sha_m ctxt) = 64 \<and> sha_count ctxt = of_nat (length p mod 64) \<and>
     take (length p mod 64) (sha_m ctxt) = drop (64 * (length p div 64)) p \<and>
     sha_h ctxt = fips_blocks (length p div 64) p [0x67452301, 0xefcdab89, 0x98badcfe, 0x10325476, 0xc3d2e1f0]"

lemma fips_blocks_take: "64 * n \<le> length p \<Longrightarrow> fips_blocks n (p @ q) h = fips_blocks n p h"
  by (induction n arbitrary: p h) auto

lemma fips_blocks_snoc:
  "64 * Suc n \<le> length p \<Longrightarrow> fips_blocks (Suc n) p h = fips_block (take 64 (drop (64 * n) p)) (fips_blocks n p h)"
proof (induction n arbitrary: p h)
  case (Suc n)
  have "fips_blocks (Suc (Suc n)) p h = fips_blocks (Suc n) (drop 64 p) (fips_block (take 64 p) h)" by simp
  also have "\<dots> = fips_block (take 64 (drop (64 * n) (drop 64 p))) (fips_blocks n (drop 64 p) (fips_block (take 64 p) h))"
    using Suc.prems by (intro Suc.IH) simp
  finally show ?case by (simp add: add.commute)
qed simp

lemma count_mod:
  assumes "n < 64" and "k \<le> 64 - n"
  shows "(of_nat n + of_nat k :: u8) mod 64 = of_nat ((n + k) mod 64)"
proof -
  have "unat (of_nat n + of_nat k :: u8) = n + k"
    using assms by (simp flip: of_nat_add add: unsigned_of_nat take_bit_nat_eq_self)
  then have "unat ((of_nat n + of_nat k :: u8) mod 64) = (n + k) mod 64" by (simp add: unat_mod_distrib)
  then show ?thesis by (simp add: word_unat_eq_iff unat_of_nat_u8 del: of_nat_add)
qed

lemma sha_repD:
  assumes "sha_rep p ctxt"
  obtains n q where "length p = 64 * q + n" "n < 64" "length p mod 64 = n" "length p div 64 = q" "length (sha_m ctxt) = 64"
    "sha_count ctxt = of_nat n" "take n (sha_m ctxt) = drop (64 * q) p" "unat (sha_count ctxt) mod 64 = n"
    "sha_h ctxt = fips_blocks q p [0x67452301, 0xefcdab89, 0x98badcfe, 0x10325476, 0xc3d2e1f0]"
  by (rule that [of "length p div 64" "length p mod 64"]) (use assms in \<open>simp_all add: sha_rep_def unat_of_nat_u8\<close>)

lemma sha_rep_fill:
  assumes rep: "sha_rep p ctxt" and len: "length xs \<le> 64 - length p mod 64" and ne: "xs \<noteq> []"
  shows "\<exists>ctxt'. sha1_fill ctxt xs = Done ctxt' \<and> sha_rep (p @ xs) ctxt' \<and> sha_c ctxt' = sha_c ctxt"
proof -
  obtain n q where lp: "length p = 64 * q + n" "n < 64" "length p mod 64 = n" "length p div 64 = q"
    and m: "length (sha_m ctxt) = 64" "take n (sha_m ctxt) = drop (64 * q) p" and cnt: "sha_count ctxt = of_nat n"
    and un: "unat (sha_count ctxt) mod 64 = n"
    and h: "sha_h ctxt = fips_blocks q p [0x67452301, 0xefcdab89, 0x98badcfe, 0x10325476, 0xc3d2e1f0]"
    using rep by (rule sha_repD)
  have cnt': "(sha_count ctxt + of_nat (length xs)) mod 64 = of_nat ((n + length xs) mod 64)"
    unfolding cnt using len lp by (intro count_mod) auto
  let ?m = "drop (64 * q) p @ xs @ drop (n + length xs) (sha_m ctxt)"
  have st: "mem_store (sha_m ctxt) n xs = Done ?m"
    using len m lp(2,3) by (simp add: mem_store_def)
  have lm: "length ?m = 64" using m(1) len lp by simp
  show ?thesis
  proof (cases "n + length xs = 64")
    case True
    have "length p + length xs = 64 * Suc q" using True lp(1) by simp
    then have q: "(length p + length xs) div 64 = Suc q" "(length p + length xs) mod 64 = 0"
      by (simp_all only: nonzero_mult_div_cancel_left mod_mult_self1_is_0)
    have "take 64 (drop (64 * q) (p @ xs)) = ?m" using True m(1) lp(1) by simp
    then have "fips_blocks (Suc q) (p @ xs) h0 = fips_block ?m (fips_blocks q p h0)" for h0
      using fips_blocks_snoc [of q "p @ xs" h0] True lp(1) by (simp add: fips_blocks_take)
    then show ?thesis using st un cnt' True lm h q
      by (simp add: sha1_fill_def sha1_step_fips sha_rep_def)
  next
    case False
    then have lt: "n + length xs < 64" using len lp by simp
    then have q: "(length p + length xs) div 64 = q" "(length p + length xs) mod 64 = n + length xs"
      using lp(1) div_mult_self4 [of 64 q "n + length xs"] mod_mult_self4 [of 64 q "n + length xs"] by (simp_all add: add.assoc)
    have "(of_nat (n + length xs) :: u8) mod 64 = of_nat (n + length xs)" using lt count_mod [of "n + length xs" 0] by simp
    moreover have "(of_nat (n + length xs) :: u8) \<noteq> 0"
      using lt ne by (simp add: word_unat_eq_iff unat_of_nat_u8 del: of_nat_add)
    moreover have "take (n + length xs) ?m = drop (64 * q) (p @ xs)" using lp(1) by simp
    ultimately show ?thesis using st un cnt' lt lm h q lp(1)
      by (simp add: sha1_fill_def sha_rep_def fips_blocks_take del: of_nat_add)
  qed
qed

lemma sha_rep_init: "sha_rep [] sha1_init"
  by (simp add: sha_rep_def sha1_init_def)

lemma sha1_loop_rep:
  assumes "sha_rep p ctxt"
  shows "\<exists>ctxt'. sha1_loop ctxt xs = Done ctxt' \<and> sha_rep (p @ xs) ctxt' \<and> sha_c ctxt' = sha_c ctxt + of_nat (8 * length xs)"
  using assms
proof (induction xs arbitrary: p ctxt rule: length_induct)
  case (1 xs)
  show ?case
  proof (cases "xs = []")
    case False
    have "sha_count ctxt = of_nat (length p mod 64)" using "1.prems" by (simp add: sha_rep_def)
    then have un: "unat (sha_count ctxt) mod 64 = length p mod 64" by (simp add: unat_of_nat_u8)
    define k where "k = (if 64 - length p mod 64 < length xs then 64 - length p mod 64 else length xs)"
    have k: "0 < k" "k \<le> length xs" "k \<le> 64 - length p mod 64" using False by (auto simp: k_def)
    obtain c1 where c1: "sha1_fill ctxt (take k xs) = Done c1" "sha_rep (p @ take k xs) c1" "sha_c c1 = sha_c ctxt"
      using sha_rep_fill [OF "1.prems", of "take k xs"] k False by auto
    have "sha_rep (p @ take k xs) (c1\<lparr>sha_c := sha_c c1 + of_nat (k * 8)\<rparr>)" using c1(2) by (simp add: sha_rep_def)
    then obtain c2 where "sha1_loop (c1\<lparr>sha_c := sha_c c1 + of_nat (k * 8)\<rparr>) (drop k xs) = Done c2"
      "sha_rep ((p @ take k xs) @ drop k xs) c2" "sha_c c2 = sha_c c1 + of_nat (k * 8) + of_nat (8 * length (drop k xs))"
      using "1.IH" [rule_format, of "drop k xs" "p @ take k xs" "c1\<lparr>sha_c := sha_c c1 + of_nat (k * 8)\<rparr>"] k False by auto
    moreover have "of_nat (k * 8) + of_nat (8 * length (drop k xs)) = (of_nat (8 * length xs) :: u64)"
      using k by (simp flip: of_nat_add of_nat_mult add: algebra_simps)
    ultimately show ?thesis using c1 False un
      by (simp add: sha1_loop.simps [of ctxt xs] k_def [symmetric] add.assoc)
  qed (use "1.prems" in \<open>simp add: sha1_loop.simps\<close>)
qed

lemma sha1_putpads_rep:
  assumes "sha_rep p ctxt"
  shows "\<exists>ctxt'. sha1_putpads ctxt xs = Done ctxt' \<and> sha_rep (p @ xs) ctxt'"
  using assms
proof (induction xs arbitrary: p ctxt)
  case (Cons x xs)
  obtain c1 where c1: "sha1_fill ctxt [x] = Done c1" "sha_rep (p @ [x]) c1"
    using sha_rep_fill [OF Cons.prems, of "[x]"] by (auto simp: Suc_leI)
  then show ?case using Cons.IH [OF c1(2)] by simp
qed simp

text \<open>The two fills with zeros, of which only the first may complete a block.\<close>

lemma sha1_zero_rest:
  assumes rep: "sha_rep p ctxt" and k: "k = 64 - length p mod 64"
  shows "\<exists>ctxt'. bind_outcome (mem_store (sha_m ctxt) (unat (sha_count ctxt) mod 64) (replicate k 0)) (\<lambda>m.
      Done (sha1_step (ctxt\<lparr>sha_m := m, sha_count := (sha_count ctxt + of_nat k) mod 64\<rparr>))) = Done ctxt' \<and>
    sha_rep (p @ replicate k 0) ctxt' \<and> sha_c ctxt' = sha_c ctxt"
proof -
  obtain n where n: "n < 64" "length p mod 64 = n" "sha_count ctxt = of_nat n" using rep by (rule sha_repD)
  then have "(sha_count ctxt + of_nat k) mod 64 = 0" using count_mod [of n k] k by simp
  moreover have "replicate k (0 :: u8) \<noteq> []" using n k by simp
  ultimately show ?thesis using sha_rep_fill [OF rep, of "replicate k 0"] k by (simp add: sha1_fill_def)
qed

lemma sha1_zero_to_length:
  assumes rep: "sha_rep p ctxt" and lt: "length p mod 64 + k < 64"
  shows "\<exists>ctxt'. bind_outcome (mem_store (sha_m ctxt) (unat (sha_count ctxt) mod 64) (replicate k 0)) (\<lambda>m.
      Done (ctxt\<lparr>sha_m := m, sha_count := (sha_count ctxt + of_nat k) mod 64\<rparr>)) = Done ctxt' \<and>
    sha_rep (p @ replicate k 0) ctxt' \<and> sha_c ctxt' = sha_c ctxt"
proof (cases k)
  case 0
  obtain n where n: "n < 64" "length p mod 64 = n" "length (sha_m ctxt) = 64" "sha_count ctxt = of_nat n"
    "unat (sha_count ctxt) mod 64 = n" using rep by (rule sha_repD)
  then have "(sha_count ctxt + of_nat k) mod 64 = sha_count ctxt" using count_mod [of n 0] 0 by simp
  moreover have "mem_store (sha_m ctxt) n [] = Done (sha_m ctxt)" using n by (simp add: mem_store_def)
  ultimately show ?thesis using n 0 rep by (simp add: sha_rep_def)
next
  case (Suc j)
  obtain n where n: "n < 64" "length p mod 64 = n" "sha_count ctxt = of_nat n" using rep by (rule sha_repD)
  have "(sha_count ctxt + of_nat k) mod 64 = of_nat (n + k)" using count_mod [of n k] n lt by simp
  moreover have "(of_nat (n + k) :: u8) mod 64 = of_nat (n + k)" using count_mod [of "n + k" 0] n lt by simp
  moreover have "unat (of_nat (n + k) :: u8) = n + k" using n lt by (intro unat_of_nat_u8) simp
  then have "(of_nat (n + k) :: u8) \<noteq> 0" using Suc by (metis add_is_0 nat.distinct(1) unat_0)
  ultimately show ?thesis using sha_rep_fill [OF rep, of "replicate k 0"] Suc lt n by (simp add: sha1_fill_def del: of_nat_add)
qed

lemma pad_zeros: "m < 64 \<Longrightarrow> (119 - m) mod 64 = (if m \<le> 55 then 55 - m else 119 - m :: nat)"
  by (cases "m \<le> 55") (auto simp: le_mod_geq)

lemma sha1_pad_rep:
  assumes rep: "sha_rep p ctxt"
  shows "\<exists>ctxt'. sha1_pad ctxt = Done ctxt' \<and>
    sha_rep (p @ 0x80 # replicate ((119 - length p mod 64) mod 64) 0 @ be64_bytes (sha_c ctxt)) ctxt'"
proof -
  let ?p1 = "p @ [0x80]" and ?L = "be64_bytes (sha_c ctxt)"
  obtain c1 where c1: "sha1_fill ctxt [0x80] = Done c1" "sha_rep ?p1 c1" "sha_c c1 = sha_c ctxt"
    using sha_rep_fill [OF rep, of "[0x80]"] by (auto simp: Suc_leI)
  have L: "[c_b8 c 7, c_b8 c 6, c_b8 c 5, c_b8 c 4, c_b8 c 3, c_b8 c 2, c_b8 c 1, c_b8 c 0] = be64_bytes c" for c
    by (simp add: c_b8_def be64_bytes_def upt_rec)
  define n where "n = length ?p1 mod 64"
  have n: "n < 64" by (simp add: n_def)
  obtain c2 z where c2: "(if 64 - n < 8 then
            bind_outcome (mem_store (sha_m c1) n (replicate (64 - n) 0)) (\<lambda>m.
              Done (sha1_step (c1\<lparr>sha_m := m, sha_count := (sha_count c1 + of_nat (64 - n)) mod 64\<rparr>)))
          else Done c1) = Done c2" "sha_rep (?p1 @ replicate z 0) c2" "sha_c c2 = sha_c ctxt"
      "z = (if 64 - n < 8 then 64 - n else 0)"
  proof (cases "64 - n < 8")
    case True
    have "unat (sha_count c1) mod 64 = n" using c1(2) by (auto simp: n_def elim!: sha_repD)
    then show ?thesis using that sha1_zero_rest [OF c1(2), of "64 - n"] True c1(3) by (fastforce simp: n_def)
  next
    case False
    then show ?thesis using that [of c1 0] c1 by simp
  qed
  let ?p2 = "?p1 @ replicate z 0"
  define n2 where "n2 = length ?p2 mod 64"
  have n2: "n2 = (if 64 - n < 8 then 0 else n)"
  proof -
    have "n2 = (n + z) mod 64" by (simp add: n2_def n_def mod_add_left_eq)
    then show ?thesis using n by (simp add: c2(4))
  qed
  have lt: "length ?p2 mod 64 + (64 - n2 - 8) < 64" using n2 n unfolding n2_def [symmetric] by (auto split: if_splits)
  obtain c3 where c3: "bind_outcome (mem_store (sha_m c2) (unat (sha_count c2) mod 64) (replicate (64 - n2 - 8) 0)) (\<lambda>m.
      Done (c2\<lparr>sha_m := m, sha_count := (sha_count c2 + of_nat (64 - n2 - 8)) mod 64\<rparr>)) = Done c3"
    "sha_rep (?p2 @ replicate (64 - n2 - 8) 0) c3" "sha_c c3 = sha_c ctxt"
    using sha1_zero_to_length [OF c2(2) lt] unfolding c2(3) by blast
  obtain c4 where c4: "sha1_putpads c3 ?L = Done c4" "sha_rep ((?p2 @ replicate (64 - n2 - 8) 0) @ ?L) c4"
    using sha1_putpads_rep [OF c3(2)] by blast
  have zs: "z + (64 - n2 - 8) = (119 - length p mod 64) mod 64"
    using n c2(4) n2 pad_zeros [of "length p mod 64"] by (auto simp: n_def mod_Suc split: if_splits)
  have cnt: "unat (sha_count c1) mod 64 = n" "unat (sha_count c2) mod 64 = n2"
    using c1(2) c2(2) by (auto simp: n_def n2_def elim!: sha_repD)
  obtain m where m: "mem_store (sha_m c2) n2 (replicate (64 - n2 - 8) 0) = Done m"
    "c2\<lparr>sha_m := m, sha_count := (sha_count c2 + of_nat (64 - n2 - 8)) mod 64\<rparr> = c3" using c3(1) cnt(2) by auto
  have "sha1_pad ctxt = Done c4"
    unfolding sha1_pad_def Let_def c1(1) bind_outcome.simps cnt(1) c2(1) cnt(2) m L c3(3) by (rule c4(1))
  then show ?thesis using c4(2) by (auto simp: zs [symmetric] replicate_add)
qed

lemma swap32_bytes: "swap32 (concat (map le_bytes hs)) = concat (map be_bytes hs)"
  by (induction hs) (auto simp: le_bytes_def be_bytes_def)

lemma lws_SHA1_fips: "lws_SHA1 d = Done (fips_sha1 d)"
proof -
  obtain c1 where c1: "sha1_loop sha1_init d = Done c1" "sha_rep d c1" "sha_c c1 = of_nat (8 * length d)"
    using sha1_loop_rep [OF sha_rep_init, of d] by (auto simp: sha1_init_def)
  obtain c2 where c2: "sha1_pad c1 = Done c2" "sha_rep (fips_pad d) c2"
    using sha1_pad_rep [OF c1(2)] by (auto simp: fips_pad_def c1(3))
  then have "sha_h c2 = fips_blocks (length (fips_pad d) div 64) (fips_pad d) [0x67452301, 0xefcdab89, 0x98badcfe, 0x10325476, 0xc3d2e1f0]"
    by (simp add: sha_rep_def)
  then show ?thesis using c1(1) c2(1) by (simp add: lws_SHA1_def sha1_result_def fips_sha1_def swap32_bytes Let_def)
qed

text \<open>C28. SHA-1.  For every input, \<open>lws_SHA1\<close> stays inside its buffers and computes the hash defined by FIPS 180: padding,
  big-endian words, an 80-word schedule for each block and the 80 turns, although the code takes the input
  in pieces, keeps 16 words of schedule and works on byte-swapped memory.\<close>

theorem lws_SHA1_is_fips180: "lws_SHA1 d = Done (fips_sha1 d)"
  by (rule lws_SHA1_fips)

end
