(* ===== verification/Lws_Base64.thy ===== *)
theory Lws_Base64
  imports Lws_Prelude
begin

text \<open>
  The base64 coder and decoder of \<open>misc/base64-decode.c\<close>.  An input range is the list of its bytes; an output
  buffer is a list of bytes that is updated in place, and a write outside it faults.  The encoder is the coding of RFC
  4648 with either alphabet, and the decoder, which accepts both alphabets and skips what belongs to neither, undoes it.
\<close>

section \<open>The code\<close>

definition encode_orig :: bytes where
  "encode_orig = map of_char ''ABCDEFGHIJKLMNOPQRSTUVWXYZabcdefghijklmnopqrstuvwxyz0123456789+/''"

definition encode_url :: bytes where
  "encode_url = map of_char ''ABCDEFGHIJKLMNOPQRSTUVWXYZabcdefghijklmnopqrstuvwxyz0123456789-_''"

definition b64_decode :: bytes where
  "b64_decode = map of_char (''|$$$}rstuvwxyz{$$$$$$$>?@ABCDEFGHIJKLMNOPQRSTUVW'' @
     ''$$$$$$XYZ['' @ [CHR 0x5c] @ '']^_'' @ [CHR 0x60] @ ''abcdefghijklmnopq'')"

definition b64_quad :: "bytes \<Rightarrow> bytes \<Rightarrow> nat \<Rightarrow> bytes" where
  "b64_quad enc triple len =
     [enc ! unat (drop_bit 2 (triple ! 0)),
      enc ! unat ((push_bit 4 (triple ! 0 AND 0x03) AND 0x30) OR (drop_bit 4 (triple ! 1 AND 0xf0) AND 0x0f)),
      (if len > 1 then enc ! unat ((push_bit 2 (triple ! 1 AND 0x0f) AND 0x3c) OR (drop_bit 6 (triple ! 2 AND 0xc0) AND 3)) else 61),
      (if len > 2 then enc ! unat (triple ! 2 AND 0x3f) else 61)]"

fun b64_encode_from :: "bytes \<Rightarrow> bytes \<Rightarrow> nat \<Rightarrow> bytes \<Rightarrow> int \<Rightarrow> (int \<times> bytes) outcome" where
  "b64_encode_from enc [] done out out_size =
     (if int done + 1 \<ge> out_size then Done (-1, out)
      else bind_outcome (mem_store out done [0]) (\<lambda>out. Done (int done, out)))"
| "b64_encode_from enc (x # xs) done out out_size =
     (let len = min 3 (length (x # xs)); triple = take len (x # xs) @ replicate (3 - len) 0 in
      if int done + 4 \<ge> out_size then Done (-1, out)
      else bind_outcome (mem_store out done (b64_quad enc triple len)) (\<lambda>out.
        b64_encode_from enc (drop 2 xs) (done + 4) out out_size))"

definition lws_b64_encode_string :: "bytes \<Rightarrow> bytes \<Rightarrow> int \<Rightarrow> (int \<times> bytes) outcome" where
  "lws_b64_encode_string inp out out_size = b64_encode_from encode_orig inp 0 out out_size"

definition lws_b64_encode_string_url :: "bytes \<Rightarrow> bytes \<Rightarrow> int \<Rightarrow> (int \<times> bytes) outcome" where
  "lws_b64_encode_string_url inp out out_size = b64_encode_from encode_url inp 0 out out_size"

record lws_b64state =
  b64_quads :: bytes
  b64_done :: u64
  b64_len :: u64
  b64_i :: nat
  b64_c :: u8

definition lws_b64_decode_state_init :: lws_b64state where
  "lws_b64_decode_state_init = \<lparr>b64_quads = [0, 0, 0, 0], b64_done = 0, b64_len = 0, b64_i = 0, b64_c = 0\<rparr>"

text \<open>One more than the value of a character, 0 if it has none.\<close>

definition b64_value :: "u8 \<Rightarrow> u8" where
  "b64_value v =
     (let v = (if v < 43 \<or> v > 122 then 0 else b64_decode ! unat (v - 43)) in
      if v = 0 then 0 else if v = 36 then 0 else v - 61)"

definition b64_unurl :: "u8 \<Rightarrow> u8" where
  "b64_unurl c = (if c = 45 then 43 else if c = 95 then 47 else c)"

fun b64_fetch :: "u8 \<Rightarrow> bytes \<Rightarrow> u8 \<times> u8 \<times> bytes" where
  "b64_fetch c [] = (c, 0, [])"
| "b64_fetch c (x # xs) =
     (if x = 0 then (c, 0, x # xs)
      else let c = b64_unurl x; v = b64_value c in if v \<noteq> 0 then (c, v, xs) else b64_fetch c xs)"

definition more_in :: "bytes \<Rightarrow> bool" where
  "more_in inp \<longleftrightarrow> inp \<noteq> [] \<and> hd inp \<noteq> 0"

function b64_collect :: "lws_b64state \<Rightarrow> bytes \<Rightarrow> lws_b64state \<times> bytes" where
  "b64_collect s inp =
     (if b64_i s < 4 \<and> more_in inp then
        let (c, v, inp) = b64_fetch 0 inp;
            s = s\<lparr>b64_c := c\<rparr>;
            s = (if c \<noteq> 0 then
                   let s = s\<lparr>b64_len := b64_len s + 1\<rparr> in
                   if v \<noteq> 0 then s\<lparr>b64_quads := (b64_quads s)[b64_i s := v - 1]\<rparr> else s
                 else s\<lparr>b64_quads := (b64_quads s)[b64_i s := 0]\<rparr>)
        in b64_collect (s\<lparr>b64_i := b64_i s + 1\<rparr>) inp
      else (s, inp))"
  by pat_completeness auto
termination
  by (relation "measure (\<lambda>(s, inp). 4 - b64_i s)") (auto simp: Let_def split: prod.splits)

declare b64_collect.simps [simp del]

definition b64_bytes :: "bytes \<Rightarrow> u64 \<Rightarrow> bytes" where
  "b64_bytes q len =
     (if len \<ge> 2 then [push_bit 2 (q ! 0) OR drop_bit 4 (q ! 1)] else []) @
     (if len \<ge> 3 then [push_bit 4 (q ! 1) OR drop_bit 2 (q ! 2)] else []) @
     (if len \<ge> 4 then [(push_bit 6 (q ! 2) AND 0xc0) OR q ! 3] else [])"

partial_function (option) b64_decode_from ::
  "bool \<Rightarrow> nat \<Rightarrow> lws_b64state \<Rightarrow> bytes \<Rightarrow> nat \<Rightarrow> bytes \<Rightarrow> (lws_b64state \<times> bytes \<times> nat \<times> bytes) outcome option" where
  "b64_decode_from final out_size s inp pos out =
     (if more_in inp \<and> pos + 4 < out_size then
        (case b64_collect s inp of (s, inp) \<Rightarrow>
           if b64_i s \<noteq> 4 \<and> \<not> final then b64_decode_from final out_size s inp pos out
           else
             let s = s\<lparr>b64_i := 0\<rparr>;
                 s = (if \<not> more_in inp \<and> b64_c s = 61 then s\<lparr>b64_len := b64_len s - 1\<rparr> else s);
                 bs = b64_bytes (b64_quads s) (b64_len s)
             in case mem_store out pos bs of
                  Fault \<Rightarrow> Some Fault
                | Done out \<Rightarrow>
                    b64_decode_from final out_size
                      (s\<lparr>b64_done := b64_done s + (b64_len s - 1), b64_len := 0\<rparr>) inp (pos + length bs) out)
      else Some (Done (s, inp, pos, out)))"

text \<open>The results: the state, the number of bytes read, the number of bytes written, and the output buffer.\<close>

definition lws_b64_decode_stateful ::
  "lws_b64state \<Rightarrow> bytes \<Rightarrow> bytes \<Rightarrow> nat \<Rightarrow> bool \<Rightarrow> (lws_b64state \<times> nat \<times> nat \<times> bytes) outcome option" where
  "lws_b64_decode_stateful s inp out out_size final =
     map_option (\<lambda>r. bind_outcome r (\<lambda>(s, rest, pos, out).
       bind_outcome (mem_store out pos [0]) (\<lambda>out. Done (s, length inp - length rest, pos, out))))
     (b64_decode_from final out_size s inp 0 out)"

definition lws_b64_decode_string_len :: "bytes \<Rightarrow> bytes \<Rightarrow> nat \<Rightarrow> (int \<times> bytes) outcome option" where
  "lws_b64_decode_string_len inp out out_size =
     map_option (\<lambda>r. bind_outcome r (\<lambda>(s, il, ol, out).
       Done (if il = 0 then 0 else c_int ol, out)))
     (lws_b64_decode_stateful lws_b64_decode_state_init inp out out_size True)"

text \<open>The variant for a string that ends at its first NUL.\<close>

definition lws_b64_decode_string :: "bytes \<Rightarrow> bytes \<Rightarrow> nat \<Rightarrow> (int \<times> bytes) outcome option" where
  "lws_b64_decode_string inp out out_size =
     (if 0 \<notin> set inp then Some Fault
      else lws_b64_decode_string_len (takeWhile (\<lambda>x. x \<noteq> 0) inp) out out_size)"

section \<open>RFC 4648\<close>

text \<open>Groups of 24 bits, made of three bytes, are four groups of 6 bits, each a letter of the alphabet; a last group of
  8 or 16 bits is filled with zero bits to a multiple of 6 and its coding with \<open>=\<close> to four letters.\<close>

fun rfc4648 :: "bytes \<Rightarrow> bytes \<Rightarrow> bytes" where
  "rfc4648 enc [] = []"
| "rfc4648 enc [a] = (let n = unat a * 2 ^ 4 in [enc ! (n div 2 ^ 6), enc ! (n mod 2 ^ 6), 61, 61])"
| "rfc4648 enc [a, b] = (let n = (unat a * 2 ^ 8 + unat b) * 2 ^ 2 in
     [enc ! (n div 2 ^ 12), enc ! (n div 2 ^ 6 mod 2 ^ 6), enc ! (n mod 2 ^ 6), 61])"
| "rfc4648 enc (a # b # c # xs) = (let n = unat a * 2 ^ 16 + unat b * 2 ^ 8 + unat c in
     [enc ! (n div 2 ^ 18), enc ! (n div 2 ^ 12 mod 2 ^ 6), enc ! (n div 2 ^ 6 mod 2 ^ 6), enc ! (n mod 2 ^ 6)]) @ rfc4648 enc xs"

section \<open>Encoding\<close>

text \<open>The letters' numbers, as the code computes them, in arithmetic.\<close>

lemma lt8_iff: "n < 8 \<longleftrightarrow> n \<in> {0, 1, 2, 3, 4, 5, 6, 7 :: nat}"
  by auto

lemma b64_masks:
  "push_bit 4 (a AND 0x03) AND 0x30 = (push_bit 4 (take_bit 2 a) :: u8)"
  "drop_bit 4 (a AND 0xf0) AND 0x0f = (drop_bit 4 a :: u8)"
  "push_bit 2 (a AND 0x0f) AND 0x3c = (push_bit 2 (take_bit 4 a) :: u8)"
  "drop_bit 6 (a AND 0xc0) AND 3 = (drop_bit 6 a :: u8)"
  "a AND 0x3f = (take_bit 6 a :: u8)"
  by (rule bit_word_eqI; auto simp: lt8_iff bit_simps dest: bit_imp_le_length)+

lemma unat_shifts:
  "unat (drop_bit n (a :: u8)) = unat a div 2 ^ n"
  "unat (take_bit n (a :: u8)) = unat a mod 2 ^ n"
  "unat (push_bit n (a :: u8)) = unat a * 2 ^ n mod 2 ^ 8"
proof -
  have "take_bit 8 (unat a) = unat a" by (rule take_bit_nat_eq_self) (simp add: unat_lt_256)
  then show "unat (drop_bit n a) = unat a div 2 ^ n" unfolding unsigned_drop_bit_eq by (simp add: drop_bit_eq_div)
qed (unfold unsigned_take_bit_eq unsigned_push_bit_eq, simp_all add: push_bit_eq_mult take_bit_eq_mod)

lemma unat_or_disjoint: "x AND y = (0 :: u8) \<Longrightarrow> unat (x OR y) = unat x + unat y"
  unfolding unsigned_or_eq by (rule disjunctive_add_eq_or [symmetric]) (simp flip: unsigned_and_eq)

lemma b64_index:
  "unat ((push_bit 4 (a AND 0x03) AND 0x30) OR (drop_bit 4 (b AND 0xf0) AND 0x0f) :: u8) = unat a mod 4 * 16 + unat b div 16"
  "unat ((push_bit 2 (a AND 0x0f) AND 0x3c) OR (drop_bit 6 (b AND 0xc0) AND 3) :: u8) = unat a mod 16 * 4 + unat b div 64"
  "unat (a AND 0x3f :: u8) = unat a mod 64" "unat (drop_bit 2 a :: u8) = unat a div 4"
proof -
  have z: "push_bit 4 (take_bit 2 a) AND drop_bit 4 b = 0" "push_bit 2 (take_bit 4 a) AND drop_bit 6 b = 0"
    by (rule bit_word_eqI; auto simp: lt8_iff bit_simps dest: bit_imp_le_length)+
  have s: "unat (push_bit 4 (take_bit 2 a)) = unat a mod 4 * 16" "unat (push_bit 2 (take_bit 4 a)) = unat a mod 16 * 4"
    unfolding unat_shifts by simp_all
  show "unat ((push_bit 4 (a AND 0x03) AND 0x30) OR (drop_bit 4 (b AND 0xf0) AND 0x0f) :: u8) = unat a mod 4 * 16 + unat b div 16"
    unfolding b64_masks unat_or_disjoint [OF z(1)] s unat_shifts by simp
  show "unat ((push_bit 2 (a AND 0x0f) AND 0x3c) OR (drop_bit 6 (b AND 0xc0) AND 3) :: u8) = unat a mod 16 * 4 + unat b div 64"
    unfolding b64_masks unat_or_disjoint [OF z(2)] s unat_shifts by simp
  show "unat (a AND 0x3f :: u8) = unat a mod 64" "unat (drop_bit 2 a :: u8) = unat a div 4"
    unfolding b64_masks unat_shifts by simp_all
qed

lemma b64_quad_index:
  "b64_quad enc [a, b, c] len = [enc ! (unat a div 4), enc ! (unat a mod 4 * 16 + unat b div 16),
     (if len > 1 then enc ! (unat b mod 16 * 4 + unat c div 64) else 61), (if len > 2 then enc ! (unat c mod 64) else 61)]"
proof -
  have "[a, b, c] ! 0 = a" "[a, b, c] ! 1 = b" "[a, b, c] ! 2 = c" by simp_all
  then show ?thesis by (simp only: b64_quad_def b64_index)
qed

lemma b64_quad_rfc:
  "b64_quad enc [a, 0, 0] 1 = rfc4648 enc [a]"
  "b64_quad enc [a, b, 0] 2 = rfc4648 enc [a, b]"
  "b64_quad enc [a, b, c] 3 @ rfc4648 enc xs = rfc4648 enc (a # b # c # xs)"
proof -
  have 1: "unat a * 2 ^ 4 div 2 ^ 6 = unat a div 4" "unat a * 2 ^ 4 mod 2 ^ 6 = unat a mod 4 * 16"
    using div_mult_mult2 [of "16 :: nat" "unat a" 4] mod_mult_mult2 [of "unat a" 16 4] by simp_all
  have 2: "(x * 2 ^ 8 + y) * 2 ^ 2 div 2 ^ 12 = x div 4" "(x * 2 ^ 8 + y) * 2 ^ 2 div 2 ^ 6 mod 2 ^ 6 = x mod 4 * 16 + y div 16"
      "(x * 2 ^ 8 + y) * 2 ^ 2 mod 2 ^ 6 = y mod 16 * 4" if y: "y < 256" for x y :: nat
  proof -
    define p q r t where "p = x div 4" "q = x mod 4" "r = y div 16" "t = y mod 16"
    then have x: "x = 4 * p + q" "q < 4" "y = 16 * r + t" "t < 16" "r < 16" using y by auto
    have n: "(x * 2 ^ 8 + y) * 2 ^ 2 = 64 * (64 * p + (16 * q + r)) + 4 * t" by (simp add: x)
    have d: "(x * 2 ^ 8 + y) * 2 ^ 2 div 64 = 64 * p + (16 * q + r)" unfolding n using x by (simp add: div_add1_eq)
    show "(x * 2 ^ 8 + y) * 2 ^ 2 div 2 ^ 12 = x div 4"
      using x div_mult2_eq [of "(x * 2 ^ 8 + y) * 2 ^ 2" 64 64] unfolding d by (simp add: p_q_r_t_def(1) [symmetric])
    show "(x * 2 ^ 8 + y) * 2 ^ 2 div 2 ^ 6 mod 2 ^ 6 = x mod 4 * 16 + y div 16"
      using d x by (simp add: p_q_r_t_def(2,3) [symmetric] mod_mult_self4)
    show "(x * 2 ^ 8 + y) * 2 ^ 2 mod 2 ^ 6 = y mod 16 * 4"
    proof -
      have "(64 * (64 * p + (16 * q + r)) + 4 * t) mod 64 = 4 * t mod 64" by (rule mod_mult_self4)
      then show ?thesis unfolding n using x(4) by (simp add: p_q_r_t_def(4) [symmetric])
    qed
  qed
  have 3: "(x * 2 ^ 16 + y * 2 ^ 8 + z) div 2 ^ 18 = x div 4" "(x * 2 ^ 16 + y * 2 ^ 8 + z) div 2 ^ 12 mod 2 ^ 6 = x mod 4 * 16 + y div 16"
      "(x * 2 ^ 16 + y * 2 ^ 8 + z) div 2 ^ 6 mod 2 ^ 6 = y mod 16 * 4 + z div 64" "(x * 2 ^ 16 + y * 2 ^ 8 + z) mod 2 ^ 6 = z mod 64"
    if y: "y < 256" "z < 256" for x y z :: nat
  proof -
    let ?m = "x * 2 ^ 16 + y * 2 ^ 8 + z"
    have m: "?m = 64 * ((x * 2 ^ 8 + y) * 2 ^ 2 + z div 64) + z mod 64" by simp
    have d: "?m div 64 = (x * 2 ^ 8 + y) * 2 ^ 2 + z div 64" by simp
    have e: "?m div 64 div 64 = (x * 2 ^ 8 + y) * 2 ^ 2 div 64" unfolding d
    proof -
      have "(k * 4 + w) div 64 = k div 16" if "w < 4" for k w :: nat using that div_mult2_eq [of "k * 4 + w" 4 16] by simp
      from this [of "z div 64" "x * 2 ^ 8 + y"] this [of 0 "x * 2 ^ 8 + y"]
      show "((x * 2 ^ 8 + y) * 2 ^ 2 + z div 64) div 64 = (x * 2 ^ 8 + y) * 2 ^ 2 div 64" using y by simp
    qed
    show "?m div 2 ^ 18 = x div 4"
      using 2(1) [OF y(1), of x] e div_mult2_eq [of ?m 64 "64 * 64"] div_mult2_eq [of "?m div 64" 64 64]
        div_mult2_eq [of "(x * 2 ^ 8 + y) * 2 ^ 2" 64 64] by simp
    show "?m div 2 ^ 12 mod 2 ^ 6 = x mod 4 * 16 + y div 16"
      using 2(2) [OF y(1), of x] e div_mult2_eq [of ?m 64 64] by simp
    show "?m div 2 ^ 6 mod 2 ^ 6 = y mod 16 * 4 + z div 64"
    proof -
      have "((x * 2 ^ 8 + y) * 2 ^ 2 + z div 64) mod 64 = (y mod 16 * 4 + z div 64) mod 64"
        using 2(3) [OF y(1), of x] mod_add_left_eq [of "(x * 2 ^ 8 + y) * 2 ^ 2" 64 "z div 64"] by simp
      moreover have "y mod 16 < 16" "z div 64 < 4" using y by auto
      then have "y mod 16 * 4 + z div 64 < 64" by linarith
      ultimately have "((x * 2 ^ 8 + y) * 2 ^ 2 + z div 64) mod 64 = y mod 16 * 4 + z div 64" by simp
      then show ?thesis using d by simp
    qed
    have "?m mod 64 = z mod 64" by (subst m) (simp only: mod_mult_self4 mod_mod_trivial)
    then show "?m mod 2 ^ 6 = z mod 64" by simp
  qed
  show "b64_quad enc [a, 0, 0] 1 = rfc4648 enc [a]"
    unfolding rfc4648.simps Let_def 1 b64_quad_index by simp
  show "b64_quad enc [a, b, 0] 2 = rfc4648 enc [a, b]"
    unfolding rfc4648.simps Let_def 2 [OF unat_lt_256] b64_quad_index by simp
  show "b64_quad enc [a, b, c] 3 @ rfc4648 enc xs = rfc4648 enc (a # b # c # xs)"
    unfolding rfc4648.simps Let_def 3 [OF unat_lt_256 unat_lt_256] b64_quad_index by simp
qed

text \<open>The result of the encoder, whatever the size of the output buffer.\<close>

lemma rfc4648_length: "length (rfc4648 enc xs) = 4 * ((length xs + 2) div 3)"
proof (induction enc xs rule: rfc4648.induct)
  case (4 enc a b c xs)
  have "(length (a # b # c # xs) + 2) div 3 = Suc ((length xs + 2) div 3)" by simp
  moreover have "length (rfc4648 enc (a # b # c # xs)) = 4 + length (rfc4648 enc xs)" by (simp add: Let_def)
  ultimately show ?case using 4 by (simp only:) simp
qed (simp_all add: Let_def)

lemma b64_step_rfc:
  fixes xs :: bytes
  assumes len: "len = min 3 (length (x # xs))"
  shows "b64_quad enc (take len (x # xs) @ replicate (3 - len) 0) len @ rfc4648 enc (drop 2 xs) = rfc4648 enc (x # xs)"
proof -
  consider "xs = []" | y where "xs = [y]" | y z zs where "xs = y # z # zs" by (cases xs rule: list.exhaust [case_product list.exhaust]; metis list.exhaust)
  then show ?thesis
  proof cases
    case 1
    then have "len = 1" using len by simp
    then show ?thesis using b64_quad_rfc(1) [of enc x] 1 by (simp add: numeral_2_eq_2 del: rfc4648.simps(2))
  next
    case (2 y)
    then have "len = 2" using len by simp
    then show ?thesis using b64_quad_rfc(2) [of enc x y] 2 by (simp del: rfc4648.simps(3))
  next
    case (3 y z zs)
    then have "len = 3" using len by simp
    then show ?thesis using b64_quad_rfc(3) [of enc x y z zs] 3 by (simp del: rfc4648.simps(4))
  qed
qed

lemma b64_encode_from_ok:
  assumes "int (length out) \<ge> out_size" and "int (done + length (rfc4648 enc xs)) + 1 < out_size"
  shows "b64_encode_from enc xs done out out_size =
    Done (int (done + length (rfc4648 enc xs)),
      take done out @ rfc4648 enc xs @ 0 # drop (done + length (rfc4648 enc xs) + 1) out)"
  using assms
proof (induction enc xs "done" out out_size rule: b64_encode_from.induct)
  case (1 enc "done" out out_size)
  then show ?case by (simp add: mem_store_def)
next
  case (2 enc x xs "done" out out_size)
  define len where "len = min 3 (length (x # xs))"
  define q where "q = b64_quad enc (take len (x # xs) @ replicate (3 - len) 0) len"
  have q: "rfc4648 enc (x # xs) = q @ rfc4648 enc (drop 2 xs)" "length q = 4"
    using b64_step_rfc [OF len_def, of enc] by (simp_all add: q_def b64_quad_def)
  have lt: "\<not> int done + 4 \<ge> out_size" using 2(3) unfolding q(1) by (simp add: q(2))
  let ?out = "take done out @ q @ drop (done + 4) out"
  have st: "mem_store out done q = Done ?out" using lt 2(2) q(2) by (simp add: mem_store_def)
  have step: "b64_encode_from enc (x # xs) done out out_size = b64_encode_from enc (drop 2 xs) (done + 4) ?out out_size"
    using lt st unfolding b64_encode_from.simps(2) Let_def len_def [symmetric] q_def [symmetric] by simp
  have "b64_encode_from enc (drop 2 xs) (done + 4) ?out out_size =
    Done (int (done + 4 + length (rfc4648 enc (drop 2 xs))),
      take (done + 4) ?out @ rfc4648 enc (drop 2 xs) @ 0 # drop (done + 4 + length (rfc4648 enc (drop 2 xs)) + 1) ?out)"
    using 2(2,3) lt q(2) by (intro 2(1) [OF len_def refl]) (simp_all only: q(1), auto)
  then show ?case unfolding step q(1) using lt 2(2) q(2) by (simp add: add.commute add.left_commute)
qed

lemma b64_encode_from_full:
  assumes "int (length out) \<ge> out_size" and "\<not> int (done + length (rfc4648 enc xs)) + 1 < out_size"
  shows "\<exists>out'. b64_encode_from enc xs done out out_size = Done (-1, out') \<and> length out' = length out"
  using assms
proof (induction enc xs "done" out out_size rule: b64_encode_from.induct)
  case (2 enc x xs "done" out out_size)
  define len where "len = min 3 (length (x # xs))"
  define q where "q = b64_quad enc (take len (x # xs) @ replicate (3 - len) 0) len"
  have q: "rfc4648 enc (x # xs) = q @ rfc4648 enc (drop 2 xs)" "length q = 4"
    using b64_step_rfc [OF len_def, of enc] by (simp_all add: q_def b64_quad_def)
  show ?case
  proof (cases "int done + 4 \<ge> out_size")
    case False
    let ?out = "take done out @ q @ drop (done + 4) out"
    have st: "mem_store out done q = Done ?out" using False 2(2) q(2) by (simp add: mem_store_def)
    have lo: "length ?out = length out" using False 2(2) q(2) by simp
    have "b64_encode_from enc (x # xs) done out out_size = b64_encode_from enc (drop 2 xs) (done + 4) ?out out_size"
      using False st unfolding b64_encode_from.simps(2) Let_def len_def [symmetric] q_def [symmetric] by simp
    moreover have "\<exists>out'. b64_encode_from enc (drop 2 xs) (done + 4) ?out out_size = Done (-1, out') \<and> length out' = length ?out"
      using 2(2,3) False lo q(2) by (intro 2(1) [OF len_def refl]) (simp_all only: q(1), auto)
    ultimately show ?thesis unfolding lo by simp
  qed (simp add: Let_def)
qed simp

text \<open>Encoding.  Given an output buffer of at least \<open>out_size\<close> bytes, the encoders stay inside it.  They store the
  RFC 4648 coding of the input and a NUL and return its length when \<open>out_size\<close> is more than that length plus one, and
  return -1 otherwise.\<close>

theorem lws_b64_encode_is_rfc4648:
  assumes "out_size \<le> int (length out)" and "(enc, encode) \<in> {(lws_b64_encode_string, encode_orig), (lws_b64_encode_string_url, encode_url)}"
  shows "if int (length (rfc4648 encode inp)) + 1 < out_size
    then enc inp out out_size =
      Done (int (length (rfc4648 encode inp)), rfc4648 encode inp @ 0 # drop (length (rfc4648 encode inp) + 1) out)
    else \<exists>out'. enc inp out out_size = Done (-1, out') \<and> length out' = length out"
  using assms b64_encode_from_ok [OF assms(1), of 0 encode inp] b64_encode_from_full [OF assms(1), of 0 encode inp]
  by (auto simp: lws_b64_encode_string_def lws_b64_encode_string_url_def)

section \<open>Decoding\<close>

text \<open>The decoding table undoes both alphabets.\<close>

lemma b64_tables:
  "encode_orig = [65, 66, 67, 68, 69, 70, 71, 72, 73, 74, 75, 76, 77, 78, 79, 80, 81, 82, 83, 84, 85, 86, 87, 88,
     89, 90, 97, 98, 99, 100, 101, 102, 103, 104, 105, 106, 107, 108, 109, 110, 111, 112, 113, 114, 115, 116, 117, 118,
     119, 120, 121, 122, 48, 49, 50, 51, 52, 53, 54, 55, 56, 57, 43, 47]"
  "encode_url = [65, 66, 67, 68, 69, 70, 71, 72, 73, 74, 75, 76, 77, 78, 79, 80, 81, 82, 83, 84, 85, 86, 87, 88,
     89, 90, 97, 98, 99, 100, 101, 102, 103, 104, 105, 106, 107, 108, 109, 110, 111, 112, 113, 114, 115, 116, 117, 118,
     119, 120, 121, 122, 48, 49, 50, 51, 52, 53, 54, 55, 56, 57, 45, 95]"
  "b64_decode = [124, 36, 36, 36, 125, 114, 115, 116, 117, 118, 119, 120, 121, 122, 123, 36, 36, 36, 36, 36, 36, 36, 62, 63,
     64, 65, 66, 67, 68, 69, 70, 71, 72, 73, 74, 75, 76, 77, 78, 79, 80, 81, 82, 83, 84, 85, 86, 87,
     36, 36, 36, 36, 36, 36, 88, 89, 90, 91, 92, 93, 94, 95, 96, 97, 98, 99, 100, 101, 102, 103, 104, 105,
     106, 107, 108, 109, 110, 111, 112, 113]"
  by (simp_all add: encode_orig_def encode_url_def b64_decode_def)

lemma b64_alphabet_all:
  "list_all2 (\<lambda>x k. b64_value (b64_unurl x) = of_nat k + 1 \<and> x \<noteq> 0 \<and> b64_unurl x \<noteq> 61 \<and> b64_unurl x \<noteq> 0) encode_orig [0..<64]"
  "list_all2 (\<lambda>x k. b64_value (b64_unurl x) = of_nat k + 1 \<and> x \<noteq> 0 \<and> b64_unurl x \<noteq> 61 \<and> b64_unurl x \<noteq> 0) encode_url [0..<64]"
  unfolding b64_tables(1,2) by (simp_all add: b64_value_def b64_unurl_def b64_tables(3) upt_rec)

definition is_alphabet :: "bytes \<Rightarrow> bool" where
  "is_alphabet enc \<longleftrightarrow> enc = encode_orig \<or> enc = encode_url"

lemma b64_alphabet:
  assumes "is_alphabet enc" and "unat w < 64"
  shows "b64_value (b64_unurl (enc ! unat w)) = w + 1" "enc ! unat w \<noteq> 0" "b64_unurl (enc ! unat w) \<noteq> 61" "b64_unurl (enc ! unat w) \<noteq> 0"
  using assms b64_alphabet_all [THEN list_all2_nthD2, of "unat w"] by (auto simp: is_alphabet_def)

lemma letter_number: "unat (w :: u8) < 64 \<Longrightarrow> w + 1 \<noteq> 0"
  by (auto simp: word_unat_eq_iff unat_word_ariths)

lemma b64_fetch_letter:
  assumes "is_alphabet enc" and w: "unat (w :: u8) < 64"
  shows "b64_fetch c (enc ! unat w # xs) = (b64_unurl (enc ! unat w), w + 1, xs)"
  using b64_alphabet [OF assms] letter_number [OF w] by (simp add: Let_def)

lemma b64_fetch_end: "b64_fetch c [61, 61] = (61, 0, [])" "b64_fetch c [61] = (61, 0, [])"
  by (simp_all add: b64_unurl_def b64_value_def b64_tables(3))

text \<open>One letter taken into the group.\<close>

lemma b64_collect_letter:
  assumes "is_alphabet enc" and "unat w < 64" and "b64_i s < 4"
  shows "b64_collect s (enc ! unat w # inp) =
    b64_collect (s\<lparr>b64_c := b64_unurl (enc ! unat w), b64_len := b64_len s + 1,
      b64_quads := (b64_quads s)[b64_i s := w], b64_i := b64_i s + 1\<rparr>) inp"
  using assms letter_number [OF assms(2)] b64_alphabet [OF assms(1,2)] b64_fetch_letter [OF assms(1,2)]
    b64_collect.simps [of s "enc ! unat w # inp"]
  by (simp add: more_in_def Let_def)

text \<open>The groups of the coding: a full one, and the last one of one or two bytes.\<close>

definition sextets :: "u8 \<Rightarrow> u8 \<Rightarrow> u8 \<Rightarrow> bytes" where
  "sextets a b c = [drop_bit 2 a, (push_bit 4 (a AND 0x03) AND 0x30) OR (drop_bit 4 (b AND 0xf0) AND 0x0f),
     (push_bit 2 (b AND 0x0f) AND 0x3c) OR (drop_bit 6 (c AND 0xc0) AND 3), c AND 0x3f]"

lemma sextets_lt: "w \<in> set (sextets a b c) \<Longrightarrow> unat w < 64"
  using unat_lt_256 [of a] unat_lt_256 [of b] unat_lt_256 [of c]
  by (auto simp only: sextets_def list.set insert_iff empty_iff b64_index)

lemma sextets_bytes:
  assumes "sextets a b c = [w0, w1, w2, w3]"
  shows "b64_bytes [w0, w1, w2, w3] 4 = [a, b, c]" "b64_bytes [w0, w1, w2, x] 3 = [a, b]" "b64_bytes [w0, w1, y, x] 2 = [a]"
proof -
  have "w0 = drop_bit 2 a" "w1 = (push_bit 4 (take_bit 2 a)) OR drop_bit 4 b" "w2 = push_bit 2 (take_bit 4 b) OR drop_bit 6 c"
    "w3 = take_bit 6 c" using assms unfolding sextets_def b64_masks by auto
  then have "push_bit 2 w0 OR drop_bit 4 w1 = a" "push_bit 4 w1 OR drop_bit 2 w2 = b" "(push_bit 6 w2 AND 0xc0) OR w3 = c"
    by (rule_tac [!] bit_word_eqI) (auto simp: lt8_iff bit_simps dest: bit_imp_le_length simp flip: numeral_2_eq_2 numeral_3_eq_3)
  then show "b64_bytes [w0, w1, w2, w3] 4 = [a, b, c]" "b64_bytes [w0, w1, w2, x] 3 = [a, b]" "b64_bytes [w0, w1, y, x] 2 = [a]"
    by (simp_all add: b64_bytes_def)
qed

lemma b64_collect_group:
  assumes "is_alphabet enc" and w: "set [w0, w1, w2, w3] \<subseteq> {w. unat w < 64}"
    and s: "b64_i s = 0" "b64_len s = 0" "b64_quads s = [p0, p1, p2, p3]"
  shows "\<exists>c. c \<noteq> 61 \<and> b64_collect s (enc ! unat w0 # enc ! unat w1 # enc ! unat w2 # enc ! unat w3 # inp) =
      (s\<lparr>b64_c := c, b64_len := 4, b64_quads := [w0, w1, w2, w3], b64_i := 4\<rparr>, inp)"
    "b64_collect s [enc ! unat w0, enc ! unat w1, enc ! unat w2, 61] =
      (s\<lparr>b64_c := 61, b64_len := 4, b64_quads := [w0, w1, w2, p3], b64_i := 4\<rparr>, [])"
    "b64_collect s [enc ! unat w0, enc ! unat w1, 61, 61] =
      (s\<lparr>b64_c := 61, b64_len := 3, b64_quads := [w0, w1, p2, p3], b64_i := 3\<rparr>, [])"
proof -
  have lt: "unat w0 < 64" "unat w1 < 64" "unat w2 < 64" "unat w3 < 64" using w by auto
  obtain dn c0 where r: "s = \<lparr>b64_quads = [p0, p1, p2, p3], b64_done = dn, b64_len = 0, b64_i = 0, b64_c = c0\<rparr>"
    using s by (cases s) auto
  note step = b64_collect_letter [OF assms(1)] lt r
  have full: "b64_collect t i = (t, i)" if "b64_i t = 4" for t i using that by (simp add: b64_collect.simps)
  have "b64_collect s (enc ! unat w0 # enc ! unat w1 # enc ! unat w2 # enc ! unat w3 # inp) =
      (s\<lparr>b64_c := b64_unurl (enc ! unat w3), b64_len := 4, b64_quads := [w0, w1, w2, w3], b64_i := 4\<rparr>, inp)"
    by (simp add: step full)
  then show "\<exists>c. c \<noteq> 61 \<and> b64_collect s (enc ! unat w0 # enc ! unat w1 # enc ! unat w2 # enc ! unat w3 # inp) =
      (s\<lparr>b64_c := c, b64_len := 4, b64_quads := [w0, w1, w2, w3], b64_i := 4\<rparr>, inp)"
    using b64_alphabet(3) [OF assms(1) lt(4)] by blast
  show "b64_collect s [enc ! unat w0, enc ! unat w1, enc ! unat w2, 61] =
      (s\<lparr>b64_c := 61, b64_len := 4, b64_quads := [w0, w1, w2, p3], b64_i := 4\<rparr>, [])"
    by (simp add: step b64_collect.simps [of _ "[61]"] b64_fetch_end more_in_def full del: b64_fetch.simps)
  show "b64_collect s [enc ! unat w0, enc ! unat w1, 61, 61] =
      (s\<lparr>b64_c := 61, b64_len := 3, b64_quads := [w0, w1, p2, p3], b64_i := 3\<rparr>, [])"
    by (simp add: step b64_collect.simps [of _ "[61, 61]"] b64_collect.simps [of _ "[]"] b64_fetch_end more_in_def del: b64_fetch.simps)
qed

lemma b64_quad_sextets:
  assumes "sextets a b c = [w0, w1, w2, w3]"
  shows "b64_quad enc [a, b, c] len =
    [enc ! unat w0, enc ! unat w1, (if len > 1 then enc ! unat w2 else 61), (if len > 2 then enc ! unat w3 else 61)]"
  using assms by (auto simp: b64_quad_def sextets_def)

definition b64_fresh :: "lws_b64state \<Rightarrow> bool" where
  "b64_fresh s \<longleftrightarrow> b64_i s = 0 \<and> b64_len s = 0 \<and> length (b64_quads s) = 4"

lemma b64_decode_from_group:
  assumes enc: "is_alphabet enc" and s: "b64_fresh s" and sx: "sextets a b c = [w0, w1, w2, w3]"
    and pos: "pos + 4 < out_size" "out_size \<le> length out"
  shows "\<exists>s'. b64_fresh s' \<and> b64_decode_from True out_size s (b64_quad enc [a, b, c] 3 @ inp) pos out =
      b64_decode_from True out_size s' inp (pos + 3) (take pos out @ [a, b, c] @ drop (pos + 3) out)"
    "\<exists>s'. b64_fresh s' \<and> b64_decode_from True out_size s (b64_quad enc [a, b, c] 2) pos out =
      Some (Done (s', [], pos + 2, take pos out @ [a, b] @ drop (pos + 2) out))"
    "\<exists>s'. b64_fresh s' \<and> b64_decode_from True out_size s (b64_quad enc [a, b, c] 1) pos out =
      Some (Done (s', [], pos + 1, take pos out @ [a] @ drop (pos + 1) out))"
proof -
  obtain p0 p1 p2 p3 where q: "b64_quads s = [p0, p1, p2, p3]"
    using s by (auto simp: b64_fresh_def length_Suc_conv numeral_eq_Suc)
  have fr: "b64_i s = 0" "b64_len s = 0" using s by (simp_all add: b64_fresh_def)
  have w: "set [w0, w1, w2, w3] \<subseteq> {w. unat w < 64}" using sextets_lt [of _ a b c] sx by auto
  note grp = b64_collect_group [OF enc w fr q] and quad = b64_quad_sextets [OF sx, of enc]
  have more: "more_in (enc ! unat w0 # xs)" for xs using b64_alphabet(2) [OF enc, of w0] w by (simp add: more_in_def)
  have st: "mem_store out pos bs = Done (take pos out @ bs @ drop (pos + length bs) out)" if "length bs \<le> 3" for bs
    using pos that by (simp add: mem_store_def)
  have fin: "b64_decode_from True out_size t [] p o' = Some (Done (t, [], p, o'))" for t p o'
    by (simp add: b64_decode_from.simps more_in_def)
  have n: "pos + 3 = Suc (Suc (Suc pos))" "pos + 2 = Suc (Suc pos)" by simp_all
  obtain ch where ch: "ch \<noteq> 61" "b64_collect s (enc ! unat w0 # enc ! unat w1 # enc ! unat w2 # enc ! unat w3 # inp) =
      (s\<lparr>b64_c := ch, b64_len := 4, b64_quads := [w0, w1, w2, w3], b64_i := 4\<rparr>, inp)" using grp(1) by blast
  note bs = sextets_bytes [OF sx]
  let ?s = "\<lambda>ch qs k. s\<lparr>b64_c := ch, b64_quads := qs, b64_i := 0, b64_done := b64_done s + k, b64_len := 0\<rparr>"
  have fresh: "b64_fresh (?s x [q0, q1, q2, q3] k)" for x q0 q1 q2 q3 k by (simp add: b64_fresh_def)
  have "b64_decode_from True out_size s (b64_quad enc [a, b, c] 3 @ inp) pos out =
      b64_decode_from True out_size (?s ch [w0, w1, w2, w3] 3) inp (pos + 3) (take pos out @ [a, b, c] @ drop (pos + 3) out)"
    using ch pos(1) more st [of "[a, b, c]"] bs(1) unfolding n
    by (simp add: quad b64_decode_from.simps [of True out_size s])
  then show "\<exists>s'. b64_fresh s' \<and> b64_decode_from True out_size s (b64_quad enc [a, b, c] 3 @ inp) pos out =
      b64_decode_from True out_size s' inp (pos + 3) (take pos out @ [a, b, c] @ drop (pos + 3) out)"
    using fresh by blast
  have "b64_decode_from True out_size s (b64_quad enc [a, b, c] 2) pos out =
      Some (Done (?s 61 [w0, w1, w2, p3] 2, [], pos + 2, take pos out @ [a, b] @ drop (pos + 2) out))"
    using grp(2) pos(1) more st [of "[a, b]"] bs(2) unfolding n
    by (simp add: quad b64_decode_from.simps [of True out_size s] fin more_in_def [of "[]"])
  then show "\<exists>s'. b64_fresh s' \<and> b64_decode_from True out_size s (b64_quad enc [a, b, c] 2) pos out =
      Some (Done (s', [], pos + 2, take pos out @ [a, b] @ drop (pos + 2) out))"
    using fresh by blast
  have "b64_decode_from True out_size s (b64_quad enc [a, b, c] 1) pos out =
      Some (Done (?s 61 [w0, w1, p2, p3] 1, [], pos + 1, take pos out @ [a] @ drop (pos + 1) out))"
    using grp(3) pos(1) more st [of "[a]"] bs(3)
    by (simp add: quad b64_decode_from.simps [of True out_size s] fin more_in_def [of "[]"])
  then show "\<exists>s'. b64_fresh s' \<and> b64_decode_from True out_size s (b64_quad enc [a, b, c] 1) pos out =
      Some (Done (s', [], pos + 1, take pos out @ [a] @ drop (pos + 1) out))"
    using fresh by blast
qed

lemma b64_decode_from_rfc:
  assumes "is_alphabet enc" and "b64_fresh s" and "pos + length xs + 4 \<le> out_size" and "out_size \<le> length out"
  shows "\<exists>s'. b64_decode_from True out_size s (rfc4648 enc xs) pos out =
    Some (Done (s', [], pos + length xs, take pos out @ xs @ drop (pos + length xs) out))"
  using assms
proof (induction enc xs arbitrary: s pos out rule: rfc4648.induct)
  case (1 enc)
  then show ?case by (simp add: b64_decode_from.simps more_in_def)
next
  case (2 enc a)
  obtain w0 w1 w2 w3 where sx: "sextets a 0 0 = [w0, w1, w2, w3]" by (simp add: sextets_def)
  show ?case using b64_decode_from_group(3) [OF 2(1,2) sx, of pos out_size out] 2(3,4)
    unfolding b64_quad_rfc(1) by (auto simp del: rfc4648.simps)
next
  case (3 enc a b)
  obtain w0 w1 w2 w3 where sx: "sextets a b 0 = [w0, w1, w2, w3]" by (simp add: sextets_def)
  show ?case using b64_decode_from_group(2) [OF 3(1,2) sx, of pos out_size out] 3(3,4)
    unfolding b64_quad_rfc(2) by (auto simp del: rfc4648.simps)
next
  case (4 enc a b c xs)
  obtain w0 w1 w2 w3 where sx: "sextets a b c = [w0, w1, w2, w3]" by (simp add: sextets_def)
  let ?out = "take pos out @ [a, b, c] @ drop (pos + 3) out"
  obtain s' where s': "b64_fresh s'" "b64_decode_from True out_size s (rfc4648 enc (a # b # c # xs)) pos out =
      b64_decode_from True out_size s' (rfc4648 enc xs) (pos + 3) ?out"
    using b64_decode_from_group(1) [OF 4(2,3) sx, of pos out_size out "rfc4648 enc xs"] 4(4,5)
    unfolding b64_quad_rfc(3) by auto
  have "\<exists>t. b64_decode_from True out_size s' (rfc4648 enc xs) (pos + 3) ?out =
      Some (Done (t, [], pos + 3 + length xs, take (pos + 3) ?out @ xs @ drop (pos + 3 + length xs) ?out))"
    using 4(2,4,5) s'(1) by (intro 4(1)) auto
  moreover have "take (pos + 3) ?out = take pos out @ [a, b, c]" using 4(4,5) by simp
  moreover have "drop (pos + 3 + length xs) ?out = drop (pos + length (a # b # c # xs)) out"
    using 4(4,5) by (subst append_assoc [symmetric], subst drop_append) (simp add: numeral_3_eq_3 add.commute)
  ultimately show ?case unfolding s'(2) by (simp add: numeral_3_eq_3)
qed

lemma rfc4648_chars:
  "length enc = 64 \<Longrightarrow> set (rfc4648 enc xs) \<subseteq> insert 61 (set enc)"
proof (induction enc xs rule: rfc4648.induct)
  have sub: "set (b64_quad enc [a, b, c] len) \<subseteq> insert 61 (set enc)" if "length enc = 64" for enc a b c len
  proof -
    obtain w0 w1 w2 w3 where sx: "sextets a b c = [w0, w1, w2, w3]" by (simp add: sextets_def)
    have "enc ! unat w \<in> set enc" if "w \<in> set (sextets a b c)" for w using sextets_lt [OF that] \<open>length enc = 64\<close> by simp
    then show ?thesis unfolding b64_quad_sextets [OF sx] using sx by simp
  qed
  {
    case (2 enc a)
    then show ?case using sub [of enc a 0 0 1] unfolding b64_quad_rfc by blast
  next
    case (3 enc a b)
    then show ?case using sub [of enc a b 0 2] unfolding b64_quad_rfc by blast
  next
    case (4 enc a b c xs)
    then have "set (b64_quad enc [a, b, c] 3 @ rfc4648 enc xs) \<subseteq> insert 61 (set enc)" using sub [of enc a b c 3] by simp
    then show ?case unfolding b64_quad_rfc .
  }
qed simp

lemma rfc4648_printable:
  assumes "is_alphabet enc"
  shows "list_all (\<lambda>c. 32 < c) (rfc4648 enc xs)"
proof -
  have "length enc = 64" "list_all (\<lambda>c. 32 < c) enc" using assms by (auto simp: is_alphabet_def encode_orig_def encode_url_def)
  then show ?thesis using rfc4648_chars [of enc xs] by (auto simp: list_all_iff)
qed

lemma rfc4648_no_nul: "is_alphabet enc \<Longrightarrow> 0 \<notin> set (rfc4648 enc xs)"
  using rfc4648_printable [of enc xs] by (auto simp: list_all_iff)

text \<open>C29. Base64 round trip.  What either encoder makes of a sequence of bytes, \<open>lws_b64_decode_string\<close> turns back into
  the same bytes, with their number as the result, given an output buffer four bytes larger than they are; it
  ends, and stays inside the buffer.\<close>

theorem lws_b64_roundtrip:
  assumes "(enc, encode) \<in> {(lws_b64_encode_string, encode_orig), (lws_b64_encode_string_url, encode_url)}"
    and "int (4 * ((length xs + 2) div 3)) + 1 < out_size" and "out_size \<le> int (length out)"
    and "length xs + 4 \<le> size2" and "size2 \<le> length out2" and "length xs < 2 ^ 31"
  shows "\<exists>n coded. enc xs out out_size = Done (n, coded) \<and> n \<ge> 0 \<and>
    lws_b64_decode_string coded out2 size2 = Some (Done (int (length xs), xs @ 0 # drop (length xs + 1) out2))"
proof -
  have al: "is_alphabet encode" and enc: "enc xs out out_size = b64_encode_from encode xs 0 out out_size"
    using assms(1) by (auto simp: is_alphabet_def lws_b64_encode_string_def lws_b64_encode_string_url_def)
  let ?coded = "rfc4648 encode xs @ 0 # drop (length (rfc4648 encode xs) + 1) out"
  have 1: "enc xs out out_size = Done (int (length (rfc4648 encode xs)), ?coded)"
    using b64_encode_from_ok [OF assms(3), of 0 encode xs] assms(2) by (simp add: enc rfc4648_length)
  have tw: "takeWhile (\<lambda>x. x \<noteq> 0) ?coded = rfc4648 encode xs"
    using rfc4648_no_nul [OF al, of xs] by (subst takeWhile_append2) auto
  obtain s' where dec: "b64_decode_from True size2 lws_b64_decode_state_init (rfc4648 encode xs) 0 out2 =
      Some (Done (s', [], length xs, xs @ drop (length xs) out2))"
    using b64_decode_from_rfc [OF al, of lws_b64_decode_state_init 0 xs size2 out2] assms(4,5)
    by (auto simp: b64_fresh_def lws_b64_decode_state_init_def)
  have "mem_store (xs @ drop (length xs) out2) (length xs) [0] = Done (xs @ 0 # drop (length xs + 1) out2)"
    using assms(4,5) by (simp add: mem_store_def)
  moreover have "xs = []" if "rfc4648 encode xs = []" using that rfc4648_length [of encode xs] by (cases xs) auto
  ultimately have "lws_b64_decode_string ?coded out2 size2 = Some (Done (int (length xs), xs @ 0 # drop (length xs + 1) out2))"
    using dec tw assms(6)
    by (auto simp: lws_b64_decode_string_def lws_b64_decode_string_len_def lws_b64_decode_stateful_def)
  then show ?thesis using 1 by (intro exI [of _ "int (length (rfc4648 encode xs))"] exI [of _ ?coded]) simp
qed

theorem lws_b64_roundtrip_witness:
  "\<exists>n coded. lws_b64_encode_string_url [77, 97] (replicate 8 0) 8 = Done (n, coded) \<and> n \<ge> 0 \<and>
    lws_b64_decode_string coded (replicate 8 0) 8 =
      Some (Done (int (length [77, 97 :: u8]), [77, 97] @ 0 # drop (length [77, 97 :: u8] + 1) (replicate 8 0)))"
  by (rule lws_b64_roundtrip [where encode = encode_url]) simp_all

end
