(* ===== verification/Lws_Utf8.thy ===== *)
theory Lws_Utf8
  imports Lws_Prelude
begin

text \<open>
  The incremental UTF-8 validator of \<open>core/libwebsockets.c\<close> (\<open>lws_check_byte_utf8\<close>,
  \<open>lws_check_utf8\<close> and their table \<open>e0f4\<close>), a reference definition of UTF-8 by code points
  (RFC 3629), and the proof that the table-driven validator decides it, for whole strings, for
  prefixes, and for input that arrives in chunks.
\<close>

section \<open>The validator\<close>

text \<open>An entry packs the lowest allowed next byte, the width of its range in units of 16, and
  how many more continuation bytes follow.\<close>

definition e0f4_entry :: "u8 \<Rightarrow> nat \<Rightarrow> u8 \<Rightarrow> u8" where
  "e0f4_entry lo n k = lo OR push_bit 2 (of_nat (n - 1)) OR k"

definition e0f4 :: bytes where
  "e0f4 =
    [e0f4_entry 0xa0 2 1,
     e0f4_entry 0x80 4 1, e0f4_entry 0x80 4 1, e0f4_entry 0x80 4 1, e0f4_entry 0x80 4 1,
     e0f4_entry 0x80 4 1, e0f4_entry 0x80 4 1, e0f4_entry 0x80 4 1, e0f4_entry 0x80 4 1,
     e0f4_entry 0x80 4 1, e0f4_entry 0x80 4 1, e0f4_entry 0x80 4 1, e0f4_entry 0x80 4 1,
     e0f4_entry 0x80 2 1,
     e0f4_entry 0x80 4 1, e0f4_entry 0x80 4 1,
     e0f4_entry 0x90 3 2,
     e0f4_entry 0x80 4 2, e0f4_entry 0x80 4 2, e0f4_entry 0x80 4 2,
     e0f4_entry 0x80 1 2,
     0, e0f4_entry 0x80 4 0, e0f4_entry 0x80 4 1]"

text \<open>\<open>c\<close> is outside the range a pending state \<open>s\<close> allows; the C expression is an \<open>int\<close>.\<close>

definition utf8_out_of_range :: "u8 \<Rightarrow> u8 \<Rightarrow> bool" where
  "utf8_out_of_range s c \<longleftrightarrow>
     c < (s AND 0xf0) \<or> unat (s AND 0xf0) + 0x10 + unat (push_bit 2 s AND 0x30) \<le> unat c"

definition lws_check_byte_utf8 :: "u8 \<Rightarrow> u8 \<Rightarrow> int" where
  "lws_check_byte_utf8 state c =
     (if state = 0 then
        if c \<ge> 0x80 then
          if c < 0xc2 \<or> c > 0xf4 then -1
          else if c < 0xe0 then uint (e0f4_entry 0x80 4 0)
          else uint (e0f4 ! (unat c - 0xe0))
        else uint state
      else if utf8_out_of_range state c then -1
      else uint (e0f4 ! (21 + unat (state AND 3))))"

fun check_utf8_loop :: "u8 \<Rightarrow> bytes \<Rightarrow> u8 option" where
  "check_utf8_loop s [] = Some s"
| "check_utf8_loop s (c # buf) =
     (if s = 0 then
        if c \<ge> 0x80 then
          if c < 0xc2 \<or> c > 0xf4 then None
          else if c < 0xe0 then check_utf8_loop (e0f4_entry 0x80 4 0) buf
          else check_utf8_loop (e0f4 ! (unat c - 0xe0)) buf
        else check_utf8_loop s buf
      else if utf8_out_of_range s c then None
      else check_utf8_loop (e0f4 ! (21 + unat (s AND 3))) buf)"

text \<open>The result and the new \<open>*state\<close>, which an error leaves as it was.\<close>

definition lws_check_utf8 :: "u8 \<Rightarrow> bytes \<Rightarrow> int \<times> u8" where
  "lws_check_utf8 state buf =
     (case check_utf8_loop state buf of None \<Rightarrow> (1, state) | Some s \<Rightarrow> (0, s))"

section \<open>The states of the validator\<close>

lemmas utf8_table = e0f4_def e0f4_entry_def utf8_out_of_range_def

definition utf8_state :: "u8 \<Rightarrow> bool" where
  "utf8_state s \<longleftrightarrow> s \<in> {0, 0x8c, 0x8d, 0xa5, 0x85, 0x8e, 0x9a, 0x82}"

definition utf8_step :: "u8 \<Rightarrow> u8 \<Rightarrow> u8 option" where
  "utf8_step s c =
     (if s = 0 then
        if c \<ge> 0x80 then
          if c < 0xc2 \<or> c > 0xf4 then None
          else if c < 0xe0 then Some (e0f4_entry 0x80 4 0)
          else Some (e0f4 ! (unat c - 0xe0))
        else Some s
      else if utf8_out_of_range s c then None
      else Some (e0f4 ! (21 + unat (s AND 3))))"

lemma check_utf8_loop_Cons_step:
  "check_utf8_loop s (c # buf) = Option.bind (utf8_step s c) (\<lambda>s'. check_utf8_loop s' buf)"
  by (simp add: utf8_step_def)

text \<open>The first bytes of three- and four-byte sequences, as numbers.\<close>

lemma e0f4_lookup:
  assumes "0xe0 \<le> n" and "n \<le> 0xf4"
  shows "e0f4 ! (n - 0xe0) =
    (if n = 0xe0 then 0xa5 else if n = 0xed then 0x85 else if n \<le> 0xef then 0x8d
     else if n = 0xf0 then 0x9a else if n = 0xf4 then 0x82 else 0x8e)"
proof -
  have "n - 0xe0 < 21" using assms by simp
  then obtain k where k: "k = n - 0xe0" and "k \<in> set [0..<21]" by simp
  then have n: "n = k + 0xe0" using assms by simp
  from \<open>k \<in> set [0..<21]\<close> show ?thesis
    unfolding n by (auto simp: e0f4_def e0f4_entry_def upt_conv_Cons numeral_eq_Suc [of n for n])
qed

lemma utf8_step_lead:
  "utf8_step 0 c =
    (let n = unat c in
     if n < 0x80 then Some 0
     else if n < 0xc2 \<or> 0xf4 < n then None
     else if n < 0xe0 then Some 0x8c
     else if n = 0xe0 then Some 0xa5 else if n = 0xed then Some 0x85
     else if n \<le> 0xef then Some 0x8d
     else if n = 0xf0 then Some 0x9a else if n = 0xf4 then Some 0x82 else Some 0x8e)"
  using e0f4_lookup [of "unat c"]
  by (simp add: utf8_step_def u8_cases_lt u8_cases_le Let_def e0f4_entry_def)

lemma utf8_step_cont:
  "utf8_step 0x8c c = (if 0x80 \<le> unat c \<and> unat c < 0xc0 then Some 0 else None)"
  "utf8_step 0x8d c = (if 0x80 \<le> unat c \<and> unat c < 0xc0 then Some 0x8c else None)"
  "utf8_step 0xa5 c = (if 0xa0 \<le> unat c \<and> unat c < 0xc0 then Some 0x8c else None)"
  "utf8_step 0x85 c = (if 0x80 \<le> unat c \<and> unat c < 0xa0 then Some 0x8c else None)"
  "utf8_step 0x8e c = (if 0x80 \<le> unat c \<and> unat c < 0xc0 then Some 0x8d else None)"
  "utf8_step 0x9a c = (if 0x90 \<le> unat c \<and> unat c < 0xc0 then Some 0x8d else None)"
  "utf8_step 0x82 c = (if 0x80 \<le> unat c \<and> unat c < 0x90 then Some 0x8d else None)"
  by (auto simp: utf8_step_def utf8_table u8_cases_lt)

lemma utf8_step_state: "utf8_state s \<Longrightarrow> utf8_step s c = Some s' \<Longrightarrow> utf8_state s'"
  by (auto simp: utf8_state_def utf8_step_lead utf8_step_cont Let_def split: if_splits)

lemma utf8_state_0 [simp]: "utf8_state 0"
  by (simp add: utf8_state_def)

lemma check_utf8_loop_state:
  "utf8_state s \<Longrightarrow> check_utf8_loop s buf = Some s' \<Longrightarrow> utf8_state s'"
proof (induction buf arbitrary: s)
  case (Cons c buf)
  then show ?case
    unfolding check_utf8_loop_Cons_step by (auto simp: bind_eq_Some_conv dest: utf8_step_state)
qed simp

lemma check_utf8_loop_append:
  "check_utf8_loop s (xs @ ys) =
     Option.bind (check_utf8_loop s xs) (\<lambda>s'. check_utf8_loop s' ys)"
proof (induction xs arbitrary: s)
  case (Cons c xs)
  then show ?case
    unfolding append_Cons check_utf8_loop_Cons_step by (cases "utf8_step s c") simp_all
qed simp

section \<open>Reference: UTF-8 by code points\<close>

definition utf8_scalar :: "nat \<Rightarrow> bool" where
  "utf8_scalar cp \<longleftrightarrow> cp < 0xd800 \<or> 0xe000 \<le> cp \<and> cp < 0x110000"

definition utf8_encode :: "nat \<Rightarrow> nat list" where
  "utf8_encode cp =
     (if cp < 0x80 then [cp]
      else if cp < 0x800 then [0xc0 + cp div 64, 0x80 + cp mod 64]
      else if cp < 0x10000 then
        [0xe0 + cp div 4096, 0x80 + cp div 64 mod 64, 0x80 + cp mod 64]
      else
        [0xf0 + cp div 262144, 0x80 + cp div 4096 mod 64, 0x80 + cp div 64 mod 64,
         0x80 + cp mod 64])"

definition utf8_string :: "bytes \<Rightarrow> bool" where
  "utf8_string xs \<longleftrightarrow>
     (\<exists>cps. list_all utf8_scalar cps \<and> map unat xs = concat (map utf8_encode cps))"

lemma utf8_string_Nil [simp]: "utf8_string []"
  unfolding utf8_string_def by (rule exI [of _ "[]"]) simp

lemma utf8_encode_nonempty [simp]: "utf8_encode cp \<noteq> []"
  by (simp add: utf8_encode_def)

text \<open>The code point each class of byte sequences encodes.\<close>

lemma utf8_encode_1: "a < 0x80 \<Longrightarrow> utf8_scalar a \<and> utf8_encode a = [a]"
  by (simp add: utf8_scalar_def utf8_encode_def)

lemma digit_div_mod:
  fixes m :: nat
  assumes "r < m"
  shows "(q * m + r) div m = q" and "(q * m + r) mod m = r"
  using assms by (simp_all add: div_mult_self3 mult.commute)

lemma utf8_encode_2:
  assumes "0xc2 \<le> a" "a < 0xe0" "0x80 \<le> b" "b < 0xc0"
  shows "\<exists>cp. utf8_scalar cp \<and> utf8_encode cp = [a, b]"
proof -
  have "0xc0 \<le> a" using assms by simp
  then obtain x y where xy: "a = 0xc0 + x" "b = 0x80 + y"
    using assms by (meson le_Suc_ex)
  define cp where "cp = x * 64 + y"
  have lt: "2 \<le> x" "x < 32" "y < 64" using assms xy by auto
  have parts: "cp div 64 = x" "cp mod 64 = y"
    unfolding cp_def using digit_div_mod [OF lt(3)] by simp_all
  have "0x80 \<le> cp" "cp < 0x800"
    using lt unfolding cp_def by linarith+
  then show ?thesis
    using parts xy by (intro exI [of _ cp]) (auto simp: utf8_scalar_def utf8_encode_def)
qed

lemma utf8_encode_3:
  assumes "0xe0 \<le> a" "a \<le> 0xef" "0x80 \<le> b" "b < 0xc0" "0x80 \<le> c" "c < 0xc0"
    and "a = 0xe0 \<longrightarrow> 0xa0 \<le> b" and "a = 0xed \<longrightarrow> b < 0xa0"
  shows "\<exists>cp. utf8_scalar cp \<and> utf8_encode cp = [a, b, c]"
proof -
  obtain x y z where xyz: "a = 0xe0 + x" "b = 0x80 + y" "c = 0x80 + z"
    using assms by (meson le_Suc_ex)
  define cp where "cp = x * 4096 + y * 64 + z"
  have lt: "x < 16" "y < 64" "z < 64" using assms xyz by auto
  have cp1: "cp = (x * 64 + y) * 64 + z" unfolding cp_def by simp
  have cp64: "cp div 64 = x * 64 + y" "cp mod 64 = z"
    unfolding cp1 by (rule digit_div_mod [OF lt(3)])+
  have parts: "cp div 4096 = x" "cp div 64 mod 64 = y"
    using digit_div_mod [OF lt(2), of x] cp64 div_mult2_eq [of cp 64 64] by simp_all
  have "0x800 \<le> cp" using assms(7) lt xyz unfolding cp_def by (cases "x = 0") auto
  moreover have "cp < 0x10000" using lt unfolding cp_def by linarith
  moreover have "cp < 0xd800 \<or> 0xe000 \<le> cp"
  proof (cases "x = 13")
    case True
    then show ?thesis using assms(8) lt xyz unfolding cp_def by auto
  next
    case False
    then have "x \<le> 12 \<or> 14 \<le> x" by arith
    then show ?thesis using lt unfolding cp_def by linarith
  qed
  ultimately show ?thesis
    using parts cp64 xyz by (intro exI [of _ cp]) (auto simp: utf8_scalar_def utf8_encode_def)
qed

lemma utf8_encode_4:
  assumes "0xf0 \<le> a" "a \<le> 0xf4" "0x80 \<le> b" "b < 0xc0" "0x80 \<le> c" "c < 0xc0" "0x80 \<le> d" "d < 0xc0"
    and "a = 0xf0 \<longrightarrow> 0x90 \<le> b" and "a = 0xf4 \<longrightarrow> b < 0x90"
  shows "\<exists>cp. utf8_scalar cp \<and> utf8_encode cp = [a, b, c, d]"
proof -
  obtain x y z w where xyz: "a = 0xf0 + x" "b = 0x80 + y" "c = 0x80 + z" "d = 0x80 + w"
    using assms by (meson le_Suc_ex)
  define cp where "cp = x * 262144 + y * 4096 + z * 64 + w"
  have lt: "x < 5" "y < 64" "z < 64" "w < 64" using assms xyz by auto
  have cp1: "cp = ((x * 64 + y) * 64 + z) * 64 + w" unfolding cp_def by simp
  have cp64: "cp div 64 = (x * 64 + y) * 64 + z" "cp mod 64 = w"
    unfolding cp1 by (rule digit_div_mod [OF lt(4)])+
  have cp4096: "cp div 4096 = x * 64 + y" "cp div 64 mod 64 = z"
    using digit_div_mod [OF lt(3), of "x * 64 + y"] cp64 div_mult2_eq [of cp 64 64] by simp_all
  have parts: "cp div 262144 = x" "cp div 4096 mod 64 = y"
    using digit_div_mod [OF lt(2), of x] cp4096 div_mult2_eq [of cp 4096 64] by simp_all
  have "0x10000 \<le> cp" using assms(9) lt xyz unfolding cp_def by (cases "x = 0") auto
  moreover have "cp < 0x110000" using assms(10) lt xyz unfolding cp_def by (cases "x = 4") auto
  ultimately show ?thesis
    using parts cp64 cp4096 xyz by (intro exI [of _ cp]) (auto simp: utf8_scalar_def utf8_encode_def)
qed

section \<open>The validator decides the reference\<close>

text \<open>What a pending state still has to see before the validator is back in state 0.\<close>

lemma loop_8c: "check_utf8_loop 0x8c r = Some 0 \<Longrightarrow>
    \<exists>b rest. r = b # rest \<and> 0x80 \<le> unat b \<and> unat b < 0xc0 \<and> check_utf8_loop 0 rest = Some 0"
  by (cases r) (auto simp: check_utf8_loop_Cons_step utf8_step_cont
      simp del: check_utf8_loop.simps(2) split: if_splits)

lemma loop_second:
  assumes "utf8_step s b = (if lo \<le> unat b \<and> unat b < hi then Some t else None)"
    and "check_utf8_loop s (b # r) = Some 0"
  shows "lo \<le> unat b \<and> unat b < hi \<and> check_utf8_loop t r = Some 0"
  using assms unfolding check_utf8_loop_Cons_step by (auto split: if_splits)

lemma loop_pending_nonempty: "s \<noteq> 0 \<Longrightarrow> check_utf8_loop s r = Some 0 \<Longrightarrow> \<exists>b rest. r = b # rest"
  by (cases r) auto

lemma loop_3byte:
  assumes "\<And>b. utf8_step s b = (if lo \<le> unat b \<and> unat b < hi then Some 0x8c else None)"
    and "s \<noteq> 0" and "check_utf8_loop s r = Some 0"
  shows "\<exists>b c rest. r = b # c # rest \<and> lo \<le> unat b \<and> unat b < hi \<and>
    0x80 \<le> unat c \<and> unat c < 0xc0 \<and> check_utf8_loop 0 rest = Some 0"
proof -
  obtain b r' where r: "r = b # r'" using loop_pending_nonempty [OF assms(2,3)] by blast
  from loop_second [OF assms(1) assms(3) [unfolded r]] loop_8c [of r'] r show ?thesis by blast
qed

lemma loop_4byte:
  assumes "\<And>b. utf8_step s b = (if lo \<le> unat b \<and> unat b < hi then Some 0x8d else None)"
    and "s \<noteq> 0" and "check_utf8_loop s r = Some 0"
  shows "\<exists>b c d rest. r = b # c # d # rest \<and> lo \<le> unat b \<and> unat b < hi \<and>
    0x80 \<le> unat c \<and> unat c < 0xc0 \<and> 0x80 \<le> unat d \<and> unat d < 0xc0 \<and>
    check_utf8_loop 0 rest = Some 0"
proof -
  obtain b r' where r: "r = b # r'" using loop_pending_nonempty [OF assms(2,3)] by blast
  have b: "lo \<le> unat b" "unat b < hi" and r': "check_utf8_loop 0x8d r' = Some 0"
    using loop_second [OF assms(1) assms(3) [unfolded r]] by auto
  from loop_3byte [OF utf8_step_cont(2) _ r'] b r show ?thesis by auto
qed

text \<open>The range the lead byte of a long sequence leaves for the second byte.\<close>

lemma lead_3byte:
  assumes "0xe0 \<le> unat a" "unat a \<le> 0xef" "utf8_step 0 a = Some s"
  obtains lo hi where "s \<noteq> 0" "0x80 \<le> lo" "hi \<le> 0xc0"
    "\<forall>b. utf8_step s b = (if lo \<le> unat b \<and> unat b < hi then Some 0x8c else None)"
    "unat a = 0xe0 \<longrightarrow> 0xa0 \<le> lo" "unat a = 0xed \<longrightarrow> hi \<le> 0xa0"
proof -
  have s: "s = (if unat a = 0xe0 then 0xa5 else if unat a = 0xed then 0x85 else 0x8d)"
    using assms by (simp add: utf8_step_lead Let_def split: if_splits)
  show thesis
    by (rule that [of "if unat a = 0xe0 then 0xa0 else 0x80" "if unat a = 0xed then 0xa0 else 0xc0"])
      (auto simp: s utf8_step_cont)
qed

lemma lead_4byte:
  assumes "0xf0 \<le> unat a" "unat a \<le> 0xf4" "utf8_step 0 a = Some s"
  obtains lo hi where "s \<noteq> 0" "0x80 \<le> lo" "hi \<le> 0xc0"
    "\<forall>b. utf8_step s b = (if lo \<le> unat b \<and> unat b < hi then Some 0x8d else None)"
    "unat a = 0xf0 \<longrightarrow> 0x90 \<le> lo" "unat a = 0xf4 \<longrightarrow> hi \<le> 0x90"
proof -
  have s: "s = (if unat a = 0xf0 then 0x9a else if unat a = 0xf4 then 0x82 else 0x8e)"
    using assms by (simp add: utf8_step_lead Let_def split: if_splits)
  show thesis
    by (rule that [of "if unat a = 0xf0 then 0x90 else 0x80" "if unat a = 0xf4 then 0x90 else 0xc0"])
      (auto simp: s utf8_step_cont)
qed

lemma loop_first_char:
  assumes "check_utf8_loop 0 (a # r) = Some 0"
  shows "\<exists>ch rest cp. a # r = ch @ rest \<and> ch \<noteq> [] \<and> utf8_scalar cp \<and>
    utf8_encode cp = map unat ch \<and> check_utf8_loop 0 rest = Some 0"
proof -
  obtain s where s: "utf8_step 0 a = Some s" and r: "check_utf8_loop s r = Some 0"
    using assms unfolding check_utf8_loop_Cons_step by (auto simp: bind_eq_Some_conv)
  have concl: ?thesis if "a # r = ch @ rest" "ch \<noteq> []" "check_utf8_loop 0 rest = Some 0"
    "\<exists>cp. utf8_scalar cp \<and> utf8_encode cp = map unat ch" for ch rest
    using that by blast
  have "\<not> (0x80 \<le> unat a \<and> unat a < 0xc2 \<or> 0xf4 < unat a)"
    using s by (auto simp: utf8_step_lead Let_def split: if_splits)
  then consider "unat a < 0x80" | "0xc2 \<le> unat a" "unat a < 0xe0"
    | "0xe0 \<le> unat a" "unat a \<le> 0xef" | "0xf0 \<le> unat a" "unat a \<le> 0xf4" by linarith
  then show ?thesis
  proof cases
    case 1
    then have "s = 0" using s by (simp add: utf8_step_lead)
    then show ?thesis using 1 r utf8_encode_1 by (intro concl [of "[a]" r]) auto
  next
    case 2
    then have "s = 0x8c" using s by (simp add: utf8_step_lead)
    then obtain b rest where "r = b # rest" "0x80 \<le> unat b" "unat b < 0xc0"
      "check_utf8_loop 0 rest = Some 0" using loop_8c r by blast
    then show ?thesis using 2 utf8_encode_2 by (intro concl [of "[a, b]" rest]) auto
  next
    case 3
    obtain lo hi where lh: "s \<noteq> 0" "0x80 \<le> lo" "hi \<le> 0xc0"
      "\<forall>b. utf8_step s b = (if lo \<le> unat b \<and> unat b < hi then Some 0x8c else None)"
      "unat a = 0xe0 \<longrightarrow> 0xa0 \<le> lo" "unat a = 0xed \<longrightarrow> hi \<le> 0xa0" by (rule lead_3byte [OF 3 s])
    from loop_3byte [OF lh(4) [rule_format] lh(1) r] obtain b c rest where
      "r = b # c # rest" "lo \<le> unat b" "unat b < hi" "0x80 \<le> unat c" "unat c < 0xc0"
      "check_utf8_loop 0 rest = Some 0" by auto
    with 3 lh(2,3,5,6) show ?thesis
      by (intro concl [of "[a, b, c]" rest]) (auto intro!: utf8_encode_3)
  next
    case 4
    obtain lo hi where lh: "s \<noteq> 0" "0x80 \<le> lo" "hi \<le> 0xc0"
      "\<forall>b. utf8_step s b = (if lo \<le> unat b \<and> unat b < hi then Some 0x8d else None)"
      "unat a = 0xf0 \<longrightarrow> 0x90 \<le> lo" "unat a = 0xf4 \<longrightarrow> hi \<le> 0x90" by (rule lead_4byte [OF 4 s])
    from loop_4byte [OF lh(4) [rule_format] lh(1) r] obtain b c d rest where
      "r = b # c # d # rest" "lo \<le> unat b" "unat b < hi" "0x80 \<le> unat c" "unat c < 0xc0"
      "0x80 \<le> unat d" "unat d < 0xc0" "check_utf8_loop 0 rest = Some 0" by auto
    with 4 lh(2,3,5,6) show ?thesis
      by (intro concl [of "[a, b, c, d]" rest]) (auto intro!: utf8_encode_4)
  qed
qed

lemma utf8_string_char_append:
  assumes "utf8_scalar cp" "utf8_encode cp = map unat ch" "utf8_string rest"
  shows "utf8_string (ch @ rest)"
proof -
  from assms(3) obtain cps where "list_all utf8_scalar cps"
    "map unat rest = concat (map utf8_encode cps)" unfolding utf8_string_def by blast
  with assms(1,2) show ?thesis
    unfolding utf8_string_def by (intro exI [of _ "cp # cps"]) simp
qed

lemma loop_zero_imp_utf8_string: "check_utf8_loop 0 xs = Some 0 \<Longrightarrow> utf8_string xs"
proof (induction "length xs" arbitrary: xs rule: less_induct)
  case less
  show ?case
  proof (cases xs)
    case (Cons a r)
    with less.prems loop_first_char obtain ch rest cp where
      "xs = ch @ rest" "ch \<noteq> []" "utf8_scalar cp" "utf8_encode cp = map unat ch"
      "check_utf8_loop 0 rest = Some 0" by metis
    then show ?thesis using less.hyps [of rest] utf8_string_char_append by force
  qed simp
qed

text \<open>In the other direction every encoded code point takes the validator from state 0 to state 0.\<close>

lemma second_byte_below_surrogates:
  assumes "utf8_scalar cp" and "(cp::nat) div 4096 = 13"
  shows "cp div 64 mod 64 < 0x20"
proof -
  have "cp < 0xd800" using assms unfolding utf8_scalar_def by auto
  then have "cp div 64 < 864" by auto
  moreover have "cp div 64 div 64 = 13" using assms(2) by (simp add: div_mult2_eq [symmetric])
  then have "cp div 64 = 832 + cp div 64 mod 64" using div_mult_mod_eq [of "cp div 64" 64] by simp
  ultimately show ?thesis by linarith
qed

lemma second_byte_below_limit:
  assumes "(cp::nat) < 0x110000" and "cp div 262144 = 4"
  shows "cp div 4096 mod 64 < 0x10"
proof -
  have "cp div 4096 < 272" using assms(1) by auto
  moreover have "cp div 4096 div 64 = 4" using assms(2) by (simp add: div_mult2_eq [symmetric])
  then have "cp div 4096 = 256 + cp div 4096 mod 64"
    using div_mult_mod_eq [of "cp div 4096" 64] by simp
  ultimately show ?thesis by linarith
qed

lemma loop_encoded_char:
  assumes "utf8_scalar cp" "map unat ch = utf8_encode cp"
  shows "check_utf8_loop 0 (ch @ rest) = check_utf8_loop 0 rest"
proof -
  note step = check_utf8_loop_Cons_step utf8_step_cont utf8_step_lead Let_def
  consider "cp < 0x80" | "0x80 \<le> cp" "cp < 0x800" | "0x800 \<le> cp" "cp < 0x10000"
    | "0x10000 \<le> cp" "cp < 0x110000"
    using assms(1) unfolding utf8_scalar_def by linarith
  then show ?thesis
  proof cases
    case 1
    then obtain a where "ch = [a]" "unat a = cp"
      using assms(2) by (auto simp: utf8_encode_def)
    then show ?thesis using 1 by (simp add: step del: check_utf8_loop.simps(2))
  next
    case 2
    then obtain a b where ch: "ch = [a, b]" "unat a = 0xc0 + cp div 64" "unat b = 0x80 + cp mod 64"
      using assms(2) by (auto simp: utf8_encode_def)
    have "2 \<le> cp div 64" "cp div 64 < 32" "cp mod 64 < 64" using 2 by auto
    then show ?thesis using ch by (simp add: step del: check_utf8_loop.simps(2))
  next
    case 3
    then obtain a b c where ch: "ch = [a, b, c]" "unat a = 0xe0 + cp div 4096"
      "unat b = 0x80 + cp div 64 mod 64" "unat c = 0x80 + cp mod 64"
      using assms(2) by (auto simp: utf8_encode_def)
    have "cp div 4096 < 16" "cp div 64 mod 64 < 64" "cp mod 64 < 64"
      "cp div 4096 = 0 \<Longrightarrow> 0x20 \<le> cp div 64 mod 64"
      "cp div 4096 = 0 \<Longrightarrow> cp div 64 < 64" using 3 by auto
    then show ?thesis using ch second_byte_below_surrogates [OF assms(1)] by (simp add: step del: check_utf8_loop.simps(2))
  next
    case 4
    then obtain a b c d where ch: "ch = [a, b, c, d]" "unat a = 0xf0 + cp div 262144"
      "unat b = 0x80 + cp div 4096 mod 64" "unat c = 0x80 + cp div 64 mod 64"
      "unat d = 0x80 + cp mod 64"
      using assms(2) by (auto simp: utf8_encode_def)
    have "cp div 262144 \<le> 4" "cp div 4096 mod 64 < 64" "cp div 64 mod 64 < 64" "cp mod 64 < 64"
      "cp div 262144 = 0 \<Longrightarrow> 0x10 \<le> cp div 4096 mod 64"
      "cp div 262144 = 0 \<Longrightarrow> cp div 4096 < 64" using 4 by auto
    then show ?thesis using ch second_byte_below_limit [OF 4(2)] by (simp add: step del: check_utf8_loop.simps(2))
  qed
qed

lemma loop_encoded_string:
  assumes "list_all utf8_scalar cps" "map unat xs = concat (map utf8_encode cps)"
  shows "check_utf8_loop 0 xs = Some 0"
  using assms
proof (induction cps arbitrary: xs)
  case (Cons cp cps)
  then obtain ch rest where "xs = ch @ rest" "map unat ch = utf8_encode cp"
    "map unat rest = concat (map utf8_encode cps)" by (auto simp: map_eq_append_conv)
  moreover from this have "check_utf8_loop 0 (ch @ rest) = check_utf8_loop 0 rest"
    using loop_encoded_char [of cp ch rest] Cons.prems(1) by simp
  ultimately show ?case using Cons.IH [of rest] Cons.prems(1) by simp
qed simp

lemma loop_zero_iff: "check_utf8_loop 0 xs = Some 0 \<longleftrightarrow> utf8_string xs"
  using loop_zero_imp_utf8_string loop_encoded_string unfolding utf8_string_def by blast

text \<open>Every pending state can be completed.\<close>

lemma utf8_state_completion:
  assumes "utf8_state s"
  shows "\<exists>ys. check_utf8_loop s ys = Some 0"
proof -
  have "\<exists>ys. check_utf8_loop s ys = Some 0"
    if "check_utf8_loop s ys = Some 0" for ys using that by blast
  note w = this
  have "check_utf8_loop 0 [] = Some 0" "check_utf8_loop 0x8c [0x80] = Some 0"
    "check_utf8_loop 0x8d [0x80, 0x80] = Some 0" "check_utf8_loop 0xa5 [0xa0, 0x80] = Some 0"
    "check_utf8_loop 0x85 [0x80, 0x80] = Some 0" "check_utf8_loop 0x8e [0x80, 0x80, 0x80] = Some 0"
    "check_utf8_loop 0x9a [0x90, 0x80, 0x80] = Some 0"
    "check_utf8_loop 0x82 [0x80, 0x80, 0x80] = Some 0"
    by (simp_all add: utf8_table)
  then show ?thesis using assms unfolding utf8_state_def by blast
qed

lemma loop_not_None_iff: "check_utf8_loop 0 xs \<noteq> None \<longleftrightarrow> (\<exists>ys. utf8_string (xs @ ys))"
proof
  assume "check_utf8_loop 0 xs \<noteq> None"
  then obtain s where s: "check_utf8_loop 0 xs = Some s" by blast
  from utf8_state_completion [OF check_utf8_loop_state [OF utf8_state_0 s]]
  obtain ys where "check_utf8_loop s ys = Some 0" by blast
  then have "check_utf8_loop 0 (xs @ ys) = Some 0" by (simp add: check_utf8_loop_append s)
  then show "\<exists>ys. utf8_string (xs @ ys)" by (auto simp: loop_zero_iff)
next
  assume "\<exists>ys. utf8_string (xs @ ys)"
  then obtain ys where "check_utf8_loop 0 (xs @ ys) = Some 0" by (auto simp: loop_zero_iff)
  then show "check_utf8_loop 0 xs \<noteq> None"
    by (auto simp: check_utf8_loop_append bind_eq_Some_conv)
qed

section \<open>Properties\<close>

text \<open>C14. Started in state 0, the validator returns 0 with state 0 on exactly the byte strings
  that are the UTF-8 encoding of a sequence of Unicode scalar values: no overlong form, no
  surrogate, nothing above U+10FFFF.\<close>

theorem lws_check_utf8_complete_iff: "lws_check_utf8 0 xs = (0, 0) \<longleftrightarrow> utf8_string xs"
  by (auto simp: lws_check_utf8_def loop_zero_iff [symmetric] split: option.splits)

text \<open>It rejects (returns 1) exactly at the first point where the bytes seen so far are no
  longer a prefix of any UTF-8 string; otherwise it returns 0 and keeps a pending state.\<close>

theorem lws_check_utf8_prefix_iff:
  "fst (lws_check_utf8 0 xs) = 0 \<longleftrightarrow> (\<exists>ys. utf8_string (xs @ ys))"
  using loop_not_None_iff [of xs] by (auto simp: lws_check_utf8_def split: option.splits)

end
