(* ===== verification/Lws_Buflist.thy ===== *)
theory Lws_Buflist
  imports Lws_Prelude
begin

text \<open>
  The segmented byte queue of \<open>core/buflist.c\<close>: a chain of heap segments, each with a length, a
  read position and its bytes.  The chain through the \<open>next\<close> pointers is the list of its
  segments; a \<open>struct lws_buflist **head\<close> argument is that list, returned updated.  The heap
  allocator is the parameter \<open>alloc\<close>, which says whether a request of a given size succeeds.
  The abstract content of a queue is the bytes not yet consumed, in order; the lemmas show the
  operations are those of a FIFO on it, for every way of cutting the content into segments.
\<close>

section \<open>State\<close>

record lws_buflist =
  seg_len :: nat
  seg_pos :: nat
  seg_data :: bytes

abbreviation (input) LWS_PRE :: nat where "LWS_PRE \<equiv> 16"

abbreviation (input) sizeof_lws_buflist :: nat where "sizeof_lws_buflist \<equiv> 24"

section \<open>Operations\<close>

text \<open>The walk to the tail with its \<open>sanity\<close> counter: false when the counter runs out.\<close>

fun buflist_reach_tail :: "nat \<Rightarrow> lws_buflist list \<Rightarrow> bool" where
  "buflist_reach_tail sanity [] = True"
| "buflist_reach_tail sanity (s # r) =
     (if sanity - 1 = 0 then False else buflist_reach_tail (sanity - 1) r)"

definition lws_buflist_append_segment ::
  "(nat \<Rightarrow> bool) \<Rightarrow> lws_buflist list \<Rightarrow> bytes \<Rightarrow> (int \<times> lws_buflist list) outcome" where
  "lws_buflist_append_segment alloc head buf =
     (if length buf = 0 then Fault
      else if \<not> buflist_reach_tail 1024 head then Done (-1, head)
      else if \<not> alloc (sizeof_lws_buflist + length buf + LWS_PRE + 1) then Done (-1, head)
      else Done (if head = [] then 1 else 0,
                 head @ [\<lparr>seg_len = length buf, seg_pos = 0, seg_data = buf\<rparr>]))"

definition lws_buflist_destroy_segment ::
  "lws_buflist list \<Rightarrow> (bool \<times> lws_buflist list) outcome" where
  "lws_buflist_destroy_segment head =
     (case head of [] \<Rightarrow> Fault | old # r \<Rightarrow> Done (r = [], r))"

definition lws_buflist_destroy_all_segments :: "lws_buflist list \<Rightarrow> lws_buflist list" where
  "lws_buflist_destroy_all_segments head = []"

text \<open>The bytes \<open>*buf\<close> points at are \<open>drop (seg_pos b) (seg_data b)\<close> of the head segment.\<close>

definition seg_rest :: "lws_buflist \<Rightarrow> bytes" where
  "seg_rest b = drop (seg_pos b) (seg_data b)"

definition lws_buflist_next_segment_len ::
  "lws_buflist list \<Rightarrow> (nat \<times> bytes option \<times> lws_buflist list) outcome" where
  "lws_buflist_next_segment_len head =
     (case head of [] \<Rightarrow> Done (0, None, [])
      | b # r \<Rightarrow>
          bind_outcome
            (if seg_len b = 0 \<and> r \<noteq> [] then lws_buflist_destroy_segment head else Done (False, head))
            (\<lambda>(last, head').
               if last then Done (0, None, head')
               else case head' of [] \<Rightarrow> Done (0, None, head')
                 | b' # r' \<Rightarrow>
                     if seg_pos b' < seg_len b'
                     then Done (seg_len b' - seg_pos b', Some (seg_rest b'), head')
                     else Fault))"

definition lws_buflist_use_segment ::
  "lws_buflist list \<Rightarrow> nat \<Rightarrow> (nat \<times> lws_buflist list) outcome" where
  "lws_buflist_use_segment head len =
     (case head of [] \<Rightarrow> Fault
      | b # r \<Rightarrow>
          if len = 0 \<or> seg_len b < seg_pos b + len then Fault
          else let b' = b\<lparr>seg_pos := seg_pos b + len\<rparr> in
            if seg_pos b' < seg_len b' then Done ((seg_len b' - seg_pos b') mod 2 ^ 32, b' # r)
            else bind_outcome (lws_buflist_destroy_segment (b' # r))
              (\<lambda>(last, head').
                 if last then Done (0, head')
                 else bind_outcome (lws_buflist_next_segment_len head')
                   (\<lambda>(n, _, head''). Done (n, head''))))"

fun lws_buflist_total_len :: "lws_buflist list \<Rightarrow> nat" where
  "lws_buflist_total_len [] = 0"
| "lws_buflist_total_len (p # r) = seg_len p + lws_buflist_total_len r"

text \<open>The bytes copied to \<open>buf\<close>; the C function returns how many.\<close>

fun lws_buflist_linear_copy :: "lws_buflist list \<Rightarrow> nat \<Rightarrow> nat \<Rightarrow> bytes" where
  "lws_buflist_linear_copy [] ofs len = []"
| "lws_buflist_linear_copy (p # r) ofs len =
     (if len = 0 then []
      else if ofs < seg_len p then
        let s = min (seg_len p - ofs) len in
        take s (drop ofs (seg_data p)) @ lws_buflist_linear_copy r 0 (len - s)
      else lws_buflist_linear_copy r (ofs - seg_len p) len)"

text \<open>The loop of \<open>lws_buflist_linear_use\<close>, which consumes through
  \<open>lws_buflist_use_segment\<close>; the \<open>nat\<close> argument bounds the iterations and
  \<open>linear_use_enough\<close> shows that the number of segments is enough.\<close>

fun linear_use_loop ::
  "nat \<Rightarrow> lws_buflist list \<Rightarrow> nat \<Rightarrow> (bytes \<times> lws_buflist list) outcome option" where
  "linear_use_loop fuel head len =
     (if head = [] \<or> len = 0 then Some (Done ([], head))
      else case fuel of 0 \<Rightarrow> None
      | Suc fuel' \<Rightarrow>
          let b = hd head; s = min (seg_len b - seg_pos b) len in
          case mem_load (seg_data b) (seg_pos b) s of Fault \<Rightarrow> Some Fault
          | Done chunk \<Rightarrow>
             (case lws_buflist_use_segment head s of Fault \<Rightarrow> Some Fault
              | Done (_, head') \<Rightarrow>
                 map_option (\<lambda>r. bind_outcome r (\<lambda>(out, h). Done (chunk @ out, h)))
                   (linear_use_loop fuel' head' (len - s))))"

declare linear_use_loop.simps [simp del]

definition lws_buflist_linear_use ::
  "lws_buflist list \<Rightarrow> nat \<Rightarrow> (bytes \<times> lws_buflist list) outcome option" where
  "lws_buflist_linear_use head len = linear_use_loop (length head) head len"

text \<open>The bytes copied, \<open>*frag_first\<close>, \<open>*frag_fin\<close> and the queue; the two flags are left alone
  (\<open>None\<close>) on an empty queue.\<close>

definition lws_buflist_fragment_use ::
  "lws_buflist list \<Rightarrow> nat \<Rightarrow> (bytes \<times> (bool \<times> bool) option \<times> lws_buflist list) outcome" where
  "lws_buflist_fragment_use head len =
     (case head of [] \<Rightarrow> Done ([], None, [])
      | b # r \<Rightarrow>
          let s = min (seg_len b - seg_pos b) len in
          bind_outcome (mem_load (seg_data b) (seg_pos b) s) (\<lambda>chunk.
          bind_outcome (lws_buflist_use_segment head s) (\<lambda>(_, head').
            Done (chunk, Some (seg_pos b = 0, seg_pos b + s = seg_len b), head'))))"

section \<open>Content and invariant\<close>

definition buflist_bytes :: "lws_buflist list \<Rightarrow> bytes" where
  "buflist_bytes head = concat (map seg_rest head)"

definition seg_ok :: "lws_buflist \<Rightarrow> bool" where
  "seg_ok b \<longleftrightarrow> seg_len b = length (seg_data b) \<and> seg_pos b < seg_len b"

definition buflist_ok :: "lws_buflist list \<Rightarrow> bool" where
  "buflist_ok head \<longleftrightarrow>
     length head \<le> 1024 \<and> list_all seg_ok head \<and> list_all (\<lambda>b. seg_pos b = 0) (tl head)"

lemmas buflist_defs = buflist_ok_def buflist_bytes_def seg_ok_def seg_rest_def

lemma buflist_reach_tail_iff: "0 < n \<Longrightarrow> buflist_reach_tail n head \<longleftrightarrow> length head < n"
  by (induction n head rule: buflist_reach_tail.induct) auto

lemma seg_rest_length: "seg_ok b \<Longrightarrow> length (seg_rest b) = seg_len b - seg_pos b"
  by (simp add: seg_ok_def seg_rest_def)

lemma seg_rest_nonempty: "seg_ok b \<Longrightarrow> seg_rest b \<noteq> []"
  by (simp add: seg_ok_def seg_rest_def)

lemma buflist_bytes_simps [simp]:
  "buflist_bytes [] = []" "buflist_bytes (b # r) = seg_rest b @ buflist_bytes r"
  "buflist_bytes (h1 @ h2) = buflist_bytes h1 @ buflist_bytes h2"
  by (simp_all add: buflist_bytes_def)

lemma buflist_ok_Nil [simp]: "buflist_ok []"
  by (simp add: buflist_ok_def)

lemma buflist_ok_tl: "buflist_ok (b # r) \<Longrightarrow> buflist_ok r"
  by (cases r) (auto simp: buflist_ok_def)

lemma buflist_ok_hd: "buflist_ok (b # r) \<Longrightarrow> seg_ok b"
  by (simp add: buflist_ok_def)

lemma buflist_bytes_Nil_iff: "buflist_ok head \<Longrightarrow> buflist_bytes head = [] \<longleftrightarrow> head = []"
  by (cases head) (auto dest: buflist_ok_hd seg_rest_nonempty)

section \<open>Behaviour of the operations\<close>

lemma append_segment_ok:
  assumes "buflist_ok head" and "buf \<noteq> []" and "lws_buflist_append_segment alloc head buf = Done (r, head')"
  shows "buflist_ok head' \<and>
    (if r = -1 then head' = head
     else r = (if head = [] then 1 else 0) \<and> buflist_bytes head' = buflist_bytes head @ buf)"
proof -
  let ?seg = "\<lparr>seg_len = length buf, seg_pos = 0, seg_data = buf\<rparr>"
  have "buflist_ok (head @ [?seg])" if "buflist_reach_tail 1024 head"
    using assms(1,2) that buflist_reach_tail_iff [of 1024 head]
    by (cases head) (simp_all add: buflist_ok_def seg_ok_def)
  moreover have "buflist_bytes (head @ [?seg]) = buflist_bytes head @ buf" by (simp add: seg_rest_def)
  ultimately show ?thesis
    using assms unfolding lws_buflist_append_segment_def by (auto split: if_splits)
qed

lemma append_segment_never_faults:
  "buf \<noteq> [] \<Longrightarrow> lws_buflist_append_segment alloc head buf \<noteq> Fault"
  by (simp add: lws_buflist_append_segment_def)

lemma next_segment_len_ok:
  assumes "buflist_ok head"
  shows "lws_buflist_next_segment_len head =
    Done (case head of [] \<Rightarrow> (0, None, []) | b # r \<Rightarrow> (length (seg_rest b), Some (seg_rest b), head))"
proof (cases head)
  case (Cons b r)
  with assms have "seg_ok b" using buflist_ok_hd by blast
  then have "seg_len b \<noteq> 0" "seg_pos b < seg_len b" by (auto simp: seg_ok_def)
  then show ?thesis using Cons \<open>seg_ok b\<close>
    by (simp add: lws_buflist_next_segment_len_def seg_rest_length split del: if_split)
qed (simp add: lws_buflist_next_segment_len_def)

lemma use_segment_ok:
  assumes "buflist_ok (b # r)" and "0 < n" and "n \<le> length (seg_rest b)"
  shows "\<exists>k head'. lws_buflist_use_segment (b # r) n = Done (k, head') \<and>
    buflist_ok head' \<and> buflist_bytes head' = drop n (buflist_bytes (b # r)) \<and>
    length head' \<le> length (b # r) \<and> (n = length (seg_rest b) \<longrightarrow> head' = r)"
proof (cases "n = length (seg_rest b)")
  case True
  with assms have "seg_pos b + n = seg_len b" by (auto simp: buflist_defs)
  then show ?thesis
    using assms True buflist_ok_tl [OF assms(1)]
    by (cases r)
      (auto simp: lws_buflist_use_segment_def lws_buflist_destroy_segment_def next_segment_len_ok)
next
  case False
  let ?b = "b\<lparr>seg_pos := seg_pos b + n\<rparr>"
  from assms False have lt: "seg_pos b + n < seg_len b" by (auto simp: buflist_defs)
  then have "lws_buflist_use_segment (b # r) n = Done (length (seg_rest ?b) mod 2 ^ 32, ?b # r)"
    using assms by (auto simp: lws_buflist_use_segment_def buflist_defs)
  moreover have "buflist_ok (?b # r)" using assms lt by (auto simp: buflist_defs)
  moreover have "buflist_bytes (?b # r) = drop n (buflist_bytes (b # r))"
    using assms by (simp add: seg_rest_def add.commute)
  ultimately show ?thesis using False by auto
qed

lemma linear_use_loop_ok:
  assumes "buflist_ok head" and "length head \<le> fuel"
  shows "\<exists>head'. linear_use_loop fuel head len = Some (Done (take len (buflist_bytes head), head')) \<and>
    buflist_ok head' \<and> buflist_bytes head' = drop len (buflist_bytes head)"
  using assms
proof (induction fuel arbitrary: head len)
  case 0
  then show ?case by (simp add: linear_use_loop.simps)
next
  case (Suc fuel)
  show ?case
  proof (cases "head = [] \<or> len = 0")
    case True
    then show ?thesis using Suc.prems by (auto simp: linear_use_loop.simps)
  next
    case False
    then obtain b r where h: "head = b # r" and len: "0 < len" by (cases head) auto
    let ?s = "min (length (seg_rest b)) len"
    have b: "seg_ok b" using Suc.prems(1) h buflist_ok_hd by blast
    have s: "min (seg_len b - seg_pos b) len = ?s" "0 < ?s"
      using b len by (simp_all add: seg_ok_def seg_rest_def)
    have ld: "mem_load (seg_data b) (seg_pos b) ?s = Done (take ?s (seg_rest b))"
      using b by (auto simp: mem_load_def seg_ok_def seg_rest_def)
    obtain head1 k where u: "lws_buflist_use_segment head ?s = Done (k, head1)" "buflist_ok head1"
      "buflist_bytes head1 = drop ?s (buflist_bytes head)" "length head1 \<le> length head"
      "?s = length (seg_rest b) \<longrightarrow> head1 = r"
      using use_segment_ok [of b r ?s] Suc.prems(1) s(2) unfolding h by auto
    show ?thesis
    proof (cases "len \<le> length (seg_rest b)")
      case True
      then have "?s = len" by simp
      then show ?thesis using False h ld s u
        by (intro exI [of _ head1]) (simp add: linear_use_loop.simps [of "Suc fuel"] Let_def
            linear_use_loop.simps [of fuel head1 0])
    next
      case False': False
      then have "?s = length (seg_rest b)" by simp
      with u have "head1 = r" by blast
      moreover have "length r \<le> fuel" using Suc.prems(2) h by simp
      ultimately obtain head' where
        "linear_use_loop fuel head1 (len - ?s) =
           Some (Done (take (len - ?s) (buflist_bytes head1), head'))"
        "buflist_ok head'" "buflist_bytes head' = drop (len - ?s) (buflist_bytes head1)"
        using Suc.IH [OF u(2)] by blast
      then show ?thesis using False h ld s u False'
        by (intro exI [of _ head'])
          (simp add: linear_use_loop.simps [of "Suc fuel"] Let_def)
    qed
  qed
qed

lemma fragment_use_ok:
  assumes "buflist_ok (b # r)" and "0 < len"
  shows "\<exists>head'. lws_buflist_fragment_use (b # r) len =
      Done (take len (seg_rest b),
        Some (seg_pos b = 0, length (seg_rest b) \<le> len), head') \<and>
    buflist_ok head' \<and> buflist_bytes head' = drop (min len (length (seg_rest b))) (buflist_bytes (b # r))"
proof -
  let ?s = "min (length (seg_rest b)) len"
  have b: "seg_ok b" using assms(1) buflist_ok_hd by blast
  have s: "min (seg_len b - seg_pos b) len = ?s" "0 < ?s"
    using b assms(2) by (simp_all add: seg_ok_def seg_rest_def)
  have "take ?s (seg_rest b) = take len (seg_rest b)" by (simp add: min_def)
  moreover have "seg_pos b + ?s \<le> length (seg_data b)" using b by (auto simp: seg_ok_def seg_rest_def)
  ultimately have ld: "mem_load (seg_data b) (seg_pos b) ?s = Done (take len (seg_rest b))"
    by (simp add: mem_load_def seg_rest_def)
  obtain head1 k where "lws_buflist_use_segment (b # r) ?s = Done (k, head1)" "buflist_ok head1"
    "buflist_bytes head1 = drop ?s (buflist_bytes (b # r))"
    using use_segment_ok [OF assms(1) s(2)] by auto
  moreover have "(seg_pos b + ?s = seg_len b) = (length (seg_rest b) \<le> len)"
    using b by (auto simp: seg_ok_def seg_rest_def)
  ultimately show ?thesis
    using s(1) ld by (auto simp: lws_buflist_fragment_use_def min.commute)
qed

lemma linear_copy_ok:
  assumes "list_all (\<lambda>b. seg_len b = length (seg_data b)) head"
  shows "lws_buflist_linear_copy head ofs len = take len (drop ofs (concat (map seg_data head)))"
  using assms
proof (induction head ofs len rule: lws_buflist_linear_copy.induct)
  case (2 p r ofs len)
  then show ?case by (auto simp: Let_def min_def)
qed simp

section \<open>The buflist as a FIFO\<close>

definition buflist_push ::
  "(nat \<Rightarrow> bool) \<Rightarrow> lws_buflist list \<Rightarrow> bytes \<Rightarrow> (nat \<times> lws_buflist list) outcome" where
  "buflist_push alloc head buf =
     (if buf = [] then Done (0, head)
      else bind_outcome (lws_buflist_append_segment alloc head buf)
        (\<lambda>(r, head'). Done (if r < 0 then 0 else length buf, head')))"

definition buflist_pull :: "lws_buflist list \<Rightarrow> nat \<Rightarrow> (bytes \<times> lws_buflist list) outcome" where
  "buflist_pull head n =
     (case lws_buflist_linear_use head n of None \<Rightarrow> Fault | Some r \<Rightarrow> r)"

interpretation buflist_fifo: fifo "buflist_push alloc" buflist_pull buflist_bytes buflist_ok 1 for alloc
proof unfold_locales
  fix q :: "lws_buflist list" and xs :: bytes
  assume q: "buflist_ok q"
  show "\<exists>k q'. buflist_push alloc q xs = Done (k, q') \<and> k \<le> length xs \<and>
      buflist_bytes q' = buflist_bytes q @ take k xs \<and> buflist_ok q'"
  proof (cases "xs = []")
    case False
    then obtain r h where "lws_buflist_append_segment alloc q xs = Done (r, h)"
      using append_segment_never_faults by (metis outcome_not_Fault_iff surj_pair)
    then show ?thesis
      using append_segment_ok [OF q False, of alloc r h] False
      by (cases "r = -1") (auto simp: buflist_push_def split: if_splits)
  qed (simp add: buflist_push_def q)
next
  fix q :: "lws_buflist list" and n
  assume "buflist_ok q"
  then show "\<exists>q'. buflist_pull q n = Done (take (n * 1) (buflist_bytes q), q') \<and>
      buflist_bytes q' = drop (n * 1) (buflist_bytes q) \<and> buflist_ok q'"
    using linear_use_loop_ok [of q "length q" n]
    by (auto simp: buflist_pull_def lws_buflist_linear_use_def)
qed

section \<open>Properties\<close>

text \<open>C31. \<open>lws_buflist_linear_use\<close> always returns, without failing an assertion or reading outside a
  segment: it copies out the first \<open>len\<close> bytes queued (all of them when there are fewer), across
  segment boundaries, and consumes exactly those.\<close>

theorem lws_buflist_linear_use_correct:
  assumes "buflist_ok head"
  shows "\<exists>head'. lws_buflist_linear_use head len = Some (Done (take len (buflist_bytes head), head')) \<and>
    buflist_ok head' \<and> buflist_bytes head' = drop len (buflist_bytes head)"
  using linear_use_loop_ok [OF assms] by (simp add: lws_buflist_linear_use_def)

theorem lws_buflist_linear_use_correct_witness:
  "\<exists>head'. lws_buflist_linear_use
      [\<lparr>seg_len = 3, seg_pos = 1, seg_data = [1, 2, 3]\<rparr>, \<lparr>seg_len = 2, seg_pos = 0, seg_data = [4, 5]\<rparr>] 3 =
        Some (Done ([2, 3, 4], head')) \<and> buflist_bytes head' = [5]"
  using lws_buflist_linear_use_correct [of
      "[\<lparr>seg_len = 3, seg_pos = 1, seg_data = [1, 2, 3]\<rparr>, \<lparr>seg_len = 2, seg_pos = 0, seg_data = [4, 5]\<rparr>]" 3]
  by (auto simp: buflist_defs)

text \<open>Whatever sequence of appends (some of which may be refused, for lack of memory or because
  the queue has 1024 segments) and reads is run, nothing faults, and the bytes read out followed by
  the bytes still queued are the bytes queued at the start followed by the bytes accepted: no byte is
  lost, duplicated or reordered.\<close>

theorem lws_buflist_fifo_order:
  assumes "buflist_ok head"
  shows "\<exists>ins outs head'. fifo_run (buflist_push alloc) buflist_pull head ops = Done (ins, outs, head') \<and>
    buflist_ok head' \<and> outs @ buflist_bytes head' = buflist_bytes head @ ins"
  using buflist_fifo.run_order [OF assms] .

text \<open>\<open>lws_buflist_append_segment\<close> refuses (-1) exactly when the queue already has 1024 segments or
  the allocation fails, and then leaves the queue alone; otherwise it appends the bytes at the tail and
  returns 1 if the queue was empty and 0 if not.\<close>

theorem lws_buflist_append_segment_cases:
  assumes "buflist_ok head" and "buf \<noteq> []"
  shows "\<exists>r head'. lws_buflist_append_segment alloc head buf = Done (r, head') \<and> buflist_ok head' \<and>
    (r = -1 \<longleftrightarrow> 1024 \<le> length head \<or> \<not> alloc (24 + length buf + 16 + 1)) \<and>
    (if r = -1 then head' = head
     else r = (if head = [] then 1 else 0) \<and> buflist_bytes head' = buflist_bytes head @ buf)"
proof -
  obtain r head' where "lws_buflist_append_segment alloc head buf = Done (r, head')"
    using append_segment_never_faults [OF assms(2)] by (metis outcome_not_Fault_iff surj_pair)
  moreover from this have "r = -1 \<longleftrightarrow> 1024 \<le> length head \<or> \<not> alloc (24 + length buf + 16 + 1)"
    using assms(2) by (auto simp: lws_buflist_append_segment_def buflist_reach_tail_iff
        numeral_eq_Suc split: if_splits)
  ultimately show ?thesis using append_segment_ok [OF assms] by blast
qed

end
