(* ===== verification/Ws_Types.thy ===== *)
theory Ws_Types
  imports Lws_Utf8 Lws_Buflist
begin

text \<open>
  The state of a websocket connection and the services the frame parsers share.  The record
  \<open>wsi\<close> is \<open>struct lws\<close> with \<open>struct _lws_websocket_related\<close> (\<open>wsi->ws\<close>) flattened into it, restricted
  to the fields the websocket role reads or writes; the record \<open>env\<close> holds what the C code reaches
  through \<open>wsi->a.context\<close> and \<open>wsi->a.protocol\<close>: options, buffer sizes, the user's protocol
  callback, the callbacks of the negotiated extensions, the allocator, the poll layer, the socket
  (plain or through the TLS library), the random source, and the two operations of other roles the
  websocket role calls (the write of an h2 connection that carries the stream, and the end of an
  http transaction).  All of these are function parameters; those that may answer differently from
  one call to the next are given what has happened so far.

  Buffers that start with \<open>LWS_PRE\<close> bytes of headroom are represented from \<open>LWS_PRE\<close> on.  What the
  code hands to its surroundings (user callbacks, poll events, timeouts) is recorded in \<open>events\<close>,
  oldest first.
\<close>

section \<open>Data\<close>

datatype lws_rx_parse_state =
    LWS_RXPS_NEW
  | LWS_RXPS_04_mask_1 | LWS_RXPS_04_mask_2 | LWS_RXPS_04_mask_3
  | LWS_RXPS_04_FRAME_HDR_1 | LWS_RXPS_04_FRAME_HDR_LEN
  | LWS_RXPS_04_FRAME_HDR_LEN16_2 | LWS_RXPS_04_FRAME_HDR_LEN16_1
  | LWS_RXPS_04_FRAME_HDR_LEN64_8 | LWS_RXPS_04_FRAME_HDR_LEN64_7
  | LWS_RXPS_04_FRAME_HDR_LEN64_6 | LWS_RXPS_04_FRAME_HDR_LEN64_5
  | LWS_RXPS_04_FRAME_HDR_LEN64_4 | LWS_RXPS_04_FRAME_HDR_LEN64_3
  | LWS_RXPS_04_FRAME_HDR_LEN64_2 | LWS_RXPS_04_FRAME_HDR_LEN64_1
  | LWS_RXPS_07_COLLECT_FRAME_KEY_1 | LWS_RXPS_07_COLLECT_FRAME_KEY_2
  | LWS_RXPS_07_COLLECT_FRAME_KEY_3 | LWS_RXPS_07_COLLECT_FRAME_KEY_4
  | LWS_RXPS_WS_FRAME_PAYLOAD

abbreviation (input) LWSWSOPC_CONTINUATION :: u8 where "LWSWSOPC_CONTINUATION \<equiv> 0"
abbreviation (input) LWSWSOPC_TEXT_FRAME :: u8 where "LWSWSOPC_TEXT_FRAME \<equiv> 1"
abbreviation (input) LWSWSOPC_BINARY_FRAME :: u8 where "LWSWSOPC_BINARY_FRAME \<equiv> 2"
abbreviation (input) LWSWSOPC_CLOSE :: u8 where "LWSWSOPC_CLOSE \<equiv> 8"
abbreviation (input) LWSWSOPC_PING :: u8 where "LWSWSOPC_PING \<equiv> 9"
abbreviation (input) LWSWSOPC_PONG :: u8 where "LWSWSOPC_PONG \<equiv> 10"

datatype lwsi_state =
    LRS_UNCONNECTED | LRS_WAITING_DNS | LRS_WAITING_CONNECT
  | LRS_WAITING_PROXY_REPLY | LRS_WAITING_SSL | LRS_WAITING_SOCKS_GREETING_REPLY
  | LRS_WAITING_SOCKS_CONNECT_REPLY | LRS_WAITING_SOCKS_AUTH_REPLY
  | LRS_SSL_INIT | LRS_SSL_ACK_PENDING | LRS_PRE_WS_SERVING_ACCEPT
  | LRS_WAITING_SERVER_REPLY | LRS_H2_AWAIT_PREFACE | LRS_H2_AWAIT_SETTINGS
  | LRS_MQTTC_IDLE | LRS_MQTTC_AWAIT_CONNACK
  | LRS_H2_CLIENT_SEND_SETTINGS | LRS_H2_WAITING_TO_SEND_HEADERS | LRS_DEFERRING_ACTION
  | LRS_IDLING | LRS_H1C_ISSUE_HANDSHAKE | LRS_H1C_ISSUE_HANDSHAKE2 | LRS_ISSUE_HTTP_BODY
  | LRS_ISSUING_FILE | LRS_HEADERS | LRS_BODY | LRS_DISCARD_BODY | LRS_ESTABLISHED
  | LRS_DOING_TRANSACTION
  | LRS_WAITING_TO_SEND_CLOSE | LRS_RETURNED_CLOSE | LRS_AWAITING_CLOSE_ACK
  | LRS_FLUSHING_BEFORE_CLOSE | LRS_SHUTDOWN | LRS_DEAD_SOCKET

datatype lws_callback_reason =
    LWS_CALLBACK_ESTABLISHED
  | LWS_CALLBACK_RECEIVE | LWS_CALLBACK_RECEIVE_PONG
  | LWS_CALLBACK_CLIENT_RECEIVE | LWS_CALLBACK_CLIENT_RECEIVE_PONG
  | LWS_CALLBACK_WS_PEER_INITIATED_CLOSE
  | LWS_CALLBACK_SERVER_WRITEABLE | LWS_CALLBACK_CLIENT_WRITEABLE

datatype lws_ext_reason =
    LWS_EXT_CB_DESTROY | LWS_EXT_CB_PACKET_TX_PRESEND | LWS_EXT_CB_PAYLOAD_TX
  | LWS_EXT_CB_PAYLOAD_RX

datatype pending_timeout = PENDING_TIMEOUT_CLOSE_SEND | PENDING_TIMEOUT_CLOSE_ACK | NO_PENDING_TIMEOUT

text \<open>What the environment sees of the library: a callback with the bytes it is shown, a request for
  a writable callback, a change of the poll events \<open>(and, or)\<close>, a timeout, a validity confirmation,
  and bytes handed to the socket.\<close>

datatype event =
    EvCallback lws_callback_reason bytes
  | EvWritable
  | EvPollfd nat nat
  | EvTimeout pending_timeout nat
  | EvValidity
  | EvSend bytes

text \<open>The library calls a user callback can make before it returns.\<close>

datatype user_action =
    UaRxFlow nat
  | UaWritable
  | UaCloseReason nat "bytes option"

abbreviation (input) LWS_POLLIN :: nat where "LWS_POLLIN \<equiv> 1"
abbreviation (input) LWS_POLLOUT :: nat where "LWS_POLLOUT \<equiv> 4"

abbreviation (input) LWS_CLOSE_STATUS_PROTOCOL_ERR :: nat where "LWS_CLOSE_STATUS_PROTOCOL_ERR \<equiv> 1002"
abbreviation (input) LWS_CLOSE_STATUS_INVALID_PAYLOAD :: nat where "LWS_CLOSE_STATUS_INVALID_PAYLOAD \<equiv> 1007"

text \<open>A \<open>struct lws_tokens\<close>: where it points, and the signed length.  A pointer is NULL, the start of the
  connection's own \<open>rx_ubuf\<close>, the buffer the user gave to \<open>lws_write\<close>, or some other buffer; the last two
  come with the bytes from there to the end of the buffer.\<close>

datatype token = TNull | TUbuf | TExt bytes | TUser bytes

record lws_tokens =
  tok :: token
  tok_len :: int

record lws_ext_pm_deflate_rx_ebufs =
  eb_in :: lws_tokens
  eb_out :: lws_tokens

abbreviation tokens_null :: lws_tokens where "tokens_null \<equiv> \<lparr>tok = TNull, tok_len = 0\<rparr>"
abbreviation ebufs_null :: lws_ext_pm_deflate_rx_ebufs where
  "ebufs_null \<equiv> \<lparr>eb_in = tokens_null, eb_out = tokens_null\<rparr>"

abbreviation (input) PMDR_UNKNOWN :: int where "PMDR_UNKNOWN \<equiv> 0"
abbreviation (input) PMDR_DID_NOTHING :: int where "PMDR_DID_NOTHING \<equiv> 1"
abbreviation (input) PMDR_HAS_PENDING :: int where "PMDR_HAS_PENDING \<equiv> 2"
abbreviation (input) PMDR_EMPTY_NONFINAL :: int where "PMDR_EMPTY_NONFINAL \<equiv> 3"
abbreviation (input) PMDR_EMPTY_FINAL :: int where "PMDR_EMPTY_FINAL \<equiv> 4"
abbreviation (input) PMDR_NOTHING_WE_SHOULD_DO :: int where "PMDR_NOTHING_WE_SHOULD_DO \<equiv> 5"

section \<open>The connection\<close>

text \<open>\<open>nwsi_buffered_out\<close> says that the network connection under an h2 stream has output buffered (false for
  a connection that sits on a socket of its own); \<open>udp_sa46\<close> holds the two addresses of \<open>struct lws_udp\<close>.\<close>

record 'e wsi =
  wsi_id :: nat
  lws_rx_parse_state :: lws_rx_parse_state
  rx_ubuf :: bytes
  rx_ubuf_head :: nat
  rx_ubuf_alloc :: nat
  rx_packet_length :: u64
  opcode :: u8
  rsv :: u8
  rsv_first_msg :: u8
  mask :: bytes
  mask_idx :: u8
  ws_final :: bool
  frame_is_binary :: bool
  all_zero_nonce :: bool
  this_frame_masked :: bool
  inside_frame :: bool
  clean_buffer :: bool
  payload_is_close :: bool
  pong_pending_flag :: bool
  continuation_possible :: bool
  owed_a_fin :: bool
  check_utf8 :: bool
  defeat_check_utf8 :: bool
  stashed_write_pending :: bool
  send_check_ping :: bool
  first_fragment :: bool
  peer_has_sent_close :: bool
  extension_data_pending :: bool
  rx_draining_ext :: bool
  tx_draining_ext :: bool
  pmd_trailer_application :: bool
  ping_payload_buf :: bytes
  pong_payload_buf :: bytes
  pong_payload_len :: u8
  close_in_ping_buffer_len :: u8
  utf8 :: u8
  stashed_write_type :: u8
  tx_draining_stashed_wp :: u8
  ietf_spec_revision :: nat
  count_act_ext :: nat
  act_ext_user :: "'e option list"
  pt_rx_draining_ext_list :: "nat list"
  pt_tx_draining_ext_list :: "nat list"
  wsi_state :: lwsi_state
  wsistate_pre_close :: bool
  role_client :: bool
  socket_is_permanently_unusable :: bool
  waiting_to_send_close_frame :: bool
  close_needs_ack :: bool
  rxflow_bitmap :: u8
  rxflow_change_to :: nat
  rxflow_will_be_applied :: bool
  buflist :: "lws_buflist list"
  buflist_out :: "lws_buflist list"
  dll_buflist_attached :: bool
  could_have_pending :: bool
  close_when_buffered_out_drained :: bool
  deferred_transaction_completed :: bool
  wsi_mux_substream :: bool
  h2_encapsulation :: bool
  h2_stream_carries_ws :: bool
  nwsi_buffered_out :: bool
  udp_sa46 :: "(bytes \<times> bytes) option"
  hdr_parsing_completed :: bool
  events :: "event list"

record 'e env =
  opt_validate_utf8 :: bool
  rx_buffer_size :: nat
  pt_serv_buf_size :: nat
  has_callback :: bool
  user_cb :: "'e wsi \<Rightarrow> lws_callback_reason \<Rightarrow> bytes \<Rightarrow> int \<times> user_action list"
  ext_callback :: "nat \<Rightarrow> 'e wsi \<Rightarrow> lws_ext_reason \<Rightarrow> lws_ext_pm_deflate_rx_ebufs \<Rightarrow> nat \<Rightarrow>
    int \<times> 'e wsi \<times> lws_ext_pm_deflate_rx_ebufs"
  tx_packet_size :: nat
  ssl_capable_write :: "event list \<Rightarrow> bytes \<Rightarrow> int"
  get_random :: "event list \<Rightarrow> nat \<Rightarrow> bytes"
  send_pipe_choked :: "event list \<Rightarrow> bool"
  encap_write :: "'e wsi \<Rightarrow> bytes \<Rightarrow> 32 word \<Rightarrow> int \<times> 'e wsi"
  http_transaction_completed :: "'e wsi \<Rightarrow> int \<times> 'e wsi"
  change_pollfd :: "event list \<Rightarrow> nat \<Rightarrow> nat \<Rightarrow> int"
  alloc :: "nat \<Rightarrow> bool"

text \<open>The size of the frame buffer, as \<open>lws_server_init_wsi_for_ws\<close> chooses it.\<close>

definition rx_size :: "'e env \<Rightarrow> nat" where
  "rx_size en = (if rx_buffer_size en = 0 then pt_serv_buf_size en else rx_buffer_size en)"

definition log_event :: "event \<Rightarrow> 'e wsi \<Rightarrow> 'e wsi" where
  "log_event e w = w\<lparr>events := events w @ [e]\<rparr>"

end
