(* ===== verification/Ws_Core.thy ===== *)
theory Ws_Core
  imports Ws_Types
begin

text \<open>
  The services the websocket frame parsers and writers call: recording a close reason
  (\<open>lws_close_reason\<close>), the per-thread list of connections with undrained extensions, extension
  dispatch (\<open>lws_ext_cb_active\<close>), the user callback and receive flow control (\<open>core-net/wsi.c\<close>), and
  the receive cache (\<open>lws_rxflow_cache\<close>).  The frame relation \<open>rx_frame\<close> says what none of them touch.
\<close>

section \<open>Close reason\<close>

definition bytes_of_string :: "string \<Rightarrow> bytes" where
  "bytes_of_string s = map of_char s"

definition lws_close_reason :: "nat \<Rightarrow> bytes option \<Rightarrow> 'e wsi \<Rightarrow> 'e wsi" where
  "lws_close_reason status buf w =
     (let budget = 125;
          hdr = [of_nat (status div 256 mod 256), of_nat (status mod 256)];
          text = (case buf of None \<Rightarrow> [] | Some b \<Rightarrow> take (budget - 2) b);
          p = hdr @ text
      in w\<lparr>ping_payload_buf := p @ drop (length p) (ping_payload_buf w),
           close_in_ping_buffer_len := of_nat (length p)\<rparr>)"

definition lws_get_close_length :: "'e wsi \<Rightarrow> nat" where
  "lws_get_close_length w = unat (close_in_ping_buffer_len w)"

definition lws_get_close_payload :: "'e wsi \<Rightarrow> bytes" where
  "lws_get_close_payload w = ping_payload_buf w"

section \<open>Small accessors\<close>

definition lws_remaining_packet_payload :: "'e wsi \<Rightarrow> u64" where
  "lws_remaining_packet_payload w = rx_packet_length w"

definition lws_frame_is_binary :: "'e wsi \<Rightarrow> bool" where
  "lws_frame_is_binary w = frame_is_binary w"

definition lws_is_final_fragment :: "'e wsi \<Rightarrow> bool" where
  "lws_is_final_fragment w \<longleftrightarrow> ws_final w \<and> rx_packet_length w = 0 \<and> \<not> rx_draining_ext w"

definition lws_is_first_fragment :: "'e wsi \<Rightarrow> bool" where
  "lws_is_first_fragment w = first_fragment w"

definition lws_get_reserved_bits :: "'e wsi \<Rightarrow> u8" where
  "lws_get_reserved_bits w = rsv w"

definition lws_is_ws_with_ext :: "'e wsi \<Rightarrow> bool" where
  "lws_is_ws_with_ext w \<longleftrightarrow> count_act_ext w \<noteq> 0"

definition lws_has_buffered_out :: "'e wsi \<Rightarrow> bool" where
  "lws_has_buffered_out w \<longleftrightarrow> buflist_out w \<noteq> [] \<or> nwsi_buffered_out w"

definition lws_partial_buffered :: "'e wsi \<Rightarrow> bool" where
  "lws_partial_buffered w = lws_has_buffered_out w"

section \<open>Draining lists\<close>

definition lws_add_wsi_to_draining_ext_list :: "'e wsi \<Rightarrow> 'e wsi" where
  "lws_add_wsi_to_draining_ext_list w =
     (if rx_draining_ext w then w
      else w\<lparr>rx_draining_ext := True,
             pt_rx_draining_ext_list := wsi_id w # pt_rx_draining_ext_list w\<rparr>)"

definition lws_remove_wsi_from_draining_ext_list :: "'e wsi \<Rightarrow> 'e wsi" where
  "lws_remove_wsi_from_draining_ext_list w =
     (if \<not> rx_draining_ext w then w
      else w\<lparr>rx_draining_ext := False,
             pt_rx_draining_ext_list := remove1 (wsi_id w) (pt_rx_draining_ext_list w)\<rparr>)"

section \<open>The sending side\<close>

text \<open>What the transmit path reads besides the payloads; receiving a frame does not touch it.\<close>

definition tx_view :: "'e wsi \<Rightarrow> _" where
  "tx_view w = (buflist_out w, nwsi_buffered_out w, tx_draining_ext w, inside_frame w, deferred_transaction_completed w,
     stashed_write_pending w, ietf_spec_revision w, h2_encapsulation w, h2_stream_carries_ws w, role_client w,
     socket_is_permanently_unusable w, send_check_ping w, hdr_parsing_completed w)"

section \<open>Extension dispatch\<close>

fun ext_cb_loop ::
  "'e env \<Rightarrow> lws_ext_reason \<Rightarrow> nat \<Rightarrow> nat list \<Rightarrow> int \<Rightarrow> 'e wsi \<Rightarrow> lws_ext_pm_deflate_rx_ebufs \<Rightarrow>
   int \<times> 'e wsi \<times> lws_ext_pm_deflate_rx_ebufs" where
  "ext_cb_loop en reason len [] handled w arg = (handled, w, arg)"
| "ext_cb_loop en reason len (n # ns) handled w arg =
     (let (m, w, arg) = ext_callback en n w reason arg len in
      if m < 0 then (-1, w, arg)
      else let w = (if reason = LWS_EXT_CB_DESTROY
                    then w\<lparr>act_ext_user := (act_ext_user w)[n := None]\<rparr> else w) in
        ext_cb_loop en reason len ns (max m handled) w arg)"

definition lws_ext_cb_active ::
  "'e env \<Rightarrow> 'e wsi \<Rightarrow> lws_ext_reason \<Rightarrow> lws_ext_pm_deflate_rx_ebufs \<Rightarrow> nat \<Rightarrow>
   int \<times> 'e wsi \<times> lws_ext_pm_deflate_rx_ebufs" where
  "lws_ext_cb_active en w reason arg len = ext_cb_loop en reason len [0..<count_act_ext w] 0 w arg"

section \<open>Receive flow control and the user callback\<close>

definition change_pollfd_log :: "'e env \<Rightarrow> 'e wsi \<Rightarrow> nat \<Rightarrow> nat \<Rightarrow> int \<times> 'e wsi" where
  "change_pollfd_log en w a o' = (change_pollfd en (events w) a o', log_event (EvPollfd a o') w)"

text \<open>The connections the flow control of the library leaves to h2.  The role of a connection here is ws, or h1 before the
  upgrade, so that \<open>lwsi_role_h2\<close> is false.\<close>

definition rxflow_left_to_h2 :: "'e wsi \<Rightarrow> bool" where
  "rxflow_left_to_h2 w \<longleftrightarrow> wsi_mux_substream w \<or> h2_encapsulation w"

text \<open>\<open>__lws_rx_flow_control\<close>, for a connection by itself and for one with connections opened as its children: those with a
  pending change have it applied first, whatever comes of it.\<close>

definition rx_flow_control_apply :: "'e env \<Rightarrow> 'e wsi \<Rightarrow> (int \<times> 'e wsi) outcome" where
  "rx_flow_control_apply en w =
     (if rxflow_left_to_h2 w then Done (0, w)
      else if \<not> bit (rxflow_change_to w) 1 then Done (0, w)
      else bind_outcome (lws_buflist_next_segment_len (buflist w)) (\<lambda>(n, _, bl).
        let w = w\<lparr>buflist := bl\<rparr>;
            w = (if n \<noteq> 0 then log_event EvWritable w else w);
            w = w\<lparr>rxflow_change_to := rxflow_change_to w mod 2\<rparr>;
            (r, w) = (if bit (rxflow_change_to w) 0 then change_pollfd_log en w 0 LWS_POLLIN
                      else change_pollfd_log en w LWS_POLLIN 0)
        in Done (if r \<noteq> 0 then -1 else 0, w)))"

datatype 'e wsi_tree = Wsi_Tree (tree_wsi: "'e wsi") "'e wsi_tree list"

fun rx_flow_control_tree :: "'e env \<Rightarrow> 'e wsi_tree \<Rightarrow> (int \<times> 'e wsi_tree) outcome"
and rx_flow_control_children :: "'e env \<Rightarrow> 'e wsi_tree list \<Rightarrow> 'e wsi_tree list outcome" where
  "rx_flow_control_tree en (Wsi_Tree w ts) =
     (if rxflow_left_to_h2 w then Done (0, Wsi_Tree w ts)
      else bind_outcome (rx_flow_control_children en ts) (\<lambda>ts.
        bind_outcome (rx_flow_control_apply en w) (\<lambda>(r, w). Done (r, Wsi_Tree w ts))))"
| "rx_flow_control_children en [] = Done []"
| "rx_flow_control_children en (t # ts) =
     bind_outcome (if bit (rxflow_change_to (tree_wsi t)) 1
                   then bind_outcome (rx_flow_control_tree en t) (\<lambda>(r, t). Done t) else Done t) (\<lambda>t.
       bind_outcome (rx_flow_control_children en ts) (\<lambda>ts. Done (t # ts)))"

text \<open>The children do not matter to the connection, so that the rest of the development follows it alone.\<close>

lemma rx_flow_control_tree_alone:
  assumes "rx_flow_control_tree en (Wsi_Tree w ts) = Done (r, t)"
  shows "rx_flow_control_apply en w = Done (r, tree_wsi t)"
  using assms by (auto simp: rx_flow_control_apply_def [of en w] split: if_splits prod.splits)

definition rxflow_target :: "u8 \<Rightarrow> nat" where
  "rxflow_target bitmap = 2 + (if bitmap = 0 then 1 else 0)"

definition lws_rx_flow_control :: "'e env \<Rightarrow> 'e wsi \<Rightarrow> nat \<Rightarrow> (int \<times> 'e wsi) outcome" where
  "lws_rx_flow_control env w enable =
     (if rxflow_left_to_h2 w then Done (0, w)
      else
      let en = (if bit enable 14 then enable
                else 2 ^ 14 + 1 + (if bit enable 0 then 2 ^ 13 else 0));
          bitmap = (if bit en 13 then rxflow_bitmap w AND NOT (of_nat en)
                    else rxflow_bitmap w OR of_nat en);
          w = w\<lparr>rxflow_bitmap := bitmap\<rparr>
      in if rxflow_target bitmap = rxflow_change_to w then Done (0, w)
         else let w = w\<lparr>rxflow_change_to := rxflow_target bitmap\<rparr> in
           if bit enable 12 \<or> \<not> rxflow_will_be_applied w then rx_flow_control_apply env w
           else Done (0, w))"

fun user_actions :: "'e env \<Rightarrow> user_action list \<Rightarrow> 'e wsi \<Rightarrow> 'e wsi outcome" where
  "user_actions en [] w = Done w"
| "user_actions en (UaRxFlow k # acts) w =
     bind_outcome (lws_rx_flow_control en w k) (\<lambda>(_, w). user_actions en acts w)"
| "user_actions en (UaWritable # acts) w = user_actions en acts (log_event EvWritable w)"
| "user_actions en (UaCloseReason st buf # acts) w =
     user_actions en acts (lws_close_reason st buf w)"

text \<open>A call of \<open>wsi->a.protocol->callback\<close>; calling it when it is NULL is a fault.\<close>

definition protocol_callback ::
  "'e env \<Rightarrow> 'e wsi \<Rightarrow> lws_callback_reason \<Rightarrow> bytes \<Rightarrow> (int \<times> 'e wsi) outcome" where
  "protocol_callback en w reason data =
     (if \<not> has_callback en then Fault
      else let (n, acts) = user_cb en w reason data in
        bind_outcome (user_actions en acts (log_event (EvCallback reason data) w)) (\<lambda>w. Done (n, w)))"

definition user_callback_handle_rxflow ::
  "'e env \<Rightarrow> 'e wsi \<Rightarrow> lws_callback_reason \<Rightarrow> bytes \<Rightarrow> (int \<times> 'e wsi) outcome" where
  "user_callback_handle_rxflow en w reason data =
     bind_outcome (protocol_callback en (w\<lparr>rxflow_will_be_applied := True\<rparr>) reason data) (\<lambda>(n, w).
       let w = w\<lparr>rxflow_will_be_applied := False\<rparr> in
       if n = 0 then rx_flow_control_apply en w else Done (n, w))"

section \<open>The receive cache\<close>

datatype rxflow_result = LWSRXFC_ERROR | LWSRXFC_CACHED | LWSRXFC_ADDITIONAL | LWSRXFC_TRIMMED

text \<open>\<open>buf\<close> is given by its bytes and by where it points: \<open>Some ofs\<close> when it is \<open>ofs\<close> bytes after the
  unread part of the first cached segment, \<open>None\<close> for other memory.\<close>

definition lws_rxflow_cache ::
  "'e env \<Rightarrow> 'e wsi \<Rightarrow> nat option \<Rightarrow> bytes \<Rightarrow> nat \<Rightarrow> (rxflow_result \<times> 'e wsi) outcome" where
  "lws_rxflow_cache en w at buf n =
     bind_outcome (lws_buflist_next_segment_len (buflist w)) (\<lambda>(blen, _, bl).
       let w = w\<lparr>buflist := bl\<rparr>;
           inside = (case at of None \<Rightarrow> False | Some ofs \<Rightarrow> ofs + length buf \<le> blen)
       in if blen \<noteq> 0 \<and> inside \<and> blen \<noteq> length buf then
            bind_outcome (lws_buflist_use_segment bl (blen - length buf)) (\<lambda>(_, bl').
              Done (LWSRXFC_TRIMMED, w\<lparr>buflist := bl'\<rparr>))
          else bind_outcome (lws_buflist_append_segment (alloc en) bl (drop n buf)) (\<lambda>(m, bl').
            if m < 0 then Done (LWSRXFC_ERROR, w\<lparr>buflist := bl'\<rparr>)
            else Done (if blen \<noteq> 0 then LWSRXFC_ADDITIONAL else LWSRXFC_CACHED,
                       w\<lparr>buflist := bl',
                         dll_buflist_attached := dll_buflist_attached w \<or> m \<noteq> 0\<rparr>)))"

section \<open>Token buffers\<close>

text \<open>The bytes \<open>token .. token + len\<close>, and \<open>token[len] = 0\<close>: faults outside the buffer pointed at.\<close>

definition token_load :: "'e wsi \<Rightarrow> lws_tokens \<Rightarrow> bytes outcome" where
  "token_load w t =
     (if tok_len t < 0 then Fault
      else case tok t of
        TNull \<Rightarrow> if tok_len t = 0 then Done [] else Fault
      | TUbuf \<Rightarrow> mem_load (rx_ubuf w) 0 (nat (tok_len t))
      | TExt b \<Rightarrow> mem_load b 0 (nat (tok_len t))
      | TUser b \<Rightarrow> mem_load b 0 (nat (tok_len t)))"

definition token_nul :: "'e wsi \<Rightarrow> lws_tokens \<Rightarrow> ('e wsi \<times> lws_tokens) outcome" where
  "token_nul w t =
     (if tok_len t < 0 then Fault
      else case tok t of
        TNull \<Rightarrow> Fault
      | TUbuf \<Rightarrow> bind_outcome (mem_store (rx_ubuf w) (nat (tok_len t)) [0]) (\<lambda>b. Done (w\<lparr>rx_ubuf := b\<rparr>, t))
      | TExt b \<Rightarrow> bind_outcome (mem_store b (nat (tok_len t)) [0]) (\<lambda>b. Done (w, t\<lparr>tok := TExt b\<rparr>))
      | TUser b \<Rightarrow> bind_outcome (mem_store b (nat (tok_len t)) [0]) (\<lambda>b. Done (w, t\<lparr>tok := TUser b\<rparr>)))"

text \<open>The UTF-8 check of a payload against the state kept in the connection.\<close>

definition check_utf8_in :: "'e wsi \<Rightarrow> bytes \<Rightarrow> bool \<times> 'e wsi" where
  "check_utf8_in w bs = (let (r, st) = lws_check_utf8 (utf8 w) bs in (r \<noteq> 0, w\<lparr>utf8 := st\<rparr>))"

section \<open>Results of the frame parsers\<close>

text \<open>A header or payload byte either finishes the call or goes on to spill what was collected; one
  round of the loop that feeds extensions and the user returns, leaves the loop, or goes on.\<close>

datatype 'e rx_parse = PReturn int "'e wsi" | PSpill "'e wsi" | PDrain "'e wsi"

datatype 'e rx_iter =
    IterReturn int "'e wsi"
  | IterLeave "'e wsi"
  | IterNext lws_ext_pm_deflate_rx_ebufs bool "'e wsi"

definition set_rxps :: "lws_rx_parse_state \<Rightarrow> 'e wsi \<Rightarrow> 'e wsi" where
  "set_rxps s w = w\<lparr>lws_rx_parse_state := s\<rparr>"

section \<open>What the services leave alone\<close>

text \<open>\<open>rx_frame\<close> blanks the fields that user callbacks, flow control and close reasons may change; two
  connections with the same \<open>rx_frame\<close> agree on everything the frame parsers keep.\<close>

definition rx_frame :: "'e wsi \<Rightarrow> 'e wsi" where
  "rx_frame w = w\<lparr>ping_payload_buf := [], close_in_ping_buffer_len := 0, rxflow_bitmap := 0,
     rxflow_change_to := 0, rxflow_will_be_applied := False, buflist := [],
     dll_buflist_attached := False, events := []\<rparr>"

lemma rx_frame_updates [simp]:
  "rx_frame (w\<lparr>ping_payload_buf := a\<rparr>) = rx_frame w"
  "rx_frame (w\<lparr>close_in_ping_buffer_len := b\<rparr>) = rx_frame w"
  "rx_frame (w\<lparr>rxflow_bitmap := c\<rparr>) = rx_frame w"
  "rx_frame (w\<lparr>rxflow_change_to := d\<rparr>) = rx_frame w"
  "rx_frame (w\<lparr>rxflow_will_be_applied := e\<rparr>) = rx_frame w"
  "rx_frame (w\<lparr>buflist := f\<rparr>) = rx_frame w"
  "rx_frame (w\<lparr>dll_buflist_attached := g\<rparr>) = rx_frame w"
  "rx_frame (w\<lparr>events := h\<rparr>) = rx_frame w"
  by (simp_all add: rx_frame_def)

lemma rx_frame_log_event [simp]: "rx_frame (log_event e w) = rx_frame w"
  by (simp add: log_event_def)

lemma rx_frame_close_reason [simp]: "rx_frame (lws_close_reason st buf w) = rx_frame w"
  by (simp add: lws_close_reason_def Let_def)

lemma rx_frame_fields:
  assumes "rx_frame w' = rx_frame w"
  shows "lws_rx_parse_state w' = lws_rx_parse_state w" "rx_ubuf w' = rx_ubuf w"
    "rx_ubuf_head w' = rx_ubuf_head w" "rx_ubuf_alloc w' = rx_ubuf_alloc w"
    "rx_packet_length w' = rx_packet_length w" "opcode w' = opcode w" "utf8 w' = utf8 w"
    "mask w' = mask w" "mask_idx w' = mask_idx w" "ws_final w' = ws_final w"
    "all_zero_nonce w' = all_zero_nonce w" "this_frame_masked w' = this_frame_masked w"
    "check_utf8 w' = check_utf8 w" "defeat_check_utf8 w' = defeat_check_utf8 w"
    "continuation_possible w' = continuation_possible w" "owed_a_fin w' = owed_a_fin w"
    "pong_payload_buf w' = pong_payload_buf w" "rx_draining_ext w' = rx_draining_ext w"
    "count_act_ext w' = count_act_ext w" "wsi_state w' = wsi_state w"
    "wsistate_pre_close w' = wsistate_pre_close w" "buflist_out w' = buflist_out w"
    "ietf_spec_revision w' = ietf_spec_revision w" "role_client w' = role_client w"
    "pong_pending_flag w' = pong_pending_flag w" "pong_payload_len w' = pong_payload_len w"
    "peer_has_sent_close w' = peer_has_sent_close w" "first_fragment w' = first_fragment w"
    "frame_is_binary w' = frame_is_binary w" "rsv w' = rsv w"
  using arg_cong [OF assms, of lws_rx_parse_state] arg_cong [OF assms, of rx_ubuf]
    arg_cong [OF assms, of rx_ubuf_head] arg_cong [OF assms, of rx_ubuf_alloc]
    arg_cong [OF assms, of rx_packet_length] arg_cong [OF assms, of opcode]
    arg_cong [OF assms, of utf8] arg_cong [OF assms, of mask] arg_cong [OF assms, of mask_idx]
    arg_cong [OF assms, of ws_final] arg_cong [OF assms, of all_zero_nonce]
    arg_cong [OF assms, of this_frame_masked] arg_cong [OF assms, of check_utf8]
    arg_cong [OF assms, of defeat_check_utf8] arg_cong [OF assms, of continuation_possible]
    arg_cong [OF assms, of owed_a_fin] arg_cong [OF assms, of pong_payload_buf]
    arg_cong [OF assms, of rx_draining_ext] arg_cong [OF assms, of count_act_ext]
    arg_cong [OF assms, of wsi_state] arg_cong [OF assms, of wsistate_pre_close]
    arg_cong [OF assms, of buflist_out] arg_cong [OF assms, of ietf_spec_revision]
    arg_cong [OF assms, of role_client] arg_cong [OF assms, of pong_pending_flag]
    arg_cong [OF assms, of pong_payload_len] arg_cong [OF assms, of peer_has_sent_close]
    arg_cong [OF assms, of first_fragment] arg_cong [OF assms, of frame_is_binary]
    arg_cong [OF assms, of rsv]
  unfolding rx_frame_def by simp_all

text \<open>What the services need of the connection and keep of it.\<close>

definition svc_ok :: "'e wsi \<Rightarrow> bool" where
  "svc_ok w \<longleftrightarrow> length (ping_payload_buf w) = 125 \<and> unat (close_in_ping_buffer_len w) \<le> 125 \<and>
     buflist_ok (buflist w)"

lemma close_reason_length:
  "length (ping_payload_buf w) = 125 \<Longrightarrow> length (ping_payload_buf (lws_close_reason st buf w)) = 125"
  by (auto simp: lws_close_reason_def Let_def split: option.split)

lemma svc_ok_close_reason:
  assumes "svc_ok w"
  shows "svc_ok (lws_close_reason st buf w)"
proof -
  let ?p = "[of_nat (st div 256 mod 256), of_nat (st mod 256) :: u8] @
    (case buf of None \<Rightarrow> [] | Some b \<Rightarrow> take (125 - 2) b)"
  have "length ?p \<le> 125" by (auto split: option.split)
  then have "unat (of_nat (length ?p) :: u8) \<le> 125"
    by (rule le_trans [OF unat_of_nat_le])
  then show ?thesis using assms close_reason_length [of w st buf]
    by (simp add: svc_ok_def lws_close_reason_def Let_def)
qed

lemma svc_ok_updates [simp]:
  "svc_ok (w\<lparr>rxflow_bitmap := c\<rparr>) = svc_ok w" "svc_ok (w\<lparr>rxflow_change_to := d\<rparr>) = svc_ok w"
  "svc_ok (w\<lparr>rxflow_will_be_applied := e\<rparr>) = svc_ok w" "svc_ok (w\<lparr>events := h\<rparr>) = svc_ok w"
  "svc_ok (log_event ev w) = svc_ok w"
  by (simp_all add: svc_ok_def log_event_def)

text \<open>A service call that returns, and keeps the frame and the invariant.\<close>

definition svc_keeps :: "'e wsi \<Rightarrow> (int \<times> 'e wsi) outcome \<Rightarrow> bool" where
  "svc_keeps w m \<longleftrightarrow> (\<exists>n w'. m = Done (n, w') \<and> rx_frame w' = rx_frame w \<and> svc_ok w')"

lemma svc_keeps_Done: "rx_frame w' = rx_frame w \<Longrightarrow> svc_ok w' \<Longrightarrow> svc_keeps w (Done (n, w'))"
  by (simp add: svc_keeps_def)

lemma svc_keepsE:
  assumes "svc_keeps w m"
  obtains n w' where "m = Done (n, w')" "rx_frame w' = rx_frame w" "svc_ok w'"
  using assms by (auto simp: svc_keeps_def)

lemma svc_keeps_cong: "rx_frame w1 = rx_frame w2 \<Longrightarrow> svc_keeps w1 m = svc_keeps w2 m"
  by (simp add: svc_keeps_def)

lemma rx_flow_control_apply_ok:
  assumes "svc_ok w"
  shows "svc_keeps w (rx_flow_control_apply en w)"
proof (cases "bit (rxflow_change_to w) 1")
  case True
  have "buflist_ok (buflist w)" using assms by (simp add: svc_ok_def)
  then obtain n b where "lws_buflist_next_segment_len (buflist w) = Done (n, b, buflist w)"
    using next_segment_len_ok by (cases "buflist w") auto
  then show ?thesis using True assms
    by (simp add: svc_keeps_def rx_flow_control_apply_def change_pollfd_log_def rxflow_left_to_h2_def Let_def)
qed (simp add: rx_flow_control_apply_def svc_keeps_def assms)

lemma lws_rx_flow_control_ok:
  assumes "svc_ok w"
  shows "svc_keeps w (lws_rx_flow_control en w k)"
proof -
  have "svc_keeps w (rx_flow_control_apply en (w\<lparr>rxflow_bitmap := c, rxflow_change_to := d\<rparr>))" for c d
    using rx_flow_control_apply_ok [of "w\<lparr>rxflow_bitmap := c, rxflow_change_to := d\<rparr>" en] assms
    by (simp cong: svc_keeps_cong)
  then show ?thesis
    using assms by (simp add: lws_rx_flow_control_def Let_def svc_keeps_Done)
qed

lemma user_actions_ok:
  "svc_ok w \<Longrightarrow> \<exists>w'. user_actions en acts w = Done w' \<and> rx_frame w' = rx_frame w \<and> svc_ok w'"
proof (induction en acts w rule: user_actions.induct)
  case (2 en k acts w)
  from lws_rx_flow_control_ok [OF 2(2)] obtain n w1 where
    w1: "lws_rx_flow_control en w k = Done (n, w1)" "rx_frame w1 = rx_frame w" "svc_ok w1"
    by (rule svc_keepsE)
  then show ?case using 2(1) by fastforce
qed (simp_all add: svc_ok_close_reason)

lemma protocol_callback_ok:
  assumes "svc_ok w" and "has_callback en"
  shows "svc_keeps w (protocol_callback en w reason data)"
proof -
  obtain n acts where cb: "user_cb en w reason data = (n, acts)" by (cases "user_cb en w reason data")
  obtain w' where "user_actions en acts (log_event (EvCallback reason data) w) = Done w'"
    "rx_frame w' = rx_frame w" "svc_ok w'"
    using user_actions_ok [of "log_event (EvCallback reason data) w" en acts] assms(1) by auto
  then show ?thesis using assms cb by (simp add: protocol_callback_def svc_keeps_def)
qed

lemma user_callback_handle_rxflow_ok:
  assumes "svc_ok w" and "has_callback en"
  shows "svc_keeps w (user_callback_handle_rxflow en w reason data)"
proof -
  have "svc_keeps (w\<lparr>rxflow_will_be_applied := True\<rparr>)
      (protocol_callback en (w\<lparr>rxflow_will_be_applied := True\<rparr>) reason data)"
    using assms by (intro protocol_callback_ok) simp_all
  then obtain n w1 where w1: "protocol_callback en (w\<lparr>rxflow_will_be_applied := True\<rparr>) reason data = Done (n, w1)"
    "rx_frame w1 = rx_frame w" "svc_ok w1" by (auto simp: svc_keeps_def)
  have "svc_keeps (w1\<lparr>rxflow_will_be_applied := False\<rparr>)
      (rx_flow_control_apply en (w1\<lparr>rxflow_will_be_applied := False\<rparr>))"
    using w1(3) by (intro rx_flow_control_apply_ok) simp
  then show ?thesis using w1 by (auto simp: user_callback_handle_rxflow_def svc_keeps_def Let_def)
qed

lemma ext_cb_active_none [simp]:
  "count_act_ext w = 0 \<Longrightarrow> lws_ext_cb_active en w reason arg len = (0, w, arg)"
  by (simp add: lws_ext_cb_active_def)

lemma check_utf8_in_ok:
  assumes "utf8_state (utf8 w)" and "check_utf8_in w bs = (bad, w')"
  shows "\<exists>st. w' = w\<lparr>utf8 := st\<rparr> \<and> utf8_state st"
proof (cases "check_utf8_loop (utf8 w) bs")
  case None
  then have "w' = w\<lparr>utf8 := utf8 w\<rparr>" using assms(2) by (simp add: check_utf8_in_def lws_check_utf8_def)
  then show ?thesis using assms(1) by blast
next
  case (Some st)
  then have "w' = w\<lparr>utf8 := st\<rparr>" using assms(2) by (simp add: check_utf8_in_def lws_check_utf8_def)
  then show ?thesis using check_utf8_loop_state [OF assms(1) Some] by blast
qed

lemma mem_load_ok: "ofs + n \<le> length buf \<Longrightarrow> mem_load buf ofs n = Done (take n (drop ofs buf))"
  by (simp add: mem_load_def)

lemma mem_store_ok:
  "ofs + length src \<le> length buf \<Longrightarrow> \<exists>b. mem_store buf ofs src = Done b \<and> length b = length buf"
  by (simp add: mem_store_def)

section \<open>The invariant of the receive path\<close>

text \<open>What holds of a connection without negotiated extensions between calls of its frame parser: the
  buffers have their sizes, the UTF-8 state is one the validator can be in, nothing is pending in the
  frame buffer except inside a payload, and a control frame never exceeds 125 bytes.\<close>

definition rx_bufs_ok :: "'e env \<Rightarrow> 'e wsi \<Rightarrow> bool" where
  "rx_bufs_ok en w \<longleftrightarrow>
     svc_ok w \<and> length (pong_payload_buf w) = 125 \<and> utf8_state (utf8 w) \<and> 0 < rx_size en \<and> rx_size en < 2 ^ 32 \<and>
     length (rx_ubuf w) = rx_size en + 4 \<and> rx_ubuf_alloc w = rx_size en + 16 \<and> length (mask w) = 4 \<and>
     count_act_ext w = 0 \<and> \<not> rx_draining_ext w"

lemma rx_bufs_ok_svc: "rx_bufs_ok en w \<Longrightarrow> svc_ok w"
  by (simp add: rx_bufs_ok_def)

lemma rx_bufs_ok_frame:
  assumes "rx_frame w' = rx_frame w" and "svc_ok w'" and "rx_bufs_ok en w"
  shows "rx_bufs_ok en w'"
  using assms(2,3) by (simp add: rx_bufs_ok_def rx_frame_fields [OF assms(1)])

lemma rx_bufs_ok_updates [simp]:
  "rx_bufs_ok en (w\<lparr>events := y0\<rparr>) = rx_bufs_ok en w"
  "rx_bufs_ok en (w\<lparr>lws_rx_parse_state := x0\<rparr>) = rx_bufs_ok en w"
  "rx_bufs_ok en (w\<lparr>rx_ubuf_head := x1\<rparr>) = rx_bufs_ok en w"
  "rx_bufs_ok en (w\<lparr>rx_packet_length := x2\<rparr>) = rx_bufs_ok en w"
  "rx_bufs_ok en (w\<lparr>opcode := x3\<rparr>) = rx_bufs_ok en w"
  "rx_bufs_ok en (w\<lparr>rsv := x4\<rparr>) = rx_bufs_ok en w"
  "rx_bufs_ok en (w\<lparr>rsv_first_msg := x5\<rparr>) = rx_bufs_ok en w"
  "rx_bufs_ok en (w\<lparr>mask_idx := x6\<rparr>) = rx_bufs_ok en w"
  "rx_bufs_ok en (w\<lparr>ws_final := x7\<rparr>) = rx_bufs_ok en w"
  "rx_bufs_ok en (w\<lparr>frame_is_binary := x8\<rparr>) = rx_bufs_ok en w"
  "rx_bufs_ok en (w\<lparr>all_zero_nonce := x9\<rparr>) = rx_bufs_ok en w"
  "rx_bufs_ok en (w\<lparr>this_frame_masked := x10\<rparr>) = rx_bufs_ok en w"
  "rx_bufs_ok en (w\<lparr>pong_pending_flag := x11\<rparr>) = rx_bufs_ok en w"
  "rx_bufs_ok en (w\<lparr>continuation_possible := x12\<rparr>) = rx_bufs_ok en w"
  "rx_bufs_ok en (w\<lparr>owed_a_fin := x13\<rparr>) = rx_bufs_ok en w"
  "rx_bufs_ok en (w\<lparr>check_utf8 := x14\<rparr>) = rx_bufs_ok en w"
  "rx_bufs_ok en (w\<lparr>defeat_check_utf8 := x15\<rparr>) = rx_bufs_ok en w"
  "rx_bufs_ok en (w\<lparr>first_fragment := x16\<rparr>) = rx_bufs_ok en w"
  "rx_bufs_ok en (w\<lparr>peer_has_sent_close := x17\<rparr>) = rx_bufs_ok en w"
  "rx_bufs_ok en (w\<lparr>payload_is_close := x18\<rparr>) = rx_bufs_ok en w"
  "rx_bufs_ok en (w\<lparr>pmd_trailer_application := x19\<rparr>) = rx_bufs_ok en w"
  "rx_bufs_ok en (w\<lparr>pong_payload_len := x20\<rparr>) = rx_bufs_ok en w"
  "rx_bufs_ok en (w\<lparr>wsi_state := x21\<rparr>) = rx_bufs_ok en w"
  "rx_bufs_ok en (w\<lparr>waiting_to_send_close_frame := x22\<rparr>) = rx_bufs_ok en w"
  "rx_bufs_ok en (w\<lparr>close_needs_ack := x23\<rparr>) = rx_bufs_ok en w"
  "rx_bufs_ok en (w\<lparr>socket_is_permanently_unusable := x24\<rparr>) = rx_bufs_ok en w"
  by (simp_all add: rx_bufs_ok_def svc_ok_def)

lemma rx_bufs_ok_utf8 [simp]: "rx_bufs_ok en w \<Longrightarrow> utf8_state st \<Longrightarrow> rx_bufs_ok en (w\<lparr>utf8 := st\<rparr>)"
  by (simp add: rx_bufs_ok_def svc_ok_def)

lemma rx_bufs_ok_rx_ubuf [simp]:
  "rx_bufs_ok en w \<Longrightarrow> length b = length (rx_ubuf w) \<Longrightarrow> rx_bufs_ok en (w\<lparr>rx_ubuf := b\<rparr>)"
  by (simp add: rx_bufs_ok_def svc_ok_def)

lemma rx_bufs_ok_mask [simp]:
  "rx_bufs_ok en w \<Longrightarrow> length m = 4 \<Longrightarrow> rx_bufs_ok en (w\<lparr>mask := m\<rparr>)"
  by (simp add: rx_bufs_ok_def svc_ok_def)

lemma rx_bufs_ok_log [simp]: "rx_bufs_ok en (log_event e w) = rx_bufs_ok en w"
  by (simp add: rx_bufs_ok_def svc_ok_def log_event_def)

lemma rx_bufs_ok_close_reason [simp]: "rx_bufs_ok en w \<Longrightarrow> rx_bufs_ok en (lws_close_reason st b w)"
  using rx_bufs_ok_frame [of "lws_close_reason st b w" w en]
  by (simp add: svc_ok_close_reason rx_bufs_ok_svc)

lemma set_rxps_simps [simp]:
  "rx_bufs_ok en (set_rxps s w) = rx_bufs_ok en w" "lws_rx_parse_state (set_rxps s w) = s"
  "rx_ubuf_head (set_rxps s w) = rx_ubuf_head w" "opcode (set_rxps s w) = opcode w"
  "rx_packet_length (set_rxps s w) = rx_packet_length w"
  by (simp_all add: set_rxps_def)

section \<open>The receive cache keeps the stream\<close>

lemma lws_rxflow_cache_ok:
  assumes "svc_ok w" and "buf \<noteq> []"
  shows "\<exists>r w'. lws_rxflow_cache en w at buf 0 = Done (r, w') \<and> rx_frame w' = rx_frame w \<and> svc_ok w'"
proof -
  have bl: "buflist_ok (buflist w)" using assms(1) by (simp add: svc_ok_def)
  have nsl: "\<exists>n b. lws_buflist_next_segment_len (buflist w) = Done (n, b, buflist w) \<and>
      (n \<noteq> 0 \<longrightarrow> (\<exists>s r. buflist w = s # r \<and> n = length (seg_rest s)))"
    using next_segment_len_ok [OF bl] by (cases "buflist w") auto
  then obtain n b where n: "lws_buflist_next_segment_len (buflist w) = Done (n, b, buflist w)"
    "n \<noteq> 0 \<longrightarrow> (\<exists>s r. buflist w = s # r \<and> n = length (seg_rest s))" by blast
  let ?inside = "case at of None \<Rightarrow> False | Some ofs \<Rightarrow> ofs + length buf \<le> n"
  show ?thesis
  proof (cases "n \<noteq> 0 \<and> ?inside \<and> n \<noteq> length buf")
    case True
    then obtain s r where sr: "buflist w = s # r" "n = length (seg_rest s)" using n(2) by blast
    have "length buf < n" using True by (auto split: option.splits)
    then obtain k bl' where "lws_buflist_use_segment (buflist w) (n - length buf) = Done (k, bl')" "buflist_ok bl'"
      using use_segment_ok [of s r "n - length buf"] bl sr assms(2) by auto
    then show ?thesis using True n(1) assms(1) by (simp add: lws_rxflow_cache_def svc_ok_def)
  next
    case False
    obtain m bl' where m: "lws_buflist_append_segment (alloc en) (buflist w) buf = Done (m, bl')"
      using append_segment_never_faults [OF assms(2)] by (metis outcome_not_Fault_iff surj_pair)
    moreover have "buflist_ok bl'" using append_segment_ok [OF bl assms(2) m] by blast
    moreover have "(if n \<noteq> 0 \<and> ?inside \<and> n \<noteq> length buf then x else y) = y"
      for x y :: "(rxflow_result \<times> 'a wsi) outcome" using False by (rule if_not_P)
    ultimately show ?thesis using n(1) assms(1) unfolding lws_rxflow_cache_def Let_def
      by (simp add: svc_ok_def)
  qed
qed

section \<open>Becoming a websocket connection\<close>

text \<open>The connection as \<open>lws_zalloc\<close> leaves it, with the protocol version the handshake settled on.\<close>

definition wsi_zalloc :: "bool \<Rightarrow> 'e wsi" where
  "wsi_zalloc client = \<lparr>wsi_id = 0, lws_rx_parse_state = LWS_RXPS_NEW, rx_ubuf = [], rx_ubuf_head = 0,
     rx_ubuf_alloc = 0, rx_packet_length = 0, opcode = 0, rsv = 0, rsv_first_msg = 0, mask = [0, 0, 0, 0],
     mask_idx = 0, ws_final = False, frame_is_binary = False, all_zero_nonce = False,
     this_frame_masked = False, inside_frame = False, clean_buffer = False, payload_is_close = False,
     pong_pending_flag = False, continuation_possible = False, owed_a_fin = False, check_utf8 = False,
     defeat_check_utf8 = False, stashed_write_pending = False, send_check_ping = False,
     first_fragment = False, peer_has_sent_close = False, extension_data_pending = False,
     rx_draining_ext = False, tx_draining_ext = False, pmd_trailer_application = False,
     ping_payload_buf = replicate 125 0, pong_payload_buf = replicate 125 0, pong_payload_len = 0,
     close_in_ping_buffer_len = 0, utf8 = 0, stashed_write_type = 0, tx_draining_stashed_wp = 0,
     ietf_spec_revision = 13, count_act_ext = 0, act_ext_user = [], pt_rx_draining_ext_list = [],
     pt_tx_draining_ext_list = [], wsi_state = LRS_WAITING_SERVER_REPLY, wsistate_pre_close = False,
     role_client = client, socket_is_permanently_unusable = False, waiting_to_send_close_frame = False,
     close_needs_ack = False, rxflow_bitmap = 0, rxflow_change_to = 0, rxflow_will_be_applied = False,
     buflist = [], buflist_out = [], dll_buflist_attached = False, could_have_pending = False,
     close_when_buffered_out_drained = False, deferred_transaction_completed = False,
     wsi_mux_substream = False, h2_encapsulation = False, h2_stream_carries_ws = False, nwsi_buffered_out = False, udp_sa46 = None,
     hdr_parsing_completed = False, events = []\<rparr>"

text \<open>\<open>mem\<close> is what \<open>lws_malloc\<close> returns, seen from \<open>LWS_PRE\<close> on.\<close>

definition lws_server_init_wsi_for_ws :: "'e env \<Rightarrow> bytes option \<Rightarrow> 'e wsi \<Rightarrow> (int \<times> 'e wsi) outcome" where
  "lws_server_init_wsi_for_ws en mem w =
     (let w = w\<lparr>wsi_state := LRS_ESTABLISHED\<rparr> in
      case mem of None \<Rightarrow> Done (1, w)
      | Some b \<Rightarrow>
          let w = w\<lparr>rx_ubuf := b, rx_ubuf_alloc := rx_size en + LWS_PRE\<rparr> in
          bind_outcome
            (if has_callback en then protocol_callback en w LWS_CALLBACK_ESTABLISHED [] else Done (0, w))
            (\<lambda>(r, w). if r \<noteq> 0 then Done (1, w) else Done (0, log_event EvValidity w)))"

lemma init_establishes_bufs:
  assumes "length b = rx_size en + 4" and "0 < rx_size en" and "rx_size en < 2 ^ 32"
    and "lws_server_init_wsi_for_ws en (Some b) (wsi_zalloc c) = Done (0, w)"
  shows "rx_bufs_ok en w \<and> rx_ubuf_head w = 0 \<and> lws_rx_parse_state w = LWS_RXPS_NEW"
proof -
  let ?w = "(wsi_zalloc c)\<lparr>wsi_state := LRS_ESTABLISHED, rx_ubuf := b, rx_ubuf_alloc := rx_size en + LWS_PRE\<rparr>"
  have ok: "rx_bufs_ok en ?w" using assms(1-3) by (simp add: wsi_zalloc_def rx_bufs_ok_def svc_ok_def)
  have "svc_keeps ?w (if has_callback en then protocol_callback en ?w LWS_CALLBACK_ESTABLISHED [] else Done (0, ?w))"
    using protocol_callback_ok [of ?w en] rx_bufs_ok_svc [OF ok] by (simp add: svc_keeps_Done)
  then obtain r w1 where w1: "(if has_callback en then protocol_callback en ?w LWS_CALLBACK_ESTABLISHED []
      else Done (0, ?w)) = Done (r, w1)" "rx_frame w1 = rx_frame ?w" "svc_ok w1" by (rule svc_keepsE)
  have "rx_bufs_ok en w1" using w1(2,3) ok by (rule rx_bufs_ok_frame)
  moreover have "w = log_event EvValidity w1"
    using assms(4) w1(1) by (auto simp: lws_server_init_wsi_for_ws_def Let_def split: if_splits)
  moreover have "rx_ubuf_head w1 = 0" "lws_rx_parse_state w1 = LWS_RXPS_NEW"
    using rx_frame_fields(1,3) [OF w1(2)] by (simp_all add: wsi_zalloc_def)
  ultimately show ?thesis by (simp add: log_event_def)
qed

text \<open>An environment whose protocol callback accepts everything and asks for nothing, with no
  extensions, used for concrete runs.\<close>

definition quiet_env :: "bool \<Rightarrow> nat \<Rightarrow> 'e env" where
  "quiet_env validate sz = \<lparr>opt_validate_utf8 = validate, rx_buffer_size = sz, pt_serv_buf_size = 4096,
     has_callback = True, user_cb = (\<lambda>w r d. (0, [])), ext_callback = (\<lambda>n w r p l. (0, w, p)),
     tx_packet_size = 0, ssl_capable_write = (\<lambda>ev b. int (length b)),
     get_random = (\<lambda>ev n. replicate n 0x5a), send_pipe_choked = (\<lambda>ev. False),
     encap_write = (\<lambda>w b wp. (int (length b), w)), http_transaction_completed = (\<lambda>w. (0, w)),
     change_pollfd = (\<lambda>ev a o'. 0), alloc = (\<lambda>n. True)\<rparr>"

definition ws_established :: "bool \<Rightarrow> nat \<Rightarrow> 'e wsi" where
  "ws_established client sz =
     (wsi_zalloc client)\<lparr>wsi_state := LRS_ESTABLISHED, hdr_parsing_completed := True, rx_ubuf := replicate (sz + 4) 0,
       rx_ubuf_alloc := sz + LWS_PRE\<rparr>"

lemma ws_established_bufs:
  "0 < sz \<Longrightarrow> sz < 2 ^ 32 \<Longrightarrow> rx_bufs_ok (quiet_env v sz) (ws_established c sz :: 'e wsi)"
  by (simp add: ws_established_def wsi_zalloc_def quiet_env_def rx_bufs_ok_def svc_ok_def rx_size_def)

end
