(* ===== verification/Ws_Client_Rx.thy ===== *)
theory Ws_Client_Rx
  imports Ws_Core
begin

text \<open>
  The client's frame parser, \<open>roles/ws/client-parser-ws.c\<close>: \<open>lws_ws_client_rx_sm\<close> consumes one byte.
  One definition per group of cases of the C switch; \<open>client_rx_iter\<close> is the body of the do-while loop
  that passes payload through the extensions to the user and \<open>client_rx_loop\<close> the loop.  A result
  \<open>None\<close> means the call never returns, \<open>Some Fault\<close> undefined behaviour or a failed assertion.
\<close>

section \<open>Frame header\<close>

definition client_rx_opcode :: "'e env \<Rightarrow> 'e wsi \<Rightarrow> u8 \<Rightarrow> bool \<times> 'e wsi" where
  "client_rx_opcode en w c =
     (if opcode w = LWSWSOPC_TEXT_FRAME then
        (True, w\<lparr>rsv_first_msg := c AND 0x70, pmd_trailer_application := (c AND 0x40 \<noteq> 0),
                continuation_possible := True, check_utf8 := opt_validate_utf8 en, utf8 := 0,
                first_fragment := True\<rparr>)
      else if opcode w = LWSWSOPC_BINARY_FRAME then
        (True, w\<lparr>rsv_first_msg := c AND 0x70, pmd_trailer_application := (c AND 0x40 \<noteq> 0),
                check_utf8 := False, continuation_possible := True, first_fragment := True\<rparr>)
      else if opcode w = LWSWSOPC_CONTINUATION then
        (if \<not> continuation_possible w then (False, w) else (True, w\<lparr>first_fragment := False\<rparr>))
      else if opcode w = LWSWSOPC_CLOSE then (True, w\<lparr>check_utf8 := False, utf8 := 0\<rparr>)
      else if opcode w \<in> {3, 4, 5, 6, 7, 0xb, 0xc, 0xd, 0xe, 0xf} then (False, w)
      else (True, w\<lparr>defeat_check_utf8 := True\<rparr>))"

definition client_rx_new :: "'e env \<Rightarrow> 'e wsi \<Rightarrow> u8 \<Rightarrow> 'e rx_parse" where
  "client_rx_new en w c =
     (let w = w\<lparr>defeat_check_utf8 := False\<rparr> in
      if ietf_spec_revision w \<noteq> 13 then PReturn 0 w
      else let w = w\<lparr>opcode := c AND 0xf\<rparr>; (legal, w) = client_rx_opcode en w c in
      if \<not> legal then PReturn (-1) w
      else let w = w\<lparr>rsv := c AND 0x70\<rparr> in
      if count_act_ext w = 0 \<and> rsv w \<noteq> 0 then PReturn (-1) w
      else let w = w\<lparr>ws_final := bit c 7\<rparr> in
      if owed_a_fin w \<and> (opcode w = LWSWSOPC_TEXT_FRAME \<or> opcode w = LWSWSOPC_BINARY_FRAME)
      then PReturn (-1) w
      else let w = (if opcode w AND 8 = 0 \<and> ws_final w
                    then w\<lparr>continuation_possible := False, owed_a_fin := False\<rparr> else w) in
      if opcode w AND 8 \<noteq> 0 \<and> \<not> ws_final w then PReturn (-1) w
      else let w = (if \<not> ws_final w then w\<lparr>owed_a_fin := True\<rparr> else w);
               w = (if opcode w = LWSWSOPC_TEXT_FRAME \<or> opcode w = LWSWSOPC_BINARY_FRAME
                    then w\<lparr>frame_is_binary := (opcode w = LWSWSOPC_BINARY_FRAME)\<rparr> else w)
           in PReturn 0 (set_rxps LWS_RXPS_04_FRAME_HDR_LEN w))"

text \<open>The end of the length field: payload next, or the frame is already complete.\<close>

definition client_len_done :: "'e wsi \<Rightarrow> 'e rx_parse" where
  "client_len_done w =
     (if this_frame_masked w then PReturn 0 (set_rxps LWS_RXPS_07_COLLECT_FRAME_KEY_1 w)
      else if rx_packet_length w \<noteq> 0 then PReturn 0 (set_rxps LWS_RXPS_WS_FRAME_PAYLOAD w)
      else PSpill (set_rxps LWS_RXPS_NEW w))"

definition client_rx_hdr_len :: "'e wsi \<Rightarrow> u8 \<Rightarrow> 'e rx_parse" where
  "client_rx_hdr_len w c =
     (let w = w\<lparr>this_frame_masked := (c AND 0x80 \<noteq> 0)\<rparr> in
      if this_frame_masked w then
        PReturn (-1) (lws_close_reason LWS_CLOSE_STATUS_PROTOCOL_ERR (Some (bytes_of_string ''srv mask'')) w)
      else if c AND 0x7f = 126 then
        (if opcode w AND 8 \<noteq> 0 then PReturn (-1) w
         else PReturn 0 (set_rxps LWS_RXPS_04_FRAME_HDR_LEN16_2 w))
      else if c AND 0x7f = 127 then
        (if opcode w AND 8 \<noteq> 0 then PReturn (-1) w
         else PReturn 0 (set_rxps LWS_RXPS_04_FRAME_HDR_LEN64_8 w))
      else client_len_done (w\<lparr>rx_packet_length := ucast (c AND 0x7f)\<rparr>))"

definition len_or :: "nat \<Rightarrow> u8 \<Rightarrow> 'e wsi \<Rightarrow> 'e wsi" where
  "len_or k c w = w\<lparr>rx_packet_length := rx_packet_length w OR push_bit k (ucast c)\<rparr>"

definition rx_mask_byte :: "nat \<Rightarrow> u8 \<Rightarrow> 'e wsi \<Rightarrow> 'e wsi" where
  "rx_mask_byte i c w =
     (let w = w\<lparr>mask := (mask w)[i := c]\<rparr> in if c \<noteq> 0 then w\<lparr>all_zero_nonce := False\<rparr> else w)"

section \<open>Payload\<close>

definition client_rx_payload :: "'e env \<Rightarrow> 'e wsi \<Rightarrow> u8 \<Rightarrow> 'e rx_parse outcome" where
  "client_rx_payload en w c =
     (if rx_ubuf w = [] then Fault
      else if rx_draining_ext w then Done (PDrain w)
      else let (c, w) = (if this_frame_masked w \<and> \<not> all_zero_nonce w
                         then (c XOR mask w ! unat (mask_idx w AND 3), w\<lparr>mask_idx := mask_idx w + 1\<rparr>)
                         else (c, w)) in
      bind_outcome (mem_store (rx_ubuf w) (rx_ubuf_head w) [c]) (\<lambda>ub.
        let w = w\<lparr>rx_ubuf := ub, rx_ubuf_head := rx_ubuf_head w + 1,
                  rx_packet_length := rx_packet_length w - 1\<rparr> in
        if rx_packet_length w = 0 then Done (PSpill (set_rxps LWS_RXPS_NEW w))
        else if rx_buffer_size en = 0 \<and> rx_ubuf_head w \<noteq> pt_serv_buf_size en then Done (PReturn 0 w)
        else if rx_buffer_size en \<noteq> 0 \<and> rx_ubuf_head w \<noteq> rx_buffer_size en then Done (PReturn 0 w)
        else Done (PSpill w)))"

definition client_rx_parse :: "'e env \<Rightarrow> 'e wsi \<Rightarrow> u8 \<Rightarrow> 'e rx_parse outcome" where
  "client_rx_parse en w c =
     (case lws_rx_parse_state w of
        LWS_RXPS_NEW \<Rightarrow> Done (client_rx_new en w c)
      | LWS_RXPS_04_FRAME_HDR_LEN \<Rightarrow> Done (client_rx_hdr_len w c)
      | LWS_RXPS_04_FRAME_HDR_LEN16_2 \<Rightarrow>
          Done (PReturn 0 (set_rxps LWS_RXPS_04_FRAME_HDR_LEN16_1
            (w\<lparr>rx_packet_length := push_bit 8 (ucast c)\<rparr>)))
      | LWS_RXPS_04_FRAME_HDR_LEN16_1 \<Rightarrow> Done (client_len_done (len_or 0 c w))
      | LWS_RXPS_04_FRAME_HDR_LEN64_8 \<Rightarrow>
          if c AND 0x80 \<noteq> 0 then Done (PReturn (-1) w)
          else Done (PReturn 0 (set_rxps LWS_RXPS_04_FRAME_HDR_LEN64_7
            (w\<lparr>rx_packet_length := push_bit 56 (ucast c)\<rparr>)))
      | LWS_RXPS_04_FRAME_HDR_LEN64_7 \<Rightarrow>
          Done (PReturn 0 (set_rxps LWS_RXPS_04_FRAME_HDR_LEN64_6 (len_or 48 c w)))
      | LWS_RXPS_04_FRAME_HDR_LEN64_6 \<Rightarrow>
          Done (PReturn 0 (set_rxps LWS_RXPS_04_FRAME_HDR_LEN64_5 (len_or 40 c w)))
      | LWS_RXPS_04_FRAME_HDR_LEN64_5 \<Rightarrow>
          Done (PReturn 0 (set_rxps LWS_RXPS_04_FRAME_HDR_LEN64_4 (len_or 32 c w)))
      | LWS_RXPS_04_FRAME_HDR_LEN64_4 \<Rightarrow>
          Done (PReturn 0 (set_rxps LWS_RXPS_04_FRAME_HDR_LEN64_3 (len_or 24 c w)))
      | LWS_RXPS_04_FRAME_HDR_LEN64_3 \<Rightarrow>
          Done (PReturn 0 (set_rxps LWS_RXPS_04_FRAME_HDR_LEN64_2 (len_or 16 c w)))
      | LWS_RXPS_04_FRAME_HDR_LEN64_2 \<Rightarrow>
          Done (PReturn 0 (set_rxps LWS_RXPS_04_FRAME_HDR_LEN64_1 (len_or 8 c w)))
      | LWS_RXPS_04_FRAME_HDR_LEN64_1 \<Rightarrow> Done (client_len_done (len_or 0 c w))
      | LWS_RXPS_07_COLLECT_FRAME_KEY_1 \<Rightarrow>
          Done (PReturn 0 (set_rxps LWS_RXPS_07_COLLECT_FRAME_KEY_2 (rx_mask_byte 0 c w)))
      | LWS_RXPS_07_COLLECT_FRAME_KEY_2 \<Rightarrow>
          Done (PReturn 0 (set_rxps LWS_RXPS_07_COLLECT_FRAME_KEY_3 (rx_mask_byte 1 c w)))
      | LWS_RXPS_07_COLLECT_FRAME_KEY_3 \<Rightarrow>
          Done (PReturn 0 (set_rxps LWS_RXPS_07_COLLECT_FRAME_KEY_4 (rx_mask_byte 2 c w)))
      | LWS_RXPS_07_COLLECT_FRAME_KEY_4 \<Rightarrow>
          (let w = rx_mask_byte 3 c w in
           if rx_packet_length w \<noteq> 0 then Done (PReturn 0 (set_rxps LWS_RXPS_WS_FRAME_PAYLOAD w))
           else Done (PSpill (set_rxps LWS_RXPS_NEW w)))
      | LWS_RXPS_WS_FRAME_PAYLOAD \<Rightarrow> client_rx_payload en w c
      | _ \<Rightarrow> Done (PReturn 1 w))"

section \<open>Control frames\<close>

definition client_close_code_bad :: "nat \<Rightarrow> bool" where
  "client_close_code_bad code \<longleftrightarrow>
     code < 1000 \<or> code = 1004 \<or> code = 1005 \<or> code = 1006 \<or> (code \<ge> 1016 \<and> code < 3000)"

text \<open>\<open>pp[0]\<close> and \<open>pp[1]\<close> replaced by the protocol error status when the code is not acceptable.\<close>

definition rx_close_code :: "'e wsi \<Rightarrow> nat" where
  "rx_close_code w = unat (rx_ubuf w ! 0) * 256 + unat (rx_ubuf w ! 1)"

definition rx_close_sanitize :: "(nat \<Rightarrow> bool) \<Rightarrow> 'e wsi \<Rightarrow> 'e wsi outcome" where
  "rx_close_sanitize bad w =
     (if rx_ubuf_head w < 2 then Done w
      else if length (rx_ubuf w) < 2 then Fault
      else if bad (rx_close_code w)
           then Done (w\<lparr>rx_ubuf := (rx_ubuf w)[0 := of_nat (LWS_CLOSE_STATUS_PROTOCOL_ERR div 256),
                                               1 := of_nat (LWS_CLOSE_STATUS_PROTOCOL_ERR mod 256)]\<rparr>)
           else Done w)"

text \<open>The check of the reason text of a close frame: true when it fails.\<close>

definition rx_close_utf8 :: "'e env \<Rightarrow> 'e wsi \<Rightarrow> (bool \<times> 'e wsi) outcome" where
  "rx_close_utf8 en w =
     (if opt_validate_utf8 en \<and> 2 < rx_ubuf_head w then
        bind_outcome (mem_load (rx_ubuf w) 2 (rx_ubuf_head w - 2)) (\<lambda>bs. Done (check_utf8_in w bs))
      else Done (False, w))"

definition client_rx_close :: "'e env \<Rightarrow> 'e wsi \<Rightarrow> (int \<times> 'e wsi) outcome" where
  "client_rx_close en w =
     bind_outcome (rx_close_utf8 en w) (\<lambda>(bad, w).
     if bad then Done (-1, w)
     else if wsi_state w = LRS_AWAITING_CLOSE_ACK then Done (-1, w)
     else bind_outcome (rx_close_sanitize client_close_code_bad w) (\<lambda>w.
     bind_outcome (mem_load (rx_ubuf w) 0 (rx_ubuf_head w)) (\<lambda>pp.
     bind_outcome (user_callback_handle_rxflow en w LWS_CALLBACK_WS_PEER_INITIATED_CLOSE pp) (\<lambda>(r, w).
     if r \<noteq> 0 then Done (-1, w)
     else bind_outcome (mem_store (ping_payload_buf w) 0 pp) (\<lambda>pb.
       let w = w\<lparr>ping_payload_buf := pb, close_in_ping_buffer_len := of_nat (rx_ubuf_head w)\<rparr>;
           (_, w) = change_pollfd_log en w LWS_POLLIN 0;
           w = log_event (EvTimeout PENDING_TIMEOUT_CLOSE_SEND 3) w;
           w = w\<lparr>waiting_to_send_close_frame := True, close_needs_ack := False,
                 wsi_state := LRS_WAITING_TO_SEND_CLOSE\<rparr>;
           w = log_event EvWritable w
       in Done (0, w\<lparr>rx_ubuf_head := 0\<rparr>))))))"

text \<open>Stash the payload for the pong, the tail of the ping case.\<close>

definition rx_stash_pong :: "'e wsi \<Rightarrow> 'e wsi outcome" where
  "rx_stash_pong w =
     (if rx_ubuf_head w > 128 - 3 then Done (w\<lparr>rx_ubuf_head := 0\<rparr>)
      else bind_outcome (mem_load (rx_ubuf w) 0 (rx_ubuf_head w)) (\<lambda>pl.
        bind_outcome (mem_store (pong_payload_buf w) 0 pl) (\<lambda>pb.
          let w = w\<lparr>pong_payload_buf := pb, pong_payload_len := of_nat (rx_ubuf_head w),
                    pong_pending_flag := True\<rparr>;
              w = log_event EvWritable w
          in Done (w\<lparr>rx_ubuf_head := 0\<rparr>))))"

definition client_rx_ping :: "'e wsi \<Rightarrow> (int \<times> 'e wsi) outcome" where
  "client_rx_ping w =
     (if close_in_ping_buffer_len w \<noteq> 0 \<or> pong_pending_flag w then Done (0, w\<lparr>rx_ubuf_head := 0\<rparr>)
      else bind_outcome (rx_stash_pong w) (\<lambda>w. Done (0, w)))"

section \<open>Passing payload on\<close>

text \<open>The UTF-8 step of the loop: true when the connection must be dropped.\<close>

definition client_rx_utf8 ::
  "int \<Rightarrow> 'e wsi \<Rightarrow> lws_ext_pm_deflate_rx_ebufs \<Rightarrow> (bool \<times> 'e wsi) outcome" where
  "client_rx_utf8 n w p =
     (if \<not> (check_utf8 w \<and> \<not> defeat_check_utf8 w) then Done (False, w)
      else bind_outcome (token_load w (eb_out p)) (\<lambda>bs.
        let (bad, w) = check_utf8_in w bs in
        if bad then
          Done (True, lws_close_reason LWS_CLOSE_STATUS_INVALID_PAYLOAD (Some (bytes_of_string ''bad utf8'')) w)
        else if rx_packet_length w = 0 \<and> ws_final w \<and> utf8 w \<noteq> 0 \<and> (n = PMDR_EMPTY_FINAL \<or> n = PMDR_UNKNOWN)
        then
          Done (True, lws_close_reason LWS_CLOSE_STATUS_INVALID_PAYLOAD (Some (bytes_of_string ''partial utf8'')) w)
        else Done (False, w)))"

definition rx_mark_draining :: "int \<Rightarrow> 'e wsi \<Rightarrow> 'e wsi" where
  "rx_mark_draining n w =
     (if n = PMDR_HAS_PENDING then lws_add_wsi_to_draining_ext_list w
      else lws_remove_wsi_from_draining_ext_list w)"

definition client_rx_deliver ::
  "'e env \<Rightarrow> lws_callback_reason \<Rightarrow> int \<Rightarrow> bool \<Rightarrow> lws_ext_pm_deflate_rx_ebufs \<Rightarrow> 'e wsi \<Rightarrow>
   'e rx_iter outcome" where
  "client_rx_deliver en act n draining p w =
     (if tok_len (eb_out p) < 0 \<and> act \<noteq> LWS_CALLBACK_CLIENT_RECEIVE_PONG then Done (IterLeave w)
      else if tok (eb_out p) = TNull then Done (IterLeave w)
      else bind_outcome (token_nul w (eb_out p)) (\<lambda>(w, out).
      let p = p\<lparr>eb_out := out\<rparr> in
      if \<not> has_callback en then Done (IterLeave w)
      else let w = rx_mark_draining n w in
      if wsi_state w = LRS_RETURNED_CLOSE \<or> wsi_state w = LRS_WAITING_TO_SEND_CLOSE \<or>
         wsi_state w = LRS_AWAITING_CLOSE_ACK then Done (IterLeave w)
      else
        let p = (if n = PMDR_DID_NOTHING \<or> n = PMDR_UNKNOWN
                 then p\<lparr>eb_in := (eb_in p)\<lparr>tok_len := tok_len (eb_in p) - tok_len (eb_out p)\<rparr>\<rparr> else p) in
        bind_outcome (token_load w (eb_out p)) (\<lambda>data.
        bind_outcome (protocol_callback en w act data) (\<lambda>(m, w).
          let w = w\<lparr>first_fragment := False\<rparr> in
          if m \<noteq> 0 then Done (IterReturn 1 w) else Done (IterNext p draining w)))))"

definition client_rx_iter ::
  "'e env \<Rightarrow> lws_callback_reason \<Rightarrow> lws_ext_pm_deflate_rx_ebufs \<Rightarrow> bool \<Rightarrow> 'e wsi \<Rightarrow> 'e rx_iter outcome" where
  "client_rx_iter en act p draining w =
     (let (n, w, p) = lws_ext_cb_active en w LWS_EXT_CB_PAYLOAD_RX p 0 in
      if n < 0 then Done (IterReturn (-1) (w\<lparr>socket_is_permanently_unusable := True\<rparr>))
      else if n = PMDR_DID_NOTHING then Done (IterLeave w)
      else if draining \<and> tok_len (eb_out p) = 0 then Done (IterLeave w)
      else let w = rx_mark_draining n w; draining = rx_draining_ext w in
        bind_outcome (client_rx_utf8 n w p) (\<lambda>(bad, w).
        if bad then Done (IterReturn (-1) w) else client_rx_deliver en act n draining p w))"

partial_function (option) client_rx_loop ::
  "'e env \<Rightarrow> lws_callback_reason \<Rightarrow> lws_ext_pm_deflate_rx_ebufs \<Rightarrow> bool \<Rightarrow> 'e wsi \<Rightarrow>
   (int \<times> 'e wsi) outcome option" where
  "client_rx_loop en act p draining w =
     (case client_rx_iter en act p draining w of
        Fault \<Rightarrow> Some Fault
      | Done (IterReturn r w') \<Rightarrow> Some (Done (r, w'))
      | Done (IterLeave w') \<Rightarrow> Some (Done (0, w'\<lparr>rx_ubuf_head := 0\<rparr>))
      | Done (IterNext p' draining' w') \<Rightarrow>
          if tok_len (eb_in p') \<noteq> 0 \<or> draining' then client_rx_loop en act p' draining' w'
          else Some (Done (0, w'\<lparr>rx_ubuf_head := 0\<rparr>)))"

section \<open>The state machine\<close>

text \<open>\<open>rx_ubuf_head\<close> stays below the size of the frame buffer, which is allocated with an \<open>int\<close>: the conversion of its value
  to \<open>int\<close> is exact.\<close>

definition rx_ebufs :: "'e wsi \<Rightarrow> lws_ext_pm_deflate_rx_ebufs" where
  "rx_ebufs w = (let t = \<lparr>tok = TUbuf, tok_len = int (rx_ubuf_head w)\<rparr> in \<lparr>eb_in = t, eb_out = t\<rparr>)"

definition client_rx_spill :: "'e env \<Rightarrow> 'e wsi \<Rightarrow> (int \<times> 'e wsi) outcome option" where
  "client_rx_spill en w =
     (if opcode w = LWSWSOPC_CLOSE then Some (client_rx_close en w)
      else if opcode w = LWSWSOPC_PING then Some (client_rx_ping w)
      else if opcode w = LWSWSOPC_PONG then
        client_rx_loop en LWS_CALLBACK_CLIENT_RECEIVE_PONG (rx_ebufs w) False (log_event EvValidity w)
      else if opcode w = LWSWSOPC_CONTINUATION \<or> opcode w = LWSWSOPC_TEXT_FRAME \<or>
              opcode w = LWSWSOPC_BINARY_FRAME then
        client_rx_loop en LWS_CALLBACK_CLIENT_RECEIVE (rx_ebufs w) False w
      else Some (Done (-1, w\<lparr>rx_ubuf_head := 0\<rparr>)))"

definition lws_ws_client_rx_sm :: "'e env \<Rightarrow> 'e wsi \<Rightarrow> u8 \<Rightarrow> (int \<times> 'e wsi) outcome option" where
  "lws_ws_client_rx_sm en w c =
     (if rx_draining_ext w then
        (if c \<noteq> 0 then Some Fault
         else client_rx_loop en LWS_CALLBACK_CLIENT_RECEIVE ebufs_null True
                (lws_remove_wsi_from_draining_ext_list w))
      else case client_rx_parse en w c of
        Fault \<Rightarrow> Some Fault
      | Done (PReturn r w') \<Rightarrow> Some (Done (r, w'))
      | Done (PSpill w') \<Rightarrow> client_rx_spill en w'
      | Done (PDrain w') \<Rightarrow> client_rx_loop en LWS_CALLBACK_CLIENT_RECEIVE ebufs_null False w')"

section \<open>Invariant\<close>

definition client_rx_inv :: "'e env \<Rightarrow> 'e wsi \<Rightarrow> bool" where
  "client_rx_inv en w \<longleftrightarrow> rx_bufs_ok en w \<and>
     (case lws_rx_parse_state w of
        LWS_RXPS_WS_FRAME_PAYLOAD \<Rightarrow>
          rx_ubuf_head w < rx_size en \<and> rx_packet_length w \<noteq> 0 \<and>
          (opcode w AND 8 \<noteq> 0 \<longrightarrow> rx_ubuf_head w + unat (rx_packet_length w) \<le> 125)
      | LWS_RXPS_NEW \<Rightarrow> rx_ubuf_head w = 0
      | LWS_RXPS_04_FRAME_HDR_LEN \<Rightarrow> rx_ubuf_head w = 0
      | _ \<Rightarrow> rx_ubuf_head w = 0 \<and> opcode w AND 8 = 0)"

text \<open>What holds when collected payload is spilled, and what a spill keeps.\<close>

definition rx_spill_pre :: "'e env \<Rightarrow> 'e wsi \<Rightarrow> bool" where
  "rx_spill_pre en w \<longleftrightarrow> rx_bufs_ok en w \<and> rx_ubuf_head w \<le> rx_size en \<and>
     (opcode w AND 8 \<noteq> 0 \<longrightarrow> rx_ubuf_head w + unat (rx_packet_length w) \<le> 125) \<and>
     (lws_rx_parse_state w = LWS_RXPS_NEW \<or>
      lws_rx_parse_state w = LWS_RXPS_WS_FRAME_PAYLOAD \<and> rx_packet_length w \<noteq> 0)"

definition rx_same :: "'e wsi \<Rightarrow> 'e wsi \<Rightarrow> bool" where
  "rx_same w w' \<longleftrightarrow> lws_rx_parse_state w' = lws_rx_parse_state w \<and> opcode w' = opcode w \<and>
     rx_packet_length w' = rx_packet_length w"

lemma rx_same_frame: "rx_frame w' = rx_frame w \<Longrightarrow> rx_same w w'"
  unfolding rx_same_def by (simp add: rx_frame_fields(1,5,6) [of w' w])

lemma rx_same_trans: "rx_same w1 w2 \<Longrightarrow> rx_same w2 w3 \<Longrightarrow> rx_same w1 w3"
  by (simp add: rx_same_def)

lemma spill_reestablishes:
  assumes "rx_spill_pre en w" and "rx_bufs_ok en w'" and "rx_same w w'" and "rx_ubuf_head w' = 0"
  shows "client_rx_inv en w'"
  using assms by (auto simp: client_rx_inv_def rx_spill_pre_def rx_same_def rx_bufs_ok_def)

subsection \<open>Header bytes\<close>

lemma hdr_len7:
  assumes "c AND 0x7f \<noteq> (126 :: u8)" and "c AND 0x7f \<noteq> 127"
  shows "unat (ucast (c AND 0x7f) :: u64) \<le> 125"
proof -
  have "c AND 0x7f \<le> 0x7f" by (rule word_and_le1)
  then have "unat (c AND 0x7f) \<le> 127" by (simp add: u8_cases_le)
  moreover have "unat (c AND 0x7f) \<noteq> 126" "unat (c AND 0x7f) \<noteq> 127"
    using assms by (simp_all add: u8_eq_iff)
  ultimately show ?thesis by (simp add: unsigned_ucast_eq take_bit_nat_eq_self)
qed

lemma client_rx_opcode_ok:
  assumes "rx_bufs_ok en w" and "client_rx_opcode en w c = (legal, w')"
  shows "rx_bufs_ok en w' \<and> rx_ubuf_head w' = rx_ubuf_head w"
proof -
  have "rx_bufs_ok en (snd (client_rx_opcode en w c)) \<and>
      rx_ubuf_head (snd (client_rx_opcode en w c)) = rx_ubuf_head w"
    using assms(1) by (simp add: client_rx_opcode_def)
  then show ?thesis using assms(2) by simp
qed

lemma client_rx_new_ok:
  assumes "rx_bufs_ok en w" and "rx_ubuf_head w = 0" and "lws_rx_parse_state w = LWS_RXPS_NEW"
  shows "\<exists>r w'. client_rx_new en w c = PReturn r w' \<and> (r = 0 \<longrightarrow> client_rx_inv en w')"
proof (cases "ietf_spec_revision w = 13")
  case True
  obtain legal w1 where op: "client_rx_opcode en (w\<lparr>defeat_check_utf8 := False, opcode := c AND 0xf\<rparr>) c = (legal, w1)"
    by (cases "client_rx_opcode en (w\<lparr>defeat_check_utf8 := False, opcode := c AND 0xf\<rparr>) c")
  then have "rx_bufs_ok en w1" "rx_ubuf_head w1 = 0"
    using client_rx_opcode_ok [OF _ op] assms(1,2) by simp_all
  then show ?thesis using True op
    by (simp add: client_rx_new_def Let_def client_rx_inv_def)
qed (simp add: client_rx_new_def client_rx_inv_def assms)

definition client_parse_ok :: "'e env \<Rightarrow> 'e rx_parse \<Rightarrow> bool" where
  "client_parse_ok en p \<longleftrightarrow>
     (case p of PReturn r w \<Rightarrow> r = 0 \<longrightarrow> client_rx_inv en w | PSpill w \<Rightarrow> rx_spill_pre en w
      | PDrain w \<Rightarrow> False)"

lemma client_parse_ok_simps [simp]:
  "client_parse_ok en (PReturn r w) \<longleftrightarrow> (r = 0 \<longrightarrow> client_rx_inv en w)"
  "client_parse_ok en (PSpill w) \<longleftrightarrow> rx_spill_pre en w" "\<not> client_parse_ok en (PDrain w)"
  by (simp_all add: client_parse_ok_def)

lemma client_len_done_ok:
  assumes "rx_bufs_ok en w" and "rx_ubuf_head w = 0" and "this_frame_masked w \<longrightarrow> opcode w AND 8 = 0"
    and "opcode w AND 8 \<noteq> 0 \<longrightarrow> unat (rx_packet_length w) \<le> 125"
  shows "client_parse_ok en (client_len_done w)"
proof -
  have "0 < rx_size en" using assms(1) by (simp add: rx_bufs_ok_def)
  then show ?thesis using assms
    by (simp add: client_len_done_def client_rx_inv_def rx_spill_pre_def)
qed

lemma client_rx_hdr_len_ok:
  assumes "rx_bufs_ok en w" and "rx_ubuf_head w = 0"
  shows "client_parse_ok en (client_rx_hdr_len w c)"
proof (cases "c AND 0x80 = 0 \<and> c AND 0x7f \<noteq> 126 \<and> c AND 0x7f \<noteq> 127")
  case True
  then have "client_rx_hdr_len w c =
      client_len_done (w\<lparr>this_frame_masked := False, rx_packet_length := ucast (c AND 0x7f)\<rparr>)"
    by (simp add: client_rx_hdr_len_def Let_def)
  then show ?thesis
    using client_len_done_ok [of en "w\<lparr>this_frame_masked := False, rx_packet_length := ucast (c AND 0x7f)\<rparr>"]
      hdr_len7 [of c] assms True by simp
next
  case False
  then show ?thesis using assms
    by (auto simp: client_rx_hdr_len_def Let_def client_rx_inv_def)
qed

lemma rx_mask_byte_simps [simp]:
  "rx_bufs_ok en w \<Longrightarrow> rx_bufs_ok en (rx_mask_byte i c w)"
  "rx_ubuf_head (rx_mask_byte i c w) = rx_ubuf_head w" "opcode (rx_mask_byte i c w) = opcode w"
  "rx_packet_length (rx_mask_byte i c w) = rx_packet_length w"
  by (simp_all add: rx_mask_byte_def Let_def) (simp add: rx_bufs_ok_def svc_ok_def)

lemma len_or_simps [simp]:
  "rx_bufs_ok en (len_or k c w) = rx_bufs_ok en w" "rx_ubuf_head (len_or k c w) = rx_ubuf_head w"
  "opcode (len_or k c w) = opcode w" "this_frame_masked (len_or k c w) = this_frame_masked w"
  by (simp_all add: len_or_def)

lemma client_rx_payload_ok:
  assumes "rx_bufs_ok en w" and "rx_ubuf_head w < rx_size en" and "rx_packet_length w \<noteq> 0"
    and "opcode w AND 8 \<noteq> 0 \<longrightarrow> rx_ubuf_head w + unat (rx_packet_length w) \<le> 125"
    and "lws_rx_parse_state w = LWS_RXPS_WS_FRAME_PAYLOAD"
  shows "\<exists>p. client_rx_payload en w c = Done p \<and> client_parse_ok en p"
proof -
  define cw where "cw = (if this_frame_masked w \<and> \<not> all_zero_nonce w
      then (c XOR mask w ! unat (mask_idx w AND 3), w\<lparr>mask_idx := mask_idx w + 1\<rparr>) else (c, w))"
  let ?c = "fst cw" and ?w = "snd cw"
  have cw: "rx_bufs_ok en ?w" "rx_ubuf_head ?w = rx_ubuf_head w" "rx_ubuf ?w = rx_ubuf w" "opcode ?w = opcode w"
    "rx_packet_length ?w = rx_packet_length w" "lws_rx_parse_state ?w = LWS_RXPS_WS_FRAME_PAYLOAD"
    using assms(1,5) by (simp_all add: cw_def)
  have ub: "rx_ubuf w \<noteq> []" "rx_ubuf_head w < length (rx_ubuf w)" "\<not> rx_draining_ext w"
    using assms(1,2) by (auto simp: rx_bufs_ok_def)
  have len: "unat (rx_packet_length w - 1) = unat (rx_packet_length w) - 1"
    using assms(3) by (rule unat_minus_one)
  have pos: "0 < unat (rx_packet_length w)" using assms(3) unat_gt_0 by blast
  have size: "rx_size en = (if rx_buffer_size en = 0 then pt_serv_buf_size en else rx_buffer_size en)"
    by (rule rx_size_def)
  let ?w' = "?w\<lparr>rx_ubuf := (rx_ubuf w)[rx_ubuf_head w := ?c], rx_ubuf_head := Suc (rx_ubuf_head w),
      rx_packet_length := rx_packet_length w - 1\<rparr>"
  have "client_rx_payload en w c =
      (if rx_packet_length w - 1 = 0 then Done (PSpill (set_rxps LWS_RXPS_NEW ?w'))
       else if Suc (rx_ubuf_head w) \<noteq> rx_size en then Done (PReturn 0 ?w') else Done (PSpill ?w'))"
    using ub cw unfolding client_rx_payload_def cw_def [symmetric] size
    by (auto simp: case_prod_beta mem_store_one Let_def)
  moreover have "rx_bufs_ok en ?w'" using cw(1,3) by simp
  ultimately show ?thesis using assms(2,4) cw len pos
    by (auto simp: client_rx_inv_def rx_spill_pre_def)
qed

lemma client_rx_parse_ok:
  assumes "client_rx_inv en w"
  shows "\<exists>p. client_rx_parse en w c = Done p \<and> client_parse_ok en p"
proof (cases "lws_rx_parse_state w")
  case LWS_RXPS_NEW
  then obtain r w' where "client_rx_new en w c = PReturn r w'" "r = 0 \<longrightarrow> client_rx_inv en w'"
    using client_rx_new_ok [of en w c] assms by (auto simp: client_rx_inv_def)
  then show ?thesis using LWS_RXPS_NEW by (simp add: client_rx_parse_def)
next
  case LWS_RXPS_04_FRAME_HDR_LEN
  then show ?thesis using client_rx_hdr_len_ok [of en w c] assms
    by (simp add: client_rx_parse_def client_rx_inv_def)
next
  case LWS_RXPS_WS_FRAME_PAYLOAD
  then show ?thesis using client_rx_payload_ok [of en w c] assms
    by (simp add: client_rx_parse_def client_rx_inv_def)
next
  case LWS_RXPS_04_FRAME_HDR_LEN16_1
  then show ?thesis using client_len_done_ok [of en "len_or 0 c w"] assms
    by (simp add: client_rx_parse_def client_rx_inv_def)
next
  case LWS_RXPS_04_FRAME_HDR_LEN64_1
  then show ?thesis using client_len_done_ok [of en "len_or 0 c w"] assms
    by (simp add: client_rx_parse_def client_rx_inv_def)
next
  case LWS_RXPS_07_COLLECT_FRAME_KEY_4
  moreover have "0 < rx_size en" using assms by (simp add: client_rx_inv_def rx_bufs_ok_def)
  ultimately show ?thesis using assms
    by (simp add: client_rx_parse_def client_rx_inv_def rx_spill_pre_def Let_def)
qed (use assms in \<open>simp_all add: client_rx_parse_def client_rx_inv_def\<close>)

subsection \<open>Delivery without extensions\<close>

lemma mark_draining_none: "\<not> rx_draining_ext w \<Longrightarrow> n \<noteq> PMDR_HAS_PENDING \<Longrightarrow> rx_mark_draining n w = w"
  by (simp add: rx_mark_draining_def lws_remove_wsi_from_draining_ext_list_def)

lemma rx_ebufs_load:
  assumes "rx_bufs_ok en w" and "rx_ubuf_head w \<le> rx_size en"
  shows "token_load w (eb_out (rx_ebufs w)) = Done (take (rx_ubuf_head w) (rx_ubuf w))"
  using assms by (simp add: token_load_def rx_ebufs_def Let_def mem_load_def rx_bufs_ok_def)

lemma rx_ebufs_nul:
  assumes "rx_bufs_ok en w" and "rx_ubuf_head w \<le> rx_size en"
  shows "token_nul w (eb_out (rx_ebufs w)) =
    Done (w\<lparr>rx_ubuf := (rx_ubuf w)[rx_ubuf_head w := 0]\<rparr>, eb_out (rx_ebufs w))"
  using assms by (simp add: token_nul_def rx_ebufs_def Let_def mem_store_one rx_bufs_ok_def)

text \<open>What one pass of the loop does to the payload collected, with no extension negotiated: the check
  of its text, then one callback with all of it.\<close>

definition client_deliver_payload :: "'e env \<Rightarrow> lws_callback_reason \<Rightarrow> 'e wsi \<Rightarrow> (int \<times> 'e wsi) outcome" where
  "client_deliver_payload en act w =
     (if wsi_state w = LRS_RETURNED_CLOSE \<or> wsi_state w = LRS_WAITING_TO_SEND_CLOSE \<or>
         wsi_state w = LRS_AWAITING_CLOSE_ACK
      then Done (0, w\<lparr>rx_ubuf := (rx_ubuf w)[rx_ubuf_head w := 0], rx_ubuf_head := 0\<rparr>)
      else bind_outcome
        (protocol_callback en (w\<lparr>rx_ubuf := (rx_ubuf w)[rx_ubuf_head w := 0]\<rparr>) act
           (take (rx_ubuf_head w) (rx_ubuf w)))
        (\<lambda>(m, w). if m \<noteq> 0 then Done (1, w\<lparr>first_fragment := False\<rparr>)
                 else Done (0, w\<lparr>first_fragment := False, rx_ubuf_head := 0\<rparr>)))"

lemma rx_ebufs_simps [simp]:
  "tok_len (eb_out (rx_ebufs w)) = int (rx_ubuf_head w)" "tok_len (eb_in (rx_ebufs w)) = int (rx_ubuf_head w)"
  "tok (eb_out (rx_ebufs w)) = TUbuf"
  by (simp_all add: rx_ebufs_def Let_def)

lemma client_rx_deliver_plain:
  assumes "rx_bufs_ok en w" and "rx_ubuf_head w \<le> rx_size en" and "has_callback en"
  shows "(case client_rx_deliver en act PMDR_UNKNOWN False (rx_ebufs w) w of
        Fault \<Rightarrow> Some Fault
      | Done (IterReturn r w') \<Rightarrow> Some (Done (r, w'))
      | Done (IterLeave w') \<Rightarrow> Some (Done (0, w'\<lparr>rx_ubuf_head := 0\<rparr>))
      | Done (IterNext p' draining' w') \<Rightarrow>
          if tok_len (eb_in p') \<noteq> 0 \<or> draining' then client_rx_loop en act p' draining' w'
          else Some (Done (0, w'\<lparr>rx_ubuf_head := 0\<rparr>))) = Some (client_deliver_payload en act w)"
proof -
  let ?w = "w\<lparr>rx_ubuf := (rx_ubuf w)[rx_ubuf_head w := 0]\<rparr>"
  have nd: "\<not> rx_draining_ext w" using assms(1) by (simp add: rx_bufs_ok_def)
  have ok: "rx_bufs_ok en ?w" using assms(1) by simp
  have "rx_ebufs ?w = rx_ebufs w" by (simp add: rx_ebufs_def)
  then have ld: "token_load ?w (eb_out (rx_ebufs w)) = Done (take (rx_ubuf_head w) (rx_ubuf w))"
    using rx_ebufs_load [OF ok] assms(2) by simp
  obtain m where m: "protocol_callback en ?w act (take (rx_ubuf_head w) (rx_ubuf w)) = m" by blast
  show ?thesis using nd ld assms(3) rx_ebufs_nul [OF assms(1,2)] m
    by (cases m)
      (auto simp: client_rx_deliver_def client_deliver_payload_def mark_draining_none Let_def)
qed

text \<open>The payload check of a text message.\<close>

definition client_text_check :: "'e wsi \<Rightarrow> bool \<times> 'e wsi" where
  "client_text_check w =
     (if \<not> (check_utf8 w \<and> \<not> defeat_check_utf8 w) then (False, w)
      else case check_utf8_loop (utf8 w) (take (rx_ubuf_head w) (rx_ubuf w)) of
        None \<Rightarrow> (True, lws_close_reason LWS_CLOSE_STATUS_INVALID_PAYLOAD (Some (bytes_of_string ''bad utf8'')) w)
      | Some st \<Rightarrow>
          if rx_packet_length w = 0 \<and> ws_final w \<and> st \<noteq> 0
          then (True, lws_close_reason LWS_CLOSE_STATUS_INVALID_PAYLOAD
                        (Some (bytes_of_string ''partial utf8'')) (w\<lparr>utf8 := st\<rparr>))
          else (False, w\<lparr>utf8 := st\<rparr>))"

lemma client_rx_utf8_plain:
  assumes "rx_bufs_ok en w" and "rx_ubuf_head w \<le> rx_size en"
  shows "client_rx_utf8 PMDR_UNKNOWN w (rx_ebufs w) = Done (client_text_check w)"
  using rx_ebufs_load [OF assms]
  by (simp add: client_rx_utf8_def client_text_check_def check_utf8_in_def lws_check_utf8_def Let_def
      split: option.splits)

lemma client_rx_loop_plain:
  assumes "rx_bufs_ok en w" and "rx_ubuf_head w \<le> rx_size en" and "has_callback en"
  shows "client_rx_loop en act (rx_ebufs w) False w =
    Some (let (bad, w) = client_text_check w in
          if bad then Done (-1, w) else client_deliver_payload en act w)"
proof -
  have ext: "lws_ext_cb_active en w LWS_EXT_CB_PAYLOAD_RX (rx_ebufs w) 0 = (0, w, rx_ebufs w)"
    and nd: "\<not> rx_draining_ext w" using assms(1) by (simp_all add: rx_bufs_ok_def)
  obtain bad w1 where c: "client_text_check w = (bad, w1)" by (cases "client_text_check w")
  have it: "client_rx_iter en act (rx_ebufs w) False w =
    (if bad then Done (IterReturn (-1) w1) else client_rx_deliver en act 0 False (rx_ebufs w) w1)"
    using nd client_rx_utf8_plain [OF assms(1,2)] c
    by (simp add: client_rx_iter_def ext mark_draining_none)
  show ?thesis
  proof (cases bad)
    case False
    then obtain st where w1: "w1 = w \<or> w1 = w\<lparr>utf8 := st\<rparr> \<and> utf8_state st"
      using c check_utf8_loop_state [of "utf8 w"] assms(1)
      by (auto simp: client_text_check_def rx_bufs_ok_def split: if_splits option.splits)
    then have "rx_bufs_ok en w1" "rx_ubuf_head w1 \<le> rx_size en" "rx_ebufs w1 = rx_ebufs w"
      using assms(1,2) by (auto simp: rx_ebufs_def)
    then show ?thesis using client_rx_deliver_plain [of en w1 act] assms(3) False it c
      by (simp add: client_rx_loop.simps [of en act "rx_ebufs w"])
  qed (simp add: client_rx_loop.simps [of en act "rx_ebufs w"] it c)
qed

subsection \<open>Safety\<close>

definition client_res_ok :: "'e env \<Rightarrow> (int \<times> 'e wsi) outcome \<Rightarrow> bool" where
  "client_res_ok en m \<longleftrightarrow> (\<exists>r w. m = Done (r, w) \<and> (r = 0 \<longrightarrow> client_rx_inv en w))"

lemma client_res_ok_Done [simp]: "client_res_ok en (Done (r, w)) \<longleftrightarrow> (r = 0 \<longrightarrow> client_rx_inv en w)"
  by (simp add: client_res_ok_def)

lemma rx_same_updates [simp]:
  "rx_same w (w'\<lparr>rx_ubuf_head := a\<rparr>) = rx_same w w'" "rx_same w (w'\<lparr>first_fragment := b\<rparr>) = rx_same w w'"
  "rx_same w (w'\<lparr>rx_ubuf := c\<rparr>) = rx_same w w'" "rx_same w (w'\<lparr>utf8 := d\<rparr>) = rx_same w w'" "rx_same w w"
  "rx_same w (log_event e w') = rx_same w w'"
  by (simp_all add: rx_same_def log_event_def)

lemma rx_spill_pre_same:
  assumes "rx_spill_pre en w" and "rx_bufs_ok en w'" and "rx_same w w'" and "rx_ubuf_head w' = rx_ubuf_head w"
  shows "rx_spill_pre en w'"
  using assms by (simp add: rx_spill_pre_def rx_same_def)

lemma client_deliver_payload_ok:
  assumes pre: "rx_spill_pre en w" and cb: "has_callback en"
  shows "client_res_ok en (client_deliver_payload en act w)"
proof -
  let ?w = "w\<lparr>rx_ubuf := (rx_ubuf w)[rx_ubuf_head w := 0]\<rparr>"
  have ok: "rx_bufs_ok en ?w" using pre by (simp add: rx_spill_pre_def)
  have "svc_keeps ?w (protocol_callback en ?w act (take (rx_ubuf_head w) (rx_ubuf w)))"
    using ok cb by (intro protocol_callback_ok rx_bufs_ok_svc)
  then obtain m w1 where w1: "protocol_callback en ?w act (take (rx_ubuf_head w) (rx_ubuf w)) = Done (m, w1)"
    "rx_frame w1 = rx_frame ?w" "svc_ok w1" by (rule svc_keepsE)
  have "rx_bufs_ok en w1" using w1(2,3) ok by (rule rx_bufs_ok_frame)
  moreover have "rx_same w w1" using rx_same_frame [OF w1(2)] by (simp add: rx_same_def)
  ultimately show ?thesis
    using w1(1) ok spill_reestablishes [OF pre] by (simp add: client_deliver_payload_def)
qed

lemma client_text_check_ok:
  assumes "rx_spill_pre en w" and "client_text_check w = (False, w')"
  shows "rx_spill_pre en w'"
proof -
  have "utf8_state (utf8 w)" using assms(1) by (simp add: rx_spill_pre_def rx_bufs_ok_def)
  then have "rx_bufs_ok en w'" "rx_same w w'" "rx_ubuf_head w' = rx_ubuf_head w"
    using assms check_utf8_loop_state [of "utf8 w"]
    by (auto simp: client_text_check_def rx_spill_pre_def split: if_splits option.splits)
  with assms(1) show ?thesis by (rule rx_spill_pre_same)
qed

lemma client_rx_loop_ok:
  assumes pre: "rx_spill_pre en w" and cb: "has_callback en"
  shows "\<exists>m. client_rx_loop en act (rx_ebufs w) False w = Some m \<and> client_res_ok en m"
proof -
  obtain bad w1 where c: "client_text_check w = (bad, w1)" by (cases "client_text_check w")
  have "client_rx_loop en act (rx_ebufs w) False w =
      Some (if bad then Done (-1, w1) else client_deliver_payload en act w1)"
    using client_rx_loop_plain [of en w act] pre cb c by (simp add: rx_spill_pre_def)
  moreover have "\<not> bad \<Longrightarrow> client_res_ok en (client_deliver_payload en act w1)"
    using client_text_check_ok [OF pre] c cb by (auto intro: client_deliver_payload_ok)
  ultimately show ?thesis by simp
qed

lemma rx_stash_pong_ok:
  assumes "rx_spill_pre en w"
  shows "\<exists>w'. rx_stash_pong w = Done w' \<and> rx_bufs_ok en w' \<and> rx_same w w' \<and> rx_ubuf_head w' = 0"
proof (cases "rx_ubuf_head w > 128 - 3")
  case False
  from assms have ok: "rx_bufs_ok en w" and "rx_ubuf_head w \<le> rx_size en" by (simp_all add: rx_spill_pre_def)
  then have ld: "mem_load (rx_ubuf w) 0 (rx_ubuf_head w) = Done (take (rx_ubuf_head w) (rx_ubuf w))"
    "length (take (rx_ubuf_head w) (rx_ubuf w)) \<le> length (pong_payload_buf w)"
    using False by (simp_all add: mem_load_def rx_bufs_ok_def)
  obtain pb where "mem_store (pong_payload_buf w) 0 (take (rx_ubuf_head w) (rx_ubuf w)) = Done pb"
    "length pb = length (pong_payload_buf w)" 
    using mem_store_ok [of 0 "take (rx_ubuf_head w) (rx_ubuf w)" "pong_payload_buf w"] ld(2) by auto
  then show ?thesis using ld(1) False ok
    by (simp add: rx_stash_pong_def rx_same_def log_event_def rx_bufs_ok_def svc_ok_def)
qed (use assms in \<open>simp add: rx_stash_pong_def rx_spill_pre_def\<close>)

lemma client_rx_ping_ok:
  assumes "rx_spill_pre en w"
  shows "client_res_ok en (client_rx_ping w)"
  using rx_stash_pong_ok [OF assms] spill_reestablishes [OF assms] assms
  by (auto simp: client_rx_ping_def rx_spill_pre_def)

lemma rx_close_utf8_ok:
  assumes "rx_spill_pre en w"
  shows "\<exists>bad st. rx_close_utf8 en w = Done (bad, w\<lparr>utf8 := st\<rparr>) \<and> utf8_state st"
proof (cases "opt_validate_utf8 en \<and> 2 < rx_ubuf_head w")
  case True
  then have "mem_load (rx_ubuf w) 2 (rx_ubuf_head w - 2) = Done (take (rx_ubuf_head w - 2) (drop 2 (rx_ubuf w)))"
    using assms by (intro mem_load_ok) (auto simp: rx_spill_pre_def rx_bufs_ok_def)
  moreover obtain bad w' where c: "check_utf8_in w (take (rx_ubuf_head w - 2) (drop 2 (rx_ubuf w))) = (bad, w')"
    by (cases "check_utf8_in w (take (rx_ubuf_head w - 2) (drop 2 (rx_ubuf w)))")
  moreover have "\<exists>st. w' = w\<lparr>utf8 := st\<rparr> \<and> utf8_state st"
    using check_utf8_in_ok [OF _ c] assms by (simp add: rx_spill_pre_def rx_bufs_ok_def)
  ultimately show ?thesis using True by (auto simp: rx_close_utf8_def)
next
  case False
  then have "rx_close_utf8 en w = Done (False, w\<lparr>utf8 := utf8 w\<rparr>)" by (auto simp: rx_close_utf8_def)
  moreover have "utf8_state (utf8 w)" using assms by (simp add: rx_spill_pre_def rx_bufs_ok_def)
  ultimately show ?thesis by blast
qed

lemma rx_close_sanitize_ok:
  assumes "rx_bufs_ok en w" and "rx_ubuf_head w \<le> rx_size en"
  shows "\<exists>b. rx_close_sanitize bad w = Done (w\<lparr>rx_ubuf := b\<rparr>) \<and> length b = length (rx_ubuf w)"
proof -
  let ?new = "(rx_ubuf w)[0 := of_nat (LWS_CLOSE_STATUS_PROTOCOL_ERR div 256),
    1 := of_nat (LWS_CLOSE_STATUS_PROTOCOL_ERR mod 256)]"
  let ?b = "if 2 \<le> rx_ubuf_head w \<and> bad (rx_close_code w) then ?new else rx_ubuf w"
  have "length (rx_ubuf w) \<ge> 2" using assms(1) by (simp add: rx_bufs_ok_def)
  then have "rx_close_sanitize bad w = Done (w\<lparr>rx_ubuf := ?b\<rparr>)" by (simp add: rx_close_sanitize_def)
  moreover have "length ?b = length (rx_ubuf w)" by simp
  ultimately show ?thesis by blast
qed

lemma client_rx_close_ok:
  assumes pre: "rx_spill_pre en w" and op: "opcode w = LWSWSOPC_CLOSE" and cb: "has_callback en"
  shows "client_res_ok en (client_rx_close en w)"
proof -
  obtain bad st where u: "rx_close_utf8 en w = Done (bad, w\<lparr>utf8 := st\<rparr>)" "utf8_state st"
    using rx_close_utf8_ok [OF pre] by blast
  have ok: "rx_bufs_ok en (w\<lparr>utf8 := st\<rparr>)" and hd: "rx_ubuf_head w \<le> rx_size en" "rx_ubuf_head w \<le> 125"
    using pre u(2) op by (simp_all add: rx_spill_pre_def)
  obtain b where b: "rx_close_sanitize client_close_code_bad (w\<lparr>utf8 := st\<rparr>) = Done (w\<lparr>utf8 := st, rx_ubuf := b\<rparr>)"
    "length b = length (rx_ubuf w)" using rx_close_sanitize_ok [OF ok] hd(1) by auto
  let ?w = "w\<lparr>utf8 := st, rx_ubuf := b\<rparr>"
  let ?pp = "take (rx_ubuf_head w) b"
  have ok': "rx_bufs_ok en ?w" using ok b(2) by simp
  have ld: "mem_load b 0 (rx_ubuf_head w) = Done ?pp"
    using ok' hd by (simp add: mem_load_def rx_bufs_ok_def)
  have "svc_keeps ?w (user_callback_handle_rxflow en ?w LWS_CALLBACK_WS_PEER_INITIATED_CLOSE ?pp)"
    using ok' cb by (intro user_callback_handle_rxflow_ok rx_bufs_ok_svc)
  then obtain r w1 where w1: "user_callback_handle_rxflow en ?w LWS_CALLBACK_WS_PEER_INITIATED_CLOSE ?pp = Done (r, w1)"
    "rx_frame w1 = rx_frame ?w" "svc_ok w1" by (rule svc_keepsE)
  have ok1: "rx_bufs_ok en w1" using w1(2,3) ok' by (rule rx_bufs_ok_frame)
  have f1: "rx_ubuf_head w1 = rx_ubuf_head w" using rx_frame_fields(3) [OF w1(2)] by simp
  obtain pb where pb: "mem_store (ping_payload_buf w1) 0 ?pp = Done pb" "length pb = 125"
    using mem_store_ok [of 0 ?pp "ping_payload_buf w1"] hd w1(3)
    by (auto simp: svc_ok_def min.coboundedI2)
  let ?w2 = "w1\<lparr>ping_payload_buf := pb, close_in_ping_buffer_len := of_nat (rx_ubuf_head w)\<rparr>"
  have "unat (of_nat (rx_ubuf_head w) :: u8) \<le> 125" using hd(2) unat_of_nat_le le_trans by blast
  then have "rx_bufs_ok en ?w2" using ok1 pb(2) by (simp add: rx_bufs_ok_def svc_ok_def)
  moreover have "rx_same w ?w2" using rx_same_frame [OF w1(2)] by (simp add: rx_same_def)
  ultimately show ?thesis
    using u b ld w1(1) pb(1) f1 spill_reestablishes [OF pre]
    by (simp add: client_rx_close_def change_pollfd_log_def log_event_def rx_same_def Let_def)
qed

lemma client_rx_spill_ok:
  assumes pre: "rx_spill_pre en w" and cb: "has_callback en"
  shows "\<exists>m. client_rx_spill en w = Some m \<and> client_res_ok en m"
proof -
  let ?v = "log_event EvValidity w"
  have "rx_spill_pre en ?v" using pre by (rule rx_spill_pre_same) (use pre in \<open>simp_all add: rx_spill_pre_def rx_same_def log_event_def\<close>)
  moreover have "rx_ebufs ?v = rx_ebufs w" by (simp add: rx_ebufs_def log_event_def)
  ultimately have "\<exists>m. client_rx_loop en act (rx_ebufs w) False ?v = Some m \<and> client_res_ok en m" for act
    using client_rx_loop_ok [of en ?v act] cb by simp
  then show ?thesis
    using client_rx_close_ok [OF pre _ cb] client_rx_ping_ok [OF pre] client_rx_loop_ok [OF pre cb]
    by (simp add: client_rx_spill_def)
qed

text \<open>Whatever byte arrives, in any state the invariant allows and whatever the user's callback does, the call
  returns, without a fault; unless it asks for the connection to be dropped, the invariant holds again.\<close>

lemma lws_ws_client_rx_sm_safe:
  assumes "client_rx_inv en w" and "has_callback en"
  shows "\<exists>r w'. lws_ws_client_rx_sm en w c = Some (Done (r, w')) \<and> (r = 0 \<longrightarrow> client_rx_inv en w')"
proof -
  have nd: "\<not> rx_draining_ext w" using assms(1) by (simp add: client_rx_inv_def rx_bufs_ok_def)
  obtain p where "client_rx_parse en w c = Done p" "client_parse_ok en p"
    using client_rx_parse_ok [OF assms(1)] by blast
  then show ?thesis using nd client_rx_spill_ok [OF _ assms(2)]
    by (cases p) (force simp: lws_ws_client_rx_sm_def client_res_ok_def)+
qed

lemma client_established_inv:
  "0 < sz \<Longrightarrow> sz < 2 ^ 32 \<Longrightarrow> client_rx_inv (quiet_env v sz) (ws_established True sz :: 'e wsi)"
  using ws_established_bufs [of sz v True]
  by (simp add: client_rx_inv_def ws_established_def wsi_zalloc_def)

end
