(* ===== verification/Ws_Server_Rx.thy ===== *)
theory Ws_Server_Rx
  imports Ws_Client_Rx
begin

text \<open>
  The server's frame parser: \<open>lws_ws_rx_sm\<close> (\<open>roles/ws/ops-ws.c\<close>), which consumes one byte or deals with
  the end of a run of payload already consumed, \<open>lws_ws_frame_rest_is_payload\<close>, which unmasks and
  delivers payload in bulk, and \<open>lws_parse_ws\<close> (\<open>roles/ws/server-ws.c\<close>), which drives both over a buffer
  of received bytes.  \<open>None\<close> means the call never returns.
\<close>

section \<open>Frame header\<close>

text \<open>The opcode switch: false when the frame is refused.\<close>

definition server_rx_opcode :: "'e env \<Rightarrow> 'e wsi \<Rightarrow> u8 \<Rightarrow> bool \<times> 'e wsi" where
  "server_rx_opcode en w c =
     (if opcode w = LWSWSOPC_TEXT_FRAME \<or> opcode w = LWSWSOPC_BINARY_FRAME then
        let w = (if opcode w = LWSWSOPC_TEXT_FRAME then w\<lparr>check_utf8 := opt_validate_utf8 en\<rparr>
                 else w\<lparr>check_utf8 := False\<rparr>) in
        if continuation_possible w then
          (False, lws_close_reason LWS_CLOSE_STATUS_PROTOCOL_ERR (Some (bytes_of_string ''bad cont'')) w)
        else (True, w\<lparr>rsv_first_msg := c AND 0x70, pmd_trailer_application := (c AND 0x40 \<noteq> 0),
                      frame_is_binary := (opcode w = LWSWSOPC_BINARY_FRAME), first_fragment := True,
                      continuation_possible := \<not> ws_final w\<rparr>)
      else if opcode w = LWSWSOPC_CONTINUATION then
        (if \<not> continuation_possible w then
           (False, lws_close_reason LWS_CLOSE_STATUS_PROTOCOL_ERR (Some (bytes_of_string ''bad cont'')) w)
         else (True, w))
      else if opcode w = LWSWSOPC_CLOSE then (True, w\<lparr>check_utf8 := False, utf8 := 0\<rparr>)
      else if opcode w \<in> {3, 4, 5, 6, 7, 0xb, 0xc, 0xd, 0xe, 0xf} then
        (False, lws_close_reason LWS_CLOSE_STATUS_PROTOCOL_ERR (Some (bytes_of_string ''bad opc'')) w)
      else (True, w))"

definition server_rx_first :: "'e env \<Rightarrow> 'e wsi \<Rightarrow> u8 \<Rightarrow> 'e rx_parse" where
  "server_rx_first en w c =
     (let w = w\<lparr>opcode := c AND 0xf, rsv := c AND 0x70, ws_final := bit c 7, defeat_check_utf8 := False\<rparr> in
      if opcode w AND 8 \<noteq> 0 \<and> \<not> ws_final w then
        PReturn (-1) (lws_close_reason LWS_CLOSE_STATUS_PROTOCOL_ERR (Some (bytes_of_string ''frag ctl'')) w)
      else let (legal, w) = server_rx_opcode en w c in
      if \<not> legal then PReturn (-1) w
      else if owed_a_fin w \<and> (opcode w = LWSWSOPC_TEXT_FRAME \<or> opcode w = LWSWSOPC_BINARY_FRAME) then
        PReturn (-1) (lws_close_reason LWS_CLOSE_STATUS_PROTOCOL_ERR (Some (bytes_of_string ''bad fin'')) w)
      else
        let w = (if opcode w AND 8 = 0 \<and> ws_final w
                 then w\<lparr>continuation_possible := False, owed_a_fin := False\<rparr> else w);
            w = (if \<not> ws_final w then w\<lparr>owed_a_fin := True\<rparr> else w);
            w = set_rxps LWS_RXPS_04_FRAME_HDR_LEN w
        in if rsv w \<noteq> 0 \<and> (count_act_ext w = 0 \<or> rsv w AND NOT 0x40 \<noteq> 0) then
             PReturn (-1) (lws_close_reason LWS_CLOSE_STATUS_PROTOCOL_ERR (Some (bytes_of_string ''rsv bits'')) w)
           else PReturn 0 w)"

definition server_rx_new :: "'e env \<Rightarrow> 'e wsi \<Rightarrow> u8 \<Rightarrow> 'e rx_parse" where
  "server_rx_new en w c =
     (if ietf_spec_revision w = 13 then server_rx_first en (w\<lparr>all_zero_nonce := True\<rparr>) c
      else PReturn 0 w)"

definition server_rx_hdr_len :: "'e wsi \<Rightarrow> u8 \<Rightarrow> 'e rx_parse" where
  "server_rx_hdr_len w c =
     (let w = w\<lparr>this_frame_masked := (c AND 0x80 \<noteq> 0)\<rparr> in
      if c AND 0x7f = 126 then
        (if opcode w AND 8 \<noteq> 0 then PReturn (-1) w
         else PReturn 0 (set_rxps LWS_RXPS_04_FRAME_HDR_LEN16_2 w))
      else if c AND 0x7f = 127 then
        (if opcode w AND 8 \<noteq> 0 then PReturn (-1) w
         else PReturn 0 (set_rxps LWS_RXPS_04_FRAME_HDR_LEN64_8 w))
      else let w = w\<lparr>rx_packet_length := ucast (c AND 0x7f)\<rparr> in
        if this_frame_masked w then PReturn 0 (set_rxps LWS_RXPS_07_COLLECT_FRAME_KEY_1 w)
        else if rx_packet_length w \<noteq> 0 then PReturn 0 (set_rxps LWS_RXPS_WS_FRAME_PAYLOAD w)
        else PSpill (set_rxps LWS_RXPS_NEW w))"

definition server_len_done :: "'e wsi \<Rightarrow> 'e rx_parse" where
  "server_len_done w =
     (if this_frame_masked w then PReturn 0 (set_rxps LWS_RXPS_07_COLLECT_FRAME_KEY_1 w)
      else PReturn 0 (set_rxps LWS_RXPS_WS_FRAME_PAYLOAD w))"

section \<open>Payload\<close>

text \<open>\<open>ign\<close> is the flag \<open>ALREADY_PROCESSED_IGNORE_CHAR\<close>.\<close>

definition server_rx_store :: "'e wsi \<Rightarrow> u8 \<Rightarrow> 'e wsi outcome" where
  "server_rx_store w c =
     (let (c, w) = (if all_zero_nonce w then (c, w)
                    else (c XOR mask w ! unat (mask_idx w AND 3), w\<lparr>mask_idx := mask_idx w + 1\<rparr>)) in
      bind_outcome (mem_store (rx_ubuf w) (rx_ubuf_head w) [c]) (\<lambda>ub.
        Done (w\<lparr>rx_ubuf := ub, rx_ubuf_head := rx_ubuf_head w + 1,
                rx_packet_length := rx_packet_length w - 1\<rparr>)))"

definition server_rx_payload :: "'e env \<Rightarrow> bool \<Rightarrow> 'e wsi \<Rightarrow> u8 \<Rightarrow> 'e rx_parse outcome" where
  "server_rx_payload en ign w c =
     (if rx_ubuf w = [] then Fault
      else if rx_ubuf_head w + LWS_PRE \<ge> rx_ubuf_alloc w then Done (PReturn (-1) w)
      else bind_outcome (if ign then Done w else server_rx_store w c) (\<lambda>w.
        if rx_packet_length w = 0 then Done (PSpill (set_rxps LWS_RXPS_NEW w))
        else if rx_draining_ext w then Done (PDrain w)
        else if rx_buffer_size en = 0 \<and> rx_ubuf_head w \<noteq> pt_serv_buf_size en then Done (PReturn 0 w)
        else if rx_buffer_size en \<noteq> 0 \<and> rx_ubuf_head w \<noteq> rx_buffer_size en then Done (PReturn 0 w)
        else Done (PSpill w)))"

definition server_rx_parse :: "'e env \<Rightarrow> bool \<Rightarrow> 'e wsi \<Rightarrow> u8 \<Rightarrow> 'e rx_parse outcome" where
  "server_rx_parse en ign w c =
     (case lws_rx_parse_state w of
        LWS_RXPS_NEW \<Rightarrow> Done (server_rx_new en w c)
      | LWS_RXPS_04_mask_1 \<Rightarrow> Done (PReturn 0 (set_rxps LWS_RXPS_04_mask_2 (rx_mask_byte 1 c w)))
      | LWS_RXPS_04_mask_2 \<Rightarrow> Done (PReturn 0 (set_rxps LWS_RXPS_04_mask_3 (rx_mask_byte 2 c w)))
      | LWS_RXPS_04_mask_3 \<Rightarrow>
          Done (PReturn 0 (set_rxps LWS_RXPS_04_FRAME_HDR_1 ((rx_mask_byte 3 c w)\<lparr>mask_idx := 0\<rparr>)))
      | LWS_RXPS_04_FRAME_HDR_1 \<Rightarrow> Done (server_rx_first en w c)
      | LWS_RXPS_04_FRAME_HDR_LEN \<Rightarrow> Done (server_rx_hdr_len w c)
      | LWS_RXPS_04_FRAME_HDR_LEN16_2 \<Rightarrow>
          Done (PReturn 0 (set_rxps LWS_RXPS_04_FRAME_HDR_LEN16_1
            (w\<lparr>rx_packet_length := push_bit 8 (ucast c)\<rparr>)))
      | LWS_RXPS_04_FRAME_HDR_LEN16_1 \<Rightarrow> Done (server_len_done (len_or 0 c w))
      | LWS_RXPS_04_FRAME_HDR_LEN64_8 \<Rightarrow>
          if c AND 0x80 \<noteq> 0 then Done (PReturn (-1) w)
          else Done (PReturn 0 (set_rxps LWS_RXPS_04_FRAME_HDR_LEN64_7
            (w\<lparr>rx_packet_length := push_bit 56 (ucast c)\<rparr>)))
      | LWS_RXPS_04_FRAME_HDR_LEN64_7 \<Rightarrow>
          Done (PReturn 0 (set_rxps LWS_RXPS_04_FRAME_HDR_LEN64_6 (len_or 48 c w)))
      | LWS_RXPS_04_FRAME_HDR_LEN64_6 \<Rightarrow>
          Done (PReturn 0 (set_rxps LWS_RXPS_04_FRAME_HDR_LEN64_5 (len_or 40 c w)))
      | LWS_RXPS_04_FRAME_HDR_LEN64_5 \<Rightarrow>
          Done (PReturn 0 (set_rxps LWS_RXPS_04_FRAME_HDR_LEN64_4 (len_or 32 c w)))
      | LWS_RXPS_04_FRAME_HDR_LEN64_4 \<Rightarrow>
          Done (PReturn 0 (set_rxps LWS_RXPS_04_FRAME_HDR_LEN64_3 (len_or 24 c w)))
      | LWS_RXPS_04_FRAME_HDR_LEN64_3 \<Rightarrow>
          Done (PReturn 0 (set_rxps LWS_RXPS_04_FRAME_HDR_LEN64_2 (len_or 16 c w)))
      | LWS_RXPS_04_FRAME_HDR_LEN64_2 \<Rightarrow>
          Done (PReturn 0 (set_rxps LWS_RXPS_04_FRAME_HDR_LEN64_1 (len_or 8 c w)))
      | LWS_RXPS_04_FRAME_HDR_LEN64_1 \<Rightarrow> Done (server_len_done (len_or 0 c w))
      | LWS_RXPS_07_COLLECT_FRAME_KEY_1 \<Rightarrow>
          Done (PReturn 0 (set_rxps LWS_RXPS_07_COLLECT_FRAME_KEY_2 (rx_mask_byte 0 c w)))
      | LWS_RXPS_07_COLLECT_FRAME_KEY_2 \<Rightarrow>
          Done (PReturn 0 (set_rxps LWS_RXPS_07_COLLECT_FRAME_KEY_3 (rx_mask_byte 1 c w)))
      | LWS_RXPS_07_COLLECT_FRAME_KEY_3 \<Rightarrow>
          Done (PReturn 0 (set_rxps LWS_RXPS_07_COLLECT_FRAME_KEY_4 (rx_mask_byte 2 c w)))
      | LWS_RXPS_07_COLLECT_FRAME_KEY_4 \<Rightarrow>
          (let w = set_rxps LWS_RXPS_WS_FRAME_PAYLOAD ((rx_mask_byte 3 c w)\<lparr>mask_idx := 0\<rparr>) in
           if rx_packet_length w = 0 then Done (PSpill (set_rxps LWS_RXPS_NEW w)) else Done (PReturn 0 w))
      | LWS_RXPS_WS_FRAME_PAYLOAD \<Rightarrow> server_rx_payload en ign w c)"

section \<open>Control frames\<close>

definition server_close_code_bad :: "nat \<Rightarrow> bool" where
  "server_close_code_bad code \<longleftrightarrow>
     code < 1000 \<or> code = 1004 \<or> code = 1005 \<or> code = 1006 \<or> code = 1012 \<or> code = 1013 \<or>
     code = 1014 \<or> code = 1015 \<or> (code \<ge> 1016 \<and> code < 3000)"

text \<open>The first close frame of the peer.\<close>

definition server_rx_close :: "'e env \<Rightarrow> 'e wsi \<Rightarrow> (int \<times> 'e wsi) outcome" where
  "server_rx_close en w =
     bind_outcome (rx_close_utf8 en (w\<lparr>peer_has_sent_close := True\<rparr>)) (\<lambda>(bad, w).
     if bad then Done (-1, w)
     else if wsi_state w = LRS_AWAITING_CLOSE_ACK then Done (-1, w)
     else if wsi_state w = LRS_RETURNED_CLOSE then Done (-1, w)
     else if lws_partial_buffered w then Done (-1, w\<lparr>socket_is_permanently_unusable := True\<rparr>)
     else bind_outcome (rx_close_sanitize server_close_code_bad w) (\<lambda>w.
     bind_outcome (mem_load (rx_ubuf w) 0 (rx_ubuf_head w)) (\<lambda>pp.
     bind_outcome (user_callback_handle_rxflow en w LWS_CALLBACK_WS_PEER_INITIATED_CLOSE pp) (\<lambda>(r, w).
     if r \<noteq> 0 then Done (-1, w)
     else bind_outcome
       (rx_stash_pong (w\<lparr>wsi_state := LRS_RETURNED_CLOSE, payload_is_close := True\<rparr>)) (\<lambda>w. Done (0, w))))))"

definition server_rx_ping :: "'e wsi \<Rightarrow> (int \<times> 'e wsi) outcome" where
  "server_rx_ping w =
     (if pong_pending_flag w then Done (0, w\<lparr>rx_ubuf_head := 0\<rparr>)
      else bind_outcome (rx_stash_pong w) (\<lambda>w. Done (0, w)))"

section \<open>Passing payload on\<close>

definition server_rx_utf8 ::
  "int \<Rightarrow> 'e wsi \<Rightarrow> lws_ext_pm_deflate_rx_ebufs \<Rightarrow> (bool \<times> 'e wsi) outcome" where
  "server_rx_utf8 n w p =
     (if \<not> (tok_len (eb_out p) \<noteq> 0 \<and> check_utf8 w \<and> \<not> defeat_check_utf8 w) then Done (False, w)
      else bind_outcome (token_load w (eb_out p)) (\<lambda>bs.
        let (bad, w) = check_utf8_in w bs in
        if bad then
          Done (True, lws_close_reason LWS_CLOSE_STATUS_INVALID_PAYLOAD (Some (bytes_of_string ''bad utf8'')) w)
        else if rx_packet_length w = 0 \<and> ws_final w \<and> utf8 w \<noteq> 0 \<and> (n = PMDR_EMPTY_FINAL \<or> n = PMDR_UNKNOWN)
        then
          Done (True, lws_close_reason LWS_CLOSE_STATUS_INVALID_PAYLOAD (Some (bytes_of_string ''partial utf8'')) w)
        else Done (False, w)))"

text \<open>One round: return, leave the loop with \<open>ret\<close>, or go on with the buffers, \<open>rx_draining_ext\<close>, the flag
  \<open>ALREADY_PROCESSED_NO_CB\<close> and \<open>ret\<close>.\<close>

datatype 'e srv_iter =
    SReturn int "'e wsi"
  | SLeave int "'e wsi"
  | SNext lws_ext_pm_deflate_rx_ebufs bool bool int "'e wsi"

definition server_rx_deliver ::
  "'e env \<Rightarrow> lws_callback_reason \<Rightarrow> int \<Rightarrow> bool \<Rightarrow> int \<Rightarrow> lws_ext_pm_deflate_rx_ebufs \<Rightarrow> 'e wsi \<Rightarrow>
   (int \<times> lws_ext_pm_deflate_rx_ebufs \<times> 'e wsi) outcome" where
  "server_rx_deliver en act n nocb ret p w =
     (if \<not> (\<not> wsistate_pre_close w \<and>
           (tok_len (eb_out p) \<ge> 0 \<or> act = LWS_CALLBACK_RECEIVE_PONG \<or> n = PMDR_EMPTY_FINAL))
      then Done (ret, p, w)
      else bind_outcome (if tok_len (eb_out p) \<noteq> 0 then token_nul w (eb_out p) else Done (w, eb_out p)) (\<lambda>(w, out).
        bind_outcome
          (if has_callback en \<and> \<not> nocb then
             bind_outcome (token_load w out) (\<lambda>data. user_callback_handle_rxflow en w act data)
           else Done (ret, w))
          (\<lambda>(ret, w). Done (ret, p\<lparr>eb_out := out\<rparr>, w\<lparr>first_fragment := False\<rparr>))))"

definition server_rx_iter ::
  "'e env \<Rightarrow> lws_callback_reason \<Rightarrow> lws_ext_pm_deflate_rx_ebufs \<Rightarrow> bool \<Rightarrow> bool \<Rightarrow> int \<Rightarrow> 'e wsi \<Rightarrow>
   'e srv_iter outcome" where
  "server_rx_iter en act p draining nocb ret w =
     (if wsi_state w = LRS_RETURNED_CLOSE \<or> wsi_state w = LRS_AWAITING_CLOSE_ACK then Done (SLeave ret w)
      else
        let lin = tok_len (eb_in p);
            (n, w, p) = lws_ext_cb_active en w LWS_EXT_CB_PAYLOAD_RX p 0;
            nocb = (nocb \<and> \<not> rx_draining_ext w)
        in if n < 0 then Done (SReturn (-1) (w\<lparr>socket_is_permanently_unusable := True\<rparr>))
        else if n = PMDR_DID_NOTHING then Done (SLeave ret w)
        else if draining \<and> tok_len (eb_out p) = 0 then Done (SLeave ret w)
        else let w = rx_mark_draining n w; draining = rx_draining_ext w in
        bind_outcome (server_rx_utf8 n w p) (\<lambda>(bad, w).
        if bad then Done (SReturn (-1) w)
        else
          let p = (if n = PMDR_DID_NOTHING \<or> n = PMDR_NOTHING_WE_SHOULD_DO \<or> n = PMDR_UNKNOWN
                   then p\<lparr>eb_in := (eb_in p)\<lparr>tok_len := tok_len (eb_in p) - tok_len (eb_out p)\<rparr>\<rparr> else p) in
          bind_outcome (server_rx_deliver en act n nocb ret p w) (\<lambda>(ret, p, w).
            if lin = 0 then Done (SLeave ret w) else Done (SNext p draining nocb ret w))))"

partial_function (option) server_rx_loop ::
  "'e env \<Rightarrow> lws_callback_reason \<Rightarrow> lws_ext_pm_deflate_rx_ebufs \<Rightarrow> bool \<Rightarrow> bool \<Rightarrow> int \<Rightarrow> 'e wsi \<Rightarrow>
   (int \<times> 'e wsi) outcome option" where
  "server_rx_loop en act p draining nocb ret w =
     (case server_rx_iter en act p draining nocb ret w of
        Fault \<Rightarrow> Some Fault
      | Done (SReturn r w') \<Rightarrow> Some (Done (r, w'))
      | Done (SLeave ret' w') \<Rightarrow> Some (Done (ret', w'\<lparr>rx_ubuf_head := 0\<rparr>))
      | Done (SNext p' draining' nocb' ret' w') \<Rightarrow>
          if tok_len (eb_in p') \<noteq> 0 \<or> draining'
          then server_rx_loop en act p' draining' nocb' ret' w'
          else Some (Done (ret', w'\<lparr>rx_ubuf_head := 0\<rparr>)))"

section \<open>The state machine\<close>

definition server_rx_spill :: "'e env \<Rightarrow> bool \<Rightarrow> 'e wsi \<Rightarrow> (int \<times> 'e wsi) outcome option" where
  "server_rx_spill en nocb w =
     (if opcode w = LWSWSOPC_CLOSE \<and> \<not> peer_has_sent_close w then Some (server_rx_close en w)
      else if opcode w = LWSWSOPC_PING then Some (server_rx_ping w)
      else if opcode w = LWSWSOPC_PONG then
        let w = log_event EvValidity w in
        if rx_ubuf_head w = 0 then Some (Done (0, w\<lparr>rx_ubuf_head := 0\<rparr>))
        else server_rx_loop en LWS_CALLBACK_RECEIVE_PONG (rx_ebufs w) False nocb 0 w
      else if opcode w = LWSWSOPC_CLOSE \<or> opcode w = LWSWSOPC_TEXT_FRAME \<or>
              opcode w = LWSWSOPC_BINARY_FRAME \<or> opcode w = LWSWSOPC_CONTINUATION then
        server_rx_loop en LWS_CALLBACK_RECEIVE (rx_ebufs w) False nocb 0 w
      else Some (Done (-1, w)))"

definition lws_ws_rx_sm :: "'e env \<Rightarrow> 'e wsi \<Rightarrow> bool \<Rightarrow> bool \<Rightarrow> u8 \<Rightarrow> (int \<times> 'e wsi) outcome option" where
  "lws_ws_rx_sm en w ign nocb c =
     (if lws_rx_parse_state w = LWS_RXPS_NEW \<and> rx_draining_ext w then
        server_rx_loop en LWS_CALLBACK_RECEIVE ebufs_null True nocb 0
          (lws_remove_wsi_from_draining_ext_list w)
      else case server_rx_parse en ign w c of
        Fault \<Rightarrow> Some Fault
      | Done (PReturn r w') \<Rightarrow> Some (Done (r, w'))
      | Done (PSpill w') \<Rightarrow> server_rx_spill en nocb w'
      | Done (PDrain w') \<Rightarrow> server_rx_loop en LWS_CALLBACK_RECEIVE ebufs_null False nocb 0 w')"

section \<open>Bulk payload\<close>

text \<open>The unrolled loop over groups of four bytes and the loop over the bytes left, with the four mask
  bytes rotated to the current position.\<close>

fun unmask_groups :: "nat \<Rightarrow> bytes \<Rightarrow> bytes \<Rightarrow> bytes \<times> bytes" where
  "unmask_groups 0 m buf = ([], buf)"
| "unmask_groups (Suc n) m buf =
     (let g = [buf ! 0 XOR m ! 0, buf ! 1 XOR m ! 1, buf ! 2 XOR m ! 2, buf ! 3 XOR m ! 3];
          (out, rest) = unmask_groups n m (drop 4 buf)
      in (g @ out, rest))"

definition bulk_unmask :: "bytes \<Rightarrow> nat \<Rightarrow> bytes \<Rightarrow> bytes" where
  "bulk_unmask key idx buf =
     (let avail = length buf;
          m = map (\<lambda>n. key ! ((idx + n) mod 4)) [0..<4];
          (out, rest) = unmask_groups (avail div 4) m buf
      in out @ map (\<lambda>n. rest ! n XOR m ! n) [0..<avail mod 4])"

text \<open>How much of the input one call takes; the sizes are \<open>unsigned int\<close>.\<close>

definition rest_avail :: "'e env \<Rightarrow> 'e wsi \<Rightarrow> nat \<Rightarrow> nat" where
  "rest_avail en w len =
     (let avail = (if count_act_ext w = 0 then rx_size en mod 2 ^ 32 else len mod 2 ^ 32);
          avail = (if avail > unat (rx_packet_length w) then unat (rx_packet_length w) else avail)
      in if avail > len then len else avail)"

text \<open>The result and how far \<open>*buf\<close> was advanced.  \<open>avail\<close> is an \<open>unsigned int\<close>: it is converted to \<open>int\<close> for the length of the
  tokens and for the result, and the length that comes back from the extension is converted to \<open>unsigned int\<close>.\<close>

definition token_load_u32 :: "'e wsi \<Rightarrow> lws_tokens \<Rightarrow> bytes outcome" where
  "token_load_u32 w t = token_load w (t\<lparr>tok_len := tok_len t mod 2 ^ 32\<rparr>)"

definition lws_ws_frame_rest_is_payload ::
  "'e env \<Rightarrow> 'e wsi \<Rightarrow> bytes \<Rightarrow> (int \<times> nat \<times> 'e wsi) outcome" where
  "lws_ws_frame_rest_is_payload en w buf =
     (let old_packet_length = (ucast (rx_packet_length w) :: u32);
          avail = rest_avail en w (length buf)
      in if avail = 0 then Done (0, 0, w)
      else
        let (data, w) = (if all_zero_nonce w then (take avail buf, w)
                         else (bulk_unmask (mask w) (unat (mask_idx w)) (take avail buf),
                               w\<lparr>mask_idx := of_nat ((unat (mask_idx w) + avail) mod 4)\<rparr>));
            t = \<lparr>tok = TExt (data @ drop avail buf), tok_len = c_int avail\<rparr>;
            w = w\<lparr>rx_packet_length := rx_packet_length w - of_nat avail\<rparr>;
            (n, w, p) = lws_ext_cb_active en w LWS_EXT_CB_PAYLOAD_RX \<lparr>eb_in = t, eb_out = t\<rparr> 0
        in
        if n < 0 then Done (-1, avail, w\<lparr>socket_is_permanently_unusable := True\<rparr>)
        else if tok_len (eb_out p) = 0 \<and> n = PMDR_EMPTY_FINAL \<and> old_packet_length \<noteq> 0 \<and>
                rx_packet_length w = 0 \<and> ws_final w \<and> has_callback en \<and> \<not> wsistate_pre_close w then
          bind_outcome (user_callback_handle_rxflow en w LWS_CALLBACK_RECEIVE []) (\<lambda>(r, w).
            Done (if r \<noteq> 0 then -1 else c_int avail, avail, w))
        else if count_act_ext w \<noteq> 0 \<and> tok_len (eb_out p) = 0 then Done (c_int avail, avail, w)
        else
          let w = rx_mark_draining n w in
          bind_outcome
            (if \<not> (tok_len (eb_out p) \<noteq> 0 \<and> check_utf8 w \<and> \<not> defeat_check_utf8 w) then Done (False, w)
             else bind_outcome (token_load_u32 w (eb_out p)) (\<lambda>bs.
               let (bad, w) = check_utf8_in w bs in
               if bad then
                 Done (True, lws_close_reason LWS_CLOSE_STATUS_INVALID_PAYLOAD
                               (Some (bytes_of_string ''bad utf8'')) w)
               else if rx_packet_length w = 0 \<and> ws_final w \<and> utf8 w \<noteq> 0 \<and> n = 0 then
                 Done (True, lws_close_reason LWS_CLOSE_STATUS_INVALID_PAYLOAD
                               (Some (bytes_of_string ''partial utf8'')) w)
               else Done (False, w)))
            (\<lambda>(bad, w).
              if bad then Done (-1, avail, w)
              else bind_outcome
                (if has_callback en \<and> \<not> wsistate_pre_close w then
                   bind_outcome (token_load_u32 w (eb_out p))
                     (\<lambda>bs. user_callback_handle_rxflow en w LWS_CALLBACK_RECEIVE bs)
                 else Done (0, w))
                (\<lambda>(r, w). if r \<noteq> 0 then Done (-1, avail, w)
                         else Done (c_int avail, avail, w\<lparr>first_fragment := False\<rparr>))))"

section \<open>The parser over a buffer\<close>

definition rx_in_bulk :: "'e wsi \<Rightarrow> bool" where
  "rx_in_bulk w \<longleftrightarrow> lws_rx_parse_state w = LWS_RXPS_WS_FRAME_PAYLOAD \<and>
     (opcode w = LWSWSOPC_TEXT_FRAME \<or> opcode w = LWSWSOPC_BINARY_FRAME \<or> opcode w = LWSWSOPC_CONTINUATION)"

text \<open>The inner loop: true when it bails out, how much was consumed, and the rest.  The assertion after each call compares two
  lengths as \<open>int\<close>.\<close>

partial_function (option) parse_ws_bulk ::
  "'e env \<Rightarrow> 'e wsi \<Rightarrow> nat \<Rightarrow> bytes \<Rightarrow> (bool \<times> nat \<times> bytes \<times> 'e wsi) outcome option" where
  "parse_ws_bulk en w used rest =
     (if \<not> (rx_in_bulk w \<and> rest \<noteq> []) then Some (Done (False, used, rest, w))
      else case lws_ws_frame_rest_is_payload en w rest of
        Fault \<Rightarrow> Some Fault
      | Done (m, k, w') \<Rightarrow>
          if \<not> c_int k \<le> c_int (length rest) \<or> length rest < k then Some Fault
          else if m = 0 then Some (Done (False, used + k, drop k rest, w'))
          else if m < 0 then Some (Done (True, used + k, drop k rest, w'))
          else parse_ws_bulk en w' (used + k) (drop k rest))"

text \<open>\<open>cached\<close> says that \<open>*buf\<close> is the unread part of the first segment of the receive cache.  The result,
  how far \<open>*buf\<close> was advanced, and the connection.\<close>

partial_function (option) parse_ws_loop ::
  "'e env \<Rightarrow> bool \<Rightarrow> 'e wsi \<Rightarrow> nat \<Rightarrow> bytes \<Rightarrow> (int \<times> nat \<times> 'e wsi) outcome option" where
  "parse_ws_loop en cached w used rest =
     (if rest = [] then Some (Done (0, used, w))
      else if rxflow_bitmap w \<noteq> 0 then
        Some (bind_outcome (lws_rxflow_cache en w (if cached then Some used else None) rest 0)
          (\<lambda>(r, w). Done (1, if r = LWSRXFC_TRIMMED then 0 else used + length rest, w)))
      else if rx_draining_ext w then
        (case lws_ws_rx_sm en w True False 0 of
           None \<Rightarrow> None
         | Some Fault \<Rightarrow> Some Fault
         | Some (Done (m, w')) \<Rightarrow>
             if m < 0 then Some (Done (-1, used, w')) else parse_ws_loop en cached w' used rest)
      else
        (case parse_ws_bulk en w used rest of
           None \<Rightarrow> None
         | Some Fault \<Rightarrow> Some Fault
         | Some (Done (bail, used', rest', w')) \<Rightarrow>
             if bail then Some (Done (-1, used', w'))
             else if \<not> rx_in_bulk w then
               (case lws_ws_rx_sm en w' False False (hd rest') of
                  None \<Rightarrow> None
                | Some Fault \<Rightarrow> Some Fault
                | Some (Done (m, w'')) \<Rightarrow>
                    if m < 0 then Some (Done (-1, used' + 1, w''))
                    else parse_ws_loop en cached w'' (used' + 1) (tl rest'))
             else
               (case lws_ws_rx_sm en w' True True 0 of
                  None \<Rightarrow> None
                | Some Fault \<Rightarrow> Some Fault
                | Some (Done (m, w'')) \<Rightarrow>
                    if m < 0 then Some (Done (-1, used', w''))
                    else parse_ws_loop en cached w'' used' rest')))"

definition lws_parse_ws :: "'e env \<Rightarrow> 'e wsi \<Rightarrow> bool \<Rightarrow> bytes \<Rightarrow> (int \<times> nat \<times> 'e wsi) outcome option" where
  "lws_parse_ws en w cached buf = parse_ws_loop en cached w 0 buf"

section \<open>Delivery without extensions\<close>

definition server_text_check :: "'e wsi \<Rightarrow> bool \<times> 'e wsi" where
  "server_text_check w = (if rx_ubuf_head w = 0 then (False, w) else client_text_check w)"

definition server_deliver_payload ::
  "'e env \<Rightarrow> lws_callback_reason \<Rightarrow> bool \<Rightarrow> 'e wsi \<Rightarrow> (int \<times> 'e wsi) outcome" where
  "server_deliver_payload en act nocb w =
     (if wsistate_pre_close w then Done (0, w\<lparr>rx_ubuf_head := 0\<rparr>)
      else let w' = (if rx_ubuf_head w = 0 then w else w\<lparr>rx_ubuf := (rx_ubuf w)[rx_ubuf_head w := 0]\<rparr>) in
        bind_outcome
          (if has_callback en \<and> \<not> nocb
           then user_callback_handle_rxflow en w' act (take (rx_ubuf_head w) (rx_ubuf w)) else Done (0, w'))
          (\<lambda>(r, w). Done (r, w\<lparr>first_fragment := False, rx_ubuf_head := 0\<rparr>)))"

lemma server_rx_utf8_client:
  "server_rx_utf8 n w p = (if tok_len (eb_out p) = 0 then Done (False, w) else client_rx_utf8 n w p)"
  by (simp add: server_rx_utf8_def client_rx_utf8_def)

lemma server_rx_utf8_plain:
  assumes "rx_bufs_ok en w" and "rx_ubuf_head w \<le> rx_size en"
  shows "server_rx_utf8 PMDR_UNKNOWN w (rx_ebufs w) = Done (server_text_check w)"
  using client_rx_utf8_plain [OF assms]
  by (simp add: server_rx_utf8_client server_text_check_def)

lemma server_text_check_head: "server_text_check w = (bad, w') \<Longrightarrow> rx_ubuf_head w' = rx_ubuf_head w"
  by (auto simp: server_text_check_def client_text_check_def lws_close_reason_def Let_def
      split: if_splits option.splits)

lemma server_rx_loop_plain:
  assumes "rx_bufs_ok en w" and "rx_ubuf_head w \<le> rx_size en"
  shows "server_rx_loop en act (rx_ebufs w) False nocb 0 w =
    Some (if wsi_state w = LRS_RETURNED_CLOSE \<or> wsi_state w = LRS_AWAITING_CLOSE_ACK
          then Done (0, w\<lparr>rx_ubuf_head := 0\<rparr>)
          else let (bad, w1) = server_text_check w in
            if bad then Done (-1, w1) else server_deliver_payload en act nocb w1)"
proof (cases "wsi_state w = LRS_RETURNED_CLOSE \<or> wsi_state w = LRS_AWAITING_CLOSE_ACK")
  case True
  then show ?thesis by (auto simp: server_rx_loop.simps [of en act "rx_ebufs w"] server_rx_iter_def)
next
  case False
  have ext: "lws_ext_cb_active en w LWS_EXT_CB_PAYLOAD_RX (rx_ebufs w) 0 = (0, w, rx_ebufs w)"
    and nd: "\<not> rx_draining_ext w" using assms(1) by (simp_all add: rx_bufs_ok_def)
  obtain bad w1 where c: "server_text_check w = (bad, w1)" by (cases "server_text_check w")
  define p where "p = (rx_ebufs w)\<lparr>eb_in := (eb_in (rx_ebufs w))\<lparr>tok_len := 0\<rparr>\<rparr>"
  have it: "server_rx_iter en act (rx_ebufs w) False nocb 0 w =
    (if bad then Done (SReturn (-1) w1)
     else bind_outcome (server_rx_deliver en act 0 nocb 0 p w1) (\<lambda>(ret, p, w).
            if rx_ubuf_head w1 = 0 then Done (SLeave ret w) else Done (SNext p False nocb ret w)))"
    using nd server_rx_utf8_plain [OF assms] c False server_text_check_head [OF c]
    by (simp add: server_rx_iter_def ext mark_draining_none p_def cong: if_cong)
  show ?thesis
  proof (cases bad)
    case nb: False
    then obtain st where w1: "w1 = w \<or> w1 = w\<lparr>utf8 := st\<rparr> \<and> utf8_state st"
      using c check_utf8_loop_state [of "utf8 w"] assms(1)
      by (auto simp: server_text_check_def client_text_check_def rx_bufs_ok_def split: if_splits option.splits)
    then have ok: "rx_bufs_ok en w1" "rx_ubuf_head w1 \<le> rx_size en" and hd: "rx_ubuf_head w1 = rx_ubuf_head w"
      and ubuf: "rx_ubuf w1 = rx_ubuf w" using assms by auto
    let ?w = "if rx_ubuf_head w1 = 0 then w1 else w1\<lparr>rx_ubuf := (rx_ubuf w1)[rx_ubuf_head w1 := 0]\<rparr>"
    have p: "eb_out p = eb_out (rx_ebufs w1)" "tok_len (eb_in p) = 0"
      "p\<lparr>eb_out := eb_out (rx_ebufs w1)\<rparr> = p"
      using hd by (simp_all add: p_def rx_ebufs_def Let_def)
    have nul: "(if tok_len (eb_out p) \<noteq> 0 then token_nul w1 (eb_out p) else Done (w1, eb_out p)) = Done (?w, eb_out p)"
      using rx_ebufs_nul [OF ok] p by simp
    have "rx_bufs_ok en ?w" "rx_ubuf_head ?w \<le> rx_size en" "rx_ebufs ?w = rx_ebufs w1"
      "take (rx_ubuf_head ?w) (rx_ubuf ?w) = take (rx_ubuf_head w1) (rx_ubuf w1)"
      using ok by (simp_all add: rx_ebufs_def)
    then have ld: "token_load ?w (eb_out p) = Done (take (rx_ubuf_head w1) (rx_ubuf w1))"
      using rx_ebufs_load [of en ?w] p by simp
    have del: "server_rx_deliver en act 0 nocb 0 p w1 =
        (if wsistate_pre_close w1 then Done (0, p, w1)
         else bind_outcome (if has_callback en \<and> \<not> nocb
             then user_callback_handle_rxflow en ?w act (take (rx_ubuf_head w1) (rx_ubuf w1)) else Done (0, ?w))
           (\<lambda>(ret, w). Done (ret, p, w\<lparr>first_fragment := False\<rparr>)))"
      unfolding server_rx_deliver_def nul using p(1,2) ld by (simp add: p(3))
    show ?thesis
      using nb False it c p(2)
      by (auto simp: server_rx_loop.simps [of en act "rx_ebufs w"] server_deliver_payload_def del Let_def
          split: outcome.splits)
  qed (use it c False in \<open>simp add: server_rx_loop.simps [of en act "rx_ebufs w"]\<close>)
qed

section \<open>Invariant\<close>

definition legal_opcode :: "u8 \<Rightarrow> bool" where
  "legal_opcode op \<longleftrightarrow> op = 0 \<or> op = 1 \<or> op = 2 \<or> op = 8 \<or> op = 9 \<or> op = 10"

text \<open>From the first byte of its length on, what is left of a frame is below \<open>2 ^ 63\<close>, the limit of RFC 6455: \<open>rx_packet_length\<close>
  has not gone below zero.\<close>

definition rx_len_ok :: "'e wsi \<Rightarrow> bool" where
  "rx_len_ok w \<longleftrightarrow> lws_rx_parse_state w \<in> {LWS_RXPS_NEW, LWS_RXPS_04_mask_1, LWS_RXPS_04_mask_2, LWS_RXPS_04_mask_3, LWS_RXPS_04_FRAME_HDR_1,
     LWS_RXPS_04_FRAME_HDR_LEN, LWS_RXPS_04_FRAME_HDR_LEN16_2, LWS_RXPS_04_FRAME_HDR_LEN64_8} \<or> \<not> bit (rx_packet_length w) 63"

declare rx_len_ok_def [simp]

definition server_rx_inv :: "'e env \<Rightarrow> 'e wsi \<Rightarrow> bool" where
  "server_rx_inv en w \<longleftrightarrow> rx_bufs_ok en w \<and> rx_len_ok w \<and>
     (case lws_rx_parse_state w of
        LWS_RXPS_WS_FRAME_PAYLOAD \<Rightarrow>
          legal_opcode (opcode w) \<and> rx_ubuf_head w < rx_size en \<and>
          (if opcode w AND 8 \<noteq> 0
           then rx_packet_length w \<noteq> 0 \<and> rx_ubuf_head w + unat (rx_packet_length w) \<le> 125
           else rx_ubuf_head w = 0)
      | LWS_RXPS_NEW \<Rightarrow> rx_ubuf_head w = 0
      | LWS_RXPS_04_mask_1 \<Rightarrow> rx_ubuf_head w = 0
      | LWS_RXPS_04_mask_2 \<Rightarrow> rx_ubuf_head w = 0
      | LWS_RXPS_04_mask_3 \<Rightarrow> rx_ubuf_head w = 0
      | LWS_RXPS_04_FRAME_HDR_1 \<Rightarrow> rx_ubuf_head w = 0
      | LWS_RXPS_04_FRAME_HDR_LEN \<Rightarrow> rx_ubuf_head w = 0 \<and> legal_opcode (opcode w)
      | LWS_RXPS_07_COLLECT_FRAME_KEY_1 \<Rightarrow> rx_ubuf_head w = 0 \<and> legal_opcode (opcode w) \<and>
          (opcode w AND 8 \<noteq> 0 \<longrightarrow> unat (rx_packet_length w) \<le> 125)
      | LWS_RXPS_07_COLLECT_FRAME_KEY_2 \<Rightarrow> rx_ubuf_head w = 0 \<and> legal_opcode (opcode w) \<and>
          (opcode w AND 8 \<noteq> 0 \<longrightarrow> unat (rx_packet_length w) \<le> 125)
      | LWS_RXPS_07_COLLECT_FRAME_KEY_3 \<Rightarrow> rx_ubuf_head w = 0 \<and> legal_opcode (opcode w) \<and>
          (opcode w AND 8 \<noteq> 0 \<longrightarrow> unat (rx_packet_length w) \<le> 125)
      | LWS_RXPS_07_COLLECT_FRAME_KEY_4 \<Rightarrow> rx_ubuf_head w = 0 \<and> legal_opcode (opcode w) \<and>
          (opcode w AND 8 \<noteq> 0 \<longrightarrow> unat (rx_packet_length w) \<le> 125)
      | _ \<Rightarrow> rx_ubuf_head w = 0 \<and> legal_opcode (opcode w) \<and> opcode w AND 8 = 0)"

lemma server_rx_inv_bufs: "server_rx_inv en w \<Longrightarrow> rx_bufs_ok en w"
  by (simp add: server_rx_inv_def)

definition server_spill_pre :: "'e env \<Rightarrow> 'e wsi \<Rightarrow> bool" where
  "server_spill_pre en w \<longleftrightarrow> rx_spill_pre en w \<and>
     (lws_rx_parse_state w = LWS_RXPS_WS_FRAME_PAYLOAD \<longrightarrow> legal_opcode (opcode w) \<and> \<not> bit (rx_packet_length w) 63)"

lemma server_spill_reestablishes:
  assumes "server_spill_pre en w" and "rx_bufs_ok en w'" and "rx_same w w'" and "rx_ubuf_head w' = 0"
  shows "server_rx_inv en w'"
  using assms
  by (auto simp: server_rx_inv_def server_spill_pre_def rx_spill_pre_def rx_same_def rx_bufs_ok_def rx_len_ok_def)

definition server_parse_ok :: "'e env \<Rightarrow> 'e rx_parse \<Rightarrow> bool" where
  "server_parse_ok en p \<longleftrightarrow>
     (case p of PReturn r w \<Rightarrow> \<not> r < 0 \<longrightarrow> server_rx_inv en w | PSpill w \<Rightarrow> server_spill_pre en w
      | PDrain w \<Rightarrow> False)"

lemma server_parse_ok_simps [simp]:
  "server_parse_ok en (PReturn r w) \<longleftrightarrow> (\<not> r < 0 \<longrightarrow> server_rx_inv en w)"
  "server_parse_ok en (PSpill w) \<longleftrightarrow> server_spill_pre en w" "\<not> server_parse_ok en (PDrain w)"
  by (simp_all add: server_parse_ok_def)

subsection \<open>The length of a frame\<close>

lemma len_top: "\<not> bit (n :: u64) 63 \<longleftrightarrow> unat n < 2 ^ 63"
proof -
  have "bit n 63 \<longleftrightarrow> bit (unat n) 63" by (simp add: bit_unsigned_iff)
  then have b: "bit n 63 \<longleftrightarrow> odd (unat n div 2 ^ 63)" unfolding bit_iff_odd [of "unat n"] .
  have "unat n < 2 ^ LENGTH(64)" by (rule unsigned_less)
  then have "unat n div 2 ^ 63 < 2" by (simp add: less_mult_imp_div_less)
  then have "odd (unat n div 2 ^ 63) \<longleftrightarrow> unat n div 2 ^ 63 \<noteq> 0" unfolding less_2_cases_iff by auto
  then show ?thesis unfolding b by (simp add: div_eq_0_iff)
qed

lemma len_bytes [simp]:
  "\<not> bit (ucast (c :: u8) :: u64) 63" "\<not> bit (push_bit 8 (ucast (c :: u8)) :: u64) 63"
  "c AND 0x80 = 0 \<Longrightarrow> \<not> bit (push_bit 56 (ucast (c :: u8)) :: u64) 63"
proof -
  have b: "\<not> bit c n" if "8 \<le> n" for n using that by (auto dest: bit_imp_le_length)
  show "\<not> bit (ucast c :: u64) 63" "\<not> bit (push_bit 8 (ucast c) :: u64) 63" by (simp_all add: bit_simps b)
  assume "c AND 0x80 = 0"
  then have "\<not> bit (c AND 0x80) 7" by simp
  moreover have "bit (0x80 :: u8) 7" by code_simp
  ultimately show "\<not> bit (push_bit 56 (ucast c) :: u64) 63" by (simp add: bit_simps)
qed

lemma len_or_top [simp]: "k \<le> 48 \<Longrightarrow> bit (rx_packet_length (len_or k c w)) 63 \<longleftrightarrow> bit (rx_packet_length w) 63"
  by (auto simp: len_or_def bit_simps dest: bit_imp_le_length)

lemma len_minus:
  assumes "k \<le> unat (n :: u64)"
  shows "unat (n - of_nat k) = unat n - k"
proof -
  have "unat n < 2 ^ LENGTH(64)" by (rule unsigned_less)
  then have "k < 2 ^ 64" using assms by simp
  then have "unat (of_nat k :: u64) = k" by (simp add: unsigned_of_nat take_bit_nat_eq_self)
  moreover from this have "of_nat k \<le> n" using assms by (simp add: word_le_nat_alt)
  ultimately show ?thesis by (simp add: unat_sub)
qed

lemma len_minus_top: "k \<le> unat n \<Longrightarrow> \<not> bit n 63 \<Longrightarrow> \<not> bit (n - of_nat k :: u64) 63"
  by (simp add: len_top len_minus)

subsection \<open>Header bytes\<close>

lemma opcode_cases:
  assumes "op = (c :: u8) AND 0xf" and "op \<notin> {3, 4, 5, 6, 7, 0xb, 0xc, 0xd, 0xe, 0xf}"
  shows "legal_opcode op"
proof -
  have "op \<le> 0xf" unfolding assms(1) by (rule word_and_le1)
  then have "unat op \<le> 15" by (simp add: u8_cases_le)
  moreover have "unat op \<noteq> 3" "unat op \<noteq> 4" "unat op \<noteq> 5" "unat op \<noteq> 6" "unat op \<noteq> 7"
    "unat op \<noteq> 11" "unat op \<noteq> 12" "unat op \<noteq> 13" "unat op \<noteq> 14" "unat op \<noteq> 15"
    using assms(2) by (auto simp: u8_eq_iff)
  ultimately have "unat op = 0 \<or> unat op = 1 \<or> unat op = 2 \<or> unat op = 8 \<or> unat op = 9 \<or> unat op = 10"
    by presburger
  then show ?thesis by (simp add: legal_opcode_def u8_eq_iff)
qed

lemma server_rx_opcode_ok:
  assumes "rx_bufs_ok en w" and "opcode w = c AND 0xf" and "server_rx_opcode en w c = (legal, w')"
  shows "rx_bufs_ok en w' \<and> rx_ubuf_head w' = rx_ubuf_head w \<and> opcode w' = opcode w \<and>
    (legal \<longrightarrow> legal_opcode (opcode w))"
proof -
  have "rx_bufs_ok en (snd (server_rx_opcode en w c))" using assms(1)
    by (simp add: server_rx_opcode_def Let_def)
  moreover have "rx_ubuf_head (snd (server_rx_opcode en w c)) = rx_ubuf_head w"
    "opcode (snd (server_rx_opcode en w c)) = opcode w"
    by (simp_all add: server_rx_opcode_def lws_close_reason_def Let_def)
  moreover have "fst (server_rx_opcode en w c) \<Longrightarrow> legal_opcode (opcode w)"
    using opcode_cases [OF assms(2)] by (auto simp: server_rx_opcode_def legal_opcode_def Let_def split: if_splits)
  ultimately show ?thesis using assms(3) by auto
qed

lemma server_rx_first_ok:
  assumes "rx_bufs_ok en w" and "rx_ubuf_head w = 0"
  shows "server_parse_ok en (server_rx_first en w c)"
proof -
  let ?w = "w\<lparr>opcode := c AND 0xf, rsv := c AND 0x70, ws_final := bit c 7, defeat_check_utf8 := False\<rparr>"
  obtain legal w1 where op: "server_rx_opcode en ?w c = (legal, w1)" by (cases "server_rx_opcode en ?w c")
  have "rx_bufs_ok en w1" "rx_ubuf_head w1 = 0" "opcode w1 = c AND 0xf"
    "legal \<Longrightarrow> legal_opcode (c AND 0xf)"
    using server_rx_opcode_ok [OF _ _ op] assms by simp_all
  then show ?thesis using op
    by (simp add: server_rx_first_def Let_def server_rx_inv_def)
qed

lemma server_rx_hdr_len_ok:
  assumes "rx_bufs_ok en w" and "rx_ubuf_head w = 0" and "legal_opcode (opcode w)"
  shows "server_parse_ok en (server_rx_hdr_len w c)"
proof (cases "c AND 0x7f \<noteq> 126 \<and> c AND 0x7f \<noteq> 127")
  case True
  moreover have "0 < rx_size en" using assms(1) by (simp add: rx_bufs_ok_def)
  ultimately show ?thesis using hdr_len7 [of c] assms
    by (simp add: server_rx_hdr_len_def Let_def server_rx_inv_def server_spill_pre_def rx_spill_pre_def)
next
  case False
  then show ?thesis using assms
    by (auto simp: server_rx_hdr_len_def Let_def server_rx_inv_def)
qed

lemma server_rx_store_ok:
  assumes "rx_bufs_ok en w" and "rx_ubuf_head w < rx_size en"
  shows "\<exists>w'. server_rx_store w c = Done w' \<and> rx_bufs_ok en w' \<and> rx_ubuf_head w' = Suc (rx_ubuf_head w) \<and>
    rx_packet_length w' = rx_packet_length w - 1 \<and> opcode w' = opcode w \<and>
    lws_rx_parse_state w' = lws_rx_parse_state w"
proof -
  have "rx_ubuf_head w < length (rx_ubuf w)" using assms by (simp add: rx_bufs_ok_def)
  then show ?thesis using assms(1) by (simp add: server_rx_store_def mem_store_one)
qed

lemma server_rx_payload_byte_ok:
  assumes "server_rx_inv en w" and "lws_rx_parse_state w = LWS_RXPS_WS_FRAME_PAYLOAD" and "opcode w AND 8 \<noteq> 0"
  shows "\<exists>p. server_rx_payload en False w c = Done p \<and> server_parse_ok en p"
proof -
  have ok: "rx_bufs_ok en w" "rx_ubuf_head w < rx_size en" "rx_packet_length w \<noteq> 0"
    "rx_ubuf_head w + unat (rx_packet_length w) \<le> 125" "legal_opcode (opcode w)"
    using assms by (simp_all add: server_rx_inv_def)
  then have ub: "rx_ubuf w \<noteq> []" "\<not> rx_draining_ext w" "rx_ubuf_head w + 16 < rx_ubuf_alloc w"
    by (auto simp: rx_bufs_ok_def)
  obtain w' where w': "server_rx_store w c = Done w'" "rx_bufs_ok en w'" "rx_ubuf_head w' = Suc (rx_ubuf_head w)"
    "rx_packet_length w' = rx_packet_length w - 1" "opcode w' = opcode w"
    "lws_rx_parse_state w' = LWS_RXPS_WS_FRAME_PAYLOAD"
    using server_rx_store_ok [OF ok(1,2)] assms(2) by auto
  then have nd: "\<not> rx_draining_ext w'" by (simp add: rx_bufs_ok_def)
  have len: "unat (rx_packet_length w - 1) = unat (rx_packet_length w) - 1"
    using ok(3) by (rule unat_minus_one)
  have pos: "0 < unat (rx_packet_length w)" using ok(3) unat_gt_0 by blast
  have top: "\<not> bit (rx_packet_length w - 1) 63" unfolding len_top using len ok(4) by simp
  have "server_rx_payload en False w c =
      (if rx_packet_length w' = 0 then Done (PSpill (set_rxps LWS_RXPS_NEW w'))
       else if rx_ubuf_head w' \<noteq> rx_size en then Done (PReturn 0 w') else Done (PSpill w'))"
    using ub w'(1) nd by (simp add: server_rx_payload_def rx_size_def)
  then show ?thesis using w' ok len pos top assms(3)
    by (auto simp: server_rx_inv_def server_spill_pre_def rx_spill_pre_def)
qed

lemma server_rx_payload_done_ok:
  assumes "server_rx_inv en w" and "rx_in_bulk w"
  shows "\<exists>p. server_rx_payload en True w c = Done p \<and> server_parse_ok en p \<and>
    (\<forall>r w'. p = PReturn r w' \<longrightarrow> r = 0 \<and> w' = w \<and> rx_packet_length w \<noteq> 0) \<and>
    (\<forall>w'. p = PSpill w' \<longrightarrow> w' = set_rxps LWS_RXPS_NEW w \<and> rx_packet_length w = 0)"
proof -
  have op: "opcode w AND 8 = 0" using assms(2) by (auto simp: rx_in_bulk_def)
  then have ok: "rx_bufs_ok en w" "rx_ubuf_head w = 0"
    using assms by (simp_all add: server_rx_inv_def rx_in_bulk_def)
  then have ub: "rx_ubuf w \<noteq> []" "\<not> rx_draining_ext w" "16 < rx_ubuf_alloc w" "0 < rx_size en"
    by (auto simp: rx_bufs_ok_def)
  have "server_rx_payload en True w c =
      (if rx_packet_length w = 0 then Done (PSpill (set_rxps LWS_RXPS_NEW w)) else Done (PReturn 0 w))"
    using ub ok(2) by (auto simp: server_rx_payload_def rx_size_def)
  then show ?thesis using ok op assms(1)
    by (simp add: server_spill_pre_def rx_spill_pre_def)
qed

lemma server_rx_parse_ok:
  assumes "server_rx_inv en w" and "ign \<longleftrightarrow> rx_in_bulk w"
  shows "\<exists>p. server_rx_parse en ign w c = Done p \<and> server_parse_ok en p"
proof (cases "lws_rx_parse_state w")
  case LWS_RXPS_NEW
  then have "server_parse_ok en (server_rx_new en w c)"
    using server_rx_first_ok [of en "w\<lparr>all_zero_nonce := True\<rparr>" c] assms(1)
    by (auto simp: server_rx_new_def server_rx_inv_def)
  then show ?thesis using LWS_RXPS_NEW by (simp add: server_rx_parse_def)
next
  case LWS_RXPS_04_FRAME_HDR_1
  then show ?thesis using server_rx_first_ok [of en w c] assms(1)
    by (simp add: server_rx_parse_def server_rx_inv_def)
next
  case LWS_RXPS_04_FRAME_HDR_LEN
  then show ?thesis using server_rx_hdr_len_ok [of en w c] assms(1)
    by (simp add: server_rx_parse_def server_rx_inv_def)
next
  case LWS_RXPS_WS_FRAME_PAYLOAD
  then have "opcode w AND 8 \<noteq> 0 \<or> rx_in_bulk w"
    using assms(1) by (auto simp: server_rx_inv_def rx_in_bulk_def legal_opcode_def)
  moreover have "rx_in_bulk w \<Longrightarrow> opcode w AND 8 = 0" by (auto simp: rx_in_bulk_def)
  ultimately show ?thesis
    using server_rx_payload_byte_ok [OF assms(1) LWS_RXPS_WS_FRAME_PAYLOAD, of c]
      server_rx_payload_done_ok [OF assms(1), of c] assms(2) LWS_RXPS_WS_FRAME_PAYLOAD
    by (cases ign) (auto simp: server_rx_parse_def)
next
  case LWS_RXPS_07_COLLECT_FRAME_KEY_4
  moreover have "0 < rx_size en" using assms by (simp add: server_rx_inv_def rx_bufs_ok_def)
  ultimately show ?thesis using assms
    by (simp add: server_rx_parse_def server_rx_inv_def server_spill_pre_def rx_spill_pre_def Let_def)
next
  case LWS_RXPS_04_FRAME_HDR_LEN16_1
  moreover have "0 < rx_size en" using assms by (simp add: server_rx_inv_def rx_bufs_ok_def)
  ultimately show ?thesis using assms
    by (simp add: server_rx_parse_def server_len_done_def server_rx_inv_def)
next
  case LWS_RXPS_04_FRAME_HDR_LEN64_1
  moreover have "0 < rx_size en" using assms by (simp add: server_rx_inv_def rx_bufs_ok_def)
  ultimately show ?thesis using assms
    by (simp add: server_rx_parse_def server_len_done_def server_rx_inv_def)
qed (use assms in \<open>simp_all add: server_rx_parse_def server_rx_inv_def\<close>)

subsection \<open>Spilling\<close>

definition server_res_ok :: "'e env \<Rightarrow> (int \<times> 'e wsi) outcome \<Rightarrow> bool" where
  "server_res_ok en m \<longleftrightarrow> (\<exists>r w. m = Done (r, w) \<and> (\<not> r < 0 \<longrightarrow> server_rx_inv en w))"

lemma server_res_ok_Done [simp]: "server_res_ok en (Done (r, w)) \<longleftrightarrow> (\<not> r < 0 \<longrightarrow> server_rx_inv en w)"
  by (simp add: server_res_ok_def)

lemma server_spill_pre_same:
  assumes "server_spill_pre en w" and "rx_bufs_ok en w'" and "rx_same w w'" and "rx_ubuf_head w' = rx_ubuf_head w"
  shows "server_spill_pre en w'"
  using assms rx_spill_pre_same [of en w w'] by (simp add: server_spill_pre_def rx_same_def)

lemma server_deliver_payload_ok:
  assumes pre: "server_spill_pre en w"
  shows "server_res_ok en (server_deliver_payload en act nocb w)"
proof -
  let ?w = "if rx_ubuf_head w = 0 then w else w\<lparr>rx_ubuf := (rx_ubuf w)[rx_ubuf_head w := 0]\<rparr>"
  have ok: "rx_bufs_ok en ?w" "rx_bufs_ok en w" using pre by (simp_all add: server_spill_pre_def rx_spill_pre_def)
  have "rx_same w ?w" by (simp add: rx_same_def)
  have "svc_keeps ?w (if has_callback en \<and> \<not> nocb
      then user_callback_handle_rxflow en ?w act (take (rx_ubuf_head w) (rx_ubuf w)) else Done (0, ?w))"
    using user_callback_handle_rxflow_ok [of ?w en act] rx_bufs_ok_svc [OF ok(1)] by (simp add: svc_keeps_Done)
  then obtain r w1 where w1: "(if has_callback en \<and> \<not> nocb
      then user_callback_handle_rxflow en ?w act (take (rx_ubuf_head w) (rx_ubuf w)) else Done (0, ?w)) = Done (r, w1)"
    "rx_frame w1 = rx_frame ?w" "svc_ok w1" by (rule svc_keepsE)
  have "rx_bufs_ok en w1" using w1(2,3) ok(1) by (rule rx_bufs_ok_frame)
  moreover have "rx_same w w1" using \<open>rx_same w ?w\<close> rx_same_frame [OF w1(2)] by (rule rx_same_trans)
  ultimately show ?thesis
    using ok(2) server_spill_reestablishes [OF pre] w1(1) by (simp add: server_deliver_payload_def Let_def)
qed

lemma server_text_check_ok:
  assumes "server_spill_pre en w" and "server_text_check w = (False, w')"
  shows "server_spill_pre en w'"
proof -
  have "utf8_state (utf8 w)" using assms(1) by (simp add: server_spill_pre_def rx_spill_pre_def rx_bufs_ok_def)
  then have "rx_bufs_ok en w'" "rx_same w w'" "rx_ubuf_head w' = rx_ubuf_head w"
    using assms check_utf8_loop_state [of "utf8 w"]
    by (auto simp: server_text_check_def client_text_check_def server_spill_pre_def rx_spill_pre_def
        split: if_splits option.splits)
  with assms(1) show ?thesis by (rule server_spill_pre_same)
qed

lemma server_rx_loop_ok:
  assumes pre: "server_spill_pre en w"
  shows "\<exists>m. server_rx_loop en act (rx_ebufs w) False nocb 0 w = Some m \<and> server_res_ok en m"
proof -
  have ok: "rx_bufs_ok en w" "rx_ubuf_head w \<le> rx_size en"
    using pre by (simp_all add: server_spill_pre_def rx_spill_pre_def)
  obtain bad w1 where c: "server_text_check w = (bad, w1)" by (cases "server_text_check w")
  have "\<not> bad \<Longrightarrow> server_res_ok en (server_deliver_payload en act nocb w1)"
    using server_text_check_ok [OF pre] c by (auto intro: server_deliver_payload_ok)
  moreover have "server_res_ok en (Done (0, w\<lparr>rx_ubuf_head := 0\<rparr>))"
    using server_spill_reestablishes [OF pre, of "w\<lparr>rx_ubuf_head := 0\<rparr>"] ok by simp
  ultimately show ?thesis using server_rx_loop_plain [OF ok] c by simp
qed

lemma server_rx_close_ok:
  assumes pre: "server_spill_pre en w" and op: "opcode w = LWSWSOPC_CLOSE" and cb: "has_callback en"
  shows "server_res_ok en (server_rx_close en w)"
proof -
  let ?v = "w\<lparr>peer_has_sent_close := True\<rparr>"
  have "rx_spill_pre en ?v"
    using pre by (auto simp: server_spill_pre_def rx_spill_pre_def)
  then obtain bad st where u: "rx_close_utf8 en ?v = Done (bad, ?v\<lparr>utf8 := st\<rparr>)" "utf8_state st"
    using rx_close_utf8_ok by blast
  have ok: "rx_bufs_ok en (?v\<lparr>utf8 := st\<rparr>)" and hd: "rx_ubuf_head w \<le> rx_size en" "rx_ubuf_head w \<le> 125"
    using pre u(2) op by (simp_all add: server_spill_pre_def rx_spill_pre_def)
  obtain b where b: "rx_close_sanitize server_close_code_bad (?v\<lparr>utf8 := st\<rparr>) = Done (?v\<lparr>utf8 := st, rx_ubuf := b\<rparr>)"
    "length b = length (rx_ubuf w)" using rx_close_sanitize_ok [OF ok] hd(1) by auto
  let ?w = "?v\<lparr>utf8 := st, rx_ubuf := b\<rparr>"
  let ?pp = "take (rx_ubuf_head w) b"
  have ok': "rx_bufs_ok en ?w" using ok b(2) by simp
  have ld: "mem_load b 0 (rx_ubuf_head w) = Done ?pp"
    using ok' hd by (simp add: mem_load_def rx_bufs_ok_def)
  have "svc_keeps ?w (user_callback_handle_rxflow en ?w LWS_CALLBACK_WS_PEER_INITIATED_CLOSE ?pp)"
    using ok' cb by (intro user_callback_handle_rxflow_ok rx_bufs_ok_svc)
  then obtain r w1 where w1: "user_callback_handle_rxflow en ?w LWS_CALLBACK_WS_PEER_INITIATED_CLOSE ?pp = Done (r, w1)"
    "rx_frame w1 = rx_frame ?w" "svc_ok w1" by (rule svc_keepsE)
  let ?w2 = "w1\<lparr>wsi_state := LRS_RETURNED_CLOSE, payload_is_close := True\<rparr>"
  have "rx_bufs_ok en w1" using w1(2,3) ok' by (rule rx_bufs_ok_frame)
  then have ok2: "rx_bufs_ok en ?w2" by simp
  have s2: "rx_same w ?w2" using rx_same_frame [OF w1(2)] by (simp add: rx_same_def)
  have "rx_ubuf_head ?w2 = rx_ubuf_head w" using rx_frame_fields(3) [OF w1(2)] by simp
  with pre ok2 s2 have "server_spill_pre en ?w2" by (rule server_spill_pre_same)
  then obtain w3 where w3: "rx_stash_pong ?w2 = Done w3" "rx_bufs_ok en w3" "rx_same ?w2 w3" "rx_ubuf_head w3 = 0"
    using rx_stash_pong_ok [of en ?w2] by (auto simp: server_spill_pre_def)
  have "server_rx_inv en w3"
    using server_spill_reestablishes [OF pre w3(2) rx_same_trans [OF s2 w3(3)] w3(4)] .
  then show ?thesis using u b ld w1(1) w3(1) by (simp add: server_rx_close_def)
qed

lemma server_rx_spill_ok:
  assumes pre: "server_spill_pre en w" and cb: "has_callback en"
  shows "\<exists>m. server_rx_spill en nocb w = Some m \<and> server_res_ok en m"
proof -
  let ?v = "log_event EvValidity w"
  have v: "server_spill_pre en ?v" using pre
    by (rule server_spill_pre_same) (use pre in \<open>simp_all add: server_spill_pre_def rx_spill_pre_def rx_same_def log_event_def\<close>)
  then have "\<exists>m. server_rx_loop en act (rx_ebufs ?v) False nocb 0 ?v = Some m \<and> server_res_ok en m" for act
    using server_rx_loop_ok [of en ?v act] by simp
  moreover have "server_rx_inv en (?v\<lparr>rx_ubuf_head := 0\<rparr>)"
    using server_spill_reestablishes [OF v] v by (simp add: server_spill_pre_def rx_spill_pre_def)
  moreover have "server_res_ok en (server_rx_ping w)"
    using rx_stash_pong_ok [of en w] server_spill_reestablishes [OF pre] pre
    by (auto simp: server_rx_ping_def server_spill_pre_def rx_spill_pre_def)
  ultimately show ?thesis
    using server_rx_close_ok [OF pre _ cb] server_rx_loop_ok [OF pre]
    by (simp add: server_rx_spill_def Let_def)
qed

lemma lws_ws_rx_sm_ok:
  assumes "server_rx_inv en w" and "has_callback en" and "ign \<longleftrightarrow> rx_in_bulk w"
  shows "\<exists>r w'. lws_ws_rx_sm en w ign nocb c = Some (Done (r, w')) \<and> (\<not> r < 0 \<longrightarrow> server_rx_inv en w')"
proof -
  have nd: "\<not> rx_draining_ext w" using assms(1) by (simp add: server_rx_inv_def rx_bufs_ok_def)
  obtain p where "server_rx_parse en ign w c = Done p" "server_parse_ok en p"
    using server_rx_parse_ok [OF assms(1,3)] by blast
  then show ?thesis using nd server_rx_spill_ok [OF _ assms(2)]
    by (cases p) (force simp: lws_ws_rx_sm_def server_res_ok_def)+
qed

section \<open>Bulk unmasking\<close>

lemma unmask_groups_eq:
  assumes "4 * n \<le> length buf"
  shows "unmask_groups n m buf = (map (\<lambda>i. buf ! i XOR m ! (i mod 4)) [0..<4 * n], drop (4 * n) buf)"
  using assms
proof (induction n arbitrary: buf)
  case (Suc n)
  have "[0..<4] = [0, 1, 2, 3 :: nat]" by code_simp
  then have "[0..<4 * Suc n] = [0, 1, 2, 3] @ map (\<lambda>i. i + 4) [0..<4 * n]"
    using upt_add_eq_append [of 0 4 "4 * n"] by (simp add: map_add_upt add.commute)
  moreover have "unmask_groups n m (drop 4 buf) =
      (map (\<lambda>i. drop 4 buf ! i XOR m ! (i mod 4)) [0..<4 * n], drop (4 * n) (drop 4 buf))"
    using Suc.prems by (intro Suc.IH) simp
  moreover have "drop 4 buf ! i = buf ! (i + 4)" for i
    using Suc.prems by (simp add: add.commute)
  ultimately show ?case by (simp add: add.commute) (simp only: numeral_2_eq_2 numeral_3_eq_3 simp_thms)
qed simp

lemma bulk_unmask_bytewise:
  "bulk_unmask key idx buf = map (\<lambda>i. buf ! i XOR key ! ((idx + i) mod 4)) [0..<length buf]"
proof -
  let ?n = "length buf" and ?m = "map (\<lambda>n. key ! ((idx + n) mod 4)) [0..<4]"
  let ?f = "\<lambda>i. buf ! i XOR key ! ((idx + i) mod 4)"
  have m: "?m ! (i mod 4) = key ! ((idx + i) mod 4)" for i
    by (simp add: mod_add_right_eq)
  have le: "4 * (?n div 4) \<le> ?n" by simp
  have "unmask_groups (?n div 4) ?m buf =
      (map ?f [0..<4 * (?n div 4)], drop (4 * (?n div 4)) buf)"
    unfolding unmask_groups_eq [OF le] using m by simp
  moreover have "map (\<lambda>n. drop (4 * (?n div 4)) buf ! n XOR ?m ! n) [0..<?n mod 4] =
      map ?f (map (\<lambda>n. n + 4 * (?n div 4)) [0..<?n mod 4])"
  proof -
    have "drop (4 * (?n div 4)) buf ! n XOR ?m ! n = ?f (n + 4 * (?n div 4))" if "n < ?n mod 4" for n
    proof -
      have "(idx + (n + 4 * (?n div 4))) mod 4 = (idx + n) mod 4" by presburger
      moreover have "n < 4" using that by (rule less_trans) simp
      ultimately show ?thesis using m [of n] by (simp add: add.commute)
    qed
    then show ?thesis by simp
  qed
  moreover have "map (\<lambda>n. n + 4 * (?n div 4)) [0..<?n mod 4] = [4 * (?n div 4)..<?n]"
    by (simp add: map_add_upt)
  moreover have "[0..<4 * (?n div 4)] @ [4 * (?n div 4)..<?n] = [0..<?n]"
    using le by (metis le_add_diff_inverse upt_add_eq_append zero_le)
  ultimately show ?thesis by (simp add: bulk_unmask_def Let_def flip: map_append)
qed

lemma bulk_unmask_length [simp]: "length (bulk_unmask key idx buf) = length buf"
  by (simp add: bulk_unmask_bytewise)

section \<open>The bulk path without extensions\<close>

definition rest_text_check :: "bytes \<Rightarrow> 'e wsi \<Rightarrow> bool \<times> 'e wsi" where
  "rest_text_check data w =
     (if \<not> (check_utf8 w \<and> \<not> defeat_check_utf8 w) then (False, w)
      else case check_utf8_loop (utf8 w) data of
        None \<Rightarrow> (True, lws_close_reason LWS_CLOSE_STATUS_INVALID_PAYLOAD (Some (bytes_of_string ''bad utf8'')) w)
      | Some st \<Rightarrow>
          if rx_packet_length w = 0 \<and> ws_final w \<and> st \<noteq> 0
          then (True, lws_close_reason LWS_CLOSE_STATUS_INVALID_PAYLOAD
                        (Some (bytes_of_string ''partial utf8'')) (w\<lparr>utf8 := st\<rparr>))
          else (False, w\<lparr>utf8 := st\<rparr>))"

text \<open>The input unmasked, and the connection after taking it.\<close>

definition rest_data :: "'e wsi \<Rightarrow> bytes \<Rightarrow> bytes" where
  "rest_data w buf = (if all_zero_nonce w then buf else bulk_unmask (mask w) (unat (mask_idx w)) buf)"

definition rest_take :: "nat \<Rightarrow> 'e wsi \<Rightarrow> 'e wsi" where
  "rest_take k w =
     (if all_zero_nonce w then w\<lparr>rx_packet_length := rx_packet_length w - of_nat k\<rparr>
      else w\<lparr>mask_idx := of_nat ((unat (mask_idx w) + k) mod 4),
             rx_packet_length := rx_packet_length w - of_nat k\<rparr>)"

lemma rest_avail_plain:
  "rx_bufs_ok en w \<Longrightarrow> rest_avail en w n = min (min (rx_size en) (unat (rx_packet_length w))) n"
  by (auto simp: rest_avail_def rx_bufs_ok_def Let_def)

lemma rest_is_payload_plain:
  assumes "rx_bufs_ok en w" and "k = rest_avail en w (length buf)" and "0 < k" and "length buf < 2 ^ 31"
  shows "lws_ws_frame_rest_is_payload en w buf =
    (let data = rest_data w (take k buf); (bad, w1) = rest_text_check data (rest_take k w) in
     if bad then Done (-1, k, w1)
     else bind_outcome
       (if has_callback en \<and> \<not> wsistate_pre_close w1
        then user_callback_handle_rxflow en w1 LWS_CALLBACK_RECEIVE data else Done (0, w1))
       (\<lambda>(r, w2). if r \<noteq> 0 then Done (-1, k, w2) else Done (int k, k, w2\<lparr>first_fragment := False\<rparr>)))"
proof -
  let ?data = "rest_data w (take k buf)" and ?w = "rest_take k w"
  have k: "k \<le> length buf" using assms(2) by (simp add: rest_avail_plain [OF assms(1)])
  have len: "length ?data = k" using k by (simp add: rest_data_def)
  have nx: "count_act_ext ?w = 0" "\<not> rx_draining_ext ?w"
    using assms(1) by (simp_all add: rest_take_def rx_bufs_ok_def)
  have k31: "k < 2 ^ 31" using k assms(4) by (rule le_less_trans)
  then have "int k mod 2 ^ 32 = int k" by simp
  then have ld: "token_load_u32 v \<lparr>tok = TExt (?data @ drop k buf), tok_len = int k\<rparr> = Done ?data" for v :: "'a wsi"
    unfolding token_load_u32_def using k len by (simp add: token_load_def mem_load_def)
  have dw: "(if all_zero_nonce w then (take k buf, w)
      else (bulk_unmask (mask w) (unat (mask_idx w)) (take k buf),
            w\<lparr>mask_idx := of_nat ((unat (mask_idx w) + k) mod 4)\<rparr>)) =
      (?data, w\<lparr>mask_idx := mask_idx ?w\<rparr>)" "w\<lparr>mask_idx := mask_idx ?w, rx_packet_length := rx_packet_length w - of_nat k\<rparr> = ?w"
    by (simp_all add: rest_data_def rest_take_def)
  show ?thesis
    using assms(3) nx
    unfolding lws_ws_frame_rest_is_payload_def assms(2) [symmetric] dw(1) Let_def c_int_small [OF k31]
    by (simp add: dw(2) ld mark_draining_none rest_text_check_def check_utf8_in_def lws_check_utf8_def
        split: option.splits) blast
qed

lemma rest_take_bufs [simp]: "rx_bufs_ok en (rest_take k w) = rx_bufs_ok en w"
  by (simp add: rest_take_def)

lemma rest_text_check_ok:
  assumes "rx_bufs_ok en w" and "rest_text_check data w = (False, w')"
  shows "rx_bufs_ok en w' \<and> rx_same w w' \<and> rx_ubuf_head w' = rx_ubuf_head w"
proof -
  have "utf8_state (utf8 w)" using assms(1) by (simp add: rx_bufs_ok_def)
  then show ?thesis using assms check_utf8_loop_state [of "utf8 w" data]
    by (auto simp: rest_text_check_def split: if_splits option.splits)
qed

lemma rest_is_payload_ok:
  assumes inv: "server_rx_inv en w" and bulk: "rx_in_bulk w" and ne: "buf \<noteq> []" and small: "length buf < 2 ^ 31"
  shows "\<exists>m k w'. lws_ws_frame_rest_is_payload en w buf = Done (m, k, w') \<and> k \<le> length buf \<and>
    (m = 0 \<longrightarrow> k = 0 \<and> w' = w \<and> rx_packet_length w = 0) \<and>
    (m > 0 \<longrightarrow> 0 < k \<and> server_rx_inv en w' \<and> rx_in_bulk w')"
proof (cases "rest_avail en w (length buf) = 0")
  case True
  have "rx_bufs_ok en w" using inv by (rule server_rx_inv_bufs)
  then have "rx_packet_length w = 0" using True ne
    by (auto simp: rest_avail_plain rx_bufs_ok_def min_def unat_eq_zero split: if_splits)
  then show ?thesis using True by (simp add: lws_ws_frame_rest_is_payload_def)
next
  case False
  have op: "opcode w AND 8 = 0" using bulk by (auto simp: rx_in_bulk_def)
  have b: "rx_bufs_ok en w" using inv by (rule server_rx_inv_bufs)
  have h: "rx_ubuf_head w = 0" "legal_opcode (opcode w)" "0 < rx_size en"
    using inv bulk op by (simp_all add: server_rx_inv_def rx_in_bulk_def rx_bufs_ok_def)
  define k where "k = rest_avail en w (length buf)"
  have k: "0 < k" "k \<le> length buf" using False by (simp_all add: k_def rest_avail_plain [OF b])
  let ?data = "rest_data w (take k buf)"
  obtain bad w1 where c: "rest_text_check ?data (rest_take k w) = (bad, w1)"
    by (cases "rest_text_check ?data (rest_take k w)")
  show ?thesis
  proof (cases bad)
    case True
    then show ?thesis using rest_is_payload_plain [OF b k_def k(1) small] c k by simp
  next
    case nb: False
    have w1: "rx_bufs_ok en w1" "rx_same (rest_take k w) w1" "rx_ubuf_head w1 = 0"
      using rest_text_check_ok [of en "rest_take k w" ?data w1] b c nb h(1)
      by (simp_all add: rest_take_def)
    have "svc_keeps w1 (if has_callback en \<and> \<not> wsistate_pre_close w1
        then user_callback_handle_rxflow en w1 LWS_CALLBACK_RECEIVE ?data else Done (0, w1))"
      using user_callback_handle_rxflow_ok [of w1 en] rx_bufs_ok_svc [OF w1(1)] by (simp add: svc_keeps_Done)
    then obtain r w2 where w2: "(if has_callback en \<and> \<not> wsistate_pre_close w1
        then user_callback_handle_rxflow en w1 LWS_CALLBACK_RECEIVE ?data else Done (0, w1)) = Done (r, w2)"
      "rx_frame w2 = rx_frame w1" "svc_ok w2" by (rule svc_keepsE)
    have "rx_bufs_ok en w2" using w2(2,3) w1(1) by (rule rx_bufs_ok_frame)
    moreover have "rx_same (rest_take k w) w2" using w1(2) rx_same_frame [OF w2(2)] by (rule rx_same_trans)
    then have s2: "lws_rx_parse_state w2 = lws_rx_parse_state w" "opcode w2 = opcode w" "rx_packet_length w2 = rx_packet_length w - of_nat k"
      by (simp_all add: rx_same_def rest_take_def)
    have "k \<le> unat (rx_packet_length w)" "\<not> bit (rx_packet_length w) 63"
      using inv bulk by (auto simp: k_def rest_avail_plain [OF b] server_rx_inv_def rx_in_bulk_def)
    then have "\<not> bit (rx_packet_length w2) 63" unfolding s2(3) by (rule len_minus_top)
    moreover note s2(1,2)
    moreover have "rx_ubuf_head w2 = 0" using rx_frame_fields(3) [OF w2(2)] w1(3) by simp
    ultimately have "server_rx_inv en (w2\<lparr>first_fragment := False\<rparr>)" "rx_in_bulk (w2\<lparr>first_fragment := False\<rparr>)"
      using bulk op h by (simp_all add: server_rx_inv_def rx_in_bulk_def)
    then show ?thesis using rest_is_payload_plain [OF b k_def k(1) small] c nb k w2(1) by simp
  qed
qed

lemma parse_ws_bulk_ok:
  assumes "server_rx_inv en w" and "rx_in_bulk w" and "length rest < 2 ^ 31"
  shows "\<exists>bail used' rest' w'. parse_ws_bulk en w used rest = Some (Done (bail, used', rest', w')) \<and>
    used \<le> used' \<and> used' + length rest' = used + length rest \<and>
    (\<not> bail \<longrightarrow> server_rx_inv en w' \<and> rx_in_bulk w' \<and> (rest' = [] \<or> rx_packet_length w' = 0))"
  using assms
proof (induction "length rest" arbitrary: w used rest rule: less_induct)
  case less
  show ?case
  proof (cases "rest = []")
    case True
    then show ?thesis using less.prems by (auto simp: parse_ws_bulk.simps)
  next
    case False
    obtain m k w1 where r: "lws_ws_frame_rest_is_payload en w rest = Done (m, k, w1)" "k \<le> length rest"
      "m = 0 \<longrightarrow> k = 0 \<and> w1 = w \<and> rx_packet_length w = 0"
      "m > 0 \<longrightarrow> 0 < k \<and> server_rx_inv en w1 \<and> rx_in_bulk w1"
      using rest_is_payload_ok [OF less.prems(1,2) False less.prems(3)] by blast
    have ci: "c_int k \<le> c_int (length rest)" using r(2) less.prems(3) by simp
    show ?thesis
    proof (cases "m > 0")
      case True
      then have "length (drop k rest) < length rest" using r(4) False by simp
      moreover have "length (drop k rest) < 2 ^ 31" using less.prems(3) by simp
      ultimately obtain bail used' rest' w' where "parse_ws_bulk en w1 (used + k) (drop k rest) = Some (Done (bail, used', rest', w'))"
        "used + k \<le> used'" "used' + length rest' = used + k + length (drop k rest)"
        "\<not> bail \<longrightarrow> server_rx_inv en w' \<and> rx_in_bulk w' \<and> (rest' = [] \<or> rx_packet_length w' = 0)"
        using less.hyps [of "drop k rest" w1 "used + k"] r(4) True by blast
      with r(2,4) True False ci less.prems(2)
      show ?thesis by (auto simp: parse_ws_bulk.simps [of en w] r(1))
    next
      case nm: False
      then show ?thesis using r False ci less.prems
        by (cases "m = 0") (auto simp: parse_ws_bulk.simps [of en w])
    qed
  qed
qed

lemma rx_sm_after_bulk:
  assumes inv: "server_rx_inv en w" and bulk: "rx_in_bulk w"
  shows "\<exists>w'. lws_ws_rx_sm en w True True 0 = Some (Done (0, w')) \<and> server_rx_inv en w' \<and>
    (if rx_packet_length w = 0
     then \<exists>f. w' = (set_rxps LWS_RXPS_NEW w)\<lparr>first_fragment := f, rx_ubuf_head := 0\<rparr> else w' = w)"
proof -
  have st: "lws_rx_parse_state w = LWS_RXPS_WS_FRAME_PAYLOAD" and op: "opcode w AND 8 = 0"
    using bulk by (auto simp: rx_in_bulk_def)
  have b: "rx_bufs_ok en w" "rx_ubuf_head w = 0" using inv st op by (simp_all add: server_rx_inv_def)
  obtain p where p: "server_rx_payload en True w 0 = Done p" "server_parse_ok en p"
    "\<forall>r w'. p = PReturn r w' \<longrightarrow> r = 0 \<and> w' = w \<and> rx_packet_length w \<noteq> 0"
    "\<forall>w'. p = PSpill w' \<longrightarrow> w' = set_rxps LWS_RXPS_NEW w \<and> rx_packet_length w = 0"
    using server_rx_payload_done_ok [OF inv bulk] by blast
  show ?thesis
  proof (cases p)
    case (PReturn r w')
    then show ?thesis using p st inv by (simp add: lws_ws_rx_sm_def server_rx_parse_def)
  next
    case (PSpill w')
    let ?w = "set_rxps LWS_RXPS_NEW w"
    have w': "w' = ?w" "rx_packet_length w = 0" using p(4) PSpill by blast+
    have ok: "rx_bufs_ok en ?w" "rx_ubuf_head ?w \<le> rx_size en" using b by simp_all
    have "lws_ws_rx_sm en w True True 0 = server_rx_spill en True ?w"
      using p(1) PSpill st w'(1) by (simp add: lws_ws_rx_sm_def server_rx_parse_def)
    also have "\<dots> = server_rx_loop en LWS_CALLBACK_RECEIVE (rx_ebufs ?w) False True 0 ?w"
      using bulk by (auto simp: server_rx_spill_def rx_in_bulk_def set_rxps_def)
    finally have sm: "lws_ws_rx_sm en w True True 0 = \<dots>" .
    have "\<exists>f. lws_ws_rx_sm en w True True 0 = Some (Done (0, ?w\<lparr>first_fragment := f, rx_ubuf_head := 0\<rparr>))"
    proof (cases "wsi_state ?w = LRS_RETURNED_CLOSE \<or> wsi_state ?w = LRS_AWAITING_CLOSE_ACK \<or> wsistate_pre_close ?w")
      case True
      then have "lws_ws_rx_sm en w True True 0 = Some (Done (0, ?w\<lparr>first_fragment := first_fragment ?w, rx_ubuf_head := 0\<rparr>))"
        using b(2) by (auto simp: sm server_rx_loop_plain [OF ok] server_text_check_def server_deliver_payload_def)
      then show ?thesis by blast
    next
      case False
      then have "lws_ws_rx_sm en w True True 0 = Some (Done (0, ?w\<lparr>first_fragment := False, rx_ubuf_head := 0\<rparr>))"
        using b(2) by (auto simp: sm server_rx_loop_plain [OF ok] server_text_check_def server_deliver_payload_def)
      then show ?thesis by blast
    qed
    then obtain f where "lws_ws_rx_sm en w True True 0 = Some (Done (0, ?w\<lparr>first_fragment := f, rx_ubuf_head := 0\<rparr>))"
      by blast
    moreover have "server_rx_inv en (?w\<lparr>first_fragment := f, rx_ubuf_head := 0\<rparr>)"
      using b(1) by (simp add: server_rx_inv_def)
    ultimately show ?thesis using w'(2) by auto
  qed (use p(2) in simp)
qed

text \<open>The driver over a whole buffer, case by case.\<close>

lemma parse_ws_loop_flow:
  assumes inv: "server_rx_inv en w" and "rest \<noteq> []" and "rxflow_bitmap w \<noteq> 0"
  shows "\<exists>k w'. parse_ws_loop en cached w used rest = Some (Done (1, k, w')) \<and> k \<le> used + length rest \<and>
    server_rx_inv en w'"
proof -
  have b: "rx_bufs_ok en w" using inv by (rule server_rx_inv_bufs)
  obtain r w' where c: "lws_rxflow_cache en w (if cached then Some used else None) rest 0 = Done (r, w')"
    "rx_frame w' = rx_frame w" "svc_ok w'"
    using lws_rxflow_cache_ok [OF rx_bufs_ok_svc [OF b] assms(2)] by blast
  have "rx_bufs_ok en w'" using c(2,3) b by (rule rx_bufs_ok_frame)
  then have "server_rx_inv en w'" 
    using inv unfolding server_rx_inv_def rx_len_ok_def rx_frame_fields(1,3,5,6) [OF c(2)] by blast
  then show ?thesis using c(1) assms(2,3) by (simp add: parse_ws_loop.simps)
qed

lemma parse_ws_loop_byte:
  assumes inv: "server_rx_inv en w" and "has_callback en" and "rxflow_bitmap w = 0" and "\<not> rx_in_bulk w"
  shows "\<exists>w'. parse_ws_loop en cached w used (c # rest) = Some (Done (-1, used + 1, w')) \<or>
    server_rx_inv en w' \<and> parse_ws_loop en cached w used (c # rest) = parse_ws_loop en cached w' (used + 1) rest"
proof -
  have nd: "\<not> rx_draining_ext w" using inv by (simp add: server_rx_inv_def rx_bufs_ok_def)
  obtain r w1 where sm: "lws_ws_rx_sm en w False False c = Some (Done (r, w1))"
    "\<not> r < 0 \<longrightarrow> server_rx_inv en w1"
    using lws_ws_rx_sm_ok [OF inv assms(2), of False] assms(4) by blast
  have "parse_ws_bulk en w used (c # rest) = Some (Done (False, used, c # rest, w))"
    using assms(4) by (simp add: parse_ws_bulk.simps)
  then show ?thesis using assms(3,4) nd sm
    by (cases "r < 0") (auto simp: parse_ws_loop.simps [of en cached w])
qed

lemma parse_ws_loop_bulk:
  assumes inv: "server_rx_inv en w" and "rest \<noteq> []" and "rxflow_bitmap w = 0" and "rx_in_bulk w" and "length rest < 2 ^ 31"
  shows "\<exists>used' rest' w'. used \<le> used' \<and> used' + length rest' = used + length rest \<and>
    (parse_ws_loop en cached w used rest = Some (Done (-1, used', w')) \<or>
     server_rx_inv en w' \<and> (rest' = [] \<or> \<not> rx_in_bulk w') \<and>
     parse_ws_loop en cached w used rest = parse_ws_loop en cached w' used' rest')"
proof -
  have nd: "\<not> rx_draining_ext w" using inv by (simp add: server_rx_inv_def rx_bufs_ok_def)
  obtain bail used' rest' w1 where pb: "parse_ws_bulk en w used rest = Some (Done (bail, used', rest', w1))"
    "used \<le> used'" "used' + length rest' = used + length rest"
    "\<not> bail \<longrightarrow> server_rx_inv en w1 \<and> rx_in_bulk w1 \<and> (rest' = [] \<or> rx_packet_length w1 = 0)"
    using parse_ws_bulk_ok [OF inv assms(4,5)] by blast
  show ?thesis
  proof (cases bail)
    case True
    then have "parse_ws_loop en cached w used rest = Some (Done (-1, used', w1))"
      using assms nd pb(1) by (simp add: parse_ws_loop.simps [of en cached w])
    then show ?thesis using pb(2,3) by blast
  next
    case False
    then obtain w2 where sm: "lws_ws_rx_sm en w1 True True 0 = Some (Done (0, w2))" "server_rx_inv en w2"
      "if rx_packet_length w1 = 0
       then \<exists>f. w2 = (set_rxps LWS_RXPS_NEW w1)\<lparr>first_fragment := f, rx_ubuf_head := 0\<rparr> else w2 = w1"
      using rx_sm_after_bulk [of en w1] pb(4) by blast
    have "parse_ws_loop en cached w used rest = parse_ws_loop en cached w2 used' rest'"
      using assms nd pb(1) sm(1) False by (simp add: parse_ws_loop.simps [of en cached w])
    moreover have "rest' = [] \<or> \<not> rx_in_bulk w2" using sm(3) pb(4) False by (auto simp: rx_in_bulk_def)
    ultimately show ?thesis using pb(2,3) sm(2) by blast
  qed
qed

lemma parse_ws_loop_ok:
  assumes "server_rx_inv en w" and "has_callback en"
  shows "length rest < 2 ^ 31 \<Longrightarrow> \<exists>r k w'. parse_ws_loop en cached w used rest = Some (Done (r, k, w')) \<and> k \<le> used + length rest \<and>
    (\<not> r < 0 \<longrightarrow> server_rx_inv en w')"
  using assms(1)
proof (induction "2 * length rest + (if rx_in_bulk w then 1 else 0)" arbitrary: w used rest rule: less_induct)
  case less
  consider (empty) "rest = []" | (flow) "rest \<noteq> []" "rxflow_bitmap w \<noteq> 0"
    | (byte) c cs where "rest = c # cs" "rxflow_bitmap w = 0" "\<not> rx_in_bulk w"
    | (bulk) "rest \<noteq> []" "rxflow_bitmap w = 0" "rx_in_bulk w" by (cases rest) blast+
  then show ?case
  proof cases
    case empty
    then show ?thesis using less.prems by (simp add: parse_ws_loop.simps)
  next
    case flow
    then show ?thesis using parse_ws_loop_flow [OF less.prems(2)] by fastforce
  next
    case byte
    from parse_ws_loop_byte [OF less.prems(2) assms(2) byte(2,3), of cached used c cs] obtain w1 where
      "parse_ws_loop en cached w used (c # cs) = Some (Done (-1, used + 1, w1)) \<or>
       server_rx_inv en w1 \<and> parse_ws_loop en cached w used (c # cs) = parse_ws_loop en cached w1 (used + 1) cs"
      by blast
    then show ?thesis using less.hyps [of cs w1 "used + 1"] byte(1) less.prems(1) by auto
  next
    case bulk
    from parse_ws_loop_bulk [OF less.prems(2) bulk less.prems(1), of used cached] obtain used' rest' w1 where
      k: "used \<le> used'" "used' + length rest' = used + length rest" and
      p: "parse_ws_loop en cached w used rest = Some (Done (-1, used', w1)) \<or>
        server_rx_inv en w1 \<and> (rest' = [] \<or> \<not> rx_in_bulk w1) \<and>
        parse_ws_loop en cached w used rest = parse_ws_loop en cached w1 used' rest'" by blast
    show ?thesis
    proof (cases "rest' = []")
      case True
      then show ?thesis using p k by (auto simp: parse_ws_loop.simps [of en cached w1])
    next
      case False
      then show ?thesis using p k less.hyps [of rest' w1 used'] bulk(3) less.prems(1) by auto
    qed
  qed
qed

section \<open>Properties\<close>

text \<open>C3. The receive path of a server on whose connection no extension was negotiated is total and memory safe: for every buffer of
  fewer than \<open>2 ^ 31\<close> received bytes, however it splits the peer's frames, whatever the user's callback does and whether or not it
  stops reception, \<open>lws_parse_ws\<close> returns, never reads or writes outside a buffer, never fails an assertion, and never consumes
  more than it was given.  Unless it asks for the connection to be dropped, the invariant holds again, and with it the bound on what
  is left of a frame: inside the payload of a data frame \<open>rx_packet_length\<close> is below \<open>2 ^ 63\<close>, as it would not be if taking payload
  had carried it below zero.\<close>

theorem lws_parse_ws_safe:
  assumes "server_rx_inv en w" and "has_callback en" and "length buf < 2 ^ 31"
  shows "\<exists>r k w'. lws_parse_ws en w cached buf = Some (Done (r, k, w')) \<and> k \<le> length buf \<and>
    (\<not> r < 0 \<longrightarrow> server_rx_inv en w' \<and> (rx_in_bulk w' \<longrightarrow> unat (rx_packet_length w') < 2 ^ 63))"
proof -
  obtain r k w' where p: "lws_parse_ws en w cached buf = Some (Done (r, k, w'))" "k \<le> length buf" "\<not> r < 0 \<longrightarrow> server_rx_inv en w'"
    using parse_ws_loop_ok [OF assms, of cached 0] by (auto simp: lws_parse_ws_def)
  have "unat (rx_packet_length w') < 2 ^ 63" if "server_rx_inv en w'" "rx_in_bulk w'"
    using that unfolding len_top [symmetric] by (auto simp: server_rx_inv_def rx_in_bulk_def)
  then show ?thesis using p by blast
qed

lemma server_established_inv:
  "0 < sz \<Longrightarrow> sz < 2 ^ 32 \<Longrightarrow> server_rx_inv (quiet_env v sz) (ws_established False sz :: 'e wsi)"
  using ws_established_bufs [of sz v False]
  by (simp add: server_rx_inv_def ws_established_def wsi_zalloc_def)

theorem lws_parse_ws_safe_witness:
  "\<exists>r k w'. lws_parse_ws (quiet_env True 64) (ws_established False 64 :: unit wsi) False [0x81, 0x80, 1, 2] =
       Some (Done (r, k, w')) \<and> k \<le> length [0x81, 0x80, 1, 2 :: u8] \<and>
     (\<not> r < 0 \<longrightarrow> server_rx_inv (quiet_env True 64) w' \<and> (rx_in_bulk w' \<longrightarrow> unat (rx_packet_length w') < 2 ^ 63))"
  by (rule lws_parse_ws_safe) (simp_all add: server_established_inv, simp add: quiet_env_def)

text \<open>C30. Bulk unmasking, four bytes at a time with the key rotated to the current position, gives the
  same bytes as unmasking one by one.\<close>

theorem bulk_unmask_is_bytewise:
  "bulk_unmask key idx buf = map (\<lambda>i. buf ! i XOR key ! ((idx + i) mod 4)) [0..<length buf]"
  by (rule bulk_unmask_bytewise)

end
