(* ===== verification/Ws_Frame_Rules.thy ===== *)
theory Ws_Frame_Rules
  imports Ws_Server_Rx
begin

text \<open>
  Which frames may start when: the rules of RFC 6455 on opcodes, reserved bits, fragmentation and
  control frames as a two-state machine over first frame bytes, and the proof that both frame parsers
  admit exactly the sequences it admits when no extension is negotiated.  The locale is the contract
  of a frame admission; the server's and the client's parser are its two instances.
\<close>

section \<open>Reference\<close>

text \<open>\<open>in_msg\<close>: a fragmented message is open, its final fragment has not been seen.\<close>

definition frame_ok :: "bool \<Rightarrow> u8 \<Rightarrow> bool" where
  "frame_ok in_msg c \<longleftrightarrow> c AND 0x70 = 0 \<and>
     (let op = c AND 0xf in
      (op = 8 \<or> op = 9 \<or> op = 10) \<and> bit c 7 \<or> (op = 1 \<or> op = 2) \<and> \<not> in_msg \<or> op = 0 \<and> in_msg)"

definition frame_next :: "bool \<Rightarrow> u8 \<Rightarrow> bool" where
  "frame_next in_msg c = (if (c AND 0xf) AND 8 \<noteq> 0 then in_msg else \<not> bit c 7)"

fun frames_ok :: "bool \<Rightarrow> bytes \<Rightarrow> bool" where
  "frames_ok in_msg [] = True"
| "frames_ok in_msg (c # cs) = (frame_ok in_msg c \<and> frames_ok (frame_next in_msg c) cs)"

fun admit :: "('w \<Rightarrow> u8 \<Rightarrow> bool \<times> 'w) \<Rightarrow> 'w \<Rightarrow> bytes \<Rightarrow> bool" where
  "admit first w [] = True"
| "admit first w (c # cs) = (case first w c of (ok, w') \<Rightarrow> ok \<and> admit first w' cs)"

locale frame_admission =
  fixes first :: "'w \<Rightarrow> u8 \<Rightarrow> bool \<times> 'w"
    and in_msg :: "'w \<Rightarrow> bool"
    and inv :: "'w \<Rightarrow> bool"
  assumes accept: "inv w \<Longrightarrow> first w c = (ok, w') \<Longrightarrow> ok = frame_ok (in_msg w) c"
    and "next": "inv w \<Longrightarrow> first w c = (True, w') \<Longrightarrow> inv w' \<and> in_msg w' = frame_next (in_msg w) c"
begin

lemma admit_iff: "inv w \<Longrightarrow> admit first w cs = frames_ok (in_msg w) cs"
proof (induction cs arbitrary: w)
  case (Cons c cs)
  obtain ok w' where f: "first w c = (ok, w')" by (cases "first w c")
  then have ok: "ok = frame_ok (in_msg w) c" using accept Cons.prems by blast
  show ?case
  proof (cases ok)
    case True
    then have "inv w'" "in_msg w' = frame_next (in_msg w) c" 
      using "next" [OF Cons.prems, of c w'] f by simp_all
    then show ?thesis using Cons.IH [of w'] f ok by simp
  qed (use f ok in simp)
qed simp

end

section \<open>The two parsers\<close>

text \<open>What a parser makes of the first byte of a frame: whether it goes on, and its state.\<close>

definition parse_first :: "'e rx_parse \<Rightarrow> bool \<times> 'e wsi" where
  "parse_first p = (case p of PReturn r w \<Rightarrow> (r = 0, w) | PSpill w \<Rightarrow> (False, w) | PDrain w \<Rightarrow> (False, w))"

definition server_first :: "'e env \<Rightarrow> 'e wsi \<Rightarrow> u8 \<Rightarrow> bool \<times> 'e wsi" where
  "server_first en w c = parse_first (server_rx_new en w c)"

definition client_first :: "'e env \<Rightarrow> 'e wsi \<Rightarrow> u8 \<Rightarrow> bool \<times> 'e wsi" where
  "client_first en w c = parse_first (client_rx_new en w c)"

definition msg_inv :: "'e wsi \<Rightarrow> bool" where
  "msg_inv w \<longleftrightarrow> ietf_spec_revision w = 13 \<and> count_act_ext w = 0 \<and> continuation_possible w = owed_a_fin w"

lemma first_byte_cases:
  fixes c :: u8
  obtains "c AND 0xf \<in> {3, 4, 5, 6, 7, 0xb, 0xc, 0xd, 0xe, 0xf}" | "c AND 0xf = 0" | "c AND 0xf = 1"
    | "c AND 0xf = 2" | "c AND 0xf = 8" | "c AND 0xf = 9" | "c AND 0xf = 10"
  using opcode_cases [of "c AND 0xf" c] unfolding legal_opcode_def by blast

lemma lws_close_reason_flags [simp]:
  "continuation_possible (lws_close_reason st b w) = continuation_possible w"
  "owed_a_fin (lws_close_reason st b w) = owed_a_fin w"
  by (simp_all add: lws_close_reason_def Let_def)

interpretation server_admission: frame_admission "server_first en" continuation_possible msg_inv for en :: "'e env"
proof unfold_locales
  fix w w' :: "'e wsi" and c ok
  assume inv: "msg_inv w" and f: "server_first en w c = (ok, w')"
  show "ok = frame_ok (continuation_possible w) c"
  proof (cases c rule: first_byte_cases)
    case 1
    then show ?thesis using inv f unfolding server_first_def server_rx_new_def server_rx_first_def server_rx_opcode_def
      by (auto simp: parse_first_def msg_inv_def frame_ok_def Let_def split: if_splits)
  qed (use inv f in \<open>auto simp: server_first_def server_rx_new_def server_rx_first_def server_rx_opcode_def
      parse_first_def msg_inv_def frame_ok_def set_rxps_def Let_def split: if_splits\<close>)
next
  fix w w' :: "'e wsi" and c
  assume inv: "msg_inv w" and f: "server_first en w c = (True, w')"
  show "msg_inv w' \<and> continuation_possible w' = frame_next (continuation_possible w) c"
  proof (cases c rule: first_byte_cases)
    case 1
    then show ?thesis using inv f unfolding server_first_def server_rx_new_def server_rx_first_def server_rx_opcode_def
      by (auto simp: parse_first_def msg_inv_def Let_def split: if_splits)
  qed (use inv f in \<open>auto simp: server_first_def server_rx_new_def server_rx_first_def server_rx_opcode_def
      parse_first_def msg_inv_def frame_next_def set_rxps_def Let_def split: if_splits\<close>)
qed

interpretation client_admission: frame_admission "client_first en" continuation_possible msg_inv for en :: "'e env"
proof unfold_locales
  fix w w' :: "'e wsi" and c ok
  assume inv: "msg_inv w" and f: "client_first en w c = (ok, w')"
  show "ok = frame_ok (continuation_possible w) c"
  proof (cases c rule: first_byte_cases)
    case 1
    then show ?thesis using inv f unfolding client_first_def client_rx_new_def client_rx_opcode_def
      by (auto simp: parse_first_def msg_inv_def frame_ok_def Let_def split: if_splits)
  qed (use inv f in \<open>auto simp: client_first_def client_rx_new_def client_rx_opcode_def
      parse_first_def msg_inv_def frame_ok_def set_rxps_def Let_def split: if_splits\<close>)
next
  fix w w' :: "'e wsi" and c
  assume inv: "msg_inv w" and f: "client_first en w c = (True, w')"
  show "msg_inv w' \<and> continuation_possible w' = frame_next (continuation_possible w) c"
  proof (cases c rule: first_byte_cases)
    case 1
    then show ?thesis using inv f unfolding client_first_def client_rx_new_def client_rx_opcode_def
      by (auto simp: parse_first_def msg_inv_def Let_def split: if_splits)
  qed (use inv f in \<open>auto simp: client_first_def client_rx_new_def client_rx_opcode_def
      parse_first_def msg_inv_def frame_next_def set_rxps_def Let_def split: if_splits\<close>)
qed

definition refused :: "'e rx_parse \<Rightarrow> bool" where
  "refused p \<longleftrightarrow> (\<exists>why v. p = PReturn (-1) (lws_close_reason LWS_CLOSE_STATUS_PROTOCOL_ERR (Some why) v))"

lemma refusedI [simp]:
  "refused (PReturn (-1) (lws_close_reason LWS_CLOSE_STATUS_PROTOCOL_ERR (Some why) v))"
  by (auto simp: refused_def)

lemma server_refusal:
  assumes "msg_inv w" and "\<not> frame_ok (continuation_possible w) c"
  shows "refused (server_rx_new en w c)"
proof (cases c rule: first_byte_cases)
  case 1
  then have "c AND 0xf \<noteq> 0" "c AND 0xf \<noteq> 1" "c AND 0xf \<noteq> 2" "c AND 0xf \<noteq> 8" by auto
  then have op: "server_rx_opcode en v c =
      (False, lws_close_reason LWS_CLOSE_STATUS_PROTOCOL_ERR (Some (bytes_of_string ''bad opc'')) v)"
    if "opcode v = c AND 0xf" for v :: "'a wsi"
    unfolding server_rx_opcode_def that if_P [OF 1] by simp
  show ?thesis using assms(1) by (simp add: server_rx_new_def server_rx_first_def op msg_inv_def Let_def)
qed (use assms in \<open>auto simp: server_rx_new_def server_rx_first_def server_rx_opcode_def
      msg_inv_def frame_ok_def set_rxps_def Let_def\<close>)

section \<open>Properties\<close>

text \<open>C12. The server admits a sequence of frames, by their first bytes, exactly when RFC 6455 does: no
  reserved bit, only defined opcodes, control frames unfragmented but allowed inside a fragmented
  message, continuation frames only inside one, new messages only outside one.\<close>

theorem server_admits_rfc6455:
  assumes "msg_inv w"
  shows "admit (server_first en) w cs \<longleftrightarrow> frames_ok (continuation_possible w) cs"
  using server_admission.admit_iff [OF assms] .

theorem server_admits_rfc6455_witness:
  "admit (server_first (quiet_env True 64)) (ws_established False 64 :: unit wsi) [0x01, 0x89, 0x80] \<longleftrightarrow>
   frames_ok False [0x01, 0x89, 0x80]"
  using server_admits_rfc6455 [of "ws_established False 64 :: unit wsi" "quiet_env True 64" "[0x01, 0x89, 0x80]"]
  by (simp add: msg_inv_def ws_established_def wsi_zalloc_def)

text \<open>C13. The client admits exactly the same sequences.\<close>

theorem client_admits_rfc6455:
  assumes "msg_inv w"
  shows "admit (client_first en) w cs \<longleftrightarrow> frames_ok (continuation_possible w) cs"
  using client_admission.admit_iff [OF assms] .

theorem client_admits_rfc6455_witness:
  "admit (client_first (quiet_env True 64)) (ws_established True 64 :: unit wsi) [0x01, 0x89, 0x80] \<longleftrightarrow>
   frames_ok False [0x01, 0x89, 0x80]"
  using client_admits_rfc6455 [of "ws_established True 64 :: unit wsi" "quiet_env True 64" "[0x01, 0x89, 0x80]"]
  by (simp add: msg_inv_def ws_established_def wsi_zalloc_def)

text \<open>A frame the rules forbid makes the server drop the connection (-1) at its first byte, with a
  close frame of status 1002 (protocol error) prepared for the peer.\<close>

theorem server_refuses_with_protocol_error:
  assumes "msg_inv w" and "lws_rx_parse_state w = LWS_RXPS_NEW" and "\<not> rx_draining_ext w"
    and "\<not> frame_ok (continuation_possible w) c"
  shows "\<exists>w'. lws_ws_rx_sm en w False False c = Some (Done (-1, w')) \<and>
    take 2 (lws_get_close_payload w') = [0x03, 0xea] \<and> lws_get_close_length w' \<ge> 2"
proof -
  obtain why v where p: "server_rx_new en w c =
      PReturn (-1) (lws_close_reason LWS_CLOSE_STATUS_PROTOCOL_ERR (Some why) v)"
    using server_refusal [OF assms(1,4)] unfolding refused_def by blast
  let ?v = "lws_close_reason LWS_CLOSE_STATUS_PROTOCOL_ERR (Some why) v"
  have "unat (of_nat (2 + length (take 123 why)) :: u8) = 2 + length (take 123 why)"
    by (rule unat_of_nat_u8) simp
  then have "lws_get_close_length ?v \<ge> 2" "take 2 (lws_get_close_payload ?v) = [0x03, 0xea]"
    by (simp_all add: lws_close_reason_def lws_get_close_length_def lws_get_close_payload_def Let_def)
  then show ?thesis using assms(2,3) p by (simp add: lws_ws_rx_sm_def server_rx_parse_def)
qed

end
