(* ===== verification/Ws_Wire.thy ===== *)
theory Ws_Wire
  imports Lws_Prelude
begin

text \<open>
  The reference encoding of websocket frames (RFC 6455, section 5.2), independent of the code: the
  first byte, the three forms of the length, the masking key and the payload, masked when there is a
  key.  Senders are shown to produce it and receivers to consume it.
\<close>

definition ws_xor :: "bytes \<Rightarrow> nat \<Rightarrow> bytes \<Rightarrow> bytes" where
  "ws_xor key idx pl = map (\<lambda>i. pl ! i XOR key ! ((idx + i) mod 4)) [0..<length pl]"

definition ws_len :: "bool \<Rightarrow> nat \<Rightarrow> bytes" where
  "ws_len masked n =
     (let b = (if masked then 0x80 else 0) in
      if n < 126 then [b OR of_nat n]
      else if n < 65536 then [b OR 126, of_nat (n div 2 ^ 8), of_nat n]
      else [b OR 127, of_nat (n div 2 ^ 56), of_nat (n div 2 ^ 48), of_nat (n div 2 ^ 40),
            of_nat (n div 2 ^ 32), of_nat (n div 2 ^ 24), of_nat (n div 2 ^ 16), of_nat (n div 2 ^ 8), of_nat n])"

definition ws_first :: "bool \<Rightarrow> u8 \<Rightarrow> u8" where
  "ws_first fin op = (if fin then 0x80 else 0) OR op"

definition ws_header :: "bool \<Rightarrow> u8 \<Rightarrow> bytes option \<Rightarrow> nat \<Rightarrow> bytes" where
  "ws_header fin op key n =
     ws_first fin op # ws_len (key \<noteq> None) n @ (case key of None \<Rightarrow> [] | Some k \<Rightarrow> k)"

definition ws_frame :: "bool \<Rightarrow> u8 \<Rightarrow> bytes option \<Rightarrow> bytes \<Rightarrow> bytes" where
  "ws_frame fin op key pl =
     ws_header fin op key (length pl) @ (case key of None \<Rightarrow> pl | Some k \<Rightarrow> ws_xor k 0 pl)"

section \<open>Masking\<close>

lemma ws_xor_length [simp]: "length (ws_xor key idx pl) = length pl"
  by (simp add: ws_xor_def)

lemma ws_xor_nth: "i < length pl \<Longrightarrow> ws_xor key idx pl ! i = pl ! i XOR key ! ((idx + i) mod 4)"
  by (simp add: ws_xor_def)

lemma ws_xor_Nil [simp]: "ws_xor key idx [] = []"
  by (simp add: ws_xor_def)

lemma ws_xor_append:
  "ws_xor key idx (xs @ ys) = ws_xor key idx xs @ ws_xor key (idx + length xs) ys"
  by (rule nth_equalityI) (auto simp: ws_xor_nth nth_append add.assoc)

lemma ws_xor_mod: "ws_xor key (idx mod 4) xs = ws_xor key idx xs"
  by (rule nth_equalityI) (simp_all add: ws_xor_nth mod_add_left_eq)

lemma ws_xor_involution: "ws_xor key idx (ws_xor key idx pl) = pl"
  by (rule nth_equalityI) (simp_all add: ws_xor_nth xor.assoc)

lemma ws_xor_zero_key:
  assumes "\<forall>i < 4. key ! i = 0"
  shows "ws_xor key idx pl = pl"
  by (rule nth_equalityI) (simp_all add: ws_xor_nth assms)

text \<open>A mask index kept in a byte.\<close>

lemma unat_and_3: "unat (x AND 3 :: u8) = unat x mod 4"
proof -
  have "x AND 3 = take_bit 2 x" by (simp add: take_bit_eq_mask mask_eq_exp_minus_1)
  then show ?thesis by (simp only: unsigned_take_bit_eq) (simp add: take_bit_eq_mod)
qed

lemma unat_plus_1_mod4: "unat (x + 1 :: u8) mod 4 = (unat x + 1) mod 4"
  by (simp add: unat_word_ariths mod_mod_cancel)

section \<open>The length field\<close>

lemma bit_of_nat_word: "bit (of_nat n :: 'a :: len word) i = (i < LENGTH('a) \<and> bit n i)"
  by (simp add: bit_of_nat_iff possible_bit_word)

lemma and_7f: "x AND 0x7f = take_bit 7 (x :: u8)"
  by (simp add: take_bit_eq_mask mask_eq_exp_minus_1)

lemma len7_value:
  assumes "n < 128"
  shows "((if m then 0x80 else 0) OR of_nat n) AND 0x7f = (of_nat n :: u8)"
proof -
  have "take_bit 7 n = n" using assms by (simp add: take_bit_nat_eq_self)
  then show ?thesis by (simp add: and_7f take_bit_or take_bit_of_nat)
qed

lemma len7_mask_bit:
  assumes "n < 128"
  shows "((if m then 0x80 else 0) OR of_nat n) AND 0x80 = (if m then 0x80 else 0 :: u8)"
proof -
  have "(x AND 0x7f) AND 0x80 = (0 :: u8)" for x by (simp add: and.assoc)
  from this [of "of_nat n"] have "of_nat n AND 0x80 = (0 :: u8)" using len7_value [OF assms, of False] by simp
  then show ?thesis by simp
qed

lemma len_byte: "k \<le> 56 \<Longrightarrow> (of_nat (n div 2 ^ k) :: u8) = ucast (drop_bit k (of_nat n :: u64))"
  by (rule bit_word_eqI) (auto simp: bit_simps bit_of_nat_word simp flip: drop_bit_eq_div)

lemma len_assemble_top:
  "push_bit 56 (ucast (ucast (drop_bit 56 N) :: u8)) = push_bit 56 (drop_bit 56 (N :: u64))"
  by (rule bit_word_eqI) (auto simp: bit_simps)

lemma len_assemble_step:
  "push_bit (k + 8) (drop_bit (k + 8) N) OR push_bit k (ucast (ucast (drop_bit k N) :: u8)) =
   push_bit k (drop_bit k (N :: u64))"
proof (rule bit_word_eqI)
  fix i
  assume "i < LENGTH(64)"
  then show "bit (push_bit (k + 8) (drop_bit (k + 8) N) OR push_bit k (ucast (ucast (drop_bit k N) :: u8))) i =
      bit (push_bit k (drop_bit k N)) i"
    by (cases "i < k + 8") (auto simp: bit_simps)
qed

text \<open>The 64-bit and 16-bit lengths, assembled byte by byte as the parsers do.\<close>

lemma len64_assemble:
  fixes n :: nat
  defines "B \<equiv> \<lambda>k. (ucast (of_nat (n div 2 ^ k) :: u8) :: u64)"
  shows "push_bit 56 (B 56) OR push_bit 48 (B 48) OR push_bit 40 (B 40) OR push_bit 32 (B 32) OR
    push_bit 24 (B 24) OR push_bit 16 (B 16) OR push_bit 8 (B 8) OR push_bit 0 (B 0) = of_nat n"
proof -
  let ?N = "of_nat n :: u64"
  have B: "B k = ucast (ucast (drop_bit k ?N) :: u8)" if "k \<le> 56" for k
    using len_byte [OF that] by (simp add: B_def)
  have "push_bit 56 (B 56) = push_bit 56 (drop_bit 56 ?N)" by (simp add: B len_assemble_top)
  moreover have "push_bit (k + 8) (drop_bit (k + 8) ?N) OR push_bit k (B k) = push_bit k (drop_bit k ?N)"
    if "k \<le> 56" for k using len_assemble_step [of k ?N] that by (simp add: B)
  from this [of 48] this [of 40] this [of 32] this [of 24] this [of 16] this [of 8] this [of 0]
  have "push_bit 56 (drop_bit 56 ?N) OR push_bit 48 (B 48) = push_bit 48 (drop_bit 48 ?N)"
    "push_bit 48 (drop_bit 48 ?N) OR push_bit 40 (B 40) = push_bit 40 (drop_bit 40 ?N)"
    "push_bit 40 (drop_bit 40 ?N) OR push_bit 32 (B 32) = push_bit 32 (drop_bit 32 ?N)"
    "push_bit 32 (drop_bit 32 ?N) OR push_bit 24 (B 24) = push_bit 24 (drop_bit 24 ?N)"
    "push_bit 24 (drop_bit 24 ?N) OR push_bit 16 (B 16) = push_bit 16 (drop_bit 16 ?N)"
    "push_bit 16 (drop_bit 16 ?N) OR push_bit 8 (B 8) = push_bit 8 (drop_bit 8 ?N)"
    "push_bit 8 (drop_bit 8 ?N) OR push_bit 0 (B 0) = ?N"
    by simp_all
  ultimately show ?thesis by (simp add: or.assoc [symmetric])
qed

lemma len16_assemble:
  assumes "n < 65536"
  shows "push_bit 8 (ucast (of_nat (n div 2 ^ 8) :: u8)) OR push_bit 0 (ucast (of_nat n :: u8)) = (of_nat n :: u64)"
proof -
  let ?N = "of_nat n :: u64"
  have "n < 2 ^ 16" using assms by simp
  then have "push_bit 8 (ucast (ucast (drop_bit 8 ?N) :: u8)) = push_bit 8 (drop_bit 8 ?N)"
  proof (intro bit_word_eqI)
    fix i
    assume n: "n < 2 ^ 16"
    have "\<not> bit n i" if "16 \<le> i" for i
      using n that by (metis bit_take_bit_iff leD take_bit_nat_eq_self)
    then show "bit (push_bit 8 (ucast (ucast (drop_bit 8 ?N) :: u8)) :: u64) i = bit (push_bit 8 (drop_bit 8 ?N)) i"
      by (cases "i < 16") (auto simp: bit_simps bit_of_nat_word)
  qed
  moreover have "(of_nat (n div 2 ^ 8) :: u8) = ucast (drop_bit 8 ?N)" "(of_nat n :: u8) = ucast (drop_bit 0 ?N)"
    using len_byte [of 8 n] len_byte [of 0 n] by simp_all
  ultimately show ?thesis using len_assemble_step [of 0 ?N] by simp
qed

end
