(* ===== verification/Ws_Delivery.thy ===== *)
theory Ws_Delivery
  imports Ws_Frame_Rules Ws_Wire
begin

text \<open>
  What the receivers do with well-formed frames: a frame in the reference encoding of \<open>Ws_Wire\<close>, fed
  to the server's \<open>lws_parse_ws\<close>, is decoded and its payload handed to the user byte for byte.
\<close>

section \<open>A connection that accepts input\<close>

text \<open>The user callback accepts everything and requests nothing, and no flow control is pending.\<close>

definition quiet :: "'e env \<Rightarrow> bool" where
  "quiet en \<longleftrightarrow> has_callback en \<and> (\<forall>w r d. user_cb en w r d = (0, []))"

definition calm :: "'e wsi \<Rightarrow> bool" where
  "calm w \<longleftrightarrow> rxflow_bitmap w = 0 \<and> rxflow_change_to w < 2 \<and> \<not> rxflow_will_be_applied w \<and>
     \<not> wsistate_pre_close w \<and> wsi_state w = LRS_ESTABLISHED"

lemma calm_simps [simp]:
  "calm (w\<lparr>lws_rx_parse_state := a1\<rparr>) = calm w" "calm (w\<lparr>rx_ubuf_head := a2\<rparr>) = calm w"
  "calm (w\<lparr>rx_packet_length := a3\<rparr>) = calm w" "calm (w\<lparr>mask_idx := a4\<rparr>) = calm w"
  "calm (w\<lparr>first_fragment := a5\<rparr>) = calm w" "calm (w\<lparr>utf8 := a6\<rparr>) = calm w"
  "calm (set_rxps s w) = calm w" "calm (log_event e w) = calm w"
  by (simp_all add: calm_def set_rxps_def log_event_def)

lemma log_event_simps [simp]:
  "lws_rx_parse_state (log_event e w) = lws_rx_parse_state w" "rx_ubuf_head (log_event e w) = rx_ubuf_head w"
  "opcode (log_event e w) = opcode w" "rx_packet_length (log_event e w) = rx_packet_length w"
  "utf8 (log_event e w) = utf8 w" "check_utf8 (log_event e w) = check_utf8 w"
  "continuation_possible (log_event e w) = continuation_possible w"
  by (simp_all add: log_event_def)

lemma msg_inv_simps [simp]:
  "msg_inv (w\<lparr>rx_ubuf_head := a1\<rparr>) = msg_inv w" "msg_inv (w\<lparr>first_fragment := a2\<rparr>) = msg_inv w"
  "msg_inv (set_rxps s w) = msg_inv w" "msg_inv (log_event e w) = msg_inv w"
  by (simp_all add: msg_inv_def set_rxps_def log_event_def)

lemma quiet_callback:
  "quiet en \<Longrightarrow> protocol_callback en w r d = Done (0, log_event (EvCallback r d) w)"
  by (simp add: quiet_def protocol_callback_def)

lemma quiet_callback_rxflow:
  assumes "quiet en" and "calm w"
  shows "user_callback_handle_rxflow en w r d = Done (0, log_event (EvCallback r d) w)"
proof -
  have "\<not> bit (rxflow_change_to w) 1" using assms(2) by (simp add: calm_def bit_iff_odd)
  then show ?thesis using assms
    by (simp add: user_callback_handle_rxflow_def quiet_callback rx_flow_control_apply_def log_event_def calm_def Let_def)
qed

section \<open>Header bytes\<close>

text \<open>The payload the user was shown.\<close>

definition delivered :: "event list \<Rightarrow> bytes" where
  "delivered evs = concat (map (\<lambda>e. case e of EvCallback r d \<Rightarrow> if r = LWS_CALLBACK_RECEIVE \<or>
     r = LWS_CALLBACK_CLIENT_RECEIVE then d else [] | _ \<Rightarrow> []) evs)"

lemma delivered_log [simp]:
  "delivered (events (log_event (EvCallback LWS_CALLBACK_RECEIVE d) w)) = delivered (events w) @ d"
  "delivered (events (log_event (EvCallback LWS_CALLBACK_CLIENT_RECEIVE d) w)) = delivered (events w) @ d"
  by (simp_all add: delivered_def log_event_def)

text \<open>A byte that is taken on its own and shows the user nothing, and a run of such bytes.\<close>

definition byte_step :: "'e env \<Rightarrow> 'e wsi \<Rightarrow> u8 \<Rightarrow> 'e wsi \<Rightarrow> bool" where
  "byte_step en w c w' \<longleftrightarrow> rxflow_bitmap w = 0 \<and> \<not> rx_draining_ext w \<and> \<not> rx_in_bulk w \<and>
     lws_ws_rx_sm en w False False c = Some (Done (0, w')) \<and> delivered (events w') = delivered (events w)"

fun byte_steps :: "'e env \<Rightarrow> 'e wsi \<Rightarrow> bytes \<Rightarrow> 'e wsi \<Rightarrow> bool" where
  "byte_steps en w [] w' \<longleftrightarrow> w' = w"
| "byte_steps en w (c # cs) w' \<longleftrightarrow> (\<exists>v. byte_step en w c v \<and> byte_steps en v cs w')"

lemma byte_steps_append: "byte_steps en w (xs @ ys) w' \<longleftrightarrow> (\<exists>v. byte_steps en w xs v \<and> byte_steps en v ys w')"
  by (induction xs arbitrary: w) auto

lemma byte_step_parse:
  "byte_step en w c w' \<Longrightarrow> parse_ws_loop en cached w used (c # rest) = parse_ws_loop en cached w' (Suc used) rest"
  by (simp add: parse_ws_loop.simps [of en cached w] parse_ws_bulk.simps byte_step_def)

lemma byte_steps_parse:
  "byte_steps en w h w' \<Longrightarrow> parse_ws_loop en cached w used (h @ rest) = parse_ws_loop en cached w' (used + length h) rest"
proof (induction h arbitrary: w used)
  case (Cons c h)
  then obtain v where v: "byte_step en w c v" "byte_steps en v h w'" by auto
  show ?case using byte_step_parse [OF v(1), of cached used "h @ rest"] Cons.IH [OF v(2), of "Suc used"] by simp
qed simp

lemma header_byte:
  assumes "server_rx_parse en False w c = Done (PReturn 0 w')" and "rxflow_bitmap w = 0" and "\<not> rx_draining_ext w" and "\<not> rx_in_bulk w"
  shows "lws_ws_rx_sm en w False False c = Some (Done (0, w'))"
  using assms by (simp add: lws_ws_rx_sm_def)

lemma parse_loop_header_byte:
  assumes "server_rx_parse en False w c = Done (PReturn 0 w')"
    and "rxflow_bitmap w = 0" and "\<not> rx_draining_ext w" and "\<not> rx_in_bulk w"
  shows "parse_ws_loop en cached w used (c # rest) = parse_ws_loop en cached w' (Suc used) rest"
  using assms by (simp add: parse_ws_loop.simps [of en cached w] parse_ws_bulk.simps lws_ws_rx_sm_def)

lemma byte_steps_header:
  assumes "server_rx_parse en False w c = Done (PReturn 0 w1)"
    and "rxflow_bitmap w = 0" and "\<not> rx_draining_ext w" and "\<not> rx_in_bulk w" and "events w1 = events w"
  shows "byte_steps en w (c # cs) w' = byte_steps en w1 cs w'"
  using header_byte [OF assms(1-4)] assms by (auto simp: byte_step_def)

declare byte_steps.simps(2) [simp del]

definition after_first :: "'e env \<Rightarrow> bool \<Rightarrow> u8 \<Rightarrow> 'e wsi \<Rightarrow> 'e wsi" where
  "after_first en fin op w =
     (let v = w\<lparr>all_zero_nonce := True, opcode := op, rsv := 0, ws_final := fin, defeat_check_utf8 := False,
                continuation_possible := \<not> fin, owed_a_fin := \<not> fin\<rparr> in
      set_rxps LWS_RXPS_04_FRAME_HDR_LEN
        (if op = 0 then v
         else v\<lparr>check_utf8 := (op = 1 \<and> opt_validate_utf8 en), rsv_first_msg := 0,
                pmd_trailer_application := False, frame_is_binary := (op = 2), first_fragment := True\<rparr>))"

lemma steps_first:
  assumes "lws_rx_parse_state w = LWS_RXPS_NEW" and "msg_inv w" and "op = 0 \<or> op = 1 \<or> op = 2"
    and "continuation_possible w \<longleftrightarrow> op = 0" and "rxflow_bitmap w = 0" and "\<not> rx_draining_ext w"
  shows "byte_steps en w [ws_first fin op] (after_first en fin op w)"
proof -
  have w: "ietf_spec_revision w = 13" "count_act_ext w = 0" "owed_a_fin w = continuation_possible w"
    using assms(2) by (auto simp: msg_inv_def)
  have "server_rx_parse en False w (ws_first fin op) = Done (PReturn 0 (after_first en fin op w))"
    using assms(1,3,4) w
    by (cases fin; elim disjE)
      (simp_all add: server_rx_parse_def server_rx_new_def server_rx_first_def server_rx_opcode_def ws_first_def
        after_first_def set_rxps_def Let_def)
  then show ?thesis using assms by (subst byte_steps_header) (simp_all add: rx_in_bulk_def after_first_def set_rxps_def Let_def)
qed

definition after_len :: "bool \<Rightarrow> nat \<Rightarrow> 'e wsi \<Rightarrow> 'e wsi" where
  "after_len masked n w = w\<lparr>this_frame_masked := masked, rx_packet_length := of_nat n\<rparr>"

lemma steps_len_masked:
  assumes st: "lws_rx_parse_state w = LWS_RXPS_04_FRAME_HDR_LEN" and op: "opcode w AND 8 = 0 \<or> n < 126"
    and flow: "rxflow_bitmap w = 0" "\<not> rx_draining_ext w" and n: "n < 2 ^ 63"
  shows "byte_steps en w (ws_len True n) (set_rxps LWS_RXPS_07_COLLECT_FRAME_KEY_1 (after_len True n w))"
proof -
  note defs = byte_steps_header server_rx_parse_def rx_in_bulk_def set_rxps_def after_len_def
    server_len_done_def len_or_def
  consider "n < 126" | "126 \<le> n" "n < 65536" | "65536 \<le> n" by linarith
  then show ?thesis
  proof cases
    case 1
    let ?b = "0x80 OR of_nat n :: u8"
    have "?b AND 0x7f = of_nat n" "?b AND 0x80 = 0x80"
      using 1 len7_value [of n True] len7_mask_bit [of n True] by simp_all
    moreover have "of_nat n \<noteq> (126 :: u8)" "of_nat n \<noteq> (127 :: u8)"
      using 1 by (simp_all add: u8_eq_iff unat_of_nat_u8)
    moreover have "ucast (of_nat n :: u8) = (of_nat n :: u64)"
      using 1 by (simp add: unsigned_of_nat take_bit_nat_eq_self)
    ultimately have "server_rx_hdr_len w ?b = PReturn 0 (set_rxps LWS_RXPS_07_COLLECT_FRAME_KEY_1 (after_len True n w))"
      by (simp add: server_rx_hdr_len_def after_len_def Let_def)
    then show ?thesis using 1 st flow
      by (simp add: ws_len_def defs)
  next
    case 2
    have "server_rx_hdr_len w 0xfe = PReturn 0 (set_rxps LWS_RXPS_04_FRAME_HDR_LEN16_2 (w\<lparr>this_frame_masked := True\<rparr>))"
      using op 2 by (simp add: server_rx_hdr_len_def Let_def)
    then show ?thesis using 2 st flow len16_assemble [of n]
      by (simp add: ws_len_def defs)
  next
    case 3
    have "server_rx_hdr_len w 0xff = PReturn 0 (set_rxps LWS_RXPS_04_FRAME_HDR_LEN64_8 (w\<lparr>this_frame_masked := True\<rparr>))"
      using op 3 by (simp add: server_rx_hdr_len_def Let_def)
    moreover have "(of_nat (n div 2 ^ 56) :: u8) AND 0x80 = 0"
    proof -
      have "n div 2 ^ 56 < 128" using n by (simp add: less_mult_imp_div_less)
      then show ?thesis using len7_mask_bit [of "n div 2 ^ 56" False] by simp
    qed
    ultimately show ?thesis using 3 st flow len64_assemble [of n]
      by (simp add: ws_len_def defs or.assoc [symmetric])
  qed
qed

lemmas parse_loop_len_masked = byte_steps_parse [OF steps_len_masked]

definition after_key :: "bytes \<Rightarrow> 'e wsi \<Rightarrow> 'e wsi" where
  "after_key key w = w\<lparr>mask := key, mask_idx := 0, all_zero_nonce := (key = [0, 0, 0, 0])\<rparr>"

lemma length_4_list:
  assumes "length key = 4"
  obtains a b c d where "key = [a, b, c, d]"
  using assms by (cases key; cases "tl key"; cases "tl (tl key)"; cases "tl (tl (tl key))") auto

lemma list4_update_all:
  assumes "length m = 4"
  shows "m[0 := a, Suc 0 := b, 2 := c, 3 := d] = [a, b, c, d]"
  using assms by (elim length_4_list) (simp add: numeral_2_eq_2 numeral_3_eq_3)

lemma server_rx_parse_key4:
  assumes "lws_rx_parse_state w = LWS_RXPS_07_COLLECT_FRAME_KEY_4"
  shows "server_rx_parse en False w c =
    (let v = set_rxps LWS_RXPS_WS_FRAME_PAYLOAD ((rx_mask_byte 3 c w)\<lparr>mask_idx := 0\<rparr>) in
     if rx_packet_length w = 0 then Done (PSpill (set_rxps LWS_RXPS_NEW v)) else Done (PReturn 0 v))"
  using assms by (simp add: server_rx_parse_def Let_def)

definition before_key4 :: "bytes \<Rightarrow> 'e wsi \<Rightarrow> 'e wsi" where
  "before_key4 key w = set_rxps LWS_RXPS_07_COLLECT_FRAME_KEY_4
     (rx_mask_byte 2 (key ! 2) (rx_mask_byte 1 (key ! 1) (rx_mask_byte 0 (key ! 0) w)))"

lemma after_key4:
  assumes "length (mask w) = 4" and "length key = 4" and "all_zero_nonce w"
  shows "(rx_mask_byte 3 (key ! 3) (before_key4 key w))\<lparr>mask_idx := 0\<rparr> =
    set_rxps LWS_RXPS_07_COLLECT_FRAME_KEY_4 (after_key key w)"
  using assms(2)
proof (rule length_4_list)
  fix a b c d assume k: "key = [a, b, c, d]"
  show ?thesis using assms(3) list4_update_all [OF assms(1)]
    by (simp add: k before_key4_def rx_mask_byte_def after_key_def set_rxps_def Let_def)
qed

lemma steps_key3:
  assumes "lws_rx_parse_state w = LWS_RXPS_07_COLLECT_FRAME_KEY_1" and "length key = 4"
    and "rxflow_bitmap w = 0" "\<not> rx_draining_ext w"
  shows "byte_steps en w (take 3 key) (before_key4 key w)"
  using assms(2)
proof (rule length_4_list)
  fix a b c d assume k: "key = [a, b, c, d]"
  show ?thesis using assms(1,3,4)
    by (simp add: k byte_steps_header server_rx_parse_def rx_in_bulk_def before_key4_def set_rxps_def
        rx_mask_byte_def Let_def numeral_3_eq_3)
qed

lemma take_3_nth: "length key = 4 \<Longrightarrow> key = take 3 key @ [key ! 3]"
  by (elim length_4_list) (simp add: numeral_3_eq_3)

lemma parse_loop_key3:
  assumes "lws_rx_parse_state w = LWS_RXPS_07_COLLECT_FRAME_KEY_1" and "length key = 4"
    and "rxflow_bitmap w = 0" "\<not> rx_draining_ext w"
  shows "parse_ws_loop en cached w used (key @ rest) =
    parse_ws_loop en cached (before_key4 key w) (used + 3) (key ! 3 # rest)"
proof -
  have kr: "key @ rest = take 3 key @ key ! 3 # rest" using take_3_nth [OF assms(2)] by (metis append.assoc append_Cons append_Nil)
  show ?thesis unfolding kr using byte_steps_parse [OF steps_key3 [OF assms], where cached = cached and used = used and rest = "key ! 3 # rest"] assms(2) by simp
qed

lemma steps_key:
  assumes "lws_rx_parse_state w = LWS_RXPS_07_COLLECT_FRAME_KEY_1" and "length (mask w) = 4"
    and "length key = 4" and "all_zero_nonce w" and "rxflow_bitmap w = 0" "\<not> rx_draining_ext w"
    and "rx_packet_length w \<noteq> 0"
  shows "byte_steps en w key (set_rxps LWS_RXPS_WS_FRAME_PAYLOAD (after_key key w))"
proof -
  let ?v = "before_key4 key w"
  have v: "lws_rx_parse_state ?v = LWS_RXPS_07_COLLECT_FRAME_KEY_4" "rx_packet_length ?v \<noteq> 0"
    "rxflow_bitmap ?v = 0" "\<not> rx_draining_ext ?v"
    using assms(5-7) by (simp_all add: before_key4_def rx_mask_byte_def set_rxps_def Let_def)
  have "server_rx_parse en False ?v (key ! 3) = Done (PReturn 0 (set_rxps LWS_RXPS_WS_FRAME_PAYLOAD (after_key key w)))"
    using v server_rx_parse_key4 [OF v(1)] after_key4 [OF assms(2-4)] by (simp add: set_rxps_def)
  from byte_steps_header [OF this v(3,4), of "[]"] have "byte_steps en ?v [key ! 3] (set_rxps LWS_RXPS_WS_FRAME_PAYLOAD (after_key key w))"
    using v(1) by (simp add: rx_in_bulk_def before_key4_def after_key_def rx_mask_byte_def set_rxps_def Let_def)
  then show ?thesis using steps_key3 [OF assms(1,3,5,6), of en] take_3_nth [OF assms(3)] byte_steps_append by metis
qed

lemmas parse_loop_key = byte_steps_parse [OF steps_key]

section \<open>Payload in bulk\<close>

text \<open>The fields that a run of payload leaves alone.\<close>

definition same_msg :: "'e wsi \<Rightarrow> 'e wsi \<Rightarrow> bool" where
  "same_msg w w' \<longleftrightarrow> opcode w' = opcode w \<and> mask w' = mask w \<and> all_zero_nonce w' = all_zero_nonce w \<and>
     ws_final w' = ws_final w \<and> check_utf8 w' = check_utf8 w \<and> defeat_check_utf8 w' = defeat_check_utf8 w \<and>
     continuation_possible w' = continuation_possible w \<and> owed_a_fin w' = owed_a_fin w \<and>
     ietf_spec_revision w' = ietf_spec_revision w \<and> count_act_ext w' = count_act_ext w \<and>
     frame_is_binary w' = frame_is_binary w"

text \<open>The validator's view of a piece of payload: where it leaves the state, if it accepts it.\<close>

definition text_step :: "'e wsi \<Rightarrow> bytes \<Rightarrow> u8 option" where
  "text_step w data =
     (if check_utf8 w \<and> \<not> defeat_check_utf8 w then check_utf8_loop (utf8 w) data else Some (utf8 w))"

lemma rest_data_xor:
  "rest_data w xs = (if all_zero_nonce w then xs else ws_xor (mask w) (unat (mask_idx w)) xs)"
  by (simp add: rest_data_def bulk_unmask_bytewise ws_xor_def)

lemma rest_data_length [simp]: "length (rest_data w xs) = length xs"
  by (simp add: rest_data_xor)

lemma rest_data_append:
  assumes "mask w' = mask w" and "all_zero_nonce w' = all_zero_nonce w"
    and "\<not> all_zero_nonce w \<longrightarrow> unat (mask_idx w') = (unat (mask_idx w) + length xs) mod 4"
  shows "rest_data w (xs @ ys) = rest_data w xs @ rest_data w' ys"
  using assms by (simp add: rest_data_xor ws_xor_append ws_xor_mod)

text \<open>One call of \<open>lws_ws_frame_rest_is_payload\<close> on acceptable payload.\<close>

definition bulk_step :: "'e wsi \<Rightarrow> bytes \<Rightarrow> u8 \<Rightarrow> 'e wsi \<Rightarrow> 'e wsi" where
  "bulk_step w xs st v =
     (log_event (EvCallback LWS_CALLBACK_RECEIVE (rest_data w xs)) (v\<lparr>utf8 := st\<rparr>))\<lparr>first_fragment := False\<rparr>"

lemma rest_text_check_accepts:
  assumes "text_step w (rest_data w xs) = Some st"
    and "check_utf8 w \<and> \<not> defeat_check_utf8 w \<and> ws_final w \<and> rx_packet_length w = of_nat (length xs) \<longrightarrow> st = 0"
  shows "rest_text_check (rest_data w xs) (rest_take (length xs) w) = (False, (rest_take (length xs) w)\<lparr>utf8 := st\<rparr>)"
  using assms by (auto simp: rest_text_check_def text_step_def rest_take_def split: if_splits)

lemma rest_is_payload_delivers:
  assumes q: "quiet en" and inv: "rx_bufs_ok en w" and calm: "calm w"
    and xs: "length xs = rest_avail en w (length xs + length ys)" "xs \<noteq> []" "length (xs @ ys) < 2 ^ 31"
    and tx: "text_step w (rest_data w xs) = Some st"
      "check_utf8 w \<and> \<not> defeat_check_utf8 w \<and> ws_final w \<and> rx_packet_length w = of_nat (length xs) \<longrightarrow> st = 0"
  shows "lws_ws_frame_rest_is_payload en w (xs @ ys) =
    Done (int (length xs), length xs, bulk_step w xs st (rest_take (length xs) w))"
proof -
  let ?v = "(rest_take (length xs) w)\<lparr>utf8 := st\<rparr>"
  have c: "calm ?v" using calm by (simp add: rest_take_def)
  then have pc: "\<not> wsistate_pre_close ?v" by (simp add: calm_def)
  have hc: "has_callback en" using q by (simp add: quiet_def)
  show ?thesis
    using rest_is_payload_plain [OF inv, of "length xs" "xs @ ys"] xs rest_text_check_accepts [OF tx]
      quiet_callback_rxflow [OF q c] pc hc
    by (simp add: bulk_step_def)
qed

definition bulk_post :: "'e wsi \<Rightarrow> bytes \<Rightarrow> u8 \<Rightarrow> 'e wsi \<Rightarrow> bool" where
  "bulk_post w xs st w' \<longleftrightarrow> same_msg w w' \<and> calm w' \<and> utf8 w' = st \<and> lws_rx_parse_state w' = lws_rx_parse_state w \<and>
     rx_packet_length w' = rx_packet_length w - of_nat (length xs) \<and>
     (\<not> all_zero_nonce w \<longrightarrow> unat (mask_idx w') mod 4 = (unat (mask_idx w) + length xs) mod 4) \<and>
     delivered (events w') = delivered (events w) @ rest_data w xs"

lemma unat_of_nat_mod4: "unat (of_nat (n mod 4) :: u8) = n mod 4"
  by (rule unat_of_nat_u8) (rule less_trans [of _ 4], simp_all)

lemma bulk_step_post:
  assumes "calm w"
  shows "bulk_post w xs st (bulk_step w xs st (rest_take (length xs) w))"
  using assms
  by (simp add: bulk_post_def bulk_step_def same_msg_def rest_take_def unat_of_nat_mod4 log_event_def
      delivered_def calm_def)

lemma rest_data_mod:
  assumes "same_msg w w'" and "\<not> all_zero_nonce w \<longrightarrow> unat (mask_idx w') mod 4 = (unat (mask_idx w) + length xs) mod 4"
  shows "rest_data w (xs @ ys) = rest_data w xs @ rest_data w' ys"
proof -
  have "ws_xor (mask w) (unat (mask_idx w')) ys = ws_xor (mask w) (unat (mask_idx w) + length xs) ys"
    if "\<not> all_zero_nonce w"
    using assms(2) that ws_xor_mod [of "mask w" "unat (mask_idx w')" ys]
      ws_xor_mod [of "mask w" "unat (mask_idx w) + length xs" ys] by simp
  then show ?thesis using assms(1) by (auto simp: rest_data_xor ws_xor_append same_msg_def)
qed

lemma bulk_post_trans:
  assumes "bulk_post w xs st w1" and "bulk_post w1 ys st' w2"
  shows "bulk_post w (xs @ ys) st' w2"
proof -
  have 1: "rest_data w (xs @ ys) = rest_data w xs @ rest_data w1 ys"
    using assms(1) by (intro rest_data_mod) (simp_all add: bulk_post_def)
  have 2: "(unat (mask_idx w1) + length ys) mod 4 = (unat (mask_idx w) + length xs + length ys) mod 4"
    if "\<not> all_zero_nonce w"
    using assms(1) that unfolding bulk_post_def by (metis mod_add_left_eq)
  show ?thesis using assms 1 2
    by (simp add: bulk_post_def same_msg_def diff_diff_eq add.assoc)
qed

lemma text_step_append:
  assumes "text_step w (xs @ ys) = Some st"
  shows "\<exists>st1. text_step w xs = Some st1 \<and> (\<forall>w'. same_msg w w' \<and> utf8 w' = st1 \<longrightarrow> text_step w' ys = Some st)"
  using assms by (auto simp: text_step_def same_msg_def check_utf8_loop_append bind_eq_Some_conv split: if_splits)

lemma bulk_first_piece:
  assumes q: "quiet en" and inv: "server_rx_inv en w" and bulk: "rx_in_bulk w" and calm: "calm w"
    and len: "length (x @ y) \<le> unat (rx_packet_length w)" "ys = [] \<or> length (x @ y) = unat (rx_packet_length w)"
    and x: "x \<noteq> []" "length x = min (rx_size en) (length (x @ y))" "length (x @ y @ ys) < 2 ^ 31"
    and tx: "text_step w (rest_data w (x @ y)) = Some st"
      "check_utf8 w \<and> \<not> defeat_check_utf8 w \<and> ws_final w \<and> length (x @ y) = unat (rx_packet_length w) \<longrightarrow> st = 0"
  shows "\<exists>st1 w1. parse_ws_bulk en w used (x @ y @ ys) = parse_ws_bulk en w1 (used + length x) (y @ ys) \<and>
    server_rx_inv en w1 \<and> rx_in_bulk w1 \<and> bulk_post w x st1 w1 \<and> text_step w1 (rest_data w1 y) = Some st"
proof -
  have b: "rx_bufs_ok en w" using inv by (rule server_rx_inv_bufs)
  have rd: "rest_data w (x @ y) = rest_data w x @ rest_data w' y" if "bulk_post w x st' w'" for st' w'
    using that by (intro rest_data_mod) (simp_all add: bulk_post_def)
  have p: "bulk_post w x st' (bulk_step w x st' (rest_take (length x) w))" for st'
    using bulk_step_post [OF calm] .
  obtain st1 where st1: "text_step w (rest_data w x) = Some st1"
    "\<forall>w'. same_msg w w' \<and> utf8 w' = st1 \<longrightarrow> text_step w' (drop (length x) (rest_data w (x @ y))) = Some st"
    using text_step_append [of w "rest_data w x" "drop (length x) (rest_data w (x @ y))" st] tx(1) rd [OF p [of 0]] by auto
  define w1 where "w1 = bulk_step w x st1 (rest_take (length x) w)"
  have p1: "bulk_post w x st1 w1" using p by (simp add: w1_def)
  then have t1: "text_step w1 (rest_data w1 y) = Some st"
    using st1(2) rd [OF p1] by (simp add: bulk_post_def)
  have av: "length x = rest_avail en w (length x + length (y @ ys))"
  proof -
    have m: "min (unat (rx_packet_length w)) (length x + length (y @ ys)) = length (x @ y)" using len by auto
    show ?thesis unfolding rest_avail_plain [OF b] min.assoc m by (rule x(2))
  qed
  have fin: "st1 = 0" if "check_utf8 w \<and> \<not> defeat_check_utf8 w \<and> ws_final w \<and> rx_packet_length w = of_nat (length x)"
  proof -
    have "unat (rx_packet_length w) \<le> length x" using that unat_of_nat_le by simp
    then have ly: "length y = 0" "length (x @ y) = unat (rx_packet_length w)"
      using len(1) unfolding length_append by linarith+
    then have "st1 = st" using t1 p1 by (auto simp: text_step_def rest_data_xor bulk_post_def split: if_splits)
    then show ?thesis using tx(2) that ly(2) by blast
  qed
  have r: "lws_ws_frame_rest_is_payload en w (x @ y @ ys) = Done (int (length x), length x, w1)"
    using rest_is_payload_delivers [OF q b calm av x(1,3) st1(1)] fin by (simp add: w1_def)
  then have "server_rx_inv en w1" "rx_in_bulk w1"
    using rest_is_payload_ok [OF inv bulk, of "x @ y @ ys"] x(1,3) by auto
  moreover have "c_int (length x) \<le> c_int (length (x @ y @ ys))" using x(3) by simp
  ultimately show ?thesis using r bulk x(1) p1 t1
    by (intro exI [of _ st1] exI [of _ w1]) (simp add: parse_ws_bulk.simps [of en w])
qed

text \<open>The inner loop on a run of payload: all of it is delivered, whatever pieces it is cut into.\<close>

lemma bulk_delivers:
  assumes q: "quiet en"
  shows "server_rx_inv en w \<Longrightarrow> rx_in_bulk w \<Longrightarrow> calm w \<Longrightarrow> length xs \<le> unat (rx_packet_length w) \<Longrightarrow>
    ys = [] \<or> length xs = unat (rx_packet_length w) \<Longrightarrow> length (xs @ ys) < 2 ^ 31 \<Longrightarrow>
    text_step w (rest_data w xs) = Some st \<Longrightarrow>
    check_utf8 w \<and> \<not> defeat_check_utf8 w \<and> ws_final w \<and> length xs = unat (rx_packet_length w) \<and> xs \<noteq> [] \<longrightarrow> st = 0 \<Longrightarrow>
    \<exists>w'. parse_ws_bulk en w used (xs @ ys) = Some (Done (False, used + length xs, ys, w')) \<and>
      server_rx_inv en w' \<and> rx_in_bulk w' \<and> bulk_post w xs st w'"
proof (induction "length xs" arbitrary: w xs used rule: less_induct)
  case less
  note inv = less.prems(1) and bulk = less.prems(2)
  have b: "rx_bufs_ok en w" using inv by (rule server_rx_inv_bufs)
  show ?case
  proof (cases "xs = []")
    case True
    then have st: "st = utf8 w" using less.prems(7) by (auto simp: text_step_def rest_data_xor split: if_splits)
    have "bulk_post w [] st w" using less.prems(3) st by (simp add: bulk_post_def same_msg_def rest_data_xor)
    moreover have "ys = [] \<or> lws_ws_frame_rest_is_payload en w ys = Done (0, 0, w)"
      using less.prems(5) True by (auto simp: lws_ws_frame_rest_is_payload_def rest_avail_plain [OF b])
    moreover have "0 \<le> c_int (length ys)" using less.prems(6) by simp
    ultimately show ?thesis using True inv bulk
      by (auto simp: parse_ws_bulk.simps [of en w used ys])
  next
    case False
    define k where "k = min (rx_size en) (length xs)"
    define x where "x = take k xs"
    define y where "y = drop k xs"
    have xy: "xs = x @ y" by (simp add: x_def y_def)
    have k: "x \<noteq> []" "length x = min (rx_size en) (length (x @ y))" "length y < length xs"
      using b False by (auto simp: x_def y_def k_def rx_bufs_ok_def)
    obtain st1 w1 where s: "parse_ws_bulk en w used (x @ y @ ys) = parse_ws_bulk en w1 (used + length x) (y @ ys)"
      "server_rx_inv en w1" "rx_in_bulk w1" "bulk_post w x st1 w1" "text_step w1 (rest_data w1 y) = Some st"
      using bulk_first_piece [OF q inv bulk less.prems(3), of x y ys st used] less.prems(4-8) k(1,2) False
      unfolding xy append_assoc by blast
    have l1: "unat (rx_packet_length w1) = unat (rx_packet_length w) - length x"
      using s(4) less.prems(4) len_minus [of "length x" "rx_packet_length w"] by (simp add: bulk_post_def xy)
    have sm: "calm w1" "same_msg w w1" using s(4) by (simp_all add: bulk_post_def)
    have ly: "length y \<le> unat (rx_packet_length w1)" "ys = [] \<or> length y = unat (rx_packet_length w1)"
      using l1 less.prems(4,5) by (auto simp: xy)
    have "length y = unat (rx_packet_length w1) \<longrightarrow> length xs = unat (rx_packet_length w)"
      using l1 less.prems(4) by (auto simp: xy)
    then have fin: "check_utf8 w1 \<and> \<not> defeat_check_utf8 w1 \<and> ws_final w1 \<and> length y = unat (rx_packet_length w1) \<and>
        y \<noteq> [] \<longrightarrow> st = 0"
      using sm(2) less.prems(8) False unfolding same_msg_def by metis
    have small: "length (y @ ys) < 2 ^ 31" using less.prems(6) by (simp add: xy)
    from less.hyps [OF k(3) s(2,3) sm(1) ly small s(5) fin, of "used + length x"]
    show ?thesis using s(1) bulk_post_trans [OF s(4)] by (auto simp: xy add.assoc)
  qed
qed

section \<open>Whole frames\<close>

text \<open>After the last byte of a run of payload: back to the start of a frame when it was the last of the
  frame, otherwise still inside it.\<close>

lemma parse_loop_payload:
  assumes q: "quiet en" and inv: "server_rx_inv en w" and bulk: "rx_in_bulk w" and calm: "calm w"
    and len: "xs \<noteq> []" "length xs \<le> unat (rx_packet_length w)" "ys = [] \<or> length xs = unat (rx_packet_length w)" "length (xs @ ys) < 2 ^ 31"
    and tx: "text_step w (rest_data w xs) = Some st"
      "check_utf8 w \<and> \<not> defeat_check_utf8 w \<and> ws_final w \<and> length xs = unat (rx_packet_length w) \<longrightarrow> st = 0"
  shows "\<exists>w'. parse_ws_loop en cached w used (xs @ ys) = parse_ws_loop en cached w' (used + length xs) ys \<and>
    server_rx_inv en w' \<and> calm w' \<and> same_msg w w' \<and> utf8 w' = st \<and>
    rx_packet_length w' = rx_packet_length w - of_nat (length xs) \<and>
    lws_rx_parse_state w' = (if length xs = unat (rx_packet_length w) then LWS_RXPS_NEW else LWS_RXPS_WS_FRAME_PAYLOAD) \<and>
    (\<not> all_zero_nonce w \<longrightarrow> unat (mask_idx w') mod 4 = (unat (mask_idx w) + length xs) mod 4) \<and>
    delivered (events w') = delivered (events w) @ rest_data w xs"
proof -
  have nd: "\<not> rx_draining_ext w" "rxflow_bitmap w = 0"
    using inv calm by (simp_all add: server_rx_inv_def rx_bufs_ok_def calm_def)
  obtain w1 where w1: "parse_ws_bulk en w used (xs @ ys) = Some (Done (False, used + length xs, ys, w1))"
    "server_rx_inv en w1" "rx_in_bulk w1" "bulk_post w xs st w1"
    using bulk_delivers [OF q inv bulk calm len(2-4) tx(1)] tx(2) by blast
  obtain w2 where w2: "lws_ws_rx_sm en w1 True True 0 = Some (Done (0, w2))" "server_rx_inv en w2"
    "if rx_packet_length w1 = 0
     then \<exists>f. w2 = (set_rxps LWS_RXPS_NEW w1)\<lparr>first_fragment := f, rx_ubuf_head := 0\<rparr> else w2 = w1"
    using rx_sm_after_bulk [OF w1(2,3)] by blast
  have "parse_ws_loop en cached w used (xs @ ys) = parse_ws_loop en cached w2 (used + length xs) ys"
    using w1(1) w2(1) nd bulk len(1) by (simp add: parse_ws_loop.simps [of en cached w])
  moreover have "rx_packet_length w1 = 0 \<longleftrightarrow> length xs = unat (rx_packet_length w)"
  proof -
    have "unat (rx_packet_length w1) = unat (rx_packet_length w) - length xs"
      using w1(4) len_minus [OF len(2)] by (simp add: bulk_post_def)
    then show ?thesis using len(2) unat_eq_zero [of "rx_packet_length w1"] by linarith
  qed
  moreover have "lws_rx_parse_state w1 = LWS_RXPS_WS_FRAME_PAYLOAD" using w1(3) by (simp add: rx_in_bulk_def)
  moreover have f1: "same_msg w w1" "calm w1" "utf8 w1 = st" "rx_packet_length w1 = rx_packet_length w - of_nat (length xs)"
    "\<not> all_zero_nonce w \<longrightarrow> unat (mask_idx w1) mod 4 = (unat (mask_idx w) + length xs) mod 4"
    "delivered (events w1) = delivered (events w) @ rest_data w xs" using w1(4) by (simp_all add: bulk_post_def)
  moreover have "same_msg w w2 \<and> calm w2 \<and> utf8 w2 = utf8 w1 \<and> rx_packet_length w2 = rx_packet_length w1 \<and>
      mask_idx w2 = mask_idx w1 \<and> events w2 = events w1 \<and>
      lws_rx_parse_state w2 = (if rx_packet_length w1 = 0 then LWS_RXPS_NEW else lws_rx_parse_state w1)"
  proof (cases "rx_packet_length w1 = 0")
    case True
    then obtain f where "w2 = (set_rxps LWS_RXPS_NEW w1)\<lparr>first_fragment := f, rx_ubuf_head := 0\<rparr>"
      using w2(3) by auto
    then show ?thesis using f1(1,2) True by (simp add: same_msg_def set_rxps_def)
  qed (use w2(3) f1(1,2) in simp)
  ultimately show ?thesis using w2(2) by (intro exI [of _ w2]) simp
qed

definition rx_idle :: "'e env \<Rightarrow> 'e wsi \<Rightarrow> bool" where
  "rx_idle en w \<longleftrightarrow> server_rx_inv en w \<and> calm w \<and> msg_inv w \<and> lws_rx_parse_state w = LWS_RXPS_NEW"

lemma rx_idle_facts:
  assumes "rx_idle en w"
  shows "rx_bufs_ok en w" "rx_ubuf_head w = 0" "length (mask w) = 4" "rxflow_bitmap w = 0" "\<not> rx_draining_ext w"
    "calm w" "msg_inv w" "lws_rx_parse_state w = LWS_RXPS_NEW"
proof -
  have inv: "server_rx_inv en w" and c: "calm w" "msg_inv w" and st: "lws_rx_parse_state w = LWS_RXPS_NEW"
    using assms by (simp_all add: rx_idle_def)
  have b: "rx_bufs_ok en w" using inv by (rule server_rx_inv_bufs)
  show "rx_ubuf_head w = 0" using inv st by (simp add: server_rx_inv_def)
  show "length (mask w) = 4" "\<not> rx_draining_ext w" using b by (simp_all add: rx_bufs_ok_def)
  show "rxflow_bitmap w = 0" using c(1) by (simp add: calm_def)
qed (use assms in \<open>simp_all add: rx_idle_def server_rx_inv_bufs\<close>)

text \<open>The connection after the header of a masked data frame.\<close>

definition after_header :: "'e env \<Rightarrow> bool \<Rightarrow> u8 \<Rightarrow> bytes \<Rightarrow> nat \<Rightarrow> 'e wsi \<Rightarrow> 'e wsi" where
  "after_header en fin op key n w = after_key key (after_len True n (after_first en fin op w))"

lemma after_first_simps [simp]:
  "rx_bufs_ok en (after_first en fin op w) = rx_bufs_ok en w" "rx_ubuf_head (after_first en fin op w) = rx_ubuf_head w"
  "opcode (after_first en fin op w) = op" "events (after_first en fin op w) = events w"
  "lws_rx_parse_state (after_first en fin op w) = LWS_RXPS_04_FRAME_HDR_LEN"
  "mask (after_first en fin op w) = mask w" "all_zero_nonce (after_first en fin op w)" "utf8 (after_first en fin op w) = utf8 w"
  "rxflow_bitmap (after_first en fin op w) = rxflow_bitmap w" "rx_draining_ext (after_first en fin op w) = rx_draining_ext w"
  "calm (after_first en fin op w) = calm w" "ws_final (after_first en fin op w) = fin"
  "continuation_possible (after_first en fin op w) = (\<not> fin)" "msg_inv w \<Longrightarrow> msg_inv (after_first en fin op w)"
  "\<not> defeat_check_utf8 (after_first en fin op w)"
  by (simp_all add: after_first_def set_rxps_def calm_def msg_inv_def Let_def)

lemma after_header_simps [simp]:
  "length key = 4 \<Longrightarrow> rx_bufs_ok en w \<Longrightarrow> rx_bufs_ok en (after_header en fin op key n w)"
  "rx_ubuf_head (after_header en fin op key n w) = rx_ubuf_head w"
  "opcode (after_header en fin op key n w) = op" "events (after_header en fin op key n w) = events w"
  "mask (after_header en fin op key n w) = key" "utf8 (after_header en fin op key n w) = utf8 w"
  "calm (after_header en fin op key n w) = calm w" "ws_final (after_header en fin op key n w) = fin"
  "continuation_possible (after_header en fin op key n w) = (\<not> fin)"
  "msg_inv w \<Longrightarrow> msg_inv (after_header en fin op key n w)" "\<not> defeat_check_utf8 (after_header en fin op key n w)"
  "rx_packet_length (after_header en fin op key n w) = of_nat n" "mask_idx (after_header en fin op key n w) = 0"
  "all_zero_nonce (after_header en fin op key n w) = (key = [0, 0, 0, 0])"
  "check_utf8 (after_header en fin op key n w) = check_utf8 (after_first en fin op w)"
  by (simp_all add: after_header_def after_key_def after_len_def calm_def msg_inv_def)
    (simp_all add: after_first_def set_rxps_def Let_def msg_inv_def)

lemma steps_header_key1:
  fixes fin :: bool
  assumes "rx_idle en w" and "op = 0 \<or> op = 1 \<or> op = 2" and "continuation_possible w \<longleftrightarrow> op = 0" and "n < 2 ^ 63"
  defines "v \<equiv> set_rxps LWS_RXPS_07_COLLECT_FRAME_KEY_1 (after_len True n (after_first en fin op w))"
  shows "byte_steps en w (ws_first fin op # ws_len True n) v"
    and "lws_rx_parse_state v = LWS_RXPS_07_COLLECT_FRAME_KEY_1" and "length (mask v) = 4" and "all_zero_nonce v"
    and "rxflow_bitmap v = 0" and "\<not> rx_draining_ext v" and "rx_packet_length v = of_nat n"
proof -
  note w = rx_idle_facts [OF assms(1)]
  have op: "opcode (after_first en fin op w) AND 8 = 0" using assms(2) by auto
  have "byte_steps en (after_first en fin op w) (ws_len True n) v"
    unfolding v_def using op w(4,5) assms(4) by (intro steps_len_masked) simp_all
  then show "byte_steps en w (ws_first fin op # ws_len True n) v"
    using steps_first [OF w(8,7) assms(2,3) w(4,5), of en fin] byte_steps_append [of en w "[ws_first fin op]" "ws_len True n" v] by auto
qed (use rx_idle_facts [OF assms(1)] in \<open>simp_all add: v_def after_len_def set_rxps_def\<close>)

lemma rest_data_unmasks:
  assumes "mask v = key" and "mask_idx v = 0" and "all_zero_nonce v = (key = [0, 0, 0, 0])" and "length key = 4"
  shows "rest_data v (ws_xor key 0 pl) = pl"
proof (cases "key = [0, 0, 0, 0]")
  case True
  then have "\<forall>i < 4. key ! i = 0" by (auto simp: nth_Cons')
  then show ?thesis using True assms ws_xor_zero_key [of key 0 pl] by (simp add: rest_data_xor)
next
  case False
  then show ?thesis using assms by (simp add: rest_data_xor ws_xor_involution)
qed

text \<open>The header of a frame with payload, and all of a frame without.\<close>

lemma steps_header:
  assumes idle: "rx_idle en w" and op: "op = 0 \<or> op = 1 \<or> op = 2" and cont: "continuation_possible w \<longleftrightarrow> op = 0"
    and key: "length key = 4" and n: "0 < n" "n < 2 ^ 63"
  shows "byte_steps en w (ws_header fin op (Some key) n) (set_rxps LWS_RXPS_WS_FRAME_PAYLOAD (after_header en fin op key n w))"
proof -
  note v = steps_header_key1 [OF idle op cont n(2), where fin = fin]
  have "unat (of_nat n :: u64) = n" using n(2) by (simp add: unsigned_of_nat take_bit_nat_eq_self)
  then have "(of_nat n :: u64) \<noteq> 0" using n(1) by (metis unat_0 less_not_refl)
  then have "byte_steps en w ((ws_first fin op # ws_len True n) @ key) (set_rxps LWS_RXPS_WS_FRAME_PAYLOAD (after_key key
      (set_rxps LWS_RXPS_07_COLLECT_FRAME_KEY_1 (after_len True n (after_first en fin op w)))))"
    using v(1) steps_key [OF v(2,3) key v(4-6), of en] v(7) unfolding byte_steps_append by auto
  then show ?thesis by (simp add: ws_header_def after_header_def set_rxps_def after_key_def)
qed

definition frame_done :: "'e env \<Rightarrow> bool \<Rightarrow> u8 \<Rightarrow> u8 \<Rightarrow> 'e wsi \<Rightarrow> 'e wsi \<Rightarrow> bool" where
  "frame_done en fin op st w w' \<longleftrightarrow> rx_idle en w' \<and> continuation_possible w' = (\<not> fin) \<and> utf8 w' = st \<and>
     check_utf8 w' = check_utf8 (after_first en fin op w)"

lemma steps_empty_frame:
  assumes q: "quiet en" and idle: "rx_idle en w" and op: "op = 0 \<or> op = 1 \<or> op = 2"
    and cont: "continuation_possible w \<longleftrightarrow> op = 0" and key: "length key = 4"
  shows "\<exists>w'. byte_steps en w (ws_frame fin op (Some key) []) w' \<and> frame_done en fin op (utf8 w) w w'"
proof -
  note w = rx_idle_facts [OF idle]
  let ?v = "set_rxps LWS_RXPS_07_COLLECT_FRAME_KEY_1 (after_len True 0 (after_first en fin op w))"
  have "(0 :: nat) < 2 ^ 63" by simp
  note v = steps_header_key1 [OF idle op cont this, where fin = fin]
  let ?b = "before_key4 key ?v"
  define u where "u = set_rxps LWS_RXPS_NEW (after_header en fin op key 0 w)"
  have b: "lws_rx_parse_state ?b = LWS_RXPS_07_COLLECT_FRAME_KEY_4" "rx_packet_length ?b = 0"
    "rxflow_bitmap ?b = 0" "\<not> rx_draining_ext ?b" "\<not> rx_in_bulk ?b" "events ?b = events w"
    using w(4,5) by (simp_all add: before_key4_def rx_mask_byte_def after_len_def set_rxps_def Let_def rx_in_bulk_def)
  have p: "server_rx_parse en False ?b (key ! 3) = Done (PSpill u)"
  proof -
    have "(rx_mask_byte 3 (key ! 3) ?b)\<lparr>mask_idx := 0\<rparr> = set_rxps LWS_RXPS_07_COLLECT_FRAME_KEY_4 (after_key key ?v)"
      using w(3) key by (intro after_key4) (simp_all add: after_len_def set_rxps_def)
    then show ?thesis using server_rx_parse_key4 [OF b(1)] b(2)
      by (simp add: u_def after_header_def set_rxps_def after_key_def)
  qed
  have ok: "rx_bufs_ok en u" "rx_ubuf_head u = 0" "calm u" using w key by (simp_all add: u_def)
  have cl: "wsi_state u = LRS_ESTABLISHED" "\<not> wsistate_pre_close u" "has_callback en"
    using ok(3) q by (simp_all add: calm_def quiet_def)
  let ?u = "(log_event (EvCallback LWS_CALLBACK_RECEIVE []) u)\<lparr>first_fragment := False, rx_ubuf_head := 0\<rparr>"
  have "server_rx_spill en False u = server_rx_loop en LWS_CALLBACK_RECEIVE (rx_ebufs u) False False 0 u"
    using op by (auto simp: server_rx_spill_def u_def)
  then have "server_rx_spill en False u = Some (Done (0, ?u))"
    using server_rx_loop_plain [of en u LWS_CALLBACK_RECEIVE False] ok cl quiet_callback_rxflow [OF q ok(3)]
    by (simp add: server_text_check_def server_deliver_payload_def)
  then have "byte_step en ?b (key ! 3) ?u"
    using p b by (simp add: byte_step_def lws_ws_rx_sm_def u_def set_rxps_def log_event_def delivered_def)
  then have "byte_steps en w ((ws_first fin op # ws_len True 0) @ take 3 key @ [key ! 3]) ?u"
    using v(1) steps_key3 [OF v(2) key v(5,6), of en] unfolding byte_steps_append by (auto simp: byte_steps.simps(2))
  moreover have "ws_frame fin op (Some key) [] = (ws_first fin op # ws_len True 0) @ take 3 key @ [key ! 3]"
    using take_3_nth [OF key] by (simp add: ws_frame_def ws_header_def ws_xor_def)
  moreover have "rx_idle en ?u"
    using ok w(7) by (simp add: rx_idle_def server_rx_inv_def u_def)
  ultimately show ?thesis
    by (intro exI [of _ ?u]) (simp add: frame_done_def u_def set_rxps_def log_event_def)
qed

lemma same_msg_inv: "same_msg w w' \<Longrightarrow> msg_inv w \<Longrightarrow> msg_inv w'"
  by (simp add: same_msg_def msg_inv_def)

section \<open>Reception in pieces\<close>

text \<open>What is due: the bytes a connection is waiting for, the payload its user is to be shown when they have come, and how the
  connection is to be left.\<close>

definition payload_done :: "'e env \<Rightarrow> 'e wsi \<Rightarrow> u8 \<Rightarrow> 'e wsi \<Rightarrow> bool" where
  "payload_done en w st w' \<longleftrightarrow> server_rx_inv en w' \<and> calm w' \<and> same_msg w w' \<and> utf8 w' = st \<and> lws_rx_parse_state w' = LWS_RXPS_NEW"

inductive rx_due :: "'e env \<Rightarrow> ('e wsi \<Rightarrow> bool) \<Rightarrow> 'e wsi \<Rightarrow> bytes \<Rightarrow> bytes \<Rightarrow> bool" for en Q where
  due_done: "Q w \<Longrightarrow> rx_due en Q w [] []"
| due_byte: "byte_step en w c v \<Longrightarrow> rx_due en Q v bs d \<Longrightarrow> rx_due en Q w (c # bs) d"
| due_payload: "server_rx_inv en w \<Longrightarrow> rx_in_bulk w \<Longrightarrow> calm w \<Longrightarrow> xs \<noteq> [] \<Longrightarrow> length xs = unat (rx_packet_length w) \<Longrightarrow>
    text_step w (rest_data w xs) = Some st \<Longrightarrow> (check_utf8 w \<and> \<not> defeat_check_utf8 w \<and> ws_final w \<longrightarrow> st = 0) \<Longrightarrow>
    (\<And>w'. payload_done en w st w' \<Longrightarrow> rx_due en Q w' bs d) \<Longrightarrow> rx_due en Q w (xs @ bs) (rest_data w xs @ d)"

inductive_cases rx_due_NilE: "rx_due en Q w [] d"

lemma due_steps: "byte_steps en w h v \<Longrightarrow> rx_due en Q v bs d \<Longrightarrow> rx_due en Q w (h @ bs) d"
  by (induction h arbitrary: w) (auto simp: byte_steps.simps(2) intro: due_byte)

text \<open>Part of a run of payload leaves the rest of it due.\<close>

lemma due_rest_of_payload:
  assumes q: "quiet en" and w: "server_rx_inv en w" "rx_in_bulk w" "calm w"
    and len: "length (a @ us) = unat (rx_packet_length w)" and ne: "a \<noteq> []" "us \<noteq> []" and small: "length a < 2 ^ 31"
    and tx: "text_step w (rest_data w (a @ us)) = Some st" "check_utf8 w \<and> \<not> defeat_check_utf8 w \<and> ws_final w \<longrightarrow> st = 0"
    and due: "\<And>w'. payload_done en w st w' \<Longrightarrow> rx_due en Q w' bs d"
  shows "\<exists>w1. parse_ws_loop en cached w used a = Some (Done (0, used + length a, w1)) \<and> rx_due en Q w1 (us @ bs) (rest_data w1 us @ d) \<and>
    rest_data w (a @ us) = rest_data w a @ rest_data w1 us \<and> delivered (events w1) = delivered (events w) @ rest_data w a"
proof -
  have part: "length a \<le> unat (rx_packet_length w)" "length a \<noteq> unat (rx_packet_length w)" using len ne(2) by auto
  define r where "r = drop (length a) (rest_data w (a @ us))"
  have "rest_data w (a @ us) = rest_data w a @ r"
    by (auto simp: r_def rest_data_xor ws_xor_append)
  then obtain st1 where st1: "text_step w (rest_data w a) = Some st1" "\<forall>w'. same_msg w w' \<and> utf8 w' = st1 \<longrightarrow> text_step w' r = Some st"
    using text_step_append [of w "rest_data w a" r st] tx(1) by auto
  obtain w1 where w1: "parse_ws_loop en cached w used (a @ []) = parse_ws_loop en cached w1 (used + length a) []" "server_rx_inv en w1" "calm w1"
      "same_msg w w1" "utf8 w1 = st1" "rx_packet_length w1 = rx_packet_length w - of_nat (length a)"
      "lws_rx_parse_state w1 = LWS_RXPS_WS_FRAME_PAYLOAD"
      "\<not> all_zero_nonce w \<longrightarrow> unat (mask_idx w1) mod 4 = (unat (mask_idx w) + length a) mod 4"
      "delivered (events w1) = delivered (events w) @ rest_data w a"
    using parse_loop_payload [OF q w ne(1) part(1), of "[]" st1 cached used] small st1(1) part(2) by auto
  have rd: "rest_data w (a @ us) = rest_data w a @ rest_data w1 us" by (rule rest_data_mod [OF w1(4,8)])
  then have r: "r = rest_data w1 us" by (simp add: r_def)
  have "rx_due en Q w1 (us @ bs) (rest_data w1 us @ d)"
  proof (rule due_payload [OF w1(2) _ w1(3) ne(2)])
    show "rx_in_bulk w1" using w(2) w1(4,7) by (auto simp: rx_in_bulk_def same_msg_def)
    show "length us = unat (rx_packet_length w1)" using len len_minus [OF part(1)] by (simp add: w1(6))
    show "text_step w1 (rest_data w1 us) = Some st" using st1(2) w1(4,5) unfolding r by blast
    show "check_utf8 w1 \<and> \<not> defeat_check_utf8 w1 \<and> ws_final w1 \<longrightarrow> st = 0" using tx(2) w1(4) by (simp add: same_msg_def)
    show "rx_due en Q w' bs d" if "payload_done en w1 st w'" for w'
      using that w1(4) by (intro due) (simp add: payload_done_def same_msg_def)
  qed
  then show ?thesis using w1(1,9) rd by (intro exI [of _ w1]) (simp add: parse_ws_loop.simps [of en cached w1])
qed

lemma rx_due_piece:
  assumes q: "quiet en" and "rx_due en Q w bs d"
  shows "bs = a @ b \<Longrightarrow> length a < 2 ^ 31 \<Longrightarrow> \<exists>w1 d1 d2. parse_ws_loop en cached w used a = Some (Done (0, used + length a, w1)) \<and>
    rx_due en Q w1 b d2 \<and> d = d1 @ d2 \<and> delivered (events w1) = delivered (events w) @ d1"
  using assms(2)
proof (induction arbitrary: a used)
  case (due_done w)
  then show ?case by (intro exI [of _ w] exI [of _ "[]"]) (simp add: parse_ws_loop.simps rx_due.due_done)
next
  case (due_byte w c v bs d)
  show ?case
  proof (cases a)
    case Nil
    then have "parse_ws_loop en cached w used a = Some (Done (0, used + length a, w)) \<and> rx_due en Q w b d \<and> d = [] @ d \<and>
        delivered (events w) = delivered (events w) @ []"
      using rx_due.due_byte [OF due_byte.hyps] due_byte.prems(1) by (simp add: parse_ws_loop.simps)
    then show ?thesis by blast
  next
    case (Cons c' a')
    then have c: "c' = c" "bs = a' @ b" "length a' < 2 ^ 31" using due_byte.prems by auto
    obtain w1 d1 d2 where "parse_ws_loop en cached v (Suc used) a' = Some (Done (0, Suc used + length a', w1))" "rx_due en Q w1 b d2"
      "d = d1 @ d2" "delivered (events w1) = delivered (events v) @ d1" using due_byte.IH [OF c(2,3)] by blast
    moreover have "delivered (events v) = delivered (events w)" using due_byte.hyps(1) by (simp add: byte_step_def)
    ultimately show ?thesis using byte_step_parse [OF due_byte.hyps(1), of cached used a'] unfolding Cons c(1) by auto
  qed
next
  case (due_payload w xs st bs d)
  note w = due_payload.hyps(1-3) and tx = due_payload.hyps(6,7)
  consider (none) "a = []" | (part) us where "a \<noteq> []" "us \<noteq> []" "xs = a @ us" "b = us @ bs" | (all) us where "a = xs @ us" "bs = us @ b"
  proof -
    have "(\<exists>us. a = xs @ us \<and> bs = us @ b) \<or> (\<exists>us. xs = a @ us \<and> b = us @ bs)" using due_payload.prems(1) by (auto simp: append_eq_append_conv2)
    then show ?thesis using that by (metis append_Nil append_Nil2)
  qed
  then show ?case
  proof cases
    case none
    then have "parse_ws_loop en cached w used a = Some (Done (0, used + length a, w)) \<and> rx_due en Q w b (rest_data w xs @ d) \<and>
        rest_data w xs @ d = [] @ rest_data w xs @ d \<and> delivered (events w) = delivered (events w) @ []"
      using rx_due.due_payload [OF due_payload.hyps(1-8)] due_payload.prems(1) by (simp add: parse_ws_loop.simps)
    then show ?thesis by blast
  next
    case part
    have len: "length (a @ us) = unat (rx_packet_length w)" using due_payload.hyps(5) part(3) by simp
    obtain w1 where "parse_ws_loop en cached w used a = Some (Done (0, used + length a, w1))" "rx_due en Q w1 (us @ bs) (rest_data w1 us @ d)"
      "rest_data w (a @ us) = rest_data w a @ rest_data w1 us" "delivered (events w1) = delivered (events w) @ rest_data w a"
      using due_rest_of_payload [OF q w len part(1,2) due_payload.prems(2) tx(1) [unfolded part(3)] tx(2) due_payload.hyps(8)] by blast
    moreover from this(3) have "rest_data w xs @ d = rest_data w a @ rest_data w1 us @ d" using part(3) by simp
    ultimately show ?thesis using part(4) by blast
  next
    case all
    have "length xs \<le> unat (rx_packet_length w)" "us = [] \<or> length xs = unat (rx_packet_length w)" "length (xs @ us) < 2 ^ 31"
      using due_payload.hyps(5) due_payload.prems(2) all(1) by simp_all
    from parse_loop_payload [OF q w due_payload.hyps(4) this tx(1), of cached used] obtain w' where
      w': "parse_ws_loop en cached w used (xs @ us) = parse_ws_loop en cached w' (used + length xs) us" "payload_done en w st w'"
      "delivered (events w') = delivered (events w) @ rest_data w xs"
      using tx(2) due_payload.hyps(5) by (auto simp: payload_done_def)
    obtain w1 d1 d2 where "parse_ws_loop en cached w' (used + length xs) us = Some (Done (0, used + length xs + length us, w1))"
      "rx_due en Q w1 b d2" "d = d1 @ d2" "delivered (events w1) = delivered (events w') @ d1"
      using due_payload.IH [OF w'(2) all(2), of "used + length xs"] due_payload.prems(2) all(1) by auto
    moreover from this(3,4) have "rest_data w xs @ d = (rest_data w xs @ d1) @ d2" "delivered (events w1) = delivered (events w) @ rest_data w xs @ d1"
      using w'(3) by simp_all
    moreover have "parse_ws_loop en cached w used a = parse_ws_loop en cached w' (used + length xs) us" "length a = length xs + length us"
      using w'(1) all(1) by simp_all
    ultimately show ?thesis by (metis add.assoc)
  qed
qed

text \<open>One call of \<open>lws_parse_ws\<close> for each piece that was read, as long as the calls succeed and take all they are given.\<close>

fun parse_pieces :: "'e env \<Rightarrow> bool \<Rightarrow> 'e wsi \<Rightarrow> bytes list \<Rightarrow> (int \<times> 'e wsi) outcome option" where
  "parse_pieces en cached w [] = Some (Done (0, w))"
| "parse_pieces en cached w (b # bs) =
     (case lws_parse_ws en w cached b of None \<Rightarrow> None | Some Fault \<Rightarrow> Some Fault
      | Some (Done (r, k, w')) \<Rightarrow> if r = 0 \<and> k = length b then parse_pieces en cached w' bs else Some (Done (-1, w')))"

lemma pieces_due:
  assumes "quiet en"
  shows "rx_due en Q w (concat bs) d \<Longrightarrow> list_all (\<lambda>b. length b < 2 ^ 31) bs \<Longrightarrow>
    \<exists>w'. parse_pieces en cached w bs = Some (Done (0, w')) \<and> Q w' \<and> delivered (events w') = delivered (events w) @ d"
proof (induction bs arbitrary: w d)
  case Nil
  then show ?case by (auto elim: rx_due_NilE)
next
  case (Cons b bs)
  obtain w1 d1 d2 where w1: "parse_ws_loop en cached w 0 b = Some (Done (0, 0 + length b, w1))" "rx_due en Q w1 (concat bs) d2" "d = d1 @ d2"
      "delivered (events w1) = delivered (events w) @ d1"
    using rx_due_piece [OF assms Cons.prems(1), of b "concat bs" cached 0] Cons.prems(2) by auto
  then show ?case using Cons.IH [OF w1(2)] Cons.prems(2) by (auto simp: lws_parse_ws_def)
qed

lemma frame_due:
  assumes q: "quiet en" and idle: "rx_idle en w" and op: "op = 0 \<or> op = 1 \<or> op = 2"
    and cont: "continuation_possible w \<longleftrightarrow> op = 0" and key: "length key = 4" and n: "length pl < 2 ^ 63"
    and tx: "text_step (after_first en fin op w) pl = Some st" "check_utf8 (after_first en fin op w) \<and> fin \<and> pl \<noteq> [] \<longrightarrow> st = 0"
    and due: "\<And>w'. frame_done en fin op st w w' \<Longrightarrow> rx_due en Q w' bs d"
  shows "rx_due en Q w (ws_frame fin op (Some key) pl @ bs) (pl @ d)"
proof (cases "pl = []")
  case True
  then have "st = utf8 w" using tx(1) by (auto simp: text_step_def split: if_splits)
  then show ?thesis using True steps_empty_frame [OF q idle op cont key, of fin] due by (auto intro: due_steps)
next
  case False
  note w = rx_idle_facts [OF idle]
  let ?n = "length pl" and ?xs = "ws_xor key 0 pl"
  define h where "h = set_rxps LWS_RXPS_WS_FRAME_PAYLOAD (after_header en fin op key ?n w)"
  have un: "unat (of_nat ?n :: u64) = ?n" using n by (simp add: unsigned_of_nat take_bit_nat_eq_self)
  have h: "rx_bufs_ok en h" "rx_in_bulk h" "calm h" "rx_packet_length h = of_nat ?n" "rx_ubuf_head h = 0"
    using w key op by (auto simp: h_def rx_in_bulk_def)
  have "\<not> bit (rx_packet_length h) 63" unfolding len_top h(4) un using n .
  then have inv: "server_rx_inv en h"
    using h op by (auto simp: server_rx_inv_def h_def legal_opcode_def rx_bufs_ok_def)
  have rd: "rest_data h ?xs = pl" using key by (intro rest_data_unmasks) (simp_all add: h_def set_rxps_def)
  have "rx_due en Q h (?xs @ bs) (rest_data h ?xs @ d)"
  proof (rule due_payload [OF inv h(2,3)])
    show "?xs \<noteq> []" using False by (simp add: ws_xor_def)
    show "length ?xs = unat (rx_packet_length h)" using un by (simp add: h(4))
    show "text_step h (rest_data h ?xs) = Some st" using tx(1) rd by (auto simp: text_step_def h_def set_rxps_def split: if_splits)
    show "check_utf8 h \<and> \<not> defeat_check_utf8 h \<and> ws_final h \<longrightarrow> st = 0" using tx(2) False by (simp add: h_def set_rxps_def)
    show "rx_due en Q w' bs d" if p: "payload_done en h st w'" for w'
    proof -
      have "same_msg h w'" using p by (simp add: payload_done_def)
      moreover from same_msg_inv [OF this] have "msg_inv w'" using w(7) by (simp add: h_def)
      ultimately show ?thesis using p by (intro due) (simp add: frame_done_def rx_idle_def payload_done_def same_msg_def h_def set_rxps_def)
    qed
  qed
  moreover have "byte_steps en w (ws_header fin op (Some key) ?n) h" using steps_header [OF idle op cont key, of ?n fin] n False by (simp add: h_def)
  ultimately show ?thesis using due_steps by (fastforce simp: ws_frame_def rd)
qed

section \<open>Sequences of frames\<close>

text \<open>A data frame of the peer: final bit, opcode, masking key and payload.\<close>

record data_frame =
  fr_fin :: bool
  fr_op :: u8
  fr_key :: bytes
  fr_payload :: bytes

definition fr_wire :: "data_frame \<Rightarrow> bytes" where
  "fr_wire f = ws_frame (fr_fin f) (fr_op f) (Some (fr_key f)) (fr_payload f)"

definition fr_ok :: "data_frame \<Rightarrow> bool" where
  "fr_ok f \<longleftrightarrow> (fr_op f = 0 \<or> fr_op f = 1 \<or> fr_op f = 2) \<and> length (fr_key f) = 4 \<and> length (fr_payload f) < 2 ^ 63"

text \<open>Continuations exactly inside a message.\<close>

fun fr_seq :: "bool \<Rightarrow> data_frame list \<Rightarrow> bool" where
  "fr_seq in_msg [] = True"
| "fr_seq in_msg (f # fs) = (fr_ok f \<and> (in_msg \<longleftrightarrow> fr_op f = 0) \<and> fr_seq (\<not> fr_fin f) fs)"

text \<open>The text messages of a sequence of frames: each is UTF-8 when it is complete, and the beginning of some UTF-8 text while it is not.
  \<open>t\<close> is the text so far of a text message that is open.\<close>

fun texts_ok :: "bytes option \<Rightarrow> data_frame list \<Rightarrow> bool" where
  "texts_ok t [] = (case t of None \<Rightarrow> True | Some a \<Rightarrow> \<exists>more. utf8_string (a @ more))"
| "texts_ok t (f # fs) =
     (let t' = (if fr_op f = 1 then Some (fr_payload f) else if fr_op f = 0 then map_option (\<lambda>a. a @ fr_payload f) t else None)
      in if fr_fin f then (case t' of None \<Rightarrow> True | Some a \<Rightarrow> utf8_string a) \<and> texts_ok None fs else texts_ok t' fs)"

lemma texts_ok_prefix: "fr_seq True fs \<Longrightarrow> texts_ok (Some a) fs \<Longrightarrow> \<exists>more. utf8_string (a @ more)"
proof (induction fs arbitrary: a)
  case (Cons f fs)
  have op: "fr_op f = 0" using Cons.prems(1) by simp
  show ?case
  proof (cases "fr_fin f")
    case True
    then show ?thesis using Cons.prems(2) op by auto
  next
    case False
    then have "\<exists>more. utf8_string ((a @ fr_payload f) @ more)" using Cons.IH [of "a @ fr_payload f"] Cons.prems op by simp
    then show ?thesis by auto
  qed
qed simp

text \<open>The validator at the start of a frame.\<close>

definition text_at :: "'e env \<Rightarrow> bytes option \<Rightarrow> 'e wsi \<Rightarrow> bool" where
  "text_at en t w \<longleftrightarrow> (opt_validate_utf8 en \<longrightarrow>
     (case t of None \<Rightarrow> utf8 w = 0 \<and> (continuation_possible w \<longrightarrow> \<not> check_utf8 w)
      | Some a \<Rightarrow> continuation_possible w \<and> check_utf8 w \<and> check_utf8_loop 0 a = Some (utf8 w))) \<and>
     (\<not> opt_validate_utf8 en \<longrightarrow> continuation_possible w \<longrightarrow> \<not> check_utf8 w)"

lemma text_of_frame:
  assumes at: "text_at en t w" and seq: "fr_seq (continuation_possible w) (f # fs)" and tx: "opt_validate_utf8 en \<longrightarrow> texts_ok t (f # fs)"
  shows "\<exists>st t'. text_step (after_first en (fr_fin f) (fr_op f) w) (fr_payload f) = Some st \<and>
    (check_utf8 (after_first en (fr_fin f) (fr_op f) w) \<and> fr_fin f \<longrightarrow> st = 0) \<and> (opt_validate_utf8 en \<longrightarrow> texts_ok t' fs) \<and>
    (\<forall>w'. frame_done en (fr_fin f) (fr_op f) st w w' \<longrightarrow> text_at en t' w')"
proof -
  let ?v = "after_first en (fr_fin f) (fr_op f) w" and ?pl = "fr_payload f"
  let ?t = "if fr_op f = 1 then Some ?pl else if fr_op f = 0 then map_option (\<lambda>a. a @ ?pl) t else None"
  have chk: "check_utf8 ?v = (if fr_op f = 0 then check_utf8 w else fr_op f = 1 \<and> opt_validate_utf8 en)"
    by (simp add: after_first_def set_rxps_def Let_def)
  have op: "continuation_possible w \<longleftrightarrow> fr_op f = 0" "fr_seq (\<not> fr_fin f) fs" using seq by simp_all
  show ?thesis
  proof (cases "check_utf8 ?v")
    case False
    then have "text_step ?v ?pl = Some (utf8 w)" by (simp add: text_step_def)
    moreover have v: "opt_validate_utf8 en \<Longrightarrow> ?t = None \<and> utf8 w = 0"
      using False chk at op(1) by (cases t) (auto simp: text_at_def)
    then have "opt_validate_utf8 en \<longrightarrow> texts_ok None fs" using tx by (auto split: if_splits)
    moreover have "text_at en None w'" if "frame_done en (fr_fin f) (fr_op f) (utf8 w) w w'" for w'
      using that v False by (auto simp: text_at_def frame_done_def)
    ultimately show ?thesis using False by blast
  next
    case True
    then have val: "opt_validate_utf8 en" using chk at op(1) by (auto simp: text_at_def split: if_splits)
    define a where "a = (case t of None \<Rightarrow> [] | Some a \<Rightarrow> a)"
    have t: "?t = Some (a @ ?pl)" "check_utf8_loop 0 a = Some (utf8 w)"
      using True chk at op(1) val by (auto simp: text_at_def a_def split: if_splits option.splits)
    have ok: "if fr_fin f then utf8_string (a @ ?pl) \<and> texts_ok None fs else texts_ok (Some (a @ ?pl)) fs"
      using tx val t(1) by (auto simp: Let_def)
    have "check_utf8_loop 0 (a @ ?pl) \<noteq> None"
      unfolding loop_not_None_iff using ok op(2) texts_ok_prefix [of fs "a @ ?pl"] by (cases "fr_fin f") (auto intro: exI [of _ "[]"])
    then obtain st where st: "check_utf8_loop 0 (a @ ?pl) = Some st" by blast
    then have step: "text_step ?v ?pl = Some st" using True t(2) by (simp add: text_step_def check_utf8_loop_append)
    have fin: "st = 0" if "fr_fin f" using ok st that by (simp add: loop_zero_iff [symmetric])
    have "text_at en (if fr_fin f then None else Some (a @ ?pl)) w'" if "frame_done en (fr_fin f) (fr_op f) st w w'" for w'
      using that st fin val True by (auto simp: text_at_def frame_done_def)
    moreover have "texts_ok (if fr_fin f then None else Some (a @ ?pl)) fs" using ok by simp
    ultimately show ?thesis using step fin by blast
  qed
qed

lemma frames_due:
  assumes "quiet en"
  shows "rx_idle en w \<Longrightarrow> fr_seq (continuation_possible w) fs \<Longrightarrow> text_at en t w \<Longrightarrow> opt_validate_utf8 en \<longrightarrow> texts_ok t fs \<Longrightarrow>
    rx_due en (rx_idle en) w (concat (map fr_wire fs)) (concat (map fr_payload fs))"
proof (induction fs arbitrary: w t)
  case Nil
  then show ?case by (simp add: due_done)
next
  case (Cons f fs)
  obtain st t' where s: "text_step (after_first en (fr_fin f) (fr_op f) w) (fr_payload f) = Some st"
      "check_utf8 (after_first en (fr_fin f) (fr_op f) w) \<and> fr_fin f \<longrightarrow> st = 0" "opt_validate_utf8 en \<longrightarrow> texts_ok t' fs"
      "\<forall>w'. frame_done en (fr_fin f) (fr_op f) st w w' \<longrightarrow> text_at en t' w'"
    using text_of_frame [OF Cons.prems(3,2,4)] by blast
  have f: "fr_op f = 0 \<or> fr_op f = 1 \<or> fr_op f = 2" "continuation_possible w \<longleftrightarrow> fr_op f = 0" "length (fr_key f) = 4" "length (fr_payload f) < 2 ^ 63"
    "fr_seq (\<not> fr_fin f) fs" using Cons.prems(2) by (auto simp: fr_ok_def)
  have due: "rx_due en (rx_idle en) w' (concat (map fr_wire fs)) (concat (map fr_payload fs))" if "frame_done en (fr_fin f) (fr_op f) st w w'" for w'
    using that s(3,4) f(5) by (intro Cons.IH [of w' t']) (simp_all add: frame_done_def)
  have "check_utf8 (after_first en (fr_fin f) (fr_op f) w) \<and> fr_fin f \<and> fr_payload f \<noteq> [] \<longrightarrow> st = 0" using s(2) by blast
  from frame_due [OF assms Cons.prems(1) f(1-4) s(1) this due] show ?case unfolding list.map concat.simps fr_wire_def [of f] .
qed

lemma text_at_start: "\<not> continuation_possible w \<Longrightarrow> utf8 w = 0 \<Longrightarrow> text_at en None w"
  by (simp add: text_at_def)

section \<open>Properties\<close>

text \<open>C10. A server without extensions, whose user's callback accepts what it is shown and asks for nothing, between two messages:
  it is sent any well-ordered sequence of masked data frames in the RFC 6455 encoding, each of any length below \<open>2 ^ 63\<close> and with any
  masking key, and the bytes reach it cut into pieces at any places, a call of \<open>lws_parse_ws\<close> for each, of fewer than \<open>2 ^ 31\<close> bytes.
  Where it validates UTF-8 the text messages are valid.  Then every call succeeds, and the user is shown exactly the payloads, in order:
  nothing is lost, added, reordered or left masked, whatever the size of the frame buffer.\<close>

theorem server_receives_frames:
  assumes "quiet en" and "rx_idle en w" and "\<not> continuation_possible w" and "utf8 w = 0" and "fr_seq False fs"
    and "opt_validate_utf8 en \<longrightarrow> texts_ok None fs" and "concat pieces = concat (map fr_wire fs)" and "list_all (\<lambda>b. length b < 2 ^ 31) pieces"
  shows "\<exists>w'. parse_pieces en cached w pieces = Some (Done (0, w')) \<and> rx_idle en w' \<and>
    delivered (events w') = delivered (events w) @ concat (map fr_payload fs)"
proof -
  have "rx_due en (rx_idle en) w (concat pieces) (concat (map fr_payload fs))"
    unfolding assms(7) using assms(3,5) by (intro frames_due [OF assms(1,2) _ text_at_start [OF assms(3,4)] assms(6)]) simp
  then show ?thesis using pieces_due [OF assms(1) _ assms(8)] by blast
qed

lemma quiet_quiet_env [simp]: "quiet (quiet_env v n)"
  by (simp add: quiet_def quiet_env_def)

lemma ws_established_simps [simp]:
  "\<not> check_utf8 (ws_established c n)" "\<not> continuation_possible (ws_established c n)" "utf8 (ws_established c n) = 0"
  "delivered (events (ws_established c n)) = []" "\<not> opt_validate_utf8 (quiet_env False n)"
  by (simp_all add: ws_established_def wsi_zalloc_def delivered_def quiet_env_def)

lemma established_idle: "0 < sz \<Longrightarrow> sz < 2 ^ 32 \<Longrightarrow> rx_idle (quiet_env v sz) (ws_established False sz :: 'e wsi)"
  using server_established_inv [of sz v]
  by (simp add: rx_idle_def calm_def msg_inv_def ws_established_def wsi_zalloc_def)

theorem server_receives_frames_witness:
  "\<exists>w'. parse_pieces (quiet_env True 8) False (ws_established False 8 :: unit wsi)
      [[0x01], [0x82, 1, 2, 3, 4, 0xc2], [0xab, 0x80], [0x81, 5, 6, 7, 8, 0x64]] = Some (Done (0, w')) \<and>
    delivered (events w') = [0xc3, 0xa9, 0x61]"
proof -
  let ?fs = "[\<lparr>fr_fin = False, fr_op = 1, fr_key = [1, 2, 3, 4], fr_payload = [0xc3, 0xa9]\<rparr>,
      \<lparr>fr_fin = True, fr_op = 0, fr_key = [5, 6, 7, 8], fr_payload = [0x61]\<rparr>]"
  let ?ps = "[[0x01], [0x82, 1, 2, 3, 4, 0xc2], [0xab, 0x80], [0x81, 5, 6, 7, 8, 0x64]] :: bytes list"
  have u: "utf8_string [0xc3, 0xa9, 0x61]" unfolding loop_zero_iff [symmetric] by code_simp
  have w: "concat ?ps = concat (map fr_wire ?fs)" by code_simp
  have idle: "rx_idle (quiet_env True 8) (ws_established False 8 :: unit wsi)" by (intro established_idle) simp_all
  have fs: "fr_seq False ?fs" "opt_validate_utf8 (quiet_env True 8 :: unit env) \<longrightarrow> texts_ok None ?fs" using u by (simp_all add: fr_ok_def)
  have "list_all (\<lambda>b. length b < 2 ^ 31) ?ps" by simp
  from server_receives_frames [OF quiet_quiet_env idle _ _ fs w this, of False] show ?thesis by (auto simp del: parse_pieces.simps)
qed

end
