(* ===== verification/Ws_Control.thy ===== *)
theory Ws_Control
  imports Ws_Delivery
begin

text \<open>
  Control frames at the server: a ping, pong or close frame in the reference encoding reaches the
  spill with exactly its payload collected, and what the server then does with it.
\<close>

section \<open>Collecting a control frame\<close>

text \<open>What the driver makes of the result of a call of the state machine.\<close>

definition parse_cont ::
  "'e env \<Rightarrow> bool \<Rightarrow> nat \<Rightarrow> bytes \<Rightarrow> (int \<times> 'e wsi) outcome option \<Rightarrow> (int \<times> nat \<times> 'e wsi) outcome option" where
  "parse_cont en cached used rest m =
     (case m of None \<Rightarrow> None | Some Fault \<Rightarrow> Some Fault
      | Some (Done (r, w)) \<Rightarrow> if r < 0 then Some (Done (-1, used, w)) else parse_ws_loop en cached w used rest)"

lemma parse_loop_Nil: "parse_ws_loop en cached w used [] = Some (Done (0, used, w))"
  by (simp add: parse_ws_loop.simps)

lemma parse_loop_spill_byte:
  assumes "server_rx_parse en False w c = Done (PSpill v)"
    and "rxflow_bitmap w = 0" and "\<not> rx_draining_ext w" and "\<not> rx_in_bulk w"
  shows "parse_ws_loop en cached w used (c # rest) = parse_cont en cached (Suc used) rest (server_rx_spill en False v)"
  using assms
  by (simp add: parse_ws_loop.simps [of en cached w] parse_ws_bulk.simps lws_ws_rx_sm_def parse_cont_def
      split: option.splits outcome.splits)

lemma buffered_out_rxps [simp]: "lws_has_buffered_out (w\<lparr>lws_rx_parse_state := s\<rparr>) = lws_has_buffered_out w"
  by (simp add: lws_has_buffered_out_def)

lemma tx_view_rxps [simp]: "tx_view (w\<lparr>lws_rx_parse_state := s\<rparr>) = tx_view w"
  by (simp add: tx_view_def)

lemma msg_inv_rxps [simp]: "msg_inv (w\<lparr>lws_rx_parse_state := s\<rparr>) = msg_inv w"
  by (simp add: msg_inv_def)

definition ctl_first :: "u8 \<Rightarrow> 'e wsi \<Rightarrow> 'e wsi" where
  "ctl_first op w =
     (let v = w\<lparr>all_zero_nonce := True, opcode := op, rsv := 0, ws_final := True, defeat_check_utf8 := False\<rparr> in
      set_rxps LWS_RXPS_04_FRAME_HDR_LEN (if op = LWSWSOPC_CLOSE then v\<lparr>check_utf8 := False, utf8 := 0\<rparr> else v))"

definition is_ctl :: "u8 \<Rightarrow> bool" where
  "is_ctl op \<longleftrightarrow> op = LWSWSOPC_CLOSE \<or> op = LWSWSOPC_PING \<or> op = LWSWSOPC_PONG"

lemma parse_loop_ctl_first:
  assumes "lws_rx_parse_state w = LWS_RXPS_NEW" and "msg_inv w" and "is_ctl op"
    and "rxflow_bitmap w = 0" and "\<not> rx_draining_ext w"
  shows "parse_ws_loop en cached w used (ws_first True op # rest) = parse_ws_loop en cached (ctl_first op w) (Suc used) rest"
proof (rule parse_loop_header_byte)
  show "server_rx_parse en False w (ws_first True op) = Done (PReturn 0 (ctl_first op w))"
    using assms(1,2,3) unfolding is_ctl_def
    by (elim disjE)
      (simp_all add: server_rx_parse_def server_rx_new_def server_rx_first_def server_rx_opcode_def ws_first_def
        ctl_first_def set_rxps_def msg_inv_def Let_def)
qed (use assms in \<open>simp_all add: rx_in_bulk_def\<close>)

lemma ctl_first_simps [simp]:
  "rx_bufs_ok en w \<Longrightarrow> rx_bufs_ok en (ctl_first op w)" "rx_ubuf_head (ctl_first op w) = rx_ubuf_head w"
  "opcode (ctl_first op w) = op" "events (ctl_first op w) = events w"
  "lws_rx_parse_state (ctl_first op w) = LWS_RXPS_04_FRAME_HDR_LEN" "mask (ctl_first op w) = mask w"
  "all_zero_nonce (ctl_first op w)" "rxflow_bitmap (ctl_first op w) = rxflow_bitmap w"
  "rx_draining_ext (ctl_first op w) = rx_draining_ext w" "calm (ctl_first op w) = calm w"
  "msg_inv (ctl_first op w) = msg_inv w" "pong_pending_flag (ctl_first op w) = pong_pending_flag w"
  "peer_has_sent_close (ctl_first op w) = peer_has_sent_close w" "lws_has_buffered_out (ctl_first op w) = lws_has_buffered_out w"
  by (simp_all add: ctl_first_def set_rxps_def calm_def msg_inv_def lws_has_buffered_out_def Let_def)

text \<open>The connection at the first byte of the payload of a control frame.\<close>

definition ctl_header :: "u8 \<Rightarrow> bytes \<Rightarrow> nat \<Rightarrow> 'e wsi \<Rightarrow> 'e wsi" where
  "ctl_header op key n w = after_key key (after_len True n (ctl_first op w))"

text \<open>Payload bytes one by one.\<close>

definition ctl_store :: "u8 \<Rightarrow> 'e wsi \<Rightarrow> 'e wsi" where
  "ctl_store c w =
     (if all_zero_nonce w
      then w\<lparr>rx_ubuf := (rx_ubuf w)[rx_ubuf_head w := c], rx_ubuf_head := Suc (rx_ubuf_head w),
             rx_packet_length := rx_packet_length w - 1\<rparr>
      else w\<lparr>rx_ubuf := (rx_ubuf w)[rx_ubuf_head w := c XOR mask w ! unat (mask_idx w AND 3)],
             rx_ubuf_head := Suc (rx_ubuf_head w), rx_packet_length := rx_packet_length w - 1,
             mask_idx := mask_idx w + 1\<rparr>)"

lemma server_rx_store_eq:
  "rx_ubuf_head w < length (rx_ubuf w) \<Longrightarrow> server_rx_store w c = Done (ctl_store c w)"
  by (simp add: server_rx_store_def ctl_store_def mem_store_one Let_def)

lemma server_payload_byte:
  assumes "rx_bufs_ok en w" and "rx_ubuf_head w < rx_size en" and "lws_rx_parse_state w = LWS_RXPS_WS_FRAME_PAYLOAD"
  shows "server_rx_parse en False w c =
    (if rx_packet_length w = 1 then Done (PSpill (set_rxps LWS_RXPS_NEW (ctl_store c w)))
     else if Suc (rx_ubuf_head w) \<noteq> rx_size en then Done (PReturn 0 (ctl_store c w))
     else Done (PSpill (ctl_store c w)))"
proof -
  have b: "rx_ubuf w \<noteq> []" "rx_ubuf_head w < length (rx_ubuf w)" "rx_ubuf_head w + 16 < rx_ubuf_alloc w"
    using assms(1,2) by (auto simp: rx_bufs_ok_def)
  have s: "\<not> rx_draining_ext (ctl_store c w)" "rx_packet_length (ctl_store c w) = rx_packet_length w - 1"
    "rx_ubuf_head (ctl_store c w) = Suc (rx_ubuf_head w)"
    using assms(1) by (simp_all add: ctl_store_def rx_bufs_ok_def)
  show ?thesis using b s assms(3)
    by (simp add: server_rx_parse_def server_rx_payload_def server_rx_store_eq rx_size_def)
qed

lemma ctl_store_simps [simp]:
  "rx_bufs_ok en w \<Longrightarrow> rx_bufs_ok en (ctl_store c w)" "rx_ubuf_head (ctl_store c w) = Suc (rx_ubuf_head w)"
  "rx_packet_length (ctl_store c w) = rx_packet_length w - 1" "length (rx_ubuf (ctl_store c w)) = length (rx_ubuf w)"
  "lws_rx_parse_state (ctl_store c w) = lws_rx_parse_state w" "opcode (ctl_store c w) = opcode w"
  "calm (ctl_store c w) = calm w" "msg_inv (ctl_store c w) = msg_inv w" "events (ctl_store c w) = events w"
  "mask (ctl_store c w) = mask w" "all_zero_nonce (ctl_store c w) = all_zero_nonce w"
  "pong_pending_flag (ctl_store c w) = pong_pending_flag w" "utf8 (ctl_store c w) = utf8 w"
  "peer_has_sent_close (ctl_store c w) = peer_has_sent_close w" "lws_has_buffered_out (ctl_store c w) = lws_has_buffered_out w"
  "check_utf8 (ctl_store c w) = check_utf8 w" "defeat_check_utf8 (ctl_store c w) = defeat_check_utf8 w"
  "ws_final (ctl_store c w) = ws_final w" "continuation_possible (ctl_store c w) = continuation_possible w"
  "tx_view (ctl_store c w) = tx_view w" "payload_is_close (ctl_store c w) = payload_is_close w"
  by (simp_all add: ctl_store_def calm_def msg_inv_def lws_has_buffered_out_def tx_view_def)

lemma ctl_store_content:
  assumes "rx_ubuf_head w < length (rx_ubuf w)"
  shows "take (Suc (rx_ubuf_head w)) (rx_ubuf (ctl_store c w)) =
    take (rx_ubuf_head w) (rx_ubuf w) @ rest_data w [c]"
  using assms by (simp add: ctl_store_def take_Suc_list_update rest_data_xor ws_xor_def unat_and_3)

lemma rest_data_ctl_store: "rest_data w (c # cs) = rest_data w [c] @ rest_data (ctl_store c w) cs"
proof -
  have "ws_xor (mask w) (unat (mask_idx w + 1)) cs = ws_xor (mask w) (unat (mask_idx w) + 1) cs"
    using ws_xor_mod [of "mask w" "unat (mask_idx w + 1)" cs] ws_xor_mod [of "mask w" "unat (mask_idx w) + 1" cs]
    unfolding unat_plus_1_mod4 by simp
  then show ?thesis using ws_xor_append [of "mask w" "unat (mask_idx w)" "[c]" cs]
    by (simp add: rest_data_xor ctl_store_def)
qed

lemma ctl_collect_content:
  "rx_ubuf_head w + length xs \<le> length (rx_ubuf w) \<Longrightarrow>
   rx_ubuf_head (fold ctl_store xs w) = rx_ubuf_head w + length xs \<and>
   take (rx_ubuf_head w + length xs) (rx_ubuf (fold ctl_store xs w)) = take (rx_ubuf_head w) (rx_ubuf w) @ rest_data w xs"
proof (induction xs arbitrary: w)
  case Nil
  then show ?case by (simp add: rest_data_xor)
next
  case (Cons c xs)
  then show ?case using Cons.IH [of "ctl_store c w"] ctl_store_content [of w c]
    by (simp add: rest_data_ctl_store [of w c xs])
qed

lemma ctl_collect_fields:
  "rx_bufs_ok en w \<Longrightarrow> rx_bufs_ok en (fold ctl_store xs w)"
  "rx_packet_length (fold ctl_store xs w) = rx_packet_length w - of_nat (length xs)"
  "opcode (fold ctl_store xs w) = opcode w" "calm (fold ctl_store xs w) = calm w"
  "msg_inv (fold ctl_store xs w) = msg_inv w" "events (fold ctl_store xs w) = events w"
  "pong_pending_flag (fold ctl_store xs w) = pong_pending_flag w" "utf8 (fold ctl_store xs w) = utf8 w"
  "peer_has_sent_close (fold ctl_store xs w) = peer_has_sent_close w"
  "lws_has_buffered_out (fold ctl_store xs w) = lws_has_buffered_out w" "check_utf8 (fold ctl_store xs w) = check_utf8 w"
  "defeat_check_utf8 (fold ctl_store xs w) = defeat_check_utf8 w" "ws_final (fold ctl_store xs w) = ws_final w"
  "continuation_possible (fold ctl_store xs w) = continuation_possible w" "tx_view (fold ctl_store xs w) = tx_view w"
  "payload_is_close (fold ctl_store xs w) = payload_is_close w"
  by (induction xs arbitrary: w) simp_all

lemma parse_loop_ctl_payload:
  assumes "rx_bufs_ok en w" and "calm w" and "is_ctl (opcode w)" and "xs \<noteq> []"
    and "lws_rx_parse_state w = LWS_RXPS_WS_FRAME_PAYLOAD" and "rx_packet_length w = of_nat (length xs)"
    and "length xs < 2 ^ 64" and "rx_ubuf_head w + length xs \<le> rx_size en"
  shows "parse_ws_loop en cached w used (xs @ rest) =
    parse_cont en cached (used + length xs) rest (server_rx_spill en False (set_rxps LWS_RXPS_NEW (fold ctl_store xs w)))"
  using assms
proof (induction xs arbitrary: w used)
  case (Cons c cs)
  have un: "unat (of_nat (length (c # cs)) :: u64) = length (c # cs)"
    using Cons.prems(7) by (rule unat_of_nat_u64)
  have one: "rx_packet_length w = 1 \<longleftrightarrow> cs = []"
    using un word_unat_eq_iff [of "rx_packet_length w" 1] unfolding Cons.prems(6) by simp
  have nb: "\<not> rx_in_bulk w" using Cons.prems(3) by (auto simp: rx_in_bulk_def is_ctl_def)
  have f: "rxflow_bitmap w = 0" "\<not> rx_draining_ext w"
    using Cons.prems(1,2) by (simp_all add: calm_def rx_bufs_ok_def)
  have pb: "server_rx_parse en False w c =
    (if cs = [] then Done (PSpill (set_rxps LWS_RXPS_NEW (ctl_store c w)))
     else if Suc (rx_ubuf_head w) \<noteq> rx_size en then Done (PReturn 0 (ctl_store c w))
     else Done (PSpill (ctl_store c w)))"
    using server_payload_byte [of en w c] Cons.prems(1,5,8) one by simp
  show ?case
  proof (cases "cs = []")
    case True
    then show ?thesis using parse_loop_spill_byte [of en w c, OF _ f nb] pb by simp
  next
    case False
    have ne: "Suc (rx_ubuf_head w) \<noteq> rx_size en" using Cons.prems(8) False by (cases cs) auto
    have "parse_ws_loop en cached w used (c # cs @ rest) = parse_ws_loop en cached (ctl_store c w) (Suc used) (cs @ rest)"
      using parse_loop_header_byte [of en w c, OF _ f nb] pb ne False by simp
    then show ?thesis using Cons.IH [of "ctl_store c w" "Suc used"] Cons.prems False by simp
  qed
qed simp

lemma parse_loop_key_spill:
  assumes "lws_rx_parse_state w = LWS_RXPS_07_COLLECT_FRAME_KEY_1" and "length (mask w) = 4"
    and "length key = 4" and "all_zero_nonce w" and "rxflow_bitmap w = 0" "\<not> rx_draining_ext w"
    and "rx_packet_length w = 0"
  shows "parse_ws_loop en cached w used (key @ rest) =
    parse_cont en cached (used + 4) rest (server_rx_spill en False (set_rxps LWS_RXPS_NEW (after_key key w)))"
proof -
  let ?v = "before_key4 key w"
  have v: "lws_rx_parse_state ?v = LWS_RXPS_07_COLLECT_FRAME_KEY_4" "rx_packet_length ?v = 0"
    "rxflow_bitmap ?v = 0" "\<not> rx_draining_ext ?v"
    using assms(5-7) by (simp_all add: before_key4_def rx_mask_byte_def set_rxps_def Let_def)
  have "server_rx_parse en False ?v (key ! 3) = Done (PSpill (set_rxps LWS_RXPS_NEW (after_key key w)))"
    using v server_rx_parse_key4 [OF v(1)] after_key4 [OF assms(2-4)] by (simp add: set_rxps_def)
  from parse_loop_spill_byte [OF this v(3,4)] show ?thesis
    using v(1) parse_loop_key3 [OF assms(1,3,5,6)] by (simp add: rx_in_bulk_def add.commute)
qed

text \<open>A control frame with its payload collected: what is in the frame buffer, and what is as before.\<close>

definition ctl_collected :: "'e env \<Rightarrow> u8 \<Rightarrow> bytes \<Rightarrow> 'e wsi \<Rightarrow> 'e wsi \<Rightarrow> bool" where
  "ctl_collected en op pl w v \<longleftrightarrow>
     rx_bufs_ok en v \<and> calm v \<and> msg_inv v \<and> lws_rx_parse_state v = LWS_RXPS_NEW \<and> opcode v = op \<and>
     rx_packet_length v = 0 \<and> ws_final v \<and> rx_ubuf_head v = length pl \<and> take (length pl) (rx_ubuf v) = pl \<and>
     events v = events w \<and> pong_pending_flag v = pong_pending_flag w \<and> \<not> defeat_check_utf8 v \<and>
     peer_has_sent_close v = peer_has_sent_close w \<and> lws_has_buffered_out v = lws_has_buffered_out w \<and>
     continuation_possible v = continuation_possible w \<and> tx_view v = tx_view w \<and>
     payload_is_close v = payload_is_close w \<and>
     check_utf8 v = (op \<noteq> LWSWSOPC_CLOSE \<and> check_utf8 w) \<and> utf8 v = (if op = LWSWSOPC_CLOSE then 0 else utf8 w)"

lemma ctl_header_fields:
  fixes op :: u8 and n :: nat
  assumes "rx_idle en w" and "length key = 4"
  defines "v \<equiv> ctl_header op key n w"
  shows "rx_bufs_ok en v" "calm v" "msg_inv v" "opcode v = op" "rx_packet_length v = of_nat n" "ws_final v"
    "rx_ubuf_head v = 0" "events v = events w" "pong_pending_flag v = pong_pending_flag w" "\<not> defeat_check_utf8 v"
    "peer_has_sent_close v = peer_has_sent_close w" "lws_has_buffered_out v = lws_has_buffered_out w"
    "continuation_possible v = continuation_possible w" "check_utf8 v = (op \<noteq> LWSWSOPC_CLOSE \<and> check_utf8 w)"
    "utf8 v = (if op = LWSWSOPC_CLOSE then 0 else utf8 w)" "mask v = key" "mask_idx v = 0"
    "all_zero_nonce v = (key = [0, 0, 0, 0])" "tx_view v = tx_view w" "payload_is_close v = payload_is_close w"
proof -
  note w = rx_idle_facts [OF assms(1)]
  show "rx_bufs_ok en v" using w(1) assms(2) by (simp add: v_def ctl_header_def after_key_def after_len_def rx_bufs_ok_def svc_ok_def ctl_first_def set_rxps_def Let_def)
qed (use rx_idle_facts [OF assms(1)] in \<open>simp_all add: v_def ctl_header_def after_key_def after_len_def ctl_first_def
    set_rxps_def calm_def msg_inv_def lws_has_buffered_out_def tx_view_def Let_def\<close>)

lemma parse_loop_ctl_frame:
  assumes idle: "rx_idle en w" and op: "is_ctl op" and key: "length key = 4"
    and n: "length pl \<le> 125" "length pl \<le> rx_size en"
  shows "\<exists>v. parse_ws_loop en cached w used (ws_frame True op (Some key) pl @ rest) =
      parse_cont en cached (used + length (ws_frame True op (Some key) pl)) rest (server_rx_spill en False v) \<and>
    ctl_collected en op pl w v"
proof -
  note w = rx_idle_facts [OF idle]
  let ?n = "length pl" and ?xs = "ws_xor key 0 pl"
  let ?h = "ctl_header op key ?n w"
  note h = ctl_header_fields [OF idle key, of op ?n]
  define v where "v = set_rxps LWS_RXPS_07_COLLECT_FRAME_KEY_1 (after_len True ?n (ctl_first op w))"
  have v: "lws_rx_parse_state v = LWS_RXPS_07_COLLECT_FRAME_KEY_1" "length (mask v) = 4" "all_zero_nonce v"
    "rxflow_bitmap v = 0" "\<not> rx_draining_ext v" "rx_packet_length v = of_nat ?n"
    using w by (simp_all add: v_def after_len_def set_rxps_def)
  have hd: "parse_ws_loop en cached w used (ws_frame True op (Some key) pl @ rest) =
      parse_ws_loop en cached v (used + 1 + length (ws_len True ?n)) (key @ ?xs @ rest)"
    using parse_loop_ctl_first [OF w(8,7) op w(4,5)] n(1) w(4,5)
      parse_loop_len_masked [of "ctl_first op w" ?n en cached "Suc used" "key @ ?xs @ rest"]
    by (simp add: ws_frame_def ws_header_def v_def)
  have ak: "set_rxps s (after_key key v) = set_rxps s ?h" for s
    by (simp add: v_def ctl_header_def after_key_def set_rxps_def)
  have un: "unat (of_nat ?n :: u64) = ?n" using n(1) by (intro unat_of_nat_u64) simp
  show ?thesis
  proof (cases "pl = []")
    case True
    have "ctl_collected en op pl w (set_rxps LWS_RXPS_NEW ?h)"
      using h True by (simp add: ctl_collected_def set_rxps_def lws_has_buffered_out_def)
    moreover have "parse_ws_loop en cached w used (ws_frame True op (Some key) pl @ rest) =
        parse_cont en cached (used + length (ws_frame True op (Some key) pl)) rest
          (server_rx_spill en False (set_rxps LWS_RXPS_NEW ?h))"
      using hd True parse_loop_key_spill [OF v(1,2) key v(3,4,5), of en cached _ rest] v(6) key
      by (simp add: ak ws_frame_def ws_header_def ac_simps)
    ultimately show ?thesis by blast
  next
    case False
    define u where "u = set_rxps LWS_RXPS_WS_FRAME_PAYLOAD ?h"
    have u: "rx_bufs_ok en u" "calm u" "opcode u = op" "lws_rx_parse_state u = LWS_RXPS_WS_FRAME_PAYLOAD"
      "rx_packet_length u = of_nat (length ?xs)" "rx_ubuf_head u = 0" using h by (simp_all add: u_def)
    have ne: "?xs \<noteq> []" "(of_nat ?n :: u64) \<noteq> 0" using False un by (auto simp: ws_xor_def)
    have rd: "rest_data u ?xs = pl" using h key by (intro rest_data_unmasks) (simp_all add: u_def set_rxps_def)
    have lu: "length ?xs \<le> length (rx_ubuf u)" using u(1) n(2) by (simp add: rx_bufs_ok_def)
    let ?c = "set_rxps LWS_RXPS_NEW (fold ctl_store ?xs u)"
    have "ctl_collected en op pl w ?c"
      using u h ctl_collect_content [of u ?xs] lu rd
      by (simp add: ctl_collected_def ctl_collect_fields u_def set_rxps_def)
    moreover have "parse_ws_loop en cached w used (ws_frame True op (Some key) pl @ rest) =
        parse_cont en cached (used + length (ws_frame True op (Some key) pl)) rest (server_rx_spill en False ?c)"
      using hd parse_loop_key [OF v(1,2) key v(3,4,5), of en cached _ "?xs @ rest"] v(6) ne key
        parse_loop_ctl_payload [of en u ?xs cached _ rest] u op n
      by (simp add: ak u_def ws_frame_def ws_header_def ac_simps)
    ultimately show ?thesis by blast
  qed
qed

section \<open>What the server does with them\<close>

text \<open>The frame buffer holds exactly \<open>pl\<close>.\<close>

definition ubuf_holds :: "bytes \<Rightarrow> 'e wsi \<Rightarrow> bool" where
  "ubuf_holds pl v \<longleftrightarrow> rx_ubuf_head v = length pl \<and> take (length pl) (rx_ubuf v) = pl \<and> 2 \<le> length (rx_ubuf v)"

lemma ctl_collected_ubuf: "ctl_collected en op pl w v \<Longrightarrow> ubuf_holds pl v"
  by (simp add: ctl_collected_def ubuf_holds_def rx_bufs_ok_def)

lemma ubuf_holds_length: "ubuf_holds pl v \<Longrightarrow> length pl \<le> length (rx_ubuf v)"
  by (metis length_take min.cobounded1 ubuf_holds_def)

lemma holds_stash_pong:
  assumes "ubuf_holds pl v" and "length (pong_payload_buf v) = 125" and "length pl \<le> 125"
  shows "rx_stash_pong v = Done ((log_event EvWritable (v\<lparr>pong_payload_buf := pl @ drop (length pl) (pong_payload_buf v),
    pong_payload_len := of_nat (length pl), pong_pending_flag := True\<rparr>))\<lparr>rx_ubuf_head := 0\<rparr>)"
  using assms ubuf_holds_length [OF assms(1)]
  by (simp add: rx_stash_pong_def mem_load_def mem_store_def ubuf_holds_def)

lemma rx_bufs_ok_pong:
  "rx_bufs_ok en w \<Longrightarrow> length b = 125 \<Longrightarrow> rx_bufs_ok en (w\<lparr>pong_payload_buf := b\<rparr>)"
  by (simp add: rx_bufs_ok_def svc_ok_def)

definition close_reply :: "(nat \<Rightarrow> bool) \<Rightarrow> bytes \<Rightarrow> bytes" where
  "close_reply bad pl =
     (if 2 \<le> length pl \<and> bad (unat (pl ! 0) * 256 + unat (pl ! 1)) then [0x03, 0xea] @ drop 2 pl else pl)"

lemma close_reply_length [simp]: "length (close_reply bad pl) = length pl"
  by (auto simp: close_reply_def)

lemma holds_sanitize:
  assumes "ubuf_holds pl v"
  shows "\<exists>b. rx_close_sanitize bad v = Done (v\<lparr>rx_ubuf := b\<rparr>) \<and> length b = length (rx_ubuf v) \<and>
    ubuf_holds (close_reply bad pl) (v\<lparr>rx_ubuf := b\<rparr>)"
proof (cases "2 \<le> length pl")
  case False
  then have "rx_close_sanitize bad v = Done (v\<lparr>rx_ubuf := rx_ubuf v\<rparr>)" "close_reply bad pl = pl"
    using assms by (simp_all add: rx_close_sanitize_def close_reply_def ubuf_holds_def)
  then show ?thesis using assms by (intro exI [of _ "rx_ubuf v"]) simp
next
  case True
  then obtain a b p where pl: "pl = a # b # p" by (cases pl; cases "tl pl") auto
  then obtain r where u: "rx_ubuf v = a # b # r" "take (length p) r = p"
    using assms by (cases "rx_ubuf v"; cases "tl (rx_ubuf v)") (auto simp: ubuf_holds_def)
  let ?bad = "bad (unat a * 256 + unat b)"
  have "rx_close_sanitize bad v = Done (v\<lparr>rx_ubuf := if ?bad then 0x03 # 0xea # r else a # b # r\<rparr>)"
    using assms u pl by (simp add: rx_close_sanitize_def rx_close_code_def ubuf_holds_def)
  then show ?thesis
    using assms u pl by (intro exI [of _ "if ?bad then 0x03 # 0xea # r else a # b # r"])
      (simp add: ubuf_holds_def close_reply_def)
qed

lemma holds_close_utf8:
  assumes "ubuf_holds pl v" and "fst (lws_check_utf8 (utf8 v) (drop 2 pl)) = 0"
  shows "\<exists>st. rx_close_utf8 en v = Done (False, v\<lparr>utf8 := st\<rparr>)"
proof (cases "opt_validate_utf8 en \<and> 2 < length pl")
  case True
  have "take (length pl - 2) (drop 2 (rx_ubuf v)) = drop 2 pl"
    using assms(1) by (metis drop_take ubuf_holds_def)
  moreover obtain st where "lws_check_utf8 (utf8 v) (drop 2 pl) = (0, st)" using assms(2) by (metis prod.collapse)
  ultimately show ?thesis using True assms(1) ubuf_holds_length [OF assms(1)]
    by (auto simp: rx_close_utf8_def mem_load_def check_utf8_in_def ubuf_holds_def)
next
  case False
  then have "rx_close_utf8 en v = Done (False, v\<lparr>utf8 := utf8 v\<rparr>)"
    using assms(1) by (auto simp: rx_close_utf8_def ubuf_holds_def)
  then show ?thesis by blast
qed

text \<open>A ping: the server stashes exactly the ping's payload for a pong, asks to be called when the socket is
  writable, shows the user nothing, and is ready for the next frame with the message it may be in the middle of,
  and its text check, undisturbed.\<close>

lemma server_answers_ping:
  assumes "rx_idle en w" and "\<not> pong_pending_flag w" and "length key = 4"
    and "length pl \<le> 125" and "length pl \<le> rx_size en"
  shows "\<exists>w'. lws_parse_ws en w cached (ws_frame True LWSWSOPC_PING (Some key) pl) =
      Some (Done (0, length (ws_frame True LWSWSOPC_PING (Some key) pl), w')) \<and>
    rx_idle en w' \<and> pong_pending_flag w' \<and> take (unat (pong_payload_len w')) (pong_payload_buf w') = pl \<and>
    events w' = events w @ [EvWritable] \<and> continuation_possible w' = continuation_possible w \<and>
    check_utf8 w' = check_utf8 w \<and> utf8 w' = utf8 w \<and>
    tx_view w' = tx_view w \<and> payload_is_close w' = payload_is_close w \<and> unat (pong_payload_len w') = length pl"
proof -
  obtain v where v: "parse_ws_loop en cached w 0 (ws_frame True 9 (Some key) pl @ []) =
      parse_cont en cached (0 + length (ws_frame True 9 (Some key) pl)) [] (server_rx_spill en False v)"
    "ctl_collected en 9 pl w v"
    using parse_loop_ctl_frame [OF assms(1) _ assms(3,4,5), of 9 cached 0 "[]"] by (auto simp: is_ctl_def)
  let ?w' = "(log_event EvWritable (v\<lparr>pong_payload_buf := pl @ drop (length pl) (pong_payload_buf v),
    pong_payload_len := of_nat (length pl), pong_pending_flag := True\<rparr>))\<lparr>rx_ubuf_head := 0\<rparr>"
  have f: "opcode v = 9" "\<not> pong_pending_flag v" "rx_bufs_ok en v"
    using v(2) assms(2) by (simp_all add: ctl_collected_def)
  have l: "length (pong_payload_buf v) = 125" using f(3) by (simp add: rx_bufs_ok_def)
  have "server_rx_spill en False v = Some (Done (0, ?w'))"
    using f(1,2) holds_stash_pong [OF ctl_collected_ubuf [OF v(2)] l assms(4)] by (simp add: server_rx_spill_def server_rx_ping_def)
  then have "lws_parse_ws en w cached (ws_frame True 9 (Some key) pl) =
      Some (Done (0, length (ws_frame True 9 (Some key) pl), ?w'))"
    using v(1) by (simp add: lws_parse_ws_def parse_cont_def parse_loop_Nil)
  moreover have "rx_bufs_ok en ?w'" using f(3) l assms(4) by (simp add: rx_bufs_ok_pong)
  then have "rx_idle en ?w'"
    using v(2) by (simp add: rx_idle_def server_rx_inv_def ctl_collected_def calm_def msg_inv_def log_event_def)
  moreover have "unat (of_nat (length pl) :: u8) = length pl" using assms(4) by (intro unat_of_nat_u8) simp
  ultimately show ?thesis using v(2)
    by (intro exI [of _ ?w']) (simp add: ctl_collected_def log_event_def tx_view_def)
qed

text \<open>A close frame: the server tells the user and stashes its own close frame, with the status code replaced
  when the peer may not send it.\<close>

lemma server_returns_close:
  assumes "rx_idle en w" and "quiet en" and "\<not> peer_has_sent_close w" and "\<not> lws_has_buffered_out w"
    and "length key = 4" and "length pl \<le> 125" and "length pl \<le> rx_size en"
    and "fst (lws_check_utf8 0 (drop 2 pl)) = 0"
  defines "reply \<equiv> close_reply server_close_code_bad pl"
  shows "\<exists>w'. lws_parse_ws en w cached (ws_frame True LWSWSOPC_CLOSE (Some key) pl) =
      Some (Done (0, length (ws_frame True LWSWSOPC_CLOSE (Some key) pl), w')) \<and>
    wsi_state w' = LRS_RETURNED_CLOSE \<and> peer_has_sent_close w' \<and> payload_is_close w' \<and> pong_pending_flag w' \<and>
    take (unat (pong_payload_len w')) (pong_payload_buf w') = reply \<and>
    events w' = events w @ [EvCallback LWS_CALLBACK_WS_PEER_INITIATED_CLOSE reply, EvWritable] \<and>
    tx_view w' = tx_view w \<and> unat (pong_payload_len w') = length pl \<and> length (pong_payload_buf w') = 125"
proof -
  obtain v where v: "parse_ws_loop en cached w 0 (ws_frame True 8 (Some key) pl @ []) =
      parse_cont en cached (0 + length (ws_frame True 8 (Some key) pl)) [] (server_rx_spill en False v)"
    "ctl_collected en 8 pl w v"
    using parse_loop_ctl_frame [OF assms(1) _ assms(5,6,7), of 8 cached 0 "[]"] by (auto simp: is_ctl_def)
  have f: "opcode v = 8" "\<not> peer_has_sent_close v" "\<not> lws_has_buffered_out v" "calm v" "utf8 v = 0" "events v = events w"
    "length (pong_payload_buf v) = 125" "tx_view v = tx_view w"
    using v(2) assms(3,4) by (simp_all add: ctl_collected_def rx_bufs_ok_def)
  let ?v = "v\<lparr>peer_has_sent_close := True\<rparr>"
  have h: "ubuf_holds pl ?v" using ctl_collected_ubuf [OF v(2)] by (simp add: ubuf_holds_def)
  obtain st where u: "rx_close_utf8 en ?v = Done (False, ?v\<lparr>utf8 := st\<rparr>)"
    using holds_close_utf8 [OF h] f(5) assms(8) by auto
  have "ubuf_holds pl (?v\<lparr>utf8 := st\<rparr>)" using h by (simp add: ubuf_holds_def)
  then obtain b where b: "rx_close_sanitize server_close_code_bad (?v\<lparr>utf8 := st\<rparr>) = Done (?v\<lparr>utf8 := st, rx_ubuf := b\<rparr>)"
    "ubuf_holds reply (?v\<lparr>utf8 := st, rx_ubuf := b\<rparr>)"
    using holds_sanitize [of pl "?v\<lparr>utf8 := st\<rparr>" server_close_code_bad] unfolding reply_def by auto
  let ?u = "?v\<lparr>utf8 := st, rx_ubuf := b\<rparr>"
  have ld: "mem_load (rx_ubuf ?u) 0 (rx_ubuf_head ?u) = Done reply"
    using b(2) ubuf_holds_length [OF b(2)] by (simp add: mem_load_def ubuf_holds_def)
  let ?x = "(log_event (EvCallback LWS_CALLBACK_WS_PEER_INITIATED_CLOSE reply) ?u)\<lparr>wsi_state := LRS_RETURNED_CLOSE,
    payload_is_close := True\<rparr>"
  have st': "wsi_state ?u = LRS_ESTABLISHED" "\<not> lws_partial_buffered ?u" "calm ?u"
    using f(3,4) by (simp_all add: calm_def lws_partial_buffered_def lws_has_buffered_out_def)
  have "ubuf_holds reply ?x" using b(2) by (simp add: ubuf_holds_def log_event_def)
  note sp = holds_stash_pong [OF this]
  have len: "length reply \<le> 125" using assms(6) by (simp add: reply_def)
  let ?w' = "(log_event EvWritable (?x\<lparr>pong_payload_buf := reply @ drop (length reply) (pong_payload_buf ?x),
    pong_payload_len := of_nat (length reply), pong_pending_flag := True\<rparr>))\<lparr>rx_ubuf_head := 0\<rparr>"
  have "rx_stash_pong ?x = Done ?w'" using sp len f(7) by (simp add: log_event_def)
  then have "server_rx_close en v = Done (0, ?w')"
    using u b(1) ld st' quiet_callback_rxflow [OF assms(2) st'(3)]
    by (simp add: server_rx_close_def lws_partial_buffered_def lws_has_buffered_out_def)
  then have "lws_parse_ws en w cached (ws_frame True 8 (Some key) pl) =
      Some (Done (0, length (ws_frame True 8 (Some key) pl), ?w'))"
    using v(1) f(1,2) by (simp add: lws_parse_ws_def parse_cont_def parse_loop_Nil server_rx_spill_def)
  moreover have "unat (of_nat (length reply) :: u8) = length reply" using len by (intro unat_of_nat_u8) simp
  moreover have "length reply = length pl" by (simp add: reply_def)
  ultimately show ?thesis using f(6-8) len by (intro exI [of _ ?w']) (simp add: log_event_def tx_view_def)
qed

section \<open>Properties\<close>

text \<open>C37. In the middle of a text message the server checks the payload of a pong as if it were part of
  the text: a pong whose payload is not UTF-8 ends the connection.\<close>

theorem server_refuses_binary_pong:
  assumes "rx_idle en w" and "check_utf8 w" and "length key = 4" and "pl \<noteq> []"
    and "length pl \<le> 125" and "length pl \<le> rx_size en" and "fst (lws_check_utf8 (utf8 w) pl) \<noteq> 0"
  shows "\<exists>w'. lws_parse_ws en w cached (ws_frame True LWSWSOPC_PONG (Some key) pl) =
      Some (Done (-1, length (ws_frame True LWSWSOPC_PONG (Some key) pl), w'))"
proof -
  obtain v where v: "parse_ws_loop en cached w 0 (ws_frame True 10 (Some key) pl @ []) =
      parse_cont en cached (0 + length (ws_frame True 10 (Some key) pl)) [] (server_rx_spill en False v)"
    "ctl_collected en 10 pl w v"
    using parse_loop_ctl_frame [OF assms(1) _ assms(3,5,6), of 10 cached 0 "[]"] by (auto simp: is_ctl_def)
  let ?v = "log_event EvValidity v"
  have f: "opcode v = 10" "rx_ubuf_head v = length pl" "rx_bufs_ok en ?v" "take (length pl) (rx_ubuf v) = pl"
    "check_utf8 v" "\<not> defeat_check_utf8 v" "utf8 v = utf8 w" "wsi_state v = LRS_ESTABLISHED"
    using v(2) assms(2) by (simp_all add: ctl_collected_def calm_def)
  have bad: "fst (server_text_check ?v)"
    using f assms(4,7) by (auto simp: server_text_check_def client_text_check_def check_utf8_in_def log_event_def
        Let_def lws_check_utf8_def split: prod.splits option.splits)
  obtain w1 where c: "server_text_check ?v = (True, w1)" using bad by (metis (full_types) prod.collapse)
  have "wsi_state ?v = LRS_ESTABLISHED" "rx_ubuf_head ?v = length pl" "length pl \<noteq> 0"
    using f(2,8) assms(4) by (simp_all add: log_event_def)
  then have "server_rx_spill en False v = Some (Done (-1, w1))"
    using server_rx_loop_plain [OF f(3), of LWS_CALLBACK_RECEIVE_PONG False] f(1) c assms(6)
    by (simp add: server_rx_spill_def Let_def)
  then show ?thesis using v(1) by (simp add: lws_parse_ws_def parse_cont_def)
qed

theorem server_refuses_binary_pong_witness:
  "\<exists>k w'. lws_parse_ws (quiet_env True 64) ((ws_established False 64 :: unit wsi)\<lparr>check_utf8 := True,
      continuation_possible := True, owed_a_fin := True\<rparr>) False (ws_frame True LWSWSOPC_PONG (Some [1, 2, 3, 4]) [0xff]) =
      Some (Done (-1, k, w'))"
proof -
  let ?w = "(ws_established False 64 :: unit wsi)\<lparr>check_utf8 := True, continuation_possible := True, owed_a_fin := True\<rparr>"
    and ?en = "quiet_env True 64 :: unit env"
  have "rx_idle ?en (ws_established False 64)" by (intro established_idle) simp_all
  then have idle: "rx_idle ?en ?w"
    by (auto simp: rx_idle_def server_rx_inv_def rx_bufs_ok_def svc_ok_def calm_def msg_inv_def)
  have pre: "check_utf8 ?w" "length ([0xff] :: bytes) \<le> rx_size ?en" "utf8 ?w = 0"
    by (simp_all add: ws_established_def wsi_zalloc_def quiet_env_def rx_size_def)
  have u: "fst (lws_check_utf8 (utf8 ?w) [0xff]) \<noteq> 0" unfolding pre(3) by code_simp
  show ?thesis
    by (rule exI, rule ex_forward [OF server_refuses_binary_pong [OF idle pre(1) _ _ _ pre(2) u]]) simp_all
qed

end
