(* ===== verification/Ws_Limits.thy ===== *)
theory Ws_Limits
  imports Ws_Control
begin

text \<open>
  Where the receive path falls short of what it means to do: a text message that ends inside a
  character, and a client whose extension says a message is not for it.
\<close>

section \<open>A text message that ends inside a character\<close>

text \<open>C36. The server only looks for a character left open at the end of a text message when the last
  frame brings payload: text cut off inside a character and closed by an empty final fragment is
  accepted, and the open character is carried over into the next message.  (Both frames arrive in one buffer of fewer than
  \<open>2 ^ 31\<close> bytes, at a server without extensions.)\<close>

theorem server_accepts_truncated_text:
  assumes "quiet en" and "rx_idle en w" and "\<not> continuation_possible w" and "utf8 w = 0"
    and "length k1 = 4" and "length k2 = 4" and "length pl + 32 < 2 ^ 31" and "lws_check_utf8 0 pl = (0, st)"
    and "opt_validate_utf8 en"
  shows "\<exists>w'. lws_parse_ws en w cached
      (ws_frame False LWSWSOPC_TEXT_FRAME (Some k1) pl @ ws_frame True LWSWSOPC_CONTINUATION (Some k2) []) =
      Some (Done (0, length (ws_frame False LWSWSOPC_TEXT_FRAME (Some k1) pl @
        ws_frame True LWSWSOPC_CONTINUATION (Some k2) []), w')) \<and>
    rx_idle en w' \<and> \<not> continuation_possible w' \<and> utf8 w' = st \<and>
    delivered (events w') = delivered (events w) @ pl"
proof -
  let ?Q = "\<lambda>w'. rx_idle en w' \<and> \<not> continuation_possible w' \<and> utf8 w' = st"
    and ?f = "ws_frame False 1 (Some k1) pl" and ?g = "ws_frame True 0 (Some k2) []"
  have "check_utf8_loop 0 pl = Some st"
    using assms(8) by (simp add: lws_check_utf8_def split: option.splits)
  then have t1: "text_step (after_first en False 1 w) pl = Some st"
    using assms(4,9) by (simp add: text_step_def after_first_def set_rxps_def Let_def)
  have "rx_due en ?Q w1 (?g @ []) ([] @ [])" if w1: "frame_done en False 1 st w w1" for w1
  proof (rule frame_due [OF assms(1) _ _ _ assms(6)])
    show "text_step (after_first en True 0 w1) [] = Some st"
      using w1 by (simp add: text_step_def after_first_def set_rxps_def frame_done_def Let_def)
  qed (use w1 in \<open>auto simp: frame_done_def intro: due_done\<close>)
  then have due: "rx_due en ?Q w (?f @ ?g @ []) (pl @ [] @ [])"
    by (intro frame_due [OF assms(1,2) _ _ assms(5) _ t1]) (use assms(3,7) in auto)
  have "length (?f @ ?g) < 2 ^ 31" using assms(5-7) by (simp add: ws_frame_def ws_header_def ws_len_def ws_xor_def)
  from rx_due_piece [OF assms(1) due _ this, of "[]" cached 0] obtain w1 d1 d2 where
    "parse_ws_loop en cached w 0 (?f @ ?g) = Some (Done (0, 0 + length (?f @ ?g), w1))" "rx_due en ?Q w1 [] d2" "pl = d1 @ d2"
    "delivered (events w1) = delivered (events w) @ d1" by auto
  then show ?thesis by (auto simp: lws_parse_ws_def elim!: rx_due_NilE)
qed

theorem server_accepts_truncated_text_witness:
  "\<exists>k w'. lws_parse_ws (quiet_env True 64) (ws_established False 64 :: unit wsi) False
      (ws_frame False LWSWSOPC_TEXT_FRAME (Some [1, 2, 3, 4]) [0xc3] @
       ws_frame True LWSWSOPC_CONTINUATION (Some [1, 2, 3, 4]) []) = Some (Done (0, k, w')) \<and>
    delivered (events w') = [0xc3] \<and> utf8 w' \<noteq> 0"
proof -
  let ?w = "ws_established False 64 :: unit wsi" and ?en = "quiet_env True 64 :: unit env"
  have idle: "rx_idle ?en ?w" by (intro established_idle) simp_all
  have pre: "\<not> continuation_possible ?w" "utf8 ?w = 0" "opt_validate_utf8 ?en" "delivered (events ?w) = []"
    by (simp_all add: quiet_env_def)
  obtain st where u: "lws_check_utf8 0 [0xc3] = (0, st)" "st \<noteq> 0"
    by (simp add: lws_check_utf8_def utf8_table)
  show ?thesis
    by (rule exI, rule ex_forward [OF server_accepts_truncated_text
          [OF quiet_quiet_env idle pre(1,2) _ _ _ u(1) pre(3), of "[1, 2, 3, 4]" "[1, 2, 3, 4]" False]])
      (use pre(4) u(2) in simp_all)
qed

section \<open>A client whose extension passes a message by\<close>

text \<open>What \<open>lws_extension_callback_pm_deflate\<close> does with a message that is not marked as compressed.\<close>

definition passes_uncompressed :: "'e env \<Rightarrow> bool" where
  "passes_uncompressed en \<longleftrightarrow> (\<forall>n w p l. rsv_first_msg w AND 0x40 = 0 \<longrightarrow>
     ext_callback en n w LWS_EXT_CB_PAYLOAD_RX p l = (PMDR_NOTHING_WE_SHOULD_DO, w, p))"

definition client_spins :: "lws_ext_pm_deflate_rx_ebufs \<Rightarrow> 'e wsi \<Rightarrow> bool" where
  "client_spins p w \<longleftrightarrow> count_act_ext w = 1 \<and> rsv_first_msg w AND 0x40 = 0 \<and> \<not> check_utf8 w \<and>
     wsi_state w = LRS_ESTABLISHED \<and> 0 < tok_len (eb_in p) \<and> tok (eb_out p) = TUbuf \<and> 0 < tok_len (eb_out p) \<and>
     nat (tok_len (eb_out p)) < length (rx_ubuf w)"

lemma client_spins_remove: "client_spins p w \<Longrightarrow> client_spins p (lws_remove_wsi_from_draining_ext_list w)"
  by (simp add: client_spins_def lws_remove_wsi_from_draining_ext_list_def)

lemma client_deliver_spins:
  assumes "quiet en" and "client_spins p w"
  shows "\<exists>w'. client_rx_deliver en act PMDR_NOTHING_WE_SHOULD_DO d p w = Done (IterNext p d w') \<and> client_spins p w'"
proof -
  let ?n = "nat (tok_len (eb_out p))"
  let ?w = "lws_remove_wsi_from_draining_ext_list (w\<lparr>rx_ubuf := (rx_ubuf w)[?n := 0]\<rparr>)"
  have s: "client_spins p (w\<lparr>rx_ubuf := (rx_ubuf w)[?n := 0]\<rparr>)" using assms(2) by (simp add: client_spins_def)
  have r: "client_spins p ?w" using s by (rule client_spins_remove)
  have "token_nul w (eb_out p) = Done (w\<lparr>rx_ubuf := (rx_ubuf w)[?n := 0]\<rparr>, eb_out p)"
    using assms(2) by (simp add: token_nul_def client_spins_def mem_store_one)
  moreover have "token_load ?w (eb_out p) = Done (take ?n (rx_ubuf ?w))"
    using r by (simp add: token_load_def client_spins_def mem_load_def)
  moreover have "\<not> tok_len (eb_out p) < 0" "tok (eb_out p) \<noteq> TNull" "wsi_state ?w = LRS_ESTABLISHED" "has_callback en"
    using assms r by (simp_all add: client_spins_def quiet_def)
  ultimately have "client_rx_deliver en act PMDR_NOTHING_WE_SHOULD_DO d p w =
      Done (IterNext p d ((log_event (EvCallback act (take ?n (rx_ubuf ?w))) ?w)\<lparr>first_fragment := False\<rparr>))"
    by (simp add: client_rx_deliver_def rx_mark_draining_def quiet_callback [OF assms(1)] Let_def)
  moreover have "client_spins p ((log_event (EvCallback act (take ?n (rx_ubuf ?w))) ?w)\<lparr>first_fragment := False\<rparr>)"
    using r by (simp add: client_spins_def log_event_def)
  ultimately show ?thesis by blast
qed

lemma client_iter_spins:
  assumes "quiet en" and "passes_uncompressed en" and "client_spins p w"
  shows "\<exists>w'. client_rx_iter en act p draining w = Done (IterNext p False w') \<and> client_spins p w'"
proof -
  let ?w = "lws_remove_wsi_from_draining_ext_list w"
  have r: "client_spins p ?w" using assms(3) by (rule client_spins_remove)
  obtain w' where w': "client_rx_deliver en act PMDR_NOTHING_WE_SHOULD_DO False p ?w = Done (IterNext p False w')" "client_spins p w'"
    using client_deliver_spins [OF assms(1) r] by blast
  have "lws_ext_cb_active en w LWS_EXT_CB_PAYLOAD_RX p 0 = (PMDR_NOTHING_WE_SHOULD_DO, w, p)" "0 < tok_len (eb_out p)"
    using assms(2,3) by (simp_all add: lws_ext_cb_active_def passes_uncompressed_def client_spins_def)
  moreover have "\<not> rx_draining_ext ?w" by (simp add: lws_remove_wsi_from_draining_ext_list_def)
  moreover have "client_rx_utf8 PMDR_NOTHING_WE_SHOULD_DO ?w p = Done (False, ?w)"
    using r by (simp add: client_rx_utf8_def client_spins_def)
  ultimately have "client_rx_iter en act p draining w = Done (IterNext p False w')"
    using w'(1) by (simp add: client_rx_iter_def rx_mark_draining_def Let_def)
  then show ?thesis using w'(2) by blast
qed

lemma client_loop_spins:
  assumes "client_rx_loop en act p draining w = Some r"
  shows "quiet en \<longrightarrow> passes_uncompressed en \<longrightarrow> \<not> client_spins p w"
  using assms
proof (rule client_rx_loop.raw_induct [rotated])
  fix loop :: "'a env \<Rightarrow> lws_callback_reason \<Rightarrow> lws_ext_pm_deflate_rx_ebufs \<Rightarrow> bool \<Rightarrow> 'a wsi \<Rightarrow> (int \<times> 'a wsi) outcome option"
    and en act p draining w r
  assume IH: "\<And>en act p draining w r. loop en act p draining w = Some r \<Longrightarrow>
      quiet en \<longrightarrow> passes_uncompressed en \<longrightarrow> \<not> client_spins p w"
    and body: "(case client_rx_iter en act p draining w of Fault \<Rightarrow> Some Fault
      | Done (IterReturn r w') \<Rightarrow> Some (Done (r, w')) | Done (IterLeave w') \<Rightarrow> Some (Done (0, w'\<lparr>rx_ubuf_head := 0\<rparr>))
      | Done (IterNext p' draining' w') \<Rightarrow> if tok_len (eb_in p') \<noteq> 0 \<or> draining' then loop en act p' draining' w'
          else Some (Done (0, w'\<lparr>rx_ubuf_head := 0\<rparr>))) = Some r"
  show "quiet en \<longrightarrow> passes_uncompressed en \<longrightarrow> \<not> client_spins p w"
  proof (intro impI notI)
    assume q: "quiet en" "passes_uncompressed en" and s: "client_spins p w"
    obtain w' where w': "client_rx_iter en act p draining w = Done (IterNext p False w')" "client_spins p w'"
      using client_iter_spins [OF q s] by blast
    have "tok_len (eb_in p) \<noteq> 0" using s by (simp add: client_spins_def)
    then have "loop en act p False w' = Some r" using body w'(1) by simp
    then show False using IH q w'(2) by blast
  qed
qed

text \<open>C32. A client that has negotiated permessage-deflate does not return from a binary message the
  server sends uncompressed, although the user never asks to close: the payload the extension passes by
  is never taken off what is left, so it is delivered again for ever.\<close>

theorem client_rx_uncompressed_never_returns:
  assumes "quiet en" and "passes_uncompressed en" and "count_act_ext w = 1" and "rsv_first_msg w AND 0x40 = 0"
    and "\<not> check_utf8 w" and "wsi_state w = LRS_ESTABLISHED" and "opcode w = LWSWSOPC_BINARY_FRAME"
    and "0 < rx_ubuf_head w" and "rx_ubuf_head w < length (rx_ubuf w)"
  shows "client_rx_spill en w = None"
proof -
  have "client_spins (rx_ebufs w) w" using assms by (simp add: client_spins_def rx_ebufs_def Let_def)
  then have "client_rx_loop en LWS_CALLBACK_CLIENT_RECEIVE (rx_ebufs w) False w \<noteq> Some r" for r
    using client_loop_spins assms(1,2) by blast
  then have "client_rx_loop en LWS_CALLBACK_CLIENT_RECEIVE (rx_ebufs w) False w = None" by auto
  then show ?thesis using assms(7) by (simp add: client_rx_spill_def)
qed

theorem client_rx_uncompressed_never_returns_witness:
  "client_rx_spill ((quiet_env False 64 :: unit env)\<lparr>ext_callback := (\<lambda>n w r p l. (PMDR_NOTHING_WE_SHOULD_DO, w, p))\<rparr>)
     ((ws_established True 64 :: unit wsi)\<lparr>count_act_ext := 1, opcode := LWSWSOPC_BINARY_FRAME, rx_ubuf_head := 3\<rparr>) = None"
  by (rule client_rx_uncompressed_never_returns)
    (simp_all add: quiet_def quiet_env_def passes_uncompressed_def ws_established_def wsi_zalloc_def)

end
