(* ===== verification/Ws_Tx.thy ===== *)
theory Ws_Tx
  imports Ws_Core Ws_Wire
begin

text \<open>
  Sending: \<open>lws_issue_raw\<close> and \<open>lws_write\<close> of \<open>core-net/output.c\<close>, \<open>lws_issue_raw_ext_access\<close> of
  \<open>roles/ws/ext/extension.c\<close>, and the write operation of the websocket role with its mask generation in
  \<open>roles/ws/ops-ws.c\<close>.

  The bytes that have gone to the socket are the \<open>EvSend\<close> events; what the socket did not take is in
  \<open>buflist_out\<close>.  The two together are the output stream of the connection, and the lemmas show that
  every write that does not fail appends to it exactly the frame, in the reference encoding, whatever
  part of it the socket takes.
\<close>

section \<open>Write types\<close>

type_synonym wp = "32 word"

abbreviation (input) LWS_WRITE_TEXT :: wp where "LWS_WRITE_TEXT \<equiv> 0"
abbreviation (input) LWS_WRITE_BINARY :: wp where "LWS_WRITE_BINARY \<equiv> 1"
abbreviation (input) LWS_WRITE_CONTINUATION :: wp where "LWS_WRITE_CONTINUATION \<equiv> 2"
abbreviation (input) LWS_WRITE_HTTP :: wp where "LWS_WRITE_HTTP \<equiv> 3"
abbreviation (input) LWS_WRITE_CLOSE :: wp where "LWS_WRITE_CLOSE \<equiv> 4"
abbreviation (input) LWS_WRITE_PING :: wp where "LWS_WRITE_PING \<equiv> 5"
abbreviation (input) LWS_WRITE_PONG :: wp where "LWS_WRITE_PONG \<equiv> 6"
abbreviation (input) LWS_WRITE_HTTP_FINAL :: wp where "LWS_WRITE_HTTP_FINAL \<equiv> 7"
abbreviation (input) LWS_WRITE_HTTP_HEADERS :: wp where "LWS_WRITE_HTTP_HEADERS \<equiv> 8"
abbreviation (input) LWS_WRITE_HTTP_HEADERS_CONTINUATION :: wp where "LWS_WRITE_HTTP_HEADERS_CONTINUATION \<equiv> 9"
abbreviation (input) LWS_WRITE_NO_FIN :: wp where "LWS_WRITE_NO_FIN \<equiv> 0x40"

section \<open>Handing bytes to the socket\<close>

text \<open>How much one call offers to the socket.\<close>

definition issue_limit :: "'e env \<Rightarrow> nat" where
  "issue_limit en =
     (let n = (if tx_packet_size en \<noteq> 0 then c_uint (tx_packet_size en)
               else if c_uint (rx_buffer_size en) \<noteq> 0 then c_uint (rx_buffer_size en)
               else c_uint (pt_serv_buf_size en))
      in c_uint (n + LWS_PRE + 4))"

definition issue_size :: "'e env \<Rightarrow> nat \<Rightarrow> nat" where
  "issue_size en len = (if issue_limit en > len then c_uint len else issue_limit en)"

text \<open>After the socket took \<open>m\<close> bytes of the first buffered segment, whose length was \<open>real_len\<close>.\<close>

definition issue_from_buflist :: "'e env \<Rightarrow> 'e wsi \<Rightarrow> nat \<Rightarrow> nat \<Rightarrow> (int \<times> 'e wsi) outcome" where
  "issue_from_buflist en w real_len m =
     bind_outcome
       (if m = 0 then Done w
        else bind_outcome (lws_buflist_use_segment (buflist_out w) m) (\<lambda>(_, bl). Done (w\<lparr>buflist_out := bl\<rparr>)))
       (\<lambda>w.
         if lws_has_buffered_out w then Done (c_int m, log_event EvWritable w)
         else if wsi_state w = LRS_FLUSHING_BEFORE_CLOSE then Done (-1, w)
         else if close_when_buffered_out_drained w then Done (-1, w\<lparr>close_when_buffered_out_drained := False\<rparr>)
         else if deferred_transaction_completed w then
           (let (r, w) = http_transaction_completed en (w\<lparr>deferred_transaction_completed := False\<rparr>)
            in Done (if r \<noteq> 0 then -1 else c_int real_len, w))
         else Done (c_int real_len, log_event EvWritable (w\<lparr>inside_frame := False\<rparr>)))"

text \<open>What the socket did not take of a fresh buffer is kept.\<close>

definition issue_keep_rest :: "'e env \<Rightarrow> 'e wsi \<Rightarrow> bytes \<Rightarrow> nat \<Rightarrow> (int \<times> 'e wsi) outcome" where
  "issue_keep_rest en w buf m =
     bind_outcome (lws_buflist_append_segment (alloc en) (buflist_out w) (drop m buf)) (\<lambda>(r, bl).
       let w = w\<lparr>buflist_out := bl\<rparr> in
       if r < 0 then Done (-1, w)
       else Done (c_int (length buf),
         log_event EvWritable (w\<lparr>udp_sa46 := map_option (\<lambda>(sa46, pending). (sa46, sa46)) (udp_sa46 w)\<rparr>)))"

definition issue_send :: "'e env \<Rightarrow> 'e wsi \<Rightarrow> bytes \<Rightarrow> (int \<times> 'e wsi) outcome" where
  "issue_send en w buf =
     (let n = issue_size en (length buf);
          m = ssl_capable_write en (events w) (take n buf);
          w = (log_event (EvSend (take (nat m) (take n buf))) w)\<lparr>could_have_pending := True\<rparr>
      in if m = -1 then Done (-1, w\<lparr>socket_is_permanently_unusable := True\<rparr>)
         else let m = nat m in
           if m > n then Fault
           else if lws_has_buffered_out w then issue_from_buflist en w (length buf) m
           else if m = length buf then Done (c_int m, w)
           else issue_keep_rest en w buf m)"

text \<open>\<open>None\<close> is a null buffer of length 0.\<close>

definition lws_issue_raw :: "'e env \<Rightarrow> 'e wsi \<Rightarrow> bytes option \<Rightarrow> (int \<times> 'e wsi) outcome" where
  "lws_issue_raw en w buf =
     (if wsi_state w = LRS_FLUSHING_BEFORE_CLOSE \<and> \<not> lws_has_buffered_out w
      then Done (case buf of None \<Rightarrow> 0 | Some b \<Rightarrow> c_int (length b), w)
      else bind_outcome
        (case buf of
           Some b \<Rightarrow>
             if lws_has_buffered_out w then
               bind_outcome (lws_buflist_append_segment (alloc en) (buflist_out w) b) (\<lambda>(r, bl).
                 Done (r \<noteq> 0, None, w\<lparr>buflist_out := bl\<rparr>))
             else Done (False, Some b, w)
         | None \<Rightarrow> Done (False, None, w))
        (\<lambda>(failed, buf, w).
          if failed then Done (-1, w)
          else bind_outcome
            (if buflist_out w \<noteq> [] then
               bind_outcome (lws_buflist_next_segment_len (buflist_out w)) (\<lambda>(n, b, bl).
                 Done (map_option (take n) b, w\<lparr>buflist_out := bl\<rparr>))
             else Done (buf, w))
            (\<lambda>(buf, w).
              case buf of None \<Rightarrow> Done (0, w)
              | Some b \<Rightarrow> if b = [] then Done (0, w) else issue_send en w b)))"

section \<open>Showing the output to the extensions\<close>

text \<open>\<open>LWS_EXT_CB_PACKET_TX_PRESEND\<close> is called with a single \<open>struct lws_tokens\<close>, which is the \<open>eb_in\<close> here.\<close>

definition is_user :: "token \<Rightarrow> bool" where
  "is_user t = (case t of TUser b \<Rightarrow> True | _ \<Rightarrow> False)"

text \<open>Two pointers that are certainly the same; a buffer of an extension counts as new (\<open>clean_buffer\<close> is already
  0 when one is passed on).\<close>

definition same_buf :: "token \<Rightarrow> token \<Rightarrow> bool" where
  "same_buf s t \<longleftrightarrow> is_user s \<and> is_user t \<or> s = TNull \<and> t = TNull"

definition ext_access_issue ::
  "'e env \<Rightarrow> 'e wsi \<Rightarrow> token \<Rightarrow> lws_tokens \<Rightarrow> int \<Rightarrow> (bool \<times> int \<times> 'e wsi) outcome" where
  "ext_access_issue en w buf ebuf len =
     (let w = (if same_buf buf (tok ebuf) then w else w\<lparr>clean_buffer := False\<rparr>) in
      if tok_len ebuf = 0 then Done (True, len, w)
      else bind_outcome (token_load w ebuf) (\<lambda>data.
        bind_outcome (lws_issue_raw en w (Some data)) (\<lambda>(n, w).
          if n < 0 then Done (False, len, w)
          else Done (True, if clean_buffer w then n else len, w))))"

partial_function (option) ext_access_loop ::
  "'e env \<Rightarrow> token \<Rightarrow> 'e wsi \<Rightarrow> lws_tokens \<Rightarrow> int \<Rightarrow> (int \<times> 'e wsi) outcome option" where
  "ext_access_loop en buf w ebuf len =
     (case lws_ext_cb_active en w LWS_EXT_CB_PACKET_TX_PRESEND \<lparr>eb_in = ebuf, eb_out = tokens_null\<rparr> 0 of
        (m, w, arg) \<Rightarrow>
          if m < 0 then Some (Done (-1, w))
          else case ext_access_issue en w buf (eb_in arg) len of
            Fault \<Rightarrow> Some Fault
          | Done (ok, len, w) \<Rightarrow>
              if \<not> ok then Some (Done (-1, w))
              else if m = 0 then Some (Done (len, w))
              else if \<not> send_pipe_choked en (events w) \<and> \<not> lws_has_buffered_out w
              then ext_access_loop en buf w tokens_null len
              else Some (Done (len, (log_event EvWritable w)\<lparr>extension_data_pending := True\<rparr>)))"

definition lws_issue_raw_ext_access :: "'e env \<Rightarrow> 'e wsi \<Rightarrow> token \<Rightarrow> nat \<Rightarrow> (int \<times> 'e wsi) outcome option" where
  "lws_issue_raw_ext_access en w buf len = ext_access_loop en buf w \<lparr>tok = buf, tok_len = c_int len\<rparr> (c_int len)"

section \<open>The write operation of the websocket role\<close>

text \<open>The buffer given to \<open>lws_write\<close>: the bytes before the pointer, which the caller must provide, and the
  payload.  Both are overwritten in place.\<close>

record txbuf =
  tb_front :: bytes
  tb_body :: bytes

definition lws_0405_frame_mask_generate :: "'e env \<Rightarrow> 'e wsi \<Rightarrow> bool \<times> 'e wsi" where
  "lws_0405_frame_mask_generate en w =
     (let r = get_random en (events w) 4;
          w = w\<lparr>mask := take 4 (r @ drop (length r) (mask w))\<rparr>
      in if length r \<noteq> 4 then (True, w) else (False, w\<lparr>mask_idx := 0\<rparr>))"

text \<open>Taking up an extension's unfinished output: the write type becomes a continuation.\<close>

definition tx_resume_draining :: "'e wsi \<Rightarrow> nat \<Rightarrow> wp \<Rightarrow> wp \<times> 'e wsi" where
  "tx_resume_draining w len wp =
     (if \<not> tx_draining_ext w then (wp, w)
      else
        let w = w\<lparr>tx_draining_ext := False,
                  pt_tx_draining_ext_list := remove1 (wsi_id w) (pt_tx_draining_ext_list w)\<rparr>;
            wp' = (ucast (tx_draining_stashed_wp w) AND 0xc0) OR LWS_WRITE_CONTINUATION
        in (if wp AND LWS_WRITE_NO_FIN = 0 \<and> len \<noteq> 0 then wp' AND NOT LWS_WRITE_NO_FIN else wp', w))"

definition is_http_write :: "wp \<Rightarrow> bool" where
  "is_http_write wp \<longleftrightarrow> wp AND 0x1f = LWS_WRITE_HTTP \<or> wp AND 0x1f = LWS_WRITE_HTTP_FINAL \<or>
     wp AND 0x1f = LWS_WRITE_HTTP_HEADERS_CONTINUATION \<or> wp AND 0x1f = LWS_WRITE_HTTP_HEADERS"

text \<open>The extensions' chance to change the payload: a result to return at once, or the write type and the
  buffer to go on with.\<close>

definition tx_extend ::
  "'e env \<Rightarrow> 'e wsi \<Rightarrow> lws_tokens \<Rightarrow> wp \<Rightarrow> (int \<times> 'e wsi) + (wp \<times> lws_tokens \<times> 'e wsi)" where
  "tx_extend en w t wp =
     (if wp = LWS_WRITE_PING \<or> wp = LWS_WRITE_PONG \<or> wp = LWS_WRITE_CLOSE then Inr (wp, t, w)
      else case lws_ext_cb_active en w LWS_EXT_CB_PAYLOAD_TX \<lparr>eb_in = t, eb_out = t\<rparr> (unat wp) of
        (n, w, p) \<Rightarrow>
          if n < 0 then Inl (-1, w)
          else
            let (wp, w) =
                  (if n = PMDR_HAS_PENDING then
                     (wp OR LWS_WRITE_NO_FIN,
                      (log_event EvWritable (w\<lparr>tx_draining_ext := True,
                         pt_tx_draining_ext_list := wsi_id w # pt_tx_draining_ext_list w\<rparr>))
                        \<lparr>tx_draining_stashed_wp := ucast wp\<rparr>)
                   else (wp, w));
                (wp, w) =
                  (if tok_len (eb_out p) \<noteq> 0 \<and> stashed_write_pending w then
                     ((wp AND 0xc0) OR ucast (stashed_write_type w), w\<lparr>stashed_write_pending := False\<rparr>)
                   else (wp, w))
            in Inr (wp, eb_out p, w))"

text \<open>When an extension made the output: nothing to send yet, or a buffer that must be kept until sent.\<close>

definition tx_recreated ::
  "token \<Rightarrow> nat \<Rightarrow> (wp \<times> lws_tokens \<times> 'e wsi) \<Rightarrow> (int \<times> 'e wsi) + (wp \<times> lws_tokens \<times> 'e wsi)" where
  "tx_recreated buf len r =
     (case r of (wp, out, w) \<Rightarrow>
       if same_buf buf (tok out) then Inr (wp, out, w)
       else if len \<noteq> 0 \<and> tok_len out = 0 then
         let w = (if stashed_write_pending w then w else w\<lparr>stashed_write_type := ucast wp AND 0x3f\<rparr>)
         in Inl (c_int len, w\<lparr>stashed_write_pending := True\<rparr>)
       else Inr (wp, out, w\<lparr>clean_buffer := False\<rparr>))"

definition tx_opcode :: "wp \<Rightarrow> u8 option" where
  "tx_opcode wp =
     (let n = wp AND 0xf in
      if n = LWS_WRITE_TEXT then Some LWSWSOPC_TEXT_FRAME
      else if n = LWS_WRITE_BINARY then Some LWSWSOPC_BINARY_FRAME
      else if n = LWS_WRITE_CONTINUATION then Some LWSWSOPC_CONTINUATION
      else if n = LWS_WRITE_CLOSE then Some LWSWSOPC_CLOSE
      else if n = LWS_WRITE_PING then Some LWSWSOPC_PING
      else if n = LWS_WRITE_PONG then Some LWSWSOPC_PONG
      else None)"

definition tx_header :: "u8 \<Rightarrow> bool \<Rightarrow> nat \<Rightarrow> bytes" where
  "tx_header n masked len =
     (let bit = (if masked then 0x80 else 0) in
      if len < 126 then [n, of_nat len OR bit]
      else if len < 65536 then [n, 126 OR bit, of_nat (len div 2 ^ 8), of_nat len]
      else [n, 127 OR bit, of_nat (len div 2 ^ 56) AND 0x7f, of_nat (len div 2 ^ 48), of_nat (len div 2 ^ 40),
            of_nat (len div 2 ^ 32), of_nat (len div 2 ^ 24), of_nat (len div 2 ^ 16), of_nat (len div 2 ^ 8),
            of_nat len])"

text \<open>The loop over the payload with the running mask index.\<close>

fun tx_mask_loop :: "bytes \<Rightarrow> u8 \<Rightarrow> bytes \<Rightarrow> bytes \<times> u8" where
  "tx_mask_loop key idx [] = ([], idx)"
| "tx_mask_loop key idx (c # cs) =
     (let (out, idx') = tx_mask_loop key (idx + 1) cs in ((c XOR key ! unat (idx AND 3)) # out, idx'))"

text \<open>Masking the payload and putting the key before it, for the client.\<close>

definition tx_mask :: "'e env \<Rightarrow> 'e wsi \<Rightarrow> bool \<Rightarrow> bytes \<Rightarrow> (bool \<times> bytes \<times> bytes \<times> 'e wsi)" where
  "tx_mask en w dropmask payload =
     (if \<not> role_client w then (False, [], payload, w)
      else
        let (failed, w) = (if inside_frame w then (False, w) else lws_0405_frame_mask_generate en w) in
        if failed then (True, [], payload, w)
        else if dropmask then
          let (payload, idx) = tx_mask_loop (mask w) (mask_idx w) payload
          in (False, mask w, payload, w\<lparr>mask_idx := idx\<rparr>)
        else (False, [], payload, w))"

text \<open>From the finished buffer to the socket: \<open>pre\<close> is the header with the key, \<open>buf\<close> the kind of pointer.\<close>

definition retok :: "token \<Rightarrow> bytes \<Rightarrow> token" where
  "retok buf b = (case buf of TNull \<Rightarrow> TNull | TUser _ \<Rightarrow> TUser b | _ \<Rightarrow> TExt b)"

definition tx_issue ::
  "'e env \<Rightarrow> 'e wsi \<Rightarrow> wp \<Rightarrow> token \<Rightarrow> bytes \<Rightarrow> bytes \<Rightarrow> nat \<Rightarrow> (int \<times> 'e wsi) outcome option" where
  "tx_issue en w wp buf pre payload orig_len =
     (if h2_encapsulation w then Some (Done (encap_write en w (pre @ payload) wp))
      else if (wp AND 0x1f = LWS_WRITE_TEXT \<or> wp AND 0x1f = LWS_WRITE_BINARY \<or>
               wp AND 0x1f = LWS_WRITE_CONTINUATION) \<and> \<not> h2_stream_carries_ws w then
        (case lws_issue_raw_ext_access en w (retok buf (pre @ payload)) (length pre + length payload) of
           None \<Rightarrow> None
         | Some Fault \<Rightarrow> Some Fault
         | Some (Done (n, w)) \<Rightarrow>
             let w = w\<lparr>inside_frame := True\<rparr> in
             if n \<le> 0 then Some (Done (n, w))
             else if n = c_int (length payload) + int (length pre)
             then Some (Done (c_int orig_len, w\<lparr>inside_frame := False\<rparr>))
             else Some (Done (n - int (length pre), w)))
      else Some (lws_issue_raw en w (if buf = TNull then None else Some (pre @ payload))))"

definition with_buf :: "txbuf \<Rightarrow> (int \<times> 'e wsi) outcome option \<Rightarrow> (int \<times> txbuf \<times> 'e wsi) outcome option" where
  "with_buf ub r = map_option (\<lambda>r. bind_outcome r (\<lambda>(n, w). Done (n, ub, w))) r"

text \<open>Header, key and masked payload in place before and in the buffer.\<close>

definition tx_frame ::
  "'e env \<Rightarrow> 'e wsi \<Rightarrow> txbuf \<Rightarrow> wp \<Rightarrow> token \<Rightarrow> bytes \<Rightarrow> nat \<Rightarrow> (int \<times> txbuf \<times> 'e wsi) outcome option" where
  "tx_frame en w ub wp buf payload orig_len =
     (if ietf_spec_revision w \<noteq> 13 then
        (case tx_mask en w False payload of (failed, key, payload, w) \<Rightarrow>
           if failed then Some (Done (-1, ub, w)) else with_buf ub (tx_issue en w wp buf [] payload orig_len))
      else case tx_opcode wp of None \<Rightarrow> Some (Done (-1, ub, w))
      | Some op \<Rightarrow>
          let n = op OR (if wp AND LWS_WRITE_NO_FIN = 0 then 0x80 else 0);
              hdr = tx_header n (role_client w) (length payload);
              pre = length hdr + (if role_client w then 4 else 0);
              room = (if is_user buf then length (tb_front ub) else LWS_PRE)
          in if room < pre then Some Fault
          else case tx_mask en w True payload of (failed, key, payload', w) \<Rightarrow>
            let ub = (if is_user buf then \<lparr>tb_front = take (room - pre) (tb_front ub) @ hdr @
                                      (if failed then drop (room - 4) (tb_front ub) else key),
                                    tb_body = payload' @ drop (length payload) (tb_body ub)\<rparr> else ub)
            in if failed then Some (Done (-1, ub, w))
               else with_buf ub (tx_issue en w wp buf (hdr @ key) payload' orig_len))"

text \<open>The buffer argument is \<open>buf\<close>: NULL with length 0, or the body of \<open>ub\<close>.\<close>

definition rops_write_role_protocol_ws ::
  "'e env \<Rightarrow> 'e wsi \<Rightarrow> txbuf \<Rightarrow> token \<Rightarrow> wp \<Rightarrow> (int \<times> txbuf \<times> 'e wsi) outcome option" where
  "rops_write_role_protocol_ws en w ub buf wp =
     (let body = tb_body ub; len = length body; (wp, w) = tx_resume_draining w len wp in
      if is_http_write wp then with_buf ub (Some (lws_issue_raw en w (if buf = TNull then None else Some body)))
      else if inside_frame w then
        (case tx_mask en w False body of (_, _, payload, w) \<Rightarrow>
           with_buf ub (tx_issue en w wp buf [] payload len))
      else
        case tx_extend en (w\<lparr>clean_buffer := True\<rparr>) \<lparr>tok = buf, tok_len = c_int len\<rparr> wp of
          Inl (r, w) \<Rightarrow> Some (Done (r, ub, w))
        | Inr x \<Rightarrow>
            (case tx_recreated buf len x of
               Inl (r, w) \<Rightarrow> Some (Done (r, ub, w))
             | Inr (wp, out, w) \<Rightarrow>
                 if tok out = TNull then Some (Done (-1, ub, w))
                 else case token_load w (out\<lparr>tok_len := tok_len out mod 2 ^ 32\<rparr>) of
                   Fault \<Rightarrow> Some Fault
                 | Done payload \<Rightarrow> tx_frame en w ub wp (tok out) payload len))"

definition lws_write :: "'e env \<Rightarrow> 'e wsi \<Rightarrow> txbuf \<Rightarrow> wp \<Rightarrow> (int \<times> txbuf \<times> 'e wsi) outcome option" where
  "lws_write en w ub wp =
     (if c_int (length (tb_body ub)) < 0 then Some (Done (-1, ub, w))
      else rops_write_role_protocol_ws en w ub (TUser (tb_body ub)) wp)"

text \<open>\<open>lws_write(wsi, NULL, 0, wp)\<close>: let the extensions go on with their output.\<close>

definition lws_write_null :: "'e env \<Rightarrow> 'e wsi \<Rightarrow> wp \<Rightarrow> (int \<times> 'e wsi) outcome option" where
  "lws_write_null en w wp =
     map_option (\<lambda>r. bind_outcome r (\<lambda>(n, _, w). Done (n, w)))
       (rops_write_role_protocol_ws en w \<lparr>tb_front = [], tb_body = []\<rparr> TNull wp)"

section \<open>The output stream\<close>

definition sent_bytes :: "event list \<Rightarrow> bytes" where
  "sent_bytes es = concat (map (\<lambda>e. case e of EvSend b \<Rightarrow> b | _ \<Rightarrow> []) es)"

lemma sent_bytes_append [simp]: "sent_bytes (es @ fs) = sent_bytes es @ sent_bytes fs"
  by (simp add: sent_bytes_def)

text \<open>What has gone to the socket followed by what is waiting for it.\<close>

definition out_stream :: "'e wsi \<Rightarrow> bytes" where
  "out_stream w = sent_bytes (events w) @ buflist_bytes (buflist_out w)"

text \<open>The socket never takes more than it is offered.\<close>

definition socket_ok :: "'e env \<Rightarrow> bool" where
  "socket_ok en \<longleftrightarrow> (\<forall>es b. ssl_capable_write en es b \<le> int (length b))"

lemma out_stream_simps [simp]:
  "out_stream (log_event e w) = sent_bytes (events w @ [e]) @ buflist_bytes (buflist_out w)"
  "out_stream (w\<lparr>could_have_pending := a1\<rparr>) = out_stream w" "out_stream (w\<lparr>inside_frame := a2\<rparr>) = out_stream w"
  "out_stream (w\<lparr>socket_is_permanently_unusable := a3\<rparr>) = out_stream w"
  "out_stream (w\<lparr>close_when_buffered_out_drained := a4\<rparr>) = out_stream w"
  "out_stream (w\<lparr>udp_sa46 := a5\<rparr>) = out_stream w" "out_stream (w\<lparr>clean_buffer := a6\<rparr>) = out_stream w"
  "out_stream (w\<lparr>mask := a7\<rparr>) = out_stream w" "out_stream (w\<lparr>mask_idx := a8\<rparr>) = out_stream w"
  by (simp_all add: out_stream_def log_event_def)

lemma sent_bytes_simps [simp]:
  "sent_bytes (EvSend b # es) = b @ sent_bytes es" "sent_bytes (EvWritable # es) = sent_bytes es" "sent_bytes [] = []"
  by (simp_all add: sent_bytes_def)

text \<open>A socket that is not broken, and memory to keep what it does not take.\<close>

definition healthy :: "'e env \<Rightarrow> bool" where
  "healthy en \<longleftrightarrow> (\<forall>es b. ssl_capable_write en es b \<noteq> -1) \<and> (\<forall>n. alloc en n)"

text \<open>What a call of the output layer leaves alone: everything else, and all that is logged but the sends and
  the requests to be called when writable.\<close>

definition output_event :: "event \<Rightarrow> bool" where
  "output_event e = (case e of EvWritable \<Rightarrow> True | EvSend b \<Rightarrow> True | _ \<Rightarrow> False)"

definition other_events :: "event list \<Rightarrow> event list" where
  "other_events es = filter (\<lambda>e. \<not> output_event e) es"

lemma other_events_simps [simp]:
  "other_events [] = []" "other_events (es @ fs) = other_events es @ other_events fs"
  "other_events (EvWritable # es) = other_events es" "other_events (EvSend b # es) = other_events es"
  "other_events (EvCallback r d # es) = EvCallback r d # other_events es"
  "other_events (EvTimeout t n # es) = EvTimeout t n # other_events es"
  by (simp_all add: other_events_def output_event_def)

definition tx_frame_of :: "'e wsi \<Rightarrow> 'e wsi" where
  "tx_frame_of w = w\<lparr>events := other_events (events w), buflist_out := [], could_have_pending := False, inside_frame := False,
     socket_is_permanently_unusable := False, close_when_buffered_out_drained := False, udp_sa46 := None\<rparr>"

lemma tx_frame_of_simps [simp]:
  "tx_frame_of (log_event EvWritable w) = tx_frame_of w" "tx_frame_of (log_event (EvSend b) w) = tx_frame_of w"
  "other_events es = other_events (events w) \<Longrightarrow> tx_frame_of (w\<lparr>events := es\<rparr>) = tx_frame_of w"
  "tx_frame_of (w\<lparr>could_have_pending := a1\<rparr>) = tx_frame_of w"
  "tx_frame_of (w\<lparr>inside_frame := a2\<rparr>) = tx_frame_of w" "tx_frame_of (w\<lparr>buflist_out := a3\<rparr>) = tx_frame_of w"
  "tx_frame_of (w\<lparr>socket_is_permanently_unusable := a4\<rparr>) = tx_frame_of w"
  "tx_frame_of (w\<lparr>close_when_buffered_out_drained := a5\<rparr>) = tx_frame_of w"
  "tx_frame_of (w\<lparr>udp_sa46 := a6\<rparr>) = tx_frame_of w"
  by (simp_all add: tx_frame_of_def log_event_def)

lemma tx_frame_fields:
  assumes "tx_frame_of w' = tx_frame_of w"
  shows "clean_buffer w' = clean_buffer w" "wsi_state w' = wsi_state w" "nwsi_buffered_out w' = nwsi_buffered_out w"
    "tx_draining_ext w' = tx_draining_ext w" "deferred_transaction_completed w' = deferred_transaction_completed w"
    "stashed_write_pending w' = stashed_write_pending w" "ietf_spec_revision w' = ietf_spec_revision w"
    "count_act_ext w' = count_act_ext w" "h2_encapsulation w' = h2_encapsulation w"
    "h2_stream_carries_ws w' = h2_stream_carries_ws w" "mask w' = mask w" "role_client w' = role_client w"
  using arg_cong [OF assms, of clean_buffer] arg_cong [OF assms, of wsi_state]
    arg_cong [OF assms, of nwsi_buffered_out] arg_cong [OF assms, of tx_draining_ext]
    arg_cong [OF assms, of deferred_transaction_completed] arg_cong [OF assms, of stashed_write_pending]
    arg_cong [OF assms, of ietf_spec_revision] arg_cong [OF assms, of count_act_ext]
    arg_cong [OF assms, of h2_encapsulation] arg_cong [OF assms, of h2_stream_carries_ws]
    arg_cong [OF assms, of mask] arg_cong [OF assms, of role_client]
  by (simp_all add: tx_frame_of_def)

text \<open>The socket takes what it takes of \<open>buf\<close>; nothing is buffered ahead of it.\<close>

lemma issue_send_fresh:
  assumes "socket_ok en" and "buflist_ok (buflist_out w)" and "\<not> lws_has_buffered_out w" and "buf \<noteq> []"
  shows "\<exists>r w' k. issue_send en w buf = Done (r, w') \<and> buflist_ok (buflist_out w') \<and> tx_frame_of w' = tx_frame_of w \<and>
    inside_frame w' = inside_frame w \<and>
    out_stream w' = out_stream w @ take k buf \<and> (r = c_int (length buf) \<and> k = length buf \<or> r = -1 \<and> \<not> healthy en)"
proof -
  define n where "n = issue_size en (length buf)"
  define m where "m = ssl_capable_write en (events w) (take n buf)"
  let ?w = "(log_event (EvSend (take (nat m) (take n buf))) w)\<lparr>could_have_pending := True\<rparr>"
  have nb: "buflist_out w = []" "\<not> lws_has_buffered_out ?w"
    using assms(3) by (auto simp: lws_has_buffered_out_def log_event_def)
  have "m \<le> int (length (take n buf))" using assms(1) unfolding socket_ok_def m_def by blast
  then have mn: "nat m \<le> n" "nat m \<le> length buf" by auto
  have st: "out_stream ?w = out_stream w @ take (nat m) buf" using nb(1) mn
    by (simp add: out_stream_def log_event_def min_absorb1)
  have send: "issue_send en w buf =
      (if m = -1 then Done (-1, ?w\<lparr>socket_is_permanently_unusable := True\<rparr>)
       else if nat m = length buf then Done (c_int (nat m), ?w) else issue_keep_rest en ?w buf (nat m))"
    using mn nb(2) unfolding issue_send_def Let_def n_def [symmetric] m_def [symmetric] by simp
  show ?thesis
  proof (cases "m = -1 \<or> nat m = length buf")
    case True
    moreover have "m = -1 \<Longrightarrow> \<not> healthy en" by (auto simp: healthy_def m_def)
    ultimately show ?thesis using nb st assms(2) unfolding send
      by (auto simp: log_event_def intro!: exI [of _ "nat m"])
  next
    case False
    then have ne: "drop (nat m) buf \<noteq> []" using mn by auto
    then obtain r bl where a: "lws_buflist_append_segment (alloc en) [] (drop (nat m) buf) = Done (r, bl)"
      using append_segment_never_faults [OF ne, of "alloc en" "[]"]
      by (cases "lws_buflist_append_segment (alloc en) [] (drop (nat m) buf)") auto
    note ok = append_segment_ok [OF buflist_ok_Nil ne a]
    show ?thesis
    proof (cases "r = -1")
      case True
      then have "\<not> healthy en" using a by (auto simp: healthy_def lws_buflist_append_segment_def split: if_splits)
      then show ?thesis using True False nb st a ok unfolding send
        by (intro exI [of _ "-1"]) (auto simp: issue_keep_rest_def log_event_def out_stream_def)
    next
      case r: False
      then show ?thesis using False nb st a ok unfolding send
        by (auto simp: issue_keep_rest_def log_event_def out_stream_def intro!: exI [of _ "length buf"])
    qed
  qed
qed

text \<open>Sending from the first buffered segment moves bytes from the buffer to the socket.\<close>

lemma issue_use_segment:
  assumes "buflist_ok (b # r)" and "m \<le> length (seg_rest b)" and "buflist_out w = b # r"
  shows "\<exists>bl. (if m = 0 then Done w
      else bind_outcome (lws_buflist_use_segment (buflist_out w) m) (\<lambda>(_, bl). Done (w\<lparr>buflist_out := bl\<rparr>))) =
      Done (w\<lparr>buflist_out := bl\<rparr>) \<and> buflist_ok bl \<and> buflist_bytes bl = drop m (buflist_bytes (b # r))"
proof (cases "m = 0")
  case True
  then show ?thesis using assms(1,3) by (intro exI [of _ "b # r"]) simp
next
  case False
  then obtain k bl where "lws_buflist_use_segment (b # r) m = Done (k, bl)" "buflist_ok bl"
    "buflist_bytes bl = drop m (buflist_bytes (b # r))"
    using use_segment_ok [OF assms(1) _ assms(2)] by blast
  then show ?thesis using False assms(3) by auto
qed

lemma issue_from_buflist_stream:
  assumes "buflist_ok (b # r)" and "m \<le> length (seg_rest b)" and "buflist_out w = b # r"
    and "\<not> nwsi_buffered_out w" and "\<not> deferred_transaction_completed w"
  shows "\<exists>n w'. issue_from_buflist en w real_len m = Done (n, w') \<and> buflist_ok (buflist_out w') \<and>
    tx_frame_of w' = tx_frame_of w \<and> buflist_bytes (buflist_out w') = drop m (buflist_bytes (b # r)) \<and>
    sent_bytes (events w') = sent_bytes (events w) \<and> (n = -1 \<or> n = c_int m \<or> buflist_out w' = []) \<and>
    (inside_frame w' \<longrightarrow> inside_frame w)"
proof -
  obtain bl where bl: "(if m = 0 then Done w
      else bind_outcome (lws_buflist_use_segment (buflist_out w) m) (\<lambda>(_, bl). Done (w\<lparr>buflist_out := bl\<rparr>))) =
      Done (w\<lparr>buflist_out := bl\<rparr>)" "buflist_ok bl" "buflist_bytes bl = drop m (buflist_bytes (b # r))"
    using issue_use_segment [OF assms(1-3)] by blast
  show ?thesis using bl(2,3) assms(4,5) unfolding issue_from_buflist_def bl(1)
    by (auto simp: lws_has_buffered_out_def log_event_def)
qed

lemma issue_send_buffered:
  assumes "socket_ok en" and "buflist_ok (b # r)" and "buflist_out w = b # r"
    and "\<not> nwsi_buffered_out w" and "\<not> deferred_transaction_completed w"
  shows "\<exists>n w' m. issue_send en w (seg_rest b) = Done (n, w') \<and> buflist_ok (buflist_out w') \<and>
    tx_frame_of w' = tx_frame_of w \<and> out_stream w' = out_stream w \<and>
    sent_bytes (events w') = sent_bytes (events w) @ take m (seg_rest b) \<and>
    m = nat (ssl_capable_write en (events w) (take (issue_size en (length (seg_rest b))) (seg_rest b))) \<and>
    (n = -1 \<or> n = c_int m \<or> buflist_out w' = []) \<and> (inside_frame w' \<longrightarrow> inside_frame w)"
proof -
  let ?buf = "seg_rest b"
  define n where "n = issue_size en (length ?buf)"
  define m where "m = ssl_capable_write en (events w) (take n ?buf)"
  let ?w = "(log_event (EvSend (take (nat m) (take n ?buf))) w)\<lparr>could_have_pending := True\<rparr>"
  have "m \<le> int (length (take n ?buf))" using assms(1) unfolding socket_ok_def m_def by blast
  then have mn: "nat m \<le> n" "nat m \<le> length ?buf" by auto
  have w: "buflist_out ?w = b # r" "\<not> nwsi_buffered_out ?w" "\<not> deferred_transaction_completed ?w"
    "sent_bytes (events ?w) = sent_bytes (events w) @ take (nat m) ?buf" "inside_frame ?w = inside_frame w"
    using assms(3-5) mn(1) by (simp_all add: log_event_def min_absorb1)
  have send: "issue_send en w ?buf = (if m = -1 then Done (-1, ?w\<lparr>socket_is_permanently_unusable := True\<rparr>)
       else issue_from_buflist en ?w (length ?buf) (nat m))"
    using mn w(1) unfolding issue_send_def Let_def n_def [symmetric] m_def [symmetric]
    by (simp add: lws_has_buffered_out_def)
  show ?thesis
  proof (cases "m = -1")
    case True
    then show ?thesis using assms(2,3) w by (auto simp: send out_stream_def m_def n_def)
  next
    case False
    obtain k w' where k: "issue_from_buflist en ?w (length ?buf) (nat m) = Done (k, w')" "buflist_ok (buflist_out w')"
      "tx_frame_of w' = tx_frame_of ?w" "buflist_bytes (buflist_out w') = drop (nat m) (buflist_bytes (b # r))"
      "sent_bytes (events w') = sent_bytes (events ?w)" "k = -1 \<or> k = c_int (nat m) \<or> buflist_out w' = []"
      "inside_frame w' \<longrightarrow> inside_frame ?w"
      using issue_from_buflist_stream [OF assms(2) mn(2) w(1-3)] by blast
    have "out_stream w' = out_stream w" using k(4,5) w(4) assms(3) mn(2) by (simp add: out_stream_def)
    then show ?thesis using False k w(4,5) by (auto simp: send m_def n_def)
  qed
qed

text \<open>Unless the connection is only flushing and has nothing left to flush, nothing is lost, repeated or reordered on the way to the socket.\<close>

lemma issue_raw_stream_while_flushing:
  assumes "socket_ok en" and "buflist_ok (buflist_out w)" and "\<not> nwsi_buffered_out w" and "buf \<noteq> []"
    and "\<not> deferred_transaction_completed w" and "wsi_state w = LRS_FLUSHING_BEFORE_CLOSE \<longrightarrow> buflist_out w \<noteq> []"
  shows "\<exists>n w' k. lws_issue_raw en w (Some buf) = Done (n, w') \<and> buflist_ok (buflist_out w') \<and>
    tx_frame_of w' = tx_frame_of w \<and> out_stream w' = out_stream w @ take k buf \<and> (n = -1 \<or> k = length buf) \<and>
    (buflist_out w = [] \<longrightarrow> inside_frame w' = inside_frame w \<and>
       (n = -1 \<and> \<not> healthy en \<or> n = c_int (length buf) \<and> k = length buf))"
proof (cases "buflist_out w")
  case Nil
  then have nb: "\<not> lws_has_buffered_out w" using assms(3) by (simp add: lws_has_buffered_out_def)
  then have "lws_issue_raw en w (Some buf) = issue_send en w buf"
    using Nil assms(4,6) by (simp add: lws_issue_raw_def)
  then show ?thesis using issue_send_fresh [OF assms(1,2) nb assms(4)] by auto
next
  case (Cons b r)
  have hb: "lws_has_buffered_out w" using Cons by (simp add: lws_has_buffered_out_def)
  obtain c bl where a: "lws_buflist_append_segment (alloc en) (buflist_out w) buf = Done (c, bl)"
    using append_segment_never_faults [OF assms(4), of "alloc en" "buflist_out w"]
    by (cases "lws_buflist_append_segment (alloc en) (buflist_out w) buf") auto
  note ok = append_segment_ok [OF assms(2,4) a]
  show ?thesis
  proof (cases "c = -1")
    case True
    then show ?thesis using a ok hb Cons assms(2,6)
      by (intro exI [of _ "-1"] exI [of _ w] exI [of _ 0]) (simp add: lws_issue_raw_def)
  next
    case False
    let ?w = "w\<lparr>buflist_out := bl\<rparr>"
    have bl: "buflist_ok bl" "c = 0" "buflist_bytes bl = buflist_bytes (b # r) @ buf" using ok False Cons by auto
    then obtain b' r' where bl': "bl = b' # r'" by (cases bl) (auto simp: assms(4))
    have sr: "take (length (seg_rest b')) (seg_rest b') = seg_rest b'" "seg_rest b' \<noteq> []"
      using bl(1) bl' by (auto dest: buflist_ok_hd seg_rest_nonempty)
    have "lws_issue_raw en w (Some buf) = issue_send en ?w (seg_rest b')"
      using a bl(2) hb assms(6) sr next_segment_len_ok [OF bl(1)] bl' by (simp add: lws_issue_raw_def)
    moreover have "out_stream ?w = out_stream w @ buf" using bl(3) Cons by (simp add: out_stream_def)
    ultimately show ?thesis
      using issue_send_buffered [OF assms(1), of b' r' ?w] bl(1) bl' assms(3,5) Cons
      by (auto intro!: exI [of _ "length buf"])
  qed
qed

lemma issue_raw_stream:
  assumes "socket_ok en" and "buflist_ok (buflist_out w)" and "\<not> nwsi_buffered_out w" and "buf \<noteq> []"
    and "\<not> deferred_transaction_completed w" and "wsi_state w \<noteq> LRS_FLUSHING_BEFORE_CLOSE"
  shows "\<exists>n w' k. lws_issue_raw en w (Some buf) = Done (n, w') \<and> buflist_ok (buflist_out w') \<and>
    tx_frame_of w' = tx_frame_of w \<and> out_stream w' = out_stream w @ take k buf \<and> (n = -1 \<or> k = length buf) \<and>
    (buflist_out w = [] \<longrightarrow> inside_frame w' = inside_frame w \<and>
       (n = -1 \<and> \<not> healthy en \<or> n = c_int (length buf) \<and> k = length buf))"
  using issue_raw_stream_while_flushing [OF assms(1-5)] assms(6) by blast

text \<open>With output already pending, the result is what the socket took of the oldest segment.\<close>

lemma issue_raw_pending:
  assumes "socket_ok en" and "healthy en" and "buflist_ok (buflist_out w)" and "\<not> nwsi_buffered_out w" and "buf \<noteq> []"
    and "wsi_state w \<noteq> LRS_FLUSHING_BEFORE_CLOSE" and "buflist_out w = b # r" and "Suc (length r) < 1024"
  shows "\<exists>m w'. lws_issue_raw en w (Some buf) = Done (c_int m, w') \<and> buflist_ok (buflist_out w') \<and>
    tx_frame_of w' = tx_frame_of w \<and> out_stream w' = out_stream w @ buf \<and> inside_frame w' = inside_frame w \<and>
    m \<le> length (seg_rest b) \<and> int m = max 0 (ssl_capable_write en (events w) (take (issue_size en (length (seg_rest b))) (seg_rest b))) \<and>
    buflist_out w' \<noteq> []"
proof -
  define bl where "bl = buflist_out w @ [\<lparr>seg_len = length buf, seg_pos = 0, seg_data = buf\<rparr>]"
  have a: "lws_buflist_append_segment (alloc en) (buflist_out w) buf = Done (0, bl)"
    using assms(2,5,7,8) by (simp add: lws_buflist_append_segment_def buflist_reach_tail_iff healthy_def bl_def)
  have bl: "buflist_ok bl" "buflist_bytes bl = buflist_bytes (buflist_out w) @ buf" "bl = b # tl bl"
    using append_segment_ok [OF assms(3,5) a] assms(7) by (auto simp: bl_def)
  define n where "n = issue_size en (length (seg_rest b))"
  define m where "m = ssl_capable_write en (events w) (take n (seg_rest b))"
  let ?w = "(log_event (EvSend (take (nat m) (take n (seg_rest b)))) (w\<lparr>buflist_out := bl\<rparr>))\<lparr>could_have_pending := True\<rparr>"
  have "m \<le> int (length (take n (seg_rest b)))" using assms(1) unfolding socket_ok_def m_def by blast
  then have mn: "nat m \<le> n" "nat m \<le> length (seg_rest b)" by auto
  have w: "buflist_out ?w = bl" "m \<noteq> -1" using assms(2) by (auto simp: log_event_def healthy_def m_def)
  have raw: "lws_issue_raw en w (Some buf) = issue_from_buflist en ?w (length (seg_rest b)) (nat m)"
  proof -
    have "seg_rest b \<noteq> []" using bl(1,3) by (metis buflist_ok_hd seg_rest_nonempty)
    moreover have "lws_buflist_next_segment_len bl = Done (length (seg_rest b), Some (seg_rest b), bl)"
      using next_segment_len_ok [OF bl(1)] bl(3) by (metis list.simps(5))
    ultimately have "lws_issue_raw en w (Some buf) = issue_send en (w\<lparr>buflist_out := bl\<rparr>) (seg_rest b)"
      using a assms(6,7) bl(3) by (auto simp: lws_issue_raw_def lws_has_buffered_out_def)
    then show ?thesis using mn w bl(3) unfolding issue_send_def Let_def n_def [symmetric]
      by (auto simp: lws_has_buffered_out_def m_def [symmetric])
  qed
  have rest: "drop (nat m) (buflist_bytes bl) \<noteq> []"
    using mn(2) bl(2) assms(5,7) by simp
  obtain bl' where bl': "(if nat m = 0 then Done ?w
      else bind_outcome (lws_buflist_use_segment (buflist_out ?w) (nat m)) (\<lambda>(_, bl). Done (?w\<lparr>buflist_out := bl\<rparr>))) =
      Done (?w\<lparr>buflist_out := bl'\<rparr>)" "buflist_ok bl'" "buflist_bytes bl' = drop (nat m) (buflist_bytes bl)"
    using issue_use_segment [of b "tl bl" "nat m" ?w] bl(1,3) mn(2) w(1) by metis
  have ne: "bl' \<noteq> []" using rest bl'(3) by auto
  have "lws_issue_raw en w (Some buf) = Done (c_int (nat m), log_event EvWritable (?w\<lparr>buflist_out := bl'\<rparr>))"
    using ne unfolding raw issue_from_buflist_def bl'(1) by (simp add: lws_has_buffered_out_def)
  moreover have "out_stream (log_event EvWritable (?w\<lparr>buflist_out := bl'\<rparr>)) = out_stream w @ buf"
    using bl'(3) bl(2) mn assms(7) by (simp add: out_stream_def log_event_def min_absorb1)
  ultimately show ?thesis using bl'(2) ne mn(2)
    by (intro exI [of _ "nat m"] exI [of _ "log_event EvWritable (?w\<lparr>buflist_out := bl'\<rparr>)"])
      (auto simp: log_event_def m_def n_def)
qed

section \<open>Frames\<close>

lemma top_length_byte:
  assumes "n < 2 ^ 63"
  shows "of_nat (n div 2 ^ 56) AND 0x7f = (of_nat (n div 2 ^ 56) :: u8)"
proof -
  have "n div 2 ^ 56 < 2 ^ 7" using assms by (simp add: less_mult_imp_div_less)
  then show ?thesis by (simp add: and_7f take_bit_of_nat take_bit_nat_eq_self)
qed

lemma tx_header_reference:
  "len < 2 ^ 63 \<Longrightarrow> tx_header n masked len = n # ws_len masked len"
  using top_length_byte [of len] by (simp add: tx_header_def ws_len_def or.commute)

lemma tx_mask_loop_reference:
  "tx_mask_loop key idx xs = (ws_xor key (unat idx) xs, idx + of_nat (length xs))"
proof (induction xs arbitrary: idx)
  case (Cons c xs)
  have "ws_xor key (unat (idx + 1)) xs = ws_xor key (unat idx + 1) xs"
    using ws_xor_mod [of key "unat (idx + 1)" xs] ws_xor_mod [of key "unat idx + 1" xs]
    unfolding unat_plus_1_mod4 by simp
  then show ?case using Cons.IH [of "idx + 1"] ws_xor_append [of key "unat idx" "[c]" xs]
    by (simp add: ws_xor_def [of _ _ "[c]"] unat_and_3)
qed simp

text \<open>The write type for a data frame.\<close>

definition data_wp :: "bool \<Rightarrow> u8 \<Rightarrow> wp" where
  "data_wp fin op =
     (if op = LWSWSOPC_TEXT_FRAME then LWS_WRITE_TEXT else if op = LWSWSOPC_BINARY_FRAME then LWS_WRITE_BINARY
      else LWS_WRITE_CONTINUATION) OR (if fin then 0 else LWS_WRITE_NO_FIN)"

lemma data_wp_simps:
  assumes "op = 0 \<or> op = 1 \<or> op = 2"
  shows "tx_opcode (data_wp fin op) = Some op" "data_wp fin op AND LWS_WRITE_NO_FIN = (if fin then 0 else 0x40)"
    "\<not> is_http_write (data_wp fin op)" "data_wp fin op AND 0x1f = 0 \<or> data_wp fin op AND 0x1f = 1 \<or> data_wp fin op AND 0x1f = 2"
    "data_wp fin op \<noteq> 5" "data_wp fin op \<noteq> 6" "data_wp fin op \<noteq> 4"
  using assms by (cases fin; auto simp: data_wp_def tx_opcode_def is_http_write_def Let_def)+

definition tx_ready :: "'e wsi \<Rightarrow> bool" where
  "tx_ready w \<longleftrightarrow> buflist_ok (buflist_out w) \<and> \<not> nwsi_buffered_out w \<and> wsi_state w = LRS_ESTABLISHED \<and>
     \<not> tx_draining_ext w \<and> \<not> inside_frame w \<and> \<not> deferred_transaction_completed w \<and> \<not> stashed_write_pending w \<and>
     ietf_spec_revision w = 13 \<and> count_act_ext w = 0 \<and> \<not> h2_encapsulation w \<and> \<not> h2_stream_carries_ws w \<and>
     length (mask w) = 4"

lemma ext_access_plain:
  assumes "count_act_ext w = 0" and "clean_buffer w" and "b \<noteq> []" and "length b < 2 ^ 31"
    and "lws_issue_raw en w (Some b) = Done (n, w')" and "tx_frame_of w' = tx_frame_of w"
  shows "lws_issue_raw_ext_access en w (TUser b) (length b) = Some (Done (if n < 0 then -1 else n, w'))"
proof -
  have "clean_buffer w'" using tx_frame_fields(1) [OF assms(6)] assms(2) by simp
  then show ?thesis using assms(1-5)
    by (simp add: lws_issue_raw_ext_access_def ext_access_loop.simps lws_ext_cb_active_def ext_access_issue_def
        same_buf_def is_user_def token_load_def mem_load_def)
qed

text \<open>The frame a write makes, and the connection at the moment it goes to the socket.\<close>

definition tx_key :: "'e env \<Rightarrow> 'e wsi \<Rightarrow> bytes option" where
  "tx_key en w = (if role_client w then Some (get_random en (events w) 4) else None)"

definition tx_keyed :: "'e env \<Rightarrow> nat \<Rightarrow> 'e wsi \<Rightarrow> 'e wsi" where
  "tx_keyed en n w =
     (if role_client w then w\<lparr>clean_buffer := True, mask := get_random en (events w) 4, mask_idx := of_nat n\<rparr>
      else w\<lparr>clean_buffer := True\<rparr>)"

definition random_ok :: "'e env \<Rightarrow> bool" where
  "random_ok en \<longleftrightarrow> (\<forall>es. length (get_random en es 4) = 4)"

definition masked_payload :: "bytes option \<Rightarrow> bytes \<Rightarrow> bytes" where
  "masked_payload key pl = (case key of None \<Rightarrow> pl | Some k \<Rightarrow> ws_xor k 0 pl)"

lemma masked_payload_length [simp]: "length (masked_payload key pl) = length pl"
  by (simp add: masked_payload_def split: option.split)

lemma tx_mask_plain:
  assumes "random_ok en" and "\<not> inside_frame w"
  shows "tx_mask en (w\<lparr>clean_buffer := True\<rparr>) True pl =
    (False, case tx_key en w of None \<Rightarrow> [] | Some k \<Rightarrow> k, masked_payload (tx_key en w) pl, tx_keyed en (length pl) w)"
  using assms
  by (simp add: tx_mask_def lws_0405_frame_mask_generate_def tx_key_def tx_keyed_def masked_payload_def random_ok_def
      tx_mask_loop_reference Let_def)

lemma ws_header_length: "length (ws_header fin op key n) \<le> 10 + (case key of None \<Rightarrow> 0 | Some k \<Rightarrow> length k)"
  by (simp add: ws_header_def ws_len_def Let_def split: option.split)

text \<open>The write types of the control frames.\<close>

definition ctl_wp :: "wp \<Rightarrow> u8 \<Rightarrow> bool" where
  "ctl_wp wp op \<longleftrightarrow> wp = LWS_WRITE_CLOSE \<and> op = LWSWSOPC_CLOSE \<or> wp = LWS_WRITE_PING \<and> op = LWSWSOPC_PING \<or>
     wp = LWS_WRITE_PONG \<and> op = LWSWSOPC_PONG"

lemma ctl_wp_simps:
  assumes "ctl_wp wp op"
  shows "tx_opcode wp = Some op" "\<not> is_http_write wp" "wp AND LWS_WRITE_NO_FIN = 0" "wp = 5 \<or> wp = 6 \<or> wp = 4"
    "wp AND 0x1f \<noteq> 0" "wp AND 0x1f \<noteq> 1" "wp AND 0x1f \<noteq> 2"
  using assms by (auto simp: ctl_wp_def tx_opcode_def is_http_write_def Let_def)

lemma tx_write_frame:
  assumes w: "\<not> tx_draining_ext w" "\<not> inside_frame w" "ietf_spec_revision w = 13"
    and ext: "count_act_ext w = 0 \<and> \<not> stashed_write_pending w \<or> ctl_wp wp op"
    and "random_ok en" and wp: "tx_opcode wp = Some op" "\<not> is_http_write wp"
    and "LWS_PRE \<le> length (tb_front ub)" and n: "length (tb_body ub) < 2 ^ 31"
  shows "\<exists>ub'. length (tb_body ub') = length (tb_body ub) \<and> lws_write en w ub wp =
    with_buf ub' (tx_issue en (tx_keyed en (length (tb_body ub)) w) wp (TUser (tb_body ub))
      (ws_header (wp AND LWS_WRITE_NO_FIN = 0) op (tx_key en w) (length (tb_body ub)))
      (masked_payload (tx_key en w) (tb_body ub)) (length (tb_body ub)))"
proof -
  let ?body = "tb_body ub" and ?fin = "wp AND LWS_WRITE_NO_FIN = 0"
  let ?n = "length ?body" and ?k = "case tx_key en w of None \<Rightarrow> [] | Some k \<Rightarrow> k"
  let ?t = "\<lparr>tok = TUser ?body, tok_len = c_int ?n\<rparr>" and ?w = "w\<lparr>clean_buffer := True\<rparr>"
  have hdr: "tx_header (op OR (if ?fin then 0x80 else 0)) (role_client w) ?n @ ?k = ws_header ?fin op (tx_key en w) ?n"
    using n by (simp add: tx_header_reference ws_header_def ws_first_def tx_key_def or.commute)
  have len: "length ?k = (if role_client w then 4 else 0)" using assms(5) by (simp add: tx_key_def random_ok_def)
  have pre: "length (tx_header (op OR (if ?fin then 0x80 else 0)) (role_client w) ?n) + (if role_client w then 4 else 0) \<le> 14"
    using n by (simp add: tx_header_def Let_def)
  have "tx_extend en ?w ?t wp = Inr (wp, ?t, ?w)"
    using ext ctl_wp_simps(4) [of wp op] by (auto simp: tx_extend_def lws_ext_cb_active_def)
  then have "rops_write_role_protocol_ws en w ub (TUser ?body) wp = tx_frame en ?w ub wp (TUser ?body) ?body ?n"
    using w wp n
    by (simp add: rops_write_role_protocol_ws_def tx_resume_draining_def tx_recreated_def same_buf_def is_user_def
        token_load_def mem_load_def Let_def)
  moreover have "lws_write en w ub wp = rops_write_role_protocol_ws en w ub (TUser ?body) wp"
    using n by (simp add: lws_write_def)
  ultimately show ?thesis
    using w wp assms(8) pre hdr len tx_mask_plain [OF assms(5) w(2), of ?body] unfolding tx_frame_def
    by (intro exI [of _ "\<lparr>tb_front = take (length (tb_front ub) - (length (tx_header (op OR (if ?fin then 0x80 else 0))
        (role_client w) ?n) + (if role_client w then 4 else 0))) (tb_front ub) @ ws_header ?fin op (tx_key en w) ?n,
      tb_body = masked_payload (tx_key en w) ?body\<rparr>"])
      (simp add: Let_def is_user_def)
qed

lemma tx_write_plain:
  assumes "tx_ready w" and "random_ok en" and "op = 0 \<or> op = 1 \<or> op = 2" and "LWS_PRE \<le> length (tb_front ub)"
    and "length (tb_body ub) < 2 ^ 31"
  shows "\<exists>ub'. lws_write en w ub (data_wp fin op) =
    with_buf ub' (tx_issue en (tx_keyed en (length (tb_body ub)) w) (data_wp fin op) (TUser (tb_body ub))
      (ws_header fin op (tx_key en w) (length (tb_body ub))) (masked_payload (tx_key en w) (tb_body ub)) (length (tb_body ub)))"
proof -
  have "\<not> tx_draining_ext w" "\<not> inside_frame w" "ietf_spec_revision w = 13"
    "count_act_ext w = 0 \<and> \<not> stashed_write_pending w \<or> ctl_wp (data_wp fin op) op"
    using assms(1) by (simp_all add: tx_ready_def)
  note f = tx_write_frame [OF this assms(2) data_wp_simps(1,3) [OF assms(3), of fin] assms(4,5)]
  show ?thesis using f data_wp_simps(2) [OF assms(3), of fin] by (cases fin) auto
qed

lemma frame_split: "ws_header fin op key (length pl) @ masked_payload key pl = ws_frame fin op key pl"
  by (simp add: ws_frame_def masked_payload_def split: option.split)

lemma tx_keyed_simps [simp]:
  "out_stream (tx_keyed en n w) = out_stream w" "buflist_out (tx_keyed en n w) = buflist_out w"
  "nwsi_buffered_out (tx_keyed en n w) = nwsi_buffered_out w" "clean_buffer (tx_keyed en n w)"
  "deferred_transaction_completed (tx_keyed en n w) = deferred_transaction_completed w"
  "wsi_state (tx_keyed en n w) = wsi_state w" "count_act_ext (tx_keyed en n w) = count_act_ext w"
  "inside_frame (tx_keyed en n w) = inside_frame w" "h2_encapsulation (tx_keyed en n w) = h2_encapsulation w"
  "h2_stream_carries_ws (tx_keyed en n w) = h2_stream_carries_ws w" "role_client (tx_keyed en n w) = role_client w"
  by (simp_all add: tx_keyed_def out_stream_def)

lemma tx_ready_frame:
  assumes "tx_ready w" and "random_ok en" and "tx_frame_of w' = tx_frame_of (tx_keyed en n w)" and "buflist_ok (buflist_out w')"
    and "\<not> inside_frame w'"
  shows "tx_ready w'"
  using assms(1,2,4,5) tx_frame_fields [OF assms(3)]
  by (auto simp: tx_ready_def tx_keyed_def random_ok_def split: if_splits)

lemma tx_issue_data:
  assumes ready: "tx_ready w" and ok: "socket_ok en" "random_ok en" and op: "op = 0 \<or> op = 1 \<or> op = 2"
    and n: "length pl + 14 < 2 ^ 31"
  shows "\<exists>r w' k. tx_issue en (tx_keyed en (length pl) w) (data_wp fin op) (TUser pl)
      (ws_header fin op (tx_key en w) (length pl)) (masked_payload (tx_key en w) pl) (length pl) = Some (Done (r, w')) \<and>
    tx_frame_of w' = tx_frame_of (tx_keyed en (length pl) w) \<and> buflist_ok (buflist_out w') \<and>
    out_stream w' = out_stream w @ take k (ws_frame fin op (tx_key en w) pl) \<and>
    (buflist_out w = [] \<longrightarrow> r = -1 \<and> \<not> healthy en \<or>
       r = int (length pl) \<and> k = length (ws_frame fin op (tx_key en w) pl) \<and> \<not> inside_frame w')"
proof -
  let ?f = "ws_frame fin op (tx_key en w) pl" and ?v = "tx_keyed en (length pl) w"
    and ?h = "ws_header fin op (tx_key en w) (length pl)" and ?m = "masked_payload (tx_key en w) pl"
  have hl: "length ?h \<le> 14"
    using ws_header_length [of fin op "tx_key en w" "length pl"] ok(2) by (auto simp: tx_key_def random_ok_def split: if_splits)
  have ml: "length ?m = length pl" by simp
  have f: "?h @ ?m = ?f" "length ?f = length ?h + length pl" "?f \<noteq> []"
    using ml by (simp_all add: frame_split) (simp_all add: ws_frame_def ws_header_def masked_payload_def split: option.split)
  have w: "buflist_ok (buflist_out ?v)" "\<not> nwsi_buffered_out ?v" "\<not> deferred_transaction_completed ?v"
    "wsi_state ?v \<noteq> LRS_FLUSHING_BEFORE_CLOSE" "count_act_ext ?v = 0" "\<not> h2_encapsulation ?v" "\<not> h2_stream_carries_ws ?v"
    using ready by (simp_all add: tx_ready_def)
  obtain n w' k where i: "lws_issue_raw en ?v (Some ?f) = Done (n, w')" "buflist_ok (buflist_out w')"
    "tx_frame_of w' = tx_frame_of ?v" "out_stream w' = out_stream w @ take k ?f"
    "buflist_out ?v = [] \<longrightarrow> inside_frame w' = inside_frame ?v \<and>
       (n = -1 \<and> \<not> healthy en \<or> n = c_int (length ?f) \<and> k = length ?f)"
    using issue_raw_stream [OF ok(1) w(1,2) f(3) w(3,4)] by auto
  have fl: "length ?f < 2 ^ 31" using f(2) hl n by linarith
  have ext: "lws_issue_raw_ext_access en ?v (TUser (?h @ ?m)) (length ?h + length ?m) = Some (Done (if n < 0 then -1 else n, w'))"
    using ext_access_plain [OF w(5) _ f(3) fl i(1,3)] f ml by simp
  have hp: "length ?h > 0" by (simp add: ws_header_def)
  let ?r = "if n < 0 then -1 else if n = 0 then 0 else if n = int (length ?f) then int (length pl) else n - int (length ?h)"
  let ?w = "w'\<lparr>inside_frame := \<not> (0 < n \<and> n = int (length ?f))\<rparr>"
  have "tx_issue en ?v (data_wp fin op) (TUser pl) ?h ?m (length pl) = Some (Done (?r, ?w))"
    using data_wp_simps(4) [OF op, of fin] w(6,7) ext ml f(2) n by (auto simp: tx_issue_def retok_def Let_def)
  moreover have "buflist_out w = [] \<longrightarrow> ?r = -1 \<and> \<not> healthy en \<or>
       ?r = int (length pl) \<and> k = length ?f \<and> \<not> inside_frame ?w"
  proof (intro impI)
    assume "buflist_out w = []"
    then have "n = -1 \<and> \<not> healthy en \<or> n = int (length ?f) \<and> k = length ?f" using i(5) fl by simp
    moreover have "0 < int (length ?f)" using f(3) by simp
    ultimately show "?r = -1 \<and> \<not> healthy en \<or> ?r = int (length pl) \<and> k = length ?f \<and> \<not> inside_frame ?w" by auto
  qed
  ultimately show ?thesis using i(2,3,4) by (intro exI [of _ ?r] exI [of _ ?w] exI [of _ k]) simp
qed

lemma lws_write_stream:
  assumes "tx_ready w" and "buflist_out w = []" and "socket_ok en" and "healthy en" and "random_ok en"
    and "op = 0 \<or> op = 1 \<or> op = 2" and "LWS_PRE \<le> length (tb_front ub)" and "length (tb_body ub) + 14 < 2 ^ 31"
  shows "\<exists>ub' w'. lws_write en w ub (data_wp fin op) = Some (Done (int (length (tb_body ub)), ub', w')) \<and>
    tx_ready w' \<and> role_client w' = role_client w \<and>
    out_stream w' = out_stream w @ ws_frame fin op (tx_key en w) (tb_body ub)"
proof -
  obtain ub' where ub': "lws_write en w ub (data_wp fin op) =
      with_buf ub' (tx_issue en (tx_keyed en (length (tb_body ub)) w) (data_wp fin op) (TUser (tb_body ub))
        (ws_header fin op (tx_key en w) (length (tb_body ub))) (masked_payload (tx_key en w) (tb_body ub)) (length (tb_body ub)))"
    using tx_write_plain [OF assms(1,5,6,7)] assms(8) by fastforce
  obtain w' where w': "tx_issue en (tx_keyed en (length (tb_body ub)) w) (data_wp fin op) (TUser (tb_body ub))
      (ws_header fin op (tx_key en w) (length (tb_body ub))) (masked_payload (tx_key en w) (tb_body ub)) (length (tb_body ub)) =
      Some (Done (int (length (tb_body ub)), w'))"
    "tx_frame_of w' = tx_frame_of (tx_keyed en (length (tb_body ub)) w)" "buflist_ok (buflist_out w')" "\<not> inside_frame w'"
    "out_stream w' = out_stream w @ ws_frame fin op (tx_key en w) (tb_body ub)"
    using tx_issue_data [OF assms(1,3,5,6,8), of fin] assms(2,4) by auto
  have "tx_ready w'" using tx_ready_frame [OF assms(1,5) w'(2,3,4)] .
  moreover have "role_client w' = role_client w" using tx_frame_fields(12) [OF w'(2)] by simp
  ultimately show ?thesis using ub' w'(1,5) by (auto simp: with_buf_def)
qed

text \<open>Control frames go to the socket directly; the extensions do not see them.\<close>

definition ctl_ready :: "'e wsi \<Rightarrow> bool" where
  "ctl_ready w \<longleftrightarrow> buflist_out w = [] \<and> \<not> nwsi_buffered_out w \<and> wsi_state w \<noteq> LRS_FLUSHING_BEFORE_CLOSE \<and>
     \<not> tx_draining_ext w \<and> \<not> inside_frame w \<and> \<not> deferred_transaction_completed w \<and>
     ietf_spec_revision w = 13 \<and> \<not> h2_encapsulation w"

lemma lws_write_control:
  assumes "ctl_ready w" and "socket_ok en" and "healthy en" and "random_ok en"
    and "ctl_wp wp op" and "LWS_PRE \<le> length (tb_front ub)" and "length (tb_body ub) \<le> 125"
  shows "\<exists>n ub' w'. lws_write en w ub wp = Some (Done (n, ub', w')) \<and> 0 \<le> n \<and>
    length (tb_body ub') = length (tb_body ub) \<and>
    tx_frame_of w' = tx_frame_of (tx_keyed en (length (tb_body ub)) w) \<and> buflist_ok (buflist_out w') \<and>
    out_stream w' = out_stream w @ ws_frame True op (tx_key en w) (tb_body ub)"
proof -
  let ?b = "tb_body ub" and ?f = "ws_frame True op (tx_key en w) (tb_body ub)"
  let ?v = "tx_keyed en (length ?b) w"
  note wp = ctl_wp_simps [OF assms(5)]
  have w: "\<not> tx_draining_ext w" "\<not> inside_frame w" "ietf_spec_revision w = 13" using assms(1) by (simp_all add: ctl_ready_def)
  have v: "buflist_ok (buflist_out ?v)" "\<not> nwsi_buffered_out ?v" "\<not> deferred_transaction_completed ?v"
    "wsi_state ?v \<noteq> LRS_FLUSHING_BEFORE_CLOSE" "\<not> h2_encapsulation ?v" "buflist_out ?v = []"
    using assms(1) by (simp_all add: ctl_ready_def buflist_ok_def)
  obtain ub' where ub': "length (tb_body ub') = length ?b" "lws_write en w ub wp =
      with_buf ub' (tx_issue en ?v wp (TUser ?b) (ws_header True op (tx_key en w) (length ?b)) (masked_payload (tx_key en w) ?b) (length ?b))"
    using tx_write_frame [OF w _ assms(4) wp(1,2) assms(6)] assms(5,7) wp(3) by auto
  have ne: "?f \<noteq> []" by (simp add: ws_frame_def ws_header_def)
  have "length ?f \<le> 14 + 125"
    using ws_header_length [of True op "tx_key en w" "length ?b"] assms(4,7)
    by (auto simp: ws_frame_def tx_key_def random_ok_def split: if_splits)
  then have fl: "c_int (length ?f) = int (length ?f)" by simp
  obtain n w' where i: "lws_issue_raw en ?v (Some ?f) = Done (n, w')" "buflist_ok (buflist_out w')"
    "tx_frame_of w' = tx_frame_of ?v" "out_stream w' = out_stream w @ ?f" "0 \<le> n"
    using issue_raw_stream [OF assms(2) v(1,2) ne v(3,4)] v(6) assms(3) fl by auto
  have "lws_write en w ub wp = Some (Done (n, ub', w'))"
    unfolding ub'(2) using v(5) wp(5-7) i(1) by (simp add: tx_issue_def frame_split with_buf_def)
  then show ?thesis using i ub'(1) by blast
qed

section \<open>Draining\<close>

text \<open>Writable events on a connection with pending output, one after the other.\<close>

primrec flush_rounds :: "'e env \<Rightarrow> nat \<Rightarrow> 'e wsi \<Rightarrow> 'e wsi outcome" where
  "flush_rounds en 0 w = Done w"
| "flush_rounds en (Suc n) w = bind_outcome (lws_issue_raw en w None) (\<lambda>(r, w). flush_rounds en n w)"

text \<open>A socket that takes something whenever it is offered something.\<close>

definition progressing :: "'e env \<Rightarrow> bool" where
  "progressing en \<longleftrightarrow> socket_ok en \<and> 0 < issue_limit en \<and> (\<forall>es b. b \<noteq> [] \<longrightarrow> 0 < ssl_capable_write en es b)"

lemma progressing_socket: "progressing en \<Longrightarrow> socket_ok en"
  by (simp add: progressing_def)

lemma issue_size_pos: "0 < issue_limit en \<Longrightarrow> 0 < n \<Longrightarrow> 0 < issue_size en n"
  by (auto simp: issue_size_def issue_limit_def c_uint_def Let_def)

text \<open>One event, with or without progress.\<close>

lemma flush_step:
  assumes "socket_ok en" and "buflist_ok (buflist_out w)" and "\<not> nwsi_buffered_out w" and "\<not> deferred_transaction_completed w"
  shows "\<exists>r w'. lws_issue_raw en w None = Done (r, w') \<and> buflist_ok (buflist_out w') \<and> tx_frame_of w' = tx_frame_of w \<and>
    out_stream w' = out_stream w \<and> (inside_frame w' \<longrightarrow> inside_frame w) \<and>
    (progressing en \<and> buflist_out w \<noteq> [] \<longrightarrow> length (buflist_bytes (buflist_out w')) < length (buflist_bytes (buflist_out w)))"
proof (cases "buflist_out w")
  case Nil
  then have "lws_issue_raw en w None = Done (0, w)" using assms(3) by (simp add: lws_issue_raw_def)
  then show ?thesis using Nil assms(2) by simp
next
  case bl: (Cons b r)
  have ok: "buflist_ok (b # r)" using assms(2) bl by simp
  have ne: "seg_rest b \<noteq> []" using ok by (auto dest: buflist_ok_hd seg_rest_nonempty)
  have same: "w\<lparr>buflist_out := b # r\<rparr> = w" using bl [symmetric] by simp
  have "lws_issue_raw en w None = issue_send en (w\<lparr>buflist_out := b # r\<rparr>) (seg_rest b)"
    using bl ne next_segment_len_ok [OF ok] by (simp add: lws_issue_raw_def lws_has_buffered_out_def)
  then have raw: "lws_issue_raw en w None = issue_send en w (seg_rest b)" unfolding same .
  obtain n w' m where i: "issue_send en w (seg_rest b) = Done (n, w')" "buflist_ok (buflist_out w')"
    "tx_frame_of w' = tx_frame_of w" "out_stream w' = out_stream w"
    "sent_bytes (events w') = sent_bytes (events w) @ take m (seg_rest b)"
    "m = nat (ssl_capable_write en (events w) (take (issue_size en (length (seg_rest b))) (seg_rest b)))"
    "inside_frame w' \<longrightarrow> inside_frame w"
    using issue_send_buffered [OF assms(1) ok bl assms(3,4)] by blast
  have "length (buflist_bytes (buflist_out w')) < length (buflist_bytes (buflist_out w))" if "progressing en"
  proof -
    have "0 < m" using i(6) that ne issue_size_pos [of en] by (auto simp: progressing_def)
    then have "length (sent_bytes (events w)) < length (sent_bytes (events w'))" using i(5) ne by simp
    then show ?thesis using arg_cong [OF i(4), of length] by (simp only: out_stream_def length_append)
  qed
  then show ?thesis using i(1-4,7) unfolding raw by (intro exI [of _ n] exI [of _ w']) simp
qed

lemma flush_keeps:
  assumes "socket_ok en"
  shows "tx_ready w \<Longrightarrow> flush_rounds en n w = Done w' \<Longrightarrow>
    tx_ready w' \<and> role_client w' = role_client w \<and> out_stream w' = out_stream w"
proof (induction n arbitrary: w)
  case (Suc n)
  have w: "buflist_ok (buflist_out w)" "\<not> nwsi_buffered_out w" "\<not> deferred_transaction_completed w"
    using Suc.prems(1) by (simp_all add: tx_ready_def)
  obtain r w1 where w1: "lws_issue_raw en w None = Done (r, w1)" "buflist_ok (buflist_out w1)" "tx_frame_of w1 = tx_frame_of w"
    "out_stream w1 = out_stream w" "inside_frame w1 \<longrightarrow> inside_frame w"
    using flush_step [OF assms w] by blast
  have "tx_ready w1" using Suc.prems(1) w1(2,5) tx_frame_fields [OF w1(3)] by (simp add: tx_ready_def)
  then show ?case using Suc.IH [of w1] Suc.prems(2) w1(1,4) tx_frame_fields(12) [OF w1(3)] by simp
qed simp

lemma flush_drains:
  assumes "progressing en"
  shows "buflist_ok (buflist_out w) \<Longrightarrow> \<not> nwsi_buffered_out w \<Longrightarrow> \<not> deferred_transaction_completed w \<Longrightarrow>
    \<exists>n w'. flush_rounds en n w = Done w' \<and> buflist_out w' = [] \<and> out_stream w' = out_stream w"
proof (induction "length (buflist_bytes (buflist_out w))" arbitrary: w rule: less_induct)
  case less
  show ?case
  proof (cases "buflist_out w = []")
    case True
    then show ?thesis by (intro exI [of _ 0] exI [of _ w]) simp
  next
    case False
    obtain r w1 where w1: "lws_issue_raw en w None = Done (r, w1)" "buflist_ok (buflist_out w1)" "tx_frame_of w1 = tx_frame_of w"
      "out_stream w1 = out_stream w" "length (buflist_bytes (buflist_out w1)) < length (buflist_bytes (buflist_out w))"
      using flush_step [OF progressing_socket [OF assms] less.prems] assms False by blast
    obtain n w' where "flush_rounds en n w1 = Done w'" "buflist_out w' = []" "out_stream w' = out_stream w1"
      using less.hyps [OF w1(5,2)] less.prems(2,3) tx_frame_fields(3,5) [OF w1(3)] by blast
    then show ?thesis using w1(1,4) by (intro exI [of _ "Suc n"] exI [of _ w']) simp
  qed
qed

section \<open>Properties\<close>

text \<open>C11. A write of a data frame on an established connection without extensions and with nothing pending
  puts exactly one frame in the RFC 6455 encoding on the output stream, masked with a fresh key when the
  connection is a client's, whatever part of it the socket takes at once (a working socket, allocator and
  random source); it reports the payload as accepted and is ready for the next write.\<close>

theorem lws_write_emits_frame:
  assumes "tx_ready w" and "buflist_out w = []" and "socket_ok en" and "healthy en" and "random_ok en"
    and "op = 0 \<or> op = 1 \<or> op = 2" and "LWS_PRE \<le> length (tb_front ub)" and "length (tb_body ub) + 14 < 2 ^ 31"
  shows "\<exists>ub' w'. lws_write en w ub (data_wp fin op) = Some (Done (int (length (tb_body ub)), ub', w')) \<and>
    tx_ready w' \<and> role_client w' = role_client w \<and>
    out_stream w' = out_stream w @ ws_frame fin op (tx_key en w) (tb_body ub)"
  using lws_write_stream [OF assms] .

theorem lws_write_emits_frame_witness:
  "\<exists>ub' w'. lws_write (quiet_env False 64) (ws_established True 64 :: unit wsi)
      \<lparr>tb_front = replicate 16 0, tb_body = [1, 2, 3]\<rparr> (data_wp True 2) = Some (Done (3, ub', w')) \<and>
    out_stream w' = ws_frame True 2 (Some [0x5a, 0x5a, 0x5a, 0x5a]) [1, 2, 3]"
proof -
  let ?w = "ws_established True 64 :: unit wsi" and ?en = "quiet_env False 64 :: unit env"
    and ?ub = "\<lparr>tb_front = replicate 16 0, tb_body = [1, 2, 3]\<rparr>"
  have pre: "tx_ready ?w" "buflist_out ?w = []" "socket_ok ?en" "healthy ?en" "random_ok ?en"
    by (simp_all add: tx_ready_def socket_ok_def healthy_def random_ok_def ws_established_def wsi_zalloc_def quiet_env_def)
  have "tx_key ?en ?w = Some [0x5a, 0x5a, 0x5a, 0x5a]" "out_stream ?w = []"
    by (simp_all add: tx_key_def ws_established_def wsi_zalloc_def quiet_env_def out_stream_def numeral_nat)
  then show ?thesis
    using lws_write_emits_frame [OF pre, of 2 ?ub True] by (auto intro: exI)
qed

text \<open>C19. Bytes given to the output layer are not lost, repeated or reordered: whatever the socket takes,
  whatever is already pending and whether or not the call fails, the output stream (what the socket took, then
  what is buffered) grows by a prefix of the new bytes, by all of them unless the call reports failure.  The one
  exception is the state \<open>LRS_FLUSHING_BEFORE_CLOSE\<close> with nothing left to flush: there the bytes are
  dropped, nothing else changes, and the call reports their number as if they had been sent.  The connection is
  its own network connection (not a substream whose network connection has output pending) and has no HTTP
  transaction to complete when its output is flushed; the socket never reports more than it was offered.\<close>

theorem lws_issue_raw_keeps_order:
  assumes "socket_ok en" and "buflist_ok (buflist_out w)" and "\<not> nwsi_buffered_out w" and "buf \<noteq> []"
    and "\<not> deferred_transaction_completed w"
  shows "\<exists>n w' k. lws_issue_raw en w (Some buf) = Done (n, w') \<and> buflist_ok (buflist_out w') \<and>
    (if wsi_state w = LRS_FLUSHING_BEFORE_CLOSE \<and> buflist_out w = [] then n = c_int (length buf) \<and> w' = w
     else out_stream w' = out_stream w @ take k buf \<and> (n = -1 \<or> k = length buf))"
proof (cases "wsi_state w = LRS_FLUSHING_BEFORE_CLOSE \<and> buflist_out w = []")
  case True
  then show ?thesis using assms(2,3) by (simp add: lws_issue_raw_def lws_has_buffered_out_def)
next
  case False
  then show ?thesis using issue_raw_stream_while_flushing [OF assms] by auto
qed

theorem lws_issue_raw_keeps_order_witness:
  "\<exists>n w' k. lws_issue_raw ((quiet_env False 64)\<lparr>ssl_capable_write := (\<lambda>es b. min 1 (int (length b)))\<rparr>)
      ((ws_established True 64 :: unit wsi)\<lparr>wsi_state := LRS_FLUSHING_BEFORE_CLOSE,
        buflist_out := [\<lparr>seg_len = 2, seg_pos = 1, seg_data = [8, 9]\<rparr>]\<rparr>) (Some [1, 2]) = Done (n, w') \<and>
    buflist_ok (buflist_out w') \<and> out_stream w' = 9 # take k [1, 2] \<and> (n = -1 \<or> k = length ([1, 2] :: bytes))"
proof -
  let ?w = "(ws_established True 64 :: unit wsi)\<lparr>wsi_state := LRS_FLUSHING_BEFORE_CLOSE,
    buflist_out := [\<lparr>seg_len = 2, seg_pos = 1, seg_data = [8, 9]\<rparr>]\<rparr>"
  have "out_stream ?w = [9]" "buflist_out ?w \<noteq> []"
    by (simp_all add: out_stream_def ws_established_def wsi_zalloc_def seg_rest_def)
  then show ?thesis
    using lws_issue_raw_keeps_order [of "(quiet_env False 64)\<lparr>ssl_capable_write := (\<lambda>es b. min 1 (int (length b)))\<rparr>" ?w "[1, 2]"]
    by (simp add: socket_ok_def ws_established_def wsi_zalloc_def buflist_ok_def seg_ok_def quiet_env_def)
qed

text \<open>C38. A write while output is pending queues its whole frame behind it, but what it reports is not about
  that frame: it is what the socket took of the oldest pending segment less the size of the new header,
  which can be less than was written, or negative, and the frame still counts as unfinished.\<close>

theorem lws_write_pending_misreports:
  fixes fin :: bool
  assumes "tx_ready w" and "buflist_out w = b # r" and "Suc (length r) < 1024" and "socket_ok en" and "healthy en"
    and "random_ok en" and "op = 0 \<or> op = 1 \<or> op = 2" and "LWS_PRE \<le> length (tb_front ub)"
    and "length (tb_body ub) + 14 < 2 ^ 31" and "length (seg_rest b) < 2 ^ 31"
  defines "frame \<equiv> ws_frame fin op (tx_key en w) (tb_body ub)"
  shows "\<exists>m ub' w'. lws_write en w ub (data_wp fin op) =
      Some (Done (if m = 0 then 0 else if m = length frame then int (length (tb_body ub))
        else int m - int (length (ws_header fin op (tx_key en w) (length (tb_body ub)))), ub', w')) \<and>
    int m = max 0 (ssl_capable_write en (events w) (take (issue_size en (length (seg_rest b))) (seg_rest b))) \<and>
    out_stream w' = out_stream w @ frame \<and> inside_frame w' = (m = 0 \<or> m \<noteq> length frame)"
proof -
  let ?n = "length (tb_body ub)" and ?v = "tx_keyed en (length (tb_body ub)) w"
  let ?h = "ws_header fin op (tx_key en w) ?n" and ?m = "masked_payload (tx_key en w) (tb_body ub)"
  obtain ub' where ub': "lws_write en w ub (data_wp fin op) = with_buf ub' (tx_issue en ?v (data_wp fin op) (TUser (tb_body ub)) ?h ?m ?n)"
    using tx_write_plain [OF assms(1,6,7,8)] assms(9) by fastforce
  have ml: "length ?m = ?n" by simp
  have hl: "length ?h \<le> 14"
    using ws_header_length [of fin op "tx_key en w" ?n] assms(6) by (auto simp: tx_key_def random_ok_def split: if_splits)
  have f: "?h @ ?m = frame" "length frame = length ?h + ?n" "frame \<noteq> []"
    using ml by (simp_all add: frame_split frame_def) (simp_all add: ws_frame_def ws_header_def masked_payload_def split: option.split)
  have w: "buflist_ok (buflist_out ?v)" "\<not> nwsi_buffered_out ?v" "wsi_state ?v \<noteq> LRS_FLUSHING_BEFORE_CLOSE"
    "count_act_ext ?v = 0" "\<not> h2_encapsulation ?v" "\<not> h2_stream_carries_ws ?v" "buflist_out ?v = b # r"
    "events ?v = events w"
    using assms(1,2) by (simp_all add: tx_ready_def) (simp add: tx_keyed_def)
  obtain m w' where i: "lws_issue_raw en ?v (Some frame) = Done (c_int m, w')" "tx_frame_of w' = tx_frame_of ?v"
    "out_stream w' = out_stream w @ frame" "m \<le> length (seg_rest b)"
    "int m = max 0 (ssl_capable_write en (events w) (take (issue_size en (length (seg_rest b))) (seg_rest b)))"
    using issue_raw_pending [OF assms(4,5) w(1,2) f(3) w(3,7) assms(3)] w(8) by auto
  have cm: "c_int m = int m" using i(4) assms(10) by simp
  have "lws_issue_raw_ext_access en ?v (TUser (?h @ ?m)) (length ?h + length ?m) = Some (Done (int m, w'))"
    using ext_access_plain [OF w(4) _ f(3) _ i(1,2)] f ml hl assms(9) cm by simp
  then have "tx_issue en ?v (data_wp fin op) (TUser (tb_body ub)) ?h ?m ?n =
      Some (Done (if m = 0 then 0 else if m = length frame then int ?n else int m - int (length ?h),
        w'\<lparr>inside_frame := m = 0 \<or> m \<noteq> length frame\<rparr>))"
    using data_wp_simps(4) [OF assms(7), of fin] w(5,6) ml f(2) assms(9) by (auto simp: tx_issue_def retok_def Let_def)
  then show ?thesis using ub' i(3,5)
    by (intro exI [of _ m] exI [of _ ub'] exI [of _ "w'\<lparr>inside_frame := m = 0 \<or> m \<noteq> length frame\<rparr>"])
      (simp add: with_buf_def)
qed

theorem lws_write_pending_misreports_witness:
  "\<exists>ub' w'. lws_write ((quiet_env False 64)\<lparr>ssl_capable_write := (\<lambda>es b. min 1 (int (length b)))\<rparr>)
      ((ws_established False 64 :: unit wsi)\<lparr>buflist_out := [\<lparr>seg_len = 2, seg_pos = 0, seg_data = [8, 9]\<rparr>]\<rparr>)
      \<lparr>tb_front = replicate 16 0, tb_body = [1, 2, 3]\<rparr> (data_wp True 2) = Some (Done (-1, ub', w')) \<and>
    out_stream w' = [8, 9] @ ws_frame True 2 None [1, 2, 3] \<and> inside_frame w'"
proof -
  let ?b = "\<lparr>seg_len = 2, seg_pos = 0, seg_data = [8, 9]\<rparr>"
  let ?w = "(ws_established False 64 :: unit wsi)\<lparr>buflist_out := [?b]\<rparr>"
    and ?en = "(quiet_env False 64 :: unit env)\<lparr>ssl_capable_write := (\<lambda>es b. min 1 (int (length b)))\<rparr>"
    and ?ub = "\<lparr>tb_front = replicate 16 0, tb_body = [1, 2, 3]\<rparr>"
  have pre: "tx_ready ?w" "buflist_out ?w = ?b # []" "Suc (length ([] :: lws_buflist list)) < 1024" "socket_ok ?en" "healthy ?en"
    "random_ok ?en"
    by (simp_all add: tx_ready_def socket_ok_def healthy_def random_ok_def ws_established_def wsi_zalloc_def
        quiet_env_def buflist_ok_def seg_ok_def min_def)
  have k: "tx_key ?en ?w = None" "out_stream ?w = [8, 9]" "length (seg_rest ?b) < 2 ^ 31"
    "max 0 (ssl_capable_write ?en (events ?w) (take (issue_size ?en (length (seg_rest ?b))) (seg_rest ?b))) = 1"
    by (simp_all add: tx_key_def ws_established_def wsi_zalloc_def quiet_env_def out_stream_def seg_rest_def
        issue_size_def issue_limit_def c_uint_def)
  have h: "length (ws_header True 2 None (length (tb_body ?ub))) = 2" "length (ws_frame True 2 None (tb_body ?ub)) = 5"
    by (simp_all add: ws_frame_def ws_header_def ws_len_def)
  have ub: "LWS_PRE \<le> length (tb_front ?ub)" "length (tb_body ?ub) + 14 < 2 ^ 31" by simp_all
  have op: "(2 :: u8) = 0 \<or> (2 :: u8) = 1 \<or> (2 :: u8) = 2" by simp
  obtain m ub' w' where r: "lws_write ?en ?w ?ub (data_wp True 2) =
      Some (Done (if m = 0 then 0 else if m = 5 then int (length (tb_body ?ub)) else int m - int 2, ub', w'))"
    "int m = 1" "out_stream w' = [8, 9] @ ws_frame True 2 None (tb_body ?ub)" "inside_frame w' = (m = 0 \<or> m \<noteq> 5)"
    using lws_write_pending_misreports [OF pre op ub k(3), of True] unfolding k h
    by (elim exE conjE) (rule that, assumption+)
  have "m = 1" using r(2) by simp
  then show ?thesis using r by auto
qed

text \<open>C20. Pending output drains: when the socket takes at least a byte each time it is writable, a finite
  number of writable events sends everything that is pending, in order.\<close>

theorem pending_output_drains:
  assumes "progressing en" and "buflist_ok (buflist_out w)" and "\<not> nwsi_buffered_out w" and "\<not> deferred_transaction_completed w"
  shows "\<exists>n w'. flush_rounds en n w = Done w' \<and> buflist_out w' = [] \<and> sent_bytes (events w') = out_stream w"
proof -
  obtain n w' where "flush_rounds en n w = Done w'" "buflist_out w' = []" "out_stream w' = out_stream w"
    using flush_drains [OF assms] by blast
  then show ?thesis by (intro exI [of _ n] exI [of _ w']) (simp add: out_stream_def)
qed

theorem pending_output_drains_witness:
  "\<exists>n w'. flush_rounds ((quiet_env False 64)\<lparr>ssl_capable_write := (\<lambda>es b. min 1 (int (length b)))\<rparr>) n
      ((ws_established True 64 :: unit wsi)\<lparr>buflist_out := [\<lparr>seg_len = 2, seg_pos = 1, seg_data = [8, 9]\<rparr>]\<rparr>) = Done w' \<and>
    buflist_out w' = [] \<and>
    sent_bytes (events w') = out_stream ((ws_established True 64 :: unit wsi)
      \<lparr>buflist_out := [\<lparr>seg_len = 2, seg_pos = 1, seg_data = [8, 9]\<rparr>]\<rparr>)"
  by (rule pending_output_drains)
    (simp_all add: progressing_def socket_ok_def issue_limit_def c_uint_def quiet_env_def ws_established_def wsi_zalloc_def
      buflist_ok_def seg_ok_def)

end
