(* ===== verification/Ws_Roundtrip.thy ===== *)
theory Ws_Roundtrip
  imports Ws_Tx Ws_Delivery
begin

text \<open>
  A client's writes at a server's parser: what a sequence of writes puts on the socket is fed to
  \<open>lws_parse_ws\<close>, and the server's user is shown the payloads that were written, in order.
\<close>

section \<open>A client writing\<close>

text \<open>Data frames written one after the other, each once the output of the one before has gone out in any
  number of writable events.\<close>

inductive sends :: "'e env \<Rightarrow> 'e wsi \<Rightarrow> (bool \<times> u8 \<times> bytes) list \<Rightarrow> 'e wsi \<Rightarrow> bool" for en where
  sends_nothing: "sends en w [] w"
| sends_frame: "tb_body ub = pl \<Longrightarrow> LWS_PRE \<le> length (tb_front ub) \<Longrightarrow>
    lws_write en w ub (data_wp fin op) = Some (Done (r, ub', w1)) \<Longrightarrow> int (length pl) \<le> r \<Longrightarrow>
    flush_rounds en n w1 = Done w2 \<Longrightarrow> buflist_out w2 = [] \<Longrightarrow> sends en w2 fs w3 \<Longrightarrow>
    sends en w ((fin, op, pl) # fs) w3"

inductive_cases sends_NilE: "sends en w [] w'"
inductive_cases sends_ConsE: "sends en w (f # fs) w'"

text \<open>Continuations exactly inside a message, and sizes within what a write accepts.\<close>

fun frames_ok :: "bool \<Rightarrow> (bool \<times> u8 \<times> bytes) list \<Rightarrow> bool" where
  "frames_ok in_msg [] = True"
| "frames_ok in_msg ((fin, op, pl) # fs) =
     ((op = 0 \<or> op = 1 \<or> op = 2) \<and> (in_msg \<longleftrightarrow> op = 0) \<and> length pl + 14 < 2 ^ 31 \<and> frames_ok (\<not> fin) fs)"

definition client_ready :: "'e wsi \<Rightarrow> bool" where
  "client_ready w \<longleftrightarrow> tx_ready w \<and> buflist_out w = [] \<and> role_client w"

text \<open>One write and the events after it.\<close>

lemma sends_one:
  assumes "socket_ok en" and "healthy en" and "random_ok en" and "client_ready w" and "op = 0 \<or> op = 1 \<or> op = 2"
    and "LWS_PRE \<le> length (tb_front ub)" and "length (tb_body ub) + 14 < 2 ^ 31"
    and "lws_write en w ub (data_wp fin op) = Some (Done (r, ub', w1))" and "flush_rounds en n w1 = Done w2" and "buflist_out w2 = []"
  shows "client_ready w2 \<and> length (get_random en (events w) 4) = 4 \<and>
    out_stream w2 = out_stream w @ ws_frame fin op (Some (get_random en (events w) 4)) (tb_body ub)"
proof -
  have w: "tx_ready w" "buflist_out w = []" "role_client w" using assms(4) by (simp_all add: client_ready_def)
  have "tx_ready w1" "role_client w1" "out_stream w1 = out_stream w @ ws_frame fin op (tx_key en w) (tb_body ub)"
    using lws_write_stream [OF w(1,2) assms(1,2,3,5,6,7), of fin] assms(8) w(3) by auto
  then show ?thesis
    using flush_keeps [OF assms(1) _ assms(9)] assms(3,10) w(3) by (auto simp: client_ready_def tx_key_def random_ok_def)
qed

text \<open>What was written, of a frame with its masking key, and the frames of what was written without their keys.\<close>

definition fr_written :: "data_frame \<Rightarrow> bool \<times> u8 \<times> bytes" where
  "fr_written f = (fr_fin f, fr_op f, fr_payload f)"

definition unkeyed :: "bool \<times> u8 \<times> bytes \<Rightarrow> data_frame" where
  "unkeyed x = (case x of (fin, op, pl) \<Rightarrow> \<lparr>fr_fin = fin, fr_op = op, fr_key = [], fr_payload = pl\<rparr>)"

lemma texts_ok_unkeyed: "texts_ok t gs = texts_ok t (map unkeyed (map fr_written gs))"
  by (induction gs arbitrary: t) (simp_all add: unkeyed_def fr_written_def)

lemma fr_written_payload: "map fr_payload gs = map (snd \<circ> snd) (map fr_written gs)"
  by (simp add: fr_written_def comp_def)

lemma sends_frames:
  assumes "sends en w fs w'" and "socket_ok en" "healthy en" "random_ok en"
  shows "client_ready w \<Longrightarrow> frames_ok in_msg fs \<Longrightarrow>
    client_ready w' \<and> (\<exists>gs. fr_seq in_msg gs \<and> map fr_written gs = fs \<and>
      out_stream w' = out_stream w @ concat (map fr_wire gs))"
  using assms(1)
proof (induction arbitrary: in_msg)
  case (sends_nothing w)
  then show ?case by (intro conjI exI [of _ "[]"]) simp_all
next
  case (sends_frame ub pl w fin op r ub' w1 n w2 fs w3)
  let ?g = "\<lparr>fr_fin = fin, fr_op = op, fr_key = get_random en (events w) 4, fr_payload = pl\<rparr>"
  have one: "client_ready w2" "length (get_random en (events w) 4) = 4" "out_stream w2 = out_stream w @ fr_wire ?g"
    using sends_one [OF assms(2-4) sends_frame.prems(1), of op ub fin r ub' w1 n w2] sends_frame
    by (auto simp: fr_wire_def)
  obtain gs where gs: "client_ready w3" "fr_seq (\<not> fin) gs" "map fr_written gs = fs"
    "out_stream w3 = out_stream w2 @ concat (map fr_wire gs)"
    using sends_frame.IH [OF one(1), of "\<not> fin"] sends_frame.prems(2) by auto
  then show ?case using one(2,3) sends_frame.prems(2)
    by (intro conjI exI [of _ "?g # gs"]) (auto simp: fr_ok_def fr_written_def)
qed

text \<open>With a socket that keeps taking bytes, any well-formed sequence of frames can be written.\<close>

lemma sends_exists:
  assumes "progressing en" "healthy en" "random_ok en"
  shows "client_ready w \<Longrightarrow> frames_ok in_msg fs \<Longrightarrow> \<exists>w'. sends en w fs w'"
proof (induction fs arbitrary: w in_msg)
  case Nil
  then show ?case by (auto intro: sends_nothing)
next
  case (Cons f fs)
  obtain fin op pl where f: "f = (fin, op, pl)" by (cases f)
  let ?ub = "\<lparr>tb_front = replicate LWS_PRE 0, tb_body = pl\<rparr>"
  have op: "op = 0 \<or> op = 1 \<or> op = 2" "length pl + 14 < 2 ^ 31" using Cons.prems(2) f by auto
  have w: "tx_ready w" "buflist_out w = []" using Cons.prems(1) by (simp_all add: client_ready_def)
  obtain ub' w1 where w1: "lws_write en w ?ub (data_wp fin op) = Some (Done (int (length pl), ub', w1))" "tx_ready w1"
    using lws_write_stream [OF w progressing_socket [OF assms(1)] assms(2,3) op(1), of ?ub fin] op(2) by auto
  then have "buflist_ok (buflist_out w1)" "\<not> nwsi_buffered_out w1" "\<not> deferred_transaction_completed w1"
    by (simp_all add: tx_ready_def)
  then obtain n w2 where w2: "flush_rounds en n w1 = Done w2" "buflist_out w2 = []"
    using flush_drains [OF assms(1)] by blast
  have "client_ready w2"
    using sends_one [OF progressing_socket [OF assms(1)] assms(2,3) Cons.prems(1) op(1) _ _ w1(1) w2] op(2) by simp
  then obtain w' where "sends en w2 fs w'" using Cons.IH [of w2 "\<not> fin"] Cons.prems(2) f by auto
  then show ?case using sends_frame [of ?ub pl en w fin op, OF _ _ w1(1) _ w2] f by auto
qed

section \<open>Properties\<close>

text \<open>C1. From one end to the other, without extensions: a client can write any well-ordered sequence of data frames, each of fewer than
  \<open>2 ^ 31 - 14\<close> bytes, through a socket that keeps taking bytes, however little at a time.  In every run that does, the bytes on the
  socket, cut into pieces of fewer than \<open>2 ^ 31\<close> bytes at any places and read one after the other by a server between two messages,
  make the server show its user exactly the payloads, in order; its user's callback accepts what it is shown and asks for nothing, and
  where the server validates UTF-8 the text messages are valid.\<close>

theorem client_write_server_receive:
  assumes "progressing en" and "healthy en" and "random_ok en" and "client_ready w" and "sent_bytes (events w) = []"
    and "quiet sen" and "rx_idle sen sw" and "\<not> continuation_possible sw" and "utf8 sw = 0"
    and "frames_ok False fs" and "opt_validate_utf8 sen \<longrightarrow> texts_ok None (map unkeyed fs)"
  shows "(\<exists>w'. sends en w fs w') \<and>
    (\<forall>w' pieces. sends en w fs w' \<longrightarrow> concat pieces = sent_bytes (events w') \<longrightarrow> list_all (\<lambda>b. length b < 2 ^ 31) pieces \<longrightarrow>
      (\<exists>sw'. parse_pieces sen cached sw pieces = Some (Done (0, sw')) \<and> rx_idle sen sw' \<and>
        delivered (events sw') = delivered (events sw) @ concat (map (snd \<circ> snd) fs)))"
proof (intro conjI allI impI)
  show "\<exists>w'. sends en w fs w'" using sends_exists [OF assms(1-4,10)] .
  fix w' pieces
  assume "sends en w fs w'" and ps: "concat pieces = sent_bytes (events w')" "list_all (\<lambda>b. length b < 2 ^ 31) pieces"
  then obtain gs where gs: "client_ready w'" "fr_seq False gs" "map fr_written gs = fs" "out_stream w' = out_stream w @ concat (map fr_wire gs)"
    using sends_frames [OF _ progressing_socket [OF assms(1)] assms(2-4,10)] by blast
  have "concat pieces = concat (map fr_wire gs)"
    using gs(1,4) assms(4,5) ps(1) by (simp add: out_stream_def client_ready_def)
  moreover have "opt_validate_utf8 sen \<longrightarrow> texts_ok None gs" using assms(11) unfolding texts_ok_unkeyed [of None gs] gs(3) .
  then have "rx_due sen (rx_idle sen) sw (concat (map fr_wire gs)) (concat (map fr_payload gs))"
    using gs(2) assms(8) by (intro frames_due [OF assms(6,7) _ text_at_start [OF assms(8,9)]]) simp_all
  ultimately show "\<exists>sw'. parse_pieces sen cached sw pieces = Some (Done (0, sw')) \<and> rx_idle sen sw' \<and>
        delivered (events sw') = delivered (events sw) @ concat (map (snd \<circ> snd) fs)"
    using pieces_due [OF assms(6) _ ps(2)] unfolding gs(3) [symmetric] fr_written_payload [symmetric] by metis
qed

theorem client_write_server_receive_witness:
  "\<exists>w' sw'. sends (quiet_env False 64) (ws_established True 64 :: unit wsi) [(False, 2, [1, 2]), (True, 0, [3])] w' \<and>
    parse_pieces (quiet_env True 8) False (ws_established False 8 :: unit wsi) (map (\<lambda>b. [b]) (sent_bytes (events w'))) = Some (Done (0, sw')) \<and>
    delivered (events sw') = [1, 2, 3]"
proof -
  let ?w = "ws_established True 64 :: unit wsi" and ?en = "quiet_env False 64 :: unit env" and ?fs = "[(False, 2, [1, 2]), (True, 0, [3])] :: (bool \<times> u8 \<times> bytes) list"
  have pre: "progressing ?en" "healthy ?en" "random_ok ?en" "client_ready ?w" "sent_bytes (events ?w) = []"
    by (simp_all add: tx_ready_def socket_ok_def healthy_def random_ok_def ws_established_def wsi_zalloc_def
        quiet_env_def progressing_def issue_limit_def c_uint_def client_ready_def)
  have idle: "rx_idle (quiet_env True 8) (ws_established False 8 :: unit wsi)" by (intro established_idle) simp_all
  have fs: "frames_ok False ?fs" "opt_validate_utf8 (quiet_env True 8 :: unit env) \<longrightarrow> texts_ok None (map unkeyed ?fs)"
    by (simp_all add: unkeyed_def)
  note T = client_write_server_receive [OF pre quiet_quiet_env idle _ _ fs, of False]
  obtain w' where w': "sends ?en ?w ?fs w'" using T by auto
  have "concat (map (\<lambda>b. [b]) (sent_bytes (events w'))) = sent_bytes (events w')"
    "list_all (\<lambda>b. length b < 2 ^ 31) (map (\<lambda>b. [b]) (sent_bytes (events w')))" by (simp_all add: list_all_iff)
  then obtain sw' where "parse_pieces (quiet_env True 8) False (ws_established False 8 :: unit wsi) (map (\<lambda>b. [b]) (sent_bytes (events w'))) = Some (Done (0, sw'))"
      "delivered (events sw') = [1, 2, 3]" using T w' by fastforce
  then show ?thesis using w' by blast
qed

end
