(* ===== verification/Ws_Service.thy ===== *)
theory Ws_Service
  imports Ws_Tx Ws_Control
begin

text \<open>
  Servicing a websocket connection: what happens when its socket becomes writable
  (\<open>lws_handle_POLLOUT_event\<close> of \<open>core-net/service.c\<close> and \<open>rops_handle_POLLOUT_ws\<close>), the start and the end of its
  closing (\<open>rops_close_via_role_protocol_ws\<close>, \<open>rops_close_role_ws\<close>), keepalives (\<open>rops_issue_keepalive_ws\<close>), all of
  \<open>roles/ws/ops-ws.c\<close>, and the loop that feeds received bytes to the client's frame parser
  (\<open>lws_ws_handshake_client\<close> of \<open>roles/ws/client-ws.c\<close>).

  The user's callback for a writable connection, which may write, is a parameter that takes the
  connection and returns it.  Everything runs in the service thread.
\<close>

section \<open>Writable events\<close>

datatype lws_handling_pollout =
    LWS_HP_RET_BAIL_OK | LWS_HP_RET_BAIL_DIE | LWS_HP_RET_USER_SERVICE | LWS_HP_RET_DROP_POLLOUT

definition and_then :: "'a outcome option \<Rightarrow> ('a \<Rightarrow> 'b outcome option) \<Rightarrow> 'b outcome option" where
  "and_then m f = (case m of None \<Rightarrow> None | Some Fault \<Rightarrow> Some Fault | Some (Done x) \<Rightarrow> f x)"

lemma and_then_simps [simp]:
  "and_then None f = None" "and_then (Some Fault) f = Some Fault" "and_then (Some (Done x)) f = f x"
  by (simp_all add: and_then_def)

text \<open>Writing the first \<open>n\<close> bytes of a control payload buffer, in place: the headroom before it takes the header.\<close>

definition write_from ::
  "'e env \<Rightarrow> 'e wsi \<Rightarrow> bytes \<Rightarrow> nat \<Rightarrow> wp \<Rightarrow> (int \<times> bytes \<times> 'e wsi) outcome option" where
  "write_from en w buf n wp =
     and_then (Some (mem_load buf 0 n)) (\<lambda>body.
     and_then (lws_write en w \<lparr>tb_front = replicate LWS_PRE 0, tb_body = body\<rparr> wp) (\<lambda>(r, ub, w).
       Some (Done (r, tb_body ub @ drop n buf, w))))"

definition write_ping_buf :: "'e env \<Rightarrow> 'e wsi \<Rightarrow> nat \<Rightarrow> wp \<Rightarrow> (int \<times> 'e wsi) outcome option" where
  "write_ping_buf en w n wp =
     and_then (write_from en w (ping_payload_buf w) n wp) (\<lambda>(r, b, w). Some (Done (r, w\<lparr>ping_payload_buf := b\<rparr>)))"

definition write_pong_buf :: "'e env \<Rightarrow> 'e wsi \<Rightarrow> nat \<Rightarrow> wp \<Rightarrow> (int \<times> 'e wsi) outcome option" where
  "write_pong_buf en w n wp =
     and_then (write_from en w (pong_payload_buf w) n wp) (\<lambda>(r, b, w). Some (Done (r, w\<lparr>pong_payload_buf := b\<rparr>)))"

text \<open>Priority 3a: the close frame asked for by the close api.\<close>

definition pollout_send_close :: "'e env \<Rightarrow> 'e wsi \<Rightarrow> (lws_handling_pollout \<times> 'e wsi) outcome option" where
  "pollout_send_close en w =
     and_then (write_ping_buf en (w\<lparr>waiting_to_send_close_frame := False\<rparr>) (unat (close_in_ping_buffer_len w)) LWS_WRITE_CLOSE)
       (\<lambda>(n, w).
         if n < 0 then Some (Done (LWS_HP_RET_BAIL_DIE, w))
         else if close_needs_ack w then
           Some (Done (LWS_HP_RET_BAIL_OK,
             log_event (EvTimeout PENDING_TIMEOUT_CLOSE_ACK 5) (w\<lparr>wsi_state := LRS_AWAITING_CLOSE_ACK\<rparr>)))
         else Some (Done (LWS_HP_RET_BAIL_DIE, w\<lparr>close_needs_ack := False, wsi_state := LRS_RETURNED_CLOSE\<rparr>)))"

text \<open>Priority 3b: a pong, or the reply to the peer's close.\<close>

definition pollout_send_pong :: "'e env \<Rightarrow> 'e wsi \<Rightarrow> (lws_handling_pollout \<times> 'e wsi) outcome option" where
  "pollout_send_pong en w =
     (if \<not> payload_is_close w \<and> wsistate_pre_close w then
        Some (Done (LWS_HP_RET_BAIL_OK, w\<lparr>pong_pending_flag := False\<rparr>))
      else and_then (write_pong_buf en w (unat (pong_payload_len w))
                       (if payload_is_close w then LWS_WRITE_CLOSE else LWS_WRITE_PONG))
        (\<lambda>(n, w).
          if n < 0 then Some (Done (LWS_HP_RET_BAIL_DIE, w))
          else
            let w = w\<lparr>pong_pending_flag := False\<rparr>
            in Some (Done (if payload_is_close w then LWS_HP_RET_BAIL_DIE else LWS_HP_RET_BAIL_OK, w))))"

definition pollout_send_ping :: "'e env \<Rightarrow> 'e wsi \<Rightarrow> (lws_handling_pollout \<times> 'e wsi) outcome option" where
  "pollout_send_ping en w =
     and_then (write_ping_buf en (w\<lparr>send_check_ping := False\<rparr>) 0 LWS_WRITE_PING) (\<lambda>(n, w).
       Some (Done (if n < 0 then LWS_HP_RET_BAIL_DIE else LWS_HP_RET_BAIL_OK, w)))"

text \<open>Priority 6: whatever the extensions still have to spill.\<close>

partial_function (option) pollout_spill :: "'e env \<Rightarrow> 'e wsi \<Rightarrow> (lws_handling_pollout \<times> 'e wsi) outcome option" where
  "pollout_spill en w =
     (case lws_ext_cb_active en w LWS_EXT_CB_PACKET_TX_PRESEND ebufs_null 0 of
        (m, w, arg) \<Rightarrow>
          if m < 0 then Some (Done (LWS_HP_RET_BAIL_DIE, w))
          else if tok_len (eb_in arg) \<noteq> 0 then
            (case bind_outcome (token_load w (eb_in arg)) (\<lambda>data. lws_issue_raw en w (Some data)) of
               Fault \<Rightarrow> Some Fault
             | Done (n, w) \<Rightarrow>
                 if n < 0 \<or> n \<noteq> tok_len (eb_in arg) then Some (Done (LWS_HP_RET_BAIL_DIE, w))
                 else if m = 0 then Some (Done (LWS_HP_RET_USER_SERVICE, w\<lparr>extension_data_pending := False\<rparr>))
                 else if \<not> send_pipe_choked en (events w) then pollout_spill en w
                 else Some (Done (LWS_HP_RET_BAIL_OK, w)))
          else if m = 0 then Some (Done (LWS_HP_RET_USER_SERVICE, w\<lparr>extension_data_pending := False\<rparr>))
          else pollout_spill en w)"

definition rops_handle_POLLOUT_ws :: "'e env \<Rightarrow> 'e wsi \<Rightarrow> (lws_handling_pollout \<times> 'e wsi) outcome option" where
  "rops_handle_POLLOUT_ws en w =
     (if wsi_state w = LRS_WAITING_TO_SEND_CLOSE then pollout_send_close en w
      else if pong_pending_flag w \<or> wsi_state w = LRS_RETURNED_CLOSE \<and> payload_is_close w then pollout_send_pong en w
      else if \<not> socket_is_permanently_unusable w \<and> send_check_ping w then pollout_send_ping en w
      else if wsi_state w = LRS_RETURNED_CLOSE then Some (Done (LWS_HP_RET_USER_SERVICE, w))
      else if tx_draining_ext w then
        and_then (lws_write_null en w LWS_WRITE_CONTINUATION) (\<lambda>(n, w).
          Some (Done (if n < 0 then LWS_HP_RET_BAIL_DIE else LWS_HP_RET_BAIL_OK, w)))
      else if \<not> extension_data_pending w then Some (Done (LWS_HP_RET_USER_SERVICE, w))
      else pollout_spill en w)"

text \<open>The user's callback, with receive flow control applied afterwards as in \<open>user_callback_handle_rxflow\<close>.\<close>

type_synonym 'e writeable = "'e wsi \<Rightarrow> (int \<times> 'e wsi) outcome option"

definition lws_callback_as_writeable :: "'e env \<Rightarrow> 'e writeable \<Rightarrow> 'e wsi \<Rightarrow> (int \<times> 'e wsi) outcome option" where
  "lws_callback_as_writeable en cb w =
     (if \<not> has_callback en then Some Fault
      else
        let reason = (if role_client w then LWS_CALLBACK_CLIENT_WRITEABLE else LWS_CALLBACK_SERVER_WRITEABLE)
        in and_then (cb (log_event (EvCallback reason []) (w\<lparr>rxflow_will_be_applied := True\<rparr>))) (\<lambda>(n, w).
          let w = w\<lparr>rxflow_will_be_applied := False\<rparr>
          in if n = 0 then Some (rx_flow_control_apply en w) else Some (Done (n, w))))"

text \<open>\<open>leave_pollout_active\<close>: while the event is being handled, a request to be called when writable only sets this
  flag; it is set when such a request is among the events since the \<open>k\<close>th.\<close>

definition leave_pollout_active :: "nat \<Rightarrow> 'e wsi \<Rightarrow> bool" where
  "leave_pollout_active k w \<longleftrightarrow> EvWritable \<in> set (drop k (events w))"

text \<open>Switching the poll for writability off, unless it was asked for again.\<close>

definition pollout_one_shot :: "'e env \<Rightarrow> bool \<Rightarrow> nat \<Rightarrow> 'e wsi \<Rightarrow> bool \<times> 'e wsi" where
  "pollout_one_shot en pollfd k w =
     (if pollfd \<and> \<not> leave_pollout_active k w then
        (let (r, w) = change_pollfd_log en w LWS_POLLOUT 0 in (r \<noteq> 0, w))
      else (False, w))"

definition pollout_user_service ::
  "'e env \<Rightarrow> 'e writeable \<Rightarrow> bool \<Rightarrow> 'e wsi \<Rightarrow> (int \<times> 'e wsi) outcome option" where
  "pollout_user_service en cb pollfd w =
     (if role_client w \<and> \<not> hdr_parsing_completed w \<and> wsi_state w \<noteq> LRS_H2_WAITING_TO_SEND_HEADERS \<and>
         wsi_state w \<noteq> LRS_ISSUE_HTTP_BODY then Some (Done (0, w))
      else
        let k = length (events w)
        in and_then (lws_callback_as_writeable en cb w) (\<lambda>(n, w).
          if \<not> pollfd \<and> leave_pollout_active k w then
            (let (r, w) = change_pollfd_log en w 0 LWS_POLLOUT in Some (Done (if r \<noteq> 0 then -1 else n, w)))
          else Some (Done (n, w))))"

text \<open>\<open>pollfd\<close> says whether a poll descriptor is given (it is not for a stream of a multiplexed connection).\<close>

definition lws_handle_POLLOUT_event ::
  "'e env \<Rightarrow> 'e writeable \<Rightarrow> bool \<Rightarrow> 'e wsi \<Rightarrow> (int \<times> 'e wsi) outcome option" where
  "lws_handle_POLLOUT_event en cb pollfd w =
     (if socket_is_permanently_unusable w then Some (Done (0, w))
      else
        let k = length (events w); w = w\<lparr>could_have_pending := False\<rparr>
        in if lws_has_buffered_out w then
             and_then (Some (lws_issue_raw en w None)) (\<lambda>(r, w). Some (Done (if r < 0 then -1 else 0, w)))
           else if wsi_state w = LRS_FLUSHING_BEFORE_CLOSE then
             Some (Done (-1, w\<lparr>socket_is_permanently_unusable := True\<rparr>))
           else and_then (rops_handle_POLLOUT_ws en w) (\<lambda>(n, w).
             case n of
               LWS_HP_RET_BAIL_OK \<Rightarrow> Some (Done (0, w))
             | LWS_HP_RET_BAIL_DIE \<Rightarrow> Some (Done (-1, w))
             | _ \<Rightarrow>
                 (case pollout_one_shot en pollfd k w of (failed, w) \<Rightarrow>
                    if failed then Some (Done (-1, w))
                    else if n = LWS_HP_RET_DROP_POLLOUT then Some (Done (0, w))
                    else pollout_user_service en cb pollfd w)))"

section \<open>Closing and keepalive\<close>


definition rops_close_role_ws :: "'e env \<Rightarrow> 'e wsi \<Rightarrow> 'e wsi" where
  "rops_close_role_ws en w =
     (let w = (if rx_draining_ext w
               then w\<lparr>rx_draining_ext := False, pt_rx_draining_ext_list := remove1 (wsi_id w) (pt_rx_draining_ext_list w)\<rparr>
               else w);
          w = (if tx_draining_ext w
               then w\<lparr>tx_draining_ext := False, pt_tx_draining_ext_list := remove1 (wsi_id w) (pt_tx_draining_ext_list w)\<rparr>
               else w);
          w = w\<lparr>rx_ubuf := [], pong_payload_len := 0, pong_pending_flag := False\<rparr>
      in case lws_ext_cb_active en w LWS_EXT_CB_DESTROY ebufs_null 0 of (_, w, _) \<Rightarrow> w)"


section \<open>Feeding the client's parser\<close>

partial_function (option) handshake_client_loop ::
  "'e env \<Rightarrow> bool \<Rightarrow> 'e wsi \<Rightarrow> nat \<Rightarrow> bytes \<Rightarrow> (int \<times> nat \<times> 'e wsi) outcome option" where
  "handshake_client_loop en cached w used rest =
     (if rest = [] then Some (Done (0, used, w))
      else if rxflow_bitmap w \<noteq> 0 then
        Some (bind_outcome (lws_rxflow_cache en w (if cached then Some used else None) rest 0)
          (\<lambda>(r, w). Done (0, if r = LWSRXFC_TRIMMED then 0 else used + length rest, w)))
      else if rx_draining_ext w then
        (case (if role_client w then lws_ws_client_rx_sm en w 0 else lws_ws_rx_sm en w False False 0) of
           None \<Rightarrow> None
         | Some Fault \<Rightarrow> Some Fault
         | Some (Done (m, w')) \<Rightarrow>
             if m < 0 then Some (Done (-1, used, w')) else handshake_client_loop en cached w' used rest)
      else
        (case lws_ws_client_rx_sm en w (hd rest) of
           None \<Rightarrow> None
         | Some Fault \<Rightarrow> Some Fault
         | Some (Done (m, w')) \<Rightarrow>
             if m \<noteq> 0 then Some (Done (-1, used + 1, w'))
             else handshake_client_loop en cached w' (used + 1) (tl rest)))"

text \<open>\<open>cached\<close> says that \<open>buf\<close> is the unread part of the first segment of the receive cache; the result is the
  return value, how far \<open>*buf\<close> was advanced, and the connection.\<close>

definition lws_ws_handshake_client ::
  "'e env \<Rightarrow> 'e wsi \<Rightarrow> bool \<Rightarrow> bytes \<Rightarrow> (int \<times> nat \<times> 'e wsi) outcome option" where
  "lws_ws_handshake_client en w cached buf =
     (if wsi_state w \<noteq> LRS_WAITING_PROXY_REPLY \<and> wsi_state w \<noteq> LRS_H1C_ISSUE_HANDSHAKE \<and>
         wsi_state w \<noteq> LRS_WAITING_SERVER_REPLY \<and> \<not> role_client w then Some (Done (0, 0, w))
      else handshake_client_loop en cached w 0 buf)"

lemma client_rx_inv_frame:
  assumes "client_rx_inv en w" and "rx_frame w' = rx_frame w" and "svc_ok w'"
  shows "client_rx_inv en w'"
proof -
  have "rx_bufs_ok en w'" using assms rx_bufs_ok_frame by (auto simp: client_rx_inv_def)
  then show ?thesis using assms(1) unfolding client_rx_inv_def rx_frame_fields(1,3,5,6) [OF assms(2)] by blast
qed

lemma handshake_client_loop_ok:
  assumes "client_rx_inv en w" and "has_callback en"
  shows "\<exists>r k w'. handshake_client_loop en cached w used rest = Some (Done (r, k, w')) \<and> k \<le> used + length rest \<and>
    (r = 0 \<longrightarrow> client_rx_inv en w')"
  using assms(1)
proof (induction rest arbitrary: w used)
  case Nil
  then show ?case by (simp add: handshake_client_loop.simps)
next
  case (Cons c rest)
  have b: "rx_bufs_ok en w" using Cons.prems by (simp add: client_rx_inv_def)
  show ?case
  proof (cases "rxflow_bitmap w = 0")
    case True
    obtain m w1 where m: "lws_ws_client_rx_sm en w c = Some (Done (m, w1))" "m = 0 \<longrightarrow> client_rx_inv en w1"
      using lws_ws_client_rx_sm_safe [OF Cons.prems assms(2)] by blast
    show ?thesis
    proof (cases "m = 0")
      case m0: True
      have "handshake_client_loop en cached w used (c # rest) = handshake_client_loop en cached w1 (used + 1) rest"
        using True m(1) m0 b by (simp add: handshake_client_loop.simps [of en cached w] rx_bufs_ok_def)
      then show ?thesis using Cons.IH [of w1 "used + 1"] m(2) m0 by simp
    qed (use True m(1) b in \<open>simp add: handshake_client_loop.simps [of en cached w] rx_bufs_ok_def\<close>)
  next
    case False
    obtain r w1 where c: "lws_rxflow_cache en w (if cached then Some used else None) (c # rest) 0 = Done (r, w1)"
      "rx_frame w1 = rx_frame w" "svc_ok w1"
      using lws_rxflow_cache_ok [OF rx_bufs_ok_svc [OF b], of "c # rest"] by blast
    then show ?thesis using False client_rx_inv_frame [OF Cons.prems c(2,3)]
      by (simp add: handshake_client_loop.simps [of en cached w])
  qed
qed

section \<open>Control frames on the wire\<close>

definition tx_env_ok :: "'e env \<Rightarrow> bool" where
  "tx_env_ok en \<longleftrightarrow> socket_ok en \<and> healthy en \<and> random_ok en"

lemma write_from_control:
  assumes "ctl_ready w" and "tx_env_ok en" and "ctl_wp wp op" and "n \<le> length buf" and "n \<le> 125"
  shows "\<exists>r b w'. write_from en w buf n wp = Some (Done (r, b, w')) \<and> 0 \<le> r \<and> length b = length buf \<and>
    tx_frame_of w' = tx_frame_of (tx_keyed en n w) \<and> buflist_ok (buflist_out w') \<and>
    out_stream w' = out_stream w @ ws_frame True op (tx_key en w) (take n buf)"
proof -
  let ?ub = "\<lparr>tb_front = replicate LWS_PRE 0, tb_body = take n buf\<rparr>"
  have ok: "socket_ok en" "healthy en" "random_ok en" using assms(2) by (simp_all add: tx_env_ok_def)
  have "LWS_PRE \<le> length (tb_front ?ub)" "length (tb_body ?ub) \<le> 125" using assms(5) by simp_all
  from lws_write_control [OF assms(1) ok assms(3) this] obtain r ub' w' where
    "lws_write en w ?ub wp = Some (Done (r, ub', w'))" "0 \<le> r" "length (tb_body ub') = length (tb_body ?ub)" "tx_frame_of w' = tx_frame_of (tx_keyed en (length (tb_body ?ub)) w)"
    "buflist_ok (buflist_out w')" "out_stream w' = out_stream w @ ws_frame True op (tx_key en w) (tb_body ?ub)"
    by blast
  then show ?thesis using assms(4) by (simp add: write_from_def mem_load_def min_absorb2)
qed

text \<open>What the output layer leaves alone is enough for the receiver and for the sender's control state.\<close>

lemma rx_idle_iff:
  "rx_idle en w \<longleftrightarrow> rx_bufs_ok en w \<and> rx_ubuf_head w = 0 \<and> calm w \<and> msg_inv w \<and> lws_rx_parse_state w = LWS_RXPS_NEW"
  by (auto simp: rx_idle_def server_rx_inv_def)

lemma tx_frame_rx_idle:
  assumes "tx_frame_of w' = tx_frame_of w" and "rx_idle en w"
  shows "rx_idle en w'"
proof -
  have "rx_idle en (tx_frame_of v) = rx_idle en v" for v :: "'a wsi"
    by (simp add: rx_idle_iff tx_frame_of_def rx_bufs_ok_def svc_ok_def calm_def msg_inv_def)
  then show ?thesis using assms by metis
qed

lemma tx_frame_control:
  assumes "tx_frame_of w' = tx_frame_of w"
  shows "close_needs_ack w' = close_needs_ack w" "payload_is_close w' = payload_is_close w"
    "waiting_to_send_close_frame w' = waiting_to_send_close_frame w" "pong_payload_len w' = pong_payload_len w"
  using arg_cong [OF assms, of close_needs_ack] arg_cong [OF assms, of payload_is_close]
    arg_cong [OF assms, of waiting_to_send_close_frame] arg_cong [OF assms, of pong_payload_len]
  by (simp_all add: tx_frame_of_def)

lemma tx_frame_events: "tx_frame_of w' = tx_frame_of w \<Longrightarrow> other_events (events w') = other_events (events w)"
  by (drule arg_cong [of _ _ events]) (simp add: tx_frame_of_def)

lemma ctl_ready_view:
  assumes "tx_view w' = tx_view w" and "ctl_ready w" and "wsi_state w' \<noteq> LRS_FLUSHING_BEFORE_CLOSE"
  shows "ctl_ready w'" "role_client w' = role_client w" "socket_is_permanently_unusable w' = socket_is_permanently_unusable w"
    "buflist_out w' = buflist_out w"
  using assms by (simp_all add: tx_view_def ctl_ready_def)

lemma ctl_ready_simps [simp]:
  "ctl_ready (w\<lparr>could_have_pending := a1\<rparr>) = ctl_ready w" "ctl_ready (w\<lparr>waiting_to_send_close_frame := a2\<rparr>) = ctl_ready w"
  "ctl_ready (log_event e w) = ctl_ready w" "ctl_ready (w\<lparr>ping_payload_buf := a3\<rparr>) = ctl_ready w"
  "ctl_ready (w\<lparr>close_in_ping_buffer_len := a4\<rparr>) = ctl_ready w" "ctl_ready (w\<lparr>close_needs_ack := a5\<rparr>) = ctl_ready w"
  "ctl_ready (w\<lparr>send_check_ping := a6\<rparr>) = ctl_ready w"
  by (simp_all add: ctl_ready_def log_event_def)

lemma out_stream_service [simp]:
  "out_stream (w\<lparr>waiting_to_send_close_frame := a1\<rparr>) = out_stream w" "out_stream (w\<lparr>ping_payload_buf := a2\<rparr>) = out_stream w"
  "out_stream (w\<lparr>pong_payload_buf := a3\<rparr>) = out_stream w" "out_stream (w\<lparr>wsi_state := a4\<rparr>) = out_stream w"
  "out_stream (w\<lparr>pong_pending_flag := a5\<rparr>) = out_stream w" "out_stream (w\<lparr>close_needs_ack := a6\<rparr>) = out_stream w"
  by (simp_all add: out_stream_def)

lemma ctl_ready_not_buffered: "ctl_ready w \<Longrightarrow> \<not> lws_has_buffered_out w"
  by (simp add: ctl_ready_def lws_has_buffered_out_def)


text \<open>Sending what the receiver stashed: a pong, or the reply to a close.\<close>

lemma pollout_pong_step:
  assumes "ctl_ready w" and "tx_env_ok en" and "\<not> socket_is_permanently_unusable w" and "pong_pending_flag w"
    and "wsi_state w \<noteq> LRS_WAITING_TO_SEND_CLOSE" and "payload_is_close w \<or> \<not> wsistate_pre_close w"
    and "length (pong_payload_buf w) = 125" and "unat (pong_payload_len w) \<le> 125"
  defines "op \<equiv> (if payload_is_close w then LWSWSOPC_CLOSE else LWSWSOPC_PONG)"
  shows "\<exists>b v w'. lws_handle_POLLOUT_event en cb pollfd w = Some (Done (if payload_is_close w then -1 else 0, w')) \<and>
    w' = v\<lparr>pong_payload_buf := b, pong_pending_flag := False\<rparr> \<and> length b = 125 \<and>
    tx_frame_of v = tx_frame_of (tx_keyed en (unat (pong_payload_len w)) w) \<and>
    out_stream w' = out_stream w @ ws_frame True op (tx_key en w) (take (unat (pong_payload_len w)) (pong_payload_buf w))"
proof -
  let ?w = "w\<lparr>could_have_pending := False\<rparr>" and ?n = "unat (pong_payload_len w)"
  let ?wp = "if payload_is_close w then LWS_WRITE_CLOSE else LWS_WRITE_PONG"
  have "ctl_wp ?wp op" "ctl_ready ?w" using assms(1) by (simp_all add: ctl_wp_def op_def)
  from write_from_control [OF this(2) assms(2) this(1), of ?n "pong_payload_buf w"] obtain r b v where
    v: "write_from en ?w (pong_payload_buf w) ?n ?wp = Some (Done (r, b, v))" "0 \<le> r" "length b = 125"
      "tx_frame_of v = tx_frame_of (tx_keyed en ?n ?w)"
      "out_stream v = out_stream w @ ws_frame True op (tx_key en ?w) (take ?n (pong_payload_buf w))"
    using assms(7,8) by auto
  have k: "tx_key en ?w = tx_key en w" "tx_frame_of (tx_keyed en ?n ?w) = tx_frame_of (tx_keyed en ?n w)"
    by (simp_all add: tx_key_def tx_keyed_def tx_frame_of_def)
  have pc: "payload_is_close v = payload_is_close w"
    using tx_frame_control(2) [OF v(4)] by (simp add: tx_keyed_def)
  let ?w' = "v\<lparr>pong_payload_buf := b, pong_pending_flag := False\<rparr>"
  have "pollout_send_pong en ?w =
      Some (Done (if payload_is_close w then LWS_HP_RET_BAIL_DIE else LWS_HP_RET_BAIL_OK, ?w'))"
    using assms(6) v(1,2) pc by (auto simp: pollout_send_pong_def write_pong_buf_def)
  then have "rops_handle_POLLOUT_ws en ?w =
      Some (Done (if payload_is_close w then LWS_HP_RET_BAIL_DIE else LWS_HP_RET_BAIL_OK, ?w'))"
    using assms(4,5) by (simp add: rops_handle_POLLOUT_ws_def)
  moreover have "\<not> lws_has_buffered_out ?w" "wsi_state ?w \<noteq> LRS_FLUSHING_BEFORE_CLOSE"
    using assms(1) ctl_ready_not_buffered [of ?w] by (simp_all add: ctl_ready_def)
  ultimately have "lws_handle_POLLOUT_event en cb pollfd w = Some (Done (if payload_is_close w then -1 else 0, ?w'))"
    using assms(3) by (simp add: lws_handle_POLLOUT_event_def)
  then show ?thesis using v k by (intro exI [of _ b] exI [of _ v] exI [of _ ?w']) simp
qed



lemma established_ctl_ready: "ctl_ready (ws_established c sz)"
  by (simp add: ctl_ready_def ws_established_def wsi_zalloc_def)



lemma quiet_tx_env_ok: "tx_env_ok (quiet_env v sz)"
  by (simp add: tx_env_ok_def socket_ok_def healthy_def random_ok_def quiet_env_def)

lemma established_server_idle: "rx_idle (quiet_env True 64) (ws_established False 64)"
  by (intro established_idle) simp_all

lemmas established_simps = ws_established_def wsi_zalloc_def quiet_env_def rx_size_def out_stream_def svc_ok_def

section \<open>A control frame while an extension drains\<close>





text \<open>The frame such a write puts out.\<close>

definition drained_keyed :: "'e env \<Rightarrow> nat \<Rightarrow> 'e wsi \<Rightarrow> 'e wsi" where
  "drained_keyed en n w = (if role_client w then w\<lparr>mask := get_random en (events w) 4, mask_idx := of_nat n\<rparr> else w)"

lemma drained_keyed_simps [simp]:
  "out_stream (drained_keyed en n w) = out_stream w" "buflist_out (drained_keyed en n w) = buflist_out w"
  "nwsi_buffered_out (drained_keyed en n w) = nwsi_buffered_out w" "clean_buffer (drained_keyed en n w) = clean_buffer w"
  "deferred_transaction_completed (drained_keyed en n w) = deferred_transaction_completed w"
  "wsi_state (drained_keyed en n w) = wsi_state w" "count_act_ext (drained_keyed en n w) = count_act_ext w"
  "h2_encapsulation (drained_keyed en n w) = h2_encapsulation w" "tx_draining_ext (drained_keyed en n w) = tx_draining_ext w"
  "h2_stream_carries_ws (drained_keyed en n w) = h2_stream_carries_ws w"
  by (simp_all add: drained_keyed_def out_stream_def)



section \<open>Properties\<close>

text \<open>C4. Without a negotiated extension, the client's receive path is total and memory safe: for every buffer of
  received bytes, however it splits the server's frames, whatever the user's callback does and whether or not
  it stops the flow, the call returns, without reading or writing outside a buffer and without failing an
  assertion, having used no more than the buffer; unless the connection is to be dropped the invariant
  holds again, so the bounds hold for every input stream.  The invariant includes that no extension is active
  (\<open>count_act_ext = 0\<close>): with permessage-deflate negotiated the client's receive loop may not return, which is
  shown separately.\<close>

theorem lws_ws_handshake_client_safe:
  assumes "client_rx_inv en w" and "has_callback en"
  shows "\<exists>r k w'. lws_ws_handshake_client en w cached buf = Some (Done (r, k, w')) \<and> k \<le> length buf \<and>
    (r = 0 \<longrightarrow> client_rx_inv en w')"
  using handshake_client_loop_ok [OF assms, of cached 0 buf] assms(1) by (simp add: lws_ws_handshake_client_def)

theorem lws_ws_handshake_client_safe_witness:
  "\<exists>r k w'. lws_ws_handshake_client (quiet_env True 64) (ws_established True 64 :: unit wsi) False [0x81, 0x02, 1] =
       Some (Done (r, k, w')) \<and> k \<le> 3"
  using lws_ws_handshake_client_safe [OF client_established_inv, of 64 True False "[0x81, 0x02, 1]"]
  by (fastforce simp: quiet_env_def)

text \<open>C25. A ping is answered: on an established server connection without extensions, between two frames and with
  no pong or close reply waiting to be sent (a ping that arrives while one waits is dropped), after a ping frame
  whose payload fits the receive buffer of the protocol has been received, the next writable event puts
  a pong frame with exactly the ping's payload on the wire and the server is ready for the next frame.
  The user's callback is not called: nothing happens but sends and requests to be called when writable.\<close>

theorem ping_is_answered_on_the_wire:
  assumes "rx_idle en w" and "ctl_ready w" and "tx_env_ok en" and "\<not> role_client w"
    and "\<not> pong_pending_flag w" and "\<not> payload_is_close w" and "\<not> socket_is_permanently_unusable w"
    and "length key = 4" and "length pl \<le> 125" and "length pl \<le> rx_size en"
  shows "\<exists>w1 w2. lws_parse_ws en w cached (ws_frame True LWSWSOPC_PING (Some key) pl) =
      Some (Done (0, length (ws_frame True LWSWSOPC_PING (Some key) pl), w1)) \<and>
    lws_handle_POLLOUT_event en cb pollfd w1 = Some (Done (0, w2)) \<and>
    out_stream w2 = out_stream w @ ws_frame True LWSWSOPC_PONG None pl \<and>
    other_events (events w2) = other_events (events w) \<and> \<not> pong_pending_flag w2 \<and> rx_idle en w2"
proof -
  obtain w1 where w1: "lws_parse_ws en w cached (ws_frame True LWSWSOPC_PING (Some key) pl) =
      Some (Done (0, length (ws_frame True LWSWSOPC_PING (Some key) pl), w1))" "rx_idle en w1" "pong_pending_flag w1"
    "take (unat (pong_payload_len w1)) (pong_payload_buf w1) = pl" "events w1 = events w @ [EvWritable]"
    "tx_view w1 = tx_view w" "payload_is_close w1 = payload_is_close w" "unat (pong_payload_len w1) = length pl"
    using server_answers_ping [OF assms(1,5,8,9,10), of cached] by blast
  have idle: "wsi_state w1 = LRS_ESTABLISHED" "\<not> wsistate_pre_close w1" "length (pong_payload_buf w1) = 125"
    using rx_idle_facts [OF w1(2)] by (simp_all add: calm_def rx_bufs_ok_def)
  have r: "ctl_ready w1" "role_client w1 = role_client w" "\<not> socket_is_permanently_unusable w1" "buflist_out w1 = buflist_out w"
    using ctl_ready_view [OF w1(6) assms(2)] idle(1) assms(7) by simp_all
  have st: "wsi_state w1 \<noteq> LRS_WAITING_TO_SEND_CLOSE" "payload_is_close w1 \<or> \<not> wsistate_pre_close w1" "\<not> payload_is_close w1"
    using idle w1(7) assms(6) by simp_all
  have len: "unat (pong_payload_len w1) \<le> 125" using w1(8) assms(9) by simp
  obtain b v w2 where w2: "lws_handle_POLLOUT_event en cb pollfd w1 = Some (Done (0, w2))"
    "w2 = v\<lparr>pong_payload_buf := b, pong_pending_flag := False\<rparr>" "length b = 125"
    "tx_frame_of v = tx_frame_of (tx_keyed en (unat (pong_payload_len w1)) w1)"
    "out_stream w2 = out_stream w1 @ ws_frame True LWSWSOPC_PONG (tx_key en w1) pl"
    using pollout_pong_step [OF r(1) assms(3) r(3) w1(3) st(1,2) idle(3) len, of cb pollfd] st(3) w1(4) by auto
  have "rx_idle en (tx_keyed en (unat (pong_payload_len w1)) w1)"
    using w1(2) assms(4) r(2) by (simp add: tx_keyed_def rx_idle_iff rx_bufs_ok_def svc_ok_def calm_def msg_inv_def)
  note tx_frame_rx_idle [OF w2(4) this]
  then have "rx_idle en w2" using w2(2,3)
    by (simp add: rx_idle_iff rx_bufs_ok_def svc_ok_def calm_def msg_inv_def)
  moreover have "out_stream w1 = out_stream w" using w1(5) r(4) by (simp add: out_stream_def)
  moreover have "other_events (events w2) = other_events (events w)"
    using tx_frame_events [OF w2(4)] w1(5) w2(2) by (simp add: tx_keyed_def)
  ultimately show ?thesis using w1(1) w2(1,2,5) r(2) assms(4)
    by (intro exI [of _ w1] exI [of _ w2]) (simp add: tx_key_def)
qed

theorem ping_is_answered_on_the_wire_witness:
  "\<exists>k w1 w2. lws_parse_ws (quiet_env True 64) (ws_established False 64 :: unit wsi) False
      (ws_frame True LWSWSOPC_PING (Some [1, 2, 3, 4]) [7, 7]) = Some (Done (0, k, w1)) \<and>
    lws_handle_POLLOUT_event (quiet_env True 64) (\<lambda>w. Some (Done (0, w))) True w1 = Some (Done (0, w2)) \<and>
    out_stream w2 = [0x8a, 2, 7, 7] \<and> other_events (events w2) = []"
proof -
  let ?w = "ws_established False 64 :: unit wsi" and ?en = "quiet_env True 64 :: unit env"
  have pre: "length ([7, 7] :: bytes) \<le> rx_size ?en" "\<not> pong_pending_flag ?w" "\<not> payload_is_close ?w"
    "\<not> role_client ?w" "\<not> socket_is_permanently_unusable ?w" and key: "length ([1, 2, 3, 4] :: bytes) = 4"
    by (simp_all add: established_simps)
  have out: "out_stream ?w @ ws_frame True LWSWSOPC_PONG None [7, 7] = [0x8a, 2, 7, 7]" "other_events (events ?w) = []"
    by (simp_all add: established_simps ws_frame_def ws_header_def ws_first_def ws_len_def)
  show ?thesis
    using ping_is_answered_on_the_wire [OF established_server_idle established_ctl_ready quiet_tx_env_ok pre(4,2,3,5) key _ pre(1),
        of False "\<lambda>w. Some (Done (0, w))" True] unfolding out by fastforce
qed

text \<open>C26. The close handshake, started by the peer: after its close frame has been received the next
  writable event puts the server's close frame on the wire, with the peer's status code and reason (the code
  replaced by 1002 when the peer may not send it), and the connection ends.  The reason is valid UTF-8 and fits
  the receive buffer of the protocol, no extension is active, and the user's callback returns 0 for the close.\<close>

theorem peer_close_is_returned_on_the_wire:
  assumes "rx_idle en w" and "quiet en" and "ctl_ready w" and "tx_env_ok en" and "\<not> role_client w"
    and "\<not> peer_has_sent_close w" and "\<not> socket_is_permanently_unusable w"
    and "length key = 4" and "length pl \<le> 125" and "length pl \<le> rx_size en" and "fst (lws_check_utf8 0 (drop 2 pl)) = 0"
  shows "\<exists>w1 w2. lws_parse_ws en w cached (ws_frame True LWSWSOPC_CLOSE (Some key) pl) =
      Some (Done (0, length (ws_frame True LWSWSOPC_CLOSE (Some key) pl), w1)) \<and>
    lws_handle_POLLOUT_event en cb pollfd w1 = Some (Done (-1, w2)) \<and>
    out_stream w2 = out_stream w @ ws_frame True LWSWSOPC_CLOSE None (close_reply server_close_code_bad pl)"
proof -
  have nb: "\<not> lws_has_buffered_out w" using assms(3) by (rule ctl_ready_not_buffered)
  let ?reply = "close_reply server_close_code_bad pl"
  obtain w1 where w1: "lws_parse_ws en w cached (ws_frame True LWSWSOPC_CLOSE (Some key) pl) =
      Some (Done (0, length (ws_frame True LWSWSOPC_CLOSE (Some key) pl), w1))" "wsi_state w1 = LRS_RETURNED_CLOSE"
    "payload_is_close w1" "pong_pending_flag w1" "take (unat (pong_payload_len w1)) (pong_payload_buf w1) = ?reply"
    "events w1 = events w @ [EvCallback LWS_CALLBACK_WS_PEER_INITIATED_CLOSE ?reply, EvWritable]" "tx_view w1 = tx_view w"
    "unat (pong_payload_len w1) = length pl" "length (pong_payload_buf w1) = 125"
    using server_returns_close [OF assms(1,2,6) nb assms(8-11), of cached] by blast
  have r: "ctl_ready w1" "role_client w1 = role_client w" "\<not> socket_is_permanently_unusable w1" "buflist_out w1 = buflist_out w"
    using ctl_ready_view [OF w1(7) assms(3)] w1(2) assms(7) by simp_all
  have st: "wsi_state w1 \<noteq> LRS_WAITING_TO_SEND_CLOSE" "payload_is_close w1 \<or> \<not> wsistate_pre_close w1"
    "unat (pong_payload_len w1) \<le> 125" using w1(2,3,8) assms(9) by simp_all
  obtain w2 where "lws_handle_POLLOUT_event en cb pollfd w1 = Some (Done (-1, w2))"
    "out_stream w2 = out_stream w1 @ ws_frame True LWSWSOPC_CLOSE (tx_key en w1) ?reply"
    using pollout_pong_step [OF r(1) assms(4) r(3) w1(4) st(1,2) w1(9) st(3), of cb pollfd] w1(3,5) by auto
  moreover have "out_stream w1 = out_stream w" using w1(6) r(4) by (simp add: out_stream_def sent_bytes_def)
  ultimately show ?thesis using w1(1) r(2) assms(5)
    by (intro exI [of _ w1] exI [of _ w2]) (simp add: tx_key_def)
qed

theorem peer_close_is_returned_on_the_wire_witness:
  "\<exists>k w1 w2. lws_parse_ws (quiet_env True 64) (ws_established False 64 :: unit wsi) False
      (ws_frame True LWSWSOPC_CLOSE (Some [1, 2, 3, 4]) [3, 237, 104, 105]) = Some (Done (0, k, w1)) \<and>
    lws_handle_POLLOUT_event (quiet_env True 64) (\<lambda>w. Some (Done (0, w))) True w1 = Some (Done (-1, w2)) \<and>
    out_stream w2 = [0x88, 4, 3, 234, 104, 105]"
proof -
  let ?w = "ws_established False 64 :: unit wsi" and ?en = "quiet_env True 64 :: unit env"
  have pre: "length ([3, 237, 104, 105] :: bytes) \<le> rx_size ?en" "\<not> peer_has_sent_close ?w"
    "\<not> role_client ?w" "\<not> socket_is_permanently_unusable ?w" and key: "length ([1, 2, 3, 4] :: bytes) = 4"
    by (simp_all add: established_simps)
  have u: "fst (lws_check_utf8 0 (drop 2 [3, 237, 104, 105])) = 0" by code_simp
  have r: "close_reply server_close_code_bad [3, 237, 104, 105] = [3, 234, 104, 105]" by code_simp
  have out: "out_stream ?w @ ws_frame True LWSWSOPC_CLOSE None [3, 234, 104, 105] = [0x88, 4, 3, 234, 104, 105]"
    by (simp add: established_simps ws_frame_def ws_header_def ws_first_def ws_len_def)
  show ?thesis
    using peer_close_is_returned_on_the_wire [OF established_server_idle quiet_quiet_env established_ctl_ready quiet_tx_env_ok
        pre(3,2,4) key _ pre(1) u, of False "\<lambda>w. Some (Done (0, w))" True] unfolding r out by fastforce
qed







end
