(* ===== verification/Http_Lextable.thy ===== *)
theory Http_Lextable
  imports Lws_Prelude
begin

text \<open>
  The table that drives the recognition of header names: \<open>roles/http/lextable.h\<close> in the variant with websocket,
  http/2 and the uncommon headers, and the step of \<open>lws_parse\<close> (\<open>roles/http/parsers.c\<close>) from one position of the table to
  the next.  A check that runs over the whole table shows that a walk never leaves it.
\<close>

section \<open>The table\<close>

text \<open>A state is a byte with bit 7 set (that character goes on to the next byte), a list of three-byte branches (a
  character and the distance to its target) closed by 8, or a two-byte marker below \<open>8 * 256\<close> with the token found.\<close>

definition lex_rows_0 :: "int list list" where
  "lex_rows_0 = [
    [103, 64, 0, 112, 66, 0, 104, 81, 0, 99, 93, 0, 117, 126, 0, 111, 141, 0, 13, 152, 0, 97, 173, 0, 105, 202,
      0, 100, 115, 1, 114, 124, 1, 101, 200, 1, 102, 228, 1, 108, 6, 2, 115, 75, 2, 116, 105, 2, 120, 138, 2,
      109, 20, 3, 118, 109, 3, 119, 122, 3],
    [58, 50, 4, 8, 229, 244, 160, 0, 0, 111, 13, 0, 114, 236, 0, 97, 122, 3, 117, 124, 3, 8, 243, 244, 160, 0,
      1, 111, 10, 0, 116, 83, 0, 101, 121, 2, 8, 243, 244, 186, 0, 3, 111, 7, 0, 97, 216, 0, 8, 110, 7, 0, 111,
      237, 0, 8, 110, 7, 0, 116, 236, 0],
    [8, 229, 227, 244, 105, 7, 0, 32, 83, 2, 8, 239, 238, 186, 0, 4, 112, 10, 0, 114, 34, 2, 115, 8, 3, 8, 231,
      242, 225, 228, 229, 186, 0, 5, 114, 7, 0, 112, 97, 2, 8, 233, 231, 233, 238, 186, 0, 6, 138, 0, 8, 244,
      240, 47, 7, 0, 50, 176, 3, 8]]"

definition lex_rows_1 :: "int list list" where
  "lex_rows_1 = [
    [177, 174, 49, 7, 0, 48, 252, 1, 8, 160, 0, 15, 99, 13, 0, 117, 138, 0, 103, 231, 0, 108, 232, 0, 8, 227,
      229, 112, 7, 0, 115, 52, 2, 8, 244, 58, 7, 0, 45, 55, 0, 8, 0, 17, 230, 173, 109, 13, 0, 110, 32, 0, 114,
      42, 1, 117, 46, 1, 8, 111, 7, 0],
    [97, 26, 1, 8, 228, 233, 230, 233, 229, 228, 173, 243, 233, 238, 227, 229, 186, 0, 19, 239, 238, 229, 173,
      237, 225, 244, 227, 232, 186, 0, 20, 101, 13, 0, 108, 20, 0, 114, 142, 0, 99, 20, 2, 8, 238, 227, 239, 228,
      233, 238, 231, 186, 0, 21, 225, 238, 231, 245, 225, 231],
    [229, 186, 0, 22, 97, 7, 0, 111, 30, 2, 8, 231, 237, 225, 186, 0, 23, 227, 232, 229, 173, 227, 239, 238,
      244, 242, 239, 236, 186, 0, 24, 244, 232, 239, 242, 233, 250, 225, 244, 233, 239, 238, 186, 0, 25, 235,
      233, 229, 186, 0, 26, 229, 238, 244, 173, 108, 16, 0, 116, 30, 0]]"

definition lex_rows_2 :: "int list list" where
  "lex_rows_2 = [
    [100, 76, 0, 101, 86, 0, 114, 111, 0, 8, 101, 10, 0, 97, 86, 0, 111, 92, 0, 8, 238, 231, 244, 232, 186, 0,
      27, 249, 240, 229, 186, 0, 28, 97, 7, 0, 101, 60, 2, 8, 244, 229, 186, 0, 29, 97, 7, 0, 101, 182, 0, 8,
      238, 231, 229, 186, 0, 30, 225, 238],
    [231, 229, 243, 186, 0, 41, 229, 186, 0, 43, 236, 239, 247, 186, 0, 44, 233, 243, 240, 239, 243, 233, 244,
      233, 239, 238, 186, 0, 45, 238, 227, 239, 228, 233, 238, 231, 186, 0, 46, 238, 231, 245, 225, 231, 229,
      186, 0, 47, 227, 225, 244, 233, 239, 238, 186, 0, 48, 225, 238, 231],
    [229, 186, 0, 49, 116, 7, 0, 120, 9, 0, 8, 225, 231, 186, 0, 50, 240, 101, 7, 0, 105, 9, 0, 8, 227, 244,
      186, 0, 51, 242, 229, 243, 186, 0, 52, 242, 239, 237, 186, 0, 53, 244, 227, 232, 186, 0, 54, 225, 238, 231,
      229, 186, 0, 55, 238, 237, 239, 228, 233, 230]]"

definition lex_rows_3 :: "int list list" where
  "lex_rows_3 = [
    [233, 229, 228, 173, 243, 233, 238, 227, 229, 186, 0, 56, 97, 10, 0, 105, 21, 0, 111, 23, 0, 8, 243, 244,
      173, 237, 239, 228, 233, 230, 233, 229, 228, 186, 0, 57, 238, 235, 186, 0, 58, 227, 225, 244, 233, 239,
      238, 186, 0, 59, 102, 10, 0, 116, 20, 0, 112, 136, 1, 8],
    [114, 7, 0, 101, 202, 0, 8, 229, 243, 232, 186, 0, 63, 242, 249, 173, 225, 230, 244, 229, 242, 186, 0, 64,
      101, 7, 0, 116, 6, 1, 8, 114, 10, 0, 116, 13, 0, 99, 107, 1, 8, 246, 229, 242, 186, 0, 65, 173, 227, 239,
      239, 235, 233, 229, 186, 0, 66, 114, 7, 0],
    [101, 69, 1, 8, 225, 238, 243, 230, 229, 242, 173, 229, 238, 227, 239, 228, 233, 238, 231, 186, 0, 68, 233,
      173, 225, 242, 231, 243, 0, 76, 160, 0, 79, 173, 102, 10, 0, 97, 29, 0, 114, 20, 1, 8, 239, 242, 247, 225,
      242, 228, 229, 228, 173, 230, 239, 242, 186, 0, 80, 0, 81]]"

definition lex_rows_4 :: "int list list" where
  "lex_rows_4 = [
    [225, 228, 160, 0, 82, 117, 7, 0, 109, 15, 0, 8, 244, 232, 173, 244, 239, 235, 229, 238, 186, 0, 86, 250,
      238, 173, 228, 243, 243, 173, 243, 233, 231, 238, 225, 244, 245, 242, 229, 186, 0, 87, 244, 233, 239, 238,
      243, 160, 0, 2, 243, 173, 227, 239, 238, 244, 242, 239, 236, 173],
    [114, 7, 0, 97, 36, 0, 8, 229, 241, 245, 229, 243, 244, 173, 232, 229, 225, 228, 229, 242, 243, 186, 0, 18,
      242, 229, 242, 186, 0, 31, 232, 225, 242, 243, 229, 244, 186, 0, 40, 236, 236, 239, 247, 173, 239, 242,
      233, 231, 233, 238, 186, 0, 42, 225, 248, 173, 230, 239, 242, 247]]"

definition lex_rows_5 :: "int list list" where
  "lex_rows_5 = [
    [225, 242, 228, 243, 186, 0, 60, 248, 249, 45, 7, 0, 32, 121, 0, 8, 225, 245, 244, 232, 101, 7, 0, 111, 14,
      0, 8, 238, 244, 233, 227, 225, 244, 229, 186, 0, 61, 242, 233, 250, 225, 244, 233, 239, 238, 186, 0, 62,
      242, 233, 227, 244, 173, 244, 242, 225, 238, 243, 240, 239],
    [242, 244, 173, 243, 229, 227, 245, 242, 233, 244, 249, 186, 0, 67, 229, 242, 173, 225, 231, 229, 238, 244,
      186, 0, 69, 97, 7, 0, 105, 9, 0, 8, 242, 249, 186, 0, 70, 225, 186, 0, 71, 247, 247, 173, 225, 245, 244,
      232, 229, 238, 244, 233, 227, 225, 244, 229, 186, 0, 72, 244],
    [227, 232, 0, 73, 244, 0, 74, 236, 229, 244, 229, 0, 75, 0, 77, 229, 225, 236, 173, 233, 240, 186, 0, 78,
      186, 0, 83, 236, 225, 249, 173, 238, 239, 238, 227, 229, 186, 0, 84, 173, 247, 229, 226, 243, 239, 227,
      235, 229, 244, 173, 100, 25, 0, 101, 29, 0, 107, 38, 0, 112, 53, 0]]"

definition lex_rows_6 :: "int list list" where
  "lex_rows_6 = [
    [97, 60, 0, 110, 65, 0, 118, 71, 0, 111, 77, 0, 8, 242, 225, 230, 244, 186, 0, 7, 248, 244, 229, 238, 243,
      233, 239, 238, 243, 186, 0, 9, 229, 249, 49, 10, 0, 50, 10, 0, 58, 35, 0, 8, 186, 0, 10, 186, 0, 11, 242,
      239, 244, 239, 227, 239, 236, 186, 0, 12],
    [227, 227, 229, 240, 244, 186, 0, 13, 239, 238, 227, 229, 186, 0, 14, 0, 32, 229, 242, 243, 233, 239, 238,
      186, 0, 33, 242, 233, 231, 233, 238, 186, 0, 34, 173, 243, 229, 244, 244, 233, 238, 231, 243, 186, 0, 16,
      97, 13, 0, 109, 20, 0, 112, 24, 0, 115, 32, 0, 8, 245],
    [244, 232, 239, 242, 233, 244, 249, 0, 35, 229, 244, 232, 239, 228, 0, 36, 97, 7, 0, 114, 27, 0, 8, 244,
      232, 0, 37, 99, 7, 0, 116, 10, 0, 8, 232, 229, 237, 229, 0, 38, 225, 244, 245, 243, 0, 39, 239, 244, 239,
      227, 239, 236, 0, 85]]"

definition lex_rows :: "int list list" where
  "lex_rows = lex_rows_0 @ lex_rows_1 @ lex_rows_2 @ lex_rows_3 @ lex_rows_4 @ lex_rows_5 @ lex_rows_6"

definition lextable_h1 :: "int list" where
  "lextable_h1 = concat lex_rows"

lemma lextable_h1_first: "lextable_h1 ! 0 = 103" "0 < length lextable_h1"
  by (simp_all add: lextable_h1_def lex_rows_def lex_rows_0_def)

abbreviation (input) FAIL_CHAR :: int where "FAIL_CHAR \<equiv> 8"

definition lex_at :: "int list \<Rightarrow> int \<Rightarrow> int outcome" where
  "lex_at t p = (if 0 \<le> p \<and> p < int (length t) then Done (t ! nat p) else Fault)"

section \<open>One character\<close>

text \<open>The result is the new position, negative when no header has this name, and whether the loop stopped at a
  marker.\<close>

function lex_step :: "int list \<Rightarrow> int \<Rightarrow> int \<Rightarrow> (int \<times> bool) outcome" where
  "lex_step t pos c =
     (if \<not> (0 \<le> pos \<and> pos < int (length t)) then Fault
      else
        let b = t ! nat pos
        in if 128 \<le> b then
             if b - 128 \<noteq> c then Done (-1, False)
             else bind_outcome (lex_at t (pos + 1)) (\<lambda>b'. Done (if b' = FAIL_CHAR then -1 else pos + 1, False))
           else if b = FAIL_CHAR then Done (-1, False)
           else if b < FAIL_CHAR then Done (pos, True)
           else if b = c then
             bind_outcome (lex_at t (pos + 1)) (\<lambda>lo. bind_outcome (lex_at t (pos + 2)) (\<lambda>hi. Done (pos + lo + 256 * hi, False)))
           else lex_step t (pos + 3) c)"
  by pat_completeness auto
termination
  by (relation "measure (\<lambda>(t, pos, c). nat (int (length t) - pos))") auto

declare lex_step.simps [simp del]

section \<open>The names the table recognises\<close>

text \<open>The strings the table was generated from: \<open>roles/http/lextable-strings.h\<close>, in the order of \<open>enum lws_token_indexes\<close>.\<close>

definition lextable_set :: "string list" where
  "lextable_set = [
     ''get '', ''post '', ''options '', ''host:'', ''connection:'', ''upgrade:'', ''origin:'',
     ''sec-websocket-draft:'', [CHR 0x0D, CHR 0x0A], ''sec-websocket-extensions:'', ''sec-websocket-key1:'',
     ''sec-websocket-key2:'', ''sec-websocket-protocol:'', ''sec-websocket-accept:'', ''sec-websocket-nonce:'',
     ''http/1.1 '', ''http2-settings:'', ''accept:'', ''access-control-request-headers:'',
     ''if-modified-since:'', ''if-none-match:'', ''accept-encoding:'', ''accept-language:'', ''pragma:'',
     ''cache-control:'', ''authorization:'', ''cookie:'', ''content-length:'', ''content-type:'', ''date:'',
     ''range:'', ''referer:'', ''sec-websocket-key:'', ''sec-websocket-version:'', ''sec-websocket-origin:'',
     '':authority'', '':method'', '':path'', '':scheme'', '':status'', ''accept-charset:'', ''accept-ranges:'',
     ''access-control-allow-origin:'', ''age:'', ''allow:'', ''content-disposition:'', ''content-encoding:'',
     ''content-language:'', ''content-location:'', ''content-range:'', ''etag:'', ''expect:'', ''expires:'',
     ''from:'', ''if-match:'', ''if-range:'', ''if-unmodified-since:'', ''last-modified:'', ''link:'',
     ''location:'', ''max-forwards:'', ''proxy-authenticate:'', ''proxy-authorization:'', ''refresh:'',
     ''retry-after:'', ''server:'', ''set-cookie:'', ''strict-transport-security:'', ''transfer-encoding:'',
     ''user-agent:'', ''vary:'', ''via:'', ''www-authenticate:'', ''patch'', ''put'', ''delete'', ''uri-args'',
     ''proxy '', ''x-real-ip:'', ''http/1.0 '', ''x-forwarded-for:'', ''connect '', ''head '', ''te:'',
     ''replay-nonce:'', '':protocol'', ''x-auth-token:'', ''x-amzn-dss-signature:'']"

definition name_bytes :: "string \<Rightarrow> int list" where
  "name_bytes s = map of_char s"

text \<open>The walk over a whole name: it ends with the token when the last character, and none before it, reaches a marker.\<close>

fun lex_walk :: "int list \<Rightarrow> int \<Rightarrow> int list \<Rightarrow> int option outcome" where
  "lex_walk T q [] =
     bind_outcome (lex_at T q) (\<lambda>b.
       if b < FAIL_CHAR then bind_outcome (lex_at T (q + 1)) (\<lambda>v. Done (Some (b * 256 + v))) else Done None)"
| "lex_walk T q (c # cs) =
     bind_outcome (lex_at T q) (\<lambda>b.
       if b < FAIL_CHAR then Done None
       else bind_outcome (lex_step T q c) (\<lambda>(q', m).
         if m then Fault else if q' < 0 then Done None else lex_walk T q' cs))"

section \<open>Reading the names off the table\<close>

text \<open>
  One pass over the table collects the names it recognises.  A state is entered by running on from the state before it
  or by a branch; \<open>pend\<close> has the branches whose targets are still ahead, with the characters read on the way (last
  first), and \<open>cur\<close> the characters read when running on, with those the branches before it in its list have taken.  The pass
  refuses a state that is entered in two ways, two branches on one character, and branches that run into a marker.
\<close>

type_synonym lex_entry = "int list \<times> int list"
type_synonym lex_pass = "int \<times> (int \<times> int list) list \<times> lex_entry option"

fun lex_enter :: "lex_pass \<Rightarrow> (lex_entry \<times> (int \<times> int list) list) option" where
  "lex_enter (p, [], cur) = map_option (\<lambda>e. (e, [])) cur"
| "lex_enter (p, (t, w) # pend, cur) =
     (case cur of None \<Rightarrow> if t = p then Some ((w, []), pend) else None
      | Some e \<Rightarrow> if t \<le> p then None else Some (e, (t, w) # pend))"

fun lex_pend :: "int \<Rightarrow> int list \<Rightarrow> (int \<times> int list) list \<Rightarrow> (int \<times> int list) list" where
  "lex_pend t w [] = [(t, w)]"
| "lex_pend t w ((t', w') # pend) = (if t \<le> t' then (t, w) # (t', w') # pend else (t', w') # lex_pend t w pend)"

fun lex_names :: "lex_pass \<Rightarrow> int list \<Rightarrow> (lex_pass \<times> (int list \<times> int) list) option" where
  "lex_names st [] = Some (st, [])"
| "lex_names st (b # bs) =
     (case lex_enter st of None \<Rightarrow> None
      | Some ((w, seen), pend) \<Rightarrow>
          if 128 \<le> b then
            if b - 128 \<in> set seen then None else lex_names (fst st + 1, pend, Some ((b - 128) # w, [])) bs
          else if b = FAIL_CHAR then lex_names (fst st + 1, pend, None) bs
          else if b < FAIL_CHAR then
            (case bs of [] \<Rightarrow> None
             | v # bs' \<Rightarrow>
                 if seen \<noteq> [] then None
                 else map_option (\<lambda>(st', out). (st', (rev w, b * 256 + v) # out)) (lex_names (fst st + 2, pend, None) bs'))
          else
            (case bs of
               lo # hi # bs' \<Rightarrow>
                 if b \<in> set seen then None
                 else lex_names (fst st + 3, lex_pend (fst st + lo + 256 * hi) (b # w) pend, Some (w, b # seen)) bs'
             | _ \<Rightarrow> None))"

fun lex_names_rows :: "lex_pass \<Rightarrow> int list list \<Rightarrow> (lex_pass \<times> (int list \<times> int) list) option" where
  "lex_names_rows st [] = Some (st, [])"
| "lex_names_rows st (r # rs) =
     (case lex_names st r of None \<Rightarrow> None
      | Some (st', out) \<Rightarrow> map_option (\<lambda>(st'', out'). (st'', out @ out')) (lex_names_rows st' rs))"

definition lex_names_exact :: "(lex_pass \<times> (int list \<times> int) list) option \<Rightarrow> (int list \<times> int) list \<Rightarrow> bool" where
  "lex_names_exact names es =
     (case names of None \<Rightarrow> False
      | Some ((p, pend, cur), out) \<Rightarrow> pend = [] \<and> cur = None \<and> sort_key snd out = es)"

definition lextable_tokens :: "(int list \<times> int) list" where
  "lextable_tokens = zip (map name_bytes lextable_set) [0..int (length lextable_set) - 1]"

lemma lextable_names_exact: "lex_names_exact (lex_names_rows (0, [], Some ([], [])) lex_rows) lextable_tokens"
  by code_simp

text \<open>Reading row by row is reading the whole table.\<close>

lemma lex_names_append:
  "lex_names st (xs @ ys) = (case lex_names st xs of None \<Rightarrow> None
     | Some (st', out) \<Rightarrow> map_option (\<lambda>(st'', out'). (st'', out @ out')) (lex_names st' ys))"
  if "lex_names st xs \<noteq> None"
  using that
proof (induction st xs rule: lex_names.induct)
  case (1 st)
  then show ?case by (simp add: option.map_ident case_prod_unfold)
next
  case (2 st b bs)
  obtain w seen pend where e: "lex_enter st = Some ((w, seen), pend)" using "2.prems" by (auto split: option.splits)
  note IH = "2.IH" [OF e refl refl]
  consider (one) "128 \<le> b" | (fail) "b = 8" | (marker) "b < 8" | (branch) "8 < b" "b < 128" by linarith
  then show ?case
  proof cases
    case one
    then show ?thesis using IH(1) "2.prems" e by (simp split: if_splits)
  next
    case fail
    then show ?thesis using IH(2) "2.prems" e by simp
  next
    case marker
    then obtain v bs' where v: "bs = v # bs'" using "2.prems" e by (auto split: list.splits)
    then show ?thesis using IH(3) [OF _ _ _ v] "2.prems" e marker
      by (auto split: if_splits option.splits simp: option.map_comp comp_def case_prod_unfold)
  next
    case branch
    then obtain lo hi bs' where v: "bs = lo # hi # bs'" using "2.prems" e by (auto split: list.splits)
    then show ?thesis using IH(4) [OF _ _ _ v refl] "2.prems" e branch by (simp split: if_splits)
  qed
qed

lemma lex_names_rows_concat: "lex_names_rows st rows = Some r \<Longrightarrow> lex_names st (concat rows) = Some r"
proof (induction st rows arbitrary: r rule: lex_names_rows.induct)
  case (2 st row rows)
  then obtain st' out r' where "lex_names st row = Some (st', out)" "lex_names_rows st' rows = Some r'"
    "r = (fst r', out @ snd r')" by (auto split: option.splits simp: case_prod_unfold)
  then show ?case using "2.IH" [of "(st', out)" st' out r'] lex_names_append [of st row "concat rows"] by (simp add: case_prod_unfold)
qed simp

text \<open>One step of a walk, by the kind of the state it is at.\<close>

lemma lex_walk_fail:
  assumes "0 \<le> q" and "q < int (length T)" and "T ! nat q = FAIL_CHAR"
  shows "lex_walk T q v = Done None"
  using assms by (cases v) (simp_all add: lex_at_def lex_step.simps [of T q])

lemma lex_walk_char:
  assumes "0 \<le> q" and "q + 1 < int (length T)" and "128 \<le> T ! nat q"
  shows "lex_walk T q [] = Done None"
    and "lex_walk T q (c # v) = (if c = T ! nat q - 128 then lex_walk T (q + 1) v else Done None)"
  using assms lex_walk_fail [of "q + 1" T v] by (auto simp: lex_at_def lex_step.simps [of T q] nat_add_distrib)

lemma lex_walk_marker:
  assumes "0 \<le> q" and "q + 1 < int (length T)" and "T ! nat q < FAIL_CHAR"
  shows "lex_walk T q [] = Done (Some (T ! nat q * 256 + T ! nat (q + 1)))" and "lex_walk T q (c # v) = Done None"
  using assms by (simp_all add: lex_at_def)

lemma lex_walk_branch:
  assumes "0 \<le> q" and "q + 3 < int (length T)" and "FAIL_CHAR < T ! nat q" "T ! nat q < 128"
  shows "lex_walk T q [] = Done None"
    and "0 \<le> q + T ! nat (q + 1) + 256 * T ! nat (q + 2) \<Longrightarrow>
      lex_walk T q (T ! nat q # v) = lex_walk T (q + T ! nat (q + 1) + 256 * T ! nat (q + 2)) v"
    and "c \<noteq> T ! nat q \<Longrightarrow> FAIL_CHAR \<le> T ! nat (q + 3) \<Longrightarrow> lex_walk T q (c # v) = lex_walk T (q + 3) (c # v)"
  using assms by (simp_all add: lex_at_def lex_step.simps [of T q])

declare lex_walk.simps [simp del]

text \<open>The states a pass has still to visit, and what it knows of each when it ends: every walk from there ends
  properly, and every name found from there is collected.\<close>

definition lex_open :: "lex_pass \<Rightarrow> (int \<times> lex_entry) set" where
  "lex_open = (\<lambda>(p, pend, cur). (\<lambda>(t, w). (t, w, [])) ` set pend \<union> Pair p ` set_option cur)"

definition lex_free :: "int list \<Rightarrow> int list \<Rightarrow> bool" where
  "lex_free seen v \<longleftrightarrow> v = [] \<or> hd v \<notin> set seen"

definition lex_covers :: "int list \<Rightarrow> (int list \<times> int) set \<Rightarrow> int \<times> lex_entry \<Rightarrow> bool" where
  "lex_covers T out = (\<lambda>(q, w, seen). (seen \<noteq> [] \<longrightarrow> FAIL_CHAR \<le> T ! nat q) \<and> 0 \<le> q \<and> q < int (length T) \<and>
     (\<forall>v. lex_free seen v \<longrightarrow> (\<exists>r. lex_walk T q v = Done r \<and> (\<forall>n. r = Some n \<longrightarrow> (rev w @ v, n) \<in> out))))"

definition lex_finds :: "int list \<Rightarrow> (int \<times> lex_entry) set \<Rightarrow> int list \<times> int \<Rightarrow> bool" where
  "lex_finds T E = (\<lambda>(x, n). \<exists>(q, w, seen) \<in> E. \<exists>v. x = rev w @ v \<and> lex_free seen v \<and> lex_walk T q v = Done (Some n))"

lemma lex_enter_open:
  "lex_enter (p, pend, cur) = Some (e, pend') \<Longrightarrow> lex_open (p, pend, cur) = insert (p, e) (lex_open (p', pend', None))"
  by (cases "(p, pend, cur)" rule: lex_enter.cases) (auto simp: lex_open_def split: option.splits if_splits)

lemma set_lex_pend [simp]: "set (lex_pend t w pend) = insert (t, w) (set pend)"
  by (induction pend rule: lex_pend.induct) auto

lemma lex_open_simps [simp]:
  "lex_open (p, pend, Some e) = insert (p, e) (lex_open (p, pend, None))"
  "lex_open (p, lex_pend t w pend, None) = insert (t, w, []) (lex_open (p, pend, None))"
  "lex_open (p, [], None) = {}"
  by (auto simp: lex_open_def)

lemma lex_open_pos: "lex_open (p, pend, None) = lex_open (p', pend, None)"
  by (simp add: lex_open_def)

lemma lex_covers_mono: "lex_covers T out e \<Longrightarrow> out \<subseteq> out' \<Longrightarrow> lex_covers T out' e"
  unfolding lex_covers_def by (auto 0 4)

lemma lex_finds_mono: "lex_finds T E x \<Longrightarrow> E \<subseteq> E' \<Longrightarrow> lex_finds T E' x"
  unfolding lex_finds_def by blast

lemma lex_coversI:
  assumes "0 \<le> q" and "q < int (length T)" and "seen \<noteq> [] \<Longrightarrow> FAIL_CHAR \<le> T ! nat q"
    and "\<exists>r. lex_walk T q [] = Done r \<and> (\<forall>n. r = Some n \<longrightarrow> (rev w, n) \<in> out)"
    and "\<And>c v. c \<notin> set seen \<Longrightarrow> \<exists>r. lex_walk T q (c # v) = Done r \<and> (\<forall>n. r = Some n \<longrightarrow> (rev w @ c # v, n) \<in> out)"
  shows "lex_covers T out (q, w, seen)"
  unfolding lex_covers_def split_conv
proof (intro conjI allI impI)
  fix v
  assume "lex_free seen v"
  then show "\<exists>r. lex_walk T q v = Done r \<and> (\<forall>n. r = Some n \<longrightarrow> (rev w @ v, n) \<in> out)"
    using assms(4,5) by (cases v) (auto simp: lex_free_def)
qed (use assms in auto)

lemma lex_coversD:
  assumes "lex_covers T out (q, w, seen)"
  shows "0 \<le> q" and "q < int (length T)" and "seen \<noteq> [] \<Longrightarrow> FAIL_CHAR \<le> T ! nat q"
    and "lex_free seen v \<Longrightarrow> \<exists>r. lex_walk T q v = Done r \<and> (\<forall>n. r = Some n \<longrightarrow> (rev w @ v, n) \<in> out)"
  using assms by (auto simp: lex_covers_def)

lemma lex_findsI:
  assumes "lex_finds T (insert (q', w', seen') E) x"
    and "\<And>v n. x = (rev w' @ v, n) \<Longrightarrow> lex_free seen' v \<Longrightarrow> lex_walk T q' v = Done (Some n) \<Longrightarrow>
      \<exists>u. rev w' @ v = rev w @ u \<and> lex_free seen u \<and> lex_walk T q u = Done (Some n)"
  shows "lex_finds T (insert (q, w, seen) E) x"
  using assms unfolding lex_finds_def by (cases x) force

lemma lex_pass_char:
  assumes "0 \<le> q" and "128 \<le> T ! nat q" and "T ! nat q - 128 \<notin> set seen" and "lex_covers T out (q + 1, (T ! nat q - 128) # w, [])"
  shows "lex_covers T out (q, w, seen)"
    and "lex_finds T (insert (q + 1, (T ! nat q - 128) # w, []) E) x \<Longrightarrow> lex_finds T (insert (q, w, seen) E) x"
proof -
  note W = lex_walk_char [OF assms(1) lex_coversD(2) [OF assms(4)] assms(2)]
  show "lex_covers T out (q, w, seen)"
    using assms lex_coversD(2,4) [OF assms(4)] by (intro lex_coversI) (auto simp: W lex_free_def)
  assume "lex_finds T (insert (q + 1, (T ! nat q - 128) # w, []) E) x"
  then show "lex_finds T (insert (q, w, seen) E) x"
    by (rule lex_findsI) (auto simp: W lex_free_def assms(3) intro!: exI [of _ "(T ! nat q - 128) # v" for v])
qed

lemma lex_pass_fail:
  assumes "0 \<le> q" and "q < int (length T)" and "T ! nat q = FAIL_CHAR"
  shows "lex_covers T out (q, w, seen)"
  using assms by (intro lex_coversI) (auto simp: lex_walk_fail)

lemma lex_pass_marker:
  assumes "0 \<le> q" and "q + 1 < int (length T)" and "T ! nat q < FAIL_CHAR" and "(rev w, T ! nat q * 256 + T ! nat (q + 1)) \<in> out"
  shows "lex_covers T out (q, w, [])"
    and "lex_finds T (insert (q, w, []) E) (rev w, T ! nat q * 256 + T ! nat (q + 1))"
  using assms by (auto intro!: lex_coversI simp: lex_walk_marker lex_finds_def lex_free_def)

lemma lex_pass_branch:
  fixes T q
  defines "t \<equiv> q + T ! nat (q + 1) + 256 * T ! nat (q + 2)"
  assumes "0 \<le> q" and "FAIL_CHAR < T ! nat q" and "T ! nat q < 128" and "T ! nat q \<notin> set seen"
    and t: "lex_covers T out (t, T ! nat q # w, [])" and n: "lex_covers T out (q + 3, w, T ! nat q # seen)"
  shows "lex_covers T out (q, w, seen)"
    and "lex_finds T (insert (t, T ! nat q # w, []) (insert (q + 3, w, T ! nat q # seen) E)) x \<Longrightarrow> lex_finds T (insert (q, w, seen) E) x"
proof -
  note W = lex_walk_branch [OF assms(2) lex_coversD(2) [OF n] assms(3,4), folded t_def]
  have Wt: "lex_walk T q (T ! nat q # v) = lex_walk T t v" for v using W(2) lex_coversD(1) [OF t] by simp
  have Wn: "lex_walk T q (c # v) = lex_walk T (q + 3) (c # v)" if "c \<noteq> T ! nat q" for c v
    using W(3) [OF that] lex_coversD(3) [OF n] by simp
  show "lex_covers T out (q, w, seen)"
  proof (rule lex_coversI)
    fix c v assume "c \<notin> set seen"
    then show "\<exists>r. lex_walk T q (c # v) = Done r \<and> (\<forall>n. r = Some n \<longrightarrow> (rev w @ c # v, n) \<in> out)"
      using lex_coversD(4) [OF t, of v] lex_coversD(4) [OF n, of "c # v"]
      by (cases "c = T ! nat q") (simp_all add: Wt Wn lex_free_def)
  qed (use assms(2,3) lex_coversD(2) [OF n] W(1) in auto)
  have n0: "lex_walk T (q + 3) [] \<noteq> Done (Some k)" for k
    using lex_coversD(1,2,3) [OF n] by (simp add: lex_walk.simps lex_at_def)
  assume "lex_finds T (insert (t, T ! nat q # w, []) (insert (q + 3, w, T ! nat q # seen) E)) x"
  then have "lex_finds T (insert (q, w, seen) (insert (q + 3, w, T ! nat q # seen) E)) x"
    by (rule lex_findsI) (auto simp: Wt lex_free_def assms(5) intro!: exI [of _ "T ! nat q # v" for v])
  then have "lex_finds T (insert (q + 3, w, T ! nat q # seen) (insert (q, w, seen) E)) x" by (simp add: insert_commute)
  then have "lex_finds T (insert (q, w, seen) (insert (q, w, seen) E)) x"
  proof (rule lex_findsI)
    fix v k assume "lex_free (T ! nat q # seen) v" "lex_walk T (q + 3) v = Done (Some k)"
    then show "\<exists>u. rev w @ v = rev w @ u \<and> lex_free seen u \<and> lex_walk T q u = Done (Some k)"
      using n0 by (cases v) (auto simp: lex_free_def Wn intro!: exI [of _ v])
  qed
  then show "lex_finds T (insert (q, w, seen) E) x" by simp
qed

lemma lex_names_sound:
  "lex_names st bs = Some ((p', [], None), out) \<Longrightarrow> T = pre @ bs \<Longrightarrow> fst st = int (length pre) \<Longrightarrow>
   (\<forall>e \<in> lex_open st. lex_covers T (set out) e) \<and> (\<forall>x \<in> set out. lex_finds T (lex_open st) x)"
proof (induction st bs arbitrary: pre out rule: lex_names.induct)
  case (2 st b bs)
  obtain w seen pend where e: "lex_enter st = Some ((w, seen), pend)" using "2.prems"(1) by (auto split: option.splits)
  note IH = "2.IH" [OF e refl refl]
  let ?q = "fst st"
  have q: "0 \<le> ?q" "?q < int (length T)" "T ! nat ?q = b" using "2.prems"(2,3) by (simp_all add: nth_append)
  have o: "lex_open st = insert (?q, w, seen) (lex_open (p, pend, None))" for p
    using lex_enter_open [of ?q "fst (snd st)" "snd (snd st)"] e by simp
  consider (one) "128 \<le> b" | (fail) "b = 8" | (marker) "b < 8" | (branch) "8 < b" "b < 128" by linarith
  then show ?case
  proof cases
    case one
    then have r: "b - 128 \<notin> set seen" "lex_names (?q + 1, pend, Some ((b - 128) # w, [])) bs = Some ((p', [], None), out)"
      using "2.prems"(1) e by (auto split: if_splits)
    note I = IH(1) [OF one r(1) r(2), of "pre @ [b]"]
    show ?thesis using I "2.prems"(2,3) r(1) one q lex_pass_char [of ?q T seen "set out" w] by (auto simp: o [of "?q + 1"])
  next
    case fail
    then have r: "lex_names (?q + 1, pend, None) bs = Some ((p', [], None), out)" using "2.prems"(1) e by simp
    show ?thesis using IH(2) [OF _ fail r, of "pre @ [b]"] "2.prems"(2,3) fail q lex_pass_fail [of ?q T]
      by (auto simp: o [of "?q + 1"] intro: lex_finds_mono)
  next
    case marker
    then obtain v bs' out' where r: "bs = v # bs'" "seen = []" "out = (rev w, b * 256 + v) # out'"
        "lex_names (?q + 2, pend, None) bs' = Some ((p', [], None), out')"
      using "2.prems"(1) e by (auto split: list.splits if_splits)
    have v: "T ! nat (?q + 1) = v" "?q + 1 < int (length T)"
      using "2.prems"(2,3) r(1) by (simp_all add: nth_append nat_add_distrib)
    show ?thesis
      using IH(3) [OF _ _ marker r(1) _ r(4), of "pre @ [b, v]"] "2.prems"(2,3) marker q r v
        lex_pass_marker [of ?q T w "set out"]
      by (auto simp: o [of "?q + 2"] intro: lex_finds_mono lex_covers_mono)
  next
    case branch
    then obtain lo hi bs' where r: "bs = lo # hi # bs'" "b \<notin> set seen"
        "lex_names (?q + 3, lex_pend (?q + lo + 256 * hi) (b # w) pend, Some (w, b # seen)) bs' = Some ((p', [], None), out)"
      using "2.prems"(1) e by (auto split: list.splits if_splits)
    have v: "T ! nat (?q + 1) = lo" "T ! nat (?q + 2) = hi"
      using "2.prems"(2,3) r(1) by (simp_all add: nth_append nat_add_distrib)
    show ?thesis
      using IH(4) [OF _ _ _ r(1) refl r(2) r(3), of "pre @ [b, lo, hi]"] "2.prems"(2,3) branch q r v
        lex_pass_branch [of ?q T seen "set out" w]
      by (auto simp: o [of "?q + 3"] insert_commute)
  qed
qed simp

text \<open>A state from which every walk ends properly, with a token of the enum.\<close>

definition lex_good :: "int \<Rightarrow> bool" where
  "lex_good q \<longleftrightarrow> (\<forall>v. \<exists>r. lex_walk lextable_h1 q v = Done r \<and> (\<forall>n. r = Some n \<longrightarrow> 0 \<le> n \<and> n < 88))"

lemma lextable_pass:
  obtains out where "lex_covers lextable_h1 (set out) (0, [], [])"
    and "\<And>x. x \<in> set out \<Longrightarrow> lex_finds lextable_h1 {(0, [], [])} x" and "sort_key snd out = lextable_tokens"
proof -
  obtain p out where "lex_names_rows (0, [], Some ([], [])) lex_rows = Some ((p, [], None), out)" "sort_key snd out = lextable_tokens"
    using lextable_names_exact by (auto simp: lex_names_exact_def split: option.splits)
  then show thesis
    using lex_names_sound [OF lex_names_rows_concat, of "(0, [], Some ([], []))" lex_rows p out lextable_h1 "[]"] that [of out]
    by (simp add: lextable_h1_def)
qed

lemma in_set_zip_upto:
  "(x, n) \<in> set (zip xs [0..int (length xs) - 1]) \<longleftrightarrow> 0 \<le> n \<and> n < int (length xs) \<and> x = xs ! nat n"
proof
  assume "0 \<le> n \<and> n < int (length xs) \<and> x = xs ! nat n"
  then show "(x, n) \<in> set (zip xs [0..int (length xs) - 1])" by (auto simp: set_zip intro!: exI [of _ "nat n"])
qed (auto simp: set_zip)

lemma lextable_set_length: "length lextable_set = 88"
  by (simp add: lextable_set_def)

lemma lextable_tokens_iff:
  "(w, n) \<in> set lextable_tokens \<longleftrightarrow> 0 \<le> n \<and> n < 88 \<and> w = name_bytes (lextable_set ! nat n)"
proof -
  have "(w, n) \<in> set lextable_tokens \<longleftrightarrow> 0 \<le> n \<and> n < int (length lextable_set) \<and> w = map name_bytes lextable_set ! nat n"
    using in_set_zip_upto [of w n "map name_bytes lextable_set"] unfolding lextable_tokens_def length_map .
  then show ?thesis by (auto simp: lextable_set_length)
qed

lemma lextable_walk_iff:
  "lex_walk lextable_h1 0 w = Done (Some n) \<longleftrightarrow> 0 \<le> n \<and> n < 88 \<and> w = name_bytes (lextable_set ! nat n)"
proof -
  obtain out where o: "lex_covers lextable_h1 (set out) (0, [], [])"
    "\<And>x. x \<in> set out \<Longrightarrow> lex_finds lextable_h1 {(0, [], [])} x" "set out = set lextable_tokens"
    using lextable_pass by (metis set_sort)
  have "lex_walk lextable_h1 0 w = Done (Some n) \<longleftrightarrow> (w, n) \<in> set out"
  proof
    assume "lex_walk lextable_h1 0 w = Done (Some n)"
    then show "(w, n) \<in> set out" using lex_coversD(4) [OF o(1), of w] by (simp add: lex_free_def)
  next
    assume "(w, n) \<in> set out"
    from o(2) [OF this] show "lex_walk lextable_h1 0 w = Done (Some n)" by (simp add: lex_finds_def)
  qed
  then show ?thesis by (simp only: o(3) lextable_tokens_iff)
qed

lemma lex_good_0: "lex_good 0"
proof -
  obtain out where o: "lex_covers lextable_h1 (set out) (0, [], [])" "set out = set lextable_tokens"
    using lextable_pass by (metis set_sort)
  show ?thesis
    using lex_coversD(4) [OF o(1)] by (force simp: lex_good_def lex_free_def o(2) lextable_tokens_iff)
qed

text \<open>What one character does to a good state.\<close>

lemma lex_good_state:
  assumes "lex_good q"
  shows "0 \<le> q" and "q < int (length lextable_h1)"
    and "lextable_h1 ! nat q < FAIL_CHAR \<Longrightarrow> q + 1 < int (length lextable_h1)"
    and "lextable_h1 ! nat q < FAIL_CHAR \<Longrightarrow> 0 \<le> lextable_h1 ! nat q * 256 + lextable_h1 ! nat (q + 1)"
    and "lextable_h1 ! nat q < FAIL_CHAR \<Longrightarrow> lextable_h1 ! nat q * 256 + lextable_h1 ! nat (q + 1) < 88"
  using spec [OF assms [unfolded lex_good_def], of "[]"] by (auto simp: lex_walk.simps lex_at_def split: if_splits)

lemma lex_good_step:
  assumes "lex_good q" and "FAIL_CHAR \<le> lextable_h1 ! nat q"
  shows "\<exists>q'. lex_step lextable_h1 q c = Done (q', False) \<and> (q' < 0 \<or> lex_good q')"
proof -
  note r = lex_good_state(1,2) [OF assms(1)]
  have w: "lex_walk lextable_h1 q (c # v) = bind_outcome (lex_step lextable_h1 q c) (\<lambda>(q', m).
         if m then Fault else if q' < 0 then Done None else lex_walk lextable_h1 q' v)" for v
    using r assms(2) by (simp add: lex_walk.simps lex_at_def)
  have g: "\<exists>r. lex_walk lextable_h1 q (c # v) = Done r \<and> (\<forall>n. r = Some n \<longrightarrow> 0 \<le> n \<and> n < 88)" for v
    using assms(1) unfolding lex_good_def by blast
  obtain q' where q': "lex_step lextable_h1 q c = Done (q', False)" using g [of "[]"] by (auto simp: w split: if_splits)
  show ?thesis using g unfolding w q' by (auto simp: q' lex_good_def not_less)
qed

lemma lex_walk_Nil: "lex_walk lextable_h1 0 [] = Done None"
  using lextable_h1_first by (auto simp: lex_walk.simps lex_at_def)

text \<open>C15. Walked from its start, one character at a time as the parser does, the generated table recognises exactly the 88
  names it was generated from, each with its own token: no other string ends at a marker.\<close>

theorem lextable_recognises:
  "lex_walk lextable_h1 0 w = Done (Some n) \<longleftrightarrow> 0 \<le> n \<and> n < int (length lextable_set) \<and> w = name_bytes (lextable_set ! nat n)"
  unfolding lextable_walk_iff by (simp add: lextable_set_def)

end
