(* ===== verification/Http_Headers.thy ===== *)
theory Http_Headers
  imports Http_Lextable
begin

text \<open>
  The header table of a connection (\<open>struct allocated_headers\<close>, \<open>roles/http/private-lib-roles-http.h\<close>) and the
  routines of \<open>roles/http/parsers.c\<close> that read it and append to it.  The table is a buffer of \<open>max_http_header_data\<close>
  bytes, an array of fragments that describe ranges of it, and for each token the first fragment of its value; further
  values of the same token continue in the fragments its chain links.

  Bytes are integers from 0 to 255; the 32-bit positions, 16-bit lengths and 8-bit fragment numbers are naturals, with
  the wrap-around of their width written out where the code decrements or increments them.
\<close>

section \<open>Data\<close>

datatype uri_path_states = URIPS_IDLE | URIPS_SEEN_SLASH | URIPS_SEEN_SLASH_DOT | URIPS_SEEN_SLASH_DOT_DOT

datatype uri_esc_states = URIES_IDLE | URIES_SEEN_PERCENT | URIES_SEEN_PERCENT_H1

text \<open>\<open>parser_state\<close> holds the token whose value is collected, or one of the states behind the tokens of the enum.\<close>

datatype lws_parser_state =
    WSI_TOKEN nat
  | WSI_TOKEN_NAME_PART
  | WSI_TOKEN_UNKNOWN_VALUE_PART
  | WSI_TOKEN_SKIPPING
  | WSI_TOKEN_SKIPPING_SAW_CR
  | WSI_PARSING_COMPLETE

fun ps_value :: "lws_parser_state \<Rightarrow> nat" where
  "ps_value (WSI_TOKEN n) = n"
| "ps_value WSI_TOKEN_NAME_PART = 97"
| "ps_value WSI_TOKEN_UNKNOWN_VALUE_PART = 98"
| "ps_value WSI_TOKEN_SKIPPING = 99"
| "ps_value WSI_TOKEN_SKIPPING_SAW_CR = 100"
| "ps_value WSI_PARSING_COMPLETE = 101"

abbreviation (input) WSI_TOKEN_COUNT :: nat where "WSI_TOKEN_COUNT \<equiv> 96"
abbreviation (input) WSI_TOKEN_UPGRADE :: nat where "WSI_TOKEN_UPGRADE \<equiv> 5"
abbreviation (input) WSI_TOKEN_ORIGIN :: nat where "WSI_TOKEN_ORIGIN \<equiv> 6"
abbreviation (input) WSI_TOKEN_CHALLENGE :: nat where "WSI_TOKEN_CHALLENGE \<equiv> 8"
abbreviation (input) WSI_TOKEN_HTTP :: nat where "WSI_TOKEN_HTTP \<equiv> 15"
abbreviation (input) WSI_TOKEN_HTTP_COOKIE :: nat where "WSI_TOKEN_HTTP_COOKIE \<equiv> 26"
abbreviation (input) WSI_TOKEN_VERSION :: nat where "WSI_TOKEN_VERSION \<equiv> 33"
abbreviation (input) WSI_TOKEN_SWORIGIN :: nat where "WSI_TOKEN_SWORIGIN \<equiv> 34"
abbreviation (input) WSI_TOKEN_HTTP_SET_COOKIE :: nat where "WSI_TOKEN_HTTP_SET_COOKIE \<equiv> 66"
abbreviation (input) WSI_TOKEN_HTTP_URI_ARGS :: nat where "WSI_TOKEN_HTTP_URI_ARGS \<equiv> 76"

record lws_fragments =
  frag_offset :: nat
  frag_len :: nat
  frag_nfrag :: nat
  frag_flags :: nat

record allocated_headers =
  ah_data :: "int list"
  ah_frags :: "lws_fragments list"
  ah_frag_index :: "nat list"
  ah_hdr_token_idx :: nat
  ah_pos :: nat
  ah_http_response :: nat
  ah_current_token_limit :: nat
  ah_unk_pos :: nat
  ah_unk_value_pos :: nat
  ah_unk_ll_head :: nat
  ah_unk_ll_tail :: nat
  ah_lextable_pos :: int
  ah_nfrag :: nat
  ah_ups :: uri_path_states
  ah_ues :: uri_esc_states
  ah_esc_stash :: int
  ah_post_literal_equal :: bool
  ah_parser_state :: lws_parser_state

definition frag_zero :: lws_fragments where
  "frag_zero = \<lparr>frag_offset = 0, frag_len = 0, frag_nfrag = 0, frag_flags = 0\<rparr>"

text \<open>A table as \<open>_lws_create_ah\<close> allocates it, around the uninitialised buffer \<open>d\<close>, and the reset before each request.\<close>

definition lws_create_ah :: "int list \<Rightarrow> allocated_headers" where
  "lws_create_ah d = \<lparr>ah_data = d, ah_frags = replicate WSI_TOKEN_COUNT frag_zero,
     ah_frag_index = replicate WSI_TOKEN_COUNT 0, ah_hdr_token_idx = 0, ah_pos = 0, ah_http_response = 0,
     ah_current_token_limit = 0, ah_unk_pos = 0, ah_unk_value_pos = 0, ah_unk_ll_head = 0, ah_unk_ll_tail = 0,
     ah_lextable_pos = 0, ah_nfrag = 0, ah_ups = URIPS_IDLE, ah_ues = URIES_IDLE, ah_esc_stash = 0,
     ah_post_literal_equal = False, ah_parser_state = WSI_TOKEN 0\<rparr>"

definition lws_header_table_reset :: "allocated_headers \<Rightarrow> allocated_headers" where
  "lws_header_table_reset ah = ah\<lparr>ah_frag_index := replicate WSI_TOKEN_COUNT 0,
     ah_frags := replicate WSI_TOKEN_COUNT frag_zero, ah_nfrag := 0, ah_pos := 0, ah_http_response := 0,
     ah_parser_state := WSI_TOKEN_NAME_PART, ah_lextable_pos := 0, ah_unk_pos := 0, ah_unk_ll_head := 0,
     ah_unk_ll_tail := 0\<rparr>"

section \<open>Checked access\<close>

definition frag_at :: "allocated_headers \<Rightarrow> nat \<Rightarrow> lws_fragments outcome" where
  "frag_at ah i = (if i < length (ah_frags ah) then Done (ah_frags ah ! i) else Fault)"

definition upd_frag :: "nat \<Rightarrow> (lws_fragments \<Rightarrow> lws_fragments) \<Rightarrow> allocated_headers \<Rightarrow> allocated_headers outcome" where
  "upd_frag i g ah = bind_outcome (frag_at ah i) (\<lambda>f. Done (ah\<lparr>ah_frags := (ah_frags ah)[i := g f]\<rparr>))"

definition index_at :: "allocated_headers \<Rightarrow> nat \<Rightarrow> nat outcome" where
  "index_at ah h = (if h < length (ah_frag_index ah) then Done (ah_frag_index ah ! h) else Fault)"

definition set_index :: "nat \<Rightarrow> nat \<Rightarrow> allocated_headers \<Rightarrow> allocated_headers outcome" where
  "set_index h n ah =
     (if h < length (ah_frag_index ah) then Done (ah\<lparr>ah_frag_index := (ah_frag_index ah)[h := n]\<rparr>) else Fault)"

text \<open>\<open>data[pos++] = c\<close>\<close>

definition put_data :: "int \<Rightarrow> allocated_headers \<Rightarrow> allocated_headers outcome" where
  "put_data c ah =
     bind_outcome (mem_store (ah_data ah) (ah_pos ah) [c]) (\<lambda>d. Done (ah\<lparr>ah_data := d, ah_pos := ah_pos ah + 1\<rparr>))"

text \<open>\<open>frags[nfrag].len++\<close> and \<open>frags[nfrag].len--\<close>, at the 16 bits of \<open>len\<close>\<close>

definition len_inc :: "allocated_headers \<Rightarrow> allocated_headers outcome" where
  "len_inc ah = upd_frag (ah_nfrag ah) (\<lambda>f. f\<lparr>frag_len := nat ((int (frag_len f) + 1) mod 65536)\<rparr>) ah"

definition len_dec :: "allocated_headers \<Rightarrow> allocated_headers outcome" where
  "len_dec ah = upd_frag (ah_nfrag ah) (\<lambda>f. f\<lparr>frag_len := nat ((int (frag_len f) - 1) mod 65536)\<rparr>) ah"

text \<open>The fragments a loop over \<open>nfrag\<close> links visits.  A chain longer than the array visits a fragment twice and has no
  end.\<close>

fun frag_chain :: "nat \<Rightarrow> lws_fragments list \<Rightarrow> nat \<Rightarrow> nat list outcome" where
  "frag_chain 0 fs n = Fault"
| "frag_chain (Suc k) fs n =
     (if \<not> n < length fs then Fault
      else if frag_nfrag (fs ! n) = 0 then Done [n]
      else bind_outcome (frag_chain k fs (frag_nfrag (fs ! n))) (\<lambda>ns. Done (n # ns)))"

definition hdr_chain :: "allocated_headers \<Rightarrow> nat \<Rightarrow> nat list outcome" where
  "hdr_chain ah n = frag_chain (length (ah_frags ah)) (ah_frags ah) n"

section \<open>Reading headers\<close>

fun hdr_fragment_walk :: "lws_fragments list \<Rightarrow> nat \<Rightarrow> nat \<Rightarrow> nat option outcome" where
  "hdr_fragment_walk fs n 0 = (if n < length fs then Done (Some n) else Fault)"
| "hdr_fragment_walk fs n (Suc k) =
     (if \<not> n < length fs then Fault
      else if frag_nfrag (fs ! n) = 0 then Done None else hdr_fragment_walk fs (frag_nfrag (fs ! n)) k)"

definition lws_hdr_fragment_length :: "allocated_headers option \<Rightarrow> nat \<Rightarrow> nat \<Rightarrow> nat outcome" where
  "lws_hdr_fragment_length ah h frag_idx =
     (case ah of None \<Rightarrow> Done 0
      | Some ah \<Rightarrow> bind_outcome (index_at ah h) (\<lambda>n.
          if n = 0 then Done 0
          else bind_outcome (hdr_fragment_walk (ah_frags ah) n frag_idx) (\<lambda>r.
            case r of None \<Rightarrow> Done 0 | Some n' \<Rightarrow> Done (frag_len (ah_frags ah ! n')))))"

definition lws_hdr_total_length :: "allocated_headers option \<Rightarrow> nat \<Rightarrow> nat outcome" where
  "lws_hdr_total_length ah h =
     (case ah of None \<Rightarrow> Done 0
      | Some ah \<Rightarrow> bind_outcome (index_at ah h) (\<lambda>n.
          if n = 0 then Done 0
          else bind_outcome (hdr_chain ah n) (\<lambda>ns.
            Done (sum_list (map (\<lambda>i. frag_len (ah_frags ah ! i)) ns) + (length ns - 1)))))"

text \<open>The result and the bytes written at \<open>dst\<close>, up to the last.\<close>

definition lws_hdr_copy_fragment :: "allocated_headers option \<Rightarrow> int \<Rightarrow> nat \<Rightarrow> nat \<Rightarrow> (int \<times> int list) outcome" where
  "lws_hdr_copy_fragment ah len h frag_idx =
     (case ah of None \<Rightarrow> Done (-1, [])
      | Some ah \<Rightarrow> bind_outcome (index_at ah h) (\<lambda>f.
          if f = 0 then Done (-1, [])
          else bind_outcome (hdr_fragment_walk (ah_frags ah) f frag_idx) (\<lambda>r.
            case r of None \<Rightarrow> Done (-1, [])
            | Some f' \<Rightarrow>
                let fr = ah_frags ah ! f'
                in if int (frag_len fr) \<ge> len then Done (-1, [])
                   else bind_outcome (mem_load (ah_data ah) (frag_offset fr) (frag_len fr)) (\<lambda>xs.
                     Done (int (frag_len fr), xs @ [0])))))"

text \<open>\<open>strncpy (dst, src, n)\<close>: the characters up to a NUL, then NULs.\<close>

definition c_strncpy :: "int list \<Rightarrow> int list" where
  "c_strncpy xs = takeWhile (\<lambda>c. c \<noteq> 0) xs @ replicate (length xs - length (takeWhile (\<lambda>c. c \<noteq> 0) xs)) 0"

definition hdr_separator :: "nat \<Rightarrow> int" where
  "hdr_separator h =
     (if h = WSI_TOKEN_HTTP_COOKIE \<or> h = WSI_TOKEN_HTTP_SET_COOKIE then 59
      else if h = WSI_TOKEN_HTTP_URI_ARGS then 38 else 44)"

fun hdr_copy_loop :: "allocated_headers \<Rightarrow> nat \<Rightarrow> int \<Rightarrow> int list \<Rightarrow> nat list \<Rightarrow> (bool \<times> int list) outcome" where
  "hdr_copy_loop ah h len out [] = Done (True, out)"
| "hdr_copy_loop ah h len out (n # ns) =
     (let f = ah_frags ah ! n; comma = (if frag_nfrag f \<noteq> 0 then 1 else 0)
      in if int (frag_len f) + comma \<ge> len then Done (False, out)
         else bind_outcome (mem_load (ah_data ah) (frag_offset f) (frag_len f)) (\<lambda>xs.
           hdr_copy_loop ah h (len - int (frag_len f) - comma)
             (out @ c_strncpy xs @ (if comma = 1 then [hdr_separator h] else [])) ns))"

definition lws_hdr_copy :: "allocated_headers option \<Rightarrow> int \<Rightarrow> nat \<Rightarrow> (int \<times> int list) outcome" where
  "lws_hdr_copy ah len h =
     bind_outcome (lws_hdr_total_length ah h) (\<lambda>toklen.
       if toklen = 0 then Done (0, [0])
       else if int toklen \<ge> len then Done (-1, [0])
       else
         (case ah of None \<Rightarrow> Done (-1, [0])
          | Some ah \<Rightarrow> bind_outcome (index_at ah h) (\<lambda>n.
              if n = 0 then Done (0, [0])
              else bind_outcome (hdr_chain ah n) (\<lambda>ns.
                   bind_outcome (hdr_copy_loop ah h len [] ns) (\<lambda>(ok, out).
                     if ok then Done (int toklen, out @ [0]) else Done (-1, out))))))"

definition lws_hdr_simple_ptr :: "allocated_headers option \<Rightarrow> nat \<Rightarrow> nat option outcome" where
  "lws_hdr_simple_ptr ah h =
     (case ah of None \<Rightarrow> Done None
      | Some ah \<Rightarrow> bind_outcome (index_at ah h) (\<lambda>n.
          if n = 0 then Done None
          else bind_outcome (frag_at ah n) (\<lambda>f. Done (Some (frag_offset f)))))"

section \<open>Custom headers\<close>

text \<open>
  A header with an unknown name is kept in the buffer itself: two bytes for the length of its name (the colon included),
  two for that of its value, four for the position of the next such header, and then the name and the value.
\<close>

abbreviation (input) UHO_NLEN :: nat where "UHO_NLEN \<equiv> 0"
abbreviation (input) UHO_VLEN :: nat where "UHO_VLEN \<equiv> 2"
abbreviation (input) UHO_LL :: nat where "UHO_LL \<equiv> 4"
abbreviation (input) UHO_NAME :: nat where "UHO_NAME \<equiv> 8"

definition lws_ser_wu16be :: "int list \<Rightarrow> nat \<Rightarrow> nat \<Rightarrow> int list outcome" where
  "lws_ser_wu16be d p u = mem_store d p [int u div 256 mod 256, int u mod 256]"

definition lws_ser_wu32be :: "int list \<Rightarrow> nat \<Rightarrow> nat \<Rightarrow> int list outcome" where
  "lws_ser_wu32be d p u =
     mem_store d p [int u div 16777216 mod 256, int u div 65536 mod 256, int u div 256 mod 256, int u mod 256]"

definition lws_ser_ru16be :: "int list \<Rightarrow> nat \<Rightarrow> nat outcome" where
  "lws_ser_ru16be d p =
     bind_outcome (mem_load d p 2) (\<lambda>b. Done (nat (b ! 0 * 256 + b ! 1)))"

definition lws_ser_ru32be :: "int list \<Rightarrow> nat \<Rightarrow> nat outcome" where
  "lws_ser_ru32be d p =
     bind_outcome (mem_load d p 4) (\<lambda>b. Done (nat (b ! 0 * 16777216 + b ! 1 * 65536 + b ! 2 * 256 + b ! 3)))"

text \<open>\<open>strncmp (name, &data[p], n) == 0\<close> for a name of \<open>n\<close> characters without a NUL: the comparison stops at the first
  difference, and reads no further.\<close>

fun name_eq :: "int list \<Rightarrow> nat \<Rightarrow> int list \<Rightarrow> bool outcome" where
  "name_eq d p [] = Done True"
| "name_eq d p (c # name) =
     (if \<not> p < length d then Fault else if d ! p \<noteq> c then Done False else name_eq d (p + 1) name)"

text \<open>The walk over the list of custom headers, up to the one with the name; \<open>None\<close> when there is none, or a link leaves
  the buffer.  The links are 32-bit positions below the length of the buffer, so a walk that takes more steps than that
  visits one twice and has no end.\<close>

fun custom_find :: "nat \<Rightarrow> int list \<Rightarrow> nat \<Rightarrow> int list \<Rightarrow> nat option outcome" where
  "custom_find 0 d ll name = Fault"
| "custom_find (Suc k) d ll name =
     (if ll = 0 then Done None
      else if ll \<ge> length d then Done None
      else
        bind_outcome (lws_ser_ru16be d (ll + UHO_NLEN)) (\<lambda>nlen.
        bind_outcome (if nlen = length name then name_eq d (ll + UHO_NAME) name else Done False) (\<lambda>hit.
          if hit then Done (Some ll)
          else bind_outcome (lws_ser_ru32be d (ll + UHO_LL)) (\<lambda>ll'. custom_find k d ll' name))))"

definition lws_hdr_custom_length :: "bool \<Rightarrow> allocated_headers option \<Rightarrow> int list \<Rightarrow> int outcome" where
  "lws_hdr_custom_length mux_substream ah name =
     (case ah of None \<Rightarrow> Done (-1)
      | Some ah \<Rightarrow>
          if mux_substream then Done (-1)
          else bind_outcome (custom_find (length (ah_data ah) + 1) (ah_data ah) (ah_unk_ll_head ah) name) (\<lambda>r.
            case r of None \<Rightarrow> Done (-1)
            | Some ll \<Rightarrow> bind_outcome (lws_ser_ru16be (ah_data ah) (ll + UHO_VLEN)) (\<lambda>n. Done (int n))))"

definition lws_hdr_custom_copy :: "bool \<Rightarrow> allocated_headers option \<Rightarrow> int \<Rightarrow> int list \<Rightarrow> (int \<times> int list) outcome" where
  "lws_hdr_custom_copy mux_substream ah len name =
     (case ah of None \<Rightarrow> Done (-1, [])
      | Some ah \<Rightarrow>
          if mux_substream then Done (-1, [])
          else bind_outcome (custom_find (length (ah_data ah) + 1) (ah_data ah) (ah_unk_ll_head ah) name) (\<lambda>r.
            case r of None \<Rightarrow> Done (-1, [0])
            | Some ll \<Rightarrow>
                bind_outcome (lws_ser_ru16be (ah_data ah) (ll + UHO_VLEN)) (\<lambda>n.
                  if int n + 1 > len then Done (-1, [0])
                  else bind_outcome (mem_load (ah_data ah) (ll + UHO_NAME + length name) n) (\<lambda>xs.
                    Done (int n, c_strncpy xs @ [0])))))"

section \<open>Appending\<close>

definition lws_pos_in_bounds :: "nat \<Rightarrow> allocated_headers \<Rightarrow> int outcome" where
  "lws_pos_in_bounds max_http_header_data ah =
     (if ah_pos ah < max_http_header_data then Done 0
      else if c_int (ah_pos ah) \<ge> c_int max_http_header_data - 1 then Done 1
      else Fault)"

text \<open>The result is -1 when the buffer is full, 0 when the character was taken and 1 when the token is at its limit.\<close>

definition issue_char :: "nat \<Rightarrow> int \<Rightarrow> allocated_headers \<Rightarrow> (int \<times> allocated_headers) outcome" where
  "issue_char mx c ah =
     bind_outcome (lws_pos_in_bounds mx ah) (\<lambda>oob.
       if oob \<noteq> 0 then Done (-1, ah)
       else bind_outcome (frag_at ah (ah_nfrag ah)) (\<lambda>f.
         if ah_current_token_limit ah = 0 \<or> frag_len f < ah_current_token_limit ah then
           bind_outcome (put_data c ah) (\<lambda>ah. bind_outcome (len_inc ah) (\<lambda>ah. Done (0, ah)))
         else if frag_len f = ah_current_token_limit ah then
           bind_outcome (lws_pos_in_bounds mx ah) (\<lambda>oob.
             if oob \<noteq> 0 then Done (-1, ah) else bind_outcome (put_data 0 ah) (\<lambda>ah. Done (1, ah)))
         else Done (1, ah)))"

text \<open>The loop of \<open>lws_hdr_simple_create\<close> over a string and its NUL.\<close>

fun simple_create_loop :: "nat \<Rightarrow> int list \<Rightarrow> allocated_headers \<Rightarrow> (int \<times> allocated_headers) outcome" where
  "simple_create_loop mx [] ah =
     bind_outcome (lws_pos_in_bounds mx ah) (\<lambda>oob.
       if oob \<noteq> 0 then Done (-1, ah) else bind_outcome (put_data 0 ah) (\<lambda>ah. Done (0, ah)))"
| "simple_create_loop mx (c # s) ah =
     bind_outcome (lws_pos_in_bounds mx ah) (\<lambda>oob.
       if oob \<noteq> 0 then Done (-1, ah)
       else bind_outcome (put_data c ah) (\<lambda>ah. bind_outcome (len_inc ah) (\<lambda>ah. simple_create_loop mx s ah)))"

definition lws_hdr_simple_create :: "nat \<Rightarrow> allocated_headers \<Rightarrow> nat \<Rightarrow> int list \<Rightarrow> (int \<times> allocated_headers) outcome" where
  "lws_hdr_simple_create mx ah h s =
     (if s = [] then bind_outcome (set_index h 0 ah) (\<lambda>ah. Done (0, ah))
      else
        let ah = ah\<lparr>ah_nfrag := (ah_nfrag ah + 1) mod 256\<rparr>
        in if ah_nfrag ah = length (ah_frags ah) then Done (-1, ah)
           else
             bind_outcome (set_index h (ah_nfrag ah) ah) (\<lambda>ah.
             bind_outcome (upd_frag (ah_nfrag ah)
                 (\<lambda>f. f\<lparr>frag_offset := ah_pos ah, frag_len := 0, frag_nfrag := 0\<rparr>) ah) (\<lambda>ah.
             simple_create_loop mx s ah)))"

end
