(* ===== verification/Http_Parse.thy ===== *)
theory Http_Parse
  imports Http_Headers
begin

text \<open>
  The HTTP/1 request and response parser of \<open>roles/http/parsers.c\<close>: \<open>lws_parse_urldecode\<close>, which decodes the escapes of a
  URI, simplifies its path and splits off its arguments, and \<open>lws_parse\<close>, the state machine over the bytes of the headers.
\<close>

section \<open>URI decoding\<close>

datatype lpur = LPUR_CONTINUE | LPUR_SWALLOW | LPUR_FORBID | LPUR_EXCESSIVE | LPUR_FAIL

definition char_to_hex :: "int \<Rightarrow> int" where
  "char_to_hex c =
     (if 48 \<le> c \<and> c \<le> 57 then c - 48
      else if 97 \<le> c \<and> c \<le> 102 then c - 97 + 10
      else if 65 \<le> c \<and> c \<le> 70 then c - 65 + 10 else -1)"

text \<open>The escapes: either the character is done with, or it goes on to the path, decoded, with a flag that it was escaped.\<close>

definition uri_unescape :: "allocated_headers \<Rightarrow> int \<Rightarrow> (lpur option \<times> int \<times> bool \<times> allocated_headers)" where
  "uri_unescape ah c =
     (case ah_ues ah of
        URIES_IDLE \<Rightarrow>
          if c = 37 then (Some LPUR_SWALLOW, c, False, ah\<lparr>ah_ues := URIES_SEEN_PERCENT\<rparr>) else (None, c, False, ah)
      | URIES_SEEN_PERCENT \<Rightarrow>
          if char_to_hex c < 0 then (Some LPUR_FORBID, c, False, ah)
          else (Some LPUR_SWALLOW, c, False, ah\<lparr>ah_esc_stash := c, ah_ues := URIES_SEEN_PERCENT_H1\<rparr>)
      | URIES_SEEN_PERCENT_H1 \<Rightarrow>
          if char_to_hex c < 0 then (Some LPUR_FORBID, c, False, ah)
          else (None, char_to_hex (ah_esc_stash ah) * 16 + char_to_hex c, True, ah\<lparr>ah_ues := URIES_IDLE\<rparr>))"

text \<open>The loop that drops a directory: it is entered with two characters or more, and stops at the slash before it or at
  the first character.\<close>

fun uri_back :: "int list \<Rightarrow> nat \<Rightarrow> nat \<Rightarrow> (nat \<times> nat) outcome" where
  "uri_back d p 0 = Fault"
| "uri_back d p (Suc n) =
     (let p' = u32_sub p 1
      in if n > 1 then
           if \<not> p' < length d then Fault
           else if d ! p' \<noteq> 47 then uri_back d p' n else Done (p', n)
         else Done (p', n))"

definition uri_up :: "allocated_headers \<Rightarrow> allocated_headers outcome" where
  "uri_up ah =
     bind_outcome (frag_at ah (ah_nfrag ah)) (\<lambda>f.
       if frag_len f > 2 then
         bind_outcome (uri_back (ah_data ah) (u32_sub (ah_pos ah) 1) (frag_len f - 1)) (\<lambda>(p, n).
         bind_outcome (upd_frag (ah_nfrag ah) (\<lambda>f. f\<lparr>frag_len := n\<rparr>) ah) (\<lambda>ah. Done (ah\<lparr>ah_pos := p\<rparr>)))
       else Done ah)"

text \<open>Ending a part of the URI with a NUL that its length does not count.\<close>

definition uri_seal :: "nat \<Rightarrow> allocated_headers \<Rightarrow> (bool \<times> allocated_headers) outcome" where
  "uri_seal mx ah =
     bind_outcome (issue_char mx 0 ah) (\<lambda>(r, ah).
       if r < 0 then Done (False, ah) else bind_outcome (len_dec ah) (\<lambda>ah. Done (True, ah)))"

text \<open>The next fragment, one byte further on; \<open>False\<close> when there is none left.\<close>

definition uri_next_frag :: "allocated_headers \<Rightarrow> (bool \<times> allocated_headers) outcome" where
  "uri_next_frag ah =
     (let ah = ah\<lparr>ah_nfrag := (ah_nfrag ah + 1) mod 256\<rparr>
      in if ah_nfrag ah \<ge> length (ah_frags ah) then Done (False, ah)
         else
           let ah = ah\<lparr>ah_post_literal_equal := False, ah_pos := ah_pos ah + 1\<rparr>
           in bind_outcome (upd_frag (ah_nfrag ah)
                  (\<lambda>f. f\<lparr>frag_offset := ah_pos ah, frag_len := 0, frag_nfrag := 0\<rparr>) ah) (\<lambda>ah. Done (True, ah)))"

definition uri_idle :: "nat \<Rightarrow> bool \<Rightarrow> bool \<Rightarrow> int \<Rightarrow> allocated_headers \<Rightarrow> (lpur option \<times> int \<times> allocated_headers) outcome" where
  "uri_idle mx args enc c ah =
     (if (c = 38 \<or> c = 59) \<and> \<not> enc then
        bind_outcome (uri_seal mx ah) (\<lambda>(ok, ah).
          if \<not> ok then Done (Some LPUR_FAIL, c, ah)
          else
            bind_outcome (upd_frag (ah_nfrag ah) (\<lambda>f. f\<lparr>frag_nfrag := (ah_nfrag ah + 1) mod 256\<rparr>) ah) (\<lambda>ah.
            bind_outcome (uri_next_frag ah) (\<lambda>(ok, ah).
              Done (Some (if ok then LPUR_SWALLOW else LPUR_EXCESSIVE), c, ah))))
      else
        let c = (if c = 61 \<and> enc \<and> args \<and> \<not> ah_post_literal_equal ah then 95 else c);
            ah = (if c = 61 \<and> \<not> enc then ah\<lparr>ah_post_literal_equal := True\<rparr> else ah);
            c = (if c = 43 \<and> \<not> enc then 32 else c);
            ah = (if c = 47 \<and> \<not> args then ah\<lparr>ah_ups := URIPS_SEEN_SLASH\<rparr> else ah)
        in Done (None, c, ah))"

text \<open>The path states: again either the character is done with or it is to be stored.\<close>

definition uri_path :: "nat \<Rightarrow> bool \<Rightarrow> bool \<Rightarrow> int \<Rightarrow> allocated_headers \<Rightarrow> (lpur option \<times> int \<times> allocated_headers) outcome" where
  "uri_path mx args enc c ah =
     (case ah_ups ah of
        URIPS_IDLE \<Rightarrow> uri_idle mx args enc c ah
      | URIPS_SEEN_SLASH \<Rightarrow>
          if c = 47 then Done (Some LPUR_SWALLOW, c, ah)
          else if c = 46 then Done (Some LPUR_SWALLOW, c, ah\<lparr>ah_ups := URIPS_SEEN_SLASH_DOT\<rparr>)
          else Done (None, c, ah\<lparr>ah_ups := URIPS_IDLE\<rparr>)
      | URIPS_SEEN_SLASH_DOT \<Rightarrow>
          if c = 46 then Done (Some LPUR_SWALLOW, c, ah\<lparr>ah_ups := URIPS_SEEN_SLASH_DOT_DOT\<rparr>)
          else if c = 47 then Done (Some LPUR_SWALLOW, c, ah\<lparr>ah_ups := URIPS_SEEN_SLASH\<rparr>)
          else bind_outcome (issue_char mx 46 (ah\<lparr>ah_ups := URIPS_IDLE\<rparr>)) (\<lambda>(r, ah).
            Done (if r < 0 then Some LPUR_FAIL else None, c, ah))
      | URIPS_SEEN_SLASH_DOT_DOT \<Rightarrow>
          if c = 47 \<or> c = 63 then
            bind_outcome (uri_up ah) (\<lambda>ah.
            bind_outcome (frag_at ah (ah_nfrag ah)) (\<lambda>f.
              Done (if frag_len f > 1 then None else Some LPUR_SWALLOW, c, ah\<lparr>ah_ups := URIPS_SEEN_SLASH\<rparr>)))
          else
            bind_outcome (issue_char mx 46 ah) (\<lambda>(r, ah).
              if r < 0 then Done (Some LPUR_FAIL, c, ah)
              else bind_outcome (issue_char mx 46 ah) (\<lambda>(r, ah).
                if r < 0 then Done (Some LPUR_FAIL, c, ah) else Done (None, c, ah\<lparr>ah_ups := URIPS_IDLE\<rparr>))))"

text \<open>The start of the URI arguments.\<close>

definition uri_query :: "nat \<Rightarrow> bool \<Rightarrow> bool \<Rightarrow> int \<Rightarrow> allocated_headers \<Rightarrow> (lpur \<times> int \<times> allocated_headers) outcome" where
  "uri_query mx args enc c ah =
     (if c = 63 \<and> \<not> enc \<and> \<not> args then
        if ah_ues ah \<noteq> URIES_IDLE then Done (LPUR_FORBID, c, ah)
        else
          bind_outcome (uri_seal mx ah) (\<lambda>(ok, ah).
            if \<not> ok then Done (LPUR_FAIL, c, ah)
            else
              bind_outcome (uri_next_frag ah) (\<lambda>(ok, ah).
                if \<not> ok then Done (LPUR_EXCESSIVE, c, ah)
                else
                  bind_outcome (set_index WSI_TOKEN_HTTP_URI_ARGS (ah_nfrag ah) ah) (\<lambda>ah.
                    Done (LPUR_SWALLOW, c, ah\<lparr>ah_ups := URIPS_IDLE\<rparr>))))
      else Done (LPUR_CONTINUE, c, ah))"

definition lws_parse_urldecode :: "nat \<Rightarrow> int \<Rightarrow> allocated_headers \<Rightarrow> (lpur \<times> int \<times> allocated_headers) outcome" where
  "lws_parse_urldecode mx c ah =
     (case uri_unescape ah c of
        (Some r, c, _, ah) \<Rightarrow> Done (r, c, ah)
      | (None, c, enc, ah) \<Rightarrow>
          bind_outcome (index_at ah WSI_TOKEN_HTTP_URI_ARGS) (\<lambda>ai.
            if c = 0 \<and> (ai = 0 \<or> \<not> ah_post_literal_equal ah) then Done (LPUR_FAIL, c, ah)
            else
              bind_outcome (uri_path mx (ai \<noteq> 0) enc c ah) (\<lambda>(r, c, ah).
                case r of Some r \<Rightarrow> Done (r, c, ah) | None \<Rightarrow> uri_query mx (ai \<noteq> 0) enc c ah)))"

section \<open>The parser\<close>

text \<open>What the parser reads of the context and the vhost.\<close>

record http_env =
  max_http_header_data :: nat
  token_limits :: "nat list option"
  fallback_to_apply_listen_accept_config :: bool

text \<open>What it reads and sets of the connection; \<open>http_statuses\<close> records the calls of \<open>lws_return_http_status\<close>.\<close>

record http_wsi =
  http_ah :: "allocated_headers option"
  mux_substream :: bool
  role_h1 :: bool
  role_server :: bool
  hdr_parsing_completed :: bool
  http_rx_frame_type :: int
  http_statuses :: "nat list"

text \<open>Where the \<open>goto\<close>s and \<open>return\<close>s of the loop lead.\<close>

datatype parse_step =
    Next allocated_headers
  | Set_parsing_complete allocated_headers
  | Forbid allocated_headers
  | Parse_fail allocated_headers
  | Parse_fallback allocated_headers

datatype lws_parser_return = LPR_OK | LPR_FAIL | LPR_FORBIDDEN | LPR_DO_FALLBACK

text \<open>\<open>methods[]\<close>: GET, POST, OPTIONS, PUT, PATCH, DELETE, CONNECT, HEAD\<close>

definition methods :: "nat list" where
  "methods = [0, 1, 2, 74, 73, 75, 81, 82]"

definition parse_excessive :: "http_env \<Rightarrow> allocated_headers \<Rightarrow> parse_step outcome" where
  "parse_excessive cx ah =
     (if ah_nfrag ah = length (ah_frags ah) then Done (Parse_fail ah)
      else
        bind_outcome (upd_frag (ah_nfrag ah)
          (\<lambda>_. \<lparr>frag_offset = ah_pos ah, frag_len = 0, frag_nfrag = 0, frag_flags = 2\<rparr>) ah) (\<lambda>ah.
        bind_outcome (index_at ah (ps_value (ah_parser_state ah))) (\<lambda>n.
          if n = 0 then
            bind_outcome (set_index (ps_value (ah_parser_state ah)) (ah_nfrag ah) ah) (\<lambda>ah.
              Done (Next (ah\<lparr>ah_hdr_token_idx := ps_value (ah_parser_state ah)\<rparr>)))
          else
            bind_outcome (hdr_chain ah n) (\<lambda>ns.
            bind_outcome (upd_frag (last ns) (\<lambda>f. f\<lparr>frag_nfrag := ah_nfrag ah\<rparr>) ah) (\<lambda>ah.
            bind_outcome (issue_char (max_http_header_data cx) 32 ah) (\<lambda>(r, ah).
              Done (if r < 0 then Parse_fail ah else Next ah)))))))"

definition parse_start_fragment :: "http_env \<Rightarrow> allocated_headers \<Rightarrow> parse_step outcome" where
  "parse_start_fragment cx ah = parse_excessive cx (ah\<lparr>ah_nfrag := (ah_nfrag ah + 1) mod 256\<rparr>)"

definition parse_swallow :: "allocated_headers \<Rightarrow> parse_step" where
  "parse_swallow ah =
     (if ah_parser_state ah = WSI_TOKEN WSI_TOKEN_CHALLENGE then Set_parsing_complete ah else Next ah)"

text \<open>Back to the start of a header name.\<close>

definition parse_name_start :: "allocated_headers \<Rightarrow> allocated_headers" where
  "parse_name_start ah = ah\<lparr>ah_parser_state := WSI_TOKEN_NAME_PART, ah_unk_pos := 0, ah_lextable_pos := 0\<rparr>"

definition parse_check_eol :: "http_env \<Rightarrow> int \<Rightarrow> allocated_headers \<Rightarrow> parse_step outcome" where
  "parse_check_eol cx c ah =
     (let eol = ah_parser_state ah \<noteq> WSI_TOKEN WSI_TOKEN_CHALLENGE \<and> (c = 13 \<or> c = 10)
      in if eol \<and> ah_ues ah \<noteq> URIES_IDLE then Done (Forbid ah)
         else
           let ah = (if \<not> eol then ah
                     else if c = 10 then parse_name_start ah
                     else ah\<lparr>ah_parser_state := WSI_TOKEN_SKIPPING_SAW_CR\<rparr>);
               c = (if eol then 0 else c)
           in bind_outcome (issue_char (max_http_header_data cx) c ah) (\<lambda>(n, ah).
                if n < 0 then Done (Parse_fail ah)
                else if n > 0 then Done (parse_swallow (ah\<lparr>ah_parser_state := WSI_TOKEN_SKIPPING\<rparr>))
                else if c = 0 \<and> ah_parser_state ah \<noteq> WSI_TOKEN WSI_TOKEN_HTTP_URI_ARGS then
                  bind_outcome (len_dec ah) (\<lambda>ah. Done (parse_swallow ah))
                else Done (parse_swallow ah)))"

text \<open>The space that ends a URI.\<close>

definition parse_uri_end :: "http_env \<Rightarrow> allocated_headers \<Rightarrow> parse_step outcome" where
  "parse_uri_end cx ah =
     bind_outcome (frag_at ah (ah_nfrag ah)) (\<lambda>f.
     bind_outcome (if frag_len f = 0 then issue_char (max_http_header_data cx) 47 ah else Done (0, ah)) (\<lambda>(r, ah).
       if r < 0 then Done (Parse_fail ah)
       else
         bind_outcome (if ah_ups ah = URIPS_SEEN_SLASH_DOT_DOT then uri_up ah else Done ah) (\<lambda>ah.
         bind_outcome (uri_seal (max_http_header_data cx) ah) (\<lambda>(ok, ah).
           if \<not> ok then Done (Parse_fail ah)
           else parse_start_fragment cx (ah\<lparr>ah_parser_state := WSI_TOKEN WSI_TOKEN_HTTP\<rparr>)))))"

text \<open>The value of token \<open>t\<close>.\<close>

definition parse_value :: "http_env \<Rightarrow> nat \<Rightarrow> int \<Rightarrow> allocated_headers \<Rightarrow> parse_step outcome" where
  "parse_value cx t c ah =
     bind_outcome (index_at ah t) (\<lambda>fi. bind_outcome (frag_at ah fi) (\<lambda>f.
       if frag_len f = 0 \<and> c = 32 then Done (Next ah)
       else if t \<notin> set methods then parse_check_eol cx c ah
       else if c = 32 then parse_uri_end cx ah
       else
         bind_outcome (lws_parse_urldecode (max_http_header_data cx) c ah) (\<lambda>(r, c, ah).
           case r of
             LPUR_CONTINUE \<Rightarrow> parse_check_eol cx c ah
           | LPUR_SWALLOW \<Rightarrow> Done (parse_swallow ah)
           | LPUR_FORBID \<Rightarrow> Done (Forbid ah)
           | LPUR_EXCESSIVE \<Rightarrow> parse_excessive cx ah
           | LPUR_FAIL \<Rightarrow> Done (Parse_fail ah))))"

text \<open>The speculative storage of a name that may be unknown: \<open>unk_pos\<close> and eight zero bytes for its links.\<close>

fun put_zeros :: "nat \<Rightarrow> nat \<Rightarrow> allocated_headers \<Rightarrow> allocated_headers outcome" where
  "put_zeros mx 0 ah = Done ah"
| "put_zeros mx (Suc n) ah =
     bind_outcome (lws_pos_in_bounds mx ah) (\<lambda>oob.
     bind_outcome (if oob = 0 then put_data 0 ah else Done ah) (\<lambda>ah. put_zeros mx n ah))"

definition parse_to_lower :: "int \<Rightarrow> int" where
  "parse_to_lower c = (if 65 \<le> c \<and> c \<le> 90 then c + 32 else c)"

text \<open>A colon after an unknown name: the header joins the list of the custom headers.\<close>

definition parse_unknown_name :: "allocated_headers \<Rightarrow> parse_step outcome" where
  "parse_unknown_name ah =
     (let up = ah_unk_pos ah; ah = (if ah_unk_ll_head ah = 0 then ah\<lparr>ah_unk_ll_head := up\<rparr> else ah)
      in bind_outcome (if ah_unk_ll_tail ah \<noteq> 0 then lws_ser_wu32be (ah_data ah) (ah_unk_ll_tail ah + UHO_LL) up
                       else Done (ah_data ah)) (\<lambda>d.
         bind_outcome (lws_ser_wu16be d up (u32_sub (u32_sub (ah_pos ah) up) UHO_NAME)) (\<lambda>d.
           Done (Next (ah\<lparr>ah_data := d, ah_unk_ll_tail := up, ah_unk_value_pos := ah_pos ah,
             ah_parser_state := WSI_TOKEN_UNKNOWN_VALUE_PART\<rparr>)))))"

text \<open>A name that is known now: the marker at \<open>lextable_pos\<close> has its token.\<close>

definition parse_known_name :: "http_env \<Rightarrow> bool \<Rightarrow> allocated_headers \<Rightarrow> parse_step outcome" where
  "parse_known_name cx mux ah =
     bind_outcome (lex_at lextable_h1 (ah_lextable_pos ah)) (\<lambda>hi.
     bind_outcome (lex_at lextable_h1 (ah_lextable_pos ah + 1)) (\<lambda>lo.
       let n = nat (hi * 256 + lo)
       in bind_outcome (if n \<in> set methods then index_at ah n else Done 0) (\<lambda>dup.
            if dup \<noteq> 0 then Done (Parse_fail ah)
            else
              let ah = (if \<not> mux then ah\<lparr>ah_pos := ah_unk_pos ah, ah_unk_pos := 0\<rparr> else ah);
                  t = (if n = WSI_TOKEN_SWORIGIN then WSI_TOKEN_ORIGIN else n);
                  ah = ah\<lparr>ah_parser_state := WSI_TOKEN t, ah_ups := URIPS_IDLE\<rparr>
              in bind_outcome
                   (case token_limits cx of None \<Rightarrow> Done (max_http_header_data cx)
                    | Some lim \<Rightarrow> if t < length lim then Done (lim ! t) else Fault) (\<lambda>limit.
                   let ah = ah\<lparr>ah_current_token_limit := limit\<rparr>
                   in if t = WSI_TOKEN_CHALLENGE then Done (Set_parsing_complete ah)
                      else parse_start_fragment cx ah))))"

text \<open>Has one of the methods been seen?\<close>

fun had_method :: "allocated_headers \<Rightarrow> nat list \<Rightarrow> bool outcome" where
  "had_method ah [] = Done False"
| "had_method ah (m # ms) = bind_outcome (index_at ah m) (\<lambda>n. if n \<noteq> 0 then Done True else had_method ah ms)"

text \<open>After the walk: the name is out of the table, complete, or goes on.\<close>

definition parse_name_walked :: "http_env \<Rightarrow> http_wsi \<Rightarrow> allocated_headers \<Rightarrow> parse_step outcome" where
  "parse_name_walked cx w ah =
     (if ah_lextable_pos ah < 0 \<and> role_h1 w \<and> role_server w then
        bind_outcome (had_method ah methods) (\<lambda>had.
          if had then Done (Next (if mux_substream w then ah\<lparr>ah_parser_state := WSI_TOKEN_SKIPPING\<rparr> else ah))
          else if fallback_to_apply_listen_accept_config cx then Done (Parse_fallback ah)
          else Done (Forbid ah))
      else if ah_lextable_pos ah < 0 then
        Done (Next (if mux_substream w then ah\<lparr>ah_parser_state := WSI_TOKEN_SKIPPING\<rparr> else ah))
      else
        bind_outcome (lex_at lextable_h1 (ah_lextable_pos ah)) (\<lambda>b.
          if b < FAIL_CHAR then parse_known_name cx (mux_substream w) ah else Done (Next ah)))"

definition parse_name :: "http_env \<Rightarrow> http_wsi \<Rightarrow> int \<Rightarrow> allocated_headers \<Rightarrow> parse_step outcome" where
  "parse_name cx w c ah =
     (if ah_unk_pos ah = 0 \<and> c = 10 then Done (Set_parsing_complete ah)
      else
        let c = parse_to_lower c; mx = max_http_header_data cx
        in bind_outcome
             (if \<not> mux_substream w \<and> ah_unk_pos ah = 0 then put_zeros mx 8 (ah\<lparr>ah_unk_pos := ah_pos ah\<rparr>) else Done ah) (\<lambda>ah.
           bind_outcome (lws_pos_in_bounds mx ah) (\<lambda>oob.
             if oob \<noteq> 0 then Done (Parse_fail ah)
             else
               bind_outcome (put_data c ah) (\<lambda>ah.
                 if \<not> mux_substream w \<and> ah_lextable_pos ah < 0 \<and> c = 58 then parse_unknown_name ah
                 else if ah_lextable_pos ah < 0 then Done (Next ah)
                 else
                   bind_outcome (lex_step lextable_h1 (ah_lextable_pos ah) c) (\<lambda>(p, marker).
                     let ah = (if marker \<and> \<not> mux_substream w then ah\<lparr>ah_pos := ah_unk_pos ah, ah_unk_pos := 0\<rparr> else ah)
                     in parse_name_walked cx w (ah\<lparr>ah_lextable_pos := p\<rparr>))))))"

definition parse_unknown_value :: "http_env \<Rightarrow> int \<Rightarrow> allocated_headers \<Rightarrow> parse_step outcome" where
  "parse_unknown_value cx c ah =
     (if c = 13 then Done (Next ah)
      else if c = 10 then
        bind_outcome (lws_ser_wu16be (ah_data ah) (ah_unk_pos ah + UHO_VLEN)
            (u32_sub (ah_pos ah) (ah_unk_value_pos ah))) (\<lambda>d.
          Done (Next (parse_name_start (ah\<lparr>ah_data := d\<rparr>))))
      else if ah_pos ah \<noteq> ah_unk_value_pos ah \<or> c \<noteq> 32 \<and> c \<noteq> 9 then
        bind_outcome (lws_pos_in_bounds (max_http_header_data cx) ah) (\<lambda>oob.
          if oob \<noteq> 0 then Done (Parse_fail ah)
          else bind_outcome (put_data c ah) (\<lambda>ah. Done (Next ah)))
      else Done (Next ah))"

definition parse_char :: "http_env \<Rightarrow> http_wsi \<Rightarrow> int \<Rightarrow> allocated_headers \<Rightarrow> parse_step outcome" where
  "parse_char cx w c ah =
     (case ah_parser_state ah of
        WSI_TOKEN_UNKNOWN_VALUE_PART \<Rightarrow> parse_unknown_value cx c ah
      | WSI_TOKEN t \<Rightarrow> parse_value cx t c ah
      | WSI_TOKEN_NAME_PART \<Rightarrow> parse_name cx w c ah
      | WSI_TOKEN_SKIPPING \<Rightarrow>
          let ah = (if c = 10 then parse_name_start ah else ah)
          in Done (Next (if c = 13 then ah\<lparr>ah_parser_state := WSI_TOKEN_SKIPPING_SAW_CR\<rparr> else ah))
      | WSI_TOKEN_SKIPPING_SAW_CR \<Rightarrow>
          if ah_ues ah \<noteq> URIES_IDLE then Done (Forbid ah)
          else Done (Next (if c = 10 then parse_name_start ah else ah\<lparr>ah_parser_state := WSI_TOKEN_SKIPPING\<rparr>))
      | WSI_PARSING_COMPLETE \<Rightarrow> Done (Next ah))"

text \<open>\<open>(char) atoi (pv)\<close>: leading white space, a sign and digits, saturating at the width of \<open>long\<close>.  The characters up to the
  first that is not a digit must be in the buffer.\<close>

fun atoi_digits :: "int \<Rightarrow> int list \<Rightarrow> int outcome" where
  "atoi_digits acc [] = Fault"
| "atoi_digits acc (c # s) = (if 48 \<le> c \<and> c \<le> 57 then atoi_digits (acc * 10 + (c - 48)) s else Done acc)"

definition atoi_signed :: "int list \<Rightarrow> int outcome" where
  "atoi_signed s =
     (case s of [] \<Rightarrow> Fault
      | c # s' \<Rightarrow>
          if c = 45 then bind_outcome (atoi_digits 0 s') (\<lambda>v. Done (- v))
          else if c = 43 then atoi_digits 0 s' else atoi_digits 0 s)"

definition c_atoi :: "int list \<Rightarrow> int outcome" where
  "c_atoi s = bind_outcome (atoi_signed (dropWhile (\<lambda>c. c = 32 \<or> 9 \<le> c \<and> c \<le> 13) s)) (\<lambda>v.
     Done (max (- (2 ^ 63)) (min (2 ^ 63 - 1) v)))"

definition c_char :: "int \<Rightarrow> int" where
  "c_char v = (v + 128) mod 256 - 128"

definition parse_forbidden :: "http_wsi \<Rightarrow> allocated_headers \<Rightarrow> lws_parser_return \<times> http_wsi" where
  "parse_forbidden w ah = (LPR_FORBIDDEN, w\<lparr>http_ah := Some ah, http_statuses := http_statuses w @ [403]\<rparr>)"

definition parse_complete :: "http_wsi \<Rightarrow> allocated_headers \<Rightarrow> (lws_parser_return \<times> http_wsi) outcome" where
  "parse_complete w ah =
     (if ah_ues ah \<noteq> URIES_IDLE then Done (parse_forbidden w ah)
      else
        bind_outcome (lws_hdr_total_length (Some ah) WSI_TOKEN_UPGRADE) (\<lambda>len.
        bind_outcome
          (if len = 0 then Done w
           else bind_outcome (lws_hdr_simple_ptr (Some ah) WSI_TOKEN_VERSION) (\<lambda>pv.
             case pv of None \<Rightarrow> Done w
             | Some p \<Rightarrow> bind_outcome (c_atoi (drop p (ah_data ah))) (\<lambda>v. Done (w\<lparr>http_rx_frame_type := c_char v\<rparr>)))) (\<lambda>w.
          Done (LPR_OK, w\<lparr>http_ah := Some (ah\<lparr>ah_parser_state := WSI_PARSING_COMPLETE\<rparr>), hdr_parsing_completed := True\<rparr>))))"

text \<open>The loop over the input; what is left of it stands for the final value of \<open>*len\<close>.\<close>

fun parse_loop :: "http_env \<Rightarrow> http_wsi \<Rightarrow> allocated_headers \<Rightarrow> int list \<Rightarrow>
    (lws_parser_return \<times> http_wsi \<times> int list) outcome" where
  "parse_loop cx w ah [] = Done (LPR_OK, w\<lparr>http_ah := Some ah\<rparr>, [])"
| "parse_loop cx w ah (c # cs) =
     bind_outcome (parse_char cx w c ah) (\<lambda>r.
       case r of
         Next ah \<Rightarrow> parse_loop cx w ah cs
       | Set_parsing_complete ah \<Rightarrow> bind_outcome (parse_complete w ah) (\<lambda>(r, w). Done (r, w, cs))
       | Forbid ah \<Rightarrow> (case parse_forbidden w ah of (r, w) \<Rightarrow> Done (r, w, cs))
       | Parse_fail ah \<Rightarrow> Done (LPR_FAIL, w\<lparr>http_ah := Some ah\<rparr>, cs)
       | Parse_fallback ah \<Rightarrow> Done (LPR_DO_FALLBACK, w\<lparr>http_ah := Some ah\<rparr>, cs))"

definition lws_parse :: "http_env \<Rightarrow> http_wsi \<Rightarrow> int list \<Rightarrow> (lws_parser_return \<times> http_wsi \<times> int list) outcome" where
  "lws_parse cx w buf =
     (case http_ah w of None \<Rightarrow> Fault
      | Some ah \<Rightarrow> if buf = [] then Fault else parse_loop cx w ah buf)"

end
