(* ===== verification/Http_Inv.thy ===== *)
theory Http_Inv
  imports Http_Parse
begin

text \<open>
  The invariant of the header table while \<open>lws_parse\<close> fills it, and what follows from it: no access leaves the buffer,
  the arrays or the name table, no chain of fragments loops, and what a fragment holds does not change once it is complete.
\<close>

named_theorems hdr_defs \<open>checked accesses, to be unfolded once their bounds are known\<close>

declare frag_at_def [hdr_defs] upd_frag_def [hdr_defs] index_at_def [hdr_defs] set_index_def [hdr_defs]
  put_data_def [hdr_defs] len_inc_def [hdr_defs] len_dec_def [hdr_defs] mem_store_one [hdr_defs]

section \<open>The invariant\<close>

abbreviation off :: "allocated_headers \<Rightarrow> nat \<Rightarrow> nat" where "off ah i \<equiv> frag_offset (ah_frags ah ! i)"
abbreviation flen :: "allocated_headers \<Rightarrow> nat \<Rightarrow> nat" where "flen ah i \<equiv> frag_len (ah_frags ah ! i)"
abbreviation fnext :: "allocated_headers \<Rightarrow> nat \<Rightarrow> nat" where "fnext ah i \<equiv> frag_nfrag (ah_frags ah ! i)"

text \<open>Sizes and links.\<close>

definition hdr_shape :: "nat \<Rightarrow> allocated_headers \<Rightarrow> bool" where
  "hdr_shape mx ah \<longleftrightarrow> length (ah_data ah) = mx \<and> mx \<le> 65535 \<and> length (ah_frags ah) = 96 \<and>
     length (ah_frag_index ah) = 96 \<and> ah_nfrag ah < 96 \<and> ah_pos ah \<le> mx + 1 \<and>
     (\<forall>h < 96. ah_frag_index ah ! h \<le> ah_nfrag ah) \<and>
     (\<forall>i \<le> ah_nfrag ah. fnext ah i = 0 \<or> i < fnext ah i \<and> fnext ah i \<le> ah_nfrag ah)"

text \<open>The first \<open>k\<close> fragments lie below \<open>lim\<close> one behind the other, each with a NUL behind its last byte that is not in the
  links of the last custom header.\<close>

definition hdr_seal :: "allocated_headers \<Rightarrow> nat \<Rightarrow> nat \<Rightarrow> nat \<Rightarrow> bool" where
  "hdr_seal ah i lim j \<longleftrightarrow> off ah i + flen ah i \<le> j \<and> j < lim \<and> j < length (ah_data ah) \<and> ah_data ah ! j = 0 \<and>
     (ah_unk_ll_tail ah = 0 \<or> j < ah_unk_ll_tail ah \<or> ah_unk_ll_tail ah + 8 \<le> off ah i)"

definition hdr_lay :: "allocated_headers \<Rightarrow> nat \<Rightarrow> nat \<Rightarrow> bool" where
  "hdr_lay ah k lim \<longleftrightarrow>
     (\<forall>i. 1 \<le> i \<longrightarrow> i \<le> k \<longrightarrow> (\<exists>j. hdr_seal ah i (if i < k then off ah (i + 1) else lim) j))"

text \<open>While a value is collected, and between values.\<close>

definition hdr_collecting :: "nat \<Rightarrow> allocated_headers \<Rightarrow> bool" where
  "hdr_collecting mx ah \<longleftrightarrow> hdr_shape mx ah \<and> 1 \<le> ah_nfrag ah \<and> hdr_lay ah (ah_nfrag ah - 1) (off ah (ah_nfrag ah)) \<and>
     off ah (ah_nfrag ah) + flen ah (ah_nfrag ah) \<le> ah_pos ah \<and>
     (ah_current_token_limit ah = 0 \<or> flen ah (ah_nfrag ah) \<le> ah_current_token_limit ah) \<and>
     (ah_unk_ll_tail ah = 0 \<or> ah_unk_ll_tail ah + 8 \<le> off ah (ah_nfrag ah))"

definition hdr_resting :: "nat \<Rightarrow> nat \<Rightarrow> allocated_headers \<Rightarrow> bool" where
  "hdr_resting mx lim ah \<longleftrightarrow> hdr_shape mx ah \<and> hdr_lay ah (ah_nfrag ah) lim \<and> lim \<le> ah_pos ah \<and>
     (ah_unk_ll_tail ah = 0 \<or> ah_unk_ll_tail ah + 8 \<le> lim)"

text \<open>A position in the name table at which the next character can be looked up.\<close>

definition lex_waiting :: "int \<Rightarrow> bool" where
  "lex_waiting q \<longleftrightarrow> q < 0 \<or> lex_good q \<and> FAIL_CHAR \<le> lextable_h1 ! nat q"

definition hdr_inv :: "nat \<Rightarrow> allocated_headers \<Rightarrow> bool" where
  "hdr_inv mx ah \<longleftrightarrow>
     (case ah_parser_state ah of
        WSI_TOKEN t \<Rightarrow> t < 96 \<and> t \<noteq> WSI_TOKEN_CHALLENGE \<and> ah_frag_index ah ! t \<noteq> 0 \<and> hdr_collecting mx ah
      | WSI_TOKEN_NAME_PART \<Rightarrow> lex_waiting (ah_lextable_pos ah) \<and> (ah_lextable_pos ah < 0 \<longrightarrow> ah_pos ah \<noteq> 0) \<and>
          (if ah_unk_pos ah = 0 then hdr_resting mx (ah_pos ah) ah
           else hdr_resting mx (ah_unk_pos ah) ah \<and> ah_unk_pos ah + 9 \<le> ah_pos ah)
      | WSI_TOKEN_UNKNOWN_VALUE_PART \<Rightarrow> hdr_shape mx ah \<and> hdr_lay ah (ah_nfrag ah) (ah_unk_pos ah) \<and>
          ah_unk_pos ah \<noteq> 0 \<and> ah_unk_ll_tail ah = ah_unk_pos ah \<and> ah_unk_pos ah + 9 \<le> ah_pos ah
      | _ \<Rightarrow> hdr_resting mx (ah_pos ah) ah)"

section \<open>Layout lemmas\<close>

lemma hdr_layI:
  "(\<And>i. 1 \<le> i \<Longrightarrow> i \<le> k \<Longrightarrow> \<exists>j. hdr_seal ah i (if i < k then off ah (i + 1) else lim) j) \<Longrightarrow> hdr_lay ah k lim"
  by (simp add: hdr_lay_def)

lemma hdr_layD:
  assumes "hdr_lay ah k lim" and "1 \<le> i" and "i \<le> k"
  obtains j where "hdr_seal ah i (if i < k then off ah (i + 1) else lim) j"
  using assms by (auto simp: hdr_lay_def)

lemma hdr_seal_mono: "hdr_seal ah i lim j \<Longrightarrow> lim \<le> lim' \<Longrightarrow> hdr_seal ah i lim' j"
  by (simp add: hdr_seal_def)

lemma hdr_lay_mono:
  assumes "hdr_lay ah k lim" and "lim \<le> lim'"
  shows "hdr_lay ah k lim'"
proof (rule hdr_layI)
  fix i
  assume "1 \<le> i" "i \<le> k"
  then obtain j where "hdr_seal ah i (if i < k then off ah (i + 1) else lim) j" by (rule hdr_layD [OF assms(1)])
  then have "hdr_seal ah i (if i < k then off ah (i + 1) else lim') j" by (rule hdr_seal_mono) (use assms(2) in simp)
  then show "\<exists>j. hdr_seal ah i (if i < k then off ah (i + 1) else lim') j" ..
qed

lemma hdr_lay_0 [simp]: "hdr_lay ah 0 lim"
  by (simp add: hdr_lay_def)

lemma hdr_lay_Suc:
  assumes "hdr_lay ah k (off ah (Suc k))" and "hdr_seal ah (Suc k) lim j"
  shows "hdr_lay ah (Suc k) lim"
proof (rule hdr_layI)
  fix i
  assume i: "1 \<le> i" "i \<le> Suc k"
  show "\<exists>j. hdr_seal ah i (if i < Suc k then off ah (i + 1) else lim) j"
  proof (cases "i = Suc k")
    case False
    then obtain j where "hdr_seal ah i (if i < k then off ah (i + 1) else off ah (Suc k)) j"
      using i by (elim hdr_layD [OF assms(1)]) auto
    then show ?thesis using False i by (cases "i = k") auto
  qed (use assms(2) in auto)
qed

text \<open>The fragments are in the order of their offsets.\<close>

lemma hdr_lay_ordered:
  assumes "hdr_lay ah k lim" and "1 \<le> i" and "i \<le> k"
  shows "off ah i + flen ah i < lim"
  using assms(2,3)
proof (induction "k - i" arbitrary: i)
  case 0
  obtain j where "hdr_seal ah i (if i < k then off ah (i + 1) else lim) j" by (rule hdr_layD [OF assms(1) "0.prems"])
  then show ?case using 0 by (simp add: hdr_seal_def)
next
  case (Suc d)
  have "off ah (i + 1) + flen ah (i + 1) < lim" by (rule Suc.hyps(1)) (use Suc.hyps(2) in auto)
  moreover obtain j where "hdr_seal ah i (if i < k then off ah (i + 1) else lim) j" by (rule hdr_layD [OF assms(1) Suc.prems])
  ultimately show ?case using Suc.hyps(2) by (cases "i < k") (auto simp: hdr_seal_def)
qed

lemma hdr_lay_next:
  assumes "hdr_lay ah k lim" and "1 \<le> i" and "i \<le> k"
  shows "(if i < k then off ah (i + 1) else lim) \<le> lim"
  using hdr_lay_ordered [OF assms(1), of "i + 1"] assms(2,3) by auto

text \<open>The layout of the first fragments depends on them, on the bytes below the limit outside the links of the last
  custom header, and on where those are.\<close>

definition link_free :: "allocated_headers \<Rightarrow> nat \<Rightarrow> bool" where
  "link_free ah j \<longleftrightarrow> ah_unk_ll_tail ah = 0 \<or> j < ah_unk_ll_tail ah \<or> ah_unk_ll_tail ah + 8 \<le> j"

definition hdr_agree :: "nat \<Rightarrow> nat \<Rightarrow> allocated_headers \<Rightarrow> allocated_headers \<Rightarrow> bool" where
  "hdr_agree k lim ah ah' \<longleftrightarrow> (\<forall>i. 1 \<le> i \<longrightarrow> i \<le> k \<longrightarrow> off ah' i = off ah i \<and> flen ah' i = flen ah i) \<and>
     length (ah_data ah') = length (ah_data ah) \<and> ah_unk_ll_tail ah' = ah_unk_ll_tail ah \<and>
     (\<forall>h. ah_frag_index ah ! h \<noteq> 0 \<longrightarrow> ah_frag_index ah' ! h = ah_frag_index ah ! h) \<and>
     (\<forall>j < lim. link_free ah j \<longrightarrow> ah_data ah' ! j = ah_data ah ! j)"

lemma hdr_lay_agree:
  assumes "hdr_lay ah k lim" and "hdr_agree k lim ah ah'"
  shows "hdr_lay ah' k lim"
proof (rule hdr_layI)
  fix i
  assume i: "1 \<le> i" "i \<le> k"
  then obtain j where j: "hdr_seal ah i (if i < k then off ah (i + 1) else lim) j" by (rule hdr_layD [OF assms(1)])
  have "j < lim" "link_free ah j" using j hdr_lay_next [OF assms(1) i] by (auto simp: hdr_seal_def link_free_def)
  then have "ah_data ah' ! j = ah_data ah ! j" using assms(2) by (simp add: hdr_agree_def)
  then have "hdr_seal ah' i (if i < k then off ah' (i + 1) else lim) j"
    using j i assms(2) by (auto simp: hdr_seal_def hdr_agree_def)
  then show "\<exists>j. hdr_seal ah' i (if i < k then off ah' (i + 1) else lim) j" ..
qed

text \<open>What a fragment holds, and that it stays, and stays the first of its token.\<close>

definition hdr_val :: "allocated_headers \<Rightarrow> nat \<Rightarrow> int list" where
  "hdr_val ah i = take (flen ah i) (drop (off ah i) (ah_data ah))"

text \<open>The value is followed by a NUL, so that its first byte is a C string.\<close>

definition hdr_nul :: "allocated_headers \<Rightarrow> nat \<Rightarrow> bool" where
  "hdr_nul ah i \<longleftrightarrow> ah_data ah ! (off ah i + flen ah i) = 0"

definition hdr_keeps :: "nat \<Rightarrow> allocated_headers \<Rightarrow> allocated_headers \<Rightarrow> bool" where
  "hdr_keeps k ah ah' \<longleftrightarrow>
     (\<forall>i. 1 \<le> i \<longrightarrow> i \<le> k \<longrightarrow> off ah' i = off ah i \<and> flen ah' i = flen ah i \<and> hdr_val ah' i = hdr_val ah i \<and> hdr_nul ah' i = hdr_nul ah i) \<and>
     (\<forall>h. ah_frag_index ah ! h \<noteq> 0 \<longrightarrow> ah_frag_index ah' ! h = ah_frag_index ah ! h)"

lemma hdr_keeps_refl [simp]: "hdr_keeps k ah ah"
  by (simp add: hdr_keeps_def)

lemma hdr_keeps_trans: "hdr_keeps k ah ah1 \<Longrightarrow> hdr_keeps k' ah1 ah2 \<Longrightarrow> k \<le> k' \<Longrightarrow> hdr_keeps k ah ah2"
  by (simp add: hdr_keeps_def)

lemma hdr_agree_keeps:
  assumes "hdr_lay ah k lim" and "hdr_agree k lim ah ah'"
  shows "hdr_keeps k ah ah'"
proof -
  have "off ah' i = off ah i \<and> flen ah' i = flen ah i \<and> hdr_val ah' i = hdr_val ah i \<and> hdr_nul ah' i = hdr_nul ah i" if i: "1 \<le> i" "i \<le> k" for i
  proof -
    obtain j where j: "hdr_seal ah i (if i < k then off ah (i + 1) else lim) j" using i by (rule hdr_layD [OF assms(1)])
    have o: "off ah' i = off ah i" "flen ah' i = flen ah i" using assms(2) i by (simp_all add: hdr_agree_def)
    have a: "ah_data ah' ! (off ah i + m) = ah_data ah ! (off ah i + m)" if "m \<le> flen ah i" for m
      using j hdr_lay_next [OF assms(1) i] that assms(2) by (auto simp: hdr_agree_def hdr_seal_def link_free_def)
    have "hdr_val ah' i = hdr_val ah i"
      using assms(2) o a by (auto simp: hdr_val_def hdr_agree_def intro!: nth_equalityI)
    then show ?thesis using o a [of "flen ah i"] by (simp add: hdr_nul_def)
  qed
  then show ?thesis using assms(2) by (simp add: hdr_keeps_def hdr_agree_def)
qed

section \<open>Chains\<close>

lemma frag_chain_ok:
  assumes "\<And>i. i \<le> N \<Longrightarrow> frag_nfrag (fs ! i) = 0 \<or> i < frag_nfrag (fs ! i) \<and> frag_nfrag (fs ! i) \<le> N" and "N < length fs"
  shows "n \<le> N \<Longrightarrow> N - n < k \<Longrightarrow>
    \<exists>ns. frag_chain k fs n = Done ns \<and> ns \<noteq> [] \<and> (\<forall>i \<in> set ns. n \<le> i \<and> i \<le> N) \<and> frag_nfrag (fs ! last ns) = 0"
proof (induction k arbitrary: n)
  case (Suc k)
  show ?case
  proof (cases "frag_nfrag (fs ! n) = 0")
    case True
    then show ?thesis using Suc.prems assms(2) by simp
  next
    case False
    let ?m = "frag_nfrag (fs ! n)"
    have m: "n < ?m" "?m \<le> N" using assms(1) [OF Suc.prems(1)] False by auto
    have r: "N - ?m < k" using m Suc.prems(2) by linarith
    obtain ns where "frag_chain k fs ?m = Done ns" "ns \<noteq> []" "\<forall>i \<in> set ns. ?m \<le> i \<and> i \<le> N" "frag_nfrag (fs ! last ns) = 0"
      using Suc.IH [OF m(2) r] by blast
    then show ?thesis using False Suc.prems(1) assms(2) m by auto
  qed
qed simp

lemma hdr_chain_ok:
  assumes "hdr_shape mx ah" and "n \<le> ah_nfrag ah"
  shows "\<exists>ns. hdr_chain ah n = Done ns \<and> ns \<noteq> [] \<and> (\<forall>i \<in> set ns. n \<le> i \<and> i \<le> ah_nfrag ah) \<and> fnext ah (last ns) = 0"
  using assms unfolding hdr_chain_def by (intro frag_chain_ok) (auto simp: hdr_shape_def)

section \<open>Storing a character\<close>

definition ah_store :: "int \<Rightarrow> allocated_headers \<Rightarrow> allocated_headers" where
  "ah_store c ah = ah\<lparr>ah_data := (ah_data ah)[ah_pos ah := c], ah_pos := ah_pos ah + 1,
     ah_frags := (ah_frags ah)[ah_nfrag ah := (ah_frags ah ! ah_nfrag ah)\<lparr>frag_len := flen ah (ah_nfrag ah) + 1\<rparr>]\<rparr>"

definition ah_put :: "int \<Rightarrow> allocated_headers \<Rightarrow> allocated_headers" where
  "ah_put c ah = ah\<lparr>ah_data := (ah_data ah)[ah_pos ah := c], ah_pos := ah_pos ah + 1\<rparr>"

definition ah_len :: "nat \<Rightarrow> allocated_headers \<Rightarrow> allocated_headers" where
  "ah_len n ah = ah\<lparr>ah_frags := (ah_frags ah)[ah_nfrag ah := (ah_frags ah ! ah_nfrag ah)\<lparr>frag_len := n\<rparr>]\<rparr>"

lemma lws_pos_in_bounds_ok:
  "hdr_shape mx ah \<Longrightarrow> lws_pos_in_bounds mx ah = Done (if ah_pos ah < mx then 0 else 1)"
  by (simp add: lws_pos_in_bounds_def hdr_shape_def)

lemma put_data_ok: "ah_pos ah < length (ah_data ah) \<Longrightarrow> put_data c ah = Done (ah_put c ah)"
  by (simp add: put_data_def mem_store_one ah_put_def)

lemma len_dec_ok:
  assumes "hdr_shape mx ah" and "1 \<le> flen ah (ah_nfrag ah)" and "flen ah (ah_nfrag ah) < 65536"
  shows "len_dec ah = Done (ah_len (flen ah (ah_nfrag ah) - 1) ah)"
proof -
  have "nat ((int (flen ah (ah_nfrag ah)) - 1) mod 65536) = flen ah (ah_nfrag ah) - 1" using assms(2,3) by simp
  then show ?thesis using assms(1) by (simp add: hdr_defs ah_len_def hdr_shape_def)
qed

lemma issue_char_ok:
  assumes "hdr_collecting mx ah"
  shows "issue_char mx c ah =
    Done (if \<not> ah_pos ah < mx then (-1, ah)
          else if ah_current_token_limit ah = 0 \<or> flen ah (ah_nfrag ah) < ah_current_token_limit ah then (0, ah_store c ah)
          else (1, ah_put 0 ah))"
proof -
  have sh: "hdr_shape mx ah" using assms by (simp add: hdr_collecting_def)
  have "(int (flen ah (ah_nfrag ah)) + 1) mod 65536 = int (flen ah (ah_nfrag ah)) + 1" if "ah_pos ah < mx"
    using that assms by (simp add: hdr_collecting_def hdr_shape_def)
  then show ?thesis
    using sh assms unfolding issue_char_def lws_pos_in_bounds_ok [OF sh]
    by (auto simp: hdr_shape_def hdr_collecting_def put_data_ok ah_put_def ah_store_def hdr_defs nat_add_distrib)
qed

text \<open>Writing at or above the limit leaves the layout below it; so do changes of the current fragment.\<close>

lemma hdr_agree_update:
  assumes "lim \<le> p" and "k < ah_nfrag ah"
  shows "hdr_agree k lim ah (ah\<lparr>ah_data := (ah_data ah)[p := c], ah_pos := q, ah_frags := (ah_frags ah)[ah_nfrag ah := f]\<rparr>)"
  using assms by (auto simp: hdr_agree_def)

lemma hdr_collectingD:
  assumes "hdr_collecting mx ah"
  shows "hdr_shape mx ah" and "ah_nfrag ah - 1 < ah_nfrag ah" and "hdr_lay ah (ah_nfrag ah - 1) (off ah (ah_nfrag ah))"
    and "off ah (ah_nfrag ah) + flen ah (ah_nfrag ah) \<le> ah_pos ah" and "ah_nfrag ah < length (ah_frags ah)"
    and "ah_unk_ll_tail ah = 0 \<or> ah_unk_ll_tail ah + 8 \<le> off ah (ah_nfrag ah)"
  using assms by (auto simp: hdr_collecting_def hdr_shape_def)

text \<open>One change of the current fragment and the buffer behind it.\<close>

lemma hdr_collecting_change:
  assumes "hdr_collecting mx ah"
    and ah': "ah' = ah\<lparr>ah_data := (ah_data ah)[p := c], ah_pos := q,
      ah_frags := (ah_frags ah)[ah_nfrag ah := (ah_frags ah ! ah_nfrag ah)\<lparr>frag_len := n\<rparr>]\<rparr>"
    and "off ah (ah_nfrag ah) \<le> p" and "off ah (ah_nfrag ah) + n \<le> q" and "q \<le> mx + 1"
    and "ah_current_token_limit ah = 0 \<or> n \<le> ah_current_token_limit ah"
  shows "hdr_collecting mx ah'" and "hdr_keeps (ah_nfrag ah - 1) ah ah'"
proof -
  note D = hdr_collectingD [OF assms(1)]
  have a: "hdr_agree (ah_nfrag ah - 1) (off ah (ah_nfrag ah)) ah ah'"
    unfolding ah' by (rule hdr_agree_update) (use assms(3) D(2) in auto)
  show "hdr_keeps (ah_nfrag ah - 1) ah ah'" by (rule hdr_agree_keeps [OF D(3) a])
  have f: "fnext ah' i = fnext ah i" "off ah' i = off ah i" for i
    using D(5) by (auto simp: ah' nth_list_update)
  have s: "hdr_shape mx ah'" using D(1) assms(5) unfolding hdr_shape_def f by (simp add: ah')
  have "hdr_lay ah' (ah_nfrag ah' - 1) (off ah' (ah_nfrag ah'))" using hdr_lay_agree [OF D(3) a] unfolding f by (simp add: ah')
  then show "hdr_collecting mx ah'"
    using s assms(1,4,6) D(5) unfolding hdr_collecting_def f by (simp add: ah')
qed

lemma hdr_collecting_store:
  assumes "hdr_collecting mx ah" and "ah_pos ah < mx"
    and "ah_current_token_limit ah = 0 \<or> flen ah (ah_nfrag ah) < ah_current_token_limit ah"
  shows "hdr_collecting mx (ah_store c ah)" and "hdr_keeps (ah_nfrag ah - 1) ah (ah_store c ah)"
  using hdr_collecting_change [OF assms(1) refl, where p = "ah_pos ah" and c = c and q = "ah_pos ah + 1" and n = "flen ah (ah_nfrag ah) + 1"]
    hdr_collectingD(4) [OF assms(1)] assms(2,3) by (auto simp: ah_store_def)

lemma hdr_collecting_put:
  assumes "hdr_collecting mx ah" and "ah_pos ah < mx" and "n \<le> flen ah (ah_nfrag ah)"
  shows "hdr_collecting mx (ah_len n (ah_put c ah))" and "hdr_keeps (ah_nfrag ah - 1) ah (ah_len n (ah_put c ah))"
  using hdr_collecting_change [OF assms(1) refl, where p = "ah_pos ah" and c = c and q = "ah_pos ah + 1" and n = n]
    hdr_collectingD(4) [OF assms(1)] assms by (auto simp: ah_len_def ah_put_def hdr_collecting_def)

lemma ah_len_same: "ah_len (flen ah (ah_nfrag ah)) ah = ah"
  by (simp add: ah_len_def)

text \<open>A NUL behind the current fragment completes it.\<close>

lemma hdr_lay_sealed:
  assumes "hdr_collecting mx ah" and "ah_pos ah < mx" and "n \<le> flen ah (ah_nfrag ah)"
  shows "hdr_lay (ah_len n (ah_put 0 ah)) (ah_nfrag ah) (ah_pos ah + 1)"
proof -
  let ?ah = "ah_len n (ah_put 0 ah)"
  have c: "hdr_collecting mx ?ah" by (rule hdr_collecting_put [OF assms])
  have "hdr_seal ?ah (ah_nfrag ah) (ah_pos ah + 1) (ah_pos ah)"
    using hdr_collectingD [OF assms(1)] assms(2,3) by (auto simp: hdr_seal_def ah_len_def ah_put_def hdr_shape_def)
  then show ?thesis
    using hdr_lay_Suc [of ?ah "ah_nfrag ah - 1" "ah_pos ah + 1" "ah_pos ah"] hdr_collectingD(3) [OF c] assms(1)
    by (simp add: hdr_collecting_def ah_len_def ah_put_def)
qed

lemma hdr_resting_sealed:
  assumes "hdr_collecting mx ah" and "ah_pos ah < mx" and "n \<le> flen ah (ah_nfrag ah)"
  shows "hdr_resting mx (ah_pos ah + 1) (ah_len n (ah_put 0 ah))"
  using hdr_lay_sealed [OF assms] hdr_collectingD [OF assms(1)] hdr_collecting_put [OF assms, of 0]
  by (auto simp: hdr_resting_def hdr_collecting_def ah_len_def ah_put_def)

section \<open>A new fragment\<close>

text \<open>\<open>hdr_opened lim p ah ah'\<close>: from \<open>ah\<close>, complete below \<open>lim\<close>, a new fragment was opened at \<open>p\<close>, linked from one of the
  others or the first of a token.\<close>

definition hdr_opened :: "nat \<Rightarrow> allocated_headers \<Rightarrow> allocated_headers \<Rightarrow> bool" where
  "hdr_opened p ah ah' \<longleftrightarrow> (let N = ah_nfrag ah in ah_nfrag ah' = N + 1 \<and> ah_pos ah' = p \<and> ah_data ah' = ah_data ah \<and>
     ah_unk_ll_tail ah' = ah_unk_ll_tail ah \<and> length (ah_frags ah') = 96 \<and> length (ah_frag_index ah') = 96 \<and>
     off ah' (N + 1) = p \<and> flen ah' (N + 1) = 0 \<and> fnext ah' (N + 1) = 0 \<and>
     (\<forall>i \<le> N. off ah' i = off ah i \<and> flen ah' i = flen ah i \<and> (fnext ah' i = fnext ah i \<or> fnext ah' i = N + 1)) \<and>
     (\<forall>h. ah_frag_index ah' ! h = ah_frag_index ah ! h \<or> ah_frag_index ah ! h = 0 \<and> ah_frag_index ah' ! h = N + 1))"

lemma hdr_opened_collecting:
  assumes "hdr_resting mx lim ah" and "hdr_opened p ah ah'" and "ah_nfrag ah + 1 < 96" and "lim \<le> p" and "p \<le> mx + 1"
  shows "hdr_collecting mx ah'" and "hdr_keeps (ah_nfrag ah) ah ah'"
proof -
  let ?N = "ah_nfrag ah"
  have lay: "hdr_lay ah ?N p" using assms(1,4) by (auto simp: hdr_resting_def intro: hdr_lay_mono)
  have ag: "hdr_agree ?N p ah ah'" using assms(2) by (auto simp: hdr_agree_def hdr_opened_def Let_def)
  show "hdr_keeps ?N ah ah'" by (rule hdr_agree_keeps [OF lay ag])
  have idx: "ah_frag_index ah' ! h \<le> ?N + 1" if "h < 96" for h
    using assms(1,2) that unfolding hdr_resting_def hdr_shape_def hdr_opened_def Let_def by (metis le_add1 le_refl order_trans)
  have nx: "fnext ah' i = 0 \<or> i < fnext ah' i \<and> fnext ah' i \<le> ?N + 1" if "i \<le> ?N + 1" for i
  proof (cases "i = ?N + 1")
    case False
    then have "fnext ah i = 0 \<or> i < fnext ah i \<and> fnext ah i \<le> ?N" "fnext ah' i = fnext ah i \<or> fnext ah' i = ?N + 1"
      using assms(1,2) that by (auto simp: hdr_resting_def hdr_shape_def hdr_opened_def Let_def)
    then show ?thesis using False that by auto
  qed (use assms(2) in \<open>simp add: hdr_opened_def Let_def\<close>)
  have "hdr_shape mx ah'"
    using assms(1,2,3,5) idx nx by (auto simp: hdr_resting_def hdr_shape_def hdr_opened_def Let_def)
  then show "hdr_collecting mx ah'"
    using hdr_lay_agree [OF lay ag] assms(1,2,4) by (auto simp: hdr_collecting_def hdr_opened_def Let_def hdr_resting_def)
qed

section \<open>The parts of a URI\<close>

lemma len_dec_store:
  assumes "hdr_collecting mx ah" and "ah_pos ah < mx"
    and "ah_current_token_limit ah = 0 \<or> flen ah (ah_nfrag ah) < ah_current_token_limit ah"
  shows "len_dec (ah_store c ah) = Done (ah_put c ah)"
proof -
  have "flen ah (ah_nfrag ah) + 1 < 65536" using assms(2) hdr_collectingD(1,4) [OF assms(1)] by (auto simp: hdr_shape_def)
  then show ?thesis
    using len_dec_ok [of mx "ah_store c ah"] hdr_collectingD(1) [OF hdr_collecting_store(1) [OF assms]] hdr_collectingD(5) [OF assms(1)]
    by (simp add: ah_store_def ah_len_def ah_put_def)
qed

lemma uri_seal_ok:
  assumes "hdr_collecting mx ah"
  shows "\<exists>n \<le> flen ah (ah_nfrag ah).
    uri_seal mx ah = Done (if ah_pos ah < mx then (True, ah_len n (ah_put 0 ah)) else (False, ah)) \<and>
    (ah_current_token_limit ah = 0 \<or> flen ah (ah_nfrag ah) < ah_current_token_limit ah \<longrightarrow> n = flen ah (ah_nfrag ah))"
proof -
  note D = hdr_collectingD [OF assms]
  let ?f = "flen ah (ah_nfrag ah)"
  show ?thesis
  proof (cases "ah_pos ah < mx")
    case False
    then show ?thesis by (auto simp: uri_seal_def issue_char_ok [OF assms])
  next
    case True
    have b: "?f + 1 < 65536" using True D(1,4) by (auto simp: hdr_shape_def)
    show ?thesis
    proof (cases "ah_current_token_limit ah = 0 \<or> ?f < ah_current_token_limit ah")
      case room: True
      have "len_dec (ah_store 0 ah) = Done (ah_len ?f (ah_put 0 ah))"
        using len_dec_store [OF assms True room] by (simp add: ah_len_def ah_put_def)
      then show ?thesis using room True by (auto simp: uri_seal_def issue_char_ok [OF assms])
    next
      case False
      have "len_dec (ah_put 0 ah) = Done (ah_len (?f - 1) (ah_put 0 ah))"
        using len_dec_ok [of mx "ah_put 0 ah"] hdr_collectingD(1) [OF hdr_collecting_put(1) [OF assms True order_refl]]
          b False D(5) assms by (simp add: ah_len_def ah_put_def hdr_collecting_def)
      then show ?thesis using False True by (intro exI [of _ "?f - 1"]) (auto simp: uri_seal_def issue_char_ok [OF assms])
    qed
  qed
qed

lemma uri_back_ok:
  "2 \<le> n \<Longrightarrow> n \<le> p \<Longrightarrow> p \<le> length d \<Longrightarrow> p < 2 ^ 32 \<Longrightarrow>
   \<exists>m. 1 \<le> m \<and> m < n \<and> uri_back d p n = Done (p - (n - m), m) \<and> (m = 1 \<or> d ! (p - (n - m)) = 47)"
proof (induction d p n rule: uri_back.induct)
  case (2 d p n)
  show ?case
  proof (cases "n > 1 \<and> d ! (p - 1) \<noteq> 47")
    case True
    have u: "u32_sub p 1 = p - 1" using "2.prems" by simp
    have "\<exists>m. 1 \<le> m \<and> m < n \<and> uri_back d (p - 1) n = Done (p - 1 - (n - m), m) \<and> (m = 1 \<or> d ! (p - 1 - (n - m)) = 47)"
      using "2.IH" [OF u [symmetric]] True "2.prems" by (simp add: u)
    then obtain m where m: "1 \<le> m" "m < n" "uri_back d (p - 1) n = Done (p - 1 - (n - m), m)" "m = 1 \<or> d ! (p - 1 - (n - m)) = 47"
      by blast
    have "p - 1 - (n - m) = p - (Suc n - m)" using m(2) "2.prems" by simp
    then show ?thesis using m True "2.prems" by (intro exI [of _ m]) (auto simp: Let_def)
  next
    case False
    then show ?thesis using "2.prems" by (intro exI [of _ n]) (auto simp: Let_def)
  qed
qed simp

lemma uri_up_ok:
  assumes "hdr_collecting mx ah"
  shows "\<exists>m. uri_up ah = Done ((ah_len m ah)\<lparr>ah_pos := ah_pos ah - (flen ah (ah_nfrag ah) - m)\<rparr>) \<and>
    m \<le> flen ah (ah_nfrag ah) \<and>
    (m = flen ah (ah_nfrag ah) \<or> m = 1 \<or> ah_data ah ! (ah_pos ah - (flen ah (ah_nfrag ah) - m)) = 47)"
proof -
  note D = hdr_collectingD [OF assms]
  let ?f = "flen ah (ah_nfrag ah)"
  show ?thesis
  proof (cases "?f > 2")
    case True
    have b: "?f \<le> ah_pos ah" "ah_pos ah - 1 \<le> length (ah_data ah)" "ah_pos ah < 2 ^ 32" "u32_sub (ah_pos ah) 1 = ah_pos ah - 1"
      using D(1,4) True by (auto simp: hdr_shape_def)
    have c: "2 \<le> ?f - 1" "?f - 1 \<le> ah_pos ah - 1" "ah_pos ah - 1 \<le> length (ah_data ah)" "ah_pos ah - 1 < 2 ^ 32"
      using b True by auto
    obtain m where m: "1 \<le> m" "m < ?f - 1" "uri_back (ah_data ah) (ah_pos ah - 1) (?f - 1) = Done (ah_pos ah - 1 - (?f - 1 - m), m)"
      "m = 1 \<or> ah_data ah ! (ah_pos ah - 1 - (?f - 1 - m)) = 47"
      using uri_back_ok [of "?f - 1" "ah_pos ah - 1" "ah_data ah", OF c] by blast
    have e: "ah_pos ah - 1 - (?f - 1 - m) = ah_pos ah - (?f - m)" using m(1,2) by simp
    show ?thesis using m(2-4) D(5) True b(4) unfolding e
      by (intro exI [of _ m]) (auto simp: uri_up_def hdr_defs ah_len_def)
  next
    case False
    then show ?thesis using D(5) by (intro exI [of _ ?f]) (auto simp: uri_up_def hdr_defs ah_len_same)
  qed
qed

lemma hdr_collecting_up:
  assumes "hdr_collecting mx ah" and "m \<le> flen ah (ah_nfrag ah)"
    and ah': "ah' = (ah_len m ah)\<lparr>ah_pos := ah_pos ah - (flen ah (ah_nfrag ah) - m)\<rparr>"
  shows "hdr_collecting mx ah'" and "hdr_keeps (ah_nfrag ah - 1) ah ah'"
proof -
  note D = hdr_collectingD [OF assms(1)]
  let ?p = "ah_pos ah - (flen ah (ah_nfrag ah) - m)"
  have eq: "ah' = ah\<lparr>ah_data := (ah_data ah)[length (ah_data ah) + ah_pos ah := 0], ah_pos := ?p,
      ah_frags := (ah_frags ah)[ah_nfrag ah := (ah_frags ah ! ah_nfrag ah)\<lparr>frag_len := m\<rparr>]\<rparr>"
    by (cases ah) (simp add: ah' ah_len_def list_update_beyond)
  have "off ah (ah_nfrag ah) \<le> length (ah_data ah) + ah_pos ah" "off ah (ah_nfrag ah) + m \<le> ?p" "?p \<le> mx + 1"
    "ah_current_token_limit ah = 0 \<or> m \<le> ah_current_token_limit ah"
    using D(1,4) assms by (auto simp: hdr_shape_def hdr_collecting_def)
  from hdr_collecting_change [OF assms(1) eq this]
  show "hdr_collecting mx ah'" "hdr_keeps (ah_nfrag ah - 1) ah ah'" by simp_all
qed

lemma uri_next_frag_ok:
  assumes "hdr_resting mx (ah_pos ah) ah" and "ah_pos ah \<le> mx" and "ah1 = ah \<or>
      ah1 = ah\<lparr>ah_frags := (ah_frags ah)[ah_nfrag ah := (ah_frags ah ! ah_nfrag ah)\<lparr>frag_nfrag := ah_nfrag ah + 1\<rparr>]\<rparr>"
  shows "\<exists>ah'. uri_next_frag ah1 = Done (ah_nfrag ah + 1 < 96, ah') \<and> ah_nfrag ah' = ah_nfrag ah + 1 \<and>
    ah_parser_state ah' = ah_parser_state ah \<and> length (ah_frags ah') = 96 \<and> ah_frag_index ah' = ah_frag_index ah \<and>
    (ah_nfrag ah + 1 < 96 \<longrightarrow> hdr_opened (ah_pos ah + 1) ah ah')"
proof -
  let ?N = "ah_nfrag ah"
  have sh: "length (ah_frags ah) = 96" "length (ah_frag_index ah) = 96" "?N < 96"
    using assms(1) by (auto simp: hdr_resting_def hdr_shape_def)
  have a1: "length (ah_frags ah1) = 96" "ah_nfrag ah1 = ?N" "ah_frag_index ah1 = ah_frag_index ah" "ah_pos ah1 = ah_pos ah"
    "ah_data ah1 = ah_data ah" "ah_unk_ll_tail ah1 = ah_unk_ll_tail ah" "ah_parser_state ah1 = ah_parser_state ah"
    "\<And>i. off ah1 i = off ah i" "\<And>i. flen ah1 i = flen ah i" "\<And>i. fnext ah1 i = fnext ah i \<or> fnext ah1 i = ?N + 1"
    using assms(3) sh by (auto simp: nth_list_update)
  have m: "(?N + 1) mod 256 = ?N + 1" using sh(3) by simp
  show ?thesis
  proof (cases "?N + 1 < 96")
    case True
    define ah2 where "ah2 = ah1\<lparr>ah_nfrag := ?N + 1, ah_post_literal_equal := False, ah_pos := ah_pos ah + 1\<rparr>"
    define ah3 where "ah3 = ah2\<lparr>ah_frags := (ah_frags ah2)[?N + 1 := (ah_frags ah2 ! (?N + 1))\<lparr>frag_offset := ah_pos ah + 1, frag_len := 0, frag_nfrag := 0\<rparr>]\<rparr>"
    have e: "uri_next_frag ah1 = Done (True, ah3)"
      unfolding uri_next_frag_def a1(2) m Let_def
      using True a1(1,4) by (simp add: hdr_defs ah3_def ah2_def)
    have "ah_nfrag ah3 = ?N + 1" "ah_parser_state ah3 = ah_parser_state ah" "length (ah_frags ah3) = 96"
      "ah_frag_index ah3 = ah_frag_index ah" "hdr_opened (ah_pos ah + 1) ah ah3"
      using a1 sh True by (simp_all add: ah3_def ah2_def hdr_opened_def Let_def)
    then show ?thesis using e True by auto
  next
    case False
    then show ?thesis using a1 sh by (simp add: uri_next_frag_def Let_def)
  qed
qed

section \<open>The fields the layout does not depend on\<close>

lemma hdr_shape_fields [simp]:
  "hdr_shape mx (ah\<lparr>ah_ups := v_ups\<rparr>) = hdr_shape mx ah"
  "hdr_shape mx (ah\<lparr>ah_ues := v_ues\<rparr>) = hdr_shape mx ah"
  "hdr_shape mx (ah\<lparr>ah_esc_stash := v_esc_stash\<rparr>) = hdr_shape mx ah"
  "hdr_shape mx (ah\<lparr>ah_post_literal_equal := v_post_literal_equal\<rparr>) = hdr_shape mx ah"
  "hdr_shape mx (ah\<lparr>ah_parser_state := v_parser_state\<rparr>) = hdr_shape mx ah"
  "hdr_shape mx (ah\<lparr>ah_lextable_pos := v_lextable_pos\<rparr>) = hdr_shape mx ah"
  "hdr_shape mx (ah\<lparr>ah_unk_pos := v_unk_pos\<rparr>) = hdr_shape mx ah"
  "hdr_shape mx (ah\<lparr>ah_hdr_token_idx := v_hdr_token_idx\<rparr>) = hdr_shape mx ah"
  "hdr_shape mx (ah\<lparr>ah_unk_value_pos := v_unk_value_pos\<rparr>) = hdr_shape mx ah"
  "hdr_shape mx (ah\<lparr>ah_unk_ll_head := v_unk_ll_head\<rparr>) = hdr_shape mx ah"
  by (simp_all add: hdr_shape_def)

lemma hdr_lay_fields [simp]:
  "hdr_lay (ah\<lparr>ah_ups := v_ups\<rparr>) k lim = hdr_lay ah k lim"
  "hdr_lay (ah\<lparr>ah_ues := v_ues\<rparr>) k lim = hdr_lay ah k lim"
  "hdr_lay (ah\<lparr>ah_esc_stash := v_esc_stash\<rparr>) k lim = hdr_lay ah k lim"
  "hdr_lay (ah\<lparr>ah_post_literal_equal := v_post_literal_equal\<rparr>) k lim = hdr_lay ah k lim"
  "hdr_lay (ah\<lparr>ah_parser_state := v_parser_state\<rparr>) k lim = hdr_lay ah k lim"
  "hdr_lay (ah\<lparr>ah_lextable_pos := v_lextable_pos\<rparr>) k lim = hdr_lay ah k lim"
  "hdr_lay (ah\<lparr>ah_unk_pos := v_unk_pos\<rparr>) k lim = hdr_lay ah k lim"
  "hdr_lay (ah\<lparr>ah_hdr_token_idx := v_hdr_token_idx\<rparr>) k lim = hdr_lay ah k lim"
  "hdr_lay (ah\<lparr>ah_unk_value_pos := v_unk_value_pos\<rparr>) k lim = hdr_lay ah k lim"
  "hdr_lay (ah\<lparr>ah_unk_ll_head := v_unk_ll_head\<rparr>) k lim = hdr_lay ah k lim"
  by (simp_all add: hdr_lay_def hdr_seal_def)

lemma hdr_val_fields [simp]:
  "hdr_val (ah\<lparr>ah_ups := v_ups\<rparr>) = hdr_val ah"
  "hdr_val (ah\<lparr>ah_ues := v_ues\<rparr>) = hdr_val ah"
  "hdr_val (ah\<lparr>ah_esc_stash := v_esc_stash\<rparr>) = hdr_val ah"
  "hdr_val (ah\<lparr>ah_post_literal_equal := v_post_literal_equal\<rparr>) = hdr_val ah"
  "hdr_val (ah\<lparr>ah_parser_state := v_parser_state\<rparr>) = hdr_val ah"
  "hdr_val (ah\<lparr>ah_lextable_pos := v_lextable_pos\<rparr>) = hdr_val ah"
  "hdr_val (ah\<lparr>ah_unk_pos := v_unk_pos\<rparr>) = hdr_val ah"
  "hdr_val (ah\<lparr>ah_hdr_token_idx := v_hdr_token_idx\<rparr>) = hdr_val ah"
  "hdr_val (ah\<lparr>ah_unk_value_pos := v_unk_value_pos\<rparr>) = hdr_val ah"
  "hdr_val (ah\<lparr>ah_unk_ll_head := v_unk_ll_head\<rparr>) = hdr_val ah"
  by (simp_all add: hdr_val_def fun_eq_iff)

lemma hdr_nul_fields [simp]:
  "hdr_nul (ah\<lparr>ah_ups := v_ups\<rparr>) = hdr_nul ah"
  "hdr_nul (ah\<lparr>ah_ues := v_ues\<rparr>) = hdr_nul ah"
  "hdr_nul (ah\<lparr>ah_esc_stash := v_esc_stash\<rparr>) = hdr_nul ah"
  "hdr_nul (ah\<lparr>ah_post_literal_equal := v_post_literal_equal\<rparr>) = hdr_nul ah"
  "hdr_nul (ah\<lparr>ah_parser_state := v_parser_state\<rparr>) = hdr_nul ah"
  "hdr_nul (ah\<lparr>ah_lextable_pos := v_lextable_pos\<rparr>) = hdr_nul ah"
  "hdr_nul (ah\<lparr>ah_unk_pos := v_unk_pos\<rparr>) = hdr_nul ah"
  "hdr_nul (ah\<lparr>ah_hdr_token_idx := v_hdr_token_idx\<rparr>) = hdr_nul ah"
  "hdr_nul (ah\<lparr>ah_unk_value_pos := v_unk_value_pos\<rparr>) = hdr_nul ah"
  "hdr_nul (ah\<lparr>ah_unk_ll_head := v_unk_ll_head\<rparr>) = hdr_nul ah"
  by (simp_all add: hdr_nul_def fun_eq_iff)

lemma hdr_collecting_fields [simp]:
  "hdr_collecting mx (ah\<lparr>ah_ups := v_ups\<rparr>) = hdr_collecting mx ah"
  "hdr_collecting mx (ah\<lparr>ah_ues := v_ues\<rparr>) = hdr_collecting mx ah"
  "hdr_collecting mx (ah\<lparr>ah_esc_stash := v_esc_stash\<rparr>) = hdr_collecting mx ah"
  "hdr_collecting mx (ah\<lparr>ah_post_literal_equal := v_post_literal_equal\<rparr>) = hdr_collecting mx ah"
  "hdr_collecting mx (ah\<lparr>ah_parser_state := v_parser_state\<rparr>) = hdr_collecting mx ah"
  "hdr_collecting mx (ah\<lparr>ah_lextable_pos := v_lextable_pos\<rparr>) = hdr_collecting mx ah"
  "hdr_collecting mx (ah\<lparr>ah_unk_pos := v_unk_pos\<rparr>) = hdr_collecting mx ah"
  "hdr_collecting mx (ah\<lparr>ah_hdr_token_idx := v_hdr_token_idx\<rparr>) = hdr_collecting mx ah"
  "hdr_collecting mx (ah\<lparr>ah_unk_value_pos := v_unk_value_pos\<rparr>) = hdr_collecting mx ah"
  "hdr_collecting mx (ah\<lparr>ah_unk_ll_head := v_unk_ll_head\<rparr>) = hdr_collecting mx ah"
  by (simp_all add: hdr_collecting_def)

lemma hdr_resting_fields [simp]:
  "hdr_resting mx lim (ah\<lparr>ah_ups := v_ups\<rparr>) = hdr_resting mx lim ah"
  "hdr_resting mx lim (ah\<lparr>ah_ues := v_ues\<rparr>) = hdr_resting mx lim ah"
  "hdr_resting mx lim (ah\<lparr>ah_esc_stash := v_esc_stash\<rparr>) = hdr_resting mx lim ah"
  "hdr_resting mx lim (ah\<lparr>ah_post_literal_equal := v_post_literal_equal\<rparr>) = hdr_resting mx lim ah"
  "hdr_resting mx lim (ah\<lparr>ah_parser_state := v_parser_state\<rparr>) = hdr_resting mx lim ah"
  "hdr_resting mx lim (ah\<lparr>ah_lextable_pos := v_lextable_pos\<rparr>) = hdr_resting mx lim ah"
  "hdr_resting mx lim (ah\<lparr>ah_unk_pos := v_unk_pos\<rparr>) = hdr_resting mx lim ah"
  "hdr_resting mx lim (ah\<lparr>ah_hdr_token_idx := v_hdr_token_idx\<rparr>) = hdr_resting mx lim ah"
  "hdr_resting mx lim (ah\<lparr>ah_unk_value_pos := v_unk_value_pos\<rparr>) = hdr_resting mx lim ah"
  "hdr_resting mx lim (ah\<lparr>ah_unk_ll_head := v_unk_ll_head\<rparr>) = hdr_resting mx lim ah"
  by (simp_all add: hdr_resting_def)

lemma hdr_keeps_fields [simp]:
  "hdr_keeps k ah (ah'\<lparr>ah_ups := v_ups\<rparr>) = hdr_keeps k ah ah'"
  "hdr_keeps k ah (ah'\<lparr>ah_ues := v_ues\<rparr>) = hdr_keeps k ah ah'"
  "hdr_keeps k ah (ah'\<lparr>ah_esc_stash := v_esc_stash\<rparr>) = hdr_keeps k ah ah'"
  "hdr_keeps k ah (ah'\<lparr>ah_post_literal_equal := v_post_literal_equal\<rparr>) = hdr_keeps k ah ah'"
  "hdr_keeps k ah (ah'\<lparr>ah_parser_state := v_parser_state\<rparr>) = hdr_keeps k ah ah'"
  "hdr_keeps k ah (ah'\<lparr>ah_lextable_pos := v_lextable_pos\<rparr>) = hdr_keeps k ah ah'"
  "hdr_keeps k ah (ah'\<lparr>ah_unk_pos := v_unk_pos\<rparr>) = hdr_keeps k ah ah'"
  "hdr_keeps k ah (ah'\<lparr>ah_hdr_token_idx := v_hdr_token_idx\<rparr>) = hdr_keeps k ah ah'"
  "hdr_keeps k ah (ah'\<lparr>ah_unk_value_pos := v_unk_value_pos\<rparr>) = hdr_keeps k ah ah'"
  "hdr_keeps k ah (ah'\<lparr>ah_unk_ll_head := v_unk_ll_head\<rparr>) = hdr_keeps k ah ah'"
  by (simp_all add: hdr_keeps_def)

lemma hdr_keeps_fields_left [simp]:
  "hdr_keeps k (ah\<lparr>ah_ups := v_ups\<rparr>) ah' = hdr_keeps k ah ah'"
  "hdr_keeps k (ah\<lparr>ah_ues := v_ues\<rparr>) ah' = hdr_keeps k ah ah'"
  "hdr_keeps k (ah\<lparr>ah_esc_stash := v_esc_stash\<rparr>) ah' = hdr_keeps k ah ah'"
  "hdr_keeps k (ah\<lparr>ah_post_literal_equal := v_post_literal_equal\<rparr>) ah' = hdr_keeps k ah ah'"
  "hdr_keeps k (ah\<lparr>ah_parser_state := v_parser_state\<rparr>) ah' = hdr_keeps k ah ah'"
  "hdr_keeps k (ah\<lparr>ah_lextable_pos := v_lextable_pos\<rparr>) ah' = hdr_keeps k ah ah'"
  "hdr_keeps k (ah\<lparr>ah_unk_pos := v_unk_pos\<rparr>) ah' = hdr_keeps k ah ah'"
  "hdr_keeps k (ah\<lparr>ah_hdr_token_idx := v_hdr_token_idx\<rparr>) ah' = hdr_keeps k ah ah'"
  "hdr_keeps k (ah\<lparr>ah_unk_value_pos := v_unk_value_pos\<rparr>) ah' = hdr_keeps k ah ah'"
  "hdr_keeps k (ah\<lparr>ah_unk_ll_head := v_unk_ll_head\<rparr>) ah' = hdr_keeps k ah ah'"
  by (simp_all add: hdr_keeps_def)


section \<open>One character of a URI\<close>

text \<open>What a step of the URI decoder may do to the table, by its result.\<close>

definition uri_ok :: "nat \<Rightarrow> allocated_headers \<Rightarrow> lpur option \<Rightarrow> allocated_headers \<Rightarrow> bool" where
  "uri_ok mx ah r ah' \<longleftrightarrow> ah_parser_state ah' = ah_parser_state ah \<and> (r = None \<longrightarrow> ah_frag_index ah' = ah_frag_index ah) \<and>
     (r \<in> {None, Some LPUR_CONTINUE, Some LPUR_SWALLOW} \<longrightarrow>
        hdr_collecting mx ah' \<and> hdr_keeps (ah_nfrag ah - 1) ah ah' \<and> ah_nfrag ah \<le> ah_nfrag ah') \<and>
     (r = Some LPUR_EXCESSIVE \<longrightarrow> ah_nfrag ah' = 96 \<and> length (ah_frags ah') = 96)"

lemma uri_next_part:
  assumes "hdr_collecting mx ah" and "ah_pos ah < mx" and "n \<le> flen ah (ah_nfrag ah)" and "ah0 = ah_len n (ah_put 0 ah)"
    and "ah1 = ah0 \<or> ah1 = ah0\<lparr>ah_frags := (ah_frags ah0)[ah_nfrag ah0 := (ah_frags ah0 ! ah_nfrag ah0)\<lparr>frag_nfrag := ah_nfrag ah0 + 1\<rparr>]\<rparr>"
  shows "\<exists>ok ah'. uri_next_frag ah1 = Done (ok, ah') \<and> ah_nfrag ah' = ah_nfrag ah + 1 \<and>
    ah_parser_state ah' = ah_parser_state ah \<and> ah_frag_index ah' = ah_frag_index ah \<and> length (ah_frags ah') = 96 \<and>
    (if ok then hdr_collecting mx ah' \<and> hdr_keeps (ah_nfrag ah - 1) ah ah' else ah_nfrag ah' = 96)"
proof -
  have n: "ah_nfrag ah0 = ah_nfrag ah" "ah_pos ah0 = ah_pos ah + 1" "ah_parser_state ah0 = ah_parser_state ah"
    "ah_frag_index ah0 = ah_frag_index ah" by (simp_all add: assms(4) ah_len_def ah_put_def)
  have r: "hdr_resting mx (ah_pos ah0) ah0" using hdr_resting_sealed [OF assms(1-3)] by (simp add: n(2) flip: assms(4))
  have k: "hdr_keeps (ah_nfrag ah - 1) ah ah0" using hdr_collecting_put(2) [OF assms(1-3)] by (simp add: assms(4))
  obtain ah' where u: "uri_next_frag ah1 = Done (ah_nfrag ah0 + 1 < 96, ah')" "ah_nfrag ah' = ah_nfrag ah0 + 1"
    "ah_parser_state ah' = ah_parser_state ah0" "length (ah_frags ah') = 96" "ah_frag_index ah' = ah_frag_index ah0"
    "ah_nfrag ah0 + 1 < 96 \<longrightarrow> hdr_opened (ah_pos ah0 + 1) ah0 ah'"
    using uri_next_frag_ok [OF r _ assms(5)] assms(2) n(2) by auto
  have "hdr_collecting mx ah' \<and> hdr_keeps (ah_nfrag ah - 1) ah ah'" if "ah_nfrag ah0 + 1 < 96"
    using hdr_opened_collecting [OF r mp [OF u(6) that] that] assms(2) n k by (auto intro: hdr_keeps_trans)
  moreover have "ah_nfrag ah0 < 96" using r by (simp add: hdr_resting_def hdr_shape_def)
  ultimately show ?thesis using u n by auto
qed

lemma uri_idle_ok:
  assumes "hdr_collecting mx ah"
  shows "\<exists>r c' ah'. uri_idle mx args enc c ah = Done (r, c', ah') \<and> uri_ok mx ah r ah'"
proof (cases "(c = 38 \<or> c = 59) \<and> \<not> enc")
  case True
  obtain n where n: "n \<le> flen ah (ah_nfrag ah)"
      "uri_seal mx ah = Done (if ah_pos ah < mx then (True, ah_len n (ah_put 0 ah)) else (False, ah))"
    using uri_seal_ok [OF assms] by blast
  show ?thesis
  proof (cases "ah_pos ah < mx")
    case False
    then show ?thesis using True n(2) by (auto simp: uri_idle_def uri_ok_def)
  next
    case p: True
    define ah0 where "ah0 = ah_len n (ah_put 0 ah)"
    define ah1 where "ah1 = ah0\<lparr>ah_frags := (ah_frags ah0)[ah_nfrag ah0 := (ah_frags ah0 ! ah_nfrag ah0)\<lparr>frag_nfrag := ah_nfrag ah0 + 1\<rparr>]\<rparr>"
    have "ah_nfrag ah0 < length (ah_frags ah0)" "ah_nfrag ah0 + 1 < 256"
      using hdr_collectingD(1) [OF hdr_collecting_put(1) [OF assms p n(1)]] by (simp_all add: ah0_def hdr_shape_def ah_len_def ah_put_def)
    then have l: "upd_frag (ah_nfrag ah0) (\<lambda>f. f\<lparr>frag_nfrag := (ah_nfrag ah0 + 1) mod 256\<rparr>) ah0 = Done ah1"
      by (simp add: hdr_defs ah1_def)
    obtain ok ah' where u: "uri_next_frag ah1 = Done (ok, ah')" "ah_nfrag ah' = ah_nfrag ah + 1"
        "ah_parser_state ah' = ah_parser_state ah" "length (ah_frags ah') = 96"
        "if ok then hdr_collecting mx ah' \<and> hdr_keeps (ah_nfrag ah - 1) ah ah' else ah_nfrag ah' = 96"
      using uri_next_part [OF assms p n(1) ah0_def disjI2 [OF ah1_def]] by blast
    have "uri_seal mx ah = Done (True, ah0)" using n(2) p by (simp add: ah0_def)
    then have "uri_idle mx args enc c ah = Done (Some (if ok then LPUR_SWALLOW else LPUR_EXCESSIVE), c, ah')"
      unfolding uri_idle_def if_P [OF True] using l u(1) by (simp del: bind_outcome_eq_Done)
    moreover have "uri_ok mx ah (Some (if ok then LPUR_SWALLOW else LPUR_EXCESSIVE)) ah'"
      using u by (auto simp: uri_ok_def split: if_splits)
    ultimately show ?thesis by blast
  qed
next
  case False
  then show ?thesis unfolding uri_idle_def Let_def if_not_P [OF False] using assms
    by (auto simp: uri_ok_def)
qed

lemma uri_ok_issue:
  assumes "hdr_collecting mx ah"
  shows "\<exists>r ah'. issue_char mx c ah = Done (r, ah') \<and> ah_parser_state ah' = ah_parser_state ah \<and> ah_nfrag ah' = ah_nfrag ah \<and>
    hdr_collecting mx ah' \<and> hdr_keeps (ah_nfrag ah - 1) ah ah' \<and> ah_frag_index ah' = ah_frag_index ah"
  using hdr_collecting_store [OF assms] hdr_collecting_put [OF assms _ order_refl, of 0] assms
  by (auto simp: issue_char_ok ah_store_def ah_put_def ah_len_def)

lemma uri_okI:
  "ah_parser_state ah' = ah_parser_state ah \<Longrightarrow> hdr_collecting mx ah' \<Longrightarrow> hdr_keeps (ah_nfrag ah - 1) ah ah' \<Longrightarrow>
   ah_nfrag ah \<le> ah_nfrag ah' \<Longrightarrow> r \<noteq> Some LPUR_EXCESSIVE \<Longrightarrow>
   (r = None \<Longrightarrow> ah_frag_index ah' = ah_frag_index ah) \<Longrightarrow> uri_ok mx ah r ah'"
  by (simp add: uri_ok_def)

lemma uri_path_ok:
  assumes "hdr_collecting mx ah"
  shows "\<exists>r c' ah'. uri_path mx args enc c ah = Done (r, c', ah') \<and> uri_ok mx ah r ah'"
proof (cases "ah_ups ah")
  case URIPS_IDLE
  then show ?thesis using uri_idle_ok [OF assms] by (simp add: uri_path_def)
next
  case URIPS_SEEN_SLASH
  then show ?thesis using assms by (auto simp: uri_path_def intro!: uri_okI)
next
  case URIPS_SEEN_SLASH_DOT
  have c: "hdr_collecting mx (ah\<lparr>ah_ups := URIPS_IDLE\<rparr>)" using assms by simp
  obtain r ah' where i: "issue_char mx 46 (ah\<lparr>ah_ups := URIPS_IDLE\<rparr>) = Done (r, ah')" "ah_parser_state ah' = ah_parser_state ah"
    "ah_nfrag ah' = ah_nfrag ah" "hdr_collecting mx ah'" "hdr_keeps (ah_nfrag ah - 1) ah ah'" "ah_frag_index ah' = ah_frag_index ah"
    using uri_ok_issue [OF c, of 46] by auto
  then show ?thesis using assms URIPS_SEEN_SLASH_DOT by (auto simp: uri_path_def intro!: uri_okI)
next
  case URIPS_SEEN_SLASH_DOT_DOT
  show ?thesis
  proof (cases "c = 47 \<or> c = 63")
    case True
    obtain m where m: "uri_up ah = Done ((ah_len m ah)\<lparr>ah_pos := ah_pos ah - (flen ah (ah_nfrag ah) - m)\<rparr>)" "m \<le> flen ah (ah_nfrag ah)"
      using uri_up_ok [OF assms] by blast
    define ah' where "ah' = (ah_len m ah)\<lparr>ah_pos := ah_pos ah - (flen ah (ah_nfrag ah) - m)\<rparr>"
    have c: "hdr_collecting mx ah'" "hdr_keeps (ah_nfrag ah - 1) ah ah'" using hdr_collecting_up [OF assms m(2) ah'_def] by auto
    have n: "ah_nfrag ah' = ah_nfrag ah" "ah_parser_state ah' = ah_parser_state ah" "ah_frag_index ah' = ah_frag_index ah" by (simp_all add: ah'_def ah_len_def)
    have "frag_at ah' (ah_nfrag ah') = Done (ah_frags ah' ! ah_nfrag ah')" using hdr_collectingD(5) [OF c(1)] by (simp add: hdr_defs)
    then show ?thesis
      using True URIPS_SEEN_SLASH_DOT_DOT m(1) c n by (auto simp: uri_path_def intro!: uri_okI simp flip: ah'_def)
  next
    case False
    obtain r1 ah1 where i1: "issue_char mx 46 ah = Done (r1, ah1)" "ah_parser_state ah1 = ah_parser_state ah"
      "ah_nfrag ah1 = ah_nfrag ah" "hdr_collecting mx ah1" "hdr_keeps (ah_nfrag ah - 1) ah ah1" "ah_frag_index ah1 = ah_frag_index ah"
      using uri_ok_issue [OF assms] by blast
    obtain r2 ah2 where i2: "issue_char mx 46 ah1 = Done (r2, ah2)" "ah_parser_state ah2 = ah_parser_state ah1"
      "ah_nfrag ah2 = ah_nfrag ah1" "hdr_collecting mx ah2" "hdr_keeps (ah_nfrag ah1 - 1) ah1 ah2" "ah_frag_index ah2 = ah_frag_index ah1"
      using uri_ok_issue [OF i1(4)] by blast
    have "hdr_keeps (ah_nfrag ah - 1) ah ah2" using i1(3,5) i2(5) by (auto intro: hdr_keeps_trans)
    then show ?thesis using False URIPS_SEEN_SLASH_DOT_DOT i1 i2 by (auto simp: uri_path_def intro!: uri_okI)
  qed
qed

lemma hdr_collecting_index:
  assumes "hdr_collecting mx ah" and "ah_frag_index ah ! h = 0" and "h < 96" and ah': "ah' = ah\<lparr>ah_frag_index := (ah_frag_index ah)[h := ah_nfrag ah]\<rparr>"
  shows "hdr_collecting mx ah'" and "hdr_keeps k ah ah'"
proof -
  have l: "hdr_lay ah' k lim \<longleftrightarrow> hdr_lay ah k lim" for k lim by (simp add: hdr_lay_def hdr_seal_def ah')
  have "hdr_shape mx ah'" using hdr_collectingD(1) [OF assms(1)] assms(3) by (simp add: hdr_shape_def nth_list_update ah')
  then show "hdr_collecting mx ah'" using assms(1) l unfolding hdr_collecting_def by (simp add: ah')
  have "(ah_frag_index ah)[h := ah_nfrag ah] ! h' = ah_frag_index ah ! h'" if "ah_frag_index ah ! h' \<noteq> 0" for h'
    using that assms(2) by (cases "h = h'") auto
  then show "hdr_keeps k ah ah'" by (simp add: hdr_keeps_def hdr_val_def hdr_nul_def ah')
qed

lemma uri_query_ok:
  assumes "hdr_collecting mx ah" and "args \<longleftrightarrow> ah_frag_index ah ! 76 \<noteq> 0"
  shows "\<exists>r c' ah'. uri_query mx args enc c ah = Done (r, c', ah') \<and> uri_ok mx ah (Some r) ah'"
proof (cases "c = 63 \<and> \<not> enc \<and> \<not> args \<and> ah_ues ah = URIES_IDLE")
  case True
  obtain n where n: "n \<le> flen ah (ah_nfrag ah)"
      "uri_seal mx ah = Done (if ah_pos ah < mx then (True, ah_len n (ah_put 0 ah)) else (False, ah))"
    using uri_seal_ok [OF assms(1)] by blast
  show ?thesis
  proof (cases "ah_pos ah < mx")
    case False
    then show ?thesis using True n(2) by (auto simp: uri_query_def uri_ok_def)
  next
    case p: True
    define ah0 where "ah0 = ah_len n (ah_put 0 ah)"
    obtain ok ah' where u: "uri_next_frag ah0 = Done (ok, ah')" "ah_nfrag ah' = ah_nfrag ah + 1"
        "ah_parser_state ah' = ah_parser_state ah" "length (ah_frags ah') = 96" "ah_frag_index ah' = ah_frag_index ah"
        "if ok then hdr_collecting mx ah' \<and> hdr_keeps (ah_nfrag ah - 1) ah ah' else ah_nfrag ah' = 96"
      using uri_next_part [OF assms(1) p n(1) ah0_def disjI1 [OF refl]] by blast
    have s: "uri_seal mx ah = Done (True, ah0)" using n(2) p by (simp add: ah0_def)
    show ?thesis
    proof (cases ok)
      case False
      then show ?thesis using True s u by (auto simp: uri_query_def uri_ok_def)
    next
      case ok: True
      define ah2 where "ah2 = ah'\<lparr>ah_frag_index := (ah_frag_index ah')[76 := ah_nfrag ah']\<rparr>"
      have c: "hdr_collecting mx ah2" "hdr_keeps (ah_nfrag ah - 1) ah ah2"
        using hdr_collecting_index [OF _ _ _ ah2_def] u(5,6) ok True assms(2) by (auto intro: hdr_keeps_trans)
      have "set_index 76 (ah_nfrag ah') ah' = Done ah2"
        using u(6) ok by (simp add: hdr_defs ah2_def hdr_collecting_def hdr_shape_def)
      then have "uri_query mx args enc c ah = Done (LPUR_SWALLOW, c, ah2\<lparr>ah_ups := URIPS_IDLE\<rparr>)"
        using True s u(1) ok by (simp add: uri_query_def del: bind_outcome_eq_Done)
      then show ?thesis using c u(2,3) by (auto intro!: uri_okI simp: ah2_def)
    qed
  qed
next
  case False
  then show ?thesis using assms(1) by (auto simp: uri_query_def uri_ok_def)
qed

lemma uri_ok_trans:
  assumes "uri_ok mx ah None ah1" and "uri_ok mx ah1 r ah2"
  shows "uri_ok mx ah r ah2"
  using assms unfolding uri_ok_def by (auto intro: hdr_keeps_trans)

lemma lws_parse_urldecode_ok:
  assumes "hdr_collecting mx ah"
  shows "\<exists>r c' ah'. lws_parse_urldecode mx c ah = Done (r, c', ah') \<and> uri_ok mx ah (Some r) ah'"
proof -
  obtain r1 c1 enc ah1 where u: "uri_unescape ah c = (r1, c1, enc, ah1)" by (metis prod_cases4)
  have c1: "hdr_collecting mx ah1" "hdr_keeps k ah ah1" "ah_parser_state ah1 = ah_parser_state ah" "ah_nfrag ah1 = ah_nfrag ah"
      "r1 \<noteq> Some LPUR_EXCESSIVE" for k
    using u assms by (auto simp: uri_unescape_def split: uri_esc_states.splits if_splits)
  show ?thesis
  proof (cases r1)
    case (Some r)
    then show ?thesis using u c1 by (auto simp: lws_parse_urldecode_def intro!: uri_okI)
  next
    case None
    let ?ai = "ah_frag_index ah1 ! 76"
    have x: "index_at ah1 76 = Done ?ai" using c1(1) by (simp add: hdr_defs hdr_collecting_def hdr_shape_def)
    obtain r2 c2 ah2 where p: "uri_path mx (?ai \<noteq> 0) enc c1 ah1 = Done (r2, c2, ah2)" "uri_ok mx ah1 r2 ah2"
      using uri_path_ok [OF c1(1)] by blast
    have a: "(?ai \<noteq> 0) = (ah_frag_index ah2 ! 76 \<noteq> 0)" if "r2 = None" using p(2) that by (simp add: uri_ok_def)
    have t: "uri_ok mx ah r ah'" if "uri_ok mx ah1 r ah'" for r ah'
      by (rule uri_ok_trans [OF uri_okI that]) (use c1 None u in \<open>auto simp: uri_unescape_def split: uri_esc_states.splits if_splits\<close>)
    show ?thesis
    proof (cases "c1 = 0 \<and> (?ai = 0 \<or> \<not> ah_post_literal_equal ah1)")
      case True
      then show ?thesis using u None x c1 by (auto simp: lws_parse_urldecode_def intro!: uri_okI)
    next
      case False
      show ?thesis
      proof (cases r2)
        case (Some r)
        then show ?thesis using u None x False p t by (auto simp: lws_parse_urldecode_def)
      next
        case n2: None
        then have c2: "hdr_collecting mx ah2" using p(2) by (simp add: uri_ok_def)
        obtain r3 c3 ah3 where q: "uri_query mx (?ai \<noteq> 0) enc c2 ah2 = Done (r3, c3, ah3)" "uri_ok mx ah2 (Some r3) ah3"
          using uri_query_ok [OF c2 a [OF n2]] by blast
        then have "lws_parse_urldecode mx c ah = Done (r3, c3, ah3)"
          using u None x False p(1) n2 by (auto simp: lws_parse_urldecode_def simp del: bind_outcome_eq_Done)
        then show ?thesis using t [OF uri_ok_trans [OF _ q(2)]] p(2) n2 by blast
      qed
    qed
  qed
qed

section \<open>One character\<close>

text \<open>The fragments that are complete.\<close>

definition hdr_done :: "allocated_headers \<Rightarrow> nat" where
  "hdr_done ah = (case ah_parser_state ah of WSI_TOKEN _ \<Rightarrow> ah_nfrag ah - 1 | _ \<Rightarrow> ah_nfrag ah)"

definition step_ok :: "nat \<Rightarrow> nat \<Rightarrow> allocated_headers \<Rightarrow> parse_step \<Rightarrow> bool" where
  "step_ok mx k ah r \<longleftrightarrow>
     (case r of
        Next ah' \<Rightarrow> hdr_inv mx ah' \<and> hdr_keeps k ah ah' \<and> k \<le> hdr_done ah'
      | Set_parsing_complete ah' \<Rightarrow> hdr_resting mx (ah_pos ah') ah' \<and> hdr_keeps k ah ah' \<and> k \<le> ah_nfrag ah'
      | _ \<Rightarrow> True)"

lemma step_ok_simps [simp]:
  "step_ok mx k ah (Next ah') \<longleftrightarrow> hdr_inv mx ah' \<and> hdr_keeps k ah ah' \<and> k \<le> hdr_done ah'"
  "step_ok mx k ah (Set_parsing_complete ah') \<longleftrightarrow> hdr_resting mx (ah_pos ah') ah' \<and> hdr_keeps k ah ah' \<and> k \<le> ah_nfrag ah'"
  "step_ok mx k ah (Forbid ah')" "step_ok mx k ah (Parse_fail ah')" "step_ok mx k ah (Parse_fallback ah')"
  by (simp_all add: step_ok_def)

lemma step_ok_trans:
  "hdr_keeps k ah ah1 \<Longrightarrow> step_ok mx k' ah1 r \<Longrightarrow> k \<le> k' \<Longrightarrow> step_ok mx k ah r"
  by (auto simp: step_ok_def intro: hdr_keeps_trans split: parse_step.splits)

lemma hdr_inv_token:
  "ah_parser_state ah = WSI_TOKEN t \<Longrightarrow>
   hdr_inv mx ah \<longleftrightarrow> t < 96 \<and> t \<noteq> WSI_TOKEN_CHALLENGE \<and> ah_frag_index ah ! t \<noteq> 0 \<and> hdr_collecting mx ah"
  by (simp add: hdr_inv_def)

lemma hdr_resting_mono: "hdr_resting mx lim ah \<Longrightarrow> lim \<le> lim' \<Longrightarrow> lim' \<le> ah_pos ah \<Longrightarrow> hdr_resting mx lim' ah"
  by (auto simp: hdr_resting_def intro: hdr_lay_mono)

lemma parse_excessive_full:
  "ah_nfrag ah = 96 \<Longrightarrow> length (ah_frags ah) = 96 \<Longrightarrow> parse_excessive cx ah = Done (Parse_fail ah)"
  by (simp add: parse_excessive_def)

lemma parse_start_fragment_ok:
  assumes "hdr_resting mx lim ah" and t: "ah_parser_state ah = WSI_TOKEN t" "t < 96" "t \<noteq> WSI_TOKEN_CHALLENGE"
    and mx: "mx = max_http_header_data cx"
  shows "\<exists>r. parse_start_fragment cx ah = Done r \<and> step_ok mx (ah_nfrag ah) ah r"
proof -
  let ?N = "ah_nfrag ah"
  have sh: "hdr_shape mx ah" "length (ah_frags ah) = 96" "length (ah_frag_index ah) = 96" "?N < 96" "lim \<le> ah_pos ah" "ah_pos ah \<le> mx + 1"
    "ah_frag_index ah ! t \<le> ?N"
    using assms(1) t(2) by (auto simp: hdr_resting_def hdr_shape_def)
  define ah1 where "ah1 = ah\<lparr>ah_nfrag := ?N + 1\<rparr>"
  have st: "parse_start_fragment cx ah = parse_excessive cx ah1" using sh(4) by (simp add: parse_start_fragment_def ah1_def)
  show ?thesis
  proof (cases "?N + 1 = 96")
    case True
    then show ?thesis using parse_excessive_full [of ah1] sh(2) by (simp add: st ah1_def)
  next
    case False
    then have N: "?N + 1 < 96" using sh(4) by simp
    let ?f = "\<lparr>frag_offset = ah_pos ah, frag_len = 0, frag_nfrag = 0, frag_flags = 2\<rparr> :: lws_fragments"
    define ah2 where "ah2 = ah1\<lparr>ah_frags := (ah_frags ah1)[?N + 1 := ?f]\<rparr>"
    have u2: "upd_frag (ah_nfrag ah1) (\<lambda>_. \<lparr>frag_offset = ah_pos ah1, frag_len = 0, frag_nfrag = 0, frag_flags = 2\<rparr>) ah1 = Done ah2"
      "index_at ah2 t = Done (ah_frag_index ah ! t)" "ah_parser_state ah2 = WSI_TOKEN t"
      using N sh t by (simp_all add: hdr_defs ah1_def ah2_def)
    show ?thesis
    proof (cases "ah_frag_index ah ! t = 0")
      case True
      define ah3 where "ah3 = ah2\<lparr>ah_frag_index := (ah_frag_index ah2)[t := ?N + 1]\<rparr>"
      have "set_index t (ah_nfrag ah2) ah2 = Done ah3" "ah_parser_state ah3 = WSI_TOKEN t"
        using sh t by (simp_all add: hdr_defs ah1_def ah2_def ah3_def)
      then have r: "parse_start_fragment cx ah = Done (Next (ah3\<lparr>ah_hdr_token_idx := t\<rparr>))"
        using True N sh u2 by (simp add: st parse_excessive_def ah1_def del: bind_outcome_eq_Done)
      have "(ah_frag_index ah)[t := ?N + 1] ! h = ah_frag_index ah ! h \<or> ah_frag_index ah ! h = 0 \<and> (ah_frag_index ah)[t := ?N + 1] ! h = ?N + 1" for h
        using True sh(3) t(2) by (cases "h = t") auto
      then have "hdr_opened (ah_pos ah) ah ah3" using sh N by (simp add: hdr_opened_def ah1_def ah2_def ah3_def)
      note c = hdr_opened_collecting [OF assms(1) this N sh(5,6)]
      have "hdr_inv mx (ah3\<lparr>ah_hdr_token_idx := t\<rparr>)"
        using c(1) t sh by (simp add: hdr_inv_def ah1_def ah2_def ah3_def)
      then show ?thesis using r c(2) t by (simp add: hdr_done_def ah1_def ah2_def ah3_def)
    next
      case idx: False
      have fn: "fnext ah2 i = fnext ah i" if "i \<le> ?N" for i using that by (simp add: ah2_def ah1_def)
      have "\<exists>ns. hdr_chain ah2 (ah_frag_index ah ! t) = Done ns \<and> ns \<noteq> [] \<and>
          (\<forall>i \<in> set ns. ah_frag_index ah ! t \<le> i \<and> i \<le> ?N) \<and> fnext ah2 (last ns) = 0"
        unfolding hdr_chain_def
        by (rule frag_chain_ok) (use sh N fn in \<open>auto simp: ah2_def ah1_def hdr_shape_def\<close>)
      then obtain ns where ns: "hdr_chain ah2 (ah_frag_index ah ! t) = Done ns" "last ns \<le> ?N" by (metis last_in_set)
      define ah3 where "ah3 = ah2\<lparr>ah_frags := (ah_frags ah2)[last ns := (ah_frags ah2 ! last ns)\<lparr>frag_nfrag := ?N + 1\<rparr>]\<rparr>"
      have l: "upd_frag (last ns) (\<lambda>f. f\<lparr>frag_nfrag := ah_nfrag ah2\<rparr>) ah2 = Done ah3"
        using sh ns(2) N by (simp add: hdr_defs ah1_def ah2_def ah3_def)
      have "hdr_opened (ah_pos ah) ah ah3" using sh N ns(2) by (auto simp: hdr_opened_def ah1_def ah2_def ah3_def nth_list_update)
      note c = hdr_opened_collecting [OF assms(1) this N sh(5,6)]
      obtain r ah4 where i: "issue_char mx 32 ah3 = Done (r, ah4)" "ah_parser_state ah4 = ah_parser_state ah3"
        "ah_nfrag ah4 = ah_nfrag ah3" "hdr_collecting mx ah4" "hdr_keeps (ah_nfrag ah3 - 1) ah3 ah4" "ah_frag_index ah4 = ah_frag_index ah3"
        using uri_ok_issue [OF c(1)] by blast
      have n3: "ah_nfrag ah3 = ?N + 1" "ah_parser_state ah3 = WSI_TOKEN t" "ah_frag_index ah3 = ah_frag_index ah"
        using t by (simp_all add: ah1_def ah2_def ah3_def)
      have "parse_start_fragment cx ah = Done (if r < 0 then Parse_fail ah4 else Next ah4)"
        using idx N sh u2 ns(1) l i(1) by (simp add: st parse_excessive_def ah1_def mx del: bind_outcome_eq_Done)
      moreover have "hdr_keeps ?N ah ah4" using c(2) i(5) n3(1) by (auto intro: hdr_keeps_trans)
      moreover have "hdr_inv mx ah4" using i n3 t idx by (simp add: hdr_inv_def)
      ultimately show ?thesis using i n3 by (simp add: hdr_done_def)
    qed
  qed
qed

lemma lex_waiting_0: "lex_waiting 0"
  by (simp add: lex_waiting_def lex_good_0 lextable_h1_first)

lemma hdr_put_ok:
  assumes "hdr_collecting mx ah" and "ah_pos ah < mx"
  shows "hdr_collecting mx (ah_put c ah)" and "hdr_keeps (ah_nfrag ah - 1) ah (ah_put c ah)"
    and "hdr_resting mx (ah_pos ah + 1) (ah_put 0 ah)"
  using hdr_collecting_put [OF assms order_refl, of c] hdr_resting_sealed [OF assms order_refl]
  by (simp_all add: ah_len_def ah_put_def)

lemma ah_put_simps [simp]:
  "ah_parser_state (ah_put c ah) = ah_parser_state ah" "ah_nfrag (ah_put c ah) = ah_nfrag ah"
  "ah_frag_index (ah_put c ah) = ah_frag_index ah" "ah_pos (ah_put c ah) = ah_pos ah + 1"
  "ah_unk_pos (ah_put c ah) = ah_unk_pos ah" "ah_lextable_pos (ah_put c ah) = ah_lextable_pos ah"
  "ah_unk_ll_tail (ah_put c ah) = ah_unk_ll_tail ah" "ah_frags (ah_put c ah) = ah_frags ah"
  "length (ah_data (ah_put c ah)) = length (ah_data ah)" "ah_unk_ll_head (ah_put c ah) = ah_unk_ll_head ah"
  "ah_ups (ah_put c ah) = ah_ups ah" "ah_ues (ah_put c ah) = ah_ues ah"
  "ah_current_token_limit (ah_put c ah) = ah_current_token_limit ah"
  by (simp_all add: ah_put_def)

lemma ah_store_simps [simp]:
  "ah_parser_state (ah_store c ah) = ah_parser_state ah" "ah_nfrag (ah_store c ah) = ah_nfrag ah"
  "ah_frag_index (ah_store c ah) = ah_frag_index ah" "ah_pos (ah_store c ah) = ah_pos ah + 1"
  "ah_unk_pos (ah_store c ah) = ah_unk_pos ah" "ah_lextable_pos (ah_store c ah) = ah_lextable_pos ah"
  "ah_ups (ah_store c ah) = ah_ups ah" "ah_ues (ah_store c ah) = ah_ues ah"
  "ah_current_token_limit (ah_store c ah) = ah_current_token_limit ah"
  by (simp_all add: ah_store_def)

lemma parse_check_eol_ok:
  assumes "hdr_inv mx ah" and t: "ah_parser_state ah = WSI_TOKEN t" and mx: "mx = max_http_header_data cx"
  shows "\<exists>r. parse_check_eol cx c ah = Done r \<and> step_ok mx (hdr_done ah) ah r"
proof -
  have I: "t < 96" "t \<noteq> 8" "ah_frag_index ah ! t \<noteq> 0" "hdr_collecting mx ah" using assms(1) t by (simp_all add: hdr_inv_def)
  have d: "hdr_done ah = ah_nfrag ah - 1" by (simp add: hdr_done_def t)
  show ?thesis
  proof (cases "c = 13 \<or> c = 10")
    case True
    define ah0 where "ah0 = (if c = 10 then parse_name_start ah else ah\<lparr>ah_parser_state := WSI_TOKEN_SKIPPING_SAW_CR\<rparr>)"
    have c0: "hdr_collecting mx ah0" "ah_nfrag ah0 = ah_nfrag ah" "\<And>k ah'. hdr_keeps k ah0 ah' = hdr_keeps k ah ah'"
      "\<And>n. ah_parser_state ah0 \<noteq> WSI_TOKEN n"
      using I(4) by (auto simp: ah0_def parse_name_start_def)
    have s: "hdr_inv mx (ah_put 0 ah0)" "hdr_done (ah_put 0 ah0) = ah_nfrag ah" if "ah_pos ah0 < mx"
      using hdr_put_ok(3) [OF c0(1) that] c0(2) by (auto simp: hdr_inv_def hdr_done_def ah0_def parse_name_start_def lex_waiting_0)
    have s1: "hdr_inv mx ((ah_put 0 ah0)\<lparr>ah_parser_state := WSI_TOKEN_SKIPPING\<rparr>)" if "ah_pos ah0 < mx"
      using hdr_put_ok(3) [OF c0(1) that] by (simp add: hdr_inv_def)
    show ?thesis
      using True I(2) t c0(2-4) s s1 hdr_put_ok(2) [OF c0(1)] len_dec_store [OF c0(1)] d
      by (cases "ah_ues ah = URIES_IDLE")
        (auto simp: parse_check_eol_def Let_def parse_swallow_def mx issue_char_ok [OF c0(1) [unfolded mx]] hdr_done_def simp flip: ah0_def)
  next
    case False
    have s: "hdr_inv mx (ah_store c ah)"
      if "ah_pos ah < mx" "ah_current_token_limit ah = 0 \<or> flen ah (ah_nfrag ah) < ah_current_token_limit ah"
      using hdr_collecting_store(1) [OF I(4) that] I(1-3) t by (simp add: hdr_inv_def)
    have s0: "hdr_inv mx (ah_put c ah)" if "ah_pos ah < mx" using hdr_put_ok(1) [OF I(4) that] I(1-3) t by (simp add: hdr_inv_def)
    have s1: "hdr_inv mx ((ah_put 0 ah)\<lparr>ah_parser_state := WSI_TOKEN_SKIPPING\<rparr>)" if "ah_pos ah < mx"
      using hdr_put_ok(3) [OF I(4) that] by (simp add: hdr_inv_def)
    show ?thesis
      using False I(2) t s s0 s1 hdr_put_ok(2) [OF I(4)] hdr_collecting_store(2) [OF I(4)] len_dec_store [OF I(4)]
      by (auto simp: parse_check_eol_def Let_def parse_swallow_def mx issue_char_ok [OF I(4) [unfolded mx]] hdr_done_def)
  qed
qed

lemma ah_len_simps [simp]:
  "ah_parser_state (ah_len n ah) = ah_parser_state ah" "ah_nfrag (ah_len n ah) = ah_nfrag ah"
  "ah_frag_index (ah_len n ah) = ah_frag_index ah" "ah_pos (ah_len n ah) = ah_pos ah" "ah_data (ah_len n ah) = ah_data ah"
  "ah_ups (ah_len n ah) = ah_ups ah" "ah_ues (ah_len n ah) = ah_ues ah"
  "ah_current_token_limit (ah_len n ah) = ah_current_token_limit ah"
  by (simp_all add: ah_len_def)

text \<open>The decrement of a directory and the seal at the end of a URI, with what they leave alone.\<close>

lemma uri_up_collecting:
  assumes "hdr_collecting mx ah"
  shows "\<exists>ah'. uri_up ah = Done ah' \<and> hdr_collecting mx ah' \<and> hdr_keeps (ah_nfrag ah - 1) ah ah' \<and>
    ah_nfrag ah' = ah_nfrag ah \<and> ah_frag_index ah' = ah_frag_index ah \<and> ah_parser_state ah' = ah_parser_state ah"
proof -
  obtain m where m: "uri_up ah = Done ((ah_len m ah)\<lparr>ah_pos := ah_pos ah - (flen ah (ah_nfrag ah) - m)\<rparr>)" "m \<le> flen ah (ah_nfrag ah)"
    using uri_up_ok [OF assms] by blast
  show ?thesis by (intro exI conjI, rule m(1)) (simp_all add: hdr_collecting_up [OF assms m(2) refl] del: One_nat_def)
qed

lemma uri_seal_resting:
  assumes "hdr_collecting mx ah"
  shows "\<exists>ok ah'. uri_seal mx ah = Done (ok, ah') \<and> (ok \<longrightarrow> hdr_resting mx (ah_pos ah') ah' \<and>
    hdr_keeps (ah_nfrag ah - 1) ah ah' \<and> ah_nfrag ah' = ah_nfrag ah)"
proof -
  obtain n where n: "n \<le> flen ah (ah_nfrag ah)"
      "uri_seal mx ah = Done (if ah_pos ah < mx then (True, ah_len n (ah_put 0 ah)) else (False, ah))"
    using uri_seal_ok [OF assms] by blast
  show ?thesis
  proof (cases "ah_pos ah < mx")
    case True
    then have "uri_seal mx ah = Done (True, ah_len n (ah_put 0 ah))" using n(2) by simp
    moreover have "ah_pos (ah_len n (ah_put 0 ah)) = ah_pos ah + 1" "ah_nfrag (ah_len n (ah_put 0 ah)) = ah_nfrag ah"
      by (simp_all add: ah_len_def)
    ultimately show ?thesis
      using hdr_resting_sealed [OF assms True n(1)] hdr_collecting_put(2) [OF assms True n(1), of 0]
      by (intro exI [of _ True] exI [of _ "ah_len n (ah_put 0 ah)"]) simp
  qed (use n(2) in auto)
qed

lemma parse_uri_end_ok:
  assumes "hdr_inv mx ah" and t: "ah_parser_state ah = WSI_TOKEN t" and mx: "mx = max_http_header_data cx"
  shows "\<exists>r. parse_uri_end cx ah = Done r \<and> step_ok mx (hdr_done ah) ah r"
proof -
  have I: "hdr_collecting mx ah" using assms(1) t by (simp add: hdr_inv_def)
  have d: "hdr_done ah = ah_nfrag ah - 1" by (simp add: hdr_done_def t)
  obtain r1 ah1 where i1: "(if flen ah (ah_nfrag ah) = 0 then issue_char mx 47 ah else Done (0, ah)) = Done (r1, ah1)"
      "hdr_collecting mx ah1" "hdr_keeps (ah_nfrag ah - 1) ah ah1" "ah_nfrag ah1 = ah_nfrag ah"
  proof (cases "flen ah (ah_nfrag ah) = 0")
    case True
    then show thesis using uri_ok_issue [OF I, of 47] that by auto
  next
    case False
    then show thesis using that [of 0 ah] I by simp
  qed
  obtain ah2 where i2: "(if ah_ups ah1 = URIPS_SEEN_SLASH_DOT_DOT then uri_up ah1 else Done ah1) = Done ah2"
      "hdr_collecting mx ah2" "hdr_keeps (ah_nfrag ah - 1) ah1 ah2" "ah_nfrag ah2 = ah_nfrag ah"
  proof (cases "ah_ups ah1 = URIPS_SEEN_SLASH_DOT_DOT")
    case True
    then show thesis using uri_up_collecting [OF i1(2)] i1(4) that by auto
  next
    case False
    then show thesis using that [of ah1] i1 by simp
  qed
  obtain ok ah3 where i3: "uri_seal mx ah2 = Done (ok, ah3)" "ok \<longrightarrow> hdr_resting mx (ah_pos ah3) ah3 \<and>
      hdr_keeps (ah_nfrag ah2 - 1) ah2 ah3 \<and> ah_nfrag ah3 = ah_nfrag ah2"
    using uri_seal_resting [OF i2(2)] by blast
  let ?ah = "ah3\<lparr>ah_parser_state := WSI_TOKEN WSI_TOKEN_HTTP\<rparr>"
  have f: "frag_at ah (ah_nfrag ah) = Done (ah_frags ah ! ah_nfrag ah)" using hdr_collectingD(5) [OF I] by (simp add: frag_at_def)
  have e: "parse_uri_end cx ah = (if r1 < 0 then Done (Parse_fail ah1) else if \<not> ok then Done (Parse_fail ah3) else parse_start_fragment cx ?ah)"
    unfolding parse_uri_end_def mx [symmetric] f bind_outcome.simps i1(1) split_conv i2(1) i3(1) by (rule refl)
  show ?thesis
  proof (cases "r1 < 0 \<or> \<not> ok")
    case False
    then obtain r where r: "parse_start_fragment cx ?ah = Done r" "step_ok mx (ah_nfrag ?ah) ?ah r"
      using parse_start_fragment_ok [of mx "ah_pos ah3" ?ah WSI_TOKEN_HTTP cx] i3(2) mx by auto
    have "hdr_keeps (ah_nfrag ah - 1) ah ah3" using i1 i2 i3(2) False by (metis hdr_keeps_trans order_refl)
    then have "step_ok mx (hdr_done ah) ah r" using step_ok_trans [OF _ r(2)] i2(4) i3(2) False d by auto
    then show ?thesis using e r(1) False by simp
  qed (auto simp: e)
qed

lemma parse_value_ok:
  assumes "hdr_inv mx ah" and t: "ah_parser_state ah = WSI_TOKEN t" and mx: "mx = max_http_header_data cx"
  shows "\<exists>r. parse_value cx t c ah = Done r \<and> step_ok mx (hdr_done ah) ah r"
proof -
  have I: "t < 96" "t \<noteq> 8" "ah_frag_index ah ! t \<noteq> 0" "hdr_collecting mx ah" using assms(1) t by (simp_all add: hdr_inv_def)
  have d: "hdr_done ah = ah_nfrag ah - 1" by (simp add: hdr_done_def t)
  have x: "index_at ah t = Done (ah_frag_index ah ! t)" "frag_at ah (ah_frag_index ah ! t) = Done (ah_frags ah ! (ah_frag_index ah ! t))"
    using hdr_collectingD(1) [OF I(4)] I(1) by (auto simp: hdr_defs hdr_shape_def)
  obtain u c' ah' where u: "lws_parse_urldecode mx c ah = Done (u, c', ah')" "uri_ok mx ah (Some u) ah'"
    using lws_parse_urldecode_ok [OF I(4)] by blast
  have inv: "hdr_inv mx ah'" "hdr_keeps (hdr_done ah) ah ah'" "hdr_done ah \<le> hdr_done ah'" "ah_parser_state ah' = WSI_TOKEN t"
    if "u = LPUR_CONTINUE \<or> u = LPUR_SWALLOW"
  proof -
    have "hdr_keeps (hdr_done ah) ah ah'" using u(2) that d by (auto simp: uri_ok_def)
    moreover from this have "ah_frag_index ah' ! t \<noteq> 0" using I(3) by (simp add: hdr_keeps_def)
    ultimately show "hdr_inv mx ah'" "hdr_keeps (hdr_done ah) ah ah'" "hdr_done ah \<le> hdr_done ah'" "ah_parser_state ah' = WSI_TOKEN t"
      using u(2) that I t by (auto simp: uri_ok_def hdr_inv_def hdr_done_def)
  qed
  obtain r0 where r0: "parse_check_eol cx c ah = Done r0" "step_ok mx (hdr_done ah) ah r0"
    using parse_check_eol_ok [OF assms] by blast
  obtain r1 where r1: "parse_uri_end cx ah = Done r1" "step_ok mx (hdr_done ah) ah r1"
    using parse_uri_end_ok [OF assms] by blast
  have "\<exists>r. (case u of LPUR_CONTINUE \<Rightarrow> parse_check_eol cx c' ah' | LPUR_SWALLOW \<Rightarrow> Done (parse_swallow ah') | LPUR_FORBID \<Rightarrow> Done (Forbid ah')
      | LPUR_EXCESSIVE \<Rightarrow> parse_excessive cx ah' | LPUR_FAIL \<Rightarrow> Done (Parse_fail ah')) = Done r \<and> step_ok mx (hdr_done ah) ah r"
  proof (cases u)
    case LPUR_CONTINUE
    then obtain r where "parse_check_eol cx c' ah' = Done r" "step_ok mx (hdr_done ah') ah' r"
      using parse_check_eol_ok [of mx ah' t cx c'] inv mx by auto
    then show ?thesis using LPUR_CONTINUE inv step_ok_trans by fastforce
  next
    case LPUR_SWALLOW
    then show ?thesis using inv I(2) by (simp add: parse_swallow_def)
  next
    case LPUR_EXCESSIVE
    then show ?thesis using u(2) parse_excessive_full [of ah'] by (simp add: uri_ok_def)
  qed simp_all
  then show ?thesis
    using x u(1) r0 r1 assms(1) d mx unfolding parse_value_def by (auto simp del: bind_outcome_eq_Done)
qed

section \<open>Names\<close>

lemma hdr_limit_fields [simp]:
  "hdr_shape mx (ah\<lparr>ah_current_token_limit := v\<rparr>) = hdr_shape mx ah"
  "hdr_lay (ah\<lparr>ah_current_token_limit := v\<rparr>) k lim = hdr_lay ah k lim"
  "hdr_resting mx lim (ah\<lparr>ah_current_token_limit := v\<rparr>) = hdr_resting mx lim ah"
  "hdr_keeps k ah (ah'\<lparr>ah_current_token_limit := v\<rparr>) = hdr_keeps k ah ah'"
  "hdr_keeps k (ah\<lparr>ah_current_token_limit := v\<rparr>) ah' = hdr_keeps k ah ah'"
  by (simp_all add: hdr_shape_def hdr_lay_def hdr_seal_def hdr_resting_def hdr_keeps_def hdr_val_def hdr_nul_def)

text \<open>Writing above the complete fragments.\<close>

lemma hdr_resting_write:
  assumes "hdr_resting mx lim ah" and "length d = length (ah_data ah)" and "\<And>j. j < lim \<Longrightarrow> link_free ah j \<Longrightarrow> d ! j = ah_data ah ! j"
    and "lim \<le> p" and "p \<le> mx + 1"
  shows "hdr_resting mx lim (ah\<lparr>ah_data := d, ah_pos := p\<rparr>)" and "hdr_keeps (ah_nfrag ah) ah (ah\<lparr>ah_data := d, ah_pos := p\<rparr>)"
proof -
  have lay: "hdr_lay ah (ah_nfrag ah) lim" using assms(1) by (simp add: hdr_resting_def)
  have a: "hdr_agree (ah_nfrag ah) lim ah (ah\<lparr>ah_data := d, ah_pos := p\<rparr>)" using assms(2,3) by (simp add: hdr_agree_def)
  show "hdr_resting mx lim (ah\<lparr>ah_data := d, ah_pos := p\<rparr>)"
    using hdr_lay_agree [OF lay a] assms(1,2,4,5) by (simp add: hdr_resting_def hdr_shape_def)
  show "hdr_keeps (ah_nfrag ah) ah (ah\<lparr>ah_data := d, ah_pos := p\<rparr>)" by (rule hdr_agree_keeps [OF lay a])
qed

lemma hdr_resting_put:
  assumes "hdr_resting mx lim ah" and "ah_pos ah < mx"
  shows "hdr_resting mx lim (ah_put c ah)" and "hdr_keeps (ah_nfrag ah) ah (ah_put c ah)"
  using hdr_resting_write [OF assms(1), of "(ah_data ah)[ah_pos ah := c]" "ah_pos ah + 1"] assms
  by (simp_all add: ah_put_def hdr_resting_def)

lemma put_zeros_ok:
  assumes "hdr_resting mx lim ah"
  shows "\<exists>ah'. put_zeros mx n ah = Done ah' \<and> hdr_resting mx lim ah' \<and> hdr_keeps (ah_nfrag ah) ah ah' \<and>
    (ah_pos ah' < mx \<longrightarrow> ah_pos ah' = ah_pos ah + n) \<and> ah_nfrag ah' = ah_nfrag ah \<and> ah_unk_pos ah' = ah_unk_pos ah \<and>
    ah_parser_state ah' = ah_parser_state ah \<and> ah_lextable_pos ah' = ah_lextable_pos ah \<and>
    ah_frag_index ah' = ah_frag_index ah \<and> ah_ues ah' = ah_ues ah \<and> ah_pos ah' \<le> ah_pos ah + n \<and>
    ah_frags ah' = ah_frags ah"
  using assms
proof (induction n arbitrary: ah)
  case (Suc n)
  have sh: "hdr_shape mx ah" using Suc.prems by (simp add: hdr_resting_def)
  show ?case
  proof (cases "ah_pos ah < mx")
    case True
    note P = hdr_resting_put [OF Suc.prems True, of 0]
    have "put_zeros mx (Suc n) ah = put_zeros mx n (ah_put 0 ah)"
      using True sh by (simp add: lws_pos_in_bounds_ok put_data_ok hdr_shape_def del: bind_outcome_eq_Done)
    then show ?thesis using Suc.IH [OF P(1)] P(2) by (auto intro: hdr_keeps_trans)
  next
    case False
    then have "put_zeros mx (Suc n) ah = put_zeros mx n ah"
      using sh by (simp add: lws_pos_in_bounds_ok del: bind_outcome_eq_Done)
    then show ?thesis using Suc.IH [OF Suc.prems] False by auto
  qed
qed simp

text \<open>The stored name, while it is undecided: the complete fragments end where it starts.\<close>

definition name_stored :: "nat \<Rightarrow> bool \<Rightarrow> allocated_headers \<Rightarrow> nat \<Rightarrow> bool" where
  "name_stored mx mux ah lim \<longleftrightarrow> hdr_resting mx lim ah \<and> (lim = ah_unk_pos ah \<or> mux \<and> ah_unk_pos ah = 0) \<and>
     (ah_unk_pos ah \<noteq> 0 \<longrightarrow> ah_unk_pos ah + 9 \<le> ah_pos ah) \<and> ah_pos ah \<noteq> 0"

lemma name_stored_inv:
  assumes "name_stored mx mux ah lim" and "ah_parser_state ah = WSI_TOKEN_NAME_PART" and "lex_waiting (ah_lextable_pos ah)"
  shows "hdr_inv mx ah"
  using assms hdr_resting_mono [of mx lim ah "ah_pos ah"] by (auto simp: hdr_inv_def name_stored_def hdr_resting_def)

lemma name_stored_lextable [simp]: "name_stored mx mux (ah\<lparr>ah_lextable_pos := q\<rparr>) lim = name_stored mx mux ah lim"
  by (simp add: name_stored_def)

lemma name_stored_skip:
  assumes "name_stored mx mux ah lim"
  shows "hdr_inv mx (ah\<lparr>ah_parser_state := WSI_TOKEN_SKIPPING\<rparr>)"
  using assms hdr_resting_mono [of mx lim ah "ah_pos ah"] by (auto simp: hdr_inv_def name_stored_def hdr_resting_def)

lemma mem_store_frame:
  assumes "ofs + length src \<le> length buf"
  shows "\<exists>b. mem_store buf ofs src = Done b \<and> length b = length buf \<and>
    (\<forall>j < length buf. j < ofs \<or> ofs + length src \<le> j \<longrightarrow> b ! j = buf ! j)"
proof -
  obtain b where b: "mem_store buf ofs src = Done b" using assms by (simp add: mem_store_def)
  then show ?thesis using mem_store_length [OF b] mem_store_nth [OF b] by auto
qed

lemma lws_ser_wu16be_frame:
  "ofs + 2 \<le> length d \<Longrightarrow> \<exists>b. lws_ser_wu16be d ofs u = Done b \<and> length b = length d \<and>
    (\<forall>j < length d. j < ofs \<or> ofs + 2 \<le> j \<longrightarrow> b ! j = d ! j)"
  using mem_store_frame [of ofs "[int u div 256 mod 256, int u mod 256]" d] by (simp add: lws_ser_wu16be_def)

lemma lws_ser_wu32be_frame:
  "ofs + 4 \<le> length d \<Longrightarrow> \<exists>b. lws_ser_wu32be d ofs u = Done b \<and> length b = length d \<and>
    (\<forall>j < length d. j < ofs \<or> ofs + 4 \<le> j \<longrightarrow> b ! j = d ! j)"
proof -
  have l: "length [a, b, c, e] = 4" for a b c e :: int by simp
  show "ofs + 4 \<le> length d \<Longrightarrow> ?thesis"
    unfolding lws_ser_wu32be_def
    using mem_store_frame [of ofs "[int u div 16777216 mod 256, int u div 65536 mod 256, int u div 256 mod 256, int u mod 256]" d, unfolded l] .
qed

lemma parse_unknown_name_ok:
  assumes "name_stored mx False ah lim" and "ah_unk_pos ah \<noteq> 0"
  shows "\<exists>r. parse_unknown_name ah = Done r \<and> step_ok mx (ah_nfrag ah) ah r"
proof -
  let ?up = "ah_unk_pos ah" and ?tl = "ah_unk_ll_tail ah"
  have S: "hdr_resting mx ?up ah" "?up + 9 \<le> ah_pos ah" using assms by (auto simp: name_stored_def)
  have B: "length (ah_data ah) = mx" "ah_pos ah \<le> mx + 1" "?tl = 0 \<or> ?tl + 8 \<le> ?up"
    using S(1) by (auto simp: hdr_resting_def hdr_shape_def)
  obtain d1 where d1: "(if ?tl \<noteq> 0 then lws_ser_wu32be (ah_data ah) (?tl + 4) ?up else Done (ah_data ah)) = Done d1"
      "length d1 = mx" "\<And>j. link_free ah j \<Longrightarrow> j < mx \<Longrightarrow> d1 ! j = ah_data ah ! j"
  proof (cases "?tl = 0")
    case False
    then obtain d where "lws_ser_wu32be (ah_data ah) (?tl + 4) ?up = Done d" "length d = mx"
        "\<forall>j < mx. j < ?tl + 4 \<or> ?tl + 4 + 4 \<le> j \<longrightarrow> d ! j = ah_data ah ! j"
      using lws_ser_wu32be_frame [of "?tl + 4" "ah_data ah" ?up] S(2) B by auto
    moreover from this(3) have "d ! j = ah_data ah ! j" if "link_free ah j" "j < mx" for j
      using that False by (auto simp: link_free_def)
    ultimately show thesis using that [of d] False by simp
  qed (use that [of "ah_data ah"] B in simp)
  let ?v = "u32_sub (u32_sub (ah_pos ah) ?up) 8"
  obtain d2 where d2: "lws_ser_wu16be d1 ?up ?v = Done d2" "length d2 = mx" "\<And>j. j < ?up \<Longrightarrow> d2 ! j = d1 ! j"
    using lws_ser_wu16be_frame [of ?up d1 ?v] S(2) B(2) d1(2) by auto
  define ah' where "ah' = ah\<lparr>ah_unk_ll_head := if ah_unk_ll_head ah = 0 then ?up else ah_unk_ll_head ah, ah_data := d2,
    ah_unk_ll_tail := ?up, ah_unk_value_pos := ah_pos ah, ah_parser_state := WSI_TOKEN_UNKNOWN_VALUE_PART\<rparr>"
  have e: "parse_unknown_name ah = Done (Next ah')"
    using d1(1) d2(1) by (cases "ah_unk_ll_head ah = 0"; cases "?tl = 0")
      (simp_all add: parse_unknown_name_def Let_def ah'_def del: bind_outcome_eq_Done)
  have w: "hdr_resting mx ?up (ah\<lparr>ah_data := d2, ah_pos := ah_pos ah\<rparr>)" "hdr_keeps (ah_nfrag ah) ah (ah\<lparr>ah_data := d2, ah_pos := ah_pos ah\<rparr>)"
    using hdr_resting_write [OF S(1), of d2 "ah_pos ah"] S(2) B d1 d2 by auto
  have lay: "hdr_lay ah' (ah_nfrag ah) ?up"
  proof (rule hdr_layI)
    fix i
    assume i: "1 \<le> i" "i \<le> ah_nfrag ah"
    have l: "hdr_lay (ah\<lparr>ah_data := d2, ah_pos := ah_pos ah\<rparr>) (ah_nfrag ah) ?up" using w(1) by (simp add: hdr_resting_def)
    obtain j where "hdr_seal (ah\<lparr>ah_data := d2, ah_pos := ah_pos ah\<rparr>) i
        (if i < ah_nfrag ah then off (ah\<lparr>ah_data := d2, ah_pos := ah_pos ah\<rparr>) (i + 1) else ?up) j"
      by (rule hdr_layD [OF l i])
    then have "hdr_seal ah' i (if i < ah_nfrag ah' then off ah' (i + 1) else ?up) j"
      using hdr_lay_next [OF l i] by (auto simp: hdr_seal_def ah'_def)
    then show "\<exists>j. hdr_seal ah' i (if i < ah_nfrag ah then off ah' (i + 1) else ?up) j" by (auto simp: ah'_def)
  qed
  have sh: "hdr_shape mx ah'" using w(1) by (simp add: hdr_resting_def hdr_shape_def ah'_def)
  have "hdr_inv mx ah'" using sh lay S(2) assms(2) by (simp add: hdr_inv_def ah'_def)
  moreover have "hdr_keeps (ah_nfrag ah) ah ah'" using w(2) by (simp add: hdr_keeps_def hdr_val_def hdr_nul_def ah'_def)
  ultimately show ?thesis using e by (simp add: hdr_done_def ah'_def)
qed

text \<open>What the parser needs of the configuration: a limit for each token, and a buffer whose positions fit the 16-bit lengths.\<close>

definition http_env_ok :: "http_env \<Rightarrow> bool" where
  "http_env_ok cx \<longleftrightarrow> max_http_header_data cx \<le> 65535 \<and>
     (case token_limits cx of None \<Rightarrow> True | Some lim \<Rightarrow> length lim = WSI_TOKEN_COUNT)"

lemma parse_known_name_ok:
  assumes "name_stored mx mux ah lim" and "lex_good (ah_lextable_pos ah)" and "lextable_h1 ! nat (ah_lextable_pos ah) < FAIL_CHAR"
    and "http_env_ok cx" and mx: "mx = max_http_header_data cx"
  shows "\<exists>r. parse_known_name cx mux ah = Done r \<and> step_ok mx (ah_nfrag ah) ah r"
proof -
  let ?q = "ah_lextable_pos ah"
  define n where "n = nat (lextable_h1 ! nat ?q * 256 + lextable_h1 ! nat (?q + 1))"
  have n: "n < 88" "lex_at lextable_h1 ?q = Done (lextable_h1 ! nat ?q)" "lex_at lextable_h1 (?q + 1) = Done (lextable_h1 ! nat (?q + 1))"
    using lex_good_state [OF assms(2)] assms(3) by (simp_all add: n_def lex_at_def)
  have R: "hdr_resting mx lim ah" "lim \<le> ah_pos ah" "lim = ah_unk_pos ah \<or> mux \<and> ah_unk_pos ah = 0" "hdr_shape mx ah"
    using assms(1) by (auto simp: name_stored_def hdr_resting_def)
  obtain dup where dup: "(if n \<in> set methods then index_at ah n else Done 0) = Done dup"
  proof (cases "n \<in> set methods")
    case True
    then show thesis using that [of "ah_frag_index ah ! n"] R(4) n(1) by (simp add: index_at_def hdr_shape_def)
  qed (use that [of 0] in simp)
  define ah1 where "ah1 = (if \<not> mux then ah\<lparr>ah_pos := ah_unk_pos ah, ah_unk_pos := 0\<rparr> else ah)"
  define t where "t = (if n = WSI_TOKEN_SWORIGIN then WSI_TOKEN_ORIGIN else n)"
  have t: "t < 96" using n(1) by (simp add: t_def)
  obtain l where l: "(case token_limits cx of None \<Rightarrow> Done (max_http_header_data cx)
      | Some lim \<Rightarrow> if t < length lim then Done (lim ! t) else Fault) = Done l"
    using assms(4) t by (auto simp: http_env_ok_def split: option.splits)
  define ah2 where "ah2 = ah1\<lparr>ah_parser_state := WSI_TOKEN t, ah_ups := URIPS_IDLE, ah_current_token_limit := l\<rparr>"
  have e: "parse_known_name cx mux ah = (if dup \<noteq> 0 then Done (Parse_fail ah)
      else if t = WSI_TOKEN_CHALLENGE then Done (Set_parsing_complete ah2) else parse_start_fragment cx ah2)"
    unfolding parse_known_name_def n(2,3) bind_outcome.simps Let_def n_def [symmetric] dup ah1_def [symmetric] t_def [symmetric] l
    by (simp add: ah2_def)
  have "hdr_resting mx (ah_pos ah1) ah1"
  proof (cases mux)
    case True
    then show ?thesis using hdr_resting_mono [OF R(1,2)] by (simp add: ah1_def)
  next
    case False
    then have "hdr_resting mx lim (ah\<lparr>ah_data := ah_data ah, ah_pos := lim\<rparr>)"
      using R by (intro hdr_resting_write) (auto simp: hdr_shape_def)
    then show ?thesis using False R(3) by (simp add: ah1_def)
  qed
  then have r2: "hdr_resting mx (ah_pos ah2) ah2" by (simp add: ah2_def)
  have k: "hdr_keeps (ah_nfrag ah) ah ah2" "ah_nfrag ah2 = ah_nfrag ah" by (auto simp: ah2_def ah1_def hdr_keeps_def hdr_val_def hdr_nul_def)
  show ?thesis
  proof (cases "dup \<noteq> 0 \<or> t = WSI_TOKEN_CHALLENGE")
    case True
    then show ?thesis using r2 k by (auto simp: e)
  next
    case False
    then obtain r where "parse_start_fragment cx ah2 = Done r" "step_ok mx (ah_nfrag ah2) ah2 r"
      using parse_start_fragment_ok [OF r2, of t cx] t mx by (auto simp: ah2_def)
    then show ?thesis using False e step_ok_trans [OF k(1)] k(2) by auto
  qed
qed

lemma had_method_ok: "hdr_shape mx ah \<Longrightarrow> list_all (\<lambda>m. m < 96) ms \<Longrightarrow> \<exists>b. had_method ah ms = Done b"
  by (induction ms) (auto simp: hdr_defs hdr_shape_def)

lemma parse_name_walked_ok:
  assumes "name_stored mx (mux_substream w) ah lim" and "ah_parser_state ah = WSI_TOKEN_NAME_PART"
    and "ah_lextable_pos ah < 0 \<or> lex_good (ah_lextable_pos ah)"
    and "http_env_ok cx" and mx: "mx = max_http_header_data cx"
  shows "\<exists>r. parse_name_walked cx w ah = Done r \<and> step_ok mx (ah_nfrag ah) ah r"
proof -
  have d: "hdr_done ah = ah_nfrag ah" "hdr_done (ah\<lparr>ah_parser_state := WSI_TOKEN_SKIPPING\<rparr>) = ah_nfrag ah"
    using assms(2) by (simp_all add: hdr_done_def)
  have sk: "step_ok mx (ah_nfrag ah) ah (Next (if mux_substream w then ah\<lparr>ah_parser_state := WSI_TOKEN_SKIPPING\<rparr> else ah))"
    if "ah_lextable_pos ah < 0"
    using name_stored_skip [OF assms(1)] name_stored_inv [OF assms(1,2)] that d by (simp add: lex_waiting_def)
  have "hdr_shape mx ah" using assms(1) by (simp add: name_stored_def hdr_resting_def)
  then obtain b where b: "had_method ah methods = Done b" using had_method_ok [of mx ah methods] by (auto simp: methods_def)
  show ?thesis
  proof (cases "ah_lextable_pos ah < 0")
    case True
    then show ?thesis using sk b by (auto simp: parse_name_walked_def)
  next
    case False
    then have g: "lex_good (ah_lextable_pos ah)" using assms(3) by simp
    then have a: "lex_at lextable_h1 (ah_lextable_pos ah) = Done (lextable_h1 ! nat (ah_lextable_pos ah))"
      using lex_good_state [OF g] by (simp add: lex_at_def)
    show ?thesis
      using False g a parse_known_name_ok [OF assms(1) g _ assms(4) mx] name_stored_inv [OF assms(1,2)] d
      by (auto simp: parse_name_walked_def lex_waiting_def not_less)
  qed
qed

text \<open>The part of \<open>parse_name\<close> before the walk: it fails when the buffer is full, or stores the character.\<close>

lemma parse_name_split:
  assumes "hdr_inv mx ah" and st: "ah_parser_state ah = WSI_TOKEN_NAME_PART" and mx: "mx = max_http_header_data cx"
    and nl: "\<not> (ah_unk_pos ah = 0 \<and> c = 10)"
  obtains ah1 where "parse_name cx w c ah = Done (Parse_fail ah1)" 
    and "mx < ah_pos ah + (if \<not> mux_substream w \<and> ah_unk_pos ah = 0 then 9 else 1)"
  | ah2 lim where "name_stored mx (mux_substream w) ah2 lim" and "hdr_keeps (ah_nfrag ah) ah ah2" and "ah_nfrag ah2 = ah_nfrag ah"
    and "ah_frag_index ah2 = ah_frag_index ah" and "ah_parser_state ah2 = WSI_TOKEN_NAME_PART"
    and "ah_lextable_pos ah2 = ah_lextable_pos ah" and "ah_ues ah2 = ah_ues ah" and "ah_frags ah2 = ah_frags ah"
    and "ah_pos ah2 \<le> ah_pos ah + (if \<not> mux_substream w \<and> ah_unk_pos ah = 0 then 9 else 1)"
    and "ah_unk_pos ah2 = (if \<not> mux_substream w \<and> ah_unk_pos ah = 0 then ah_pos ah else ah_unk_pos ah)"
    and "lim = (if ah_unk_pos ah = 0 then ah_pos ah else ah_unk_pos ah)"
    and "parse_name cx w c ah =
        (if \<not> mux_substream w \<and> ah_lextable_pos ah2 < 0 \<and> parse_to_lower c = 58 then parse_unknown_name ah2
         else if ah_lextable_pos ah2 < 0 then Done (Next ah2)
         else bind_outcome (lex_step lextable_h1 (ah_lextable_pos ah2) (parse_to_lower c)) (\<lambda>(p, marker).
           let ah = (if marker \<and> \<not> mux_substream w then ah2\<lparr>ah_pos := ah_unk_pos ah2, ah_unk_pos := 0\<rparr> else ah2)
           in parse_name_walked cx w (ah\<lparr>ah_lextable_pos := p\<rparr>)))"
proof -
  let ?mux = "mux_substream w" and ?c = "parse_to_lower c"
  define lim where "lim = (if ah_unk_pos ah = 0 then ah_pos ah else ah_unk_pos ah)"
  have I: "hdr_resting mx lim ah" "ah_unk_pos ah \<noteq> 0 \<longrightarrow> ah_unk_pos ah + 9 \<le> ah_pos ah"
    using assms(1) st by (auto simp: hdr_inv_def lim_def split: if_splits)
  obtain ah1 where a1: "(if \<not> ?mux \<and> ah_unk_pos ah = 0 then put_zeros mx 8 (ah\<lparr>ah_unk_pos := ah_pos ah\<rparr>) else Done ah) = Done ah1"
      "hdr_resting mx lim ah1" "hdr_keeps (ah_nfrag ah) ah ah1" "ah_nfrag ah1 = ah_nfrag ah" "ah_parser_state ah1 = WSI_TOKEN_NAME_PART"
      "ah_lextable_pos ah1 = ah_lextable_pos ah" "ah_pos ah1 < mx \<longrightarrow> ah_unk_pos ah1 \<noteq> 0 \<longrightarrow> ah_unk_pos ah1 + 8 \<le> ah_pos ah1"
      "lim = ah_unk_pos ah1 \<or> ?mux \<and> ah_unk_pos ah1 = 0" "ah_frag_index ah1 = ah_frag_index ah" "ah_ues ah1 = ah_ues ah"
      "ah_pos ah1 \<le> ah_pos ah + (if \<not> ?mux \<and> ah_unk_pos ah = 0 then 8 else 0)" "ah_unk_pos ah1 = (if \<not> ?mux \<and> ah_unk_pos ah = 0 then ah_pos ah else ah_unk_pos ah)"
      "ah_frags ah1 = ah_frags ah"
  proof (cases "\<not> ?mux \<and> ah_unk_pos ah = 0")
    case True
    have r0: "hdr_resting mx lim (ah\<lparr>ah_unk_pos := ah_pos ah\<rparr>)" using I(1) by simp
    obtain ah1 where "put_zeros mx 8 (ah\<lparr>ah_unk_pos := ah_pos ah\<rparr>) = Done ah1" "hdr_resting mx lim ah1"
      "hdr_keeps (ah_nfrag ah) ah ah1" "ah_pos ah1 < mx \<longrightarrow> ah_pos ah1 = ah_pos ah + 8" "ah_nfrag ah1 = ah_nfrag ah"
      "ah_unk_pos ah1 = ah_pos ah" "ah_parser_state ah1 = ah_parser_state ah" "ah_lextable_pos ah1 = ah_lextable_pos ah"
      "ah_frag_index ah1 = ah_frag_index ah" "ah_ues ah1 = ah_ues ah" "ah_pos ah1 \<le> ah_pos ah + 8"
      "ah_frags ah1 = ah_frags ah"
      using put_zeros_ok [OF r0, of 8] by auto
    then show thesis using that [of ah1] True st by (simp add: lim_def)
  next
    case False
    then show thesis using that [of ah] I st by (auto simp: lim_def)
  qed
  have sh: "hdr_shape mx ah1" using a1(2) by (simp add: hdr_resting_def)
  show thesis
  proof (cases "ah_pos ah1 < mx")
    case oob: False
    then have "parse_name cx w c ah = Done (Parse_fail ah1)"
      unfolding parse_name_def Let_def mx [symmetric] a1(1) if_not_P [OF nl] using lws_pos_in_bounds_ok [OF sh] by simp
    then show thesis using oob a1(11) by (intro that(1)) (auto split: if_splits)
  next
    case pos: True
    define ah2 where "ah2 = ah_put ?c ah1"
    have ib: "lws_pos_in_bounds mx ah1 = Done 0" "put_data ?c ah1 = Done ah2"
      using lws_pos_in_bounds_ok [OF sh] pos put_data_ok [of ah1 ?c] sh by (simp_all add: ah2_def hdr_shape_def)
    show thesis
    proof (rule that(2) [of ah2 lim])
      show "name_stored mx ?mux ah2 lim"
        using hdr_resting_put(1) [OF a1(2) pos] a1(7,8) pos by (auto simp: name_stored_def ah2_def)
      show "hdr_keeps (ah_nfrag ah) ah ah2"
        using hdr_keeps_trans [OF a1(3) hdr_resting_put(2) [OF a1(2) pos]] a1(4) by (simp add: ah2_def)
      show "parse_name cx w c ah =
        (if \<not> ?mux \<and> ah_lextable_pos ah2 < 0 \<and> ?c = 58 then parse_unknown_name ah2
         else if ah_lextable_pos ah2 < 0 then Done (Next ah2)
         else bind_outcome (lex_step lextable_h1 (ah_lextable_pos ah2) ?c) (\<lambda>(p, marker).
           let ah = (if marker \<and> \<not> ?mux then ah2\<lparr>ah_pos := ah_unk_pos ah2, ah_unk_pos := 0\<rparr> else ah2)
           in parse_name_walked cx w (ah\<lparr>ah_lextable_pos := p\<rparr>)))"
        unfolding parse_name_def if_not_P [OF nl] Let_def mx [symmetric] a1(1) bind_outcome.simps ib by simp
      show "ah_pos ah2 \<le> ah_pos ah + (if \<not> ?mux \<and> ah_unk_pos ah = 0 then 9 else 1)"
        using a1(11) by (simp add: ah2_def split: if_splits)
    qed (simp_all add: ah2_def lim_def a1(4,5,6,9,10,12,13))
  qed
qed

lemma parse_name_ok:
  assumes "hdr_inv mx ah" and st: "ah_parser_state ah = WSI_TOKEN_NAME_PART" and "http_env_ok cx" and mx: "mx = max_http_header_data cx"
  shows "\<exists>r. parse_name cx w c ah = Done r \<and> step_ok mx (hdr_done ah) ah r"
proof (cases "ah_unk_pos ah = 0 \<and> c = 10")
  case True
  then show ?thesis using assms(1) st by (simp add: parse_name_def hdr_inv_def hdr_done_def)
next
  case False
  let ?mux = "mux_substream w" and ?c = "parse_to_lower c"
  have d: "hdr_done ah = ah_nfrag ah" using st by (simp add: hdr_done_def)
  have I: "lex_waiting (ah_lextable_pos ah)" "ah_lextable_pos ah < 0 \<longrightarrow> ah_pos ah \<noteq> 0" using assms(1) st by (auto simp: hdr_inv_def)
  show ?thesis
  proof (rule parse_name_split [OF assms(1) st mx False, of w])
    fix ah1
    assume "parse_name cx w c ah = Done (Parse_fail ah1)"
    then show ?thesis by simp
  next
    fix ah2 lim
    assume s2: "name_stored mx ?mux ah2 lim" and k2: "hdr_keeps (ah_nfrag ah) ah ah2" and p2: "ah_nfrag ah2 = ah_nfrag ah"
        "ah_parser_state ah2 = WSI_TOKEN_NAME_PART" "ah_lextable_pos ah2 = ah_lextable_pos ah"
      and l: "lim = (if ah_unk_pos ah = 0 then ah_pos ah else ah_unk_pos ah)"
      and e: "parse_name cx w c ah =
        (if \<not> ?mux \<and> ah_lextable_pos ah2 < 0 \<and> ?c = 58 then parse_unknown_name ah2
         else if ah_lextable_pos ah2 < 0 then Done (Next ah2)
         else bind_outcome (lex_step lextable_h1 (ah_lextable_pos ah2) ?c) (\<lambda>(p, marker).
           let ah = (if marker \<and> \<not> ?mux then ah2\<lparr>ah_pos := ah_unk_pos ah2, ah_unk_pos := 0\<rparr> else ah2)
           in parse_name_walked cx w (ah\<lparr>ah_lextable_pos := p\<rparr>)))"
    have "\<exists>r. parse_name cx w c ah = Done r \<and> step_ok mx (ah_nfrag ah2) ah2 r"
    proof (cases "ah_lextable_pos ah < 0")
      case neg: True
      have w: "lex_waiting (ah_lextable_pos ah2)" using neg p2 by (simp add: lex_waiting_def)
      have "lim \<noteq> 0" using neg I(2) by (simp add: l)
      then show ?thesis
        using e neg p2 name_stored_inv [OF s2 p2(2) w] parse_unknown_name_ok [of mx ah2 lim] s2
        by (cases "\<not> ?mux \<and> ?c = 58") (auto simp: hdr_done_def name_stored_def)
    next
      case walk: False
      then have g: "lex_good (ah_lextable_pos ah)" "FAIL_CHAR \<le> lextable_h1 ! nat (ah_lextable_pos ah)"
        using I(1) by (auto simp: lex_waiting_def)
      obtain q where q: "lex_step lextable_h1 (ah_lextable_pos ah) ?c = Done (q, False)" "q < 0 \<or> lex_good q"
        using lex_good_step [OF g] by blast
      obtain r where "parse_name_walked cx w (ah2\<lparr>ah_lextable_pos := q\<rparr>) = Done r" "step_ok mx (ah_nfrag ah2) (ah2\<lparr>ah_lextable_pos := q\<rparr>) r"
        using parse_name_walked_ok [of mx w "ah2\<lparr>ah_lextable_pos := q\<rparr>" lim cx] s2 p2 q(2) assms(3) mx by auto
      then show ?thesis using e walk p2 q(1) step_ok_trans [of "ah_nfrag ah2" ah2 "ah2\<lparr>ah_lextable_pos := q\<rparr>"] by auto
    qed
    then show ?thesis using step_ok_trans [OF k2] p2(1) d by auto
  qed
qed

end
