(* ===== verification/Http_Safe.thy ===== *)
theory Http_Safe
  imports Http_Inv
begin

text \<open>
  The safety of the HTTP/1 header parser: from a table that satisfies the invariant, \<open>lws_parse\<close> returns whatever the peer
  sends, without an access out of bounds, and a successful return leaves the invariant in place and every complete header
  as it was.
\<close>

lemma parse_unknown_value_ok:
  assumes "hdr_inv mx ah" and st: "ah_parser_state ah = WSI_TOKEN_UNKNOWN_VALUE_PART" and mx: "mx = max_http_header_data cx"
  shows "\<exists>r. parse_unknown_value cx c ah = Done r \<and> step_ok mx (hdr_done ah) ah r"
proof -
  let ?up = "ah_unk_pos ah"
  have I: "hdr_shape mx ah" "hdr_lay ah (ah_nfrag ah) ?up" "?up \<noteq> 0" "ah_unk_ll_tail ah = ?up" "?up + 9 \<le> ah_pos ah"
    using assms(1) st by (simp_all add: hdr_inv_def)
  have d: "hdr_done ah = ah_nfrag ah" using st by (simp add: hdr_done_def)
  have b: "length (ah_data ah) = mx" "ah_pos ah \<le> mx + 1" using I(1) by (simp_all add: hdr_shape_def)
  obtain d' where d': "lws_ser_wu16be (ah_data ah) (?up + 2) (u32_sub (ah_pos ah) (ah_unk_value_pos ah)) = Done d'" "length d' = mx"
      "\<forall>j < mx. j < ?up + 2 \<or> ?up + 2 + 2 \<le> j \<longrightarrow> d' ! j = ah_data ah ! j"
    using lws_ser_wu16be_frame [of "?up + 2" "ah_data ah"] I(5) b by auto
  have r: "hdr_resting mx (ah_pos ah) (ah\<lparr>ah_data := d'\<rparr>)" "hdr_keeps (ah_nfrag ah) ah (ah\<lparr>ah_data := d'\<rparr>)"
  proof -
    have a: "hdr_agree (ah_nfrag ah) ?up ah (ah\<lparr>ah_data := d'\<rparr>)"
      using d'(2,3) b I(5) by (auto simp: hdr_agree_def)
    show "hdr_keeps (ah_nfrag ah) ah (ah\<lparr>ah_data := d'\<rparr>)" by (rule hdr_agree_keeps [OF I(2) a])
    show "hdr_resting mx (ah_pos ah) (ah\<lparr>ah_data := d'\<rparr>)"
      using hdr_lay_mono [OF hdr_lay_agree [OF I(2) a], of "ah_pos ah"] I d'(2) by (simp add: hdr_resting_def hdr_shape_def)
  qed
  have p: "hdr_inv mx (ah_put c ah)" "hdr_keeps (ah_nfrag ah) ah (ah_put c ah)" if "ah_pos ah < mx"
  proof -
    have a: "hdr_agree (ah_nfrag ah) ?up ah (ah_put c ah)" using I(5) by (simp add: hdr_agree_def ah_put_def)
    show "hdr_keeps (ah_nfrag ah) ah (ah_put c ah)" by (rule hdr_agree_keeps [OF I(2) a])
    show "hdr_inv mx (ah_put c ah)"
      using hdr_lay_agree [OF I(2) a] I st that by (simp add: hdr_inv_def hdr_shape_def)
  qed
  show ?thesis
    using assms(1) d d'(1) r p lws_pos_in_bounds_ok [OF I(1)] put_data_ok [of ah c] b(1) st
    by (auto simp: parse_unknown_value_def parse_name_start_def hdr_inv_def hdr_done_def lex_waiting_0 simp flip: mx)
qed

lemma parse_char_ok:
  assumes "hdr_inv mx ah" and "http_env_ok cx" and mx: "mx = max_http_header_data cx"
  shows "\<exists>r. parse_char cx w c ah = Done r \<and> step_ok mx (hdr_done ah) ah r"
proof (cases "ah_parser_state ah")
  case (WSI_TOKEN t)
  then show ?thesis using parse_value_ok [OF assms(1) WSI_TOKEN mx] by (simp add: parse_char_def)
next
  case WSI_TOKEN_NAME_PART
  then show ?thesis using parse_name_ok [OF assms(1) WSI_TOKEN_NAME_PART assms(2) mx] by (simp add: parse_char_def)
next
  case WSI_TOKEN_UNKNOWN_VALUE_PART
  then show ?thesis using parse_unknown_value_ok [OF assms(1) _ mx] by (simp add: parse_char_def)
next
  case WSI_TOKEN_SKIPPING
  then show ?thesis using assms(1)
    by (simp add: parse_char_def Let_def hdr_inv_def hdr_done_def parse_name_start_def lex_waiting_0)
next
  case WSI_TOKEN_SKIPPING_SAW_CR
  then show ?thesis using assms(1)
    by (simp add: parse_char_def hdr_inv_def hdr_done_def parse_name_start_def lex_waiting_0)
next
  case WSI_PARSING_COMPLETE
  then show ?thesis using assms(1) by (simp add: parse_char_def)
qed

section \<open>The end of the headers\<close>

text \<open>A number followed, somewhere, by a NUL is read without running off the buffer.\<close>

lemma atoi_digits_ok: "0 \<in> set s \<Longrightarrow> \<exists>v. atoi_digits acc s = Done v"
  by (induction acc s rule: atoi_digits.induct) auto

lemma c_atoi_ok:
  assumes "0 \<in> set s"
  shows "\<exists>v. c_atoi s = Done v"
proof -
  let ?s = "dropWhile (\<lambda>c. c = 32 \<or> 9 \<le> c \<and> c \<le> 13) s"
  have "0 \<in> set ?s" using assms by (induction s) auto
  then obtain c s' where s: "?s = c # s'" "c = 0 \<or> 0 \<in> set s'" by (cases ?s) auto
  have "\<exists>v. atoi_signed ?s = Done v"
    using s atoi_digits_ok [of s'] atoi_digits_ok [of "c # s'"] by (fastforce simp: atoi_signed_def simp del: atoi_digits.simps)
  then show ?thesis by (auto simp: c_atoi_def)
qed

lemma parse_complete_ok:
  assumes "hdr_resting mx (ah_pos ah) ah"
  shows "\<exists>r w'. parse_complete w ah = Done (r, w') \<and> (r = LPR_OK \<longrightarrow> hdr_parsing_completed w' \<and>
    http_ah w' = Some (ah\<lparr>ah_parser_state := WSI_PARSING_COMPLETE\<rparr>)) \<and> (r = LPR_OK \<or> r = LPR_FORBIDDEN)"
proof -
  have sh: "hdr_shape mx ah" and lay: "hdr_lay ah (ah_nfrag ah) (ah_pos ah)" using assms by (auto simp: hdr_resting_def)
  have ix: "index_at ah h = Done (ah_frag_index ah ! h)" "ah_frag_index ah ! h \<le> ah_nfrag ah" if "h < 96" for h
    using sh that by (auto simp: index_at_def hdr_shape_def)
  have nf: "ah_nfrag ah < length (ah_frags ah)" using sh by (simp add: hdr_shape_def)
  obtain len where len: "lws_hdr_total_length (Some ah) WSI_TOKEN_UPGRADE = Done len"
    using hdr_chain_ok [OF sh ix(2), of WSI_TOKEN_UPGRADE] ix [of WSI_TOKEN_UPGRADE]
    by (cases "ah_frag_index ah ! WSI_TOKEN_UPGRADE = 0") (auto simp: lws_hdr_total_length_def)
  have v: "\<exists>w'. (if len = 0 then Done w
           else bind_outcome (lws_hdr_simple_ptr (Some ah) WSI_TOKEN_VERSION) (\<lambda>pv.
             case pv of None \<Rightarrow> Done w
             | Some p \<Rightarrow> bind_outcome (c_atoi (drop p (ah_data ah))) (\<lambda>v. Done (w\<lparr>http_rx_frame_type := c_char v\<rparr>)))) = Done w'"
  proof (cases "len = 0 \<or> ah_frag_index ah ! WSI_TOKEN_VERSION = 0")
    case True
    then show ?thesis using ix [of WSI_TOKEN_VERSION] by (auto simp: lws_hdr_simple_ptr_def)
  next
    case False
    let ?n = "ah_frag_index ah ! WSI_TOKEN_VERSION"
    obtain j where "hdr_seal ah ?n (if ?n < ah_nfrag ah then off ah (?n + 1) else ah_pos ah) j"
      by (rule hdr_layD [OF lay, of ?n]) (use False ix(2) in auto)
    then have "off ah ?n \<le> j" "j < length (ah_data ah)" "ah_data ah ! j = 0" by (auto simp: hdr_seal_def)
    then have "0 \<in> set (drop (off ah ?n) (ah_data ah))" by (auto simp: in_set_conv_nth intro!: exI [of _ "j - off ah ?n"])
    from c_atoi_ok [OF this] obtain v where "c_atoi (drop (off ah ?n) (ah_data ah)) = Done v" ..
    then show ?thesis using False ix [of WSI_TOKEN_VERSION] nf by (auto simp: lws_hdr_simple_ptr_def frag_at_def)
  qed
  then show ?thesis using len by (auto simp: parse_complete_def parse_forbidden_def)
qed

section \<open>The loop\<close>

lemma parse_loop_ok:
  assumes "http_env_ok cx" and mx: "mx = max_http_header_data cx"
  shows "hdr_inv mx ah \<Longrightarrow> \<exists>r w' rest. parse_loop cx w ah buf = Done (r, w', rest) \<and>
    (r = LPR_OK \<longrightarrow> (\<exists>ah'. http_ah w' = Some ah' \<and> hdr_inv mx ah' \<and> hdr_keeps (hdr_done ah) ah ah' \<and> hdr_done ah \<le> hdr_done ah'))"
proof (induction buf arbitrary: ah)
  case (Cons c cs)
  obtain r where r: "parse_char cx w c ah = Done r" "step_ok mx (hdr_done ah) ah r"
    using parse_char_ok [OF Cons.prems assms] by blast
  show ?case
  proof (cases r)
    case (Next ah1)
    then obtain r' w' rest where "parse_loop cx w ah1 cs = Done (r', w', rest)"
      "r' = LPR_OK \<longrightarrow> (\<exists>ah'. http_ah w' = Some ah' \<and> hdr_inv mx ah' \<and> hdr_keeps (hdr_done ah1) ah1 ah' \<and> hdr_done ah1 \<le> hdr_done ah')"
      using Cons.IH [of ah1] r(2) by auto
    then show ?thesis using r Next by (auto intro: hdr_keeps_trans)
  next
    case (Set_parsing_complete ah1)
    then obtain r' w' where c: "parse_complete w ah1 = Done (r', w')"
        "r' = LPR_OK \<longrightarrow> http_ah w' = Some (ah1\<lparr>ah_parser_state := WSI_PARSING_COMPLETE\<rparr>)"
      using parse_complete_ok [of mx ah1 w] r(2) by auto
    have "hdr_inv mx (ah1\<lparr>ah_parser_state := WSI_PARSING_COMPLETE\<rparr>)" using r(2) Set_parsing_complete by (simp add: hdr_inv_def)
    then show ?thesis using r c Set_parsing_complete by (auto simp: hdr_done_def)
  qed (use r in \<open>auto simp: parse_forbidden_def\<close>)
qed auto

lemma hdr_inv_reset: "length (ah_data ah) = mx \<Longrightarrow> mx \<le> 65535 \<Longrightarrow> hdr_inv mx (lws_header_table_reset ah)"
  by (simp add: hdr_inv_def lws_header_table_reset_def hdr_resting_def hdr_shape_def lex_waiting_0 frag_zero_def nth_append nth_replicate)

text \<open>A run of \<open>lws_parse\<close> over the input as it arrives, piece by piece, until it is not to be called again.\<close>

fun lws_parse_all :: "http_env \<Rightarrow> http_wsi \<Rightarrow> int list list \<Rightarrow> (lws_parser_return \<times> http_wsi) outcome" where
  "lws_parse_all cx w [] = Done (LPR_OK, w)"
| "lws_parse_all cx w (buf # bufs) =
     bind_outcome (lws_parse cx w buf) (\<lambda>(r, w, _). if r = LPR_OK then lws_parse_all cx w bufs else Done (r, w))"

lemma lws_parse_ok:
  assumes "http_env_ok cx" and "http_ah w = Some ah" and "hdr_inv (max_http_header_data cx) ah" and "buf \<noteq> []"
  shows "\<exists>r w' rest. lws_parse cx w buf = Done (r, w', rest) \<and> (r = LPR_OK \<longrightarrow> (\<exists>ah'. http_ah w' = Some ah' \<and>
    hdr_inv (max_http_header_data cx) ah' \<and> hdr_keeps (hdr_done ah) ah ah' \<and> hdr_done ah \<le> hdr_done ah'))"
  using parse_loop_ok [OF assms(1) refl assms(3)] assms(2,4) by (simp add: lws_parse_def)

lemma lws_parse_all_ok:
  "http_env_ok cx \<Longrightarrow> http_ah w = Some ah \<Longrightarrow> hdr_inv (max_http_header_data cx) ah \<Longrightarrow> list_all (\<lambda>b. b \<noteq> []) bufs \<Longrightarrow>
   \<exists>r w'. lws_parse_all cx w bufs = Done (r, w')"
proof (induction bufs arbitrary: w ah)
  case (Cons buf bufs)
  obtain r w' rest where r: "lws_parse cx w buf = Done (r, w', rest)"
      "r = LPR_OK \<longrightarrow> (\<exists>ah'. http_ah w' = Some ah' \<and> hdr_inv (max_http_header_data cx) ah')"
    using lws_parse_ok [OF Cons.prems(1-3), of buf] Cons.prems(4) by auto
  then show ?case using Cons.IH Cons.prems(1,4) by (cases "r = LPR_OK") auto
qed auto

text \<open>A server connection with a fresh header table of \<open>n\<close> bytes.\<close>

definition http_cx :: "nat \<Rightarrow> http_env" where
  "http_cx n = \<lparr>max_http_header_data = n, token_limits = None, fallback_to_apply_listen_accept_config = False\<rparr>"

definition http_fresh :: "nat \<Rightarrow> http_wsi" where
  "http_fresh n = \<lparr>http_ah = Some (lws_header_table_reset (lws_create_ah (replicate n 0))), mux_substream = False, role_h1 = True,
     role_server = True, hdr_parsing_completed = False, http_rx_frame_type = 0, http_statuses = []\<rparr>"

lemma http_fresh_ok: "n \<le> 65535 \<Longrightarrow> http_env_ok (http_cx n) \<and> length (replicate n (0::int)) = max_http_header_data (http_cx n) \<and>
    http_ah (http_fresh n) = Some (lws_header_table_reset (lws_create_ah (replicate n 0)))"
  by (simp add: http_env_ok_def http_cx_def http_fresh_def)

text \<open>C8. Whatever a peer sends, in whatever pieces, \<open>lws_parse\<close> returns: from a fresh header table it never reads or writes
  outside the header buffer, the fragment and index arrays or the table of names, never fails its assertion, and never
  follows a chain of fragments for ever.\<close>

theorem lws_parse_safe:
  assumes "http_env_ok cx" and "length d = max_http_header_data cx"
    and "http_ah w = Some (lws_header_table_reset (lws_create_ah d))" and "list_all (\<lambda>buf. buf \<noteq> []) bufs"
  shows "\<exists>r w'. lws_parse_all cx w bufs = Done (r, w')"
  using lws_parse_all_ok [OF assms(1,3) _ assms(4)] hdr_inv_reset [of "lws_create_ah d"] assms(1,2)
  by (simp add: lws_create_ah_def http_env_ok_def)

theorem lws_parse_safe_witness:
  "\<exists>r w'. lws_parse_all (http_cx 100) (http_fresh 100) [name_bytes ''GET /%'', name_bytes ''2e./x'', [13], [10, 10]] = Done (r, w')"
  by (rule lws_parse_safe [of _ "replicate 100 0"]) (use http_fresh_ok [of 100] in \<open>simp_all add: name_bytes_def\<close>)

end
