(* ===== verification/Http_Uri.thy ===== *)
theory Http_Uri
  imports Http_Safe
begin

text \<open>
  What the parser makes of the path of a request: in the stored URI no path component is \<open>..\<close>, so that a file name built
  from it stays below the directory it is appended to; and the inputs for which this does not hold.
\<close>

section \<open>Paths without parent directories\<close>

definition ends_with :: "int list \<Rightarrow> int list \<Rightarrow> bool" where
  "ends_with q p \<longleftrightarrow> (\<exists>a. p = a @ q)"

definition contains :: "int list \<Rightarrow> int list \<Rightarrow> bool" where
  "contains q p \<longleftrightarrow> (\<exists>a b. p = a @ q @ b)"

text \<open>No \<open>/../\<close> inside, and no \<open>/..\<close> at the end.\<close>

definition no_parent :: "int list \<Rightarrow> bool" where
  "no_parent p \<longleftrightarrow> \<not> contains [47, 46, 46, 47] p \<and> \<not> ends_with [47, 46, 46] p"

lemma ends_with_Nil: "q \<noteq> [] \<Longrightarrow> \<not> ends_with q []"
  by (simp add: ends_with_def)

lemma ends_with_snoc: "ends_with (q @ [x]) (p @ [c]) \<longleftrightarrow> c = x \<and> ends_with q p"
  by (auto simp: ends_with_def)

lemma ends_with_slash [simp]:
  "ends_with [47] (p @ [c]) \<longleftrightarrow> c = 47" "ends_with [47, 46] (p @ [c]) \<longleftrightarrow> c = 46 \<and> ends_with [47] p"
  "ends_with [47, 46, 46] (p @ [c]) \<longleftrightarrow> c = 46 \<and> ends_with [47, 46] p"
  using ends_with_snoc [of "[]" 47 p c] ends_with_snoc [of "[47]" 46 p c] ends_with_snoc [of "[47, 46]" 46 p c]
  by (auto simp: ends_with_def)

lemma ends_with_empty [simp]: "\<not> ends_with [47] []" "\<not> ends_with [47, 46] []" "\<not> ends_with [47, 46, 46] []"
  by (simp_all add: ends_with_Nil)

lemma contains_snoc [simp]:
  "contains [47, 46, 46, 47] (p @ [c]) \<longleftrightarrow> contains [47, 46, 46, 47] p \<or> c = 47 \<and> ends_with [47, 46, 46] p"
proof
  assume "contains [47, 46, 46, 47] (p @ [c])"
  then obtain a b where ab: "p @ [c] = a @ [47, 46, 46, 47] @ b" by (auto simp: contains_def)
  show "contains [47, 46, 46, 47] p \<or> c = 47 \<and> ends_with [47, 46, 46] p"
  proof (cases b rule: rev_cases)
    case Nil
    then have "p @ [c] = (a @ [47, 46, 46]) @ [47]" using ab by simp
    then show ?thesis by (auto simp: ends_with_def)
  next
    case (snoc b' x)
    then have "p @ [c] = (a @ [47, 46, 46, 47] @ b') @ [x]" using ab by simp
    then show ?thesis by (auto simp: contains_def)
  qed
next
  assume "contains [47, 46, 46, 47] p \<or> c = 47 \<and> ends_with [47, 46, 46] p"
  then show "contains [47, 46, 46, 47] (p @ [c])"
  proof
    assume "c = 47 \<and> ends_with [47, 46, 46] p"
    then obtain a where "p @ [c] = a @ [47, 46, 46, 47] @ []" by (auto simp: ends_with_def)
    then show ?thesis unfolding contains_def by blast
  next
    assume "contains [47, 46, 46, 47] p"
    then obtain a b where "p @ [c] = a @ [47, 46, 46, 47] @ (b @ [c])" by (auto simp: contains_def)
    then show ?thesis unfolding contains_def by blast
  qed
qed

lemma contains_Nil [simp]: "\<not> contains [47, 46, 46, 47] []"
  by (simp add: contains_def)

lemma contains_take: "contains q (take n p) \<Longrightarrow> contains q p"
  unfolding contains_def by (metis append_assoc append_take_drop_id)

text \<open>What the parser maintains: outside of its states after a slash, the path does not end in one, nor in \<open>/.\<close>.\<close>

definition path_ok :: "uri_path_states \<Rightarrow> int list \<Rightarrow> bool" where
  "path_ok u p \<longleftrightarrow> no_parent p \<and> \<not> ends_with [47, 46] p \<and> (u = URIPS_IDLE \<longrightarrow> \<not> ends_with [47] p)"

lemma path_ok_Nil [simp]: "path_ok u []"
  by (simp add: path_ok_def no_parent_def)

lemma no_parent_snoc [simp]:
  "no_parent (p @ [c]) \<longleftrightarrow> no_parent p \<and> \<not> (c = 46 \<and> ends_with [47, 46] p) \<or>
     c \<noteq> 47 \<and> \<not> (c = 46 \<and> ends_with [47, 46] p) \<and> \<not> contains [47, 46, 46, 47] p"
  by (auto simp: no_parent_def)

lemma no_parent_single: "no_parent [x]"
  using contains_snoc [of "[]" x] ends_with_slash(3) [of "[]" x] by (simp add: no_parent_def)

text \<open>Backing up a directory.\<close>

lemma no_parent_take:
  assumes "no_parent p" and "m \<le> length p" and "m = length p \<or> m = 1 \<or> p ! m = 47"
  shows "no_parent (take m p)"
proof -
  consider (all) "m = length p" | (one) "m = 1" "m < length p" | (slash) "m < length p" "p ! m = 47" using assms(2,3) by linarith
  then show ?thesis
  proof cases
    case all
    then show ?thesis using assms(1) by simp
  next
    case one
    then have "take m p = [p ! 0]" by (cases p) auto
    then show ?thesis by (simp add: no_parent_single)
  next
    case slash
    have t: "take (Suc m) p = take m p @ [47]" using slash by (simp add: take_Suc_conv_app_nth)
    have "\<not> contains [47, 46, 46, 47] (take (Suc m) p)" using assms(1) contains_take [of _ "Suc m" p] unfolding no_parent_def by blast
    then show ?thesis unfolding t by (simp add: no_parent_def)
  qed
qed

section \<open>The current fragment\<close>

text \<open>The value of the current fragment while nothing is behind it, and no limit cuts it short.\<close>

definition uri_cur :: "nat \<Rightarrow> allocated_headers \<Rightarrow> bool" where
  "uri_cur mx ah \<longleftrightarrow> hdr_collecting mx ah \<and> ah_pos ah = off ah (ah_nfrag ah) + flen ah (ah_nfrag ah) \<and>
     (ah_pos ah \<le> mx \<or> flen ah (ah_nfrag ah) = 0) \<and> (ah_current_token_limit ah = 0 \<or> mx \<le> ah_current_token_limit ah)"

definition cur_val :: "allocated_headers \<Rightarrow> int list" where
  "cur_val ah = hdr_val ah (ah_nfrag ah)"

lemma uri_cur_fields [simp]:
  "uri_cur mx (ah\<lparr>ah_ups := v\<rparr>) = uri_cur mx ah" "uri_cur mx (ah\<lparr>ah_ues := v1\<rparr>) = uri_cur mx ah"
  "uri_cur mx (ah\<lparr>ah_esc_stash := v2\<rparr>) = uri_cur mx ah" "uri_cur mx (ah\<lparr>ah_post_literal_equal := v3\<rparr>) = uri_cur mx ah"
  "cur_val (ah\<lparr>ah_ups := v\<rparr>) = cur_val ah" "cur_val (ah\<lparr>ah_ues := v1\<rparr>) = cur_val ah"
  "cur_val (ah\<lparr>ah_esc_stash := v2\<rparr>) = cur_val ah" "cur_val (ah\<lparr>ah_post_literal_equal := v3\<rparr>) = cur_val ah"
  by (simp_all add: uri_cur_def cur_val_def)

lemma uri_cur_room:
  assumes "uri_cur mx ah" and "ah_pos ah < mx"
  shows "ah_current_token_limit ah = 0 \<or> flen ah (ah_nfrag ah) < ah_current_token_limit ah"
  using assms by (auto simp: uri_cur_def)

lemma issue_char_cur:
  assumes "uri_cur mx ah"
  shows "issue_char mx c ah = Done (if ah_pos ah < mx then (0, ah_store c ah) else (-1, ah))"
  using issue_char_ok [of mx ah c] uri_cur_room [OF assms] assms by (auto simp: uri_cur_def)

lemma cur_val_length:
  assumes "uri_cur mx ah"
  shows "length (cur_val ah) = flen ah (ah_nfrag ah)"
  using assms by (auto simp: cur_val_def hdr_val_def uri_cur_def hdr_collecting_def hdr_shape_def)

lemma uri_cur_store:
  assumes "uri_cur mx ah" and "ah_pos ah < mx"
  shows "uri_cur mx (ah_store c ah)" and "cur_val (ah_store c ah) = cur_val ah @ [c]"
proof -
  let ?n = "ah_nfrag ah"
  have c: "hdr_collecting mx ah" "ah_pos ah = off ah ?n + flen ah ?n" using assms(1) by (simp_all add: uri_cur_def)
  have b: "?n < length (ah_frags ah)" "length (ah_data ah) = mx" using hdr_collectingD(1,5) [OF c(1)] by (simp_all add: hdr_shape_def)
  show "uri_cur mx (ah_store c ah)"
    using hdr_collecting_store(1) [OF c(1) assms(2) uri_cur_room [OF assms]] assms b by (simp add: uri_cur_def ah_store_def)
  have "take (flen ah ?n + 1) (drop (off ah ?n) ((ah_data ah)[ah_pos ah := c])) = take (flen ah ?n) (drop (off ah ?n) (ah_data ah)) @ [c]"
    using assms(2) b c(2) by (simp add: drop_update_swap take_Suc_list_update)
  then show "cur_val (ah_store c ah) = cur_val ah @ [c]" using b by (simp add: cur_val_def hdr_val_def ah_store_def)
qed

lemma cur_val_put:
  assumes "uri_cur mx ah"
  shows "hdr_val (ah_put c ah) (ah_nfrag ah) = cur_val ah"
  using assms by (simp add: cur_val_def hdr_val_def ah_put_def uri_cur_def drop_update_swap)

lemma hdr_nul_put:
  assumes "uri_cur mx ah" and "ah_pos ah < mx"
  shows "hdr_nul (ah_put 0 ah) (ah_nfrag ah)"
  using assms by (auto simp: hdr_nul_def ah_put_def uri_cur_def hdr_collecting_def hdr_shape_def)

lemma uri_seal_cur:
  assumes "uri_cur mx ah"
  shows "uri_seal mx ah = Done (if ah_pos ah < mx then (True, ah_put 0 ah) else (False, ah))"
proof -
  have c: "hdr_collecting mx ah" using assms by (simp add: uri_cur_def)
  show ?thesis using uri_cur_room [OF assms] len_dec_store [OF c] by (auto simp: uri_seal_def issue_char_cur [OF assms])
qed

lemma uri_up_cur:
  assumes "uri_cur mx ah"
  shows "\<exists>m ah'. uri_up ah = Done ah' \<and> uri_cur mx ah' \<and> cur_val ah' = take m (cur_val ah) \<and> m \<le> length (cur_val ah) \<and>
    (m = length (cur_val ah) \<or> m = 1 \<or> cur_val ah ! m = 47) \<and> flen ah' (ah_nfrag ah') = m \<and> ah_nfrag ah' = ah_nfrag ah \<and>
    ah_frag_index ah' = ah_frag_index ah \<and> ah_parser_state ah' = ah_parser_state ah \<and> ah_ups ah' = ah_ups ah \<and> ah_ues ah' = ah_ues ah \<and>
    hdr_keeps (ah_nfrag ah - 1) ah ah' \<and> ah_pos ah' \<le> ah_pos ah"
proof -
  let ?n = "ah_nfrag ah"
  have c: "hdr_collecting mx ah" "ah_pos ah = off ah ?n + flen ah ?n" "ah_pos ah \<le> mx \<or> flen ah ?n = 0"
    using assms(1) by (auto simp: uri_cur_def)
  have b: "?n < length (ah_frags ah)" "length (ah_data ah) = mx" using hdr_collectingD(1,5) [OF c(1)] by (simp_all add: hdr_shape_def)
  note l = cur_val_length [OF assms]
  obtain m where m: "uri_up ah = Done ((ah_len m ah)\<lparr>ah_pos := ah_pos ah - (flen ah ?n - m)\<rparr>)" "m \<le> flen ah ?n"
    "m = flen ah ?n \<or> m = 1 \<or> ah_data ah ! (ah_pos ah - (flen ah ?n - m)) = 47"
    using uri_up_ok [OF c(1)] by blast
  define ah' where "ah' = (ah_len m ah)\<lparr>ah_pos := ah_pos ah - (flen ah ?n - m)\<rparr>"
  have u: "hdr_collecting mx ah'" "hdr_keeps (ah_nfrag ah - 1) ah ah'" using hdr_collecting_up [OF c(1) m(2) ah'_def] by auto
  have f: "off ah' ?n = off ah ?n" "flen ah' ?n = m" "ah_nfrag ah' = ?n" "ah_pos ah' = off ah ?n + m"
    using b m(2) c(2) by (simp_all add: ah'_def ah_len_def)
  have "cur_val ah' = take m (cur_val ah)" using f m(2) by (simp add: cur_val_def hdr_val_def ah'_def min_def)
  moreover have "cur_val ah ! m = 47" if "m \<noteq> flen ah ?n" "m \<noteq> 1"
  proof -
    have "ah_data ah ! (off ah ?n + m) = 47" using m(2,3) that c(2) by auto
    then show ?thesis using that m(2) c(2,3) b by (simp add: cur_val_def hdr_val_def)
  qed
  moreover have "uri_cur mx ah'" using u(1) f assms(1) m(2) by (auto simp: uri_cur_def ah'_def)
  ultimately show ?thesis
    using m f u(2) l c(2) by (intro exI [of _ m] exI [of _ ah']) (auto simp: ah'_def)
qed

section \<open>The path of a URI\<close>

text \<open>While the path is collected into the fragments from \<open>n0\<close> on; and once the arguments have started.\<close>

definition uri_phase :: "nat \<Rightarrow> nat \<Rightarrow> allocated_headers \<Rightarrow> bool" where
  "uri_phase mx n0 ah \<longleftrightarrow> uri_cur mx ah \<and> ah_frag_index ah ! WSI_TOKEN_HTTP_URI_ARGS = 0 \<and> 1 \<le> n0 \<and> n0 \<le> ah_nfrag ah \<and>
     (\<forall>i. n0 \<le> i \<longrightarrow> i < ah_nfrag ah \<longrightarrow> no_parent (hdr_val ah i))"

definition uri_in_path :: "nat \<Rightarrow> nat \<Rightarrow> allocated_headers \<Rightarrow> bool" where
  "uri_in_path mx n0 ah \<longleftrightarrow> uri_phase mx n0 ah \<and> path_ok (ah_ups ah) (cur_val ah)"

definition uri_in_args :: "nat \<Rightarrow> allocated_headers \<Rightarrow> bool" where
  "uri_in_args n0 ah \<longleftrightarrow> ah_frag_index ah ! WSI_TOKEN_HTTP_URI_ARGS \<noteq> 0 \<and> ah_frag_index ah ! WSI_TOKEN_HTTP_URI_ARGS \<le> ah_nfrag ah \<and> 1 \<le> n0 \<and>
     (\<forall>i. n0 \<le> i \<longrightarrow> i < ah_frag_index ah ! WSI_TOKEN_HTTP_URI_ARGS \<longrightarrow> no_parent (hdr_val ah i))"

lemma uri_phase_fields [simp]:
  "uri_phase mx n0 (ah\<lparr>ah_ups := v\<rparr>) = uri_phase mx n0 ah" "uri_phase mx n0 (ah\<lparr>ah_ues := v1\<rparr>) = uri_phase mx n0 ah"
  "uri_phase mx n0 (ah\<lparr>ah_esc_stash := v2\<rparr>) = uri_phase mx n0 ah"
  "uri_phase mx n0 (ah\<lparr>ah_post_literal_equal := v3\<rparr>) = uri_phase mx n0 ah"
  by (simp_all add: uri_phase_def)

lemma uri_phase_keeps:
  assumes "uri_phase mx n0 ah" and "uri_cur mx ah'" and "hdr_keeps (ah_nfrag ah - 1) ah ah'" and "ah_nfrag ah' = ah_nfrag ah"
    and "ah_frag_index ah' = ah_frag_index ah"
  shows "uri_phase mx n0 ah'"
  using assms by (auto simp: uri_phase_def hdr_keeps_def)

lemma uri_phase_store:
  assumes "uri_phase mx n0 ah" and "ah_pos ah < mx"
  shows "uri_phase mx n0 (ah_store c ah)" and "cur_val (ah_store c ah) = cur_val ah @ [c]"
proof -
  have c: "uri_cur mx ah" "hdr_collecting mx ah" using assms(1) by (auto simp: uri_phase_def uri_cur_def)
  show "cur_val (ah_store c ah) = cur_val ah @ [c]" by (rule uri_cur_store [OF c(1) assms(2)])
  show "uri_phase mx n0 (ah_store c ah)"
    using uri_phase_keeps [OF assms(1) uri_cur_store(1) [OF c(1) assms(2)]] hdr_collecting_store(2) [OF c(2) assms(2) uri_cur_room [OF c(1) assms(2)]]
    by simp
qed

text \<open>The next fragment, after a seal.\<close>

lemma uri_phase_next:
  assumes "uri_phase mx n0 ah" and "no_parent (cur_val ah)" and "ah_pos ah < mx"
    and "ah1 = ah_put 0 ah \<or> ah1 = (ah_put 0 ah)\<lparr>ah_frags := (ah_frags ah)[ah_nfrag ah := (ah_frags ah ! ah_nfrag ah)\<lparr>frag_nfrag := ah_nfrag ah + 1\<rparr>]\<rparr>"
  shows "\<exists>ok ah'. uri_next_frag ah1 = Done (ok, ah') \<and> (ok \<longrightarrow> uri_phase mx n0 ah' \<and> cur_val ah' = [] \<and> ah_nfrag ah' = ah_nfrag ah + 1 \<and>
    ah_parser_state ah' = ah_parser_state ah \<and> ah_ups ah' = ah_ups ah \<and> length (ah_frag_index ah') = 96)"
proof -
  have c: "uri_cur mx ah" "hdr_collecting mx ah" using assms(1) by (auto simp: uri_phase_def uri_cur_def)
  let ?ah0 = "ah_put 0 ah"
  have r: "hdr_resting mx (ah_pos ?ah0) ?ah0" using hdr_put_ok(3) [OF c(2) assms(3)] by simp
  have a1: "ah1 = ?ah0 \<or> ah1 = ?ah0\<lparr>ah_frags := (ah_frags ?ah0)[ah_nfrag ?ah0 := (ah_frags ?ah0 ! ah_nfrag ?ah0)\<lparr>frag_nfrag := ah_nfrag ?ah0 + 1\<rparr>]\<rparr>"
    using assms(4) by simp
  obtain ah' where u: "uri_next_frag ah1 = Done (ah_nfrag ?ah0 + 1 < 96, ah')" "ah_nfrag ah' = ah_nfrag ?ah0 + 1"
    "ah_parser_state ah' = ah_parser_state ?ah0" "ah_frag_index ah' = ah_frag_index ?ah0"
    "ah_nfrag ?ah0 + 1 < 96 \<longrightarrow> hdr_opened (ah_pos ?ah0 + 1) ?ah0 ah'"
    using uri_next_frag_ok [OF r _ a1] assms(3) by auto
  have ups: "ah_ups ah' = ah_ups ah" "ah_current_token_limit ah' = ah_current_token_limit ah"
    using u(1) a1 by (auto simp: uri_next_frag_def Let_def hdr_defs split: if_splits)
  have "uri_phase mx n0 ah'" "cur_val ah' = []" if n: "ah_nfrag ?ah0 + 1 < 96"
  proof -
    note o = mp [OF u(5) n]
    have oc: "hdr_collecting mx ah'" "hdr_keeps (ah_nfrag ah) ?ah0 ah'"
      using hdr_opened_collecting [OF r o n] assms(3) by auto
    have k: "hdr_keeps (ah_nfrag ah - 1) ah ?ah0" by (rule hdr_put_ok(2) [OF c(2) assms(3)])
    have v: "hdr_val ah' i = hdr_val ah i" if "1 \<le> i" "i \<le> ah_nfrag ah" for i
      using oc(2) k cur_val_put [OF c(1), of 0] that by (cases "i = ah_nfrag ah") (auto simp: hdr_keeps_def cur_val_def)
    have z: "flen ah' (ah_nfrag ah') = 0" "ah_pos ah' = off ah' (ah_nfrag ah')" using o by (simp_all add: hdr_opened_def Let_def)
    show "cur_val ah' = []" using z(1) by (simp add: cur_val_def hdr_val_def)
    have "uri_cur mx ah'" using oc(1) z ups(2) c(1) by (simp add: uri_cur_def)
    then show "uri_phase mx n0 ah'"
      using assms(1,2) u(2,4) v by (auto simp: uri_phase_def cur_val_def less_Suc_eq)
  qed
  moreover have "length (ah_frag_index ah') = 96" using u(4) c(2) by (simp add: hdr_collecting_def hdr_shape_def)
  ultimately show ?thesis using u ups by auto
qed

lemma path_ok_plain: "path_ok URIPS_IDLE p \<Longrightarrow> c \<noteq> 47 \<Longrightarrow> path_ok URIPS_IDLE (p @ [c])"
  by (auto simp: path_ok_def)

lemma path_ok_slash: "path_ok u p \<Longrightarrow> u' \<noteq> URIPS_IDLE \<Longrightarrow> c = 47 \<or> c = 63 \<Longrightarrow> path_ok u' (p @ [c])"
  by (auto simp: path_ok_def)

lemma path_ok_other: "path_ok u p \<Longrightarrow> c \<noteq> 47 \<Longrightarrow> c \<noteq> 46 \<Longrightarrow> path_ok URIPS_IDLE (p @ [c])"
  by (auto simp: path_ok_def)

lemma path_ok_dot: "path_ok u p \<Longrightarrow> c \<noteq> 47 \<Longrightarrow> c \<noteq> 46 \<Longrightarrow> path_ok URIPS_IDLE ((p @ [46]) @ [c]) \<and> no_parent (p @ [46])"
  unfolding path_ok_def ends_with_slash no_parent_snoc by auto

lemma path_ok_dots: "path_ok u p \<Longrightarrow> c \<noteq> 47 \<Longrightarrow> path_ok URIPS_IDLE (((p @ [46]) @ [46]) @ [c])"
  unfolding path_ok_def ends_with_slash no_parent_snoc contains_snoc by (auto simp: no_parent_def)

lemma path_ok_take:
  assumes "path_ok u p" and "u \<noteq> URIPS_IDLE" and "m \<le> length p" and "m = length p \<or> m = 1 \<or> p ! m = 47"
  shows "no_parent (take m p)" and "m \<le> 1 \<Longrightarrow> path_ok u' (take m p) \<or> u' = URIPS_IDLE"
    and "c = 47 \<or> c = 63 \<Longrightarrow> path_ok URIPS_SEEN_SLASH (take m p @ [c])"
proof -
  show n: "no_parent (take m p)" using no_parent_take [of p m] assms by (simp add: path_ok_def)
  show "path_ok u' (take m p) \<or> u' = URIPS_IDLE" if "m \<le> 1"
  proof -
    have "length (take m p) \<le> 1" using that by simp
    then have "take m p \<noteq> a @ [47, 46]" for a by (metis length_append length_Cons list.size(3) add_2_eq_Suc' not_less_eq_eq le_add2 One_nat_def numeral_2_eq_2 order_trans)
    then have "\<not> ends_with [47, 46] (take m p)" by (simp add: ends_with_def)
    then show ?thesis using n by (simp add: path_ok_def)
  qed
  show "path_ok URIPS_SEEN_SLASH (take m p @ [c])" if "c = 47 \<or> c = 63"
    using n that by (auto simp: path_ok_def)
qed

definition path_result :: "nat \<Rightarrow> nat \<Rightarrow> allocated_headers \<Rightarrow> lpur option \<times> int \<times> allocated_headers \<Rightarrow> bool" where
  "path_result mx n0 ah = (\<lambda>(r, c', ah'). ah_parser_state ah' = ah_parser_state ah \<and>
     (r = Some LPUR_SWALLOW \<longrightarrow> uri_in_path mx n0 ah') \<and>
     (r = None \<longrightarrow> uri_phase mx n0 ah' \<and> (c' = 63 \<longrightarrow> no_parent (cur_val ah')) \<and> path_ok (ah_ups ah') (cur_val ah' @ [c'])))"

lemma uri_idle_path:
  assumes "uri_in_path mx n0 ah" and "ah_ups ah = URIPS_IDLE" and "uri_idle mx False enc c ah = Done x"
  shows "path_result mx n0 ah x"
proof -
  have P: "uri_phase mx n0 ah" "path_ok URIPS_IDLE (cur_val ah)" using assms(1,2) by (auto simp: uri_in_path_def)
  have c: "uri_cur mx ah" "hdr_collecting mx ah" using P(1) by (auto simp: uri_phase_def uri_cur_def)
  have np: "no_parent (cur_val ah)" using P(2) by (simp add: path_ok_def)
  show ?thesis
  proof (cases "(c = 38 \<or> c = 59) \<and> \<not> enc")
    case True
    show ?thesis
    proof (cases "ah_pos ah < mx")
      case False
      then show ?thesis using assms(3) True by (auto simp: uri_idle_def uri_seal_cur [OF c(1)] path_result_def)
    next
      case p: True
      define ah1 where "ah1 = (ah_put 0 ah)\<lparr>ah_frags := (ah_frags ah)[ah_nfrag ah := (ah_frags ah ! ah_nfrag ah)\<lparr>frag_nfrag := ah_nfrag ah + 1\<rparr>]\<rparr>"
      have "ah_nfrag ah < length (ah_frags ah)" "ah_nfrag ah + 1 < 256" using hdr_collectingD(1) [OF c(2)] by (simp_all add: hdr_shape_def)
      then have l: "upd_frag (ah_nfrag (ah_put 0 ah)) (\<lambda>f. f\<lparr>frag_nfrag := (ah_nfrag (ah_put 0 ah) + 1) mod 256\<rparr>) (ah_put 0 ah) = Done ah1"
        by (simp add: hdr_defs ah1_def)
      obtain ok ah' where u: "uri_next_frag ah1 = Done (ok, ah')" "ok \<longrightarrow> uri_phase mx n0 ah' \<and> cur_val ah' = [] \<and>
          ah_parser_state ah' = ah_parser_state ah \<and> ah_ups ah' = ah_ups ah"
        using uri_phase_next [OF P(1) np p disjI2 [OF ah1_def]] by blast
      have "uri_idle mx False enc c ah = Done (Some (if ok then LPUR_SWALLOW else LPUR_EXCESSIVE), c, ah')"
        unfolding uri_idle_def if_P [OF True] using l u(1) p by (simp add: uri_seal_cur [OF c(1)] del: bind_outcome_eq_Done)
      moreover have "ah_parser_state ah' = ah_parser_state ah"
        using uri_next_part [OF c(2) p order_refl ah_len_same [of "ah_put 0 ah", symmetric, simplified] disjI2, of ah1] u(1) ah1_def by simp
      ultimately show ?thesis using u(2) assms(3) by (auto simp: path_result_def uri_in_path_def)
    qed
  next
    case False
    define c' where "c' = (if c = 43 \<and> \<not> enc then 32 else c)"
    define ah' where "ah' = (if c = 61 \<and> \<not> enc then ah\<lparr>ah_post_literal_equal := True\<rparr> else ah)"
    have "uri_idle mx False enc c ah = Done (None, c', if c' = 47 then ah'\<lparr>ah_ups := URIPS_SEEN_SLASH\<rparr> else ah')"
      unfolding uri_idle_def if_not_P [OF False] by (simp add: Let_def c'_def ah'_def)
    moreover have "uri_phase mx n0 ah'" "cur_val ah' = cur_val ah" "ah_ups ah' = URIPS_IDLE" "ah_parser_state ah' = ah_parser_state ah"
      using P(1) assms(2) by (auto simp: ah'_def)
    ultimately show ?thesis
      using assms(3) np P(2) path_ok_plain path_ok_slash by (auto simp: path_result_def)
  qed
qed

lemma uri_path_step:
  assumes "uri_in_path mx n0 ah" and "uri_path mx False enc c ah = Done x"
  shows "path_result mx n0 ah x"
proof (cases "ah_ups ah")
  case URIPS_IDLE
  then show ?thesis using uri_idle_path [OF assms(1) URIPS_IDLE] assms(2) by (simp add: uri_path_def)
next
  case URIPS_SEEN_SLASH
  have P: "uri_phase mx n0 ah" "path_ok URIPS_SEEN_SLASH (cur_val ah)" using assms(1) URIPS_SEEN_SLASH by (auto simp: uri_in_path_def)
  show ?thesis
    using assms(2) URIPS_SEEN_SLASH P path_ok_other [OF P(2), of c]
    by (auto simp: uri_path_def path_result_def uri_in_path_def path_ok_def split: if_splits)
next
  case URIPS_SEEN_SLASH_DOT
  have P: "uri_phase mx n0 ah" "path_ok URIPS_SEEN_SLASH_DOT (cur_val ah)" using assms(1) URIPS_SEEN_SLASH_DOT by (auto simp: uri_in_path_def)
  let ?ah = "ah\<lparr>ah_ups := URIPS_IDLE\<rparr>"
  have c: "uri_cur mx ?ah" using P(1) by (simp add: uri_phase_def)
  show ?thesis
  proof (cases "c = 46 \<or> c = 47")
    case True
    then show ?thesis
      using assms(2) URIPS_SEEN_SLASH_DOT P by (auto simp: uri_path_def path_result_def uri_in_path_def path_ok_def)
  next
    case False
    then have "x = (if ah_pos ah < mx then (None, c, ah_store 46 ?ah) else (Some LPUR_FAIL, c, ?ah))"
      using assms(2) URIPS_SEEN_SLASH_DOT by (auto simp: uri_path_def issue_char_cur [OF c] split: if_splits)
    then show ?thesis
      using uri_phase_store [of mx n0 ?ah 46] P path_ok_dot [OF P(2), of c] False by (auto simp: path_result_def)
  qed
next
  case URIPS_SEEN_SLASH_DOT_DOT
  have P: "uri_phase mx n0 ah" "path_ok URIPS_SEEN_SLASH_DOT_DOT (cur_val ah)" using assms(1) URIPS_SEEN_SLASH_DOT_DOT by (auto simp: uri_in_path_def)
  have c: "uri_cur mx ah" using P(1) by (simp add: uri_phase_def)
  show ?thesis
  proof (cases "c = 47 \<or> c = 63")
    case True
    obtain m ah' where m: "uri_up ah = Done ah'" "uri_cur mx ah'" "cur_val ah' = take m (cur_val ah)" "m \<le> length (cur_val ah)"
      "m = length (cur_val ah) \<or> m = 1 \<or> cur_val ah ! m = 47" "flen ah' (ah_nfrag ah') = m" "ah_nfrag ah' = ah_nfrag ah"
      "ah_frag_index ah' = ah_frag_index ah" "ah_parser_state ah' = ah_parser_state ah" "hdr_keeps (ah_nfrag ah - 1) ah ah'"
      using uri_up_cur [OF c] by blast
    have "frag_at ah' (ah_nfrag ah') = Done (ah_frags ah' ! ah_nfrag ah')" using m(2) hdr_collectingD(5) by (auto simp: frag_at_def uri_cur_def)
    then have x: "x = (if m > 1 then None else Some LPUR_SWALLOW, c, ah'\<lparr>ah_ups := URIPS_SEEN_SLASH\<rparr>)"
      using assms(2) URIPS_SEEN_SLASH_DOT_DOT True m(1,6) by (auto simp: uri_path_def)
    have "uri_phase mx n0 ah'" by (rule uri_phase_keeps [OF P(1) m(2,10,7,8)])
    moreover note T = path_ok_take [OF P(2) _ m(4,5)]
    ultimately show ?thesis
      unfolding x path_result_def split_conv
      using T(1) T(2) [of URIPS_SEEN_SLASH] T(3) [OF _ True] m(3,9) by (auto simp: uri_in_path_def)
  next
    case False
    show ?thesis
    proof (cases "ah_pos ah + 1 < mx")
      case True
      have s1: "uri_phase mx n0 (ah_store 46 ah)" "cur_val (ah_store 46 ah) = cur_val ah @ [46]" using uri_phase_store [OF P(1)] True by auto
      have s2: "uri_phase mx n0 (ah_store 46 (ah_store 46 ah))" "cur_val (ah_store 46 (ah_store 46 ah)) = (cur_val ah @ [46]) @ [46]"
        using uri_phase_store [OF s1(1)] True s1(2) by auto
      have "uri_cur mx (ah_store 46 ah)" using s1(1) by (simp add: uri_phase_def)
      then have "x = (None, c, (ah_store 46 (ah_store 46 ah))\<lparr>ah_ups := URIPS_IDLE\<rparr>)"
        using assms(2) URIPS_SEEN_SLASH_DOT_DOT False True by (auto simp: uri_path_def issue_char_cur [OF c] issue_char_cur)
      then show ?thesis using s2 path_ok_dots [OF P(2), of c] False by (auto simp: path_result_def)
    next
      case small: False
      then show ?thesis
      proof (cases "ah_pos ah < mx")
        case True
        then have "uri_cur mx (ah_store 46 ah)" using uri_phase_store [OF P(1)] by (simp add: uri_phase_def)
        then show ?thesis
          using assms(2) URIPS_SEEN_SLASH_DOT_DOT False True small by (auto simp: uri_path_def issue_char_cur [OF c] issue_char_cur path_result_def)
      next
        case full: False
        then show ?thesis
          using assms(2) URIPS_SEEN_SLASH_DOT_DOT False by (auto simp: uri_path_def issue_char_cur [OF c] path_result_def)
      qed
    qed
  qed
qed

lemma uri_query_path:
  assumes "uri_phase mx n0 ah" and "c = 63 \<longrightarrow> no_parent (cur_val ah)" and "uri_query mx False enc c ah = Done (r, c', ah')"
  shows "r = LPUR_SWALLOW \<and> uri_in_args n0 ah' \<or> r = LPUR_CONTINUE \<and> ah' = ah \<and> c' = c \<or> r \<in> {LPUR_FORBID, LPUR_FAIL, LPUR_EXCESSIVE}"
proof (cases "c = 63 \<and> \<not> enc \<and> ah_ues ah = URIES_IDLE \<and> ah_pos ah < mx")
  case True
  have c: "uri_cur mx ah" using assms(1) by (simp add: uri_phase_def)
  obtain ok ah1 where u: "uri_next_frag (ah_put 0 ah) = Done (ok, ah1)" "ok \<longrightarrow> uri_phase mx n0 ah1 \<and> length (ah_frag_index ah1) = 96"
    using uri_phase_next [OF assms(1) _ _ disjI1 [OF refl]] assms(2) True by blast
  show ?thesis
  proof (cases ok)
    case False
    then show ?thesis using True assms(3) u(1) by (auto simp: uri_query_def uri_seal_cur [OF c])
  next
    case ok: True
    define ah2 where "ah2 = ah1\<lparr>ah_frag_index := (ah_frag_index ah1)[76 := ah_nfrag ah1]\<rparr>"
    have "set_index 76 (ah_nfrag ah1) ah1 = Done ah2" using u(2) ok by (simp add: set_index_def ah2_def)
    then have "r = LPUR_SWALLOW" "ah' = ah2\<lparr>ah_ups := URIPS_IDLE\<rparr>"
      using True assms(3) u(1) ok by (auto simp: uri_query_def uri_seal_cur [OF c])
    moreover have "uri_in_args n0 (ah2\<lparr>ah_ups := URIPS_IDLE\<rparr>)"
      using u(2) ok by (auto simp: uri_phase_def uri_in_args_def ah2_def hdr_val_def)
    ultimately show ?thesis by simp
  qed
next
  case False
  have c: "uri_cur mx ah" using assms(1) by (simp add: uri_phase_def)
  show ?thesis using False assms(3) by (auto simp: uri_query_def uri_seal_cur [OF c] split: if_splits)
qed

text \<open>Where the parser stays in its state.\<close>

lemma issue_char_state: "issue_char mx c ah = Done (r, ah') \<Longrightarrow> ah_parser_state ah' = ah_parser_state ah"
  by (auto simp: issue_char_def hdr_defs split: if_splits)

lemma parse_excessive_state: "parse_excessive cx ah = Done (Next ah') \<Longrightarrow> ah_parser_state ah' = ah_parser_state ah"
  by (auto simp: parse_excessive_def hdr_defs dest!: issue_char_state split: if_splits)

lemma parse_uri_end_state: "parse_uri_end cx ah = Done (Next ah') \<Longrightarrow> ah_parser_state ah' = WSI_TOKEN WSI_TOKEN_HTTP"
  by (auto simp: parse_uri_end_def parse_start_fragment_def dest!: parse_excessive_state split: if_splits)

lemma parse_check_eol_path:
  assumes "uri_phase mx n0 ah" and "path_ok (ah_ups ah) (cur_val ah @ [c])" and "c \<noteq> 0" and mx: "mx = max_http_header_data cx"
    and "parse_check_eol cx c ah = Done (Next ah')" and "ah_parser_state ah' = WSI_TOKEN t" and "ah_parser_state ah = WSI_TOKEN t"
  shows "uri_in_path mx n0 ah'"
proof -
  have c: "uri_cur mx ah" using assms(1) by (simp add: uri_phase_def)
  show ?thesis
  proof (cases "t \<noteq> 8 \<and> (c = 13 \<or> c = 10)")
    case True
    then show ?thesis using assms(5-7)
      by (auto simp: parse_check_eol_def Let_def parse_name_start_def parse_swallow_def hdr_defs dest!: issue_char_state split: if_splits)
  next
    case False
    then have "ah_pos ah < mx" "ah' = ah_store c ah"
      using assms(3,5,6,7) by (auto simp: parse_check_eol_def Let_def parse_swallow_def issue_char_cur [OF c, unfolded mx] mx split: if_splits)
    then show ?thesis using uri_phase_store [OF assms(1)] assms(2) by (simp add: uri_in_path_def)
  qed
qed

lemma parse_value_path:
  assumes "uri_in_path mx n0 ah" and st: "ah_parser_state ah = WSI_TOKEN m" and m: "m \<in> set methods" and mx: "mx = max_http_header_data cx"
    and "parse_value cx m c ah = Done (Next ah')" and st': "ah_parser_state ah' = WSI_TOKEN m"
  shows "uri_in_path mx n0 ah' \<or> uri_in_args n0 ah'"
proof -
  have P: "uri_phase mx n0 ah" using assms(1) by (simp add: uri_in_path_def)
  have hc: "hdr_collecting mx ah" and z: "ah_frag_index ah ! 76 = 0" using P by (auto simp: uri_phase_def uri_cur_def)
  have m15: "m \<noteq> 15" using m by (auto simp: methods_def)
  show ?thesis
  proof (cases "ah' = ah")
    case True
    then show ?thesis using assms(1) by simp
  next
    case ne: False
    have "c \<noteq> 32" using assms(5) st' m m15 ne by (auto simp: parse_value_def dest: parse_uri_end_state split: if_splits)
    then obtain r c' ah2 where u: "lws_parse_urldecode mx c ah = Done (r, c', ah2)"
      and k: "(case r of LPUR_CONTINUE \<Rightarrow> parse_check_eol cx c' ah2 | LPUR_SWALLOW \<Rightarrow> Done (parse_swallow ah2) | LPUR_FORBID \<Rightarrow> Done (Forbid ah2)
        | LPUR_EXCESSIVE \<Rightarrow> parse_excessive cx ah2 | LPUR_FAIL \<Rightarrow> Done (Parse_fail ah2)) = Done (Next ah')"
      using assms(5) m ne mx by (auto simp: parse_value_def split: if_splits)
    have ok: "uri_ok mx ah (Some r) ah2" using lws_parse_urldecode_ok [OF hc, of c] u by auto
    have ex: "r \<noteq> LPUR_EXCESSIVE" using ok k parse_excessive_full [of ah2 cx] by (auto simp: uri_ok_def)
    have s2: "ah_parser_state ah2 = WSI_TOKEN m" using ok st by (simp add: uri_ok_def)
    have sw: "ah' = ah2" if "r = LPUR_SWALLOW" using k that by (auto simp: parse_swallow_def split: if_splits)
    obtain r1 c1 enc ah1 where e: "uri_unescape ah c = (r1, c1, enc, ah1)" by (metis prod_cases4)
    have p1: "uri_in_path mx n0 ah1" "ah_frag_index ah1 = ah_frag_index ah"
      using e assms(1) by (auto simp: uri_unescape_def uri_in_path_def split: uri_esc_states.splits if_splits)
    have ix: "index_at ah1 76 = Done 0" using z p1(2) hc by (simp add: index_at_def hdr_collecting_def hdr_shape_def)
    show ?thesis
    proof (cases r1)
      case (Some r0)
      then have "r = r0" "ah2 = ah1" using u e by (auto simp: lws_parse_urldecode_def)
      moreover have "r0 \<noteq> LPUR_CONTINUE" using e Some by (auto simp: uri_unescape_def split: uri_esc_states.splits if_splits)
      ultimately show ?thesis using k sw p1(1) ex by (cases r) auto
    next
      case None
      have c1: "c1 \<noteq> 0" using u e None ix k by (auto simp: lws_parse_urldecode_def)
      obtain r2 c2 ah3 where x: "uri_path mx False enc c1 ah1 = Done (r2, c2, ah3)"
          "(case r2 of Some r \<Rightarrow> Done (r, c2, ah3) | None \<Rightarrow> uri_query mx False enc c2 ah3) = Done (r, c', ah2)"
        using u e None ix c1 by (auto simp: lws_parse_urldecode_def cong: option.case_cong)
      have pr: "path_result mx n0 ah1 (r2, c2, ah3)" by (rule uri_path_step [OF p1(1) x(1)])
      have c2: "c2 \<noteq> 0" using x(1) c1 by (auto simp: uri_path_def uri_idle_def Let_def split: uri_path_states.splits if_splits)
      show ?thesis
      proof (cases r2)
        case (Some r0)
        then have "r = r0" "ah2 = ah3" using x(2) by auto
        moreover have "r0 \<noteq> LPUR_CONTINUE"
          using x(1) Some by (auto simp: uri_path_def uri_idle_def Let_def split: uri_path_states.splits if_splits)
        ultimately show ?thesis using k sw pr ex Some by (cases r) (auto simp: path_result_def)
      next
        case n2: None
        have q: "uri_query mx False enc c2 ah3 = Done (r, c', ah2)" using x(2) n2 by simp
        have ph: "uri_phase mx n0 ah3" "c2 = 63 \<longrightarrow> no_parent (cur_val ah3)" "path_ok (ah_ups ah3) (cur_val ah3 @ [c2])"
          using pr n2 by (auto simp: path_result_def)
        from uri_query_path [OF ph(1,2) q] consider (sw) "r = LPUR_SWALLOW" "uri_in_args n0 ah2"
          | (cont) "r = LPUR_CONTINUE" "ah2 = ah3" "c' = c2" | (bad) "r \<in> {LPUR_FORBID, LPUR_FAIL, LPUR_EXCESSIVE}" by blast
        then show ?thesis
        proof cases
          case sw
          then show ?thesis using \<open>r = LPUR_SWALLOW \<Longrightarrow> ah' = ah2\<close> by simp
        next
          case cont
          then have "parse_check_eol cx c2 ah3 = Done (Next ah')" using k by simp
          from parse_check_eol_path [OF ph(1,3) c2 mx this st'] show ?thesis using s2 cont by simp
        next
          case bad
          then show ?thesis using k ex by auto
        qed
      qed
    qed
  qed
qed

section \<open>The end of the URI\<close>

lemma issue_char_frame:
  "issue_char mx c ah = Done (r, ah') \<Longrightarrow> ah_nfrag ah' = ah_nfrag ah \<and> ah_frag_index ah' = ah_frag_index ah"
  by (auto simp: issue_char_def hdr_defs split: if_splits)

lemma parse_start_fragment_frame:
  assumes "parse_start_fragment cx ah = Done (Next ah')" and "ah_nfrag ah < 96" and "h \<noteq> ps_value (ah_parser_state ah)"
  shows "ah_nfrag ah' = ah_nfrag ah + 1" and "ah_frag_index ah' ! h = ah_frag_index ah ! h"
  using assms by (auto simp: parse_start_fragment_def parse_excessive_def hdr_defs dest!: issue_char_frame split: if_splits)

lemma parse_uri_end_path:
  assumes "uri_in_path mx n0 ah" and mx: "mx = max_http_header_data cx" and "parse_uri_end cx ah = Done (Next ah')"
  shows "ah_frag_index ah' ! WSI_TOKEN_HTTP_URI_ARGS = 0" and "n0 \<le> i \<Longrightarrow> i < ah_nfrag ah' \<Longrightarrow> no_parent (hdr_val ah' i)"
proof -
  have P: "uri_phase mx n0 ah" "path_ok (ah_ups ah) (cur_val ah)" using assms(1) by (auto simp: uri_in_path_def)
  have c: "uri_cur mx ah" "hdr_collecting mx ah" using P(1) by (auto simp: uri_phase_def uri_cur_def)
  have f: "frag_at ah (ah_nfrag ah) = Done (ah_frags ah ! ah_nfrag ah)" using hdr_collectingD(5) [OF c(2)] by (simp add: frag_at_def)
  define ah1 where "ah1 = (if flen ah (ah_nfrag ah) = 0 then ah_store 47 ah else ah)"
  have e1: "(if flen ah (ah_nfrag ah) = 0 then issue_char mx 47 ah else Done (0, ah)) = Done (0, ah1)" "flen ah (ah_nfrag ah) = 0 \<longrightarrow> ah_pos ah < mx"
    using assms(3) f by (auto simp: parse_uri_end_def issue_char_cur [OF c(1)] ah1_def simp flip: mx split: if_splits)
  have P1: "uri_phase mx n0 ah1" "path_ok (ah_ups ah1) (cur_val ah1) \<or> cur_val ah1 = [47]" "ah_ups ah1 = ah_ups ah"
  proof -
    have z: "cur_val ah = []" if "flen ah (ah_nfrag ah) = 0" using cur_val_length [OF c(1)] that by simp
    then show "uri_phase mx n0 ah1" "path_ok (ah_ups ah1) (cur_val ah1) \<or> cur_val ah1 = [47]" "ah_ups ah1 = ah_ups ah"
      using uri_phase_store [OF P(1), of 47] e1(2) P by (auto simp: ah1_def)
  qed
  have c1: "uri_cur mx ah1" using P1(1) by (simp add: uri_phase_def)
  obtain ah2 where e2: "(if ah_ups ah1 = URIPS_SEEN_SLASH_DOT_DOT then uri_up ah1 else Done ah1) = Done ah2"
      "uri_phase mx n0 ah2" "no_parent (cur_val ah2)"
  proof (cases "ah_ups ah1 = URIPS_SEEN_SLASH_DOT_DOT")
    case False
    then show thesis using that [of ah1] P1 by (auto simp: path_ok_def no_parent_single)
  next
    case True
    obtain m ah2 where m: "uri_up ah1 = Done ah2" "uri_cur mx ah2" "cur_val ah2 = take m (cur_val ah1)" "m \<le> length (cur_val ah1)"
      "m = length (cur_val ah1) \<or> m = 1 \<or> cur_val ah1 ! m = 47" "ah_nfrag ah2 = ah_nfrag ah1"
      "ah_frag_index ah2 = ah_frag_index ah1" "hdr_keeps (ah_nfrag ah1 - 1) ah1 ah2"
      using uri_up_cur [OF c1] by blast
    have "no_parent (cur_val ah1)" using P1(2) by (auto simp: path_ok_def no_parent_single)
    then show thesis
      using that [of ah2] True m(1) uri_phase_keeps [OF P1(1) m(2,8,6,7)] no_parent_take [OF _ m(4,5)] m(3) by simp
  qed
  have c2: "uri_cur mx ah2" "hdr_collecting mx ah2" using e2(2) by (auto simp: uri_phase_def uri_cur_def)
  let ?ah3 = "(ah_put 0 ah2)\<lparr>ah_parser_state := WSI_TOKEN WSI_TOKEN_HTTP\<rparr>"
  have p2: "ah_pos ah2 < mx" and s: "parse_start_fragment cx ?ah3 = Done (Next ah')"
    using assms(3) unfolding parse_uri_end_def mx [symmetric] f bind_outcome.simps e1(1) split_conv e2(1) uri_seal_cur [OF c2(1)]
    by (auto split: if_splits)
  have r: "hdr_resting mx (ah_pos ?ah3) ?ah3" using hdr_put_ok(3) [OF c2(2) p2] by simp
  have k: "hdr_keeps (ah_nfrag ah2) ?ah3 ah'"
    using parse_start_fragment_ok [OF r _ _ _ mx] s by auto
  have n: "ah_nfrag ah' = ah_nfrag ah2 + 1" "ah_frag_index ah' ! 76 = ah_frag_index ah2 ! 76"
    using parse_start_fragment_frame [OF s, of 76] hdr_collectingD(1) [OF c2(2)] by (auto simp: hdr_shape_def)
  then show "ah_frag_index ah' ! WSI_TOKEN_HTTP_URI_ARGS = 0" using e2(2) by (simp add: uri_phase_def)
  have v: "hdr_val ?ah3 j = hdr_val ah2 j" if "1 \<le> j" "j \<le> ah_nfrag ah2" for j
    using hdr_put_ok(2) [OF c2(2) p2, of 0] cur_val_put [OF c2(1), of 0] that
    by (cases "j = ah_nfrag ah2") (auto simp: hdr_keeps_def cur_val_def)
  assume i: "n0 \<le> i" "i < ah_nfrag ah'"
  then have "hdr_val ah' i = hdr_val ah2 i" using k v [of i] n(1) e2(2) by (simp add: hdr_keeps_def uri_phase_def)
  then show "no_parent (hdr_val ah' i)"
    using e2(2,3) i n(1) by (cases "i = ah_nfrag ah2") (auto simp: uri_phase_def cur_val_def)
qed

lemma uri_in_args_keeps:
  assumes "uri_in_args n0 ah" and "hdr_keeps (ah_nfrag ah - 1) ah ah'" and "ah_nfrag ah \<le> ah_nfrag ah'"
  shows "uri_in_args n0 ah'"
  using assms by (auto simp: uri_in_args_def hdr_keeps_def)

text \<open>The bytes of a URI, fed while the parser stays in the state of its method \<open>m\<close>.\<close>

fun uri_run :: "http_env \<Rightarrow> http_wsi \<Rightarrow> nat \<Rightarrow> allocated_headers \<Rightarrow> int list \<Rightarrow> allocated_headers option" where
  "uri_run cx w m ah [] = Some ah"
| "uri_run cx w m ah (c # cs) =
     (case parse_char cx w c ah of
        Done (Next ah') \<Rightarrow> if ah_parser_state ah' = WSI_TOKEN m then uri_run cx w m ah' cs else None
      | _ \<Rightarrow> None)"

definition uri_inv :: "nat \<Rightarrow> nat \<Rightarrow> nat \<Rightarrow> allocated_headers \<Rightarrow> bool" where
  "uri_inv mx m n0 ah \<longleftrightarrow> hdr_inv mx ah \<and> ah_parser_state ah = WSI_TOKEN m \<and> (uri_in_path mx n0 ah \<or> uri_in_args n0 ah)"

lemma uri_args_step:
  assumes "hdr_inv mx ah" and "ah_parser_state ah = WSI_TOKEN m" and "uri_in_args n0 ah" and "http_env_ok cx" and "mx = max_http_header_data cx"
    and "parse_char cx w c ah = Done (Next ah')" and "ah_parser_state ah' = WSI_TOKEN t"
  shows "hdr_inv mx ah'" and "uri_in_args n0 ah'"
proof -
  have k: "hdr_inv mx ah'" "hdr_keeps (ah_nfrag ah - 1) ah ah'" "ah_nfrag ah - 1 \<le> ah_nfrag ah' - 1"
    using parse_char_ok [OF assms(1,4,5), of w c] assms(2,6,7) by (auto simp: hdr_done_def)
  show "hdr_inv mx ah'" by (rule k(1))
  have "1 \<le> ah_nfrag ah'" using k(1) assms(7) by (simp add: hdr_inv_def hdr_collecting_def)
  then show "uri_in_args n0 ah'" using uri_in_args_keeps [OF assms(3) k(2)] k(3) by simp
qed

lemma uri_run_inv:
  assumes "m \<in> set methods" and "http_env_ok cx" and "mx = max_http_header_data cx"
  shows "uri_inv mx m n0 ah \<Longrightarrow> uri_run cx w m ah cs = Some ah' \<Longrightarrow> uri_inv mx m n0 ah'"
proof (induction cs arbitrary: ah)
  case (Cons c cs)
  then obtain ah1 where s: "parse_char cx w c ah = Done (Next ah1)" "ah_parser_state ah1 = WSI_TOKEN m" "uri_run cx w m ah1 cs = Some ah'"
    by (auto split: outcome.splits parse_step.splits if_splits)
  have i: "hdr_inv mx ah" "ah_parser_state ah = WSI_TOKEN m" using Cons.prems(1) by (simp_all add: uri_inv_def)
  have h: "hdr_inv mx ah1" using parse_char_ok [OF i(1) assms(2,3), of w c] s(1) by auto
  have pv: "parse_value cx m c ah = Done (Next ah1)" using s(1) i(2) by (simp add: parse_char_def)
  have "uri_in_path mx n0 ah1 \<or> uri_in_args n0 ah1"
  proof (cases "uri_in_path mx n0 ah")
    case True
    then show ?thesis by (rule parse_value_path [OF _ i(2) assms(1,3) pv s(2)])
  next
    case False
    then have "uri_in_args n0 ah" using Cons.prems(1) by (simp add: uri_inv_def)
    then show ?thesis using uri_args_step(2) [OF i _ assms(2,3) s(1,2)] by simp
  qed
  then show ?case using Cons.IH [OF _ s(3)] h s(2) by (simp add: uri_inv_def)
qed simp

section \<open>From the method to the end of the URI\<close>

text \<open>Feeding bytes that neither end the headers nor fail.\<close>

fun parse_run :: "http_env \<Rightarrow> http_wsi \<Rightarrow> allocated_headers \<Rightarrow> int list \<Rightarrow> allocated_headers option" where
  "parse_run cx w ah [] = Some ah"
| "parse_run cx w ah (c # cs) = (case parse_char cx w c ah of Done (Next ah') \<Rightarrow> parse_run cx w ah' cs | _ \<Rightarrow> None)"

lemma parse_run_append: "parse_run cx w ah (xs @ ys) = (case parse_run cx w ah xs of None \<Rightarrow> None | Some ah' \<Rightarrow> parse_run cx w ah' ys)"
  by (induction xs arbitrary: ah) (auto split: outcome.splits parse_step.splits)

text \<open>The table after an input that was taken to its end, without the end of the headers.\<close>

definition parse_to :: "http_env \<Rightarrow> http_wsi \<Rightarrow> int list \<Rightarrow> allocated_headers option" where
  "parse_to cx w buf =
     (case lws_parse cx w buf of
        Done (LPR_OK, w', []) \<Rightarrow> if hdr_parsing_completed w' then None else http_ah w'
      | _ \<Rightarrow> None)"

lemma parse_complete_done: "parse_complete w ah = Done (LPR_OK, w') \<Longrightarrow> hdr_parsing_completed w'"
  by (auto simp: parse_complete_def parse_forbidden_def split: if_splits)

lemma parse_loop_run:
  "parse_loop cx w ah buf = Done (LPR_OK, w', rest) \<Longrightarrow> \<not> hdr_parsing_completed w' \<Longrightarrow>
   \<exists>ah'. parse_run cx w ah buf = Some ah' \<and> http_ah w' = Some ah'"
proof (induction buf arbitrary: ah)
  case (Cons c cs)
  then obtain x where x: "parse_char cx w c ah = Done x" by (cases "parse_char cx w c ah") auto
  then show ?case
  proof (cases x)
    case (Next ah1)
    then show ?thesis using Cons.IH [of ah1] Cons.prems x by simp
  next
    case (Set_parsing_complete ah1)
    then show ?thesis using Cons.prems x parse_complete_done [of w ah1 w'] by auto
  qed (use Cons.prems x in \<open>auto simp: parse_forbidden_def\<close>)
qed auto

lemma parse_to_run:
  assumes "parse_to cx w buf = Some ah'" and "http_ah w = Some ah"
  shows "parse_run cx w ah buf = Some ah'"
proof -
  obtain w' where "lws_parse cx w buf = Done (LPR_OK, w', [])" "\<not> hdr_parsing_completed w'" "http_ah w' = Some ah'"
    using assms(1) by (auto simp: parse_to_def split: outcome.splits lws_parser_return.splits list.splits if_splits)
  then show ?thesis using parse_loop_run [of cx w ah buf w' "[]"] assms(2) by (auto simp: lws_parse_def split: if_splits)
qed

lemma parse_run_inv:
  "http_env_ok cx \<Longrightarrow> mx = max_http_header_data cx \<Longrightarrow> hdr_inv mx ah \<Longrightarrow> parse_run cx w ah cs = Some ah' \<Longrightarrow>
   hdr_inv mx ah' \<and> hdr_keeps (hdr_done ah) ah ah'"
proof (induction cs arbitrary: ah)
  case (Cons c cs)
  then obtain ah1 where s: "parse_char cx w c ah = Done (Next ah1)" "parse_run cx w ah1 cs = Some ah'"
    by (auto split: outcome.splits parse_step.splits)
  then have "hdr_inv mx ah1" "hdr_keeps (hdr_done ah) ah ah1" "hdr_done ah \<le> hdr_done ah1"
    using parse_char_ok [OF Cons.prems(3,1,2), of w c] by auto
  then show ?case using Cons.IH [OF Cons.prems(1,2) _ s(2)] by (auto intro: hdr_keeps_trans)
qed simp

text \<open>A method that has been seen is not entered a second time.\<close>

lemma parse_check_eol_state:
  "parse_check_eol cx c ah = Done (Next ah') \<Longrightarrow> ah_parser_state ah' = WSI_TOKEN m \<Longrightarrow> ah_parser_state ah = WSI_TOKEN m"
  by (auto simp: parse_check_eol_def Let_def parse_name_start_def parse_swallow_def hdr_defs dest!: issue_char_state split: if_splits)

lemma parse_value_state:
  assumes "hdr_inv mx ah" and "ah_parser_state ah = WSI_TOKEN t" and "mx = max_http_header_data cx"
    and "parse_value cx t c ah = Done (Next ah')" and "ah_parser_state ah' = WSI_TOKEN m" and "m \<noteq> 15"
  shows "t = m"
proof -
  have hc: "hdr_collecting mx ah" using assms(1,2) by (simp add: hdr_inv_def)
  obtain r c' ah2 where u: "lws_parse_urldecode mx c ah = Done (r, c', ah2)" "ah_parser_state ah2 = WSI_TOKEN t"
    using lws_parse_urldecode_ok [OF hc, of c] assms(2) by (auto simp: uri_ok_def)
  show ?thesis
    using assms(2,4-6) u unfolding parse_value_def assms(3)
    by (auto simp: parse_swallow_def dest!: parse_check_eol_state parse_uri_end_state parse_excessive_state split: if_splits lpur.splits)
qed

lemma parse_known_name_state:
  assumes "parse_known_name cx mux ah = Done (Next ah')" and "ah_parser_state ah' = WSI_TOKEN m" and "m \<in> set methods"
  shows "ah_frag_index ah ! m = 0"
  using assms
  by (auto simp: parse_known_name_def Let_def parse_start_fragment_def index_at_def methods_def
      dest!: parse_excessive_state split: if_splits)

lemma put_zeros_frame: "put_zeros mx n ah = Done ah' \<Longrightarrow> ah_frag_index ah' = ah_frag_index ah \<and> ah_parser_state ah' = ah_parser_state ah"
proof (induction n arbitrary: ah)
  case (Suc n)
  then obtain ah1 where a: "ah1 = ah \<or> put_data 0 ah = Done ah1" "put_zeros mx n ah1 = Done ah'" by (auto split: if_splits)
  then show ?case using Suc.IH [OF a(2)] by (auto simp: put_data_def)
qed simp

lemma parse_name_known:
  assumes "parse_name cx w c ah = Done (Next ah')" and "ah_parser_state ah = WSI_TOKEN_NAME_PART" and "ah_parser_state ah' = WSI_TOKEN m"
  shows "\<exists>ah2. parse_known_name cx (mux_substream w) ah2 = Done (Next ah') \<and> ah_frag_index ah2 = ah_frag_index ah"
proof -
  obtain ah1 where a1: "(if \<not> mux_substream w \<and> ah_unk_pos ah = 0 then put_zeros (max_http_header_data cx) 8 (ah\<lparr>ah_unk_pos := ah_pos ah\<rparr>) else Done ah) = Done ah1"
    using assms(1) by (cases "if \<not> mux_substream w \<and> ah_unk_pos ah = 0 then put_zeros (max_http_header_data cx) 8 (ah\<lparr>ah_unk_pos := ah_pos ah\<rparr>) else Done ah")
      (auto simp: parse_name_def Let_def split: if_splits)
  have f1: "ah_frag_index ah1 = ah_frag_index ah" "ah_parser_state ah1 = WSI_TOKEN_NAME_PART"
    using a1 assms(2) by (auto split: if_splits dest: put_zeros_frame)
  obtain ah2 where a2: "put_data (parse_to_lower c) ah1 = Done ah2"
    using assms(1) a1 by (cases "put_data (parse_to_lower c) ah1") (auto simp: parse_name_def Let_def split: if_splits)
  have f2: "ah_frag_index ah2 = ah_frag_index ah" "ah_parser_state ah2 = WSI_TOKEN_NAME_PART"
    using a2 f1 by (auto simp: put_data_def)
  show ?thesis
  proof (cases "ah_lextable_pos ah2 < 0")
    case True
    then have "parse_unknown_name ah2 = Done (Next ah') \<or> ah' = ah2"
      using assms(1) a1 a2 unfolding parse_name_def Let_def by (auto split: if_splits)
    then show ?thesis using assms(3) f2(2) by (auto simp: parse_unknown_name_def Let_def)
  next
    case False
    then obtain p mk where q: "lex_step lextable_h1 (ah_lextable_pos ah2) (parse_to_lower c) = Done (p, mk)"
      using assms(1) a1 a2 by (cases "lex_step lextable_h1 (ah_lextable_pos ah2) (parse_to_lower c)")
        (auto simp: parse_name_def Let_def split: if_splits)
    define ah3 where "ah3 = (if mk \<and> \<not> mux_substream w then ah2\<lparr>ah_pos := ah_unk_pos ah2, ah_unk_pos := 0\<rparr> else ah2)\<lparr>ah_lextable_pos := p\<rparr>"
    have w: "parse_name_walked cx w ah3 = Done (Next ah')"
      using assms(1) a1 a2 False q unfolding parse_name_def Let_def ah3_def by (auto split: if_splits)
    have f3: "ah_frag_index ah3 = ah_frag_index ah" "ah_parser_state ah3 = WSI_TOKEN_NAME_PART" using f2 by (auto simp: ah3_def)
    have "parse_known_name cx (mux_substream w) ah3 = Done (Next ah')"
      using w f3(2) assms(3) by (auto simp: parse_name_walked_def split: if_splits)
    then show ?thesis using f3(1) by blast
  qed
qed

lemma parse_char_no_return:
  assumes "hdr_inv mx ah" and mx: "mx = max_http_header_data cx" and "m \<in> set methods" and "ah_frag_index ah ! m \<noteq> 0"
    and "ah_parser_state ah \<noteq> WSI_TOKEN m" and "parse_char cx w c ah = Done (Next ah')"
  shows "ah_parser_state ah' \<noteq> WSI_TOKEN m"
proof
  assume s': "ah_parser_state ah' = WSI_TOKEN m"
  have m15: "m \<noteq> 15" using assms(3) by (auto simp: methods_def)
  show False
  proof (cases "ah_parser_state ah")
    case (WSI_TOKEN t)
    then show False using parse_value_state [OF assms(1) WSI_TOKEN mx _ s' m15] assms(5,6) by (auto simp: parse_char_def)
  next
    case WSI_TOKEN_NAME_PART
    then show False using parse_name_known [OF _ WSI_TOKEN_NAME_PART s'] parse_known_name_state [OF _ s' assms(3)] assms(4,6)
      by (fastforce simp: parse_char_def)
  qed (use assms(6) s' in \<open>auto simp: parse_char_def parse_unknown_value_def parse_name_start_def Let_def put_data_def split: if_splits\<close>)
qed

lemma parse_run_stays:
  assumes "http_env_ok cx" and mx: "mx = max_http_header_data cx" and "m \<in> set methods"
  shows "hdr_inv mx ah \<Longrightarrow> ah_frag_index ah ! m \<noteq> 0 \<Longrightarrow> parse_run cx w ah cs = Some ah' \<Longrightarrow> ah_parser_state ah' = WSI_TOKEN m \<Longrightarrow>
    ah_parser_state ah = WSI_TOKEN m \<and> uri_run cx w m ah cs = Some ah'"
proof (induction cs arbitrary: ah)
  case (Cons c cs)
  then obtain ah1 where s: "parse_char cx w c ah = Done (Next ah1)" "parse_run cx w ah1 cs = Some ah'"
    by (auto split: outcome.splits parse_step.splits)
  have i: "hdr_inv mx ah1" "ah_frag_index ah1 ! m \<noteq> 0"
    using parse_char_ok [OF Cons.prems(1) assms(1) mx, of w c] s(1) Cons.prems(2) by (auto simp: hdr_keeps_def)
  then have r: "ah_parser_state ah1 = WSI_TOKEN m" "uri_run cx w m ah1 cs = Some ah'" using Cons.IH [OF i s(2) Cons.prems(4)] by auto
  then show ?case using parse_char_no_return [OF Cons.prems(1) mx assms(3) Cons.prems(2) _ s(1)] s(1) by auto
qed auto

text \<open>Where a method has just been recognised.\<close>

lemma parse_method_entered:
  assumes "hdr_inv mx ah" and "http_env_ok cx" and mx: "mx = max_http_header_data cx" and "token_limits cx = None"
    and "ah_parser_state ah = WSI_TOKEN_NAME_PART" and "ah_frag_index ah ! WSI_TOKEN_HTTP_URI_ARGS = 0"
    and "parse_char cx w c ah = Done (Next ah')" and s': "ah_parser_state ah' = WSI_TOKEN m" and m: "m \<in> set methods"
  shows "uri_inv mx m (ah_nfrag ah') ah'" and "ah_frag_index ah' ! m = ah_nfrag ah'"
proof -
  have i': "hdr_inv mx ah'" using parse_char_ok [OF assms(1,2) mx, of w c] assms(7) by auto
  then have hc: "hdr_collecting mx ah'" using s' by (simp add: hdr_inv_def)
  obtain ah2 where k: "parse_known_name cx (mux_substream w) ah2 = Done (Next ah')" "ah_frag_index ah2 = ah_frag_index ah"
    using parse_name_known [of cx w c ah ah' m, OF _ assms(5) s'] assms(5,7) by (auto simp: parse_char_def)
  have z: "ah_frag_index ah2 ! m = 0" by (rule parse_known_name_state [OF k(1) s' m])
  obtain ah3 where p: "parse_start_fragment cx ah3 = Done (Next ah')" "ah_frag_index ah3 = ah_frag_index ah"
      "ah_ups ah3 = URIPS_IDLE" "ah_current_token_limit ah3 = mx" "ah_parser_state ah3 = WSI_TOKEN m"
  proof -
    obtain ah3 t where "parse_start_fragment cx ah3 = Done (Next ah')" "ah_frag_index ah3 = ah_frag_index ah"
      "ah_ups ah3 = URIPS_IDLE" "ah_current_token_limit ah3 = mx" "ah_parser_state ah3 = WSI_TOKEN t"
      using k assms(4) mx by (auto simp: parse_known_name_def Let_def split: if_splits)
    then show thesis using that [of ah3] s' parse_excessive_state [of cx _ ah'] by (fastforce simp: parse_start_fragment_def)
  qed
  have m76: "m \<noteq> 76" using m by (auto simp: methods_def)
  have e: "ah_frag_index ah' ! m = ah_nfrag ah'" "flen ah' (ah_nfrag ah') = 0" "ah_pos ah' = off ah' (ah_nfrag ah')"
      "ah_ups ah' = URIPS_IDLE" "ah_current_token_limit ah' = mx" "ah_frag_index ah' ! 76 = 0"
    using p z k(2) assms(6) m76 by (auto simp: parse_start_fragment_def parse_excessive_def hdr_defs split: if_splits)
  have "uri_cur mx ah'" using hc e by (simp add: uri_cur_def)
  moreover have "cur_val ah' = []" using e(2) by (simp add: cur_val_def hdr_val_def)
  ultimately show "uri_inv mx m (ah_nfrag ah') ah'"
    using e i' s' hc by (simp add: uri_inv_def uri_in_path_def uri_phase_def hdr_collecting_def)
  show "ah_frag_index ah' ! m = ah_nfrag ah'" by (rule e(1))
qed

lemma uri_end_no_parent:
  assumes "uri_inv mx m n0 ah" and "m \<in> set methods" and "http_env_ok cx" and mx: "mx = max_http_header_data cx"
    and "parse_char cx w 32 ah = Done (Next ah')" and s': "ah_parser_state ah' = WSI_TOKEN WSI_TOKEN_HTTP"
    and "n0 \<le> i" and "i < (if ah_frag_index ah' ! WSI_TOKEN_HTTP_URI_ARGS = 0 then ah_nfrag ah' else ah_frag_index ah' ! WSI_TOKEN_HTTP_URI_ARGS)"
  shows "no_parent (hdr_val ah' i)"
proof -
  have I: "hdr_inv mx ah" "ah_parser_state ah = WSI_TOKEN m" using assms(1) by (simp_all add: uri_inv_def)
  have m15: "m \<noteq> 15" using assms(2) by (auto simp: methods_def)
  show ?thesis
  proof (cases "uri_in_path mx n0 ah")
    case True
    have "parse_uri_end cx ah = Done (Next ah')"
      using assms(2,5) s' I(2) m15 by (auto simp: parse_char_def parse_value_def split: if_splits)
    from parse_uri_end_path [OF True mx this] show ?thesis using assms(7,8) by simp
  next
    case False
    then have "uri_in_args n0 ah" using assms(1) by (simp add: uri_inv_def)
    from uri_args_step(2) [OF I this assms(3) mx assms(5) s'] show ?thesis using assms(7,8) by (simp add: uri_in_args_def)
  qed
qed

text \<open>C9. When the parser, from a fresh header table, has recognised a method, taken a URI and reached the space behind it, then
  no fragment of the stored path contains \<open>/../\<close> or ends in \<open>/..\<close>, whatever escapes and slashes the peer used: the path
  cannot leave the directory it is appended to.  The hypothesis on the URI arguments is needed: see
  \<open>uri_args_header_defeats_sanitising\<close>.\<close>

theorem request_path_has_no_parent:
  assumes "http_env_ok cx" and "token_limits cx = None" and "length d = max_http_header_data cx"
    and "http_ah w = Some (lws_header_table_reset (lws_create_ah d))"
    and "parse_to cx w pre = Some ah0" and "ah_parser_state ah0 = WSI_TOKEN_NAME_PART"
    and "ah_frag_index ah0 ! WSI_TOKEN_HTTP_URI_ARGS = 0"
    and "parse_to cx w (pre @ [c]) = Some ah1" and "ah_parser_state ah1 = WSI_TOKEN m" and "m \<in> set methods"
    and "parse_to cx w (pre @ [c] @ uri) = Some ah2" and "ah_parser_state ah2 = WSI_TOKEN m"
    and "parse_to cx w (pre @ [c] @ uri @ [32]) = Some ah3" and "ah_parser_state ah3 = WSI_TOKEN WSI_TOKEN_HTTP"
    and "ah_frag_index ah3 ! m \<le> i"
    and "i < (if ah_frag_index ah3 ! WSI_TOKEN_HTTP_URI_ARGS = 0 then ah_nfrag ah3 else ah_frag_index ah3 ! WSI_TOKEN_HTTP_URI_ARGS)"
  shows "no_parent (hdr_val ah3 i)"
proof -
  let ?mx = "max_http_header_data cx" and ?ah = "lws_header_table_reset (lws_create_ah d)"
  have i: "hdr_inv ?mx ?ah" using hdr_inv_reset [of "lws_create_ah d" ?mx] assms(1,3) by (simp add: lws_create_ah_def http_env_ok_def)
  note R = parse_to_run [OF _ assms(4)]
  have r0: "parse_run cx w ?ah pre = Some ah0" by (rule R [OF assms(5)])
  have r1: "parse_run cx w ah0 [c] = Some ah1" using R [OF assms(8)] r0 by (simp add: parse_run_append)
  have c1: "parse_char cx w c ah0 = Done (Next ah1)" using r1 by (auto split: outcome.splits parse_step.splits)
  have r2: "parse_run cx w ah1 uri = Some ah2" using R [OF assms(11)] r0 c1 by (simp add: parse_run_append)
  have r3: "parse_run cx w ah2 [32] = Some ah3" using R [OF assms(13)] r0 c1 r2 by (simp add: parse_run_append)
  have i0: "hdr_inv ?mx ah0" using parse_run_inv [OF assms(1) refl i r0] by simp
  note E = parse_method_entered [OF i0 assms(1) refl assms(2,6,7) c1 assms(9,10)]
  have i1: "hdr_inv ?mx ah1" "ah_nfrag ah1 \<noteq> 0" using E(1) by (auto simp: uri_inv_def hdr_inv_def hdr_collecting_def)
  have u: "uri_inv ?mx m (ah_nfrag ah1) ah2"
    using uri_run_inv [OF assms(10,1) refl E(1), of w uri ah2] parse_run_stays [OF assms(1) refl assms(10) i1(1) _ r2 assms(12)] E(2) i1(2) by simp
  have i2: "hdr_inv ?mx ah2" using u by (simp add: uri_inv_def)
  have "ah_frag_index ah3 ! m = ah_nfrag ah1"
    using parse_run_inv [OF assms(1) refl i1(1) r2] parse_run_inv [OF assms(1) refl i2 r3] E(2) i1(2) by (simp add: hdr_keeps_def)
  moreover have "parse_char cx w 32 ah2 = Done (Next ah3)" using r3 by (auto split: outcome.splits parse_step.splits)
  ultimately show ?thesis using uri_end_no_parent [OF u assms(10,1) refl _ assms(14)] assms(15,16) by simp
qed

text \<open>The four points of a request with a dot segment.\<close>

lemma parse_to_GET:
  "case parse_to (http_cx 40) (http_fresh 40) (name_bytes ''GET'') of None \<Rightarrow> False
   | Some ah \<Rightarrow> ah_parser_state ah = WSI_TOKEN_NAME_PART \<and> ah_frag_index ah ! WSI_TOKEN_HTTP_URI_ARGS = 0"
  by code_simp

lemma parse_to_GET_space:
  "case parse_to (http_cx 40) (http_fresh 40) (name_bytes ''GET '') of None \<Rightarrow> False | Some ah \<Rightarrow> ah_parser_state ah = WSI_TOKEN 0"
  by code_simp

lemma parse_to_GET_uri:
  "case parse_to (http_cx 40) (http_fresh 40) (name_bytes ''GET /a/..'') of None \<Rightarrow> False | Some ah \<Rightarrow> ah_parser_state ah = WSI_TOKEN 0"
  by code_simp

lemma parse_to_GET_end:
  "case parse_to (http_cx 40) (http_fresh 40) (name_bytes ''GET /a/.. '') of None \<Rightarrow> False
   | Some ah \<Rightarrow> ah_parser_state ah = WSI_TOKEN WSI_TOKEN_HTTP \<and> ah_frag_index ah ! 0 = 1 \<and> ah_frag_index ah ! WSI_TOKEN_HTTP_URI_ARGS = 0 \<and>
       ah_nfrag ah = 2 \<and> hdr_val ah 1 = name_bytes ''/''"
  by code_simp

theorem request_path_has_no_parent_witness:
  "\<exists>ah. parse_to (http_cx 40) (http_fresh 40) (name_bytes ''GET'' @ [32] @ name_bytes ''/a/..'' @ [32]) = Some ah \<and> no_parent (hdr_val ah 1)"
proof -
  have b: "name_bytes ''GET'' @ [32] = name_bytes ''GET ''" "name_bytes ''GET'' @ [32] @ name_bytes ''/a/..'' = name_bytes ''GET /a/..''"
    "name_bytes ''GET'' @ [32] @ name_bytes ''/a/..'' @ [32] = name_bytes ''GET /a/.. ''" by (simp_all add: name_bytes_def)
  obtain ah0 ah1 ah2 ah3 where
      a: "parse_to (http_cx 40) (http_fresh 40) (name_bytes ''GET'') = Some ah0" "ah_parser_state ah0 = WSI_TOKEN_NAME_PART"
        "ah_frag_index ah0 ! WSI_TOKEN_HTTP_URI_ARGS = 0"
        "parse_to (http_cx 40) (http_fresh 40) (name_bytes ''GET'' @ [32]) = Some ah1" "ah_parser_state ah1 = WSI_TOKEN 0"
        "parse_to (http_cx 40) (http_fresh 40) (name_bytes ''GET'' @ [32] @ name_bytes ''/a/..'') = Some ah2" "ah_parser_state ah2 = WSI_TOKEN 0"
        "parse_to (http_cx 40) (http_fresh 40) (name_bytes ''GET'' @ [32] @ name_bytes ''/a/..'' @ [32]) = Some ah3"
        "ah_parser_state ah3 = WSI_TOKEN WSI_TOKEN_HTTP" "ah_frag_index ah3 ! 0 = 1" "ah_frag_index ah3 ! WSI_TOKEN_HTTP_URI_ARGS = 0" "ah_nfrag ah3 = 2"
    unfolding b using parse_to_GET parse_to_GET_space parse_to_GET_uri parse_to_GET_end by (auto split: option.splits)
  have "no_parent (hdr_val ah3 1)"
    by (rule request_path_has_no_parent [OF _ _ _ _ a(1-5) _ a(6-9)])
      (use http_fresh_ok [of 40] a(10-12) in \<open>simp_all add: http_cx_def methods_def\<close>)
  then show ?thesis using a(8) by blast
qed

end
