(* ===== verification/Http_Roundtrip.thy ===== *)
theory Http_Roundtrip
  imports Http_Uri
begin

text \<open>
  Header lines: a line with a name of the table is stored so that the accessors return its value, and the
  values of the lines before it are left alone.
\<close>

section \<open>The name\<close>

text \<open>Where a header line starts.\<close>

definition line_start :: "nat \<Rightarrow> allocated_headers \<Rightarrow> bool" where
  "line_start mx ah \<longleftrightarrow> hdr_inv mx ah \<and> ah_parser_state ah = WSI_TOKEN_NAME_PART \<and> ah_unk_pos ah = 0 \<and> ah_lextable_pos ah = 0 \<and>
     ah_ues ah = URIES_IDLE"

text \<open>In the middle of a name that began at \<open>ah0\<close>; \<open>room\<close> bounds the buffer used so far and what the links may still take.\<close>

definition name_links :: "bool \<Rightarrow> allocated_headers \<Rightarrow> nat" where
  "name_links mux ah = (if \<not> mux \<and> ah_unk_pos ah = 0 then if ah_pos ah = 0 then 16 else 8 else 0)"

lemma name_links_lextable [simp]: "name_links mux (ah\<lparr>ah_lextable_pos := q\<rparr>) = name_links mux ah"
  by (simp add: name_links_def)

definition in_name :: "nat \<Rightarrow> bool \<Rightarrow> nat \<Rightarrow> allocated_headers \<Rightarrow> allocated_headers \<Rightarrow> bool" where
  "in_name mx mux room ah0 ah \<longleftrightarrow> hdr_inv mx ah \<and> ah_parser_state ah = WSI_TOKEN_NAME_PART \<and> 0 \<le> ah_lextable_pos ah \<and>
     ah_nfrag ah = ah_nfrag ah0 \<and> ah_frag_index ah = ah_frag_index ah0 \<and> hdr_keeps (ah_nfrag ah0) ah0 ah \<and>
     ah_ues ah = URIES_IDLE \<and> ah_frags ah = ah_frags ah0 \<and> ah_pos ah + name_links mux ah \<le> room"

lemma lex_walk_stepD:
  assumes "lex_walk lextable_h1 q (c # cs) = Done (Some n)" and "lex_good q"
  obtains q' where "lex_step lextable_h1 q c = Done (q', False)" and "0 \<le> q'" and "lex_good q'" and "lex_walk lextable_h1 q' cs = Done (Some n)"
proof -
  have r: "0 \<le> q" "q < int (length lextable_h1)" using lex_good_state [OF assms(2)] by auto
  then have b: "FAIL_CHAR \<le> lextable_h1 ! nat q" using assms(1) by (auto simp: lex_walk.simps lex_at_def split: if_splits)
  obtain q' where q': "lex_step lextable_h1 q c = Done (q', False)" "q' < 0 \<or> lex_good q'" using lex_good_step [OF assms(2) b] by blast
  then show thesis using that [of q'] assms(1) r b by (auto simp: lex_walk.simps lex_at_def split: if_splits)
qed

lemma lex_walk_endD:
  assumes "lex_walk lextable_h1 q [] = Done (Some n)" and "lex_good q"
  shows "lextable_h1 ! nat q < FAIL_CHAR" and "n = lextable_h1 ! nat q * 256 + lextable_h1 ! nat (q + 1)"
    and "lex_at lextable_h1 q = Done (lextable_h1 ! nat q)" and "lex_at lextable_h1 (q + 1) = Done (lextable_h1 ! nat (q + 1))"
  using assms(1) lex_good_state [OF assms(2)] by (auto simp: lex_walk.simps lex_at_def split: if_splits)

lemma lex_walk_goesD:
  assumes "lex_walk lextable_h1 q (c # cs) = Done (Some n)" and "lex_good q"
  shows "FAIL_CHAR \<le> lextable_h1 ! nat q" and "lex_at lextable_h1 q = Done (lextable_h1 ! nat q)"
  using assms(1) lex_good_state [OF assms(2)] by (auto simp: lex_walk.simps lex_at_def split: if_splits)

lemma in_name_walk:
  assumes "in_name mx (mux_substream w) room ah0 ah" and mx: "mx = max_http_header_data cx" and "http_env_ok cx"
    and "lex_walk lextable_h1 (ah_lextable_pos ah) (parse_to_lower c # cs) = Done (Some n)" and nl: "\<not> (ah_unk_pos ah = 0 \<and> c = 10)" and "room < mx"
  obtains ah2 lim q where "parse_char cx w c ah = parse_name_walked cx w (ah2\<lparr>ah_lextable_pos := q\<rparr>)"
    and "name_stored mx (mux_substream w) ah2 lim" and "hdr_keeps (ah_nfrag ah0) ah0 ah2" and "ah_nfrag ah2 = ah_nfrag ah0"
    and "ah_frag_index ah2 = ah_frag_index ah0" and "ah_parser_state ah2 = WSI_TOKEN_NAME_PART" and "ah_ues ah2 = URIES_IDLE"
    and "ah_frags ah2 = ah_frags ah0"
    and "ah_pos ah2 + name_links (mux_substream w) ah2 \<le> room + 1" and "0 \<le> q" and "lex_good q"
    and "lex_walk lextable_h1 q cs = Done (Some n)"
proof -
  have I: "hdr_inv mx ah" "ah_parser_state ah = WSI_TOKEN_NAME_PART" "0 \<le> ah_lextable_pos ah" "ah_nfrag ah = ah_nfrag ah0"
      "ah_frag_index ah = ah_frag_index ah0" "hdr_keeps (ah_nfrag ah0) ah0 ah" "ah_ues ah = URIES_IDLE"
      "ah_pos ah + name_links (mux_substream w) ah \<le> room" "ah_frags ah = ah_frags ah0"
    using assms(1) by (auto simp: in_name_def)
  have g: "lex_good (ah_lextable_pos ah)" using I(1-3) by (auto simp: hdr_inv_def lex_waiting_def)
  obtain q where q: "lex_step lextable_h1 (ah_lextable_pos ah) (parse_to_lower c) = Done (q, False)" "0 \<le> q" "lex_good q"
      "lex_walk lextable_h1 q cs = Done (Some n)" by (rule lex_walk_stepD [OF assms(4) g])
  have pc: "parse_char cx w c ah = parse_name cx w c ah" using I(2) by (simp add: parse_char_def)
  show thesis
  proof (rule parse_name_split [OF I(1,2) mx nl, of w])
    fix ah1
    assume "mx < ah_pos ah + (if \<not> mux_substream w \<and> ah_unk_pos ah = 0 then 9 else 1)"
    then show thesis using I(8) assms(6) by (auto simp: name_links_def split: if_splits)
  next
    fix ah2 lim
    assume a: "name_stored mx (mux_substream w) ah2 lim" "hdr_keeps (ah_nfrag ah) ah ah2" "ah_nfrag ah2 = ah_nfrag ah"
      "ah_frag_index ah2 = ah_frag_index ah" "ah_parser_state ah2 = WSI_TOKEN_NAME_PART"
      "ah_lextable_pos ah2 = ah_lextable_pos ah" "ah_ues ah2 = ah_ues ah"
      "ah_frags ah2 = ah_frags ah" "ah_pos ah2 \<le> ah_pos ah + (if \<not> mux_substream w \<and> ah_unk_pos ah = 0 then 9 else 1)"
      "ah_unk_pos ah2 = (if \<not> mux_substream w \<and> ah_unk_pos ah = 0 then ah_pos ah else ah_unk_pos ah)"
      and e: "parse_name cx w c ah =
        (if \<not> mux_substream w \<and> ah_lextable_pos ah2 < 0 \<and> parse_to_lower c = 58 then parse_unknown_name ah2
         else if ah_lextable_pos ah2 < 0 then Done (Next ah2)
         else bind_outcome (lex_step lextable_h1 (ah_lextable_pos ah2) (parse_to_lower c)) (\<lambda>(p, marker).
           let ah = (if marker \<and> \<not> mux_substream w then ah2\<lparr>ah_pos := ah_unk_pos ah2, ah_unk_pos := 0\<rparr> else ah2)
           in parse_name_walked cx w (ah\<lparr>ah_lextable_pos := p\<rparr>)))"
    have nz: "ah_pos ah2 \<noteq> 0" using a(1) by (simp add: name_stored_def)
    show thesis
    proof (rule that [of q ah2 lim])
      show "parse_char cx w c ah = parse_name_walked cx w (ah2\<lparr>ah_lextable_pos := q\<rparr>)"
        unfolding pc e using a(6) I(3) q(1) by simp
      show "ah_pos ah2 + name_links (mux_substream w) ah2 \<le> room + 1"
        using a(9,10) nz I(8) by (auto simp: name_links_def split: if_splits)
    qed (use a I q in \<open>auto intro: hdr_keeps_trans\<close>)
  qed
qed

lemma in_name_step:
  assumes "in_name mx (mux_substream w) room ah0 ah" and mx: "mx = max_http_header_data cx" and "http_env_ok cx"
    and "lex_walk lextable_h1 (ah_lextable_pos ah) (parse_to_lower c # d # cs) = Done (Some n)" and "c \<noteq> 10" and "room < mx"
  shows "\<exists>ah'. parse_char cx w c ah = Done (Next ah') \<and> in_name mx (mux_substream w) (room + 1) ah0 ah' \<and>
    lex_walk lextable_h1 (ah_lextable_pos ah') (d # cs) = Done (Some n)"
proof (rule in_name_walk [OF assms(1-4) _ assms(6)])
  fix ah2 lim q
  assume a: "parse_char cx w c ah = parse_name_walked cx w (ah2\<lparr>ah_lextable_pos := q\<rparr>)"
    "name_stored mx (mux_substream w) ah2 lim" "hdr_keeps (ah_nfrag ah0) ah0 ah2" "ah_nfrag ah2 = ah_nfrag ah0"
    "ah_frag_index ah2 = ah_frag_index ah0" "ah_parser_state ah2 = WSI_TOKEN_NAME_PART" "ah_ues ah2 = URIES_IDLE" "ah_frags ah2 = ah_frags ah0"
    "ah_pos ah2 + name_links (mux_substream w) ah2 \<le> room + 1" "0 \<le> q" "lex_good q"
    "lex_walk lextable_h1 q (d # cs) = Done (Some n)"
  let ?ah = "ah2\<lparr>ah_lextable_pos := q\<rparr>"
  note W = lex_walk_goesD [OF a(12,11)]
  have "parse_char cx w c ah = Done (Next ?ah)" unfolding a(1) parse_name_walked_def using a(10) W by simp
  moreover have "hdr_inv mx ?ah" by (rule name_stored_inv [of mx "mux_substream w" _ lim]) (use a W in \<open>simp_all add: lex_waiting_def\<close>)
  ultimately show ?thesis using a by (intro exI [of _ ?ah]) (simp add: in_name_def)
qed (use assms(5) in simp)

section \<open>The value\<close>

text \<open>The links of the first \<open>k\<close> fragments are as they were.\<close>

definition hdr_links :: "nat \<Rightarrow> allocated_headers \<Rightarrow> allocated_headers \<Rightarrow> bool" where
  "hdr_links k ah ah' \<longleftrightarrow> (\<forall>i\<le>k. fnext ah' i = fnext ah i)"

lemma hdr_links_fields [simp]:
  "hdr_links k ah (ah'\<lparr>ah_ups := v\<rparr>) = hdr_links k ah ah'" "hdr_links k ah (ah'\<lparr>ah_parser_state := v1\<rparr>) = hdr_links k ah ah'"
  "hdr_links k ah ah"
  by (simp_all add: hdr_links_def)

lemma hdr_links_trans: "hdr_links k ah ah1 \<Longrightarrow> hdr_links k' ah1 ah2 \<Longrightarrow> k \<le> k' \<Longrightarrow> hdr_links k ah ah2"
  by (simp add: hdr_links_def)

text \<open>A value is being collected into the first fragment of token \<open>t\<close>.\<close>

definition in_value :: "nat \<Rightarrow> nat \<Rightarrow> allocated_headers \<Rightarrow> allocated_headers \<Rightarrow> bool" where
  "in_value mx t ah0 ah \<longleftrightarrow> hdr_inv mx ah \<and> ah_parser_state ah = WSI_TOKEN t \<and> uri_cur mx ah \<and> ah_nfrag ah = ah_nfrag ah0 + 1 \<and>
     ah_frag_index ah ! t = ah_nfrag ah \<and> fnext ah (ah_nfrag ah) = 0 \<and> hdr_keeps (ah_nfrag ah0) ah0 ah \<and> ah_ues ah = URIES_IDLE \<and>
     ah_frag_index ah = (ah_frag_index ah0)[t := ah_nfrag ah] \<and> hdr_links (ah_nfrag ah0) ah0 ah"

lemma in_name_end:
  assumes "in_name mx (mux_substream w) room ah0 ah" and mx: "mx = max_http_header_data cx" and env: "http_env_ok cx"
    and "lex_walk lextable_h1 (ah_lextable_pos ah) [parse_to_lower c] = Done (Some (int t))" and "c \<noteq> 10" and "room < mx"
    and "token_limits cx = None" and "t \<noteq> 34" and "t \<noteq> 8" and "t < 96" and "ah_frag_index ah0 ! t = 0" and "ah_nfrag ah0 + 1 < 96"
  shows "\<exists>ah'. parse_char cx w c ah = Done (Next ah') \<and> in_value mx t ah0 ah' \<and> cur_val ah' = [] \<and> ah_pos ah' \<le> room + 1 \<and>
    ah_ups ah' = URIPS_IDLE"
proof (rule in_name_walk [OF assms(1-4) _ assms(6)])
  fix ah2 lim q
  assume a: "parse_char cx w c ah = parse_name_walked cx w (ah2\<lparr>ah_lextable_pos := q\<rparr>)"
    "name_stored mx (mux_substream w) ah2 lim" "hdr_keeps (ah_nfrag ah0) ah0 ah2" "ah_nfrag ah2 = ah_nfrag ah0"
    "ah_frag_index ah2 = ah_frag_index ah0" "ah_parser_state ah2 = WSI_TOKEN_NAME_PART" "ah_ues ah2 = URIES_IDLE" "ah_frags ah2 = ah_frags ah0"
    "ah_pos ah2 + name_links (mux_substream w) ah2 \<le> room + 1" "0 \<le> q" "lex_good q"
    "lex_walk lextable_h1 q [] = Done (Some (int t))"
  let ?ah = "ah2\<lparr>ah_lextable_pos := q\<rparr>" and ?mux = "mux_substream w"
  note W = lex_walk_endD [OF a(12,11)]
  have e1: "parse_char cx w c ah = parse_known_name cx ?mux ?ah" unfolding a(1) parse_name_walked_def using a(10) W by simp
  have S: "name_stored mx ?mux ?ah lim" using a(2) by simp
  obtain r where r: "parse_known_name cx ?mux ?ah = Done r" "step_ok mx (ah_nfrag ?ah) ?ah r"
    using parse_known_name_ok [OF S _ _ env mx] a(11) W(1) by auto
  have tt: "nat (lextable_h1 ! nat q * 256 + lextable_h1 ! nat (q + 1)) = t" using W(2) by simp
  have dup: "(if t \<in> set methods then index_at ?ah t else Done 0) = Done 0"
    using a(2,5) assms(10,11) by (auto simp: index_at_def name_stored_def hdr_resting_def hdr_shape_def)
  define ah3 where "ah3 = (if \<not> ?mux then ?ah\<lparr>ah_pos := ah_unk_pos ah2, ah_unk_pos := 0\<rparr> else ?ah)
    \<lparr>ah_parser_state := WSI_TOKEN t, ah_ups := URIPS_IDLE, ah_current_token_limit := mx\<rparr>"
  have sel: "ah_lextable_pos ?ah = q" by simp
  have e2: "parse_known_name cx ?mux ?ah = parse_start_fragment cx ah3"
    unfolding parse_known_name_def sel W(3,4) bind_outcome.simps Let_def tt dup using assms(7-9) mx by (simp add: ah3_def)
  have f3: "ah_nfrag ah3 = ah_nfrag ah0" "ah_frag_index ah3 = ah_frag_index ah0" "ah_parser_state ah3 = WSI_TOKEN t"
      "ah_ues ah3 = URIES_IDLE" "ah_current_token_limit ah3 = mx" "ah_frags ah3 = ah_frags ah2"
    using a by (simp_all add: ah3_def)
  have p3: "ah_pos ah3 \<le> ah_pos ah2" using a(2) by (auto simp: ah3_def name_stored_def hdr_resting_def)
  have sz: "length (ah_frags ah2) = 96" "length (ah_frag_index ah0) = 96" using a(2,5) by (auto simp: name_stored_def hdr_resting_def hdr_shape_def)
  define N where "N = ah_nfrag ah0 + 1"
  define ah4 where "ah4 = ah3\<lparr>ah_nfrag := N, ah_frags := (ah_frags ah3)[N := \<lparr>frag_offset = ah_pos ah3, frag_len = 0, frag_nfrag = 0, frag_flags = 2\<rparr>],
    ah_frag_index := (ah_frag_index ah3)[t := N], ah_hdr_token_idx := t\<rparr>"
  have e3: "parse_start_fragment cx ah3 = Done (Next ah4)"
    using f3 sz assms(10-12) by (simp add: parse_start_fragment_def parse_excessive_def hdr_defs ah4_def N_def)
  have inv: "hdr_inv mx ah4" "hdr_keeps (ah_nfrag ah0) ah2 ah4" using r e2 e3 a(4) by auto
  have s4: "ah_parser_state ah4 = WSI_TOKEN t" "ah_nfrag ah4 = N" "ah_ues ah4 = URIES_IDLE" "ah_pos ah4 = ah_pos ah3" "ah_current_token_limit ah4 = mx"
      "ah_frag_index ah4 ! t = N" "ah_frag_index ah4 = (ah_frag_index ah0)[t := N]" "fnext ah4 N = 0" "flen ah4 N = 0" "off ah4 N = ah_pos ah3"
    using f3 sz assms(10,12) by (simp_all add: ah4_def N_def)
  have "uri_cur mx ah4" using inv(1) s4 by (simp add: uri_cur_def hdr_inv_def)
  moreover have "hdr_keeps (ah_nfrag ah0) ah0 ah4" by (rule hdr_keeps_trans [OF a(3) inv(2) order_refl])
  moreover have "hdr_links (ah_nfrag ah0) ah0 ah4" using f3(6) a(8) by (simp add: hdr_links_def ah4_def N_def)
  ultimately have "in_value mx t ah0 ah4" using inv(1) s4 N_def by (simp add: in_value_def)
  moreover have "cur_val ah4 = []" using s4 by (simp add: cur_val_def hdr_val_def)
  ultimately show ?thesis using e1 e2 e3 s4(4) p3 a(9) by (intro exI [of _ ah4]) (simp add: ah4_def ah3_def)
qed (use assms(5) in simp)

lemma in_valueD:
  assumes "in_value mx t ah0 ah"
  shows "hdr_collecting mx ah" and "t < 96" and "t \<noteq> 8" and "index_at ah t = Done (ah_nfrag ah)"
    and "frag_at ah (ah_nfrag ah) = Done (ah_frags ah ! ah_nfrag ah)" and "uri_cur mx ah" and "ah_parser_state ah = WSI_TOKEN t"
    and "ah_nfrag ah = ah_nfrag ah0 + 1"
proof -
  have V: "hdr_inv mx ah" "ah_parser_state ah = WSI_TOKEN t" "uri_cur mx ah" "ah_frag_index ah ! t = ah_nfrag ah" "ah_nfrag ah = ah_nfrag ah0 + 1"
    using assms by (auto simp: in_value_def)
  then show "hdr_collecting mx ah" "t < 96" "t \<noteq> 8" "uri_cur mx ah" "ah_parser_state ah = WSI_TOKEN t" "ah_nfrag ah = ah_nfrag ah0 + 1"
    by (simp_all add: hdr_inv_def)
  then show "index_at ah t = Done (ah_nfrag ah)" "frag_at ah (ah_nfrag ah) = Done (ah_frags ah ! ah_nfrag ah)"
    using hdr_collectingD(1,5) [of mx ah] V(4) by (auto simp: hdr_defs hdr_shape_def)
qed

lemma in_value_store:
  assumes "in_value mx t ah0 ah" and "ah_pos ah < mx"
  shows "in_value mx t ah0 (ah_store c ah)" and "cur_val (ah_store c ah) = cur_val ah @ [c]"
proof -
  note D = in_valueD [OF assms(1)]
  have V: "hdr_inv mx ah" "ah_frag_index ah ! t = ah_nfrag ah" "fnext ah (ah_nfrag ah) = 0" "hdr_keeps (ah_nfrag ah0) ah0 ah" "ah_ues ah = URIES_IDLE"
      "ah_frag_index ah = (ah_frag_index ah0)[t := ah_nfrag ah]" "hdr_links (ah_nfrag ah0) ah0 ah"
    using assms(1) by (auto simp: in_value_def)
  show v: "cur_val (ah_store c ah) = cur_val ah @ [c]" using uri_cur_store(2) [OF D(6) assms(2)] .
  have u: "uri_cur mx (ah_store c ah)" using uri_cur_store(1) [OF D(6) assms(2)] .
  have "hdr_inv mx (ah_store c ah)" using u V(1) D(7) by (simp add: hdr_inv_def uri_cur_def)
  moreover have "fnext (ah_store c ah) (ah_nfrag ah) = 0" using V(3) hdr_collectingD(5) [OF D(1)] by (simp add: ah_store_def)
  moreover have "hdr_keeps (ah_nfrag ah0) ah0 (ah_store c ah)"
    using hdr_keeps_trans [OF V(4) hdr_collecting_store(2) [OF D(1) assms(2) uri_cur_room [OF D(6) assms(2)]]] D(8) by simp
  moreover have "hdr_links (ah_nfrag ah0) ah0 (ah_store c ah)" using V(7) D(8) by (simp add: hdr_links_def ah_store_def)
  ultimately show "in_value mx t ah0 (ah_store c ah)" using u V D(7,8) by (simp add: in_value_def)
qed

lemma parse_check_eol_store:
  assumes "in_value mx t ah0 ah" and mx: "mx = max_http_header_data cx" and "ah_pos ah < mx" and "c \<noteq> 13" and "c \<noteq> 10" and "c \<noteq> 0"
  shows "parse_check_eol cx c ah = Done (Next (ah_store c ah))"
  using in_valueD [OF assms(1)] assms(3-6) issue_char_cur [OF in_valueD(6) [OF assms(1)], of c] mx
  by (auto simp: parse_check_eol_def Let_def parse_swallow_def)

lemma in_value_step:
  assumes "in_value mx t ah0 ah" and mx: "mx = max_http_header_data cx" and "t \<notin> set methods" and "ah_pos ah < mx"
    and "c \<noteq> 13" and "c \<noteq> 10" and "c \<noteq> 0" and "c = 32 \<longrightarrow> cur_val ah \<noteq> []"
  shows "parse_char cx w c ah = Done (Next (ah_store c ah))"
proof -
  note D = in_valueD [OF assms(1)]
  have "\<not> (flen ah (ah_nfrag ah) = 0 \<and> c = 32)" using assms(8) cur_val_length [OF D(6)] by auto
  then show ?thesis
    using D assms(3) parse_check_eol_store [OF assms(1) mx assms(4-7)] by (auto simp: parse_char_def parse_value_def)
qed

text \<open>What may be known of a header line that is stored: its name is in the table, with a token that has no value yet.\<close>

definition header_line :: "http_env \<Rightarrow> allocated_headers \<Rightarrow> int list \<Rightarrow> nat \<Rightarrow> bool" where
  "header_line cx ah nm t \<longleftrightarrow> lex_walk lextable_h1 0 (map parse_to_lower nm) = Done (Some (int t)) \<and> 10 \<notin> set nm \<and>
     t \<notin> set methods \<and> t \<noteq> WSI_TOKEN_CHALLENGE \<and> t \<noteq> WSI_TOKEN_SWORIGIN \<and> t < 96 \<and> ah_frag_index ah ! t = 0 \<and> ah_nfrag ah + 1 < 96"

lemma name_run:
  assumes mx: "mx = max_http_header_data cx" and env: "http_env_ok cx" and lim: "token_limits cx = None"
    and t: "t \<noteq> 34" "t \<noteq> 8" "t < 96" "ah_frag_index ah0 ! t = 0" "ah_nfrag ah0 + 1 < 96"
  shows "in_name mx (mux_substream w) room ah0 ah \<Longrightarrow>
    lex_walk lextable_h1 (ah_lextable_pos ah) (map parse_to_lower nm) = Done (Some (int t)) \<Longrightarrow> nm \<noteq> [] \<Longrightarrow> 10 \<notin> set nm \<Longrightarrow> room + length nm \<le> mx \<Longrightarrow>
    \<exists>ah'. parse_run cx w ah nm = Some ah' \<and> in_value mx t ah0 ah' \<and> cur_val ah' = [] \<and> ah_pos ah' \<le> room + length nm \<and>
      ah_ups ah' = URIPS_IDLE"
proof (induction nm arbitrary: ah room)
  case (Cons c nm)
  show ?case
  proof (cases nm)
    case Nil
    then show ?thesis
      using in_name_end [OF Cons.prems(1) mx env _ _ _ lim t, of c] Cons.prems(2,4,5) by auto
  next
    case (Cons d ds)
    obtain ah1 where s: "parse_char cx w c ah = Done (Next ah1)" "in_name mx (mux_substream w) (room + 1) ah0 ah1"
        "lex_walk lextable_h1 (ah_lextable_pos ah1) (map parse_to_lower nm) = Done (Some (int t))"
      using in_name_step [OF Cons.prems(1) mx env, of c "parse_to_lower d" "map parse_to_lower ds" "int t"] Cons.prems(2,4,5) Cons by auto
    obtain ah' where r: "parse_run cx w ah1 nm = Some ah'" "in_value mx t ah0 ah'" "cur_val ah' = []" "ah_pos ah' \<le> room + 1 + length nm" "ah_ups ah' = URIPS_IDLE"
      using Cons.IH [OF s(2,3)] Cons Cons.prems(4,5) by auto
    then show ?thesis using s(1) by auto
  qed
qed simp

text \<open>Spaces before the value are skipped.\<close>

lemma blanks_run:
  assumes "in_value mx t ah0 ah" and "cur_val ah = []"
  shows "parse_run cx w ah (replicate n 32) = Some ah"
proof (induction n)
  case (Suc n)
  note D = in_valueD [OF assms(1)]
  have "flen ah (ah_nfrag ah) = 0" using cur_val_length [OF D(6)] assms(2) by simp
  then have "parse_char cx w 32 ah = Done (Next ah)" using D by (simp add: parse_char_def parse_value_def)
  then show ?case using Suc by simp
qed simp

lemma value_run:
  assumes mx: "mx = max_http_header_data cx" and t: "t \<notin> set methods"
  shows "in_value mx t ah0 ah \<Longrightarrow> set v \<inter> {0, 10, 13} = {} \<Longrightarrow> (cur_val ah = [] \<Longrightarrow> v \<noteq> [] \<Longrightarrow> hd v \<noteq> 32) \<Longrightarrow> ah_pos ah + length v \<le> mx \<Longrightarrow>
    \<exists>ah'. parse_run cx w ah v = Some ah' \<and> in_value mx t ah0 ah' \<and> cur_val ah' = cur_val ah @ v \<and> ah_pos ah' = ah_pos ah + length v"
proof (induction v arbitrary: ah)
  case (Cons c v)
  have c: "c \<noteq> 13" "c \<noteq> 10" "c \<noteq> 0" "c = 32 \<longrightarrow> cur_val ah \<noteq> []" "ah_pos ah < mx" using Cons.prems(2-4) by auto
  note S = in_value_step [OF Cons.prems(1) mx t c(5,1-4)] in_value_store [OF Cons.prems(1) c(5), of c]
  obtain ah' where "parse_run cx w (ah_store c ah) v = Some ah'" "in_value mx t ah0 ah'" "cur_val ah' = (cur_val ah @ [c]) @ v" "ah_pos ah' = ah_pos ah + 1 + length v"
    using Cons.IH [OF S(2)] S(3) Cons.prems(2,4) by auto
  then show ?case using S(1) by auto
qed auto

lemma value_end:
  assumes "in_value mx t ah0 ah" and mx: "mx = max_http_header_data cx" and "t \<notin> set methods" and "ah_pos ah < mx"
  shows "\<exists>ah'. parse_run cx w ah [13, 10] = Some ah' \<and> line_start mx ah' \<and> hdr_val ah' (ah_nfrag ah0 + 1) = cur_val ah \<and>
    flen ah' (ah_nfrag ah0 + 1) = flen ah (ah_nfrag ah) \<and> ah_nfrag ah' = ah_nfrag ah0 + 1 \<and> ah_frag_index ah' ! t = ah_nfrag ah0 + 1 \<and>
    fnext ah' (ah_nfrag ah0 + 1) = 0 \<and> hdr_keeps (ah_nfrag ah0) ah0 ah' \<and> ah_pos ah' = ah_pos ah + 1 \<and>
    ah_frag_index ah' = (ah_frag_index ah0)[t := ah_nfrag ah0 + 1] \<and> hdr_links (ah_nfrag ah0) ah0 ah' \<and> hdr_nul ah' (ah_nfrag ah0 + 1)"
proof -
  have V: "hdr_inv mx ah" "ah_parser_state ah = WSI_TOKEN t" "uri_cur mx ah" "ah_nfrag ah = ah_nfrag ah0 + 1"
      "ah_frag_index ah ! t = ah_nfrag ah" "fnext ah (ah_nfrag ah) = 0" "hdr_keeps (ah_nfrag ah0) ah0 ah" "ah_ues ah = URIES_IDLE"
      "ah_frag_index ah = (ah_frag_index ah0)[t := ah_nfrag ah]" "hdr_links (ah_nfrag ah0) ah0 ah"
    using assms(1) by (auto simp: in_value_def)
  have hc: "hdr_collecting mx ah" "t < 96" "t \<noteq> 8" using V(1,2) by (simp_all add: hdr_inv_def)
  have x: "index_at ah t = Done (ah_nfrag ah)" "frag_at ah (ah_nfrag ah) = Done (ah_frags ah ! ah_nfrag ah)"
    using hdr_collectingD(1,5) [OF hc(1)] hc(2) V(5) by (auto simp: hdr_defs hdr_shape_def)
  define ah1 where "ah1 = ah\<lparr>ah_parser_state := WSI_TOKEN_SKIPPING_SAW_CR\<rparr>"
  have u1: "uri_cur mx ah1" "ah_pos ah1 < mx" using V(3) assms(4) by (auto simp: ah1_def uri_cur_def)
  have hc1: "hdr_collecting mx ah1" using u1(1) by (simp add: uri_cur_def)
  have e1: "parse_char cx w 13 ah = Done (Next (ah_put 0 ah1))"
    using x V(2,8) assms(3) hc(3) issue_char_cur [OF u1(1), of 0] u1(2) mx len_dec_store [OF hc1 u1(2) uri_cur_room [OF u1], of 0]
    by (simp add: parse_char_def parse_value_def parse_check_eol_def Let_def parse_swallow_def del: bind_outcome_eq_Done flip: ah1_def)
      (simp add: ah1_def)
  define ah2 where "ah2 = parse_name_start (ah_put 0 ah1)"
  have e2: "parse_char cx w 10 (ah_put 0 ah1) = Done (Next ah2)"
    using V(8) by (simp add: parse_char_def ah1_def ah2_def)
  have "hdr_inv mx ah2"
    using hdr_put_ok(3) [OF hc1 u1(2)] by (simp add: ah2_def parse_name_start_def hdr_inv_def lex_waiting_0 ah1_def)
  then have "line_start mx ah2" using V(8) by (simp add: line_start_def ah2_def parse_name_start_def ah1_def)
  moreover have "hdr_val ah2 (ah_nfrag ah0 + 1) = cur_val ah"
    using cur_val_put [OF u1(1), of 0] V(4) by (simp add: ah2_def parse_name_start_def ah1_def cur_val_def)
  moreover have "hdr_keeps (ah_nfrag ah0) ah0 ah2"
  proof -
    have "ah_put 0 ah1 = (ah_put 0 ah)\<lparr>ah_parser_state := WSI_TOKEN_SKIPPING_SAW_CR\<rparr>" by (simp add: ah1_def ah_put_def)
    then show ?thesis
      using hdr_keeps_trans [OF V(7) hdr_put_ok(2) [OF hc(1) assms(4), of 0]] V(4) by (simp add: ah2_def parse_name_start_def)
  qed
  moreover have "hdr_links (ah_nfrag ah0) ah0 ah2" using V(10) by (simp add: hdr_links_def ah2_def parse_name_start_def ah1_def)
  moreover have "hdr_nul ah2 (ah_nfrag ah0 + 1)" using hdr_nul_put [OF u1] V(4) by (simp add: ah2_def parse_name_start_def ah1_def)
  ultimately show ?thesis using e1 e2 V(4-6,9)
    by (intro exI [of _ ah2]) (simp add: ah2_def parse_name_start_def ah1_def)
qed

text \<open>A whole line.\<close>

lemma header_line_stored:
  assumes "line_start mx ah" and mx: "mx = max_http_header_data cx" and env: "http_env_ok cx" and lim: "token_limits cx = None"
    and hl: "header_line cx ah nm t" and v: "set v \<inter> {0, 10, 13} = {}" "v \<noteq> [] \<longrightarrow> hd v \<noteq> 32"
    and room: "ah_pos ah + length nm + length v + 17 \<le> mx"
  shows "\<exists>ah'. parse_run cx w ah (nm @ replicate bl 32 @ v @ [13, 10]) = Some ah' \<and> line_start mx ah' \<and> hdr_val ah' (ah_nfrag ah + 1) = v \<and>
    flen ah' (ah_nfrag ah + 1) = length v \<and> ah_nfrag ah' = ah_nfrag ah + 1 \<and> ah_frag_index ah' ! t = ah_nfrag ah + 1 \<and>
    fnext ah' (ah_nfrag ah + 1) = 0 \<and> hdr_keeps (ah_nfrag ah) ah ah' \<and> ah_frag_index ah' = (ah_frag_index ah)[t := ah_nfrag ah + 1] \<and>
    ah_pos ah' \<le> ah_pos ah + length nm + length v + 17 \<and> hdr_links (ah_nfrag ah) ah ah' \<and> hdr_nul ah' (ah_nfrag ah + 1)"
proof -
  have H: "lex_walk lextable_h1 0 (map parse_to_lower nm) = Done (Some (int t))" "10 \<notin> set nm" "t \<notin> set methods" "t \<noteq> 8" "t \<noteq> 34" "t < 96"
      "ah_frag_index ah ! t = 0" "ah_nfrag ah + 1 < 96" using hl by (auto simp: header_line_def)
  have ne: "nm \<noteq> []" using H(1) by (auto simp: lex_walk_Nil)
  have n0: "in_name mx (mux_substream w) (ah_pos ah + 16) ah ah"
    using assms(1) by (simp add: line_start_def in_name_def name_links_def)
  obtain ah1 where r1: "parse_run cx w ah nm = Some ah1" "in_value mx t ah ah1" "cur_val ah1 = []" "ah_pos ah1 \<le> ah_pos ah + 16 + length nm"
    using name_run [OF mx env lim H(5,4,6-8) n0 _ ne H(2)] H(1) room assms(1) by (auto simp: line_start_def)
  have room2: "ah_pos ah1 + length v \<le> mx" using r1(4) room by simp
  have v2: "v \<noteq> [] \<Longrightarrow> hd v \<noteq> 32" using v(2) by simp
  obtain ah2 where r2: "parse_run cx w ah1 v = Some ah2" "in_value mx t ah ah2" "cur_val ah2 = v" "ah_pos ah2 = ah_pos ah1 + length v"
    using value_run [OF mx H(3) r1(2) v(1) v2 room2, of w] r1(3) by auto
  have p2: "ah_pos ah2 < mx" using r2(4) r1(4) room by simp
  have "uri_cur mx ah2" using r2(2) by (simp add: in_value_def)
  then have "flen ah2 (ah_nfrag ah2) = length v" using cur_val_length [of mx ah2] r2(3) by simp
  then show ?thesis
    using value_end [OF r2(2) mx H(3) p2, of w] r1(1,4) r2(1,3,4) blanks_run [OF r1(2,3), of cx w bl] by (auto simp: parse_run_append)
qed

section \<open>Reading it back\<close>

lemma c_strncpy_id: "0 \<notin> set xs \<Longrightarrow> c_strncpy xs = xs"
proof -
  assume "0 \<notin> set xs"
  then have t: "takeWhile (\<lambda>c. c \<noteq> 0) xs = xs" by (auto simp: takeWhile_eq_all_conv)
  show ?thesis unfolding c_strncpy_def t by simp
qed

lemma lws_hdr_copy_single:
  assumes "h < 96" and "ah_frag_index ah ! h = n" and "n \<noteq> 0" and "fnext ah n = 0" and "flen ah n = length (hdr_val ah n)"
    and "off ah n + flen ah n \<le> length (ah_data ah)" and "0 \<notin> set (hdr_val ah n)" and "hdr_val ah n \<noteq> []" and "int (flen ah n) < len"
    and "hdr_shape mx ah"
  shows "lws_hdr_copy (Some ah) len h = Done (int (length (hdr_val ah n)), hdr_val ah n @ [0])"
proof -
  have i: "index_at ah h = Done n" using assms(1,2,10) by (simp add: index_at_def hdr_shape_def)
  have n: "n < length (ah_frags ah)" "length (ah_frags ah) = 96" using assms(1,2,10) by (auto simp: hdr_shape_def)
  have c: "hdr_chain ah n = Done [n]"
    using n(1) assms(4) unfolding hdr_chain_def by (cases "length (ah_frags ah)") auto
  have m: "mem_load (ah_data ah) (off ah n) (flen ah n) = Done (hdr_val ah n)" using assms(6) by (simp add: mem_load_def hdr_val_def)
  show ?thesis
    using i c m assms(3,4,5,7,8,9) by (simp add: lws_hdr_copy_def lws_hdr_total_length_def c_strncpy_id)
qed

lemma parse_run_loop: "parse_run cx w ah buf = Some ah' \<Longrightarrow> parse_loop cx w ah buf = Done (LPR_OK, w\<lparr>http_ah := Some ah'\<rparr>, [])"
  by (induction buf arbitrary: ah) (auto split: outcome.splits parse_step.splits)

text \<open>A header line of the peer can be read back: a name of the table in any capitals, followed by a value and CR LF, makes
  \<open>lws_hdr_copy\<close> return that value, for any header that has not appeared before and as long as the buffer and the fragments
  last; and what the table held before stays as it was.\<close>

theorem header_line_roundtrip:
  assumes "http_env_ok cx" and "token_limits cx = None" and "http_ah w = Some ah" and "line_start (max_http_header_data cx) ah"
    and "t < 88" and "t \<notin> set methods" and "t \<noteq> WSI_TOKEN_CHALLENGE" and "t \<noteq> WSI_TOKEN_SWORIGIN"
    and "map parse_to_lower nm = name_bytes (lextable_set ! t)" and "10 \<notin> set nm"
    and "ah_frag_index ah ! t = 0" and "ah_nfrag ah + 1 < WSI_TOKEN_COUNT"
    and "v \<noteq> []" and "hd v \<noteq> 32" and "set v \<inter> {0, 10, 13} = {}"
    and "ah_pos ah + length nm + length v + 17 \<le> max_http_header_data cx" and "int (length v) < len"
  shows "\<exists>w' ah'. lws_parse cx w (nm @ v @ [13, 10]) = Done (LPR_OK, w', []) \<and> http_ah w' = Some ah' \<and>
    lws_hdr_copy (http_ah w') len t = Done (int (length v), v @ [0]) \<and>
    line_start (max_http_header_data cx) ah' \<and> hdr_keeps (ah_nfrag ah) ah ah'"
proof -
  let ?mx = "max_http_header_data cx" and ?n = "ah_nfrag ah + 1"
  have "lex_walk lextable_h1 0 (map parse_to_lower nm) = Done (Some (int t))"
    using assms(5,9) by (simp add: lextable_walk_iff)
  then have hl: "header_line cx ah nm t" using assms(5-8,10-12) by (simp add: header_line_def)
  obtain ah' where r: "parse_run cx w ah (nm @ v @ [13, 10]) = Some ah'" "line_start ?mx ah'" "hdr_val ah' ?n = v" "flen ah' ?n = length v"
      "ah_nfrag ah' = ?n" "ah_frag_index ah' ! t = ?n" "fnext ah' ?n = 0" "hdr_keeps (ah_nfrag ah) ah ah'"
    using header_line_stored [OF assms(4) refl assms(1,2) hl assms(15) _ assms(16), of w 0] assms(14) by auto
  have rest: "hdr_resting ?mx (ah_pos ah') ah'" using r(2) by (auto simp: line_start_def hdr_inv_def)
  have l: "hdr_lay ah' (ah_nfrag ah') (ah_pos ah')" using rest by (simp add: hdr_resting_def)
  obtain j where "hdr_seal ah' ?n (if ?n < ah_nfrag ah' then off ah' (?n + 1) else ah_pos ah') j"
    by (rule hdr_layD [OF l, of ?n]) (use r(5) in auto)
  then have "off ah' ?n + flen ah' ?n \<le> length (ah_data ah')" by (auto simp: hdr_seal_def)
  then have "lws_hdr_copy (Some ah') len t = Done (int (length v), v @ [0])"
    using lws_hdr_copy_single [of t ah' ?n len ?mx] r(3,4,6,7) rest assms(5,13,15,17) by (simp add: hdr_resting_def)
  moreover have "lws_parse cx w (nm @ v @ [13, 10]) = Done (LPR_OK, w\<lparr>http_ah := Some ah'\<rparr>, [])"
    using parse_run_loop [OF r(1)] assms(3) by (simp add: lws_parse_def)
  ultimately show ?thesis using r(2,8) by auto
qed

end
