(* ===== verification/Http_Request.thy ===== *)
theory Http_Request
  imports Http_Roundtrip
begin

text \<open>
  Whole requests: the request line, its header lines and the empty line that ends them.
\<close>

section \<open>The request URI\<close>

text \<open>The characters that \<open>lws_parse_urldecode\<close> treats apart: NUL, LF, CR, space, percent, ampersand, plus, semicolon,
  equals and question mark.\<close>

definition uri_special :: "int set" where
  "uri_special = {0, 10, 13, 32, 37, 38, 43, 59, 61, 63}"

lemma in_value_fields [simp]: "in_value mx t ah0 (ah\<lparr>ah_ups := u\<rparr>) = in_value mx t ah0 ah"
  by (cases "ah_parser_state ah = WSI_TOKEN t") (simp_all add: in_value_def hdr_inv_def hdr_keeps_def hdr_val_def)

lemma uri_plain_step:
  assumes "in_value mx t ah0 ah" and mx: "mx = max_http_header_data cx" and "t \<in> set methods" and "ah_pos ah < mx" and "c \<notin> uri_special"
    and u: "uri_path mx (ah_frag_index ah ! 76 \<noteq> 0) False c ah = Done (None, c, ah\<lparr>ah_ups := u\<rparr>)"
  shows "parse_char cx w c ah = Done (Next (ah_store c (ah\<lparr>ah_ups := u\<rparr>)))"
proof -
  note D = in_valueD [OF assms(1)]
  have ues: "ah_ues ah = URIES_IDLE" using assms(1) by (simp add: in_value_def)
  have ix: "index_at ah 76 = Done (ah_frag_index ah ! 76)" using hdr_collectingD(1) [OF D(1)] by (simp add: index_at_def hdr_shape_def)
  have "lws_parse_urldecode mx c ah = Done (LPUR_CONTINUE, c, ah\<lparr>ah_ups := u\<rparr>)"
    unfolding lws_parse_urldecode_def using assms(5) ues ix u
    by (simp add: uri_unescape_def uri_special_def uri_query_def del: bind_outcome_eq_Done)
  then show ?thesis
    using D assms(3,5) parse_check_eol_store [of mx t ah0 "ah\<lparr>ah_ups := u\<rparr>" cx c] assms(1,4) mx
    by (auto simp: parse_char_def parse_value_def uri_special_def)
qed

text \<open>Once the URI arguments have an index, the path states are left alone.\<close>

lemma uri_args_step_plain:
  assumes "in_value mx t ah0 ah" and mx: "mx = max_http_header_data cx" and "t \<in> set methods" and "ah_pos ah < mx" and "c \<notin> uri_special"
    and "ah_frag_index ah ! 76 \<noteq> 0" and "ah_ups ah = URIPS_IDLE"
  shows "parse_char cx w c ah = Done (Next (ah_store c ah))"
proof -
  have "uri_path mx True False c ah = Done (None, c, ah\<lparr>ah_ups := URIPS_IDLE\<rparr>)"
    using assms(5,7) by (simp add: uri_path_def uri_idle_def uri_special_def)
  moreover have "ah\<lparr>ah_ups := URIPS_IDLE\<rparr> = ah" using assms(7) by (cases ah) simp
  ultimately show ?thesis using uri_plain_step [OF assms(1-5), of URIPS_IDLE] assms(6) by simp
qed

lemma uri_args_run:
  assumes mx: "mx = max_http_header_data cx" and t: "t \<in> set methods"
  shows "in_value mx t ah0 ah \<Longrightarrow> set p \<inter> uri_special = {} \<Longrightarrow> ah_frag_index ah ! 76 \<noteq> 0 \<Longrightarrow> ah_ups ah = URIPS_IDLE \<Longrightarrow>
    ah_pos ah + length p \<le> mx \<Longrightarrow>
    \<exists>ah'. parse_run cx w ah p = Some ah' \<and> in_value mx t ah0 ah' \<and> cur_val ah' = cur_val ah @ p \<and> ah_pos ah' = ah_pos ah + length p \<and>
      ah_ups ah' = URIPS_IDLE"
proof (induction p arbitrary: ah)
  case (Cons c p)
  have c: "c \<notin> uri_special" "ah_pos ah < mx" using Cons.prems(2,5) by auto
  note S = uri_args_step_plain [OF Cons.prems(1) mx t c(2,1) Cons.prems(3,4)] in_value_store [OF Cons.prems(1) c(2), of c]
  obtain ah' where "parse_run cx w (ah_store c ah) p = Some ah'" "in_value mx t ah0 ah'" "cur_val ah' = (cur_val ah @ [c]) @ p"
      "ah_pos ah' = ah_pos ah + 1 + length p" "ah_ups ah' = URIPS_IDLE"
    using Cons.IH [OF S(2)] S(3) Cons.prems(2-5) by auto
  then show ?case using S(1) by auto
qed auto

text \<open>The same for a path: after each slash comes a character that is neither a slash nor a dot.\<close>

fun plain_path :: "bool \<Rightarrow> int list \<Rightarrow> bool" where
  "plain_path slash [] = True"
| "plain_path slash (c # p) \<longleftrightarrow> c \<notin> uri_special \<and> (slash \<longrightarrow> c \<noteq> 46 \<and> c \<noteq> 47) \<and> plain_path (c = 47) p"

lemma plain_path_no_nul: "plain_path s p \<Longrightarrow> 0 \<notin> set p"
  by (induction p arbitrary: s) (auto simp: uri_special_def)

definition ups_slash :: "bool \<Rightarrow> uri_path_states" where
  "ups_slash slash = (if slash then URIPS_SEEN_SLASH else URIPS_IDLE)"

lemma plain_path_step:
  assumes "in_value mx t ah0 ah" and mx: "mx = max_http_header_data cx" and "t \<in> set methods" and "ah_pos ah < mx"
    and "ah_frag_index ah ! 76 = 0" and "ah_ups ah = ups_slash s" and "plain_path s (c # p)"
  shows "parse_char cx w c ah = Done (Next (ah_store c (ah\<lparr>ah_ups := ups_slash (c = 47)\<rparr>)))"
proof -
  have c: "c \<notin> uri_special" using assms(7) by simp
  have i: "ah\<lparr>ah_ups := URIPS_IDLE\<rparr> = ah" if "ah_ups ah = URIPS_IDLE" using that by (cases ah) simp
  have "uri_path mx (ah_frag_index ah ! 76 \<noteq> 0) False c ah = Done (None, c, ah\<lparr>ah_ups := ups_slash (c = 47)\<rparr>)"
    using assms(5-7) c i by (auto simp: uri_path_def uri_idle_def uri_special_def ups_slash_def split: if_splits)
  then show ?thesis by (rule uri_plain_step [OF assms(1-4) c])
qed

lemma plain_path_run:
  assumes mx: "mx = max_http_header_data cx" and t: "t \<in> set methods"
  shows "in_value mx t ah0 ah \<Longrightarrow> plain_path s p \<Longrightarrow> ah_frag_index ah ! 76 = 0 \<Longrightarrow> ah_ups ah = ups_slash s \<Longrightarrow>
    ah_pos ah + length p \<le> mx \<Longrightarrow>
    \<exists>ah' s'. parse_run cx w ah p = Some ah' \<and> in_value mx t ah0 ah' \<and> cur_val ah' = cur_val ah @ p \<and> ah_pos ah' = ah_pos ah + length p \<and>
      ah_ups ah' = ups_slash s'"
proof (induction p arbitrary: ah s)
  case (Cons c p)
  let ?ah = "ah\<lparr>ah_ups := ups_slash (c = 47)\<rparr>"
  have p: "ah_pos ah < mx" "in_value mx t ah0 ?ah" "ah_pos ?ah < mx" using Cons.prems(1,5) by auto
  note S = plain_path_step [OF Cons.prems(1) mx t p(1) Cons.prems(3,4,2)] in_value_store [OF p(2,3), of c]
  obtain ah' s' where "parse_run cx w (ah_store c ?ah) p = Some ah'" "in_value mx t ah0 ah'" "cur_val ah' = (cur_val ah @ [c]) @ p"
      "ah_pos ah' = ah_pos ah + 1 + length p" "ah_ups ah' = ups_slash s'"
    using Cons.IH [OF S(2), of "c = 47"] S(3) Cons.prems(2,3,5) by auto
  then show ?case using S(1) by (intro exI [of _ ah'] exI [of _ s']) auto
qed auto

text \<open>The space behind the URI starts the value of \<open>WSI_TOKEN_HTTP\<close>.\<close>

lemma uri_end_value:
  assumes "in_value mx t ah0 ah" and mx: "mx = max_http_header_data cx" and t: "t \<in> set methods" and "ah_pos ah < mx"
    and "ah_ups ah \<noteq> URIPS_SEEN_SLASH_DOT_DOT" and "cur_val ah \<noteq> []" and "ah_frag_index ah0 ! 15 = 0" and "ah_nfrag ah0 + 2 < 96"
    and "http_env_ok cx"
  shows "\<exists>ah1 ah'. parse_char cx w 32 ah = Done (Next ah') \<and> in_value mx 15 ah1 ah' \<and> cur_val ah' = [] \<and> ah_pos ah' = ah_pos ah + 1 \<and>
    hdr_val ah1 (ah_nfrag ah0 + 1) = cur_val ah \<and> ah_nfrag ah1 = ah_nfrag ah0 + 1 \<and> ah_frag_index ah1 = (ah_frag_index ah0)[t := ah_nfrag ah0 + 1] \<and>
    hdr_keeps (ah_nfrag ah0) ah0 ah1 \<and> hdr_links (ah_nfrag ah0) ah0 ah1 \<and> fnext ah1 (ah_nfrag ah0 + 1) = 0 \<and>
    flen ah1 (ah_nfrag ah0 + 1) = length (cur_val ah) \<and> hdr_nul ah1 (ah_nfrag ah0 + 1)"
proof -
  note D = in_valueD [OF assms(1)]
  have V: "ah_frag_index ah = (ah_frag_index ah0)[t := ah_nfrag ah]" "fnext ah (ah_nfrag ah) = 0" "hdr_keeps (ah_nfrag ah0) ah0 ah"
      "ah_ues ah = URIES_IDLE" "hdr_links (ah_nfrag ah0) ah0 ah" using assms(1) by (auto simp: in_value_def)
  have t15: "t \<noteq> 15" using t by (auto simp: methods_def)
  have ne: "flen ah (ah_nfrag ah) \<noteq> 0" using assms(6) cur_val_length [OF D(6)] by (metis length_0_conv)
  have sz: "length (ah_frags ah) = 96" "length (ah_frag_index ah) = 96" using hdr_collectingD(1) [OF D(1)] by (auto simp: hdr_shape_def)
  define ah1 where "ah1 = (ah_put 0 ah)\<lparr>ah_parser_state := WSI_TOKEN 15\<rparr>"
  have e1: "parse_char cx w 32 ah = parse_start_fragment cx ah1"
    using D(4,5,7) ne t15 t assms(4,5) uri_seal_cur [OF D(6)]
    by (simp add: parse_char_def parse_value_def parse_uri_end_def ah1_def flip: mx del: bind_outcome_eq_Done)
  let ?N = "ah_nfrag ah + 1"
  define ah2 where "ah2 = ah1\<lparr>ah_nfrag := ?N, ah_frags := (ah_frags ah1)[?N := \<lparr>frag_offset = ah_pos ah1, frag_len = 0, frag_nfrag = 0, frag_flags = 2\<rparr>],
    ah_frag_index := (ah_frag_index ah1)[15 := ?N], ah_hdr_token_idx := 15\<rparr>"
  have i15: "ah_frag_index ah ! 15 = 0" using V(1) t15 assms(7) by simp
  have e2: "parse_start_fragment cx ah1 = Done (Next ah2)"
    using sz i15 assms(8) D(8) by (simp add: parse_start_fragment_def parse_excessive_def hdr_defs ah2_def ah1_def ah_put_def)
  have r: "hdr_resting mx (ah_pos ah1) ah1" using hdr_put_ok(3) [OF D(1) assms(4)] by (simp add: ah1_def)
  have k: "hdr_inv mx ah2" "hdr_keeps (ah_nfrag ah1) ah1 ah2"
    using parse_start_fragment_ok [OF r _ _ _ mx, of 15] e2 by (auto simp: ah1_def)
  have f1: "ah_nfrag ah1 = ah_nfrag ah0 + 1" "ah_pos ah1 = ah_pos ah + 1" "ah_frags ah1 = ah_frags ah" "ah_frag_index ah1 = ah_frag_index ah"
      "ah_ues ah1 = URIES_IDLE" "ah_current_token_limit ah1 = ah_current_token_limit ah"
    using D(8) V(4) by (simp_all add: ah1_def ah_put_def)
  have f2: "ah_nfrag ah2 = ?N" "ah_pos ah2 = ah_pos ah + 1" "ah_parser_state ah2 = WSI_TOKEN 15" "ah_frag_index ah2 = (ah_frag_index ah1)[15 := ?N]"
      "off ah2 ?N = ah_pos ah + 1" "flen ah2 ?N = 0" "fnext ah2 ?N = 0" "ah_ues ah2 = URIES_IDLE"
      "ah_current_token_limit ah2 = ah_current_token_limit ah" "ah_frag_index ah2 ! 15 = ?N"
    using f1 sz assms(8) V(2) D(8) by (simp_all add: ah2_def) (simp add: ah1_def)
  have "uri_cur mx ah2" using k(1) f2 D(6) by (simp add: uri_cur_def hdr_inv_def)
  moreover have "hdr_links (ah_nfrag ah1) ah1 ah2" using f1 D(8) by (simp add: hdr_links_def ah2_def)
  ultimately have "in_value mx 15 ah1 ah2" using k f2 f1(1) D(8) by (simp add: in_value_def)
  moreover have "cur_val ah2 = []" using f2(1,6) by (simp add: cur_val_def hdr_val_def)
  moreover have "hdr_val ah1 (ah_nfrag ah0 + 1) = cur_val ah" using cur_val_put [OF D(6), of 0] D(8) by (simp add: ah1_def)
  moreover have "hdr_keeps (ah_nfrag ah0) ah0 ah1"
    using hdr_keeps_trans [OF V(3) hdr_put_ok(2) [OF D(1) assms(4), of 0]] D(8) by (simp add: ah1_def)
  moreover have "hdr_links (ah_nfrag ah0) ah0 ah1" using V(5) f1(3) by (simp add: hdr_links_def)
  moreover have "hdr_nul ah1 (ah_nfrag ah0 + 1)" using hdr_nul_put [OF D(6) assms(4)] D(8) by (simp add: ah1_def)
  ultimately show ?thesis using e1 e2 f1 f2 V(1,2) D(8) cur_val_length [OF D(6)] by (intro exI [of _ ah1] exI [of _ ah2]) simp
qed

section \<open>The request line\<close>

text \<open>A header whose value is in one fragment.\<close>

definition hdr_holds :: "allocated_headers \<Rightarrow> nat \<Rightarrow> int list \<Rightarrow> bool" where
  "hdr_holds ah t v \<longleftrightarrow> (let n = ah_frag_index ah ! t in 1 \<le> n \<and> n \<le> ah_nfrag ah \<and> fnext ah n = 0 \<and> flen ah n = length v \<and> hdr_val ah n = v \<and> hdr_nul ah n)"

lemma hdr_holds_keeps:
  assumes "hdr_holds ah t v" and "hdr_keeps (ah_nfrag ah) ah ah'" and "hdr_links (ah_nfrag ah) ah ah'" and "ah_nfrag ah \<le> ah_nfrag ah'"
  shows "hdr_holds ah' t v"
  using assms by (auto simp: hdr_holds_def Let_def hdr_keeps_def hdr_links_def)

lemma lws_hdr_copy_laid:
  assumes "hdr_holds ah t v" and sh: "hdr_shape mx ah" and l: "hdr_lay ah k lim" and k: "ah_frag_index ah ! t \<le> k" and "t < 96" and "v \<noteq> []"
    and "0 \<notin> set v" and "int (length v) < len"
  shows "lws_hdr_copy (Some ah) len t = Done (int (length v), v @ [0])"
proof -
  let ?n = "ah_frag_index ah ! t"
  have H: "1 \<le> ?n" "?n \<le> ah_nfrag ah" "fnext ah ?n = 0" "flen ah ?n = length v" "hdr_val ah ?n = v"
    using assms(1) by (auto simp: hdr_holds_def Let_def)
  obtain j where "hdr_seal ah ?n (if ?n < k then off ah (?n + 1) else lim) j"
    by (rule hdr_layD [OF l H(1) k]) auto
  then have "off ah ?n + flen ah ?n \<le> length (ah_data ah)" by (auto simp: hdr_seal_def)
  then show ?thesis using lws_hdr_copy_single [OF assms(5) refl _ H(3) _ _ _ _ _ sh, of len] H assms(6-8) by simp
qed

lemma lws_hdr_copy_holds:
  assumes "hdr_holds ah t v" and "hdr_resting mx lim ah" and "t < 96" and "v \<noteq> []" and "0 \<notin> set v" and "int (length v) < len"
  shows "lws_hdr_copy (Some ah) len t = Done (int (length v), v @ [0])"
  using lws_hdr_copy_laid [OF assms(1) _ _ _ assms(3-6)] assms(1,2) by (auto simp: hdr_resting_def hdr_holds_def Let_def)

lemma request_line_run:
  assumes "line_start mx ah" and mx: "mx = max_http_header_data cx" and env: "http_env_ok cx" and lim: "token_limits cx = None"
    and m: "m \<in> set methods" "lex_walk lextable_h1 0 (map parse_to_lower nm) = Done (Some (int m))" "10 \<notin> set nm"
    and ix: "ah_frag_index ah ! m = 0" "ah_frag_index ah ! 15 = 0" "ah_frag_index ah ! 76 = 0" "ah_nfrag ah + 2 < 96"
    and p: "plain_path False p" "p \<noteq> []" and v: "set v \<inter> {0, 10, 13} = {}" "v \<noteq> [] \<longrightarrow> hd v \<noteq> 32"
    and room: "ah_pos ah + length nm + length p + length v + 18 \<le> mx"
  shows "\<exists>ah'. parse_run cx w ah (nm @ replicate bl 32 @ p @ [32] @ v @ [13, 10]) = Some ah' \<and> line_start mx ah' \<and> hdr_holds ah' m p \<and> hdr_holds ah' 15 v \<and>
    ah_nfrag ah' = ah_nfrag ah + 2 \<and> ah_frag_index ah' = (ah_frag_index ah)[m := ah_nfrag ah + 1, 15 := ah_nfrag ah + 2] \<and>
    ah_pos ah' \<le> ah_pos ah + length nm + length p + length v + 18"
proof -
  have mm: "m \<noteq> 34" "m \<noteq> 8" "m < 96" "m \<noteq> 15" "m \<noteq> 76" using m(1) by (auto simp: methods_def)
  have nm: "nm \<noteq> []" using m(2) by (auto simp: lex_walk_Nil)
  have sz: "length (ah_frag_index ah) = 96" using assms(1) by (auto simp: line_start_def hdr_inv_def hdr_resting_def hdr_shape_def)
  have n0: "in_name mx (mux_substream w) (ah_pos ah + 16) ah ah"
    using assms(1) by (simp add: line_start_def in_name_def name_links_def)
  obtain ah1 where r1: "parse_run cx w ah nm = Some ah1" "in_value mx m ah ah1" "cur_val ah1 = []" "ah_pos ah1 \<le> ah_pos ah + 16 + length nm" "ah_ups ah1 = URIPS_IDLE"
    using name_run [OF mx env lim mm(1-3) ix(1) _ n0 _ nm m(3)] m(2) room ix(4) assms(1) by (auto simp: line_start_def)
  have b1: "parse_run cx w ah1 (replicate bl 32) = Some ah1" by (rule blanks_run [OF r1(2,3)])
  have x1: "ah_frag_index ah1 ! 76 = 0" using r1(2) ix(3) mm(5) by (auto simp: in_value_def)
  obtain ah2 s where r2: "parse_run cx w ah1 p = Some ah2" "in_value mx m ah ah2" "cur_val ah2 = p" "ah_pos ah2 = ah_pos ah1 + length p" "ah_ups ah2 = ups_slash s"
    using plain_path_run [OF mx m(1) r1(2) p(1) x1, of w] r1(3-5) room by (auto simp: ups_slash_def)
  have a2: "ah_pos ah2 < mx" "ah_ups ah2 \<noteq> URIPS_SEEN_SLASH_DOT_DOT" using r1(4) r2(4,5) room by (auto simp: ups_slash_def)
  obtain b ah3 where r3: "parse_char cx w 32 ah2 = Done (Next ah3)" "in_value mx 15 b ah3" "cur_val ah3 = []" "ah_pos ah3 = ah_pos ah2 + 1"
      "hdr_val b (ah_nfrag ah + 1) = p" "ah_nfrag b = ah_nfrag ah + 1" "ah_frag_index b = (ah_frag_index ah)[m := ah_nfrag ah + 1]"
      "fnext b (ah_nfrag ah + 1) = 0" "flen b (ah_nfrag ah + 1) = length p" "hdr_nul b (ah_nfrag ah + 1)"
    using uri_end_value [OF r2(2) mx m(1) a2 _ ix(2,4) env, of w] r2(3) p(2) by auto
  have v2: "v \<noteq> [] \<Longrightarrow> hd v \<noteq> 32" and room2: "ah_pos ah3 + length v \<le> mx" using v(2) r1(4) r2(4) r3(4) room by auto
  have n15: "15 \<notin> set methods" by (simp add: methods_def)
  obtain ah4 where r4: "parse_run cx w ah3 v = Some ah4" "in_value mx 15 b ah4" "cur_val ah4 = v" "ah_pos ah4 = ah_pos ah3 + length v"
    using value_run [OF mx n15 r3(2) v(1) v2 room2, of w] r3(3) by auto
  have p4: "ah_pos ah4 < mx" using r1(4) r2(4) r3(4) r4(4) room by simp
  have l4: "flen ah4 (ah_nfrag ah4) = length v" using r4(2,3) cur_val_length [of mx ah4] by (simp add: in_value_def)
  obtain ah5 where r5: "parse_run cx w ah4 [13, 10] = Some ah5" "line_start mx ah5" "hdr_val ah5 (ah_nfrag b + 1) = v"
      "flen ah5 (ah_nfrag b + 1) = length v" "ah_nfrag ah5 = ah_nfrag b + 1" "fnext ah5 (ah_nfrag b + 1) = 0" "hdr_keeps (ah_nfrag b) b ah5"
      "ah_pos ah5 = ah_pos ah4 + 1" "ah_frag_index ah5 = (ah_frag_index b)[15 := ah_nfrag b + 1]" "hdr_links (ah_nfrag b) b ah5"
      "hdr_nul ah5 (ah_nfrag b + 1)"
    using value_end [OF r4(2) mx n15 p4, of w] r4(3) l4 by auto
  have hb: "hdr_holds b m p" using r3(5-10) mm(3) sz by (simp add: hdr_holds_def)
  have "hdr_holds ah5 m p" using hdr_holds_keeps [OF hb r5(7,10)] r5(5) by simp
  moreover have "hdr_holds ah5 15 v" using r3(6,7) r5(3-6,9,11) sz by (simp add: hdr_holds_def)
  ultimately show ?thesis
    using r1(1,4) b1 r2(1,4) r3(1,4,6,7) r4(1,4) r5(1,2,5,8,9) by (intro exI [of _ ah5]) (auto simp: parse_run_append)
qed

section \<open>The header lines\<close>

text \<open>A header field: a spelling of the name of a token, the spaces behind it, and its value.\<close>

record header_field =
  field_name :: "int list"
  field_blanks :: nat
  field_value :: "int list"
  field_token :: nat

definition field_line :: "header_field \<Rightarrow> int list" where
  "field_line f = field_name f @ replicate (field_blanks f) 32 @ field_value f @ [13, 10]"

definition field_ok :: "header_field \<Rightarrow> bool" where
  "field_ok f \<longleftrightarrow> field_token f < 88 \<and> field_token f \<notin> set methods \<and>
     field_token f \<notin> {WSI_TOKEN_CHALLENGE, WSI_TOKEN_SWORIGIN, WSI_TOKEN_HTTP} \<and>
     map parse_to_lower (field_name f) = name_bytes (lextable_set ! field_token f) \<and> 10 \<notin> set (field_name f) \<and>
     field_value f \<noteq> [] \<and> hd (field_value f) \<noteq> 32 \<and> set (field_value f) \<inter> {0, 10, 13} = {}"

text \<open>What the lines may take of the buffer, the links of the speculative storage of their names included.\<close>

definition fields_room :: "header_field list \<Rightarrow> nat" where
  "fields_room fs = (\<Sum>f\<leftarrow>fs. length (field_name f) + length (field_value f) + 17)"

text \<open>Different headers lie in different fragments.\<close>

definition hdr_apart :: "allocated_headers \<Rightarrow> bool" where
  "hdr_apart ah \<longleftrightarrow> (\<forall>t < 96. \<forall>t' < 96. ah_frag_index ah ! t = ah_frag_index ah ! t' \<longrightarrow> ah_frag_index ah ! t \<noteq> 0 \<longrightarrow> t = t')"

lemma hdr_apart_stored:
  assumes "line_start mx ah" and "hdr_apart ah" and "ah_frag_index ah' = (ah_frag_index ah)[t := ah_nfrag ah + 1]"
  shows "hdr_apart ah'"
proof -
  have sh: "length (ah_frag_index ah) = 96" "\<forall>h < 96. ah_frag_index ah ! h < ah_nfrag ah + 1"
    using assms(1) by (auto simp: line_start_def hdr_inv_def hdr_resting_def hdr_shape_def less_Suc_eq_le)
  show ?thesis
    unfolding hdr_apart_def assms(3)
  proof (intro allI impI)
    fix a b assume a: "a < 96" "b < 96" and e: "(ah_frag_index ah)[t := ah_nfrag ah + 1] ! a = (ah_frag_index ah)[t := ah_nfrag ah + 1] ! b"
      and nz: "(ah_frag_index ah)[t := ah_nfrag ah + 1] ! a \<noteq> 0"
    have "ah_frag_index ah ! a < ah_nfrag ah + 1" "ah_frag_index ah ! b < ah_nfrag ah + 1" using sh(2) a by auto
    moreover have "(ah_frag_index ah)[t := ah_nfrag ah + 1] ! c = (if t = c then ah_nfrag ah + 1 else ah_frag_index ah ! c)" if "c < 96" for c
      using that sh(1) by simp
    ultimately show "a = b" using e nz a assms(2) unfolding hdr_apart_def by (metis less_irrefl)
  qed
qed

lemma header_lines_run:
  assumes mx: "mx = max_http_header_data cx" and env: "http_env_ok cx" and lim: "token_limits cx = None"
  shows "line_start mx ah \<Longrightarrow> list_all field_ok fs \<Longrightarrow> distinct (map field_token fs) \<Longrightarrow>
    (\<forall>f\<in>set fs. ah_frag_index ah ! field_token f = 0) \<Longrightarrow> ah_nfrag ah + length fs < 96 \<Longrightarrow> ah_pos ah + fields_room fs \<le> mx \<Longrightarrow>
    \<exists>ah'. parse_run cx w ah (concat (map field_line fs)) = Some ah' \<and> line_start mx ah' \<and>
      (\<forall>f\<in>set fs. hdr_holds ah' (field_token f) (field_value f)) \<and> hdr_keeps (ah_nfrag ah) ah ah' \<and> hdr_links (ah_nfrag ah) ah ah' \<and>
      ah_nfrag ah \<le> ah_nfrag ah' \<and> ah_pos ah' \<le> ah_pos ah + fields_room fs \<and>
      (\<forall>t. t \<notin> field_token ` set fs \<longrightarrow> ah_frag_index ah' ! t = ah_frag_index ah ! t) \<and> (hdr_apart ah \<longrightarrow> hdr_apart ah')"
proof (induction fs arbitrary: ah)
  case (Cons f fs)
  let ?t = "field_token f" and ?v = "field_value f" and ?N = "ah_nfrag ah + 1"
  have F: "?t < 88" "?v \<noteq> [] \<longrightarrow> hd ?v \<noteq> 32" "set ?v \<inter> {0, 10, 13} = {}" using Cons.prems(2) by (auto simp: field_ok_def)
  have sz: "length (ah_frag_index ah) = 96" using Cons.prems(1) by (auto simp: line_start_def hdr_inv_def hdr_resting_def hdr_shape_def)
  have "lex_walk lextable_h1 0 (map parse_to_lower (field_name f)) = Done (Some (int ?t))"
    using Cons.prems(2) by (simp add: lextable_walk_iff field_ok_def)
  then have hl: "header_line cx ah (field_name f) ?t" using Cons.prems(2,4,5) by (simp add: header_line_def field_ok_def)
  have room: "ah_pos ah + length (field_name f) + length ?v + 17 \<le> mx" using Cons.prems(6) by (simp add: fields_room_def)
  obtain ah1 where r1: "parse_run cx w ah (field_line f) = Some ah1" "line_start mx ah1" "hdr_val ah1 ?N = ?v" "flen ah1 ?N = length ?v"
      "ah_nfrag ah1 = ?N" "fnext ah1 ?N = 0" "hdr_keeps (ah_nfrag ah) ah ah1" "ah_frag_index ah1 = (ah_frag_index ah)[?t := ?N]"
      "ah_pos ah1 \<le> ah_pos ah + length (field_name f) + length ?v + 17" "hdr_links (ah_nfrag ah) ah ah1" "hdr_nul ah1 ?N"
    using header_line_stored [OF Cons.prems(1) mx env lim hl F(3,2) room, of w "field_blanks f"] unfolding field_line_def by blast
  have h1: "hdr_holds ah1 ?t ?v" using r1(3-6,8,11) F(1) sz by (simp add: hdr_holds_def)
  have z: "\<forall>g\<in>set fs. ah_frag_index ah1 ! field_token g = 0"
  proof
    fix g assume g: "g \<in> set fs"
    then have "field_token g \<noteq> ?t" using Cons.prems(3) by (metis distinct.simps(2) imageI list.simps(9) set_map)
    then show "ah_frag_index ah1 ! field_token g = 0" using Cons.prems(4) r1(8) g by simp
  qed
  obtain ah' where r2: "parse_run cx w ah1 (concat (map field_line fs)) = Some ah'" "line_start mx ah'"
      "\<forall>f\<in>set fs. hdr_holds ah' (field_token f) (field_value f)" "hdr_keeps (ah_nfrag ah1) ah1 ah'" "hdr_links (ah_nfrag ah1) ah1 ah'"
      "ah_nfrag ah1 \<le> ah_nfrag ah'" "ah_pos ah' \<le> ah_pos ah1 + fields_room fs"
      "\<forall>t. t \<notin> field_token ` set fs \<longrightarrow> ah_frag_index ah' ! t = ah_frag_index ah1 ! t" "hdr_apart ah1 \<longrightarrow> hdr_apart ah'"
    using Cons.IH [OF r1(2) _ _ z] Cons.prems(2,3,5,6) r1(5,9) by (auto simp: fields_room_def)
  have "hdr_apart ah \<longrightarrow> hdr_apart ah'" using hdr_apart_stored [OF Cons.prems(1) _ r1(8)] r2(9) by blast
  moreover have "hdr_holds ah' ?t ?v" by (rule hdr_holds_keeps [OF h1 r2(4,5,6)])
  moreover have "hdr_keeps (ah_nfrag ah) ah ah'" "hdr_links (ah_nfrag ah) ah ah'"
    using hdr_keeps_trans [OF r1(7) r2(4)] hdr_links_trans [OF r1(10) r2(5)] r1(5) by auto
  ultimately show ?case
    using r1(1,5,8,9) r2 by (intro exI [of _ ah']) (auto simp: parse_run_append fields_room_def)
qed (auto simp: fields_room_def)

section \<open>The empty line\<close>

lemma parse_known_challenge:
  assumes "lex_at lextable_h1 (ah_lextable_pos ah) = Done hi" and "lex_at lextable_h1 (ah_lextable_pos ah + 1) = Done lo" and "hi * 256 + lo = 8"
    and "token_limits cx = None"
  shows "\<exists>ah'. parse_known_name cx mux ah = Done (Set_parsing_complete ah') \<and> ah_ues ah' = ah_ues ah \<and> ah_frags ah' = ah_frags ah \<and>
    ah_nfrag ah' = ah_nfrag ah \<and> ah_frag_index ah' = ah_frag_index ah"
  using assms(3,4) unfolding parse_known_name_def assms(1,2) by (simp add: methods_def Let_def)

lemma empty_line_run:
  assumes "line_start mx ah" and mx: "mx = max_http_header_data cx" and env: "http_env_ok cx" and lim: "token_limits cx = None"
    and room: "ah_pos ah + 18 \<le> mx"
  shows "\<exists>ah1 ah'. parse_char cx w 13 ah = Done (Next ah1) \<and> parse_char cx w 10 ah1 = Done (Set_parsing_complete ah') \<and>
    hdr_resting mx (ah_pos ah') ah' \<and> hdr_keeps (ah_nfrag ah) ah ah' \<and> hdr_links (ah_nfrag ah) ah ah' \<and>
    ah_nfrag ah' = ah_nfrag ah \<and> ah_ues ah' = URIES_IDLE \<and> ah_frag_index ah' = ah_frag_index ah"
proof -
  have n0: "in_name mx (mux_substream w) (ah_pos ah + 16) ah ah" "ah_lextable_pos ah = 0"
    using assms(1) by (simp_all add: line_start_def in_name_def name_links_def)
  have lx: "lex_walk lextable_h1 0 [13, 10] = Done (Some 8)" by (simp add: lextable_walk_iff lextable_set_def name_bytes_def)
  have lw: "parse_to_lower 13 = 13" "parse_to_lower 10 = 10" by (simp_all add: parse_to_lower_def)
  obtain ah1 where s1: "parse_char cx w 13 ah = Done (Next ah1)" "in_name mx (mux_substream w) (ah_pos ah + 17) ah ah1"
      "lex_walk lextable_h1 (ah_lextable_pos ah1) [10] = Done (Some 8)"
    using in_name_step [OF n0(1) mx env, of 13 10 "[]" 8] lx lw n0(2) room by (auto simp: add.commute)
  have I: "hdr_inv mx ah1" "ah_parser_state ah1 = WSI_TOKEN_NAME_PART" "ah_nfrag ah1 = ah_nfrag ah" "hdr_keeps (ah_nfrag ah) ah ah1"
      "ah_ues ah1 = URIES_IDLE" "ah_frags ah1 = ah_frags ah" "ah_frag_index ah1 = ah_frag_index ah" using s1(2) by (auto simp: in_name_def)
  have d: "hdr_done ah1 = ah_nfrag ah1" using I(2) by (simp add: hdr_done_def)
  obtain ah' where s2: "parse_char cx w 10 ah1 = Done (Set_parsing_complete ah')" "ah_ues ah' = URIES_IDLE" "ah_frags ah' = ah_frags ah"
      "ah_nfrag ah' = ah_nfrag ah" "ah_frag_index ah' = ah_frag_index ah"
  proof (cases "ah_unk_pos ah1 = 0")
    case True
    then show thesis using that [of ah1] I by (simp add: parse_char_def parse_name_def)
  next
    case False
    show thesis
    proof (rule in_name_walk [OF s1(2) mx env, of 10 "[]" 8])
      fix ah2 lim q
      assume a: "parse_char cx w 10 ah1 = parse_name_walked cx w (ah2\<lparr>ah_lextable_pos := q\<rparr>)" "ah_ues ah2 = URIES_IDLE"
        "ah_frags ah2 = ah_frags ah" "ah_nfrag ah2 = ah_nfrag ah" "0 \<le> q" "lex_good q" "lex_walk lextable_h1 q [] = Done (Some 8)" "ah_frag_index ah2 = ah_frag_index ah"
      note W = lex_walk_endD [OF a(7,6)]
      let ?ah = "ah2\<lparr>ah_lextable_pos := q\<rparr>"
      have x: "lex_at lextable_h1 (ah_lextable_pos ?ah) = Done (lextable_h1 ! nat q)"
          "lex_at lextable_h1 (ah_lextable_pos ?ah + 1) = Done (lextable_h1 ! nat (q + 1))" using W(3,4) by simp_all
      obtain ah3 where k: "parse_known_name cx (mux_substream w) ?ah = Done (Set_parsing_complete ah3)" "ah_ues ah3 = ah_ues ?ah" "ah_frags ah3 = ah_frags ?ah"
          "ah_nfrag ah3 = ah_nfrag ?ah" "ah_frag_index ah3 = ah_frag_index ?ah"
        using parse_known_challenge [OF x W(2) [symmetric] assms(4)] by blast
      have "parse_name_walked cx w ?ah = parse_known_name cx (mux_substream w) ?ah" using W(1,3) a(5) by (simp add: parse_name_walked_def)
      then show thesis using that [of ah3] k a by simp
    qed (use s1(3) lw False room in auto)
  qed
  have "hdr_resting mx (ah_pos ah') ah'" "hdr_keeps (ah_nfrag ah) ah1 ah'"
    using parse_char_ok [OF I(1) env mx, of w 10] s2(1) d I(3) by auto
  then show ?thesis using s1(1) s2 hdr_keeps_trans [OF I(4)] by (auto simp: hdr_links_def)
qed

section \<open>Requests\<close>

lemma parse_run_then: "parse_run cx w ah xs = Some ah1 \<Longrightarrow> parse_loop cx w ah (xs @ ys) = parse_loop cx w ah1 ys"
  by (induction xs arbitrary: ah) (auto split: outcome.splits parse_step.splits)

lemma parse_complete_idle:
  assumes "hdr_resting mx (ah_pos ah) ah" and "ah_ues ah = URIES_IDLE"
  shows "\<exists>w'. parse_complete w ah = Done (LPR_OK, w') \<and> hdr_parsing_completed w' \<and> http_ah w' = Some (ah\<lparr>ah_parser_state := WSI_PARSING_COMPLETE\<rparr>)"
proof -
  obtain r w' where r: "parse_complete w ah = Done (r, w')" "r = LPR_OK \<longrightarrow> hdr_parsing_completed w' \<and> http_ah w' = Some (ah\<lparr>ah_parser_state := WSI_PARSING_COMPLETE\<rparr>)"
    using parse_complete_ok [OF assms(1)] by blast
  then have "r = LPR_OK" using assms(2) by (auto simp: parse_complete_def)
  then show ?thesis using r by auto
qed

lemma header_block_complete:
  assumes mx: "mx = max_http_header_data cx" and env: "http_env_ok cx" and lim: "token_limits cx = None"
    and "line_start mx ah" and "list_all field_ok fs" and "distinct (map field_token fs)"
    and "\<forall>f\<in>set fs. ah_frag_index ah ! field_token f = 0" and "ah_nfrag ah + length fs < 96" and room: "ah_pos ah + fields_room fs + 18 \<le> mx"
  shows "\<exists>w' ah'. parse_loop cx w ah (concat (map field_line fs) @ [13, 10] @ body) = Done (LPR_OK, w', body) \<and> hdr_parsing_completed w' \<and>
    http_ah w' = Some ah' \<and> hdr_resting mx (ah_pos ah') ah' \<and> (\<forall>f\<in>set fs. hdr_holds ah' (field_token f) (field_value f)) \<and>
    (\<forall>t v. hdr_holds ah t v \<longrightarrow> hdr_holds ah' t v) \<and>
    (\<forall>t. t \<notin> field_token ` set fs \<longrightarrow> ah_frag_index ah' ! t = ah_frag_index ah ! t) \<and> (hdr_apart ah \<longrightarrow> hdr_apart ah')"
proof -
  obtain ah2 where r2: "parse_run cx w ah (concat (map field_line fs)) = Some ah2" "line_start mx ah2"
      "\<forall>f\<in>set fs. hdr_holds ah2 (field_token f) (field_value f)" "hdr_keeps (ah_nfrag ah) ah ah2" "hdr_links (ah_nfrag ah) ah ah2"
      "ah_nfrag ah \<le> ah_nfrag ah2" "ah_pos ah2 \<le> ah_pos ah + fields_room fs"
      "\<forall>t. t \<notin> field_token ` set fs \<longrightarrow> ah_frag_index ah2 ! t = ah_frag_index ah ! t" "hdr_apart ah \<longrightarrow> hdr_apart ah2"
    using header_lines_run [OF mx env lim assms(4-8), of w] room by auto
  have room2: "ah_pos ah2 + 18 \<le> mx" using r2(7) room by simp
  obtain ah3 ah4 where r3: "parse_char cx w 13 ah2 = Done (Next ah3)" "parse_char cx w 10 ah3 = Done (Set_parsing_complete ah4)"
      "hdr_resting mx (ah_pos ah4) ah4" "hdr_keeps (ah_nfrag ah2) ah2 ah4" "hdr_links (ah_nfrag ah2) ah2 ah4" "ah_nfrag ah4 = ah_nfrag ah2" "ah_ues ah4 = URIES_IDLE"
      "ah_frag_index ah4 = ah_frag_index ah2"
    using empty_line_run [OF r2(2) mx env lim room2, of w] by blast
  let ?ah = "ah4\<lparr>ah_parser_state := WSI_PARSING_COMPLETE\<rparr>"
  obtain w' where c: "parse_complete w ah4 = Done (LPR_OK, w')" "hdr_parsing_completed w'" "http_ah w' = Some ?ah"
    using parse_complete_idle [OF r3(3,7)] by blast
  have keep: "hdr_holds ?ah t v" if "hdr_holds ah2 t v" for t v
    using hdr_holds_keeps [OF that r3(4,5)] r3(6) by (simp add: hdr_holds_def hdr_val_def)
  have "hdr_holds ?ah t v" if "hdr_holds ah t v" for t v by (rule keep [OF hdr_holds_keeps [OF that r2(4-6)]])
  moreover have "parse_loop cx w ah (concat (map field_line fs) @ [13, 10] @ body) = Done (LPR_OK, w', body)"
    using parse_run_then [OF r2(1)] r3(1,2) c(1) by simp
  moreover have "hdr_apart ?ah = hdr_apart ah2" using r3(8) by (simp add: hdr_apart_def)
  ultimately show ?thesis using c(2,3) r2(3,8,9) r3(3,8) keep by (intro exI [of _ w'] exI [of _ ?ah]) auto
qed

lemma fields_copied:
  assumes "hdr_resting mx lim ah" and "\<forall>f\<in>set fs. hdr_holds ah (field_token f) (field_value f)" and "list_all field_ok fs"
    and "list_all (\<lambda>f. int (length (field_value f)) < len) fs"
  shows "list_all (\<lambda>f. lws_hdr_copy (Some ah) len (field_token f) = Done (int (length (field_value f)), field_value f @ [0])) fs"
  using assms lws_hdr_copy_holds [OF _ assms(1)] by (auto simp: list_all_iff field_ok_def)

lemma method_name:
  assumes "m \<in> set methods" and "map parse_to_lower nm = name_bytes (lextable_set ! m)"
  shows "lex_walk lextable_h1 0 (map parse_to_lower nm) = Done (Some (int m))" and "10 \<notin> set nm"
proof -
  show "lex_walk lextable_h1 0 (map parse_to_lower nm) = Done (Some (int m))" using assms by (auto simp: lextable_walk_iff methods_def)
  have "10 \<notin> set (map parse_to_lower nm)" unfolding assms(2) using assms(1) by (auto simp: methods_def lextable_set_def name_bytes_def)
  moreover have "parse_to_lower 10 = 10" by (simp add: parse_to_lower_def)
  ultimately show "10 \<notin> set nm" by (metis image_eqI list.set_map)
qed

lemma fresh_line_start:
  assumes "http_env_ok cx" and "length d = max_http_header_data cx"
  shows "ah_nfrag (lws_header_table_reset (lws_create_ah d)) = 0" and "ah_pos (lws_header_table_reset (lws_create_ah d)) = 0"
    and "line_start (max_http_header_data cx) (lws_header_table_reset (lws_create_ah d))"
    and "ah_frag_index (lws_header_table_reset (lws_create_ah d)) = replicate 96 0"
  using hdr_inv_reset [of "lws_create_ah d" "max_http_header_data cx"] assms
  by (simp_all add: lws_header_table_reset_def line_start_def lws_create_ah_def http_env_ok_def)

lemma request_parsed:
  assumes "http_env_ok cx" and "token_limits cx = None" and "length d = max_http_header_data cx"
    and "http_ah w = Some (lws_header_table_reset (lws_create_ah d))"
    and "m \<in> set methods" and "map parse_to_lower method = name_bytes (lextable_set ! m)"
    and "plain_path False path" and "path \<noteq> []"
    and "set version \<inter> {0, 10, 13} = {}" and "version \<noteq> [] \<longrightarrow> hd version \<noteq> 32"
    and "list_all field_ok fs" and "distinct (map field_token fs)" and "length fs + 2 < WSI_TOKEN_COUNT"
    and "length method + length path + length version + fields_room fs + 36 \<le> max_http_header_data cx"
  shows "\<exists>w' ah. lws_parse cx w (method @ replicate bl 32 @ path @ [32] @ version @ [13, 10] @ concat (map field_line fs) @ [13, 10] @ body) = Done (LPR_OK, w', body) \<and>
    hdr_parsing_completed w' \<and> http_ah w' = Some ah \<and> hdr_resting (max_http_header_data cx) (ah_pos ah) ah \<and> hdr_holds ah m path \<and> hdr_holds ah 15 version \<and>
    (\<forall>f\<in>set fs. hdr_holds ah (field_token f) (field_value f)) \<and> (\<forall>t<96. t \<notin> {m, 15} \<union> field_token ` set fs \<longrightarrow> ah_frag_index ah ! t = 0)"
proof -
  let ?mx = "max_http_header_data cx"
  define ah where "ah = lws_header_table_reset (lws_create_ah d)"
  note z2 = fresh_line_start [OF assms(1,3), folded ah_def]
  have z: "ah_frag_index ah ! h = 0" if "h < 96" for h using that z2(4) by simp
  note M = method_name [OF assms(5,6)]
  have m: "m < 96" using assms(5) by (auto simp: methods_def)
  have room: "ah_pos ah + length method + length path + length version + 18 \<le> ?mx" and nf: "ah_nfrag ah + 2 < 96" using assms(14) z2 by auto
  obtain ah1 where r1: "parse_run cx w ah (method @ replicate bl 32 @ path @ [32] @ version @ [13, 10]) = Some ah1" "line_start ?mx ah1" "hdr_holds ah1 m path"
      "hdr_holds ah1 15 version" "ah_nfrag ah1 = 2" "ah_frag_index ah1 = (ah_frag_index ah)[m := 1, 15 := 2]"
      "ah_pos ah1 \<le> length method + length path + length version + 18"
    using request_line_run [OF z2(3) refl assms(1,2,5) M z [OF m] z z nf assms(7,8,9,10) room, of w bl] z2 by (auto simp: numeral_2_eq_2)
  have z1: "ah_frag_index ah1 ! t = 0" if "t < 96" "t \<noteq> m" "t \<noteq> 15" for t using that r1(6) z [of t] by simp
  have zf: "\<forall>f\<in>set fs. ah_frag_index ah1 ! field_token f = 0" 
  proof
    fix f assume "f \<in> set fs"
    then have "field_ok f" using assms(11) by (simp add: list_all_iff)
    then have "field_token f < 96" "field_token f \<noteq> m" "field_token f \<noteq> 15" using assms(5) by (auto simp: field_ok_def)
    then show "ah_frag_index ah1 ! field_token f = 0" by (rule z1)
  qed
  obtain w' ah' where r2: "parse_loop cx w ah1 (concat (map field_line fs) @ [13, 10] @ body) = Done (LPR_OK, w', body)" "hdr_parsing_completed w'"
      "http_ah w' = Some ah'" "hdr_resting ?mx (ah_pos ah') ah'" "\<forall>f\<in>set fs. hdr_holds ah' (field_token f) (field_value f)"
      "\<forall>t v. hdr_holds ah1 t v \<longrightarrow> hdr_holds ah' t v" "\<forall>t. t \<notin> field_token ` set fs \<longrightarrow> ah_frag_index ah' ! t = ah_frag_index ah1 ! t"
    using header_block_complete [OF refl assms(1,2) r1(2) assms(11,12) zf, of w body] r1(5,7) assms(13,14) by auto
  have "lws_parse cx w (method @ replicate bl 32 @ path @ [32] @ version @ [13, 10] @ concat (map field_line fs) @ [13, 10] @ body) = Done (LPR_OK, w', body)"
    using parse_run_then [OF r1(1)] r2(1) assms(4,8) by (simp add: lws_parse_def ah_def)
  then show ?thesis using r1(3,4) r2(2-7) z1 by (intro exI [of _ w'] exI [of _ ah']) auto
qed

text \<open>C5. A whole request is understood: sent to a fresh header table, a request line with any method of the table, any number of
  blanks behind it (the table's names of GET, POST, OPTIONS, CONNECT and HEAD end in one blank already; those of PUT, PATCH
  and DELETE do not), a path without percent escapes, arguments, the characters \<open>& + ; = ?\<close>, two slashes in a row and segments that begin with
  a dot, one blank and a version; then header lines of distinct names of the table with non-empty values, and an empty line, make \<open>lws_parse\<close> complete
  the headers, leave what follows them unread, and let \<open>lws_hdr_copy\<close> return the path, the version and the value of every
  header exactly as they were sent.  The header lines are not those the parser stores as something else: the methods and
  \<open>HTTP/1.1\<close>, and \<open>Sec-WebSocket-Origin:\<close>, which it stores as \<open>Origin:\<close>.  The request fits the table, and no limits are
  set for single headers.\<close>

theorem request_roundtrip:
  assumes "http_env_ok cx" and "token_limits cx = None" and "length d = max_http_header_data cx"
    and "http_ah w = Some (lws_header_table_reset (lws_create_ah d))"
    and "m \<in> set methods" and "map parse_to_lower method = name_bytes (lextable_set ! m)"
    and "plain_path False path" and "path \<noteq> []"
    and "set version \<inter> {0, 10, 13} = {}" and "version \<noteq> []" and "hd version \<noteq> 32"
    and "list_all field_ok fs" and "distinct (map field_token fs)" and "length fs + 2 < WSI_TOKEN_COUNT"
    and "length method + length path + length version + fields_room fs + 36 \<le> max_http_header_data cx"
    and "int (length path) < len" and "int (length version) < len" and "list_all (\<lambda>f. int (length (field_value f)) < len) fs"
  shows "\<exists>w'. lws_parse cx w (method @ replicate bl 32 @ path @ [32] @ version @ [13, 10] @ concat (map field_line fs) @ [13, 10] @ body) = Done (LPR_OK, w', body) \<and>
    hdr_parsing_completed w' \<and>
    lws_hdr_copy (http_ah w') len m = Done (int (length path), path @ [0]) \<and>
    lws_hdr_copy (http_ah w') len WSI_TOKEN_HTTP = Done (int (length version), version @ [0]) \<and>
    list_all (\<lambda>f. lws_hdr_copy (http_ah w') len (field_token f) = Done (int (length (field_value f)), field_value f @ [0])) fs"
proof -
  obtain w' ah where r: "lws_parse cx w (method @ replicate bl 32 @ path @ [32] @ version @ [13, 10] @ concat (map field_line fs) @ [13, 10] @ body) = Done (LPR_OK, w', body)"
      "hdr_parsing_completed w'" "http_ah w' = Some ah" "hdr_resting (max_http_header_data cx) (ah_pos ah) ah" "hdr_holds ah m path" "hdr_holds ah 15 version"
      "\<forall>f\<in>set fs. hdr_holds ah (field_token f) (field_value f)"
    using request_parsed [OF assms(1-9) _ assms(12-15), of bl body] assms(11) by blast
  have m: "m < 96" using assms(5) by (auto simp: methods_def)
  have "lws_hdr_copy (Some ah) len m = Done (int (length path), path @ [0])"
    using lws_hdr_copy_holds [OF r(5,4) m assms(8) plain_path_no_nul [OF assms(7)] assms(16)] .
  moreover have "lws_hdr_copy (Some ah) len 15 = Done (int (length version), version @ [0])"
    using lws_hdr_copy_holds [OF r(6,4) _ assms(10) _ assms(17)] assms(9) by simp
  moreover have "list_all (\<lambda>f. lws_hdr_copy (Some ah) len (field_token f) = Done (int (length (field_value f)), field_value f @ [0])) fs"
    using fields_copied [OF r(4,7) assms(12,18)] .
  ultimately show ?thesis using r(1-3) by auto
qed

theorem request_roundtrip_witness:
  "let f = \<lparr>field_name = name_bytes ''Host:'', field_blanks = 1, field_value = name_bytes ''me'', field_token = 3\<rparr> in
   \<exists>w'. lws_parse (http_cx 128) (http_fresh 128) (name_bytes ''PUT'' @ replicate 1 32 @ name_bytes ''/a/b.c'' @ [32] @ name_bytes ''HTTP/1.1'' @ [13, 10] @
       concat (map field_line [f]) @ [13, 10] @ [7]) = Done (LPR_OK, w', [7]) \<and>
     hdr_parsing_completed w' \<and>
     lws_hdr_copy (http_ah w') 20 74 = Done (int (length (name_bytes ''/a/b.c'')), name_bytes ''/a/b.c'' @ [0]) \<and>
     lws_hdr_copy (http_ah w') 20 WSI_TOKEN_HTTP = Done (int (length (name_bytes ''HTTP/1.1'')), name_bytes ''HTTP/1.1'' @ [0]) \<and>
     list_all (\<lambda>f. lws_hdr_copy (http_ah w') 20 (field_token f) = Done (int (length (field_value f)), field_value f @ [0])) [f]"
  unfolding Let_def
proof (rule request_roundtrip [of _ "replicate 128 0"])
  show "http_env_ok (http_cx 128)" by (simp add: http_env_ok_def http_cx_def)
  show "plain_path False (name_bytes ''/a/b.c'')" by (simp add: name_bytes_def uri_special_def)
  show "map parse_to_lower (name_bytes ''PUT'') = name_bytes (lextable_set ! 74)" by code_simp
  show "list_all field_ok [\<lparr>field_name = name_bytes ''Host:'', field_blanks = 1, field_value = name_bytes ''me'', field_token = 3\<rparr>]" by code_simp
qed (simp_all add: http_cx_def http_fresh_def name_bytes_def fields_room_def methods_def)

section \<open>Responses\<close>

text \<open>The status line of a response is a header line for the name table; a client has its own headers in the table already.\<close>

lemma response_parsed:
  assumes mx: "mx = max_http_header_data cx" and env: "http_env_ok cx" and lim: "token_limits cx = None" and "http_ah w = Some ah0" and "line_start mx ah0"
    and "set v \<inter> {0, 10, 13} = {}" and "v \<noteq> [] \<longrightarrow> hd v \<noteq> 32" and "list_all field_ok fs" and "distinct (map field_token fs)"
    and z: "ah_frag_index ah0 ! 15 = 0" "\<forall>f\<in>set fs. ah_frag_index ah0 ! field_token f = 0" and "ah_nfrag ah0 + length fs + 1 < 96"
    and room: "ah_pos ah0 + length v + fields_room fs + 44 \<le> mx"
  shows "\<exists>w' ah. lws_parse cx w (name_bytes ''HTTP/1.1 '' @ v @ [13, 10] @ concat (map field_line fs) @ [13, 10] @ body) = Done (LPR_OK, w', body) \<and>
    hdr_parsing_completed w' \<and> http_ah w' = Some ah \<and> hdr_resting mx (ah_pos ah) ah \<and> hdr_holds ah 15 v \<and>
    (\<forall>f\<in>set fs. hdr_holds ah (field_token f) (field_value f)) \<and> (\<forall>t v. hdr_holds ah0 t v \<longrightarrow> hdr_holds ah t v) \<and>
    (\<forall>t. t \<notin> {15} \<union> field_token ` set fs \<longrightarrow> ah_frag_index ah ! t = ah_frag_index ah0 ! t) \<and> (hdr_apart ah0 \<longrightarrow> hdr_apart ah)"
proof -
  let ?nm = "name_bytes ''HTTP/1.1 ''" and ?N = "ah_nfrag ah0 + 1"
  have sz: "length (ah_frag_index ah0) = 96" using assms(5) by (auto simp: line_start_def hdr_inv_def hdr_resting_def hdr_shape_def)
  have "lex_walk lextable_h1 0 (map parse_to_lower ?nm) = Done (Some (int 15))" by (subst lextable_walk_iff) code_simp
  then have hl: "header_line cx ah0 ?nm 15" using z(1) assms(12) by (simp add: header_line_def name_bytes_def methods_def)
  have nl: "length ?nm = 9" by (simp add: name_bytes_def)
  obtain ah1 where r1: "parse_run cx w ah0 (?nm @ v @ [13, 10]) = Some ah1" "line_start mx ah1" "hdr_val ah1 ?N = v" "flen ah1 ?N = length v"
      "ah_nfrag ah1 = ?N" "fnext ah1 ?N = 0" "hdr_keeps (ah_nfrag ah0) ah0 ah1" "ah_frag_index ah1 = (ah_frag_index ah0)[15 := ?N]"
      "ah_pos ah1 \<le> ah_pos ah0 + length v + 26" "hdr_links (ah_nfrag ah0) ah0 ah1" "hdr_nul ah1 ?N"
    using header_line_stored [OF assms(5) mx env lim hl assms(6,7), of w 0] room unfolding nl by auto
  have h1: "hdr_holds ah1 15 v" using r1(3-6,8,11) sz by (simp add: hdr_holds_def)
  have keep: "hdr_holds ah1 t u" if "hdr_holds ah0 t u" for t u by (rule hdr_holds_keeps [OF that r1(7,10)]) (simp add: r1(5))
  have f15: "\<forall>f\<in>set fs. field_token f \<noteq> 15" using assms(8) by (auto simp: list_all_iff field_ok_def)
  then have zf: "\<forall>f\<in>set fs. ah_frag_index ah1 ! field_token f = 0" using z(2) r1(8) by (metis nth_list_update_neq)
  obtain w' ah where r2: "parse_loop cx w ah1 (concat (map field_line fs) @ [13, 10] @ body) = Done (LPR_OK, w', body)" "hdr_parsing_completed w'"
      "http_ah w' = Some ah" "hdr_resting mx (ah_pos ah) ah" "\<forall>f\<in>set fs. hdr_holds ah (field_token f) (field_value f)"
      "\<forall>t v. hdr_holds ah1 t v \<longrightarrow> hdr_holds ah t v" "\<forall>t. t \<notin> field_token ` set fs \<longrightarrow> ah_frag_index ah ! t = ah_frag_index ah1 ! t"
      "hdr_apart ah1 \<longrightarrow> hdr_apart ah"
    using header_block_complete [OF mx env lim r1(2) assms(8,9) zf, of w body] r1(5,9) assms(12) room by auto
  have "lws_parse cx w ((?nm @ v @ [13, 10]) @ concat (map field_line fs) @ [13, 10] @ body) = Done (LPR_OK, w', body)"
    using parse_run_then [OF r1(1)] r2(1) assms(4) by (simp add: lws_parse_def name_bytes_def)
  moreover have "hdr_apart ah0 \<longrightarrow> hdr_apart ah" using hdr_apart_stored [OF assms(5) _ r1(8)] r2(8) by blast
  moreover have "\<forall>t. t \<notin> {15} \<union> field_token ` set fs \<longrightarrow> ah_frag_index ah ! t = ah_frag_index ah0 ! t" using r2(7) r1(8) by auto
  ultimately show ?thesis using r2 h1 keep by (intro exI [of _ w'] exI [of _ ah]) auto
qed

section \<open>A header that switches the sanitising off\<close>

lemma uri_args_line:
  assumes "http_env_ok cx" and "token_limits cx = None" and "length d = max_http_header_data cx" and "64 \<le> max_http_header_data cx"
  shows "\<exists>ah1. parse_run cx w (lws_header_table_reset (lws_create_ah d)) (name_bytes ''uri-args'' @ [13, 10]) = Some ah1 \<and>
    line_start (max_http_header_data cx) ah1 \<and> ah_nfrag ah1 = 1 \<and> ah_frag_index ah1 = (replicate 96 0)[76 := 1] \<and> ah_pos ah1 \<le> 25"
proof -
  let ?ah = "lws_header_table_reset (lws_create_ah d)" and ?u = "name_bytes ''uri-args''"
  note z = fresh_line_start [OF assms(1,3)]
  have "lex_walk lextable_h1 0 (map parse_to_lower ?u) = Done (Some (int 76))" by (subst lextable_walk_iff) code_simp
  then have "header_line cx ?ah ?u 76" using z by (simp add: header_line_def name_bytes_def methods_def)
  from header_line_stored [OF z(3) refl assms(1,2) this, of "[]" w 0] show ?thesis
    using assms(4) z unfolding append_Nil by (auto simp: name_bytes_def)
qed

text \<open>C34. The name table holds \<open>uri-args\<close>, an entry meant for the parser's own use.  A peer that sends it as a header line before
  the request line gives the URI arguments an index, and then \<open>lws_parse_urldecode\<close> takes the path for arguments: whatever
  follows the method is stored as it is, dot segments included.\<close>

theorem uri_args_header_defeats_sanitising:
  assumes "http_env_ok cx" and "token_limits cx = None" and "length d = max_http_header_data cx"
    and "http_ah w = Some (lws_header_table_reset (lws_create_ah d))"
    and "path \<noteq> []" and "set path \<inter> uri_special = {}" and "length path + 64 \<le> max_http_header_data cx" and "int (length path) < len"
  shows "\<exists>w'. lws_parse cx w (name_bytes ''uri-args'' @ [13, 10] @ name_bytes ''GET '' @ path @ [32]) = Done (LPR_OK, w', []) \<and>
    lws_hdr_copy (http_ah w') len 0 = Done (int (length path), path @ [0])"
proof -
  let ?mx = "max_http_header_data cx" and ?u = "name_bytes ''uri-args''" and ?g = "name_bytes ''GET ''"
  define ah where "ah = lws_header_table_reset (lws_create_ah d)"
  obtain ah1 where r1: "parse_run cx w ah (?u @ [13, 10]) = Some ah1" "line_start ?mx ah1" "ah_nfrag ah1 = 1"
      "ah_frag_index ah1 = (replicate 96 0)[76 := 1]" "ah_pos ah1 \<le> 25"
    using uri_args_line [OF assms(1-3), of w] assms(7) unfolding ah_def by auto
  have g: "lex_walk lextable_h1 0 (map parse_to_lower ?g) = Done (Some (int 0))" by (subst lextable_walk_iff) code_simp
  have n0: "in_name ?mx (mux_substream w) (ah_pos ah1 + 16) ah1 ah1"
    using r1(2) by (simp add: line_start_def in_name_def name_links_def)
  obtain ah2 where r2: "parse_run cx w ah1 ?g = Some ah2" "in_value ?mx 0 ah1 ah2" "cur_val ah2 = []" "ah_pos ah2 \<le> ah_pos ah1 + 20" "ah_ups ah2 = URIPS_IDLE"
    using name_run [OF refl assms(1,2) _ _ _ _ _ n0, of 0 ?g] g r1(2-5) assms(7) by (auto simp: line_start_def name_bytes_def)
  have x2: "ah_frag_index ah2 ! 76 \<noteq> 0" using r2(2) r1(4) by (auto simp: in_value_def)
  have m0: "0 \<in> set methods" by (simp add: methods_def)
  obtain ah3 where r3: "parse_run cx w ah2 path = Some ah3" "in_value ?mx 0 ah1 ah3" "cur_val ah3 = path" "ah_pos ah3 = ah_pos ah2 + length path" "ah_ups ah3 = URIPS_IDLE"
    using uri_args_run [OF refl m0 r2(2) assms(6) x2 r2(5), of w] r1(5) r2(3,4) assms(7) by auto
  have a3: "ah_pos ah3 < ?mx" "ah_ups ah3 \<noteq> URIPS_SEEN_SLASH_DOT_DOT" using r1(5) r2(4) r3(4,5) assms(7) by auto
  obtain b ah4 where r4: "parse_char cx w 32 ah3 = Done (Next ah4)" "in_value ?mx 15 b ah4" "hdr_val b (ah_nfrag ah1 + 1) = path"
      "ah_nfrag b = ah_nfrag ah1 + 1" "ah_frag_index b = (ah_frag_index ah1)[0 := ah_nfrag ah1 + 1]" "fnext b (ah_nfrag ah1 + 1) = 0"
      "flen b (ah_nfrag ah1 + 1) = length path" "hdr_nul b (ah_nfrag ah1 + 1)"
    using uri_end_value [OF r3(2) refl m0 a3 _ _ _ assms(1), of w] r1(3,4) r3(3) assms(5) by auto
  have "hdr_holds b 0 path" using r4(3-8) r1(3,4) by (simp add: hdr_holds_def)
  then have h: "hdr_holds ah4 0 path" using hdr_holds_keeps r4(2) by (auto simp: in_value_def)
  note D = hdr_collectingD [OF in_valueD(1) [OF r4(2)]]
  have "lws_hdr_copy (Some ah4) len 0 = Done (int (length path), path @ [0])"
    using lws_hdr_copy_laid [OF h D(1) D(3) _ _ assms(5) _ assms(8)] r4(2,4,5) r1(3,4) assms(6)
    by (auto simp: in_value_def uri_special_def)
  moreover have "parse_run cx w ah (?u @ [13, 10] @ ?g @ path @ [32]) = Some ah4"
  proof -
    have "parse_run cx w ah ((?u @ [13, 10]) @ ?g @ path @ [32]) = Some ah4"
      unfolding parse_run_append [of cx w ah "?u @ [13, 10]"] r1(1) option.case parse_run_append [of cx w ah1 ?g] r2(1)
        parse_run_append [of cx w ah2 path] r3(1) using r4(1) by simp
    then show ?thesis by simp
  qed
  ultimately show ?thesis using parse_run_loop assms(4) by (auto simp: lws_parse_def ah_def)
qed

theorem uri_args_header_defeats_sanitising_witness:
  "\<exists>w'. lws_parse (http_cx 128) (http_fresh 128) (name_bytes ''uri-args'' @ [13, 10] @ name_bytes ''GET '' @ name_bytes ''/../../etc/passwd'' @ [32])
      = Done (LPR_OK, w', []) \<and>
    lws_hdr_copy (http_ah w') 99 0 = Done (int (length (name_bytes ''/../../etc/passwd'')), name_bytes ''/../../etc/passwd'' @ [0])"
  by (rule uri_args_header_defeats_sanitising [of "http_cx 128" "replicate 128 0"])
    (simp_all add: http_env_ok_def http_cx_def http_fresh_def name_bytes_def uri_special_def)

end
