(* ===== verification/Lws_Tokenize.thy ===== *)
theory Lws_Tokenize
  imports Lws_Utf8
begin

text \<open>
  The string tokenizer of \<open>core/libwebsockets.c\<close>, which the opening handshake uses on the \<open>Connection\<close> and
  \<open>Sec-WebSocket-Protocol\<close> headers.  It works in place: a \<open>struct lws_tokenize\<close> points into the text, and every call
  moves on and leaves the token it found as a range of the text.
\<close>

section \<open>Data\<close>

datatype tokenize_flag =
    LWS_TOKENIZE_F_MINUS_NONTERM
  | LWS_TOKENIZE_F_AGG_COLON
  | LWS_TOKENIZE_F_COMMA_SEP_LIST
  | LWS_TOKENIZE_F_RFC7230_DELIMS
  | LWS_TOKENIZE_F_DOT_NONTERM
  | LWS_TOKENIZE_F_NO_FLOATS
  | LWS_TOKENIZE_F_NO_INTEGERS
  | LWS_TOKENIZE_F_HASH_COMMENT
  | LWS_TOKENIZE_F_SLASH_NONTERM
  | LWS_TOKENIZE_F_ASTERISK_NONTERM
  | LWS_TOKENIZE_F_EQUALS_NONTERM

datatype lws_tokenize_elem =
    LWS_TOKZE_ERR_BROKEN_UTF8
  | LWS_TOKZE_ERR_UNTERM_STRING
  | LWS_TOKZE_ERR_MALFORMED_FLOAT
  | LWS_TOKZE_ERR_NUM_ON_LHS
  | LWS_TOKZE_ERR_COMMA_LIST
  | LWS_TOKZE_ENDED
  | LWS_TOKZE_DELIMITER
  | LWS_TOKZE_TOKEN
  | LWS_TOKZE_INTEGER
  | LWS_TOKZE_FLOAT
  | LWS_TOKZE_TOKEN_NAME_EQUALS
  | LWS_TOKZE_TOKEN_NAME_COLON
  | LWS_TOKZE_QUOTED_STRING

datatype lws_tokenize_delimiter_tracking = LWSTZ_DT_NEED_FIRST_CONTENT | LWSTZ_DT_NEED_DELIM | LWSTZ_DT_NEED_NEXT_CONTENT

text \<open>The text is the memory from its first byte to the end of the object it is in; \<open>start\<close> and \<open>token\<close> are offsets.\<close>

record lws_tokenize_t =
  tz_text :: "int list"
  tz_start :: nat
  tz_len :: nat
  tz_token :: "nat option"
  tz_token_len :: nat
  tz_flags :: "tokenize_flag list"
  tz_delim :: lws_tokenize_delimiter_tracking

datatype lws_tokenize_state =
    LWS_TOKZS_LEADING_WHITESPACE
  | LWS_TOKZS_QUOTED_STRING
  | LWS_TOKZS_TOKEN
  | LWS_TOKZS_TOKEN_POST_TERMINAL

text \<open>The variables of one call.\<close>

record tokz_local =
  tl_state :: lws_tokenize_state
  tl_num :: int
  tl_flo :: bool
  tl_utf8 :: u8
  tl_skipping :: bool

section \<open>One call\<close>

abbreviation tz_flag :: "lws_tokenize_t \<Rightarrow> tokenize_flag \<Rightarrow> bool" where "tz_flag ts f \<equiv> f \<in> set (tz_flags ts)"

definition rfc7230_delims :: "int list" where
  "rfc7230_delims = [40, 41, 44, 47, 58, 59, 60, 61, 62, 63, 64, 91, 92, 93, 123, 125]"

text \<open>The four optional characters, each a delimiter by default or, with its flag, part of a token.  The zero of the other
  case never equals a character here, since the loop stops at NUL.\<close>

definition tokz_opt :: "lws_tokenize_t \<Rightarrow> int \<Rightarrow> bool" where
  "tokz_opt ts c \<longleftrightarrow>
     c = 45 \<and> tz_flag ts LWS_TOKENIZE_F_MINUS_NONTERM \<or> c = 46 \<and> tz_flag ts LWS_TOKENIZE_F_DOT_NONTERM \<or>
     c = 42 \<and> tz_flag ts LWS_TOKENIZE_F_ASTERISK_NONTERM \<or> c = 61 \<and> tz_flag ts LWS_TOKENIZE_F_EQUALS_NONTERM"

definition tokz_opt_delim :: "lws_tokenize_t \<Rightarrow> int \<Rightarrow> bool" where
  "tokz_opt_delim ts c \<longleftrightarrow> c \<in> {45, 46, 42, 61} \<and> \<not> tokz_opt ts c"

definition tokz_is_delim :: "lws_tokenize_t \<Rightarrow> u8 \<Rightarrow> int \<Rightarrow> bool" where
  "tokz_is_delim ts utf8 c \<longleftrightarrow>
     utf8 = 0 \<and>
     (tz_flag ts LWS_TOKENIZE_F_RFC7230_DELIMS \<and> c \<in> set rfc7230_delims \<and> c > 32 \<or>
      (\<not> tz_flag ts LWS_TOKENIZE_F_RFC7230_DELIMS \<and> (c < 48 \<or> c > 57) \<and> (c < 65 \<or> c > 90) \<and> (c < 97 \<or> c > 122) \<and> c \<noteq> 95) \<and>
        \<not> tokz_opt ts c \<or>
      tokz_opt_delim ts c) \<and>
     \<not> (tz_flag ts LWS_TOKENIZE_F_SLASH_NONTERM \<and> c = 47)"

definition token_or_numeric :: "tokz_local \<Rightarrow> lws_tokenize_elem" where
  "token_or_numeric l = (if tl_num l \<noteq> 1 then LWS_TOKZE_TOKEN else if tl_flo l then LWS_TOKZE_FLOAT else LWS_TOKZE_INTEGER)"

definition tokz_checknum :: "lws_tokenize_t \<Rightarrow> int \<Rightarrow> tokz_local \<Rightarrow> tokz_local" where
  "tokz_checknum ts c l =
     (if tz_flag ts LWS_TOKENIZE_F_NO_INTEGERS then l
      else if c < 48 \<or> c > 57 then l\<lparr>tl_num := 0\<rparr>
      else if tl_num l < 0 then l\<lparr>tl_num := 1\<rparr> else l)"

text \<open>\<open>ts->start--; ts->len++\<close>: the character is reported by the next call.\<close>

definition tokz_unread :: "lws_tokenize_t \<Rightarrow> lws_tokenize_t" where
  "tokz_unread ts = ts\<lparr>tz_start := tz_start ts - 1, tz_len := tz_len ts + 1\<rparr>"

text \<open>What the loop does with a character: return, or go on.\<close>

datatype tokz_step = Tz_return lws_tokenize_elem lws_tokenize_t | Tz_continue lws_tokenize_t tokz_local

definition tokz_white :: "lws_tokenize_t \<Rightarrow> tokz_local \<Rightarrow> tokz_step" where
  "tokz_white ts l =
     (case tl_state l of
        LWS_TOKZS_LEADING_WHITESPACE \<Rightarrow> Tz_continue ts l
      | LWS_TOKZS_TOKEN_POST_TERMINAL \<Rightarrow> Tz_continue ts l
      | LWS_TOKZS_QUOTED_STRING \<Rightarrow> Tz_continue (ts\<lparr>tz_token_len := tz_token_len ts + 1\<rparr>) l
      | LWS_TOKZS_TOKEN \<Rightarrow> Tz_continue ts (l\<lparr>tl_state := LWS_TOKZS_TOKEN_POST_TERMINAL\<rparr>))"

definition tokz_quote :: "lws_tokenize_t \<Rightarrow> tokz_local \<Rightarrow> tokz_step" where
  "tokz_quote ts l =
     (if tl_state l = LWS_TOKZS_QUOTED_STRING then Tz_return LWS_TOKZE_QUOTED_STRING ts
      else if tz_flag ts LWS_TOKENIZE_F_COMMA_SEP_LIST \<and> tz_delim ts = LWSTZ_DT_NEED_DELIM then Tz_return LWS_TOKZE_ERR_COMMA_LIST ts
      else
        let ts = (if tz_flag ts LWS_TOKENIZE_F_COMMA_SEP_LIST then ts\<lparr>tz_delim := LWSTZ_DT_NEED_DELIM\<rparr> else ts)
        in Tz_continue (ts\<lparr>tz_token := Some (tz_start ts), tz_token_len := 0\<rparr>) (l\<lparr>tl_state := LWS_TOKZS_QUOTED_STRING\<rparr>))"

definition tokz_delim :: "lws_tokenize_t \<Rightarrow> int \<Rightarrow> tokz_local \<Rightarrow> tokz_step" where
  "tokz_delim ts c l =
     (case tl_state l of
        LWS_TOKZS_LEADING_WHITESPACE \<Rightarrow>
          if tz_flag ts LWS_TOKENIZE_F_COMMA_SEP_LIST \<and> (c \<noteq> 44 \<or> tz_delim ts \<noteq> LWSTZ_DT_NEED_DELIM) then
            Tz_return LWS_TOKZE_ERR_COMMA_LIST ts
          else
            let ts = (if tz_flag ts LWS_TOKENIZE_F_COMMA_SEP_LIST then ts\<lparr>tz_delim := LWSTZ_DT_NEED_NEXT_CONTENT\<rparr> else ts)
            in Tz_return LWS_TOKZE_DELIMITER (ts\<lparr>tz_token := Some (tz_start ts - 1), tz_token_len := 1\<rparr>)
      | LWS_TOKZS_QUOTED_STRING \<Rightarrow> Tz_continue (ts\<lparr>tz_token_len := tz_token_len ts + 1\<rparr>) l
      | _ \<Rightarrow> Tz_return (token_or_numeric l) (tokz_unread ts))"

definition tokz_payload :: "lws_tokenize_t \<Rightarrow> int \<Rightarrow> tokz_local \<Rightarrow> tokz_step" where
  "tokz_payload ts c l =
     (case tl_state l of
        LWS_TOKZS_LEADING_WHITESPACE \<Rightarrow>
          if tz_flag ts LWS_TOKENIZE_F_COMMA_SEP_LIST \<and> tz_delim ts = LWSTZ_DT_NEED_DELIM then Tz_return LWS_TOKZE_ERR_COMMA_LIST ts
          else
            let ts = (if tz_flag ts LWS_TOKENIZE_F_COMMA_SEP_LIST then ts\<lparr>tz_delim := LWSTZ_DT_NEED_DELIM\<rparr> else ts)
            in Tz_continue (ts\<lparr>tz_token := Some (tz_start ts - 1), tz_token_len := 1\<rparr>)
                 (tokz_checknum ts c (l\<lparr>tl_state := LWS_TOKZS_TOKEN\<rparr>))
      | LWS_TOKZS_TOKEN_POST_TERMINAL \<Rightarrow> Tz_return (token_or_numeric l) (tokz_unread ts)
      | _ \<Rightarrow> Tz_continue (ts\<lparr>tz_token_len := tz_token_len ts + 1\<rparr>) (tokz_checknum ts c l))"

definition tokz_char :: "lws_tokenize_t \<Rightarrow> int \<Rightarrow> tokz_local \<Rightarrow> tokz_step" where
  "tokz_char ts c l =
     (if tl_skipping l \<and> c \<noteq> 13 \<and> c \<noteq> 10 then Tz_continue ts l
      else
        let l = l\<lparr>tl_skipping := False\<rparr>;
            in_token = (tl_state l = LWS_TOKZS_TOKEN_POST_TERMINAL \<or> tl_state l = LWS_TOKZS_TOKEN)
        in if tz_flag ts LWS_TOKENIZE_F_HASH_COMMENT \<and> tl_state l \<noteq> LWS_TOKZS_QUOTED_STRING \<and> c = 35 then
             Tz_continue ts (l\<lparr>tl_skipping := True\<rparr>)
           else if c = 32 \<or> c = 9 \<or> c = 10 \<or> c = 13 \<or> c = 12 then tokz_white ts l
           else if c = 34 then tokz_quote ts l
           else if \<not> tz_flag ts LWS_TOKENIZE_F_EQUALS_NONTERM \<and> c = 61 \<and> in_token then
             Tz_return (if tl_num l = 1 then LWS_TOKZE_ERR_NUM_ON_LHS else LWS_TOKZE_TOKEN_NAME_EQUALS) ts
           else if tz_flag ts LWS_TOKENIZE_F_AGG_COLON \<and> c = 58 \<and> in_token then Tz_return LWS_TOKZE_TOKEN_NAME_COLON ts
           else if c = 46 \<and> \<not> tz_flag ts LWS_TOKENIZE_F_NO_FLOATS \<and> tl_state l = LWS_TOKZS_TOKEN \<and> tl_num l = 1 then
             if tl_flo l then Tz_return LWS_TOKZE_ERR_MALFORMED_FLOAT ts
             else Tz_continue (ts\<lparr>tz_token_len := tz_token_len ts + 1\<rparr>) (l\<lparr>tl_flo := True\<rparr>)
           else if tokz_is_delim ts (tl_utf8 l) c then tokz_delim ts c l
           else tokz_payload ts c l)"

definition tokz_end :: "lws_tokenize_t \<Rightarrow> tokz_local \<Rightarrow> lws_tokenize_elem" where
  "tokz_end ts l =
     (if tl_utf8 l \<noteq> 0 then LWS_TOKZE_ERR_BROKEN_UTF8
      else
        case tl_state l of
          LWS_TOKZS_QUOTED_STRING \<Rightarrow> LWS_TOKZE_ERR_UNTERM_STRING
        | LWS_TOKZS_LEADING_WHITESPACE \<Rightarrow>
            if tz_flag ts LWS_TOKENIZE_F_COMMA_SEP_LIST \<and> tz_delim ts = LWSTZ_DT_NEED_NEXT_CONTENT then LWS_TOKZE_ERR_COMMA_LIST
            else LWS_TOKZE_ENDED
        | _ \<Rightarrow> token_or_numeric l)"

lemma tokz_char_len: "tokz_char ts c l = Tz_continue ts' l' \<Longrightarrow> tz_len ts' = tz_len ts"
  by (auto simp: tokz_char_def tokz_white_def tokz_quote_def tokz_delim_def tokz_payload_def Let_def
      split: if_splits lws_tokenize_state.splits)

function tokz_loop :: "lws_tokenize_t \<Rightarrow> tokz_local \<Rightarrow> (lws_tokenize_elem \<times> lws_tokenize_t) outcome" where
  "tokz_loop ts l =
     (if tz_len ts = 0 then Done (tokz_end ts l, ts)
      else if \<not> tz_start ts < length (tz_text ts) then Fault
      else
        let c = tz_text ts ! tz_start ts;
            ts = ts\<lparr>tz_start := tz_start ts + 1, tz_len := tz_len ts - 1\<rparr>;
            utf8 = lws_check_byte_utf8 (tl_utf8 l) (word_of_int c)
        in if utf8 < 0 then Done (LWS_TOKZE_ERR_BROKEN_UTF8, ts)
           else
             let l = l\<lparr>tl_utf8 := word_of_int utf8\<rparr>
             in if c = 0 then Done (tokz_end ts l, ts)
                else case tokz_char ts c l of Tz_return e ts \<Rightarrow> Done (e, ts) | Tz_continue ts l \<Rightarrow> tokz_loop ts l)"
  by pat_completeness auto
termination
  by (relation "measure (\<lambda>(ts, l). tz_len ts)") (auto dest: tokz_char_len)

declare tokz_loop.simps [simp del]

definition lws_tokenize :: "lws_tokenize_t \<Rightarrow> (lws_tokenize_elem \<times> lws_tokenize_t) outcome" where
  "lws_tokenize ts =
     tokz_loop (ts\<lparr>tz_token := None, tz_token_len := 0\<rparr>)
       \<lparr>tl_state = LWS_TOKZS_LEADING_WHITESPACE, tl_num = (if tz_flag ts LWS_TOKENIZE_F_NO_INTEGERS then 0 else -1), tl_flo = False,
        tl_utf8 = 0, tl_skipping = False\<rparr>"

text \<open>\<open>memcpy\<close> from a null token is undefined behaviour, unless nothing is copied.\<close>

definition lws_tokenize_cstr :: "lws_tokenize_t \<Rightarrow> nat \<Rightarrow> int list option outcome" where
  "lws_tokenize_cstr ts mx =
     (if tz_token_len ts + 1 \<ge> mx then Done None
      else
        case tz_token ts of
          None \<Rightarrow> if tz_token_len ts = 0 then Done (Some [0]) else Fault
        | Some t \<Rightarrow> bind_outcome (mem_load (tz_text ts) t (tz_token_len ts)) (\<lambda>xs. Done (Some (xs @ [0]))))"

definition lws_tokenize_init :: "int list \<Rightarrow> tokenize_flag list \<Rightarrow> lws_tokenize_t" where
  "lws_tokenize_init text flags =
     \<lparr>tz_text = text, tz_start = 0, tz_len = 0x7fffffff, tz_token = None, tz_token_len = 0, tz_flags = flags,
      tz_delim = LWSTZ_DT_NEED_FIRST_CONTENT\<rparr>"

section \<open>Ranges and progress\<close>

definition tokz_found :: "lws_tokenize_elem \<Rightarrow> bool" where
  "tokz_found e \<longleftrightarrow> e \<in> {LWS_TOKZE_DELIMITER, LWS_TOKZE_TOKEN, LWS_TOKZE_INTEGER, LWS_TOKZE_FLOAT, LWS_TOKZE_TOKEN_NAME_EQUALS,
     LWS_TOKZE_TOKEN_NAME_COLON, LWS_TOKZE_QUOTED_STRING}"

text \<open>Between two characters of a call that began at \<open>s\<close>: the token so far lies between \<open>s\<close> and the next character.\<close>

definition tokz_ok :: "nat \<Rightarrow> nat \<Rightarrow> lws_tokenize_t \<Rightarrow> tokz_local \<Rightarrow> bool" where
  "tokz_ok s p ts l \<longleftrightarrow> s \<le> p \<and>
     (case tl_state l of
        LWS_TOKZS_LEADING_WHITESPACE \<Rightarrow> True
      | LWS_TOKZS_QUOTED_STRING \<Rightarrow> \<exists>t. tz_token ts = Some t \<and> s < t \<and> t + tz_token_len ts \<le> p
      | _ \<Rightarrow> \<exists>t. tz_token ts = Some t \<and> s \<le> t \<and> 1 \<le> tz_token_len ts \<and> t + tz_token_len ts \<le> p)"

definition tokz_ret :: "nat \<Rightarrow> nat \<Rightarrow> lws_tokenize_elem \<Rightarrow> lws_tokenize_t \<Rightarrow> lws_tokenize_t \<Rightarrow> bool" where
  "tokz_ret s p e ts ts' \<longleftrightarrow> tz_text ts' = tz_text ts \<and> tz_flags ts' = tz_flags ts \<and> tz_start ts' + tz_len ts' = tz_start ts + tz_len ts \<and> p \<le> tz_start ts' \<and>
     (tokz_found e \<longrightarrow> s < tz_start ts' \<and> (\<exists>t. tz_token ts' = Some t \<and> s \<le> t \<and> t + tz_token_len ts' \<le> tz_start ts'))"

lemma tokz_found_numeric [simp]: "tokz_found (token_or_numeric l)"
  by (simp add: tokz_found_def token_or_numeric_def)

lemmas tokz_parts = tokz_white_def tokz_quote_def tokz_delim_def tokz_payload_def tokz_unread_def tokz_checknum_def Let_def

lemma tokz_white_ok:
  assumes "tokz_ok s p ts l" and "tz_start ts = p + 1"
  shows "\<exists>ts' l'. tokz_white ts l = Tz_continue ts' l' \<and> tokz_ok s (p + 1) ts' l' \<and> tz_text ts' = tz_text ts \<and> tz_flags ts' = tz_flags ts \<and>
    tz_start ts' = tz_start ts \<and> tz_len ts' = tz_len ts"
  using assms by (auto simp: tokz_white_def tokz_ok_def split: lws_tokenize_state.splits)

definition tokz_fine :: "nat \<Rightarrow> nat \<Rightarrow> lws_tokenize_t \<Rightarrow> tokz_step \<Rightarrow> bool" where
  "tokz_fine s p ts r \<longleftrightarrow>
     (case r of
        Tz_return e ts' \<Rightarrow> tokz_ret s p e ts ts'
      | Tz_continue ts' l' \<Rightarrow> tokz_ok s (p + 1) ts' l' \<and> tz_text ts' = tz_text ts \<and> tz_flags ts' = tz_flags ts \<and> tz_start ts' = tz_start ts \<and> tz_len ts' = tz_len ts)"

lemma tokz_parts_fine:
  assumes "tokz_ok s p ts l" and "tz_start ts = p + 1"
  shows "tokz_fine s p ts (tokz_white ts l)" and "tokz_fine s p ts (tokz_quote ts l)" and "tokz_fine s p ts (tokz_delim ts c l)"
    and "tokz_fine s p ts (tokz_payload ts c l)"
  using assms
  by (auto simp: tokz_parts tokz_fine_def tokz_ok_def tokz_ret_def tokz_found_def split: lws_tokenize_state.splits if_splits)

lemma tokz_char_fine:
  assumes "tokz_ok s p ts l" and "tz_start ts = p + 1"
  shows "tokz_fine s p ts (tokz_char ts c l)"
proof -
  define l1 where "l1 = l\<lparr>tl_skipping := False\<rparr>"
  have ok: "tokz_ok s p ts l1" "tokz_ok s (p + 1) ts l1" "tokz_ok s (p + 1) ts l" using assms(1) by (auto simp: tokz_ok_def l1_def split: lws_tokenize_state.splits)
  note F = tokz_parts_fine [OF ok(1) assms(2)]
  have c: "tokz_fine s p ts (Tz_continue ts l)" "tokz_fine s p ts (Tz_continue ts (l1\<lparr>tl_skipping := True\<rparr>))"
    using ok by (auto simp: tokz_fine_def tokz_ok_def)
  have t: "tokz_fine s p ts (Tz_return e ts)" if "tl_state l1 = LWS_TOKZS_TOKEN_POST_TERMINAL \<or> tl_state l1 = LWS_TOKZS_TOKEN" for e
    using that ok(1) assms(2) by (auto simp: tokz_fine_def tokz_ok_def tokz_ret_def)
  have f: "tokz_fine s p ts (Tz_continue (ts\<lparr>tz_token_len := tz_token_len ts + 1\<rparr>) (l1\<lparr>tl_flo := True\<rparr>))" if "tl_state l1 = LWS_TOKZS_TOKEN"
    using that ok(1) assms(2) by (auto simp: tokz_fine_def tokz_ok_def)
  show ?thesis unfolding tokz_char_def Let_def l1_def [symmetric] using F c t f by (simp split: if_splits)
qed

lemma tokz_end_found: "tokz_ok s p ts l \<Longrightarrow> tokz_found (tokz_end ts l) \<Longrightarrow>
    s < p \<and> (\<exists>t. tz_token ts = Some t \<and> s \<le> t \<and> t + tz_token_len ts \<le> p)"
  by (auto simp: tokz_end_def tokz_ok_def tokz_found_def split: lws_tokenize_state.splits if_splits)

lemma tokz_loop_ok:
  "tokz_ok s (tz_start ts) ts l \<Longrightarrow>
   (\<exists>e ts'. tokz_loop ts l = Done (e, ts') \<and> tokz_ret s (tz_start ts) e ts ts') \<or>
   tokz_loop ts l = Fault \<and> length (tz_text ts) < tz_start ts + tz_len ts"
proof (induction ts l rule: tokz_loop.induct)
  case (1 ts l)
  show ?case
  proof (cases "tz_len ts = 0")
    case True
    then have "tokz_loop ts l = Done (tokz_end ts l, ts)" by (subst tokz_loop.simps) simp
    then show ?thesis using tokz_end_found [OF "1.prems"] by (auto simp: tokz_ret_def)
  next
    case False
    note len = this
    show ?thesis
    proof (cases "tz_start ts < length (tz_text ts)")
      case False
      have "tokz_loop ts l = Fault" using False len by (subst tokz_loop.simps) simp
      then show ?thesis using False len by simp
    next
      case b: True
      note False = len
      define c ts1 utf8 where "c = tz_text ts ! tz_start ts" and "ts1 = ts\<lparr>tz_start := tz_start ts + 1, tz_len := tz_len ts - 1\<rparr>"
        and "utf8 = lws_check_byte_utf8 (tl_utf8 l) (word_of_int c)"
      define l1 where "l1 = l\<lparr>tl_utf8 := word_of_int utf8\<rparr>"
      have ok: "tokz_ok s (tz_start ts) ts1 l1" using "1.prems" by (auto simp: ts1_def l1_def tokz_ok_def split: lws_tokenize_state.splits)
      have e: "tokz_loop ts l = (if utf8 < 0 then Done (LWS_TOKZE_ERR_BROKEN_UTF8, ts1) else if c = 0 then Done (tokz_end ts1 l1, ts1)
          else case tokz_char ts1 c l1 of Tz_return e ts \<Rightarrow> Done (e, ts) | Tz_continue ts l \<Rightarrow> tokz_loop ts l)"
        using False b by (subst tokz_loop.simps) (simp add: c_def ts1_def utf8_def l1_def Let_def)
      have ret: "tokz_ret s (tz_start ts) e ts ts'" if "tokz_ret s p e ts1 ts'" "tz_start ts \<le> p" for p e ts'
        using that False by (auto simp: tokz_ret_def ts1_def)
      have br: "tokz_ret s (tz_start ts) LWS_TOKZE_ERR_BROKEN_UTF8 ts ts1" using False by (simp add: tokz_ret_def ts1_def tokz_found_def)
      have en: "tokz_ret s (tz_start ts) (tokz_end ts1 l1) ts ts1"
        using tokz_end_found [OF ok] False by (auto simp: tokz_ret_def ts1_def)
      have fine: "tokz_fine s (tz_start ts) ts1 (tokz_char ts1 c l1)" using tokz_char_fine [OF ok] by (simp add: ts1_def)
      show ?thesis
      proof (cases "utf8 < 0 \<or> c = 0")
        case True
        then show ?thesis using e br en by auto
      next
        case go: False
        show ?thesis
        proof (cases "tokz_char ts1 c l1")
          case (Tz_return e' ts')
          then show ?thesis using e go fine ret by (auto simp: tokz_fine_def)
        next
          case (Tz_continue ts' l')
          have f: "tokz_ok s (tz_start ts') ts' l'" "tz_text ts' = tz_text ts1" "tz_flags ts' = tz_flags ts1" "tz_start ts' = tz_start ts1" "tz_len ts' = tz_len ts1"
            using fine Tz_continue by (auto simp: tokz_fine_def ts1_def)
          have r: "tokz_loop ts l = tokz_loop ts' l'" using e go Tz_continue by simp
          have "(\<exists>e' ts''. tokz_loop ts' l' = Done (e', ts'') \<and> tokz_ret s (tz_start ts') e' ts' ts'') \<or>
              tokz_loop ts' l' = Fault \<and> length (tz_text ts') < tz_start ts' + tz_len ts'"
            using "1.IH" [OF False _ c_def ts1_def utf8_def _ l1_def _ Tz_continue] go b f(1) by auto
          then show ?thesis unfolding r using f False by (auto simp: tokz_ret_def ts1_def)
        qed
      qed
    qed
  qed
qed

lemma lws_tokenize_cases:
  "(\<exists>e ts'. lws_tokenize ts = Done (e, ts') \<and> tz_text ts' = tz_text ts \<and> tz_flags ts' = tz_flags ts \<and> tz_start ts \<le> tz_start ts' \<and>
    tz_start ts' + tz_len ts' = tz_start ts + tz_len ts \<and>
    (tokz_found e \<longrightarrow> tz_len ts' < tz_len ts \<and>
      (\<exists>t. tz_token ts' = Some t \<and> tz_start ts \<le> t \<and> t + tz_token_len ts' \<le> tz_start ts'))) \<or>
   lws_tokenize ts = Fault \<and> length (tz_text ts) < tz_start ts + tz_len ts"
proof -
  let ?ts = "ts\<lparr>tz_token := None, tz_token_len := 0\<rparr>"
  let ?l = "\<lparr>tl_state = LWS_TOKZS_LEADING_WHITESPACE, tl_num = (if tz_flag ts LWS_TOKENIZE_F_NO_INTEGERS then 0 else -1), tl_flo = False,
    tl_utf8 = 0, tl_skipping = False\<rparr>"
  have "tokz_ok (tz_start ts) (tz_start ?ts) ?ts ?l" by (simp add: tokz_ok_def)
  then consider e ts' where "lws_tokenize ts = Done (e, ts')" "tokz_ret (tz_start ts) (tz_start ?ts) e ?ts ts'"
    | "lws_tokenize ts = Fault" "length (tz_text ts) < tz_start ts + tz_len ts"
    unfolding lws_tokenize_def using tokz_loop_ok [of "tz_start ts" ?ts ?l] by auto
  then show ?thesis
  proof cases
    case 1
    then have "tz_text ts' = tz_text ts" "tz_flags ts' = tz_flags ts" "tz_start ts \<le> tz_start ts'" "tz_start ts' + tz_len ts' = tz_start ts + tz_len ts"
        "tokz_found e \<longrightarrow> tz_start ts < tz_start ts' \<and> (\<exists>t. tz_token ts' = Some t \<and> tz_start ts \<le> t \<and> t + tz_token_len ts' \<le> tz_start ts')"
      by (simp_all add: tokz_ret_def)
    then show ?thesis using 1(1) by (intro disjI1 exI [of _ e] exI [of _ ts']) auto
  qed simp
qed

lemma lws_tokenize_shrinks: "lws_tokenize ts = Done (e, ts') \<Longrightarrow> tokz_found e \<Longrightarrow> tz_len ts' < tz_len ts"
  using lws_tokenize_cases [of ts] by auto

text \<open>C18. A call stays inside the text it was given, always returns, and moves on: what it found, if anything, is a range of the
  text between where the call began and where the next one will, and the next call begins further on, so that a caller's
  loop over the tokens ends.\<close>

theorem lws_tokenize_in_text:
  assumes "tz_start ts + tz_len ts \<le> length (tz_text ts)"
  shows "\<exists>e ts'. lws_tokenize ts = Done (e, ts') \<and> tz_text ts' = tz_text ts \<and> tz_start ts \<le> tz_start ts' \<and>
    tz_start ts' + tz_len ts' = tz_start ts + tz_len ts \<and>
    (tokz_found e \<longrightarrow> tz_len ts' < tz_len ts \<and>
      (\<exists>t. tz_token ts' = Some t \<and> tz_start ts \<le> t \<and> t + tz_token_len ts' \<le> tz_start ts'))"
  using lws_tokenize_cases [of ts] assms by fastforce

theorem lws_tokenize_in_text_witness:
  "let ts = (lws_tokenize_init [97, 44, 32, 98] [LWS_TOKENIZE_F_COMMA_SEP_LIST])\<lparr>tz_len := 4\<rparr> in
   \<exists>e ts'. lws_tokenize ts = Done (e, ts') \<and> tz_text ts' = tz_text ts \<and> tz_start ts \<le> tz_start ts' \<and>
    tz_start ts' + tz_len ts' = tz_start ts + tz_len ts \<and>
    (tokz_found e \<longrightarrow> tz_len ts' < tz_len ts \<and>
      (\<exists>t. tz_token ts' = Some t \<and> tz_start ts \<le> t \<and> t + tz_token_len ts' \<le> tz_start ts'))"
  unfolding Let_def by (rule lws_tokenize_in_text) (simp add: lws_tokenize_init_def)

section \<open>Comma separated lists\<close>

text \<open>What a call may still read, and that it begins with \<open>xs\<close>.\<close>

definition tz_rest :: "lws_tokenize_t \<Rightarrow> int list" where
  "tz_rest ts = take (tz_len ts) (drop (tz_start ts) (tz_text ts))"

definition tz_sees :: "lws_tokenize_t \<Rightarrow> int list \<Rightarrow> bool" where
  "tz_sees ts xs \<longleftrightarrow> take (length xs) (tz_rest ts) = xs"

definition tz_adv :: "nat \<Rightarrow> lws_tokenize_t \<Rightarrow> lws_tokenize_t" where
  "tz_adv n ts = ts\<lparr>tz_start := tz_start ts + n, tz_len := tz_len ts - n\<rparr>"

lemma tz_adv_simps [simp]:
  "tz_text (tz_adv n ts) = tz_text ts" "tz_flags (tz_adv n ts) = tz_flags ts" "tz_delim (tz_adv n ts) = tz_delim ts"
  "tz_token (tz_adv n ts) = tz_token ts" "tz_token_len (tz_adv n ts) = tz_token_len ts" "tz_start (tz_adv n ts) = tz_start ts + n"
  "tz_len (tz_adv n ts) = tz_len ts - n" "tz_adv m (tz_adv n ts) = tz_adv (n + m) ts" "tz_adv 0 ts = ts"
  "tz_adv n (ts\<lparr>tz_token := t\<rparr>) = (tz_adv n ts)\<lparr>tz_token := t\<rparr>" "tz_adv n (ts\<lparr>tz_token_len := k\<rparr>) = (tz_adv n ts)\<lparr>tz_token_len := k\<rparr>"
  "tz_adv n (ts\<lparr>tz_delim := d\<rparr>) = (tz_adv n ts)\<lparr>tz_delim := d\<rparr>"
  by (simp_all add: tz_adv_def add.assoc)

lemma tz_sees_fields [simp]:
  "tz_sees (ts\<lparr>tz_token := t\<rparr>) = tz_sees ts" "tz_sees (ts\<lparr>tz_token_len := k\<rparr>) = tz_sees ts" "tz_sees (ts\<lparr>tz_delim := d\<rparr>) = tz_sees ts"
  by (simp_all add: tz_sees_def tz_rest_def fun_eq_iff)

lemma tz_sees_len: "tz_sees ts xs \<Longrightarrow> length xs \<le> tz_len ts \<and> tz_start ts + length xs \<le> length (tz_text ts) \<or> xs = []"
proof -
  assume "tz_sees ts xs"
  then have "length (take (length xs) (tz_rest ts)) = length xs" by (simp add: tz_sees_def)
  then show ?thesis by (cases xs) (auto simp: tz_rest_def min_def split: if_splits)
qed

lemma tz_sees_adv: "tz_sees ts (xs @ ys) \<Longrightarrow> tz_sees (tz_adv (length xs) ts) ys"
proof -
  assume a: "tz_sees ts (xs @ ys)"
  have "tz_rest (tz_adv (length xs) ts) = drop (length xs) (tz_rest ts)" by (simp add: tz_rest_def drop_take add.commute)
  moreover have "take (length ys) (drop (length xs) (tz_rest ts)) = drop (length xs) (take (length (xs @ ys)) (tz_rest ts))" by (simp add: drop_take)
  ultimately show ?thesis using a by (simp add: tz_sees_def)
qed

lemma tokz_loop_Nil: "tz_len ts = 0 \<Longrightarrow> tokz_loop ts l = Done (tokz_end ts l, ts)"
  by (subst tokz_loop.simps) simp

lemma utf8_ascii: "0 \<le> c \<Longrightarrow> c < 128 \<Longrightarrow> lws_check_byte_utf8 0 (word_of_int c) = 0"
  by (simp add: lws_check_byte_utf8_def word_le_def not_le unsigned_of_int take_bit_int_eq_self)

lemma tokz_loop_Cons:
  assumes "tz_sees ts (c # r)" and "0 < c" and "c < 128" and "tl_utf8 l = 0"
  shows "tokz_loop ts l = (case tokz_char (tz_adv 1 ts) c l of Tz_return e ts \<Rightarrow> Done (e, ts) | Tz_continue ts l \<Rightarrow> tokz_loop ts l)"
proof -
  have n: "tz_len ts \<noteq> 0" and b: "tz_start ts < length (tz_text ts)" using tz_sees_len [OF assms(1)] by auto
  have t: "tz_text ts ! tz_start ts = c"
    using assms(1) n b by (auto simp: tz_sees_def tz_rest_def take_Cons' Cons_nth_drop_Suc [symmetric] split: if_splits)
  have u: "lws_check_byte_utf8 (tl_utf8 l) (word_of_int c) = 0" using utf8_ascii assms(2-4) by simp
  have l: "l\<lparr>tl_utf8 := 0\<rparr> = l" using assms(4) by (cases l) simp
  have z: "word_of_int 0 = (0::u8)" by simp
  show ?thesis using n b assms(2) by (subst tokz_loop.simps) (simp add: Let_def t u l z tz_adv_def)
qed

text \<open>Characters that are part of a token whatever the flags of the callers here.\<close>

definition token_char :: "int \<Rightarrow> bool" where
  "token_char c \<longleftrightarrow> 48 \<le> c \<and> c \<le> 57 \<or> 65 \<le> c \<and> c \<le> 90 \<or> 97 \<le> c \<and> c \<le> 122 \<or> c = 95 \<or> c = 45"

lemma token_char_range: "token_char c \<Longrightarrow> 0 < c \<and> c < 128"
  by (auto simp: token_char_def)

lemma token_char_not_delim: "token_char c \<Longrightarrow> tz_flag ts LWS_TOKENIZE_F_MINUS_NONTERM \<Longrightarrow> \<not> tokz_is_delim ts u c"
proof -
  assume c: "token_char c" and f: "tz_flag ts LWS_TOKENIZE_F_MINUS_NONTERM"
  have "c \<notin> set rfc7230_delims" using c by (auto simp: token_char_def rfc7230_delims_def)
  moreover have "\<not> tokz_opt_delim ts c" using c f by (auto simp: token_char_def tokz_opt_delim_def tokz_opt_def)
  moreover have "(c < 48 \<or> c > 57) \<and> (c < 65 \<or> c > 90) \<and> (c < 97 \<or> c > 122) \<and> c \<noteq> 95 \<Longrightarrow> tokz_opt ts c"
    using c f by (auto simp: token_char_def tokz_opt_def)
  ultimately show ?thesis by (auto simp: tokz_is_delim_def)
qed

lemma tokz_char_token:
  assumes "token_char c" and "tz_flag ts LWS_TOKENIZE_F_MINUS_NONTERM" and "\<not> tl_skipping l"
  shows "tokz_char ts c l = tokz_payload ts c l"
proof -
  have "l\<lparr>tl_skipping := False\<rparr> = l" using assms(3) by (cases l) simp
  moreover have "c \<noteq> 32 \<and> c \<noteq> 9 \<and> c \<noteq> 10 \<and> c \<noteq> 13 \<and> c \<noteq> 12 \<and> c \<noteq> 34 \<and> c \<noteq> 35 \<and> c \<noteq> 58 \<and> c \<noteq> 46 \<and> c \<noteq> 61" using assms(1) by (auto simp: token_char_def)
  moreover have "tokz_char ts c l = tokz_payload ts c (l\<lparr>tl_skipping := False\<rparr>)"
    using assms token_char_not_delim [OF assms(1,2)] calculation(2) by (simp add: tokz_char_def Let_def)
  ultimately show ?thesis by simp
qed

lemma tokz_checknum_fields [simp]:
  "tl_state (tokz_checknum ts c l) = tl_state l" "tl_utf8 (tokz_checknum ts c l) = tl_utf8 l" "tl_skipping (tokz_checknum ts c l) = tl_skipping l"
  by (simp_all add: tokz_checknum_def)

text \<open>The rest of a token.  Its number state says 1 only while all of it was digits.\<close>

lemma token_run:
  "tz_sees ts (xs @ r) \<Longrightarrow> list_all token_char xs \<Longrightarrow> tz_flag ts LWS_TOKENIZE_F_MINUS_NONTERM \<Longrightarrow>
   tl_state l = LWS_TOKZS_TOKEN \<Longrightarrow> \<not> tl_skipping l \<Longrightarrow> tl_utf8 l = 0 \<Longrightarrow> (tl_num l = 0 \<or> tl_num l = 1 \<and> \<not> tz_flag ts LWS_TOKENIZE_F_NO_INTEGERS \<and> (\<exists>c\<in>set xs. c < 48 \<or> 57 < c)) \<Longrightarrow>
   \<exists>l'. tokz_loop ts l = tokz_loop ((tz_adv (length xs) ts)\<lparr>tz_token_len := tz_token_len ts + length xs\<rparr>) l' \<and> tl_state l' = LWS_TOKZS_TOKEN \<and>
     \<not> tl_skipping l' \<and> tl_utf8 l' = 0 \<and> tl_num l' = 0"
proof (induction xs arbitrary: ts l)
  case Nil
  have "(tz_adv 0 ts)\<lparr>tz_token_len := tz_token_len ts\<rparr> = ts" by (cases ts) (simp add: tz_adv_def)
  then show ?case using Nil by auto
next
  case (Cons c xs)
  let ?ts = "(tz_adv 1 ts)\<lparr>tz_token_len := tz_token_len ts + 1\<rparr>" and ?l = "tokz_checknum (tz_adv 1 ts) c l"
  have c: "token_char c" "tz_sees ts (c # (xs @ r))" "tz_sees ts ([c] @ (xs @ r))" using Cons.prems(1,2) by auto
  have s: "tokz_loop ts l = tokz_loop ?ts ?l"
    using tokz_loop_Cons [OF c(2) _ _ Cons.prems(6)] token_char_range [OF c(1)] Cons.prems(3-5)
    by (simp add: tokz_char_token [OF c(1)] tokz_payload_def)
  have n: "tl_num ?l = 0 \<or> tl_num ?l = 1 \<and> \<not> tz_flag ts LWS_TOKENIZE_F_NO_INTEGERS \<and> (\<exists>c\<in>set xs. c < 48 \<or> 57 < c)"
    using Cons.prems(7) by (auto simp: tokz_checknum_def)
  obtain l' where "tokz_loop ?ts ?l = tokz_loop ((tz_adv (length xs) ?ts)\<lparr>tz_token_len := tz_token_len ?ts + length xs\<rparr>) l'"
      "tl_state l' = LWS_TOKZS_TOKEN" "\<not> tl_skipping l'" "tl_utf8 l' = 0" "tl_num l' = 0"
    using Cons.IH [of ?ts ?l] tz_sees_adv [OF c(3)] Cons.prems(2-6) n by auto
  then show ?case using s by (intro exI [of _ l']) (simp add: add.assoc)
qed

lemma tokz_char_comma:
  assumes "\<not> tl_skipping l" and "tl_utf8 l = 0"
  shows "tokz_char ts 44 l = tokz_delim ts 44 l"
proof -
  have l: "l\<lparr>tl_skipping := False\<rparr> = l" using assms(1) by (cases l) simp
  have "tokz_is_delim ts 0 44" by (simp add: tokz_is_delim_def rfc7230_delims_def tokz_opt_def)
  then show ?thesis unfolding tokz_char_def Let_def l using assms by simp
qed

lemma tokz_char_space:
  assumes "c = 32 \<or> c = 9" and "\<not> tl_skipping l" and "tl_state l = LWS_TOKZS_LEADING_WHITESPACE"
  shows "tokz_char ts c l = Tz_continue ts l"
proof -
  have l: "l\<lparr>tl_skipping := False\<rparr> = l" using assms(2) by (cases l) simp
  show ?thesis unfolding tokz_char_def Let_def l using assms by (auto simp: tokz_white_def)
qed

lemma tokz_unread_adv: "1 \<le> tz_len ts \<Longrightarrow> tokz_unread (tz_adv 1 ts) = ts"
  by (simp add: tokz_unread_def tz_adv_def)

lemma space_run:
  "tz_sees ts (sp @ r) \<Longrightarrow> set sp \<subseteq> {32, 9} \<Longrightarrow> \<not> tl_skipping l \<Longrightarrow> tl_state l = LWS_TOKZS_LEADING_WHITESPACE \<Longrightarrow> tl_utf8 l = 0 \<Longrightarrow>
   tokz_loop ts l = tokz_loop (tz_adv (length sp) ts) l"
proof (induction sp arbitrary: ts)
  case (Cons c sp)
  have c: "c = 32 \<or> c = 9" "tz_sees ts (c # (sp @ r))" "tz_sees ts ([c] @ (sp @ r))" using Cons.prems(1,2) by auto
  have "tokz_loop ts l = tokz_loop (tz_adv 1 ts) l"
    using tokz_loop_Cons [OF c(2) _ _ Cons.prems(5)] c(1) tokz_char_space [OF c(1) Cons.prems(3,4)] by auto
  then show ?case using Cons.IH [of "tz_adv 1 ts"] tz_sees_adv [OF c(3)] Cons.prems(2-5) by simp
qed simp

text \<open>A token of a list: token characters, not all of them digits.\<close>

definition list_token :: "int list \<Rightarrow> bool" where
  "list_token tok \<longleftrightarrow> list_all token_char tok \<and> (\<exists>c\<in>set tok. c < 48 \<or> 57 < c)"

text \<open>Up to the end of a token.\<close>

definition tz_after :: "nat \<Rightarrow> nat \<Rightarrow> lws_tokenize_t \<Rightarrow> lws_tokenize_t" where
  "tz_after k n ts = (tz_adv (k + n) ts)\<lparr>tz_token := Some (tz_start ts + k), tz_token_len := n,
     tz_delim := (if tz_flag ts LWS_TOKENIZE_F_COMMA_SEP_LIST then LWSTZ_DT_NEED_DELIM else tz_delim ts)\<rparr>"

lemma lws_tokenize_to_end:
  assumes "tz_sees ts (sp @ tok @ r)" and "set sp \<subseteq> {32, 9}" and "list_token tok"
    and "tz_flag ts LWS_TOKENIZE_F_MINUS_NONTERM" and "tz_flag ts LWS_TOKENIZE_F_COMMA_SEP_LIST \<longrightarrow> tz_delim ts \<noteq> LWSTZ_DT_NEED_DELIM"
  obtains l where "lws_tokenize ts = tokz_loop (tz_after (length sp) (length tok) ts) l" and "tl_state l = LWS_TOKZS_TOKEN" and "\<not> tl_skipping l"
    and "tl_utf8 l = 0" and "tl_num l = 0" and "tz_sees (tz_after (length sp) (length tok) ts) r"
proof -
  let ?l = "\<lparr>tl_state = LWS_TOKZS_LEADING_WHITESPACE, tl_num = (if tz_flag ts LWS_TOKENIZE_F_NO_INTEGERS then 0 else -1), tl_flo = False,
    tl_utf8 = 0, tl_skipping = False\<rparr>"
  obtain c xs where tok: "tok = c # xs" "token_char c" "list_all token_char xs" using assms(3) by (cases tok) (auto simp: list_token_def)
  define ts1 where "ts1 = (tz_adv (length sp) ts)\<lparr>tz_token := None, tz_token_len := 0\<rparr>"
  have e1: "lws_tokenize ts = tokz_loop ts1 ?l"
    unfolding lws_tokenize_def using space_run [of "ts\<lparr>tz_token := None, tz_token_len := 0\<rparr>" sp "tok @ r" ?l] assms(1,2) by (simp add: ts1_def)
  have i1: "tz_sees ts1 (c # (xs @ r))" "tz_sees ts1 ([c] @ (xs @ r))"
    using tz_sees_adv [OF assms(1)] tok(1) by (simp_all add: ts1_def)
  define ts2 where "ts2 = (tz_adv 1 ts1)\<lparr>tz_token := Some (tz_start ts1), tz_token_len := 1,
    tz_delim := (if tz_flag ts LWS_TOKENIZE_F_COMMA_SEP_LIST then LWSTZ_DT_NEED_DELIM else tz_delim ts)\<rparr>"
  define l2 where "l2 = tokz_checknum ts c (?l\<lparr>tl_state := LWS_TOKZS_TOKEN\<rparr>)"
  have fl: "tz_flags ts1 = tz_flags ts" "tz_flags ts2 = tz_flags ts" by (simp_all add: ts1_def ts2_def)
  have pl: "tokz_payload (tz_adv 1 ts1) c ?l = Tz_continue ts2 l2"
    using assms(5) by (auto simp: tokz_payload_def ts2_def l2_def ts1_def tokz_checknum_def Let_def)
  have e2: "tokz_loop ts1 ?l = tokz_loop ts2 l2"
    using tokz_loop_Cons [OF i1(1), of ?l] token_char_range [OF tok(2)] tokz_char_token [OF tok(2), of "tz_adv 1 ts1" ?l] assms(4) fl(1) pl by simp
  have i2: "tz_sees ts2 (xs @ r)" using tz_sees_adv [OF i1(2)] by (simp add: ts2_def)
  have n2: "tl_num l2 = 0 \<or> tl_num l2 = 1 \<and> \<not> tz_flag ts2 LWS_TOKENIZE_F_NO_INTEGERS \<and> (\<exists>c\<in>set xs. c < 48 \<or> 57 < c)"
    using assms(3) tok(1) by (auto simp: l2_def tokz_checknum_def list_token_def ts2_def ts1_def)
  define ts3 where "ts3 = (tz_adv (length xs) ts2)\<lparr>tz_token_len := length tok\<rparr>"
  obtain l3 where e3: "tokz_loop ts2 l2 = tokz_loop ts3 l3" and l3: "tl_state l3 = LWS_TOKZS_TOKEN" "\<not> tl_skipping l3" "tl_utf8 l3 = 0" "tl_num l3 = 0"
  proof -
    have s2: "tl_state l2 = LWS_TOKZS_TOKEN" "\<not> tl_skipping l2" "tl_utf8 l2 = 0" "tz_flag ts2 LWS_TOKENIZE_F_MINUS_NONTERM"
        "tz_token_len ts2 + length xs = length tok" using assms(4) fl(2) tok(1) by (simp_all add: l2_def ts2_def)
    show thesis using token_run [OF i2 tok(3) s2(4,1-3) n2] that unfolding s2(5) ts3_def by blast
  qed
  have i3: "tz_sees ts3 r" using tz_sees_adv [OF i2] by (simp add: ts3_def)
  have "ts3 = tz_after (length sp) (length tok) ts" by (simp add: tz_after_def ts3_def ts2_def ts1_def tok(1) add.commute)
  then show thesis using that [of l3] e1 e2 e3 l3 i3 by simp
qed

lemma lws_tokenize_token:
  assumes "tz_sees ts (sp @ tok @ r)" and "set sp \<subseteq> {32, 9}" and "list_token tok"
    and "tz_flag ts LWS_TOKENIZE_F_MINUS_NONTERM" and "tz_flag ts LWS_TOKENIZE_F_COMMA_SEP_LIST \<longrightarrow> tz_delim ts \<noteq> LWSTZ_DT_NEED_DELIM"
    and r: "r = [] \<and> tz_len ts = length sp + length tok \<or> r \<noteq> [] \<and> hd r = 44"
  shows "lws_tokenize ts = Done (LWS_TOKZE_TOKEN, tz_after (length sp) (length tok) ts)"
proof (rule lws_tokenize_to_end [OF assms(1-5)])
  let ?ts = "tz_after (length sp) (length tok) ts"
  fix l
  assume l: "lws_tokenize ts = tokz_loop ?ts l" "tl_state l = LWS_TOKZS_TOKEN" "\<not> tl_skipping l" "tl_utf8 l = 0" "tl_num l = 0"
    and i: "tz_sees ?ts r"
  show ?thesis
  proof (cases r)
    case Nil
    then have "tz_len ?ts = 0" using r by (simp add: tz_after_def)
    then show ?thesis using tokz_loop_Nil l by (simp add: tokz_end_def token_or_numeric_def)
  next
    case (Cons d r')
    then have d: "tz_sees ?ts (44 # r')" using i r by simp
    have n: "1 \<le> tz_len ?ts" using tz_sees_len [OF d] by auto
    show ?thesis
      using tokz_loop_Cons [OF d] l tokz_unread_adv [OF n] by (simp add: tokz_char_comma tokz_delim_def token_or_numeric_def)
  qed
qed

lemma lws_tokenize_comma:
  assumes "tz_sees ts (44 # r)" and "tz_flag ts LWS_TOKENIZE_F_COMMA_SEP_LIST" and "tz_delim ts = LWSTZ_DT_NEED_DELIM"
  shows "lws_tokenize ts = Done (LWS_TOKZE_DELIMITER, (tz_adv 1 ts)\<lparr>tz_token := Some (tz_start ts), tz_token_len := 1, tz_delim := LWSTZ_DT_NEED_NEXT_CONTENT\<rparr>)"
  unfolding lws_tokenize_def using tokz_loop_Cons [of "ts\<lparr>tz_token := None, tz_token_len := 0\<rparr>" 44 r] assms
  by (simp add: tokz_char_comma tokz_delim_def Let_def)

lemma lws_tokenize_ended:
  assumes "tz_len ts = 0" and "tz_delim ts = LWSTZ_DT_NEED_DELIM"
  shows "lws_tokenize ts = Done (LWS_TOKZE_ENDED, ts\<lparr>tz_token := None, tz_token_len := 0\<rparr>)"
  unfolding lws_tokenize_def using tokz_loop_Nil [of "ts\<lparr>tz_token := None, tz_token_len := 0\<rparr>"] assms by (simp add: tokz_end_def)

section \<open>The end of a string\<close>

text \<open>C35. With the length that \<open>lws_tokenize_init\<close> sets, a string is meant to end at its NUL.  But when a token runs up to the NUL, the
  call that returns the token has stepped past the NUL, and the next call, which should report the end, reads on in the
  memory behind the string: with nothing there it runs out of the object.\<close>

theorem lws_tokenize_reads_past_nul:
  assumes "list_token tok" and "LWS_TOKENIZE_F_MINUS_NONTERM \<in> set flags" and "length tok < 0x7ffffffe"
  shows "\<exists>ts. lws_tokenize (lws_tokenize_init (tok @ [0]) flags) = Done (LWS_TOKZE_TOKEN, ts) \<and> lws_tokenize ts = Fault"
proof (rule lws_tokenize_to_end [of "lws_tokenize_init (tok @ [0]) flags" "[]" tok "[0]"])
  let ?ts = "tz_after (length ([] :: int list)) (length tok) (lws_tokenize_init (tok @ [0]) flags)"
  fix l
  assume l: "lws_tokenize (lws_tokenize_init (tok @ [0]) flags) = tokz_loop ?ts l" "tl_state l = LWS_TOKZS_TOKEN" "\<not> tl_skipping l" "tl_utf8 l = 0"
      "tl_num l = 0"
  have f: "tz_len ?ts \<noteq> 0" "tz_start ?ts = length tok" "tz_text ?ts = tok @ [0]" "tz_len ?ts - 1 \<noteq> 0"
    using assms(3) by (simp_all add: tz_after_def lws_tokenize_init_def)
  have u: "lws_check_byte_utf8 0 (word_of_int 0) = 0" by (rule utf8_ascii) simp_all
  have "tokz_loop ?ts l = Done (LWS_TOKZE_TOKEN, tz_adv 1 ?ts)"
    using f u l(2-5) by (subst tokz_loop.simps) (simp add: Let_def tokz_end_def token_or_numeric_def tz_adv_def)
  moreover have "lws_tokenize (tz_adv 1 ?ts) = Fault"
    unfolding lws_tokenize_def using f by (subst tokz_loop.simps) simp
  ultimately show ?thesis using l(1) by auto
qed (use assms in \<open>simp_all add: lws_tokenize_init_def tz_sees_def tz_rest_def\<close>)

theorem lws_tokenize_reads_past_nul_witness:
  "\<exists>ts. lws_tokenize (lws_tokenize_init ([104, 111, 115, 116] @ [0]) [LWS_TOKENIZE_F_DOT_NONTERM, LWS_TOKENIZE_F_NO_FLOATS, LWS_TOKENIZE_F_MINUS_NONTERM])
     = Done (LWS_TOKZE_TOKEN, ts) \<and> lws_tokenize ts = Fault"
  by (rule lws_tokenize_reads_past_nul) (simp_all add: list_token_def token_char_def)

end
