(* ===== verification/Lws_Cstr.thy ===== *)
theory Lws_Cstr
  imports Lws_Prelude
begin

text \<open>
  The string functions of C on memory given as the list of its bytes up to the end of the object: a string ends at the
  first NUL, and a function that would read past the object is a fault.
\<close>

section \<open>Reading\<close>

definition c_str :: "'a :: zero list \<Rightarrow> 'a list outcome" where
  "c_str m = (if 0 \<in> set m then Done (takeWhile (\<lambda>c. c \<noteq> 0) m) else Fault)"

text \<open>\<open>strncmp (s, t, n) == 0\<close>, and the same without regard to case in the C locale.\<close>

fun strncmp_by :: "('a :: zero \<Rightarrow> 'a) \<Rightarrow> 'a list \<Rightarrow> 'a list \<Rightarrow> nat \<Rightarrow> bool outcome" where
  "strncmp_by f s t 0 = Done True"
| "strncmp_by f [] t (Suc n) = Fault"
| "strncmp_by f s [] (Suc n) = Fault"
| "strncmp_by f (a # s) (b # t) (Suc n) =
     (if f a \<noteq> f b then Done False else if a = 0 then Done True else strncmp_by f s t n)"

definition strncmp_eq :: "'a :: zero list \<Rightarrow> 'a list \<Rightarrow> nat \<Rightarrow> bool outcome" where
  "strncmp_eq = strncmp_by (\<lambda>c. c)"

definition ascii_lower :: "int \<Rightarrow> int" where
  "ascii_lower c = (if 65 \<le> c \<and> c \<le> 90 then c + 32 else c)"

definition strncasecmp_eq :: "int list \<Rightarrow> int list \<Rightarrow> nat \<Rightarrow> bool outcome" where
  "strncasecmp_eq = strncmp_by ascii_lower"

section \<open>Writing\<close>

text \<open>A buffer with the position the next piece goes to.  \<open>LWS_CPYAPP\<close> copies a string with its NUL and moves on behind
  the string; \<open>lws_snprintf\<close> is told how much room there is, and returns that much when the string did not fit.\<close>

definition buf_cpyapp :: "'a :: zero list \<Rightarrow> 'a list \<times> nat \<Rightarrow> ('a list \<times> nat) outcome" where
  "buf_cpyapp s bp = (case bp of (b, p) \<Rightarrow> bind_outcome (mem_store b p (s @ [0])) (\<lambda>b. Done (b, p + length s)))"

definition lws_snprintf :: "nat \<Rightarrow> 'a :: zero list \<Rightarrow> 'a list \<times> nat \<Rightarrow> ('a list \<times> nat) outcome" where
  "lws_snprintf sz s bp = (case bp of (b, p) \<Rightarrow>
     if sz = 0 then Done (b, p)
     else bind_outcome (mem_store b p (take (sz - 1) s @ [0])) (\<lambda>b. Done (b, p + min (length s) sz)))"

section \<open>Facts\<close>

lemma takeWhile_to_nul: "0 \<notin> set s \<Longrightarrow> takeWhile (\<lambda>c. c \<noteq> 0) (s @ 0 # m) = s"
  by (induction s) auto

lemma c_str_append [simp]: "0 \<notin> set s \<Longrightarrow> c_str (s @ 0 # m) = Done s"
  by (simp add: c_str_def takeWhile_to_nul)

lemma strncmp_by_same: "map f s = map f t \<Longrightarrow> strncmp_by f (s @ x) (t @ y) (length s) = Done True"
proof (induction s arbitrary: t)
  case (Cons a s)
  then obtain b t' where "t = b # t'" "f a = f b" "map f s = map f t'" by (cases t) auto
  then show ?case using Cons.IH by simp
qed simp

lemma strncmp_by_prefix:
  assumes "n \<le> length t" and "length s = n" and "map f s = map f (take n t)"
  shows "strncmp_by f (s @ x) t n = Done True"
  using strncmp_by_same [of f s "take n t" x "drop n t"] assms by simp

text \<open>Appending to a buffer: what \<open>out\<close> collects from \<open>base\<close> on.\<close>

definition buf_holds :: "nat \<Rightarrow> 'a list \<Rightarrow> 'a list \<times> nat \<Rightarrow> bool" where
  "buf_holds base out bp \<longleftrightarrow> (case bp of (b, p) \<Rightarrow> p = base + length out \<and> p \<le> length b \<and> take (length out) (drop base b) = out)"

lemma mem_store_take: "mem_store b p s = Done b' \<Longrightarrow> take p b' = take p b"
  by (auto simp: mem_store_def split: if_splits)

lemma mem_store_after: "mem_store b p s = Done b' \<Longrightarrow> take (length s) (drop p b') = s"
  by (auto simp: mem_store_def split: if_splits)

lemma buf_cpyapp_ok:
  assumes "buf_holds base out (b, p)" and "p + length s < length b"
  shows "\<exists>b'. buf_cpyapp s (b, p) = Done (b', p + length s) \<and> length b' = length b \<and> take base b' = take base b \<and>
    buf_holds base (out @ s) (b', p + length s)"
proof -
  have h: "p = base + length out" "take (length out) (drop base b) = out" using assms(1) by (auto simp: buf_holds_def)
  obtain b' where b: "mem_store b p (s @ [0]) = Done b'" using assms(2) by (simp add: mem_store_def)
  note T = mem_store_take [OF b] mem_store_after [OF b] mem_store_length [OF b]
  have "take base b' = take base (take p b')" using h(1) by (simp add: min_def)
  then have tb: "take base b' = take base b" unfolding T(1) using h(1) by (simp add: min_def)
  have "take (length out) (drop base b') = drop base (take p b')" using h(1) by (simp add: drop_take)
  then have o: "take (length out) (drop base b') = out" unfolding T(1) using h by (simp add: drop_take)
  have "take (length s) (drop p b') = take (length s) (take (length (s @ [0])) (drop p b'))" by (simp add: min_def)
  then have "take (length s) (drop p b') = s" unfolding T(2) by simp
  then have "take (length (out @ s)) (drop base b') = out @ s" using o h(1) by (simp add: take_add add.commute)
  then show ?thesis using b T(3) tb h(1) assms(2) by (auto simp: buf_cpyapp_def buf_holds_def)
qed

lemma lws_snprintf_fits:
  assumes "length s < sz"
  shows "lws_snprintf sz s (b, p) = buf_cpyapp s (b, p)"
  using assms by (simp add: lws_snprintf_def buf_cpyapp_def)

end
