(* ===== verification/Http_Mount.thy ===== *)
theory Http_Mount
  imports Http_Headers Lws_Cstr
begin

text \<open>
  The mounts of a vhost, which say what serves which part of its URL space, and \<open>lws_find_mount\<close> of
  \<open>roles/http/server/server.c\<close>, which looks up the one for a path.
\<close>

section \<open>Lookup\<close>

datatype lws_mount_protocols =
  LWSMPRO_HTTP | LWSMPRO_HTTPS | LWSMPRO_FILE | LWSMPRO_CGI | LWSMPRO_REDIR_HTTP | LWSMPRO_REDIR_HTTPS | LWSMPRO_CALLBACK

text \<open>The fields the lookup and its callers use; \<open>mount_protocol\<close> and \<open>mount_cgienv\<close> say that the pointer is not NULL.\<close>

record lws_http_mount =
  mountpoint :: "int list"
  mountpoint_len :: nat
  origin_protocol :: lws_mount_protocols
  mount_protocol :: bool
  mount_cgienv :: bool

fun any_hdr :: "allocated_headers option \<Rightarrow> nat list \<Rightarrow> bool outcome" where
  "any_hdr ah [] = Done False"
| "any_hdr ah (h # hs) = bind_outcome (lws_hdr_total_length ah h) (\<lambda>n. if n \<noteq> 0 then Done True else any_hdr ah hs)"

text \<open>\<open>WSI_TOKEN_GET_URI\<close>, \<open>POST\<close>, \<open>PUT\<close>, \<open>PATCH\<close>, \<open>DELETE\<close> and \<open>HEAD\<close>, and the path of an h2 stream.\<close>

definition mount_uri_tokens :: "bool \<Rightarrow> nat list" where
  "mount_uri_tokens mux = [0, 1, 74, 73, 75, 82] @ (if mux then [37] else [])"

definition mount_covers :: "int list option \<Rightarrow> int \<Rightarrow> lws_http_mount \<Rightarrow> bool outcome" where
  "mount_covers uri len m =
     (if len < int (mountpoint_len m) then Done False
      else case uri of None \<Rightarrow> Fault
      | Some u \<Rightarrow>
          bind_outcome (strncmp_eq (u @ [0]) (mountpoint m @ [0]) (mountpoint_len m)) (\<lambda>eq.
            if \<not> eq then Done False
            else if length u < mountpoint_len m then Fault
            else let c = (u @ [0]) ! mountpoint_len m in Done (c = 0 \<or> c = 47 \<or> mountpoint_len m = 1)))"

fun find_mount_loop ::
  "bool \<Rightarrow> allocated_headers option \<Rightarrow> int list option \<Rightarrow> int \<Rightarrow> nat \<Rightarrow> lws_http_mount option \<Rightarrow> lws_http_mount list \<Rightarrow>
   lws_http_mount option outcome" where
  "find_mount_loop mux ah uri len best hit [] = Done hit"
| "find_mount_loop mux ah uri len best hit (m # ms) =
     bind_outcome (mount_covers uri len m) (\<lambda>covers.
     bind_outcome
       (if \<not> covers then Done False
        else if origin_protocol m = LWSMPRO_CALLBACK then Done True
        else bind_outcome (if origin_protocol m = LWSMPRO_CGI then Done True else any_hdr ah (mount_uri_tokens mux)) (\<lambda>known.
          Done ((known \<or> mount_protocol m) \<and> mountpoint_len m > best))) (\<lambda>better.
       if better then find_mount_loop mux ah uri len (mountpoint_len m) (Some m) ms
       else find_mount_loop mux ah uri len best hit ms))"

definition lws_find_mount ::
  "lws_http_mount list \<Rightarrow> bool \<Rightarrow> allocated_headers option \<Rightarrow> int list option \<Rightarrow> int \<Rightarrow> lws_http_mount option outcome" where
  "lws_find_mount mount_list mux ah uri uri_len = find_mount_loop mux ah uri uri_len 0 None mount_list"

section \<open>The longest mount\<close>

text \<open>A mount covers a path when it is the path or ends before a slash of it; the root covers everything.\<close>

definition covers :: "int list \<Rightarrow> lws_http_mount \<Rightarrow> bool" where
  "covers u m \<longleftrightarrow> mountpoint m = [47] \<and> u \<noteq> [] \<and> hd u = 47 \<or> u = mountpoint m \<or> (\<exists>r. u = mountpoint m @ 47 # r)"

definition mount_ok :: "lws_http_mount \<Rightarrow> bool" where
  "mount_ok m \<longleftrightarrow> mountpoint_len m = length (mountpoint m) \<and> mountpoint m \<noteq> [] \<and> hd (mountpoint m) = 47 \<and> 0 \<notin> set (mountpoint m)"

lemma strncmp_by_id_iff: "0 \<notin> set u \<Longrightarrow> 0 \<notin> set v \<Longrightarrow> length v \<le> length u \<Longrightarrow>
    strncmp_eq (u @ [0]) (v @ [0]) (length v) = Done (take (length v) u = v)"
proof (induction v arbitrary: u)
  case (Cons b v)
  then obtain a u' where "u = a # u'" by (cases u) auto
  then show ?case using Cons by (auto simp: strncmp_eq_def)
qed (simp add: strncmp_eq_def)

lemma covers_take: "covers u m \<Longrightarrow> take (length (mountpoint m)) u = mountpoint m"
  by (cases u) (auto simp: covers_def)

lemma covers_append:
  assumes "mount_ok m" and "0 \<notin> set r"
  shows "covers (mountpoint m @ r) m \<longleftrightarrow> (r @ [0]) ! 0 = 0 \<or> (r @ [0]) ! 0 = 47 \<or> length (mountpoint m) = 1"
proof -
  have "length (mountpoint m) = 1 \<longleftrightarrow> mountpoint m = [47]" using assms(1) by (cases "mountpoint m") (auto simp: mount_ok_def)
  moreover have "hd (mountpoint m @ r) = 47" using assms(1) by (simp add: mount_ok_def)
  ultimately show ?thesis using assms by (cases r) (auto simp: covers_def mount_ok_def)
qed

lemma mount_covers_iff:
  assumes "mount_ok m" and "0 \<notin> set u"
  shows "mount_covers (Some u) (int (length u)) m = Done (covers u m)"
proof -
  let ?n = "length (mountpoint m)"
  have n: "mountpoint_len m = ?n" "0 \<notin> set (mountpoint m)" using assms(1) by (auto simp: mount_ok_def)
  consider r where "u = mountpoint m @ r" | "length u < ?n" | "?n \<le> length u" "take ?n u \<noteq> mountpoint m"
    by (metis append_take_drop_id not_less)
  then show ?thesis
  proof cases
    case 1
    have e: "strncmp_eq (u @ [0]) (mountpoint m @ [0]) ?n = Done True" using strncmp_by_id_iff [OF assms(2) n(2)] 1 by simp
    have "(u @ [0]) ! ?n = (r @ [0]) ! 0" using 1 by (simp add: nth_append)
    then show ?thesis using covers_append [OF assms(1), of r] assms(2) 1 n(1) e by (simp add: mount_covers_def Let_def)
  next
    case 2
    then have "\<not> covers u m" using covers_take by fastforce
    then show ?thesis using 2 n(1) by (simp add: mount_covers_def)
  next
    case 3
    then have "\<not> covers u m" using covers_take by blast
    then show ?thesis using 3 n(1) strncmp_by_id_iff [OF assms(2) n(2) 3(1)] by (simp add: mount_covers_def)
  qed
qed

text \<open>The loop keeps the first of the longest mounts it has seen.\<close>

definition best_of :: "int list \<Rightarrow> lws_http_mount list \<Rightarrow> nat \<Rightarrow> lws_http_mount option \<Rightarrow> bool" where
  "best_of u ms best hit \<longleftrightarrow> (\<forall>m\<in>set ms. covers u m \<longrightarrow> length (mountpoint m) \<le> best) \<and>
     (case hit of None \<Rightarrow> best = 0 | Some m \<Rightarrow> m \<in> set ms \<and> covers u m \<and> length (mountpoint m) = best)"

lemma find_mount_loop_best:
  assumes "any_hdr ah (mount_uri_tokens mux) = Done True" and "0 \<notin> set u"
  shows "list_all mount_ok ms \<Longrightarrow> \<forall>m\<in>set ms. origin_protocol m \<noteq> LWSMPRO_CALLBACK \<Longrightarrow> best_of u seen best hit \<Longrightarrow>
    \<exists>best' hit'. find_mount_loop mux ah (Some u) (int (length u)) best hit ms = Done hit' \<and> best_of u (seen @ ms) best' hit'"
proof (induction ms arbitrary: seen best hit)
  case (Cons m ms)
  have m: "mount_ok m" "mountpoint_len m = length (mountpoint m)" using Cons.prems(1) by (auto simp: mount_ok_def)
  note step = mount_covers_iff [OF m(1) assms(2)]
  define better where "better \<longleftrightarrow> covers u m \<and> best < length (mountpoint m)"
  have "best_of u (seen @ [m]) (if better then length (mountpoint m) else best) (if better then Some m else hit)"
    using Cons.prems(3) by (fastforce simp: best_of_def better_def split: option.splits)
  from Cons.IH [OF _ _ this] show ?case using Cons.prems(1,2) step assms(1) m(2) by (auto simp: better_def split: if_splits)
qed auto

text \<open>C16. The mount of a path.  For a request line with a method that has mounts and mounts that are not of the callback kind,
  \<open>lws_find_mount\<close> finds one that covers the path whenever there is one, and the one it finds is the longest.\<close>

theorem lws_find_mount_longest:
  assumes "any_hdr ah (mount_uri_tokens mux) = Done True" and "0 \<notin> set u" and "list_all mount_ok ms"
    and "list_all (\<lambda>m. origin_protocol m \<noteq> LWSMPRO_CALLBACK) ms"
  shows "\<exists>hit. lws_find_mount ms mux ah (Some u) (int (length u)) = Done hit \<and>
    (case hit of None \<Rightarrow> filter (covers u) ms = []
     | Some m \<Rightarrow> m \<in> set ms \<and> covers u m \<and> list_all (\<lambda>m'. length (mountpoint m') \<le> length (mountpoint m)) (filter (covers u) ms))"
proof -
  obtain best hit where r: "find_mount_loop mux ah (Some u) (int (length u)) 0 None ms = Done hit" "best_of u ms best hit"
    using find_mount_loop_best [OF assms(1,2,3), of "[]" 0 None] assms(4) by (auto simp: best_of_def list_all_iff)
  have "covers u m \<Longrightarrow> m \<in> set ms \<Longrightarrow> length (mountpoint m) \<noteq> 0" for m using assms(3) by (auto simp: list_all_iff mount_ok_def)
  then show ?thesis using r by (cases hit) (fastforce simp: lws_find_mount_def best_of_def list_all_iff filter_empty_conv)+
qed

text \<open>A table with one header, the GET URI in fragment 1.\<close>

definition get_table :: allocated_headers where
  "get_table = (lws_create_ah (replicate 8 0))\<lparr>ah_frags := (replicate 96 frag_zero)[1 := \<lparr>frag_offset = 0, frag_len = 2, frag_nfrag = 0, frag_flags = 0\<rparr>],
     ah_frag_index := (replicate 96 0)[0 := 1], ah_nfrag := 1\<rparr>"

theorem lws_find_mount_longest_witness:
  "let root = \<lparr>mountpoint = [47], mountpoint_len = 1, origin_protocol = LWSMPRO_FILE, mount_protocol = False, mount_cgienv = False\<rparr>;
       a = \<lparr>mountpoint = [47, 97], mountpoint_len = 2, origin_protocol = LWSMPRO_CGI, mount_protocol = False, mount_cgienv = False\<rparr>
   in \<exists>hit. lws_find_mount [root, a] False (Some get_table) (Some [47, 97]) (int (length [47, 97 :: int])) = Done hit \<and>
    (case hit of None \<Rightarrow> filter (covers [47, 97]) [root, a] = []
     | Some m \<Rightarrow> m \<in> set [root, a] \<and> covers [47, 97] m \<and> list_all (\<lambda>m'. length (mountpoint m') \<le> length (mountpoint m)) (filter (covers [47, 97]) [root, a]))"
  unfolding Let_def
proof (rule lws_find_mount_longest)
  show "any_hdr (Some get_table) (mount_uri_tokens False) = Done True" by code_simp
qed (simp_all add: mount_ok_def)

section \<open>Callback mounts\<close>

text \<open>The comparison with the best length so far is left out for callback mounts: the last one that covers the path is taken,
  however short it is, when no longer mount follows it.\<close>

theorem callback_mount_wins:
  assumes "any_hdr ah (mount_uri_tokens mux) = Done known" and "0 \<notin> set u" and "mount_ok m" and "covers u m" and "origin_protocol m = LWSMPRO_CALLBACK"
  shows "list_all mount_ok ms \<Longrightarrow> find_mount_loop mux ah (Some u) (int (length u)) best hit (ms @ [m]) = Done (Some m)"
proof (induction ms arbitrary: best hit)
  case Nil
  show ?case using mount_covers_iff [OF assms(3,2)] assms(4,5) by simp
next
  case (Cons a ms)
  then have "mount_ok a" by simp
  then show ?case using Cons mount_covers_iff [of a u] assms(1,2) by (simp del: bind_outcome_eq_Done)
qed

end
