(* ===== verification/Ws_Upgrade.thy ===== *)
theory Ws_Upgrade
  imports Ws_Tx Http_Mount Http_Request Lws_Tokenize Lws_Sha1 Lws_Base64
begin

text \<open>
  The opening handshake of the server (\<open>roles/ws/server-ws.c\<close>), from a parsed request to the established connection:
  \<open>lws_process_ws_upgrade\<close> checks the \<open>Connection\<close> header and chooses a protocol, \<open>lws_process_ws_upgrade2\<close> turns the
  connection into a websocket connection, and \<open>handshake_0405\<close> composes the response, with the extensions that
  \<open>lws_extension_server_handshake\<close> agrees to, and sends it.

  The response is composed in the service buffer of the thread (\<open>pt->serv_buf\<close>), which the same code uses for the key, the
  hash and the text of the extension header: the buffer is part of the state, and every store to it is checked.
\<close>

section \<open>Data\<close>

datatype lws_ext_options_types = EXTARG_NONE | EXTARG_DEC | EXTARG_OPT_DEC

record lws_ext_options =
  opt_name :: bytes
  opt_type :: lws_ext_options_types

record lws_extension =
  xt_name :: bytes
  xt_client_offer :: bytes

record lws_protocols =
  pr_name :: "bytes option"
  pr_per_session_data_size :: nat

datatype lws_check_basic_auth_results = LCBA_CONTINUE | LCBA_FAILED_AUTH | LCBA_END_TRANSACTION

text \<open>The calls of the user's protocol callback and of the extensions' callbacks; extensions and options are given by
  their index.\<close>

datatype upgrade_call =
    UcUnbind | UcBind | UcFilter "int list option" | UcConfirmExtension bytes | UcAddHeaders | UcPmo
  | UcClientConfirmExtension bytes | UcExtDefaults | UcClientFilter | UcClientEstablished
  | UcExtConstruct nat | UcExtOptionSet nat nat "bytes option" | UcExtOptionConfirm nat

text \<open>The connection during the handshake: what \<open>struct lws\<close> has beyond the part in \<open>wsi\<close>.  \<open>up_protocol\<close> and
  \<open>up_active\<close> are indices into the vhost's protocols and extensions; \<open>up_handshake_hash\<close> is \<open>initial_handshake_hash_base64\<close> of
  the header table, and \<open>up_calls\<close> are the calls made so far.\<close>

record 'e upgrade =
  up_wsi :: "'e wsi"
  up_ah :: "allocated_headers option"
  up_serv_buf :: bytes
  up_protocol :: "nat option"
  up_bind_balance :: bool
  up_user_space :: bool
  up_user_space_external :: bool
  up_same_vh :: "nat option"
  up_active :: "nat option list"
  up_handshake_hash :: bytes
  up_calls :: "upgrade_call list"

abbreviation up_mux_substream :: "'e upgrade \<Rightarrow> bool" where
  "up_mux_substream u \<equiv> wsi_mux_substream (up_wsi u)"

text \<open>The vhost, and what is not in these sources: the answers of the callbacks, given the calls before, the bytes the user
  adds to the response and gives as defaults of an extension, and the memory for the frame buffer.  The functions of the library that check and refuse basic
  authentication and that shake hands inside an h2 stream are arguments too.\<close>

record 'e upgrade_env =
  ue_protocols :: "lws_protocols list"
  ue_default_protocol_index :: nat
  ue_extensions :: "lws_extension list"
  ue_mounts :: "lws_http_mount list"
  ue_env :: "nat \<Rightarrow> 'e env"
  ue_user :: "upgrade_call list \<Rightarrow> upgrade_call \<Rightarrow> int"
  ue_add_headers :: "upgrade_call list \<Rightarrow> int \<Rightarrow> bytes"
  ue_ext :: "upgrade_call list \<Rightarrow> upgrade_call \<Rightarrow> 'e option \<Rightarrow> int \<times> 'e option"
  ue_ext_options :: "nat \<Rightarrow> lws_ext_options list"
  ue_ext_defaults :: "upgrade_call list \<Rightarrow> nat \<Rightarrow> bytes"
  ue_basic_auth :: "nat \<Rightarrow> allocated_headers option \<Rightarrow> (lws_check_basic_auth_results \<times> allocated_headers option) option"
  ue_refused :: "lws_check_basic_auth_results \<Rightarrow> 'e upgrade \<Rightarrow> int \<times> 'e upgrade"
  ue_h2_ws_handshake :: "'e upgrade \<Rightarrow> int \<times> 'e upgrade"
  ue_alloc_ws :: bool
  ue_rx_mem :: "nat \<Rightarrow> bytes option"

definition bind_run :: "'a outcome option \<Rightarrow> ('a \<Rightarrow> 'b outcome option) \<Rightarrow> 'b outcome option" where
  "bind_run m f = (case m of None \<Rightarrow> None | Some Fault \<Rightarrow> Some Fault | Some (Done x) \<Rightarrow> f x)"

section \<open>Headers as strings\<close>

definition hdr_str :: "allocated_headers option \<Rightarrow> nat \<Rightarrow> int list option outcome" where
  "hdr_str ah h =
     bind_outcome (lws_hdr_simple_ptr ah h) (\<lambda>p.
       case p of None \<Rightarrow> Done None
       | Some p \<Rightarrow>
           (case ah of None \<Rightarrow> Fault
            | Some a \<Rightarrow> bind_outcome (c_str (drop p (ah_data a))) (\<lambda>s. Done (Some s))))"

abbreviation bytes_of :: "int list \<Rightarrow> bytes" where "bytes_of xs \<equiv> map word_of_int xs"

text \<open>The loop over the tokens of the \<open>Connection\<close> header, at both ends: true when it left with a token that passes for
  \<open>upgrade\<close>, false when it goes to \<open>bad_conn_format\<close>.\<close>

function upgrade_token_loop :: "lws_tokenize_t \<Rightarrow> bool outcome" where
  "upgrade_token_loop ts =
     (case lws_tokenize ts of Fault \<Rightarrow> Fault
      | Done (e, ts') \<Rightarrow>
          if e = LWS_TOKZE_TOKEN then
            (case tz_token ts' of None \<Rightarrow> Fault
             | Some t \<Rightarrow>
                 (case strncasecmp_eq (drop t (tz_text ts')) (name_bytes ''upgrade'' @ [0]) (tz_token_len ts') of
                    Fault \<Rightarrow> Fault
                  | Done hit \<Rightarrow> if hit then Done True else upgrade_token_loop ts'))
          else if e = LWS_TOKZE_DELIMITER then upgrade_token_loop ts'
          else Done False)"
  by pat_completeness auto
termination
  by (relation "measure tz_len") (auto dest: lws_tokenize_shrinks simp: tokz_found_def)

declare upgrade_token_loop.simps [simp del]

text \<open>\<open>lws_hdr_copy\<close> of the header to a local buffer of \<open>size\<close> bytes, with the last kept free.  The bytes behind
  the copy are not initialised, and reading them counts as a fault.\<close>

definition upgrade_conn_ok :: "allocated_headers option \<Rightarrow> int \<Rightarrow> tokenize_flag list \<Rightarrow> bool outcome" where
  "upgrade_conn_ok ah sz flags =
     bind_outcome (lws_hdr_copy ah (sz - 1) 4) (\<lambda>(n, buf).
       if n \<le> 0 then Done False else upgrade_token_loop ((lws_tokenize_init buf flags)\<lparr>tz_len := nat n\<rparr>))"

section \<open>Protocols\<close>

definition lws_vhost_name_to_protocol :: "'e upgrade_env \<Rightarrow> bytes \<Rightarrow> nat option" where
  "lws_vhost_name_to_protocol en name =
     List.find (\<lambda>n. pr_name (ue_protocols en ! n) = Some name) [0..<length (ue_protocols en)]"

definition upgrade_user :: "'e upgrade_env \<Rightarrow> 'e upgrade \<Rightarrow> upgrade_call \<Rightarrow> (int \<times> 'e upgrade) outcome" where
  "upgrade_user en u c =
     (case up_protocol u of None \<Rightarrow> Fault
      | Some k \<Rightarrow>
          if \<not> has_callback (ue_env en k) then Fault
          else Done (ue_user en (up_calls u) c, u\<lparr>up_calls := up_calls u @ [c]\<rparr>))"

definition lws_ensure_user_space :: "'e upgrade_env \<Rightarrow> 'e upgrade \<Rightarrow> int \<times> 'e upgrade" where
  "lws_ensure_user_space en u =
     (case up_protocol u of None \<Rightarrow> (0, u)
      | Some k \<Rightarrow>
          let pss = pr_per_session_data_size (ue_protocols en ! k) in
          if pss \<noteq> 0 \<and> \<not> up_user_space u then
            (if alloc (ue_env en k) pss then (0, u\<lparr>up_user_space := True\<rparr>) else (1, u))
          else (0, u))"

definition lws_bind_protocol :: "'e upgrade_env \<Rightarrow> nat \<Rightarrow> 'e upgrade \<Rightarrow> (int \<times> 'e upgrade) outcome" where
  "lws_bind_protocol en k u =
     bind_outcome
       (if up_protocol u \<noteq> None \<and> up_bind_balance u then
          bind_outcome (upgrade_user en u UcUnbind) (\<lambda>(_, u). Done (u\<lparr>up_bind_balance := False\<rparr>))
        else Done u) (\<lambda>u.
       let u = (if up_user_space_external u then u else u\<lparr>up_user_space := False\<rparr>);
           u = u\<lparr>up_same_vh := None, up_protocol := Some k\<rparr>;
           (r, u) = lws_ensure_user_space en u
       in if r \<noteq> 0 then Done (1, u)
          else
            let u = (if 0 < k \<or> pr_name (ue_protocols en ! k) \<noteq> None then u\<lparr>up_same_vh := Some k\<rparr> else u)
            in bind_outcome (upgrade_user en u UcBind) (\<lambda>(n, u).
                 if n \<noteq> 0 then Done (1, u) else Done (0, u\<lparr>up_bind_balance := True\<rparr>)))"

text \<open>The first protocol of the client's list that the vhost has: a failure, or the protocol if there is one.\<close>

function select_protocol_loop :: "'e upgrade_env \<Rightarrow> lws_tokenize_t \<Rightarrow> (unit + nat option) outcome" where
  "select_protocol_loop en ts =
     (case lws_tokenize ts of Fault \<Rightarrow> Fault
      | Done (e, ts') \<Rightarrow>
          if e = LWS_TOKZE_TOKEN then
            (case lws_tokenize_cstr ts' 64 of
               Fault \<Rightarrow> Fault
             | Done None \<Rightarrow> Done (Inl ())
             | Done (Some name) \<Rightarrow>
                 (case lws_vhost_name_to_protocol en (bytes_of (butlast name)) of
                    Some k \<Rightarrow> Done (Inr (Some k))
                  | None \<Rightarrow> select_protocol_loop en ts'))
          else if e = LWS_TOKZE_DELIMITER then select_protocol_loop en ts'
          else if e = LWS_TOKZE_ENDED then Done (Inr None)
          else Done (Inl ()))"
  by pat_completeness auto
termination
  by (relation "measure (\<lambda>(en, ts). tz_len ts)") (auto dest: lws_tokenize_shrinks simp: tokz_found_def)

declare select_protocol_loop.simps [simp del]

section \<open>Extensions\<close>

definition ext_room :: "nat \<Rightarrow> nat \<Rightarrow> nat" where
  "ext_room endp p = nat ((int endp - int p) mod 2 ^ 64)"

text \<open>A call of an extension with the user pointer of the slot being filled.\<close>

definition ext_slot_call :: "'e upgrade_env \<Rightarrow> 'e upgrade \<Rightarrow> upgrade_call \<Rightarrow> (int \<times> 'e upgrade) outcome" where
  "ext_slot_call en u c =
     (let n = count_act_ext (up_wsi u) in
      if \<not> n < length (act_ext_user (up_wsi u)) then Fault
      else
        let (r, e) = ue_ext en (up_calls u) c (act_ext_user (up_wsi u) ! n)
        in Done (r, u\<lparr>up_wsi := (up_wsi u)\<lparr>act_ext_user := (act_ext_user (up_wsi u))[n := e]\<rparr>, up_calls := up_calls u @ [c]\<rparr>))"

definition ext_activate :: "nat \<Rightarrow> 'e upgrade \<Rightarrow> 'e upgrade outcome" where
  "ext_activate k u =
     (let n = count_act_ext (up_wsi u) in
      if n < length (up_active u) then Done (u\<lparr>up_active := (up_active u)[n := Some k]\<rparr>) else Fault)"

definition ext_count_up :: "'e upgrade \<Rightarrow> 'e upgrade" where
  "ext_count_up u = u\<lparr>up_wsi := (up_wsi u)\<lparr>count_act_ext := (count_act_ext (up_wsi u) + 1) mod 256\<rparr>\<rparr>"

text \<open>One pass over the options of extension \<open>k\<close> for the text at \<open>args\<close>.\<close>

fun ext_options_pass ::
  "'e upgrade_env \<Rightarrow> nat \<Rightarrow> nat \<Rightarrow> nat \<Rightarrow> (nat \<times> lws_ext_options) list \<Rightarrow> 'e upgrade \<times> nat \<Rightarrow> ('e upgrade \<times> nat) outcome" where
  "ext_options_pass en k endp args [] up = Done up"
| "ext_options_pass en k endp args ((i, po) # os) (u, p) =
     bind_outcome
       (if opt_type po \<noteq> EXTARG_NONE then Done False
        else strncmp_eq (drop args (up_serv_buf u)) (opt_name po @ [0]) (length (opt_name po))) (\<lambda>hit.
       if \<not> hit then ext_options_pass en k endp args os (u, p)
       else
         bind_outcome (ext_slot_call en u (UcExtOptionSet k i None)) (\<lambda>(r, u).
         bind_outcome
           (if r = 0 then lws_snprintf (ext_room endp p) (bytes_of_string ''; '' @ opt_name po) (up_serv_buf u, p)
            else Done (up_serv_buf u, p)) (\<lambda>(b, p).
           ext_options_pass en k endp args os (u\<lparr>up_serv_buf := b\<rparr>, p))))"

lemma ext_slot_call_buf: "ext_slot_call en u c = Done (r, u') \<Longrightarrow> up_serv_buf u' = up_serv_buf u"
  by (auto simp: ext_slot_call_def Let_def split: if_splits prod.splits)

lemma lws_snprintf_length: "lws_snprintf sz s (b, p) = Done (b', p') \<Longrightarrow> length b' = length b"
  by (auto simp: lws_snprintf_def dest: mem_store_length split: if_splits)

lemma ext_options_pass_length:
  "ext_options_pass en k endp args os up = Done (u', p') \<Longrightarrow> length (up_serv_buf u') = length (up_serv_buf (fst up))"
proof (induction os arbitrary: up)
  case (Cons o' os)
  obtain i po u p where "o' = (i, po)" "up = (u, p)" by (metis prod.exhaust)
  then show ?case using Cons.prems by (auto dest!: Cons.IH ext_slot_call_buf lws_snprintf_length split: if_splits)
qed auto

text \<open>The loop over the arguments the client gave for the extension, up to the end of its text or the next comma, where
  the position is returned.\<close>

function ext_args_loop ::
  "'e upgrade_env \<Rightarrow> nat \<Rightarrow> nat \<Rightarrow> nat \<Rightarrow> 'e upgrade \<times> nat \<Rightarrow> (nat \<times> 'e upgrade \<times> nat) outcome" where
  "ext_args_loop en k endp args up =
     (let b = up_serv_buf (fst up) in
      if \<not> args < length b then Fault
      else if b ! args = 0 \<or> b ! args = 44 then Done (args, up)
      else
        let args = args + length (takeWhile (\<lambda>c. c = 32) (drop args b)) in
        case ext_options_pass en k endp args (enumerate 0 (ue_ext_options en k)) up of
          Fault \<Rightarrow> Fault
        | Done up \<Rightarrow>
            let b = up_serv_buf (fst up);
                args = args + length (takeWhile (\<lambda>c. c \<noteq> 0 \<and> c \<noteq> 44 \<and> c \<noteq> 59) (drop args b))
            in if \<not> args < length b then Fault
               else if b ! args = 59 then ext_args_loop en k endp (args + 1) up
               else Done (args, up))"
  by pat_completeness auto
termination
proof (relation "measure (\<lambda>(en, k, endp, args, up). length (up_serv_buf (fst up)) - args)", goal_cases)
  case (2 en k endp args up b args1 up' b' args2)
  then have "length b' = length b" using ext_options_pass_length by (metis prod.collapse)
  then show ?case using 2 by auto
qed simp

declare ext_args_loop.simps [simp del]

text \<open>A name the client asked for against the extensions \<open>ks\<close> of the vhost.  The state is the connection, where the
  response goes on and how many extensions were applied; the result a failure, or what is left of the arguments,
  whether to go on and the state.\<close>

fun ext_server_try ::
  "'e upgrade_env \<Rightarrow> nat \<Rightarrow> bytes \<Rightarrow> nat list \<Rightarrow> nat option \<Rightarrow> bool \<Rightarrow> 'e upgrade \<times> nat \<times> nat \<Rightarrow>
   ((int \<times> 'e upgrade) + (nat option \<times> bool \<times> 'e upgrade \<times> nat \<times> nat)) outcome" where
  "ext_server_try en endp name [] args go_on st = Done (Inr (args, go_on, st))"
| "ext_server_try en endp name (k # ks) args go_on (u, p, ext_count) =
     (if name \<noteq> xt_name (ue_extensions en ! k) then ext_server_try en endp name ks args go_on (u, p, ext_count)
      else if Some k \<in> set (take (count_act_ext (up_wsi u)) (up_active u)) then Done (Inl (1, u))
      else
        bind_outcome (upgrade_user en u (UcConfirmExtension name)) (\<lambda>(m, u).
          if m \<noteq> 0 then ext_server_try en endp name ks args go_on (u, p, ext_count)
          else
            bind_outcome (ext_activate k u) (\<lambda>u.
            bind_outcome (ext_slot_call en u (UcExtConstruct k)) (\<lambda>(r, u).
              if r \<noteq> 0 then ext_server_try en endp name ks args go_on (u, p, ext_count)
              else
                bind_outcome
                  (if ext_count + 1 > 1 then bind_outcome (mem_store (up_serv_buf u) p [44]) (\<lambda>b. Done (b, p + 1))
                   else buf_cpyapp ([13, 10] @ bytes_of_string ''Sec-WebSocket-Extensions: '') (up_serv_buf u, p)) (\<lambda>(b, p).
                bind_outcome (lws_snprintf (ext_room endp p) name (b, p)) (\<lambda>(b, p).
                bind_outcome
                  (case args of None \<Rightarrow> Done (None, u\<lparr>up_serv_buf := b\<rparr>, p)
                   | Some a \<Rightarrow>
                       bind_outcome (ext_args_loop en k endp a (u\<lparr>up_serv_buf := b\<rparr>, p)) (\<lambda>(a, u, p). Done (Some a, u, p))) (\<lambda>(args, u, p).
                  ext_server_try en endp name ks args
                    (go_on \<and> \<not> (case args of None \<Rightarrow> False | Some a \<Rightarrow> up_serv_buf u ! a = 44)) (ext_count_up u, p, ext_count + 1))))))))"

text \<open>The loop over the text of the header, at \<open>c\<close>: the name so far, whether characters are ignored up to the next comma,
  and where the arguments begin.\<close>

function ext_server_loop ::
  "'e upgrade_env \<Rightarrow> nat \<Rightarrow> nat \<Rightarrow> bytes \<Rightarrow> bool \<Rightarrow> nat option \<Rightarrow> 'e upgrade \<times> nat \<times> nat \<Rightarrow> (int \<times> 'e upgrade \<times> nat) outcome" where
  "ext_server_loop en endp c name ignore args st =
     (let b = up_serv_buf (fst st) in
      if c \<ge> 255 then Done (-1, fst st, fst (snd st))
      else if \<not> c < length b then Fault
      else if b ! c \<noteq> 0 \<and> b ! c \<noteq> 44 \<and> b ! c \<noteq> 9 then
        (let ignore = (ignore \<or> b ! c = 59);
             args = (if b ! c = 59 \<and> args = None then Some (c + 1) else args)
         in if ignore \<or> b ! c = 32 then ext_server_loop en endp (c + 1) name ignore args st
            else ext_server_loop en endp (c + 1) (if length name < 63 then name @ [b ! c] else name) ignore args st)
      else if b ! c \<noteq> 0 \<and> name = [] then ext_server_loop en endp (c + 1) [] False args st
      else
        (case (case args of None \<Rightarrow> Done None
               | Some a \<Rightarrow>
                   let a = a + length (takeWhile (\<lambda>x. x = 32) (drop a b)) in if a < length b then Done (Some a) else Fault) of
           Fault \<Rightarrow> Fault
         | Done args \<Rightarrow>
             (case ext_server_try en endp name [0..<length (ue_extensions en)] args (b ! c \<noteq> 0) st of
                Fault \<Rightarrow> Fault
              | Done (Inl (r, u)) \<Rightarrow> Done (r, u, fst (snd st))
              | Done (Inr (args, go_on, st)) \<Rightarrow>
                  if go_on then ext_server_loop en endp (c + 1) [] False None st else Done (0, fst st, fst (snd st)))))"
  by pat_completeness auto
termination
  by (relation "measure (\<lambda>(en, endp, c, name, ignore, args, st). 255 - c)") auto

declare ext_server_loop.simps [simp del]

definition lws_extension_server_handshake :: "'e upgrade_env \<Rightarrow> 'e upgrade \<Rightarrow> nat \<Rightarrow> nat \<Rightarrow> (int \<times> 'e upgrade \<times> nat) outcome" where
  "lws_extension_server_handshake en u p budget =
     bind_outcome (lws_hdr_total_length (up_ah u) 9) (\<lambda>len.
       if len = 0 then Done (0, u, p)
       else
         bind_outcome (lws_hdr_copy (up_ah u) (c_int (length (up_serv_buf u))) 9) (\<lambda>(n, text).
         bind_outcome (mem_store (up_serv_buf u) 0 (bytes_of text)) (\<lambda>b.
           let u = u\<lparr>up_serv_buf := b\<rparr> in
           if n < 0 then Done (1, u, p)
           else ext_server_loop en (p + budget - 1) 0 [] False None (u\<lparr>up_wsi := (up_wsi u)\<lparr>count_act_ext := 0\<rparr>\<rparr>, p, 0))))"

section \<open>The response\<close>

definition ws_guid :: bytes where
  "ws_guid = bytes_of_string ''258EAFA5-E914-47DA-95CA-C5AB0DC85B11''"

text \<open>The hash of the key in base64 at the start of the service buffer: its length, \<open>None\<close> when the handshake is
  refused, and the buffer.\<close>

definition handshake_accept :: "'e upgrade \<Rightarrow> (nat option \<times> bytes) outcome" where
  "handshake_accept u =
     bind_outcome (lws_hdr_total_length (up_ah u) 3) (\<lambda>host_len.
     bind_outcome (lws_hdr_total_length (up_ah u) 32) (\<lambda>key_len.
       if host_len = 0 \<or> key_len = 0 \<or> key_len \<ge> 128 then Done (None, up_serv_buf u)
       else
         bind_outcome (hdr_str (up_ah u) 32) (\<lambda>key.
           case key of None \<Rightarrow> Fault
           | Some key \<Rightarrow>
               let s = bytes_of key @ ws_guid in
               bind_outcome (mem_store (up_serv_buf u) 0 (s @ [0])) (\<lambda>b.
               bind_outcome (lws_SHA1 (take (length s) b)) (\<lambda>hash.
               bind_outcome (lws_b64_encode_string hash b (c_int (length b))) (\<lambda>(n, b).
                 Done (if n < 0 then None else Some (nat n), b)))))))"

definition response_head :: bytes where
  "response_head = bytes_of_string ''HTTP/1.1 101 Switching Protocols'' @ [13, 10] @ bytes_of_string ''Upgrade: WebSocket'' @ [13, 10] @
     bytes_of_string ''Connection: Upgrade'' @ [13, 10] @ bytes_of_string ''Sec-WebSocket-Accept: ''"

abbreviation (input) response_at :: nat where "response_at \<equiv> 128 + 256 + LWS_PRE"

text \<open>The protocol header, when the client sent one and the protocol has a name.\<close>

definition handshake_protocol :: "'e upgrade_env \<Rightarrow> 'e upgrade \<Rightarrow> bytes \<times> nat \<Rightarrow> (bytes \<times> nat) outcome" where
  "handshake_protocol en u bp =
     bind_outcome (lws_hdr_total_length (up_ah u) 12) (\<lambda>len.
       if len = 0 then Done bp
       else
         case up_protocol u of None \<Rightarrow> Fault
         | Some k \<Rightarrow>
             (case pr_name (ue_protocols en ! k) of None \<Rightarrow> Done bp
              | Some prot \<Rightarrow>
                  if prot = [] then Done bp
                  else bind_outcome (buf_cpyapp ([13, 10] @ bytes_of_string ''Sec-WebSocket-Protocol: '') bp) (lws_snprintf 128 prot)))"

text \<open>The user's own headers, and the flow control that follows the callback.\<close>

definition handshake_user_headers :: "'e upgrade_env \<Rightarrow> 'e upgrade \<Rightarrow> nat \<Rightarrow> (int \<times> 'e upgrade \<times> nat) outcome" where
  "handshake_user_headers en u p =
     (case up_protocol u of None \<Rightarrow> Fault
      | Some k \<Rightarrow>
          let add = ue_add_headers en (up_calls u) (int (length (up_serv_buf u)) - int p) in
          bind_outcome (upgrade_user en (u\<lparr>up_wsi := (up_wsi u)\<lparr>rxflow_will_be_applied := True\<rparr>\<rparr>) UcAddHeaders) (\<lambda>(n, u).
          bind_outcome (mem_store (up_serv_buf u) p add) (\<lambda>b.
            let u = u\<lparr>up_wsi := (up_wsi u)\<lparr>rxflow_will_be_applied := False\<rparr>, up_serv_buf := b\<rparr> in
            if n \<noteq> 0 then Done (n, u, p + length add)
            else bind_outcome (rx_flow_control_apply (ue_env en k) (up_wsi u)) (\<lambda>(n, w).
              Done (n, u\<lparr>up_wsi := w\<rparr>, p + length add)))))"

text \<open>Everything from the accept hash to the last empty line, in the service buffer; the result is 0 with the end of the
  response, or -1.\<close>

definition handshake_compose :: "'e upgrade_env \<Rightarrow> 'e upgrade \<Rightarrow> (int \<times> 'e upgrade \<times> nat) outcome" where
  "handshake_compose en u =
     bind_outcome (handshake_accept u) (\<lambda>(r, b).
       case r of None \<Rightarrow> Done (-1, u\<lparr>up_serv_buf := b\<rparr>, 0)
       | Some accept_len \<Rightarrow>
           let (r, u) = lws_ensure_user_space en (u\<lparr>up_serv_buf := b\<rparr>) in
           if r \<noteq> 0 then Done (-1, u, 0)
           else
             bind_outcome (buf_cpyapp response_head (up_serv_buf u, response_at)) (\<lambda>(b, p).
             bind_outcome (c_str b) (\<lambda>accept.
             bind_outcome (mem_store b p (accept @ [0])) (\<lambda>b.
             bind_outcome (handshake_protocol en u (b, p + accept_len)) (\<lambda>(b, p).
             bind_outcome (lws_extension_server_handshake en (u\<lparr>up_serv_buf := b\<rparr>) p 192) (\<lambda>(r, u, p).
               if r \<noteq> 0 then Done (-1, u, p)
               else
                 bind_outcome (buf_cpyapp [13, 10] (up_serv_buf u, p)) (\<lambda>(b, p).
                 bind_outcome (handshake_user_headers en (u\<lparr>up_serv_buf := b\<rparr>) p) (\<lambda>(r, u, p).
                   if r \<noteq> 0 then Done (-1, u, p)
                   else bind_outcome (buf_cpyapp [13, 10] (up_serv_buf u, p)) (\<lambda>(b, p). Done (0, u\<lparr>up_serv_buf := b\<rparr>, p))))))))))"

text \<open>The options of the mount the request is for.\<close>

definition handshake_mount :: "'e upgrade_env \<Rightarrow> 'e upgrade \<Rightarrow> (int \<times> 'e upgrade) outcome" where
  "handshake_mount en u =
     bind_outcome (hdr_str (up_ah u) 0) (\<lambda>uri.
     bind_outcome (lws_hdr_total_length (up_ah u) 0) (\<lambda>len.
     bind_outcome (lws_find_mount (ue_mounts en) (up_mux_substream u) (up_ah u) uri (int len)) (\<lambda>hit.
       if (case hit of None \<Rightarrow> False | Some m \<Rightarrow> mount_cgienv m) then
         bind_outcome (upgrade_user en u UcPmo) (\<lambda>(n, u). Done (if n \<noteq> 0 then 1 else 0, u))
       else Done (0, u))))"

definition handshake_0405 :: "'e upgrade_env \<Rightarrow> 'e upgrade \<Rightarrow> (int \<times> 'e upgrade) outcome option" where
  "handshake_0405 en u =
     bind_run (Some (handshake_compose en u)) (\<lambda>(r, u, p).
       if r \<noteq> 0 then Some (Done (-1, u))
       else
         case up_protocol u of None \<Rightarrow> Some Fault
         | Some k \<Rightarrow>
             let len = p - response_at;
                 ub = \<lparr>tb_front = take response_at (up_serv_buf u), tb_body = take len (drop response_at (up_serv_buf u))\<rparr>
             in bind_run (lws_write (ue_env en k) (up_wsi u) ub LWS_WRITE_HTTP_HEADERS) (\<lambda>(n, _, w).
                  let u = u\<lparr>up_wsi := w\<rparr> in
                  if n \<noteq> c_int len then Some (Done (-1, u))
                  else Some (handshake_mount en
                    (u\<lparr>up_wsi := w\<lparr>wsi_state := LRS_ESTABLISHED, lws_rx_parse_state := LWS_RXPS_NEW\<rparr>\<rparr>))))"

section \<open>The upgrade\<close>

text \<open>\<open>wsi->ws = lws_zalloc (sizeof (*wsi->ws))\<close>: the fields of \<open>struct _lws_websocket_related\<close>, with room for
  \<open>LWS_MAX_EXTENSIONS_ACTIVE\<close>, 1, extensions.\<close>

definition ws_zalloc :: "'e wsi \<Rightarrow> 'e wsi" where
  "ws_zalloc w = w\<lparr>rx_ubuf := [], rx_ubuf_head := 0, rx_ubuf_alloc := 0, rx_packet_length := 0, opcode := 0, rsv := 0,
     rsv_first_msg := 0, mask := [0, 0, 0, 0], mask_idx := 0, ws_final := False, frame_is_binary := False, all_zero_nonce := False,
     this_frame_masked := False, inside_frame := False, clean_buffer := False, payload_is_close := False,
     pong_pending_flag := False, continuation_possible := False, owed_a_fin := False, check_utf8 := False,
     defeat_check_utf8 := False, stashed_write_pending := False, send_check_ping := False, first_fragment := False,
     peer_has_sent_close := False, extension_data_pending := False, rx_draining_ext := False, tx_draining_ext := False,
     pmd_trailer_application := False, ping_payload_buf := replicate 125 0, pong_payload_buf := replicate 125 0,
     pong_payload_len := 0, close_in_ping_buffer_len := 0, utf8 := 0, stashed_write_type := 0, tx_draining_stashed_wp := 0,
     ietf_spec_revision := 0, count_act_ext := 0, act_ext_user := [None]\<rparr>"

text \<open>The version the client announced, in the 8 bits of \<open>ietf_spec_revision\<close>.\<close>

definition upgrade_version :: "allocated_headers option \<Rightarrow> nat outcome" where
  "upgrade_version ah =
     bind_outcome (lws_hdr_total_length ah WSI_TOKEN_VERSION) (\<lambda>len.
       if len = 0 then Done 0
       else bind_outcome (hdr_str ah WSI_TOKEN_VERSION) (\<lambda>s.
         case s of None \<Rightarrow> Fault | Some s \<Rightarrow> bind_outcome (c_atoi (s @ [0])) (\<lambda>v. Done (nat (v mod 256)))))"

text \<open>From the response on: the frame buffer, the user's \<open>LWS_CALLBACK_ESTABLISHED\<close>, and the end of the header table.\<close>

definition upgrade_establish :: "'e upgrade_env \<Rightarrow> nat \<Rightarrow> 'e upgrade \<Rightarrow> (int \<times> 'e upgrade) outcome" where
  "upgrade_establish en k u =
     bind_outcome (lws_server_init_wsi_for_ws (ue_env en k) (ue_rx_mem en k) (up_wsi u)) (\<lambda>(r, w).
       if r \<noteq> 0 then Done (1, u\<lparr>up_wsi := w\<rparr>) else Done (0, u\<lparr>up_wsi := w, up_ah := None\<rparr>))"

definition upgrade_shake_hands :: "'e upgrade_env \<Rightarrow> 'e upgrade \<Rightarrow> (int \<times> 'e upgrade) outcome option" where
  "upgrade_shake_hands en u =
     (if h2_stream_carries_ws (up_wsi u) then
        (case ue_h2_ws_handshake en u of (r, u) \<Rightarrow>
           if r \<noteq> 0 then Some (Done (1, u))
           else Some (Done (0, u\<lparr>up_wsi := (up_wsi u)\<lparr>wsi_state := LRS_ESTABLISHED, role_client := False, h2_encapsulation := True\<rparr>\<rparr>)))
      else bind_run (handshake_0405 en u) (\<lambda>(r, u). Some (Done (if r \<noteq> 0 then 1 else 0, u))))"

definition lws_process_ws_upgrade2 :: "'e upgrade_env \<Rightarrow> 'e upgrade \<Rightarrow> (int \<times> 'e upgrade) outcome option" where
  "lws_process_ws_upgrade2 en u =
     (case up_protocol u of None \<Rightarrow> Some Fault
      | Some k \<Rightarrow>
          let auth = ue_basic_auth en k (up_ah u);
              u = (case auth of None \<Rightarrow> u | Some (_, ah) \<Rightarrow> u\<lparr>up_ah := ah\<rparr>)
          in if (case auth of None \<Rightarrow> False | Some (res, _) \<Rightarrow> res \<noteq> LCBA_CONTINUE)
             then Some (Done (ue_refused en (fst (the auth)) u))
             else
               let u = (if h2_stream_carries_ws (up_wsi u) then u
                        else u\<lparr>up_wsi := (up_wsi u)\<lparr>wsi_state := LRS_ESTABLISHED, role_client := False\<rparr>\<rparr>)
               in if \<not> ue_alloc_ws en then Some (Done (1, u))
                  else
                    let u = u\<lparr>up_wsi := ws_zalloc (up_wsi u), up_active := [None]\<rparr> in
                    bind_run (Some (upgrade_version (up_ah u))) (\<lambda>v.
                    let u = u\<lparr>up_wsi := (up_wsi u)\<lparr>ietf_spec_revision := v\<rparr>\<rparr>;
                        (r, u) = lws_ensure_user_space en u
                    in if r \<noteq> 0 then Some (Done (1, u))
                       else
                         bind_run (Some (hdr_str (up_ah u) 12)) (\<lambda>prot.
                         bind_run (Some (upgrade_user en u (UcFilter prot))) (\<lambda>(n, u).
                           if n \<noteq> 0 then Some (Done (1, u))
                           else
                             bind_run (upgrade_shake_hands en (u\<lparr>up_wsi := (up_wsi u)\<lparr>ietf_spec_revision := 13\<rparr>\<rparr>)) (\<lambda>(r, u).
                               if r \<noteq> 0 then Some (Done (1, u)) else Some (upgrade_establish en k u))))))"

text \<open>Which protocol the connection gets, from the header or by default; \<open>None\<close> refuses the request.\<close>

definition choose_protocol :: "'e upgrade_env \<Rightarrow> 'e upgrade \<Rightarrow> nat option outcome" where
  "choose_protocol en u =
     bind_outcome (lws_hdr_copy (up_ah u) 127 12) (\<lambda>(n, buf).
       if n < 0 then Done None
       else if n = 0 then
         Done (if ue_default_protocol_index en \<ge> length (ue_protocols en) then None else Some (ue_default_protocol_index en))
       else
         bind_outcome (select_protocol_loop en ((lws_tokenize_init buf [LWS_TOKENIZE_F_COMMA_SEP_LIST, LWS_TOKENIZE_F_MINUS_NONTERM,
             LWS_TOKENIZE_F_DOT_NONTERM, LWS_TOKENIZE_F_RFC7230_DELIMS])\<lparr>tz_len := nat n\<rparr>)) (\<lambda>r.
           Done (case r of Inl _ \<Rightarrow> None | Inr p \<Rightarrow> p)))"

definition lws_process_ws_upgrade :: "'e upgrade_env \<Rightarrow> 'e upgrade \<Rightarrow> (int \<times> 'e upgrade) outcome option" where
  "lws_process_ws_upgrade en u =
     bind_run (Some (if up_mux_substream u then Done True
                     else upgrade_conn_ok (up_ah u) 128 [LWS_TOKENIZE_F_COMMA_SEP_LIST, LWS_TOKENIZE_F_DOT_NONTERM,
                       LWS_TOKENIZE_F_RFC7230_DELIMS, LWS_TOKENIZE_F_MINUS_NONTERM])) (\<lambda>ok.
       if \<not> ok then Some (Done (1, u))
       else
         bind_run (Some (choose_protocol en u)) (\<lambda>p.
           case p of None \<Rightarrow> Some (Done (1, u))
           | Some k \<Rightarrow> bind_run (Some (lws_bind_protocol en k u)) (\<lambda>(_, u). lws_process_ws_upgrade2 en u)))"

end
