(* ===== verification/Ws_Response.thy ===== *)
theory Ws_Response
  imports Ws_Upgrade
begin

text \<open>
  What the server answers: the headers of a parsed request as the handshake reads them, the choice of the protocol, and the
  response, with the accept hash that RFC 6455 asks for.
\<close>

section \<open>Reading a parsed header\<close>

definition hdrs_ok :: "nat \<Rightarrow> allocated_headers \<Rightarrow> bool" where
  "hdrs_ok mx ah \<longleftrightarrow> (\<exists>lim. hdr_resting mx lim ah)"

lemma hdrs_okD: "hdrs_ok mx ah \<Longrightarrow> hdr_shape mx ah"
  by (auto simp: hdrs_ok_def hdr_resting_def)

lemma total_length_holds:
  assumes "hdrs_ok mx ah" and "hdr_holds ah t v" and "t < 96"
  shows "lws_hdr_total_length (Some ah) t = Done (length v)"
proof -
  let ?n = "ah_frag_index ah ! t"
  have H: "1 \<le> ?n" "?n \<le> ah_nfrag ah" "fnext ah ?n = 0" "flen ah ?n = length v" using assms(2) by (auto simp: hdr_holds_def Let_def)
  have S: "length (ah_frags ah) = 96" "length (ah_frag_index ah) = 96" "ah_nfrag ah < 96" using hdrs_okD [OF assms(1)] by (auto simp: hdr_shape_def)
  have "frag_chain (Suc 95) (ah_frags ah) ?n = Done [?n]" unfolding frag_chain.simps(2) using H(2,3) S by simp
  then have c: "hdr_chain ah ?n = Done [?n]" using S(1) by (simp add: hdr_chain_def)
  show ?thesis using c H(1,4) S assms(3) by (simp add: lws_hdr_total_length_def index_at_def)
qed

lemma total_length_absent:
  "hdrs_ok mx ah \<Longrightarrow> ah_frag_index ah ! t = 0 \<Longrightarrow> t < 96 \<Longrightarrow> lws_hdr_total_length (Some ah) t = Done 0"
  by (auto dest!: hdrs_okD simp: lws_hdr_total_length_def index_at_def hdr_shape_def)

lemma hdr_str_absent: "hdrs_ok mx ah \<Longrightarrow> ah_frag_index ah ! t = 0 \<Longrightarrow> t < 96 \<Longrightarrow> hdr_str (Some ah) t = Done None"
  by (auto dest!: hdrs_okD simp: hdr_str_def lws_hdr_simple_ptr_def index_at_def hdr_shape_def)

lemma hdr_data_at:
  assumes "hdrs_ok mx ah" and "hdr_holds ah t v" and "t < 96"
  obtains r where "drop (off ah (ah_frag_index ah ! t)) (ah_data ah) = v @ 0 # r"
    and "lws_hdr_simple_ptr (Some ah) t = Done (Some (off ah (ah_frag_index ah ! t)))"
proof -
  let ?n = "ah_frag_index ah ! t"
  have H: "1 \<le> ?n" "?n \<le> ah_nfrag ah" "flen ah ?n = length v" "hdr_val ah ?n = v" "hdr_nul ah ?n" using assms(2) by (auto simp: hdr_holds_def Let_def)
  have S: "length (ah_frags ah) = 96" "length (ah_frag_index ah) = 96" "ah_nfrag ah < 96" using hdrs_okD [OF assms(1)] by (auto simp: hdr_shape_def)
  obtain lim where "hdr_lay ah (ah_nfrag ah) lim" using assms(1) by (auto simp: hdrs_ok_def hdr_resting_def)
  then obtain j where "hdr_seal ah ?n (if ?n < ah_nfrag ah then off ah (?n + 1) else lim) j" using H(1,2) by (rule hdr_layD)
  then have b: "off ah ?n + length v < length (ah_data ah)" using H(3) by (auto simp: hdr_seal_def)
  let ?d = "drop (off ah ?n) (ah_data ah)"
  have "take (length v) ?d = v" using H(3,4) by (simp add: hdr_val_def)
  moreover have "drop (length v) ?d = 0 # drop (length v + 1) ?d"
    using b H(3,5) Cons_nth_drop_Suc [of "off ah ?n + length v" "ah_data ah"] by (simp add: hdr_nul_def add.commute)
  ultimately have "?d = v @ 0 # drop (length v + 1) ?d" by (metis append_take_drop_id)
  moreover have "lws_hdr_simple_ptr (Some ah) t = Done (Some (off ah ?n))"
    using H(1,2) S assms(3) by (simp add: lws_hdr_simple_ptr_def index_at_def frag_at_def)
  ultimately show thesis by (rule that)
qed

lemma hdr_str_holds:
  assumes "hdrs_ok mx ah" and "hdr_holds ah t v" and "t < 96" and "0 \<notin> set v"
  shows "hdr_str (Some ah) t = Done (Some v)"
proof -
  obtain r where "drop (off ah (ah_frag_index ah ! t)) (ah_data ah) = v @ 0 # r"
    and "lws_hdr_simple_ptr (Some ah) t = Done (Some (off ah (ah_frag_index ah ! t)))" by (rule hdr_data_at [OF assms(1-3)])
  then show ?thesis using assms(4) by (simp add: hdr_str_def)
qed

lemma hdr_copy_ok_holds:
  assumes "hdrs_ok mx ah" and "hdr_holds ah t v" and "t < 96" and "v \<noteq> []" and "0 \<notin> set v" and "int (length v) < len"
  shows "lws_hdr_copy (Some ah) len t = Done (int (length v), v @ [0])"
  using lws_hdr_copy_holds [OF assms(2) _ assms(3-6)] assms(1) by (auto simp: hdrs_ok_def)

lemma hdr_copy_absent: "hdrs_ok mx ah \<Longrightarrow> ah_frag_index ah ! t = 0 \<Longrightarrow> t < 96 \<Longrightarrow> lws_hdr_copy (Some ah) len t = Done (0, [0])"
  using total_length_absent [of mx ah t] by (simp add: lws_hdr_copy_def)

section \<open>Lists of tokens\<close>

text \<open>A header value that is a list of tokens, each with the blanks before it.\<close>

fun list_text :: "(int list \<times> int list) list \<Rightarrow> int list" where
  "list_text [] = []"
| "list_text [(sp, t)] = sp @ t"
| "list_text ((sp, t) # x # xs) = sp @ t @ 44 # list_text (x # xs)"

definition token_item :: "int list \<times> int list \<Rightarrow> bool" where
  "token_item x \<longleftrightarrow> set (fst x) \<subseteq> {32, 9} \<and> list_token (snd x)"

definition list_flags :: "lws_tokenize_t \<Rightarrow> bool" where
  "list_flags ts \<longleftrightarrow> tz_flag ts LWS_TOKENIZE_F_MINUS_NONTERM \<and> tz_flag ts LWS_TOKENIZE_F_COMMA_SEP_LIST"

text \<open>Before an item of the list, with the rest of the list to come and nothing behind it.\<close>

definition at_list :: "lws_tokenize_t \<Rightarrow> (int list \<times> int list) list \<Rightarrow> bool" where
  "at_list ts xs \<longleftrightarrow> list_flags ts \<and> tz_sees ts (list_text xs) \<and> tz_len ts = length (list_text xs) \<and> tz_delim ts \<noteq> LWSTZ_DT_NEED_DELIM"

lemma at_list_token:
  assumes "at_list ts ((sp, t) # xs)" and "token_item (sp, t)"
  obtains ts1 where "lws_tokenize ts = Done (LWS_TOKZE_TOKEN, ts1)" and "\<exists>k. tz_token ts1 = Some k \<and> (\<exists>r. drop k (tz_text ts1) = t @ r)"
    and "tz_token_len ts1 = length t" and "list_flags ts1" and "tz_delim ts1 = LWSTZ_DT_NEED_DELIM"
    and "xs = [] \<Longrightarrow> tz_len ts1 = 0" and "xs \<noteq> [] \<Longrightarrow> tz_sees ts1 (44 # list_text xs) \<and> tz_len ts1 = Suc (length (list_text xs))"
proof -
  define r where "r = (if xs = [] then [] else 44 # list_text xs)"
  have tx: "list_text ((sp, t) # xs) = sp @ t @ r" by (cases xs) (auto simp: r_def)
  have A: "list_flags ts" "tz_sees ts (sp @ t @ r)" "tz_len ts = length (sp @ t @ r)" "tz_delim ts \<noteq> LWSTZ_DT_NEED_DELIM"
    using assms(1) unfolding at_list_def tx by auto
  have I: "set sp \<subseteq> {32, 9}" "list_token t" using assms(2) by (auto simp: token_item_def)
  let ?ts = "tz_after (length sp) (length t) ts"
  have e: "lws_tokenize ts = Done (LWS_TOKZE_TOKEN, ?ts)"
    by (rule lws_tokenize_token [OF A(2) I]) (use A in \<open>auto simp: list_flags_def r_def\<close>)
  have tne: "t \<noteq> []" using I(2) by (auto simp: list_token_def)
  have n: "length (sp @ t @ r) \<le> tz_len ts" "tz_start ts + length (sp @ t @ r) \<le> length (tz_text ts)" using tz_sees_len [OF A(2)] tne by auto
  have "take (length (sp @ t @ r)) (drop (tz_start ts) (tz_text ts)) = sp @ t @ r"
    using A(2) n(1) by (simp add: tz_sees_def tz_rest_def min_absorb1)
  then have d: "drop (tz_start ts) (tz_text ts) = (sp @ t @ r) @ drop (length (sp @ t @ r)) (drop (tz_start ts) (tz_text ts))"
    by (metis append_take_drop_id)
  have "drop (tz_start ts + length sp) (tz_text ts) = drop (length sp) (drop (tz_start ts) (tz_text ts))" by (simp add: add.commute)
  then have dt: "\<exists>q. drop (tz_start ts + length sp) (tz_text ts) = t @ q" using d by (metis append.assoc append_eq_conv_conj)
  have s: "tz_sees ?ts r" using tz_sees_adv [of ts "sp @ t" r] A(2) by (simp add: tz_after_def)
  show thesis
  proof (rule that [OF e])
    show "\<exists>k. tz_token ?ts = Some k \<and> (\<exists>r. drop k (tz_text ?ts) = t @ r)" using dt by (auto simp: tz_after_def)
    show "xs \<noteq> [] \<Longrightarrow> tz_sees ?ts (44 # list_text xs) \<and> tz_len ?ts = Suc (length (list_text xs))"
      using s A(3) by (simp add: r_def tz_after_def)
  qed (use A in \<open>auto simp: tz_after_def list_flags_def r_def\<close>)
qed

text \<open>From a token to the next item, through the comma.\<close>

lemma at_list_comma:
  assumes "tz_sees ts (44 # list_text xs)" and "tz_len ts = Suc (length (list_text xs))" and "list_flags ts" and "tz_delim ts = LWSTZ_DT_NEED_DELIM"
  obtains ts1 where "lws_tokenize ts = Done (LWS_TOKZE_DELIMITER, ts1)" and "at_list ts1 xs"
proof -
  have "tz_sees (tz_adv 1 ts) (list_text xs)" using tz_sees_adv [of ts "[44]"] assms(1) by simp
  then show thesis using that lws_tokenize_comma [OF assms(1) _ assms(4)] assms(2,3) by (auto simp: at_list_def list_flags_def)
qed

lemma list_token_no_nul: "list_token t \<Longrightarrow> 0 \<notin> set t"
  by (auto simp: list_token_def list_all_iff token_char_def)

lemma list_text_no_nul: "list_all token_item xs \<Longrightarrow> 0 \<notin> set (list_text xs)"
  by (induction xs rule: list_text.induct) (auto simp: token_item_def dest: list_token_no_nul)

lemma list_text_nonempty: "xs \<noteq> [] \<Longrightarrow> list_all token_item xs \<Longrightarrow> list_text xs \<noteq> []"
  by (induction xs rule: list_text.induct) (auto simp: token_item_def list_token_def)

text \<open>Past a token that is not taken: at the end, or before the next item.\<close>

lemma at_list_next:
  assumes "at_list ts ((sp, t) # xs)" and "token_item (sp, t)" and "lws_tokenize ts = Done (e, ts1)"
  shows "xs = [] \<Longrightarrow> \<exists>ts2. lws_tokenize ts1 = Done (LWS_TOKZE_ENDED, ts2)"
    and "xs \<noteq> [] \<Longrightarrow> \<exists>ts2. lws_tokenize ts1 = Done (LWS_TOKZE_DELIMITER, ts2) \<and> at_list ts2 xs"
proof -
  from assms obtain "list_flags ts1" "tz_delim ts1 = LWSTZ_DT_NEED_DELIM" "xs = [] \<Longrightarrow> tz_len ts1 = 0"
    "xs \<noteq> [] \<Longrightarrow> tz_sees ts1 (44 # list_text xs) \<and> tz_len ts1 = Suc (length (list_text xs))"
    by (elim at_list_token) auto
  then show "xs = [] \<Longrightarrow> \<exists>ts2. lws_tokenize ts1 = Done (LWS_TOKZE_ENDED, ts2)"
    and "xs \<noteq> [] \<Longrightarrow> \<exists>ts2. lws_tokenize ts1 = Done (LWS_TOKZE_DELIMITER, ts2) \<and> at_list ts2 xs"
    using lws_tokenize_ended [of ts1] at_list_comma [of ts1 xs] by auto
qed

section \<open>The Connection header\<close>

definition upgrade_prefix :: "int list \<Rightarrow> bool" where
  "upgrade_prefix t \<longleftrightarrow> map ascii_lower t = take (length t) (name_bytes ''upgrade'')"

lemma strncmp_by_lower:
  "list_all token_char t \<Longrightarrow> list_all (\<lambda>c. 97 \<le> c \<and> c \<le> 122) u \<Longrightarrow>
   strncmp_by ascii_lower (t @ r) (u @ [0]) (length t) = Done (map ascii_lower t = take (length t) u)"
proof (induction t arbitrary: u)
  case (Cons c t)
  have c: "c \<noteq> 0" "ascii_lower c \<noteq> 0" using Cons.prems(1) by (auto simp: token_char_def ascii_lower_def)
  have z: "ascii_lower 0 = 0" by (simp add: ascii_lower_def)
  show ?case
  proof (cases u)
    case (Cons b u')
    then have "ascii_lower b = b" using Cons.prems by (simp add: ascii_lower_def)
    then show ?thesis using Cons Cons.IH [of u'] Cons.prems c by auto
  qed (use c z in simp)
qed simp

lemma upgrade_token_hit:
  assumes "list_token t"
  shows "strncasecmp_eq (t @ r) (name_bytes ''upgrade'' @ [0]) (length t) = Done (upgrade_prefix t)"
  unfolding strncasecmp_eq_def upgrade_prefix_def
  by (rule strncmp_by_lower) (use assms in \<open>simp_all add: list_token_def name_bytes_def\<close>)

lemma upgrade_token_loop_list:
  "at_list ts xs \<Longrightarrow> xs \<noteq> [] \<Longrightarrow> list_all token_item xs \<Longrightarrow>
   upgrade_token_loop ts = Done (list_ex (\<lambda>x. upgrade_prefix (snd x)) xs)"
proof (induction xs arbitrary: ts)
  case (Cons x xs)
  obtain sp t where x: "x = (sp, t)" by (cases x)
  have I: "token_item (sp, t)" "list_token t" using Cons.prems(3) by (auto simp: x token_item_def)
  obtain ts1 k r where e: "lws_tokenize ts = Done (LWS_TOKZE_TOKEN, ts1)" "tz_token ts1 = Some k" "drop k (tz_text ts1) = t @ r"
      "tz_token_len ts1 = length t" using at_list_token [of ts sp t xs] Cons.prems(1) I(1) unfolding x by metis
  have s: "upgrade_token_loop ts = (if upgrade_prefix t then Done True else upgrade_token_loop ts1)"
    by (subst upgrade_token_loop.simps) (simp add: e upgrade_token_hit [OF I(2)])
  note N = at_list_next [OF Cons.prems(1) [unfolded x] I(1) e(1)]
  show ?case
  proof (cases "xs = []")
    case True
    then obtain ts2 where "lws_tokenize ts1 = Done (LWS_TOKZE_ENDED, ts2)" using N(1) by blast
    then have "upgrade_token_loop ts1 = Done False" by (subst upgrade_token_loop.simps) simp
    then show ?thesis using s True by (simp add: x)
  next
    case False
    then obtain ts2 where t2: "lws_tokenize ts1 = Done (LWS_TOKZE_DELIMITER, ts2)" "at_list ts2 xs" using N(2) by blast
    have "upgrade_token_loop ts1 = upgrade_token_loop ts2" by (subst upgrade_token_loop.simps) (simp add: t2(1))
    then show ?thesis using s Cons.IH [OF t2(2) False] Cons.prems(3) by (simp add: x)
  qed
qed simp

lemma at_list_init:
  assumes "LWS_TOKENIZE_F_MINUS_NONTERM \<in> set fl" and "LWS_TOKENIZE_F_COMMA_SEP_LIST \<in> set fl"
  shows "at_list ((lws_tokenize_init (list_text xs @ [0]) fl)\<lparr>tz_len := nat (int (length (list_text xs)))\<rparr>) xs"
  using assms by (simp add: at_list_def list_flags_def lws_tokenize_init_def tz_sees_def tz_rest_def)

lemma upgrade_conn_list:
  assumes "hdrs_ok mx ah" and "hdr_holds ah 4 (list_text xs)" and "xs \<noteq> []" and "list_all token_item xs"
    and "int (length (list_text xs)) + 1 < sz" and "LWS_TOKENIZE_F_MINUS_NONTERM \<in> set fl" and "LWS_TOKENIZE_F_COMMA_SEP_LIST \<in> set fl"
  shows "upgrade_conn_ok (Some ah) sz fl = Done (list_ex (\<lambda>x. upgrade_prefix (snd x)) xs)"
proof -
  note ne = list_text_nonempty [OF assms(3,4)]
  have "lws_hdr_copy (Some ah) (sz - 1) 4 = Done (int (length (list_text xs)), list_text xs @ [0])"
    using hdr_copy_ok_holds [OF assms(1,2) _ ne list_text_no_nul [OF assms(4)], of "sz - 1"] assms(5) by simp
  then show ?thesis
    using upgrade_token_loop_list [OF at_list_init [OF assms(6,7)] assms(3,4)] ne by (simp add: upgrade_conn_ok_def del: nat_int)
qed

section \<open>The protocol\<close>

text \<open>The first of the client's protocols that the vhost has.\<close>

fun first_known :: "'e upgrade_env \<Rightarrow> int list list \<Rightarrow> nat option" where
  "first_known en [] = None"
| "first_known en (t # ts) = (case lws_vhost_name_to_protocol en (bytes_of t) of Some k \<Rightarrow> Some k | None \<Rightarrow> first_known en ts)"

lemma select_protocol_list:
  "at_list ts xs \<Longrightarrow> xs \<noteq> [] \<Longrightarrow> list_all token_item xs \<Longrightarrow> list_all (\<lambda>x. length (snd x) < 63) xs \<Longrightarrow>
   select_protocol_loop en ts = Done (Inr (first_known en (map snd xs)))"
proof (induction xs arbitrary: ts)
  case (Cons x xs)
  obtain sp t where x: "x = (sp, t)" by (cases x)
  have I: "token_item (sp, t)" "length t < 63" using Cons.prems(3,4) by (auto simp: x)
  obtain ts1 k r where e: "lws_tokenize ts = Done (LWS_TOKZE_TOKEN, ts1)" "tz_token ts1 = Some k" "drop k (tz_text ts1) = t @ r"
      "tz_token_len ts1 = length t" using at_list_token [of ts sp t xs] Cons.prems(1) I(1) unfolding x by metis
  have ne: "t \<noteq> []" using I(1) by (auto simp: token_item_def list_token_def)
  have "length (drop k (tz_text ts1)) = length t + length r" unfolding e(3) by simp
  then have "k + length t \<le> length (tz_text ts1)" using ne by (cases t) auto
  then have c: "lws_tokenize_cstr ts1 64 = Done (Some (t @ [0]))" using e(2-4) I(2) by (simp add: lws_tokenize_cstr_def mem_load_def)
  have s: "select_protocol_loop en ts = (case lws_vhost_name_to_protocol en (bytes_of t) of Some k \<Rightarrow> Done (Inr (Some k)) | None \<Rightarrow> select_protocol_loop en ts1)"
    by (subst select_protocol_loop.simps) (simp add: e c split: option.split)
  note N = at_list_next [OF Cons.prems(1) [unfolded x] I(1) e(1)]
  show ?case
  proof (cases "xs = []")
    case True
    then obtain ts2 where "lws_tokenize ts1 = Done (LWS_TOKZE_ENDED, ts2)" using N(1) by blast
    then have "select_protocol_loop en ts1 = Done (Inr None)" by (subst select_protocol_loop.simps) simp
    then show ?thesis using s True by (simp add: x split: option.split)
  next
    case False
    then obtain ts2 where t2: "lws_tokenize ts1 = Done (LWS_TOKZE_DELIMITER, ts2)" "at_list ts2 xs" using N(2) by blast
    have "select_protocol_loop en ts1 = select_protocol_loop en ts2" by (subst select_protocol_loop.simps) (simp add: t2(1))
    then show ?thesis using s Cons.IH [OF t2(2) False] Cons.prems(3,4) by (simp add: x split: option.split)
  qed
qed simp

lemma choose_protocol_list:
  assumes "hdrs_ok mx ah" and "up_ah u = Some ah" and "hdr_holds ah 12 (list_text xs)" and "xs \<noteq> []" and "list_all token_item xs"
    and "list_all (\<lambda>x. length (snd x) < 63) xs" and "length (list_text xs) < 127"
  shows "choose_protocol en u = Done (first_known en (map snd xs))"
proof -
  note ne = list_text_nonempty [OF assms(4,5)]
  have "lws_hdr_copy (Some ah) 127 12 = Done (int (length (list_text xs)), list_text xs @ [0])"
    using hdr_copy_ok_holds [OF assms(1,3) _ ne list_text_no_nul [OF assms(5)]] assms(7) by simp
  then show ?thesis
    using select_protocol_list [OF at_list_init assms(4-6), of _ en] ne assms(2) by (simp add: choose_protocol_def del: nat_int bind_outcome_eq_Done)
qed

lemma choose_protocol_default:
  assumes "hdrs_ok mx ah" and "up_ah u = Some ah" and "ah_frag_index ah ! 12 = 0" and "ue_default_protocol_index en < length (ue_protocols en)"
  shows "choose_protocol en u = Done (Some (ue_default_protocol_index en))"
  using hdr_copy_absent [OF assms(1,3)] assms(2,4) by (simp add: choose_protocol_def)

section \<open>The accept hash\<close>

text \<open>RFC 6455, 4.2.2: the key followed by the GUID, hashed with SHA-1, in base64.\<close>

definition ws_accept :: "bytes \<Rightarrow> bytes" where
  "ws_accept key = rfc4648 encode_orig (fips_sha1 (key @ ws_guid))"

lemma fips_blocks_length: "length h = 5 \<Longrightarrow> length (fips_blocks n bs h) = 5"
  by (induction n arbitrary: bs h) (auto simp: fips_block_def Let_def split: prod.splits)

lemma fips_sha1_length: "length (fips_sha1 m) = 20"
proof -
  have "length (concat (map be_bytes hs)) = 4 * length hs" for hs by (induction hs) (auto simp: be_bytes_def)
  then show ?thesis using fips_blocks_length [of "[0x67452301, 0xefcdab89, 0x98badcfe, 0x10325476, 0xc3d2e1f0]"] by (simp add: fips_sha1_def Let_def)
qed

lemma ws_accept_length: "length (ws_accept key) = 28"
  by (simp add: ws_accept_def rfc4648_length fips_sha1_length)

lemma ws_accept_no_nul: "0 \<notin> set (ws_accept key)"
  unfolding ws_accept_def by (rule rfc4648_no_nul) (simp add: is_alphabet_def)

lemma ws_guid_length: "length ws_guid = 36"
  by (simp add: ws_guid_def bytes_of_string_def)

lemma b64_accept:
  assumes "29 < length b" and "length b < 2 ^ 31"
  shows "\<exists>r. lws_b64_encode_string (fips_sha1 (key @ ws_guid)) b (c_int (length b)) = Done (28, ws_accept key @ 0 # r) \<and> 29 + length r = length b"
proof -
  have c: "c_int (length b) = int (length b)" using assms(2) by (rule c_int_small)
  have l: "length (rfc4648 encode_orig (fips_sha1 (key @ ws_guid))) = 28" using ws_accept_length [of key] by (simp add: ws_accept_def)
  show ?thesis
    using lws_b64_encode_is_rfc4648 [of "int (length b)" b lws_b64_encode_string encode_orig "fips_sha1 (key @ ws_guid)"] assms
    unfolding c l by (simp add: ws_accept_def)
qed

lemma handshake_accept_ok:
  assumes "hdrs_ok mx ah" and "up_ah u = Some ah" and "hdr_holds ah 3 host" and "host \<noteq> []" and "hdr_holds ah 32 key" and "key \<noteq> []"
    and "0 \<notin> set key" and "length key < 128" and "400 \<le> length (up_serv_buf u)" and "length (up_serv_buf u) < 2 ^ 31"
  shows "\<exists>r. handshake_accept u = Done (Some 28, ws_accept (bytes_of key) @ 0 # r) \<and> 29 + length r = length (up_serv_buf u)"
proof -
  let ?s = "bytes_of key @ ws_guid"
  have L: "lws_hdr_total_length (Some ah) 3 = Done (length host)" "lws_hdr_total_length (Some ah) 32 = Done (length key)"
    using total_length_holds [OF assms(1,3)] total_length_holds [OF assms(1,5)] by simp_all
  have k: "hdr_str (Some ah) 32 = Done (Some key)" using hdr_str_holds [OF assms(1,5) _ assms(7)] by simp
  have sl: "length (?s @ [0]) \<le> length (up_serv_buf u)" using assms(8,9) ws_guid_length by simp
  then obtain b where b: "mem_store (up_serv_buf u) 0 (?s @ [0]) = Done b" by (simp add: mem_store_def)
  have "take (length ?s) b = take (length ?s) (take (length (?s @ [0])) (drop 0 b))" by (simp add: min_def)
  then have bt: "take (length ?s) b = ?s" unfolding mem_store_after [OF b] by simp
  have bl: "length b = length (up_serv_buf u)" by (rule mem_store_length [OF b])
  obtain r where r: "lws_b64_encode_string (fips_sha1 ?s) b (c_int (length b)) = Done (28, ws_accept (bytes_of key) @ 0 # r)" "29 + length r = length b"
    using b64_accept [of b "bytes_of key"] assms(9,10) bl by auto
  have "handshake_accept u = Done (Some 28, ws_accept (bytes_of key) @ 0 # r)"
    unfolding handshake_accept_def assms(2) L bind_outcome.simps k option.case Let_def b bt lws_SHA1_fips r(1) using assms(4,6,8) by simp
  then show ?thesis using r(2) bl by auto
qed

section \<open>The response\<close>

definition ws_response :: "bytes \<Rightarrow> bytes option \<Rightarrow> bytes \<Rightarrow> bytes" where
  "ws_response key prot add = response_head @ ws_accept key @
     (case prot of None \<Rightarrow> [] | Some p \<Rightarrow> [13, 10] @ bytes_of_string ''Sec-WebSocket-Protocol: '' @ p) @ [13, 10] @ add @ [13, 10]"

text \<open>The protocol the response names: that of the connection, if the client sent a list and the protocol has a name.\<close>

definition named_protocol :: "'e upgrade_env \<Rightarrow> allocated_headers \<Rightarrow> nat \<Rightarrow> bytes option" where
  "named_protocol en ah k =
     (if ah_frag_index ah ! 12 = 0 then None
      else case pr_name (ue_protocols en ! k) of None \<Rightarrow> None | Some p \<Rightarrow> if p = [] then None else Some p)"

lemma buf_store_ok:
  assumes "buf_holds base out (b, p)" and "p + length s \<le> length b"
  shows "\<exists>b'. mem_store b p s = Done b' \<and> length b' = length b \<and> take base b' = take base b \<and> buf_holds base (out @ s) (b', p + length s)"
proof -
  have h: "p = base + length out" "take (length out) (drop base b) = out" using assms(1) by (auto simp: buf_holds_def)
  obtain b' where b: "mem_store b p s = Done b'" using assms(2) by (simp add: mem_store_def)
  note T = mem_store_take [OF b] mem_store_after [OF b] mem_store_length [OF b]
  have "take base b' = take base (take p b')" using h(1) by (simp add: min_def)
  then have tb: "take base b' = take base b" unfolding T(1) using h(1) by (simp add: min_def)
  have "take (length out) (drop base b') = drop base (take p b')" using h(1) by (simp add: drop_take)
  then have o: "take (length out) (drop base b') = out" unfolding T(1) using h by (simp add: drop_take)
  then have "take (length (out @ s)) (drop base b') = out @ s" using T(2) h(1) by (simp add: take_add add.commute)
  then show ?thesis using b T(3) tb h(1) assms(2) by (auto simp: buf_holds_def)
qed

lemma ensure_user_space_ok:
  assumes "\<And>n. alloc (ue_env en k) n" and "up_protocol u = Some k"
  shows "\<exists>us. lws_ensure_user_space en u = (0, u\<lparr>up_user_space := us\<rparr>)"
proof (cases "pr_per_session_data_size (ue_protocols en ! k) \<noteq> 0 \<and> \<not> up_user_space u")
  case True
  then show ?thesis using assms by (auto simp: lws_ensure_user_space_def Let_def)
next
  case False
  then have "lws_ensure_user_space en u = (0, u\<lparr>up_user_space := up_user_space u\<rparr>)" using assms(2) by (auto simp: lws_ensure_user_space_def Let_def)
  then show ?thesis by blast
qed

lemma handshake_protocol_ok:
  assumes "hdrs_ok mx ah" and "up_ah u = Some ah" and "up_protocol u = Some k" and "ah_frag_index ah ! 12 = 0 \<or> hdr_holds ah 12 pv \<and> pv \<noteq> []"
    and "buf_holds base out (b, p)" and "case named_protocol en ah k of None \<Rightarrow> True | Some n \<Rightarrow> length n < 128 \<and> p + length n + 30 < length b"
  shows "\<exists>b' p'. handshake_protocol en u (b, p) = Done (b', p') \<and> length b' = length b \<and> take base b' = take base b \<and>
    buf_holds base (out @ (case named_protocol en ah k of None \<Rightarrow> [] | Some n \<Rightarrow> [13, 10] @ bytes_of_string ''Sec-WebSocket-Protocol: '' @ n)) (b', p')"
proof (cases "named_protocol en ah k")
  case None
  have "handshake_protocol en u (b, p) = Done (b, p)"
  proof (cases "ah_frag_index ah ! 12 = 0")
    case True
    then show ?thesis using total_length_absent [OF assms(1)] assms(2) by (simp add: handshake_protocol_def)
  next
    case False
    then have "lws_hdr_total_length (Some ah) 12 = Done (length pv)" using total_length_holds [OF assms(1), of 12 pv] assms(4) by simp
    then show ?thesis using None False assms(2-4)
      by (simp add: handshake_protocol_def named_protocol_def del: bind_outcome_eq_Done split: option.splits if_splits)
  qed
  then show ?thesis using None assms(5) by auto
next
  case (Some n)
  let ?h = "[13, 10] @ bytes_of_string ''Sec-WebSocket-Protocol: ''"
  have hl: "length ?h = 26" by (simp add: bytes_of_string_def)
  have N: "ah_frag_index ah ! 12 \<noteq> 0" "pr_name (ue_protocols en ! k) = Some n" "n \<noteq> []"
    using Some by (auto simp: named_protocol_def split: option.splits if_splits)
  have R: "length n < 128" "p + length n + 30 < length b" using assms(6) Some by simp_all
  have tl: "lws_hdr_total_length (Some ah) 12 = Done (length pv)" using total_length_holds [OF assms(1), of 12 pv] assms(4) N(1) by simp
  obtain b1 where b1: "buf_cpyapp ?h (b, p) = Done (b1, p + 26)" "length b1 = length b" "take base b1 = take base b" "buf_holds base (out @ ?h) (b1, p + 26)"
    using buf_cpyapp_ok [OF assms(5), of ?h] R(2) unfolding hl by auto
  obtain b2 where b2: "buf_cpyapp n (b1, p + 26) = Done (b2, p + 26 + length n)" "length b2 = length b1" "take base b2 = take base b1"
      "buf_holds base ((out @ ?h) @ n) (b2, p + 26 + length n)"
    using buf_cpyapp_ok [OF b1(4), of n] R(2) b1(2) by auto
  have "handshake_protocol en u (b, p) = Done (b2, p + 26 + length n)"
    unfolding handshake_protocol_def assms(2,3) tl bind_outcome.simps option.case N(2) b1(1) lws_snprintf_fits [OF R(1)] b2(1)
    using N(3) assms(4) N(1) by auto
  then show ?thesis using Some b1 b2 by auto
qed

text \<open>What the handshake needs of the request, of the vhost and of the user; \<open>add\<close> are the user's headers.\<close>

definition upgrade_request :: "nat \<Rightarrow> allocated_headers \<Rightarrow> int list \<Rightarrow> bool" where
  "upgrade_request mx ah key \<longleftrightarrow> hdrs_ok mx ah \<and> (\<exists>host. hdr_holds ah 3 host \<and> host \<noteq> []) \<and> hdr_holds ah 32 key \<and> key \<noteq> [] \<and>
     0 \<notin> set key \<and> length key < 128 \<and> ah_frag_index ah ! 9 = 0 \<and>
     (ah_frag_index ah ! WSI_TOKEN_VERSION = 0 \<or> (\<exists>ver. hdr_holds ah WSI_TOKEN_VERSION ver \<and> 0 \<notin> set ver)) \<and>
     (ah_frag_index ah ! 12 = 0 \<or> (\<exists>pv. hdr_holds ah 12 pv \<and> pv \<noteq> [] \<and> 0 \<notin> set pv))"

definition upgrade_ready :: "'e upgrade_env \<Rightarrow> nat \<Rightarrow> bytes \<Rightarrow> bool" where
  "upgrade_ready en k add \<longleftrightarrow> (\<forall>n. alloc (ue_env en k) n) \<and> has_callback (ue_env en k) \<and> (\<forall>cs c. ue_user en cs c = 0) \<and> (\<forall>cs n. ue_add_headers en cs n = add)"

lemma upgrade_user_ok: "upgrade_ready en k add \<Longrightarrow> up_protocol u = Some k \<Longrightarrow> upgrade_user en u c = Done (0, u\<lparr>up_calls := up_calls u @ [c]\<rparr>)"
  by (simp add: upgrade_user_def upgrade_ready_def)

lemma rxflow_nothing: "\<not> bit (rxflow_change_to w) 1 \<Longrightarrow> rx_flow_control_apply en w = Done (0, w)"
  by (simp add: rx_flow_control_apply_def)

lemma handshake_user_headers_ok:
  assumes "upgrade_ready en k add" and "up_protocol u = Some k" and "\<not> bit (rxflow_change_to (up_wsi u)) 1" and "buf_holds base out (up_serv_buf u, p)"
    and "p + length add \<le> length (up_serv_buf u)"
  shows "\<exists>b. handshake_user_headers en u p = Done (0, u\<lparr>up_wsi := (up_wsi u)\<lparr>rxflow_will_be_applied := False\<rparr>, up_calls := up_calls u @ [UcAddHeaders],
      up_serv_buf := b\<rparr>, p + length add) \<and> length b = length (up_serv_buf u) \<and> buf_holds base (out @ add) (b, p + length add)"
proof -
  have ad: "ue_add_headers en cs n = add" for cs n using assms(1) by (simp add: upgrade_ready_def)
  obtain b where b: "mem_store (up_serv_buf u) p add = Done b" "length b = length (up_serv_buf u)" "buf_holds base (out @ add) (b, p + length add)"
    using buf_store_ok [OF assms(4,5)] by blast
  let ?u = "u\<lparr>up_wsi := (up_wsi u)\<lparr>rxflow_will_be_applied := True\<rparr>\<rparr>"
  have c: "upgrade_user en ?u UcAddHeaders = Done (0, ?u\<lparr>up_calls := up_calls u @ [UcAddHeaders]\<rparr>)"
    using upgrade_user_ok [OF assms(1), of ?u] assms(2) by simp
  have "handshake_user_headers en u p = Done (0, u\<lparr>up_wsi := (up_wsi u)\<lparr>rxflow_will_be_applied := False\<rparr>, up_calls := up_calls u @ [UcAddHeaders],
      up_serv_buf := b\<rparr>, p + length add)"
    unfolding handshake_user_headers_def assms(2) option.case ad Let_def c bind_outcome.simps prod.case
    using b(1) rxflow_nothing [of "(up_wsi u)\<lparr>rxflow_will_be_applied := False\<rparr>"] assms(3) by (simp del: bind_outcome_eq_Done)
  then show ?thesis using b by blast
qed

lemma buf_holds_start: "base \<le> length b \<Longrightarrow> buf_holds base [] (b, base)"
  by (simp add: buf_holds_def)

lemma response_head_length: "length response_head = 97"
  by (simp add: response_head_def bytes_of_string_def)

lemma handshake_compose_ok:
  assumes req: "upgrade_request mx ah key" and "up_ah u = Some ah" and rdy: "upgrade_ready en k add" and "up_protocol u = Some k"
    and "\<not> bit (rxflow_change_to (up_wsi u)) 1" and "length (up_serv_buf u) < 2 ^ 31"
    and nm: "case named_protocol en ah k of None \<Rightarrow> True | Some n \<Rightarrow> length n < 128"
    and room: "response_at + length (ws_response (bytes_of key) (named_protocol en ah k) add) < length (up_serv_buf u)"
  shows "\<exists>us b. handshake_compose en u = Done (0, u\<lparr>up_wsi := (up_wsi u)\<lparr>rxflow_will_be_applied := False\<rparr>, up_user_space := us,
      up_calls := up_calls u @ [UcAddHeaders], up_serv_buf := b\<rparr>, response_at + length (ws_response (bytes_of key) (named_protocol en ah k) add)) \<and>
    buf_holds response_at (ws_response (bytes_of key) (named_protocol en ah k) add)
      (b, response_at + length (ws_response (bytes_of key) (named_protocol en ah k) add)) \<and> length b = length (up_serv_buf u)"
proof -
  let ?acc = "ws_accept (bytes_of key)" and ?L = "length (up_serv_buf u)"
  define ph where "ph = (case named_protocol en ah k of None \<Rightarrow> [] | Some n \<Rightarrow> [13, 10] @ bytes_of_string ''Sec-WebSocket-Protocol: '' @ n)"
  have resp: "ws_response (bytes_of key) (named_protocol en ah k) add = response_head @ ?acc @ ph @ [13, 10] @ add @ [13, 10]"
    by (simp add: ws_response_def ph_def)
  have rm: "400 + (97 + (28 + (length ph + (2 + (length add + 2))))) < ?L"
    using room unfolding resp by (simp add: response_head_length ws_accept_length)
  obtain host pv where Q: "hdrs_ok mx ah" "hdr_holds ah 3 host" "host \<noteq> []" "hdr_holds ah 32 key" "key \<noteq> []" "0 \<notin> set key" "length key < 128"
      "ah_frag_index ah ! 9 = 0" "ah_frag_index ah ! 12 = 0 \<or> hdr_holds ah 12 pv \<and> pv \<noteq> []"
    using req by (auto simp: upgrade_request_def)
  obtain r where a: "handshake_accept u = Done (Some 28, ?acc @ 0 # r)" "29 + length r = ?L"
    using handshake_accept_ok [OF Q(1) assms(2) Q(2-7)] rm assms(6) by auto
  let ?b0 = "?acc @ 0 # r"
  have l0: "length ?b0 = ?L" using a(2) ws_accept_length by simp
  obtain us where us: "lws_ensure_user_space en (u\<lparr>up_serv_buf := ?b0\<rparr>) = (0, u\<lparr>up_serv_buf := ?b0, up_user_space := us\<rparr>)"
    using ensure_user_space_ok [of en k "u\<lparr>up_serv_buf := ?b0\<rparr>"] rdy assms(4) by (auto simp: upgrade_ready_def)
  define u1 where "u1 = u\<lparr>up_serv_buf := ?b0, up_user_space := us\<rparr>"
  have u1: "up_serv_buf u1 = ?b0" "up_ah u1 = Some ah" "up_protocol u1 = Some k" using assms(2,4) by (simp_all add: u1_def)
  obtain b1 where b1: "buf_cpyapp response_head (?b0, 400) = Done (b1, 497)" "length b1 = ?L" "take 400 b1 = take 400 ?b0" "buf_holds 400 response_head (b1, 497)"
    using buf_cpyapp_ok [OF buf_holds_start [of 400 ?b0], of response_head] l0 rm by (auto simp: response_head_length)
  have "take 29 b1 = take 29 (take 400 b1)" by simp
  also have "\<dots> = ?acc @ [0]" unfolding b1(3) by (simp add: ws_accept_length)
  finally have "b1 = ?acc @ 0 # drop 29 b1" by (metis append.assoc append_Cons append_Nil append_take_drop_id)
  then have cs: "c_str b1 = Done ?acc" using c_str_append [OF ws_accept_no_nul] by metis
  obtain b2 where b2: "mem_store b1 497 (?acc @ [0]) = Done b2" "length b2 = ?L" "buf_holds 400 (response_head @ ?acc) (b2, 525)"
    using buf_cpyapp_ok [OF b1(4), of ?acc] rm b1(2) by (auto simp: buf_cpyapp_def ws_accept_length)
  have nm2: "case named_protocol en ah k of None \<Rightarrow> True | Some n \<Rightarrow> length n < 128 \<and> 525 + length n + 30 < length b2"
    using nm rm b2(2) by (auto simp: ph_def bytes_of_string_def split: option.splits)
  obtain b3 p3 where b3: "handshake_protocol en u1 (b2, 525) = Done (b3, p3)" "length b3 = ?L" "buf_holds 400 ((response_head @ ?acc) @ ph) (b3, p3)"
    using handshake_protocol_ok [OF Q(1) u1(2,3) Q(9) b2(3) nm2] b2(2) by (auto simp: ph_def)
  have p3: "p3 = 525 + length ph" using b3(3) by (simp add: buf_holds_def response_head_length ws_accept_length)
  have ex: "lws_extension_server_handshake en (u1\<lparr>up_serv_buf := b3\<rparr>) p3 192 = Done (0, u1\<lparr>up_serv_buf := b3\<rparr>, p3)"
    using total_length_absent [OF Q(1,8)] u1(2) by (simp add: lws_extension_server_handshake_def)
  obtain b4 where b4: "buf_cpyapp [13, 10] (b3, p3) = Done (b4, p3 + 2)" "length b4 = ?L" "buf_holds 400 (((response_head @ ?acc) @ ph) @ [13, 10]) (b4, p3 + 2)"
    using buf_cpyapp_ok [OF b3(3), of "[13, 10]"] rm b3(2) p3 by (auto simp: numeral_2_eq_2)
  let ?u4 = "u1\<lparr>up_serv_buf := b4\<rparr>"
  have h4: "up_protocol ?u4 = Some k" "\<not> bit (rxflow_change_to (up_wsi ?u4)) 1" "buf_holds 400 (((response_head @ ?acc) @ ph) @ [13, 10]) (up_serv_buf ?u4, p3 + 2)"
      "p3 + 2 + length add \<le> length (up_serv_buf ?u4)" using assms(4,5) b4(2,3) rm p3 by (simp_all add: u1_def)
  obtain b5 where b5: "handshake_user_headers en ?u4 (p3 + 2) = Done (0, ?u4\<lparr>up_wsi := (up_wsi u)\<lparr>rxflow_will_be_applied := False\<rparr>,
      up_calls := up_calls u @ [UcAddHeaders], up_serv_buf := b5\<rparr>, p3 + 2 + length add)" "length b5 = ?L"
      "buf_holds 400 ((((response_head @ ?acc) @ ph) @ [13, 10]) @ add) (b5, p3 + 2 + length add)"
    using handshake_user_headers_ok [OF rdy h4] b4(2) by (auto simp: u1_def)
  obtain b6 where b6: "buf_cpyapp [13, 10] (b5, p3 + 2 + length add) = Done (b6, p3 + 2 + length add + 2)" "length b6 = ?L"
      "buf_holds 400 (((((response_head @ ?acc) @ ph) @ [13, 10]) @ add) @ [13, 10]) (b6, p3 + 2 + length add + 2)"
    using buf_cpyapp_ok [OF b5(3), of "[13, 10]"] rm b5(2) p3 by (auto simp: numeral_2_eq_2)
  have pe: "p3 + 2 + length add + 2 = 400 + length (response_head @ ?acc @ ph @ [13, 10] @ add @ [13, 10])"
    using p3 by (simp add: response_head_length ws_accept_length)
  have "handshake_compose en u = Done (0, u\<lparr>up_wsi := (up_wsi u)\<lparr>rxflow_will_be_applied := False\<rparr>, up_user_space := us,
      up_calls := up_calls u @ [UcAddHeaders], up_serv_buf := b6\<rparr>, p3 + 2 + length add + 2)"
    unfolding handshake_compose_def a(1) bind_outcome.simps prod.case option.case us Let_def u1_def [symmetric] u1(1)
    using b1(1) cs b2(1) b3(1) ex b4(1) b5(1) b6(1) by (simp add: u1_def del: bind_outcome_eq_Done)
  then show ?thesis using b6(2,3) unfolding resp pe by (intro exI [of _ us] exI [of _ b6]) simp
qed

section \<open>On the wire\<close>

text \<open>The connection under the handshake: nothing waits to be sent, the socket works and the ws state is new.\<close>

definition wire_ready :: "'e env \<Rightarrow> 'e wsi \<Rightarrow> bool" where
  "wire_ready en w \<longleftrightarrow> socket_ok en \<and> healthy en \<and> buflist_out w = [] \<and> \<not> nwsi_buffered_out w \<and> \<not> deferred_transaction_completed w \<and>
     \<not> h2_stream_carries_ws w \<and> \<not> bit (rxflow_change_to w) 1"

lemma lws_write_headers:
  assumes "wire_ready en w" and "wsi_state w \<noteq> LRS_FLUSHING_BEFORE_CLOSE" and "\<not> tx_draining_ext w" and "tb_body ub \<noteq> []" and "length (tb_body ub) < 2 ^ 31"
  shows "\<exists>w'. lws_write en w ub LWS_WRITE_HTTP_HEADERS = Some (Done (int (length (tb_body ub)), ub, w')) \<and> tx_frame_of w' = tx_frame_of w \<and>
    out_stream w' = out_stream w @ tb_body ub"
proof -
  have ok: "buflist_ok (buflist_out w)" using assms(1) by (simp add: wire_ready_def buflist_ok_def)
  have c: "c_int (length (tb_body ub)) = int (length (tb_body ub))" using assms(5) by (rule c_int_small)
  obtain w' where w: "lws_issue_raw en w (Some (tb_body ub)) = Done (int (length (tb_body ub)), w')" "tx_frame_of w' = tx_frame_of w"
      "out_stream w' = out_stream w @ tb_body ub"
    using issue_raw_stream [of en w "tb_body ub"] assms(1,2,4) ok unfolding c by (auto simp: wire_ready_def)
  have "lws_write en w ub LWS_WRITE_HTTP_HEADERS = Some (Done (int (length (tb_body ub)), ub, w'))"
    using c w(1) assms(3)
    by (simp add: lws_write_def rops_write_role_protocol_ws_def tx_resume_draining_def is_http_write_def with_buf_def)
  then show ?thesis using w(2,3) by blast
qed

lemma find_mount_total:
  assumes "any_hdr ah (mount_uri_tokens mux) = Done known" and "0 \<notin> set u"
  shows "list_all mount_ok ms \<Longrightarrow> \<exists>r. find_mount_loop mux ah (Some u) (int (length u)) best hit ms = Done r"
proof (induction ms arbitrary: best hit)
  case (Cons m ms)
  then have "mount_ok m" by simp
  then show ?case using Cons mount_covers_iff [of m u] assms by (auto simp del: bind_outcome_eq_Done split: if_splits)
qed simp

lemma handshake_mount_ok:
  assumes "hdrs_ok mx ah" and "up_ah u = Some ah" and "hdr_holds ah 0 path" and "path \<noteq> []" and "0 \<notin> set path" and "list_all mount_ok (ue_mounts en)"
    and "upgrade_ready en k add" and "up_protocol u = Some k"
  shows "\<exists>cs. handshake_mount en u = Done (0, u\<lparr>up_calls := cs\<rparr>)"
proof -
  have tl: "lws_hdr_total_length (Some ah) 0 = Done (length path)" using total_length_holds [OF assms(1,3)] by simp
  have st: "hdr_str (Some ah) 0 = Done (Some path)" using hdr_str_holds [OF assms(1,3) _ assms(5)] by simp
  have "any_hdr (Some ah) (mount_uri_tokens (up_mux_substream u)) = Done True" using tl assms(4) by (simp add: mount_uri_tokens_def)
  then obtain hit where h: "lws_find_mount (ue_mounts en) (up_mux_substream u) (Some ah) (Some path) (int (length path)) = Done hit"
    using find_mount_total [OF _ assms(5,6)] unfolding lws_find_mount_def by blast
  have "handshake_mount en u = Done (0, u\<lparr>up_calls := (if (case hit of None \<Rightarrow> False | Some m \<Rightarrow> mount_cgienv m) then up_calls u @ [UcPmo] else up_calls u)\<rparr>)"
    unfolding handshake_mount_def assms(2) st tl bind_outcome.simps h by (simp add: upgrade_user_ok [OF assms(7,8)])
  then show ?thesis by blast
qed

lemma handshake_0405_ok:
  assumes req: "upgrade_request mx ah key" and "up_ah u = Some ah" and rdy: "upgrade_ready en k add" and "up_protocol u = Some k"
    and wr: "wire_ready (ue_env en k) (up_wsi u)" and st: "wsi_state (up_wsi u) = LRS_ESTABLISHED" and tx: "\<not> tx_draining_ext (up_wsi u)"
    and "length (up_serv_buf u) < 2 ^ 31" and nm: "case named_protocol en ah k of None \<Rightarrow> True | Some n \<Rightarrow> length n < 128"
    and room: "response_at + length (ws_response (bytes_of key) (named_protocol en ah k) add) < length (up_serv_buf u)"
    and path: "hdr_holds ah 0 path" "path \<noteq> []" "0 \<notin> set path" and "list_all mount_ok (ue_mounts en)"
  shows "\<exists>u'. handshake_0405 en u = Some (Done (0, u')) \<and> up_protocol u' = Some k \<and> up_ah u' = Some ah \<and>
    out_stream (up_wsi u') = out_stream (up_wsi u) @ ws_response (bytes_of key) (named_protocol en ah k) add"
proof -
  let ?out = "ws_response (bytes_of key) (named_protocol en ah k) add"
  have rx: "\<not> bit (rxflow_change_to (up_wsi u)) 1" using wr by (simp add: wire_ready_def)
  obtain us b where c: "handshake_compose en u = Done (0, u\<lparr>up_wsi := (up_wsi u)\<lparr>rxflow_will_be_applied := False\<rparr>, up_user_space := us,
      up_calls := up_calls u @ [UcAddHeaders], up_serv_buf := b\<rparr>, response_at + length ?out)" "buf_holds response_at ?out (b, response_at + length ?out)"
      "length b = length (up_serv_buf u)"
    using handshake_compose_ok [OF req assms(2) rdy assms(4) rx assms(8) nm room] by blast
  let ?w = "(up_wsi u)\<lparr>rxflow_will_be_applied := False\<rparr>" and ?ub = "\<lparr>tb_front = take response_at b, tb_body = ?out\<rparr>"
  have body: "take (length ?out) (drop 400 b) = ?out" using c(2) by (simp add: buf_holds_def)
  have ne: "?out \<noteq> []" "length ?out < 2 ^ 31" using room assms(8) by (simp_all add: ws_response_def)
  have "wire_ready (ue_env en k) ?w" using wr by (simp add: wire_ready_def)
  then obtain w' where w: "lws_write (ue_env en k) ?w ?ub LWS_WRITE_HTTP_HEADERS = Some (Done (int (length ?out), ?ub, w'))"
      "out_stream w' = out_stream ?w @ ?out"
    using lws_write_headers [of "ue_env en k" ?w ?ub] st tx ne by auto
  let ?u = "u\<lparr>up_user_space := us, up_calls := up_calls u @ [UcAddHeaders], up_serv_buf := b,
      up_wsi := w'\<lparr>wsi_state := LRS_ESTABLISHED, lws_rx_parse_state := LWS_RXPS_NEW\<rparr>\<rparr>"
  obtain cs where m: "handshake_mount en ?u = Done (0, ?u\<lparr>up_calls := cs\<rparr>)"
    using handshake_mount_ok [of mx ah ?u path en k add] req assms(2,4) path assms(14) rdy by (auto simp: upgrade_request_def)
  have ci: "c_int (length ?out) = int (length ?out)" using ne(2) by (rule c_int_small)
  have "handshake_0405 en u = Some (Done (0, ?u\<lparr>up_calls := cs\<rparr>))"
    using w(1) m ci assms(4) by (simp add: handshake_0405_def bind_run_def c(1) body Let_def)
  moreover have "out_stream (w'\<lparr>wsi_state := LRS_ESTABLISHED, lws_rx_parse_state := LWS_RXPS_NEW\<rparr>) = out_stream (up_wsi u) @ ?out"
    using w(2) by (simp add: out_stream_def)
  ultimately show ?thesis using assms(2,4) by (intro exI [of _ "?u\<lparr>up_calls := cs\<rparr>"]) simp
qed

text \<open>A user who accepts, memory for the frame buffer, and no basic authentication.\<close>

definition upgrade_open :: "'e upgrade_env \<Rightarrow> nat \<Rightarrow> bool" where
  "upgrade_open en k \<longleftrightarrow> ue_alloc_ws en \<and> (\<forall>ah. ue_basic_auth en k ah = None) \<and> ue_rx_mem en k \<noteq> None \<and>
     (\<forall>w. user_cb (ue_env en k) w LWS_CALLBACK_ESTABLISHED [] = (0, []))"

lemma upgrade_establish_ok:
  assumes "upgrade_open en k" and "has_callback (ue_env en k)"
  shows "\<exists>w'. upgrade_establish en k u = Done (0, u\<lparr>up_wsi := w', up_ah := None\<rparr>) \<and> out_stream w' = out_stream (up_wsi u) \<and>
    wsi_state w' = LRS_ESTABLISHED \<and> EvCallback LWS_CALLBACK_ESTABLISHED [] \<in> set (events w')"
proof -
  obtain b where b: "ue_rx_mem en k = Some b" using assms(1) by (auto simp: upgrade_open_def)
  show ?thesis
    using assms b by (auto simp: upgrade_establish_def lws_server_init_wsi_for_ws_def protocol_callback_def upgrade_open_def out_stream_def log_event_def
      sent_bytes_def Let_def)
qed

lemma upgrade_version_ok:
  assumes "upgrade_request mx ah key"
  shows "\<exists>v. upgrade_version (Some ah) = Done v"
proof -
  have h: "hdrs_ok mx ah" using assms by (simp add: upgrade_request_def)
  consider "ah_frag_index ah ! 33 = 0" | ver where "hdr_holds ah 33 ver" "0 \<notin> set ver" using assms by (auto simp: upgrade_request_def)
  then show ?thesis
  proof cases
    case 1
    then show ?thesis using total_length_absent [OF h] by (simp add: upgrade_version_def)
  next
    case 2
    obtain v where "c_atoi (ver @ [0]) = Done v" using c_atoi_ok [of "ver @ [0]"] by auto
    then show ?thesis using total_length_holds [OF h 2(1)] hdr_str_holds [OF h 2(1) _ 2(2)] by (auto simp: upgrade_version_def)
  qed
qed

lemma lws_process_ws_upgrade2_ok:
  assumes req: "upgrade_request mx ah key" and "up_ah u = Some ah" and rdy: "upgrade_ready en k add" and pr: "up_protocol u = Some k"
    and wr: "wire_ready (ue_env en k) (up_wsi u)" and op: "upgrade_open en k"
    and "length (up_serv_buf u) < 2 ^ 31" and nm: "case named_protocol en ah k of None \<Rightarrow> True | Some n \<Rightarrow> length n < 128"
    and room: "response_at + length (ws_response (bytes_of key) (named_protocol en ah k) add) < length (up_serv_buf u)"
    and path: "hdr_holds ah 0 path" "path \<noteq> []" "0 \<notin> set path" and "list_all mount_ok (ue_mounts en)"
  shows "\<exists>u'. lws_process_ws_upgrade2 en u = Some (Done (0, u')) \<and> up_protocol u' = Some k \<and> up_ah u' = None \<and> wsi_state (up_wsi u') = LRS_ESTABLISHED \<and>
    EvCallback LWS_CALLBACK_ESTABLISHED [] \<in> set (events (up_wsi u')) \<and>
    out_stream (up_wsi u') = out_stream (up_wsi u) @ ws_response (bytes_of key) (named_protocol en ah k) add"
proof -
  have h2: "\<not> h2_stream_carries_ws (up_wsi u)" using wr by (simp add: wire_ready_def)
  obtain v where ver: "upgrade_version (Some ah) = Done v" using upgrade_version_ok [OF req] by blast
  obtain ps where ps: "hdr_str (Some ah) 12 = Done ps"
  proof (cases "ah_frag_index ah ! 12 = 0")
    case True
    then show thesis using that hdr_str_absent [of mx ah 12] req by (auto simp: upgrade_request_def)
  next
    case False
    then obtain pv where "hdr_holds ah 12 pv" "0 \<notin> set pv" using req by (auto simp: upgrade_request_def)
    then show thesis using that hdr_str_holds [of mx ah 12 pv] req by (auto simp: upgrade_request_def)
  qed
  define w1 where "w1 = (ws_zalloc ((up_wsi u)\<lparr>wsi_state := LRS_ESTABLISHED, role_client := False\<rparr>))\<lparr>ietf_spec_revision := v\<rparr>"
  define u1 where "u1 = u\<lparr>up_active := [None], up_wsi := w1\<rparr>"
  have u1: "up_protocol u1 = Some k" "up_ah u1 = Some ah" "up_wsi u1 = w1" using pr assms(2) by (simp_all add: u1_def)
  obtain us where us: "lws_ensure_user_space en u1 = (0, u1\<lparr>up_user_space := us\<rparr>)"
    using ensure_user_space_ok [of en k u1] rdy u1(1) by (auto simp: upgrade_ready_def)
  define u2 where "u2 = u1\<lparr>up_user_space := us, up_calls := up_calls u1 @ [UcFilter ps], up_wsi := w1\<lparr>ietf_spec_revision := 13\<rparr>\<rparr>"
  have fl: "upgrade_user en (u1\<lparr>up_user_space := us\<rparr>) (UcFilter ps) = Done (0, u1\<lparr>up_user_space := us, up_calls := up_calls u1 @ [UcFilter ps]\<rparr>)"
    using upgrade_user_ok [OF rdy, of "u1\<lparr>up_user_space := us\<rparr>"] u1(1) by simp
  have F: "up_ah u2 = Some ah" "up_protocol u2 = Some k" "wire_ready (ue_env en k) (up_wsi u2)" "wsi_state (up_wsi u2) = LRS_ESTABLISHED"
      "\<not> tx_draining_ext (up_wsi u2)" "up_serv_buf u2 = up_serv_buf u" "out_stream (up_wsi u2) = out_stream (up_wsi u)" "\<not> h2_stream_carries_ws (up_wsi u2)"
    using wr pr assms(2) h2 by (simp_all add: u2_def u1_def w1_def ws_zalloc_def wire_ready_def out_stream_def)
  obtain u3 where u3: "handshake_0405 en u2 = Some (Done (0, u3))" "up_protocol u3 = Some k"
      "out_stream (up_wsi u3) = out_stream (up_wsi u) @ ws_response (bytes_of key) (named_protocol en ah k) add"
    using handshake_0405_ok [OF req F(1) rdy F(2-5) _ nm _ path assms(13)] assms(7) room unfolding F(6,7) by blast
  obtain w' where w: "upgrade_establish en k u3 = Done (0, u3\<lparr>up_wsi := w', up_ah := None\<rparr>)" "out_stream w' = out_stream (up_wsi u3)"
      "wsi_state w' = LRS_ESTABLISHED" "EvCallback LWS_CALLBACK_ESTABLISHED [] \<in> set (events w')"
    using upgrade_establish_ok [OF op, of u3] rdy by (auto simp: upgrade_ready_def)
  have h1: "\<not> h2_stream_carries_ws w1" using h2 by (simp add: w1_def ws_zalloc_def)
  have "lws_process_ws_upgrade2 en u = Some (Done (0, u3\<lparr>up_wsi := w', up_ah := None\<rparr>))"
    unfolding lws_process_ws_upgrade2_def using pr op h2 ver ps us fl h1 u3(1) w(1) assms(2) u1(2,3)
    by (simp add: upgrade_open_def bind_run_def upgrade_shake_hands_def Let_def u1_def [symmetric] w1_def [symmetric] u2_def [symmetric])
  then show ?thesis using u3 w by (intro exI [of _ "u3\<lparr>up_wsi := w', up_ah := None\<rparr>"]) simp
qed

lemma lws_bind_protocol_ok:
  assumes rdy: "upgrade_ready en k add" and "case up_protocol u of None \<Rightarrow> True | Some k0 \<Rightarrow> has_callback (ue_env en k0)"
  shows "\<exists>u'. lws_bind_protocol en k u = Done (0, u') \<and> up_protocol u' = Some k \<and> up_wsi u' = up_wsi u \<and> up_ah u' = up_ah u \<and>
    up_serv_buf u' = up_serv_buf u \<and> up_mux_substream u' = up_mux_substream u"
proof -
  have z: "ue_user en cs c = 0" for cs c using rdy by (simp add: upgrade_ready_def)
  define u1 where "u1 = (if up_protocol u \<noteq> None \<and> up_bind_balance u then u\<lparr>up_calls := up_calls u @ [UcUnbind], up_bind_balance := False\<rparr> else u)"
  have s1: "(if up_protocol u \<noteq> None \<and> up_bind_balance u then
      bind_outcome (upgrade_user en u UcUnbind) (\<lambda>(_, u). Done (u\<lparr>up_bind_balance := False\<rparr>)) else Done u) = Done u1"
    using assms(2) z by (auto simp: u1_def upgrade_user_def split: option.splits)
  define u2 where "u2 = (if up_user_space_external u1 then u1 else u1\<lparr>up_user_space := False\<rparr>)\<lparr>up_same_vh := None, up_protocol := Some k\<rparr>"
  obtain us where us: "lws_ensure_user_space en u2 = (0, u2\<lparr>up_user_space := us\<rparr>)"
    using ensure_user_space_ok [of en k u2] rdy by (auto simp: upgrade_ready_def u2_def)
  define u3 where "u3 = (if 0 < k \<or> pr_name (ue_protocols en ! k) \<noteq> None then u2\<lparr>up_user_space := us, up_same_vh := Some k\<rparr> else u2\<lparr>up_user_space := us\<rparr>)"
  have p3: "up_protocol u3 = Some k" by (simp add: u3_def u2_def)
  have "lws_bind_protocol en k u = Done (0, u3\<lparr>up_calls := up_calls u3 @ [UcBind], up_bind_balance := True\<rparr>)"
    unfolding lws_bind_protocol_def s1 bind_outcome.simps Let_def u2_def [symmetric] us prod.case
    using upgrade_user_ok [OF rdy p3, of UcBind] by (auto simp: u3_def del: bind_outcome_eq_Done split: if_splits)
  then show ?thesis by (intro exI [of _ "u3\<lparr>up_calls := up_calls u3 @ [UcBind], up_bind_balance := True\<rparr>"]) (auto simp: u3_def u2_def u1_def)
qed

text \<open>The protocol of the connection: the first of the client's list, or the default when there is no list.\<close>

definition protocol_chosen :: "'e upgrade_env \<Rightarrow> allocated_headers \<Rightarrow> (int list \<times> int list) list \<Rightarrow> nat \<Rightarrow> bool" where
  "protocol_chosen en ah ps k \<longleftrightarrow>
     (if ps = [] then ah_frag_index ah ! 12 = 0 \<and> k = ue_default_protocol_index en \<and> k < length (ue_protocols en)
      else hdr_holds ah 12 (list_text ps) \<and> list_all token_item ps \<and> list_all (\<lambda>x. length (snd x) < 63) ps \<and> length (list_text ps) < 127 \<and>
        first_known en (map snd ps) = Some k)"

lemma protocol_chosen_ok: "hdrs_ok mx ah \<Longrightarrow> up_ah u = Some ah \<Longrightarrow> protocol_chosen en ah ps k \<Longrightarrow> choose_protocol en u = Done (Some k)"
  using choose_protocol_default [of mx ah u en] choose_protocol_list [of mx ah u ps en] by (auto simp: protocol_chosen_def split: if_splits)

text \<open>The opening handshake of the server.  A request with a Host, a key of fewer than 128 characters and a Connection
  header with an \<open>upgrade\<close> token, for a protocol the vhost has, is answered: \<open>lws_process_ws_upgrade\<close> returns 0 with the
  connection established and the user told so, and the output of the connection goes on with exactly the response of
  RFC 6455: status 101, the accept hash of the client's key, the protocol if the client asked for one, and the
  headers the user adds.  The response is composed in the service buffer, without a fault.\<close>

lemma server_upgrade_answers:
  assumes "up_ah u = Some ah" and "upgrade_request mx ah key" and "\<not> up_mux_substream u"
    and "hdr_holds ah 4 (list_text conn)" and "list_all token_item conn" and "list_ex (\<lambda>x. upgrade_prefix (snd x)) conn" and "length (list_text conn) < 127"
    and "hdr_holds ah 0 path" and "path \<noteq> []" and "0 \<notin> set path"
    and "protocol_chosen en ah ps k" and "upgrade_ready en k add" and "upgrade_open en k" and "wire_ready (ue_env en k) (up_wsi u)"
    and "list_all mount_ok (ue_mounts en)" and "case up_protocol u of None \<Rightarrow> True | Some k0 \<Rightarrow> has_callback (ue_env en k0)"
    and "case named_protocol en ah k of None \<Rightarrow> True | Some n \<Rightarrow> length n < 128" and "length (up_serv_buf u) < 2 ^ 31"
    and "response_at + length (ws_response (bytes_of key) (named_protocol en ah k) add) < length (up_serv_buf u)"
  shows "\<exists>u'. lws_process_ws_upgrade en u = Some (Done (0, u')) \<and> up_protocol u' = Some k \<and> wsi_state (up_wsi u') = LRS_ESTABLISHED \<and>
    EvCallback LWS_CALLBACK_ESTABLISHED [] \<in> set (events (up_wsi u')) \<and>
    out_stream (up_wsi u') = out_stream (up_wsi u) @ ws_response (bytes_of key) (named_protocol en ah k) add"
proof -
  have h: "hdrs_ok mx ah" using assms(2) by (simp add: upgrade_request_def)
  have cn: "conn \<noteq> []" using assms(6) by auto
  have c: "upgrade_conn_ok (Some ah) 128 [LWS_TOKENIZE_F_COMMA_SEP_LIST, LWS_TOKENIZE_F_DOT_NONTERM, LWS_TOKENIZE_F_RFC7230_DELIMS,
      LWS_TOKENIZE_F_MINUS_NONTERM] = Done True"
    using upgrade_conn_list [OF h assms(4) cn assms(5), of 128] assms(6,7) by simp
  have p: "choose_protocol en u = Done (Some k)" by (rule protocol_chosen_ok [OF h assms(1,11)])
  obtain u1 where b: "lws_bind_protocol en k u = Done (0, u1)" "up_protocol u1 = Some k" "up_wsi u1 = up_wsi u" "up_ah u1 = Some ah" "up_serv_buf u1 = up_serv_buf u"
    using lws_bind_protocol_ok [OF assms(12,16)] assms(1) by auto
  obtain u' where u': "lws_process_ws_upgrade2 en u1 = Some (Done (0, u'))" "up_protocol u' = Some k" "wsi_state (up_wsi u') = LRS_ESTABLISHED"
      "EvCallback LWS_CALLBACK_ESTABLISHED [] \<in> set (events (up_wsi u'))"
      "out_stream (up_wsi u') = out_stream (up_wsi u) @ ws_response (bytes_of key) (named_protocol en ah k) add"
    using lws_process_ws_upgrade2_ok [OF assms(2) b(4) assms(12) b(2) _ assms(13) _ assms(17) _ assms(8-10,15)] assms(14,18,19) unfolding b(3,5) by blast
  have "lws_process_ws_upgrade en u = Some (Done (0, u'))"
    using c p b(1) u'(1) assms(1,3) by (simp add: lws_process_ws_upgrade_def bind_run_def)
  then show ?thesis using u' by blast
qed

end
