(* ===== verification/Ws_Ext_Options.thy ===== *)
theory Ws_Ext_Options
  imports Ws_Upgrade
begin

text \<open>
  \<open>lws_ext_parse_options\<close> of \<open>roles/ws/ext/extension.c\<close>, with which the client hands the options the server confirmed,
  and the defaults of its user, to an extension: a state machine over the text, with a decimal value behind some options.
\<close>

section \<open>The parser\<close>

datatype lws_ext_option_parser_states = LEAPS_SEEK_NAME | LEAPS_EAT_NAME | LEAPS_SEEK_VAL | LEAPS_EAT_DEC | LEAPS_SEEK_ARG_TERM

text \<open>The variables of the loop.  \<open>match_map\<close> has a bit for each option whose name still matches; \<open>matched\<close> is \<open>w\<close>;
  \<open>oa_start\<close> is the input from the first digit of a value on.\<close>

record ext_parse =
  leap :: lws_ext_option_parser_states
  match_map :: u32
  matched :: nat
  option_index :: nat
  oa_start :: "bytes option"
  oa_len :: nat
  pending_close_quote :: bool

definition ext_parse_init :: ext_parse where
  "ext_parse_init = \<lparr>leap = LEAPS_SEEK_NAME, match_map = 0, matched = 0, option_index = 0, oa_start = None, oa_len = 0,
     pending_close_quote = False\<rparr>"

text \<open>One round of the loop: it returns -1, ends because of a comma, or goes on; the option to set, if any.\<close>

datatype ext_parse_step = Leap_fail | Leap_end | Leap_next ext_parse

type_synonym ext_set = "(nat \<times> bytes option) option"

text \<open>The inner loop over the options that still match: \<open>mm\<close> is \<open>match_map\<close>, \<open>m\<close> its copy, shifted down by \<open>n\<close> places.  A
  failure when none is left, or what still matches and the option whose name is complete.\<close>

function eat_name_loop :: "lws_ext_options list \<Rightarrow> u8 \<Rightarrow> nat \<Rightarrow> u32 \<Rightarrow> u32 \<Rightarrow> nat \<Rightarrow> (u32 \<times> nat option) option outcome" where
  "eat_name_loop opts c w mm m n =
     (if m = 0 then Done (Some (mm, None))
      else if \<not> bit m 0 then eat_name_loop opts c w mm (drop_bit 1 m) (n + 1)
      else if \<not> n < length opts then Fault
      else
        let name = opt_name (opts ! n) @ [0] in
        if \<not> w < length name then Fault
        else if c = name ! w then
          if \<not> w + 1 < length name then Fault
          else if name ! (w + 1) = 0 then Done (Some (mm, Some n))
          else eat_name_loop opts c w mm (drop_bit 1 m) (n + 1)
        else
          let mm = mm AND NOT (push_bit n 1)
          in if mm = 0 then Done None else eat_name_loop opts c w mm (drop_bit 1 m) (n + 1))"
  by pat_completeness auto

lemma shifted_down_less:
  assumes "m \<noteq> 0"
  shows "unat (drop_bit (Suc 0) (m :: u32)) < unat m"
proof -
  have "unat m \<noteq> 0" using assms by (simp add: unat_eq_zero)
  then show ?thesis by (simp add: drop_bit_Suc unat_div)
qed

termination eat_name_loop
  by (relation "measure (\<lambda>(opts, c, w, mm, m, n). unat m)") (simp_all add: shifted_down_less)

declare eat_name_loop.simps [simp del]

definition oa_value :: "ext_parse \<Rightarrow> bytes option" where
  "oa_value s = map_option (take (oa_len s)) (oa_start s)"

text \<open>\<open>LEAPS_SEEK_ARG_TERM\<close>\<close>

definition leap_arg_term :: "u8 \<Rightarrow> ext_parse \<Rightarrow> ext_parse_step" where
  "leap_arg_term c s =
     (if c = 32 then Leap_next s
      else if c = 59 then Leap_next (s\<lparr>leap := LEAPS_SEEK_NAME\<rparr>)
      else if c = 44 then Leap_end
      else Leap_fail)"

text \<open>\<open>set_arg\<close>, with what falls through from it.\<close>

definition leap_set_arg :: "u8 \<Rightarrow> bool \<Rightarrow> ext_parse \<Rightarrow> ext_set \<times> ext_parse_step" where
  "leap_set_arg c fin s =
     (Some (option_index s, oa_value s),
      if fin then Leap_next s else if pending_close_quote s \<and> c = 34 then Leap_next s else leap_arg_term c s)"

definition leap_eat_name :: "lws_ext_options list \<Rightarrow> u8 \<Rightarrow> bool \<Rightarrow> ext_parse \<Rightarrow> (ext_set \<times> ext_parse_step) outcome" where
  "leap_eat_name opts c fin s =
     (let s = s\<lparr>oa_start := None, oa_len := 0, pending_close_quote := False\<rparr> in
      bind_outcome (eat_name_loop opts c (matched s) (match_map s) (match_map s) 0) (\<lambda>r.
        case r of None \<Rightarrow> Done (None, Leap_fail)
        | Some (mm, None) \<Rightarrow> Done (None, Leap_next (s\<lparr>match_map := mm, matched := matched s + 1\<rparr>))
        | Some (mm, Some n) \<Rightarrow>
            let s = s\<lparr>match_map := mm, option_index := n, leap := LEAPS_SEEK_VAL\<rparr>
            in if fin then Done (leap_set_arg c fin s) else Done (None, Leap_next (s\<lparr>matched := matched s + 1\<rparr>))))"

definition leap_seek_val :: "lws_ext_options list \<Rightarrow> u8 \<Rightarrow> bool \<Rightarrow> ext_parse \<Rightarrow> ext_set \<times> ext_parse_step" where
  "leap_seek_val opts c fin s =
     (let ty = opt_type (opts ! option_index s) in
      if c = 32 then (None, Leap_next s)
      else if c = 44 then (None, Leap_end)
      else if c = 59 \<or> fin then
        if ty = EXTARG_DEC then (None, Leap_fail) else leap_set_arg c fin (s\<lparr>leap := LEAPS_SEEK_NAME\<rparr>)
      else if c = 61 then
        if ty = EXTARG_NONE then (None, Leap_fail)
        else (None, Leap_next (s\<lparr>matched := 0, pending_close_quote := False, leap := LEAPS_EAT_DEC\<rparr>))
      else (None, Leap_fail))"

text \<open>\<open>rest\<close> is the input from the current character on.\<close>

definition leap_eat_dec :: "bytes \<Rightarrow> u8 \<Rightarrow> bool \<Rightarrow> ext_parse \<Rightarrow> ext_set \<times> ext_parse_step" where
  "leap_eat_dec rest c fin s =
     (let digit = (48 \<le> c \<and> c \<le> 57);
          s = (if digit then s\<lparr>oa_start := (if matched s = 0 then Some rest else oa_start s), matched := matched s + 1\<rparr> else s)
      in if digit \<and> \<not> fin then (None, Leap_next s)
         else if matched s = 0 \<and> c = 34 then (None, Leap_next (s\<lparr>pending_close_quote := True\<rparr>))
         else if matched s = 0 then (None, Leap_fail)
         else if pending_close_quote s \<and> c \<noteq> 34 \<and> \<not> fin then (None, Leap_fail)
         else
           let len = (case oa_start s of None \<Rightarrow> oa_len s | Some st \<Rightarrow> length st - length rest)
           in leap_set_arg c fin (s\<lparr>leap := LEAPS_SEEK_ARG_TERM, oa_len := (if fin then len + 1 else len)\<rparr>))"

text \<open>The shift \<open>1 << count_options\<close> is one of an \<open>int\<close>, and undefined from 31 options on.\<close>

definition leap_char :: "lws_ext_options list \<Rightarrow> bytes \<Rightarrow> u8 \<Rightarrow> bool \<Rightarrow> ext_parse \<Rightarrow> (ext_set \<times> ext_parse_step) outcome" where
  "leap_char opts rest c fin s =
     (case leap s of
        LEAPS_SEEK_NAME \<Rightarrow>
          if c = 32 then Done (None, Leap_next s)
          else if c = 44 then Done (None, Leap_end)
          else if 31 \<le> length opts then Fault
          else leap_eat_name opts c fin (s\<lparr>match_map := push_bit (length opts) 1 - 1, leap := LEAPS_EAT_NAME, matched := 0\<rparr>)
      | LEAPS_EAT_NAME \<Rightarrow> leap_eat_name opts c fin s
      | LEAPS_SEEK_VAL \<Rightarrow> Done (leap_seek_val opts c fin s)
      | LEAPS_EAT_DEC \<Rightarrow> Done (leap_eat_dec rest c fin s)
      | LEAPS_SEEK_ARG_TERM \<Rightarrow> Done (None, leap_arg_term c s))"

text \<open>The loop over the text, with the calls of the extension; their results are not looked at.\<close>

fun ext_parse_loop :: "'e upgrade_env \<Rightarrow> nat \<Rightarrow> ext_parse \<Rightarrow> bytes \<Rightarrow> 'e upgrade \<Rightarrow> (int \<times> 'e upgrade) outcome" where
  "ext_parse_loop en k s [] u = Done (0, u)"
| "ext_parse_loop en k s (c # rest) u =
     bind_outcome (leap_char (ue_ext_options en k) (c # rest) c (rest = []) s) (\<lambda>(st, step).
     bind_outcome (case st of None \<Rightarrow> Done u
         | Some (i, v) \<Rightarrow> bind_outcome (ext_slot_call en u (UcExtOptionSet k i v)) (\<lambda>(_, u). Done u)) (\<lambda>u.
       case step of Leap_fail \<Rightarrow> Done (-1, u) | Leap_end \<Rightarrow> Done (0, u) | Leap_next s \<Rightarrow> ext_parse_loop en k s rest u))"

definition lws_ext_parse_options :: "'e upgrade_env \<Rightarrow> nat \<Rightarrow> bytes \<Rightarrow> 'e upgrade \<Rightarrow> (int \<times> 'e upgrade) outcome" where
  "lws_ext_parse_options en k text u = ext_parse_loop en k ext_parse_init text u"

end
