(* ===== verification/Ws_Client_Upgrade.thy ===== *)
theory Ws_Client_Upgrade
  imports Ws_Ext_Options
begin

text \<open>
  The opening handshake of the client (\<open>roles/ws/client-ws.c\<close>): \<open>lws_generate_client_ws_handshake\<close>, which writes the ws headers
  of the request and keeps the hash it expects back, and \<open>lws_client_ws_upgrade\<close>, which checks the parsed response,
  takes up the extensions the server confirmed and establishes the connection.  The status comes from
  \<open>lws_client_interpret_server_handshake\<close> (\<open>roles/http/client/client-http.c\<close>).
\<close>

section \<open>The request\<close>

fun decimal :: "nat \<Rightarrow> bytes" where
  "decimal n = (if n < 10 then [of_nat (48 + n)] else decimal (n div 10) @ [of_nat (48 + n mod 10)])"

declare decimal.simps [simp del]

abbreviation crlf :: bytes where "crlf \<equiv> [13, 10]"

text \<open>The extensions the client offers, each confirmed by the callback of the vhost's first protocol.\<close>

fun client_offer_loop :: "'e upgrade_env \<Rightarrow> nat list \<Rightarrow> nat \<Rightarrow> bytes \<Rightarrow> 'e upgrade \<Rightarrow> (bytes \<times> 'e upgrade) outcome" where
  "client_offer_loop en [] ext_count out u = Done (if ext_count \<noteq> 0 then out @ crlf else out, u)"
| "client_offer_loop en (k # ks) ext_count out u =
     (if \<not> has_callback (ue_env en 0) then Fault
      else
        let c = UcClientConfirmExtension (xt_name (ue_extensions en ! k));
            n = ue_user en (up_calls u) c;
            u = u\<lparr>up_calls := up_calls u @ [c]\<rparr>
        in if n \<noteq> 0 then client_offer_loop en ks ext_count out u
           else client_offer_loop en ks (ext_count + 1)
             (out @ (if ext_count \<noteq> 0 then [44] else bytes_of_string ''Sec-WebSocket-Extensions: '') @ xt_client_offer (ue_extensions en ! k)) u)"

text \<open>The text written at \<open>p\<close>, \<open>None\<close> when there is no random key.  Nothing bounds it by the packet buffer.\<close>

definition lws_generate_client_ws_handshake :: "'e upgrade_env \<Rightarrow> 'e upgrade \<Rightarrow> bytes \<Rightarrow> (bytes option \<times> 'e upgrade) outcome" where
  "lws_generate_client_ws_handshake en u conn1 =
     (let rnd = get_random (ue_env en 0) (events (up_wsi u)) 16 in
      if length rnd \<noteq> 16 then Done (None, u)
      else
        bind_outcome (lws_b64_encode_string rnd (replicate 40 0) 40) (\<lambda>(_, kb).
        bind_outcome (c_str kb) (\<lambda>key.
        bind_outcome (hdr_str (up_ah u) 88) (\<lambda>prot.
        bind_outcome (client_offer_loop en [0..<length (ue_extensions en)] 0 [] u) (\<lambda>(exts, u).
        bind_outcome (c_str (kb[39 := 0])) (\<lambda>key'.
        bind_outcome (mem_store (replicate 128 0) 0 (key' @ ws_guid @ [0])) (\<lambda>b.
        bind_outcome (lws_SHA1 (take (length (key' @ ws_guid)) b)) (\<lambda>hash.
        bind_outcome (if up_ah u = None then Fault
            else lws_b64_encode_string hash (up_handshake_hash u) (int (length (up_handshake_hash u)))) (\<lambda>(_, h).
          Done (Some (bytes_of_string ''Upgrade: websocket'' @ crlf @ bytes_of_string ''Connection: '' @ conn1 @ bytes_of_string ''Upgrade'' @ crlf @
              bytes_of_string ''Sec-WebSocket-Key: '' @ key @ crlf @
              (case prot of None \<Rightarrow> [] | Some p \<Rightarrow> bytes_of_string ''Sec-WebSocket-Protocol: '' @ bytes_of p @ crlf) @
              exts @
              (if ietf_spec_revision (up_wsi u) \<noteq> 0 then
                 bytes_of_string ''Sec-WebSocket-Version: '' @ decimal (ietf_spec_revision (up_wsi u)) @ crlf else [])),
            u\<lparr>up_handshake_hash := h\<rparr>))))))))))"

section \<open>The status\<close>

text \<open>\<open>WSI_TOKEN_HTTP\<close> or \<open>WSI_TOKEN_HTTP1_0\<close>, or the pseudo header of an h2 stream; \<open>None\<close> when the status is missing.\<close>

definition client_status :: "bool \<Rightarrow> allocated_headers option \<Rightarrow> int option outcome" where
  "client_status mux ah =
     bind_outcome (if mux then hdr_str ah 39
                   else bind_outcome (hdr_str ah 15) (\<lambda>p. if p = None then hdr_str ah 79 else Done p)) (\<lambda>p.
       case p of None \<Rightarrow> Done None
       | Some s \<Rightarrow> bind_outcome (c_atoi (s @ [0])) (\<lambda>v. Done (Some (c_int (nat (v mod 2 ^ 32))))))"

definition client_set_status :: "'e upgrade \<Rightarrow> (bool \<times> 'e upgrade) outcome" where
  "client_set_status u =
     bind_outcome (client_status (up_mux_substream u) (up_ah u)) (\<lambda>n.
       case n of None \<Rightarrow> Done (False, u)
       | Some n \<Rightarrow> Done (True, u\<lparr>up_ah := map_option (\<lambda>ah. ah\<lparr>ah_http_response := nat (n mod 2 ^ 32)\<rparr>) (up_ah u)\<rparr>))"

section \<open>The protocol\<close>

text \<open>The loop over the protocols the client offered, \<open>pc\<close>, for the server's choice \<open>p\<close>.\<close>

function protocol_offered :: "int list \<Rightarrow> int list \<Rightarrow> bool" where
  "protocol_offered p [] = False"
| "protocol_offered p (c # pc) =
     (if take (length p) (c # pc) = p \<and> (drop (length p) (c # pc) = [] \<or> hd (drop (length p) (c # pc)) = 44) then True
      else protocol_offered p (dropWhile (\<lambda>x. x = 32) (drop 1 (dropWhile (\<lambda>x. x \<noteq> 44) (c # pc)))))"
  by pat_completeness auto
termination
proof (relation "measure (\<lambda>(p, pc). length pc)", goal_cases)
  case (2 p c pc)
  have "length (dropWhile (\<lambda>x. x = 32) (drop 1 (dropWhile (\<lambda>x. x \<noteq> 44) (c # pc)))) \<le> length (drop 1 (dropWhile (\<lambda>x. x \<noteq> 44) (c # pc)))"
    by (rule length_dropWhile_le)
  also have "\<dots> < length (c # pc)" using length_dropWhile_le [of "\<lambda>x. x \<noteq> 44" "c # pc"] by (simp add: less_Suc_eq_le)
  finally show ?case by simp
qed simp

declare protocol_offered.simps [simp del]

definition name_strcmp :: "bytes option \<Rightarrow> bytes option \<Rightarrow> bool outcome" where
  "name_strcmp a b = (case (a, b) of (Some a, Some b) \<Rightarrow> Done (a = b) | _ \<Rightarrow> Fault)"

fun find_protocol :: "'e upgrade_env \<Rightarrow> bytes option \<Rightarrow> nat list \<Rightarrow> nat option outcome" where
  "find_protocol en p [] = Done None"
| "find_protocol en p (n # ns) =
     bind_outcome (name_strcmp p (pr_name (ue_protocols en ! n))) (\<lambda>eq. if eq then Done (Some n) else find_protocol en p ns)"

text \<open>\<open>identify_protocol\<close>: the index of the protocol of the connection, with \<open>Inl\<close> a failure and its reason.\<close>

definition identify_protocol :: "'e upgrade_env \<Rightarrow> 'e upgrade \<Rightarrow> bytes option \<Rightarrow> (string + nat \<times> 'e upgrade) outcome" where
  "identify_protocol en u p =
     (let u = (if role_client (up_wsi u) then u else u\<lparr>up_protocol := None\<rparr>);
          all = [0..<length (ue_protocols en)]
      in bind_outcome (if up_protocol u = None then find_protocol en p all else Done None) (\<lambda>hit.
           case hit of Some n \<Rightarrow> Done (Inr (n, u\<lparr>up_protocol := Some n\<rparr>))
           | None \<Rightarrow>
               if \<not> role_client (up_wsi u) then Done (Inl ''HS: Cannot match protocol'')
               else
                 (case up_protocol u of None \<Rightarrow> Done (Inl ''ws protocol no match'')
                  | Some k \<Rightarrow>
                      bind_outcome (find_protocol en (pr_name (ue_protocols en ! k)) all) (\<lambda>hit.
                        case hit of None \<Rightarrow> Done (Inl ''ws protocol no match'')
                        | Some n \<Rightarrow> Done (Inr (n, u\<lparr>up_protocol := Some n\<rparr>))))))"

definition client_protocol :: "'e upgrade_env \<Rightarrow> 'e upgrade \<Rightarrow> (string + nat \<times> 'e upgrade) outcome" where
  "client_protocol en u =
     bind_outcome (hdr_str (up_ah u) 88) (\<lambda>pc.
     bind_outcome (lws_hdr_total_length (up_ah u) 12) (\<lambda>len.
       if len = 0 then
         (case up_protocol u of
            Some k \<Rightarrow> identify_protocol en u (pr_name (ue_protocols en ! k))
          | None \<Rightarrow> Done (Inr (0, u\<lparr>up_protocol := Some 0\<rparr>)))
       else
         bind_outcome (hdr_str (up_ah u) 12) (\<lambda>p.
           case p of None \<Rightarrow> Fault
           | Some p \<Rightarrow>
               if \<not> (case pc of None \<Rightarrow> False | Some pc \<Rightarrow> protocol_offered p pc) then Done (Inl ''HS: PROTOCOL malformed'')
               else identify_protocol en u (Some (bytes_of p)))))"

section \<open>The extensions\<close>

text \<open>A name the server confirmed, against the extensions \<open>ks\<close>: a failure and its reason, or whether it is known.  The
  user's defaults are written over the name.  \<open>args\<close> are the server's options.\<close>

fun client_ext_try ::
  "'e upgrade_env \<Rightarrow> bytes option \<Rightarrow> bytes \<Rightarrow> nat list \<Rightarrow> bool \<Rightarrow> 'e upgrade \<Rightarrow> ((string + bool) \<times> 'e upgrade) outcome" where
  "client_ext_try en args name [] known u = Done (Inr known, u)"
| "client_ext_try en args name (k # ks) known u =
     (if name \<noteq> xt_name (ue_extensions en ! k) then client_ext_try en args name ks known u
      else
        bind_outcome (ext_activate k u) (\<lambda>u.
        bind_outcome (ext_slot_call en u (UcExtConstruct k)) (\<lambda>(r, u).
          if r \<noteq> 0 then client_ext_try en args name ks True u
          else
            let name = takeWhile (\<lambda>c. c \<noteq> 0) (take 127 (ue_ext_defaults en (up_calls u) k)) in
            bind_outcome (upgrade_user en u UcExtDefaults) (\<lambda>(n, u).
            bind_outcome (if n \<noteq> 0 then Done (n, up_wsi u)
                else rx_flow_control_apply (ue_env en (the (up_protocol u))) ((up_wsi u)\<lparr>rxflow_will_be_applied := False\<rparr>)) (\<lambda>(n, w).
            let u = u\<lparr>up_wsi := w\<lparr>rxflow_will_be_applied := False\<rparr>\<rparr> in
            if n \<noteq> 0 then Done (Inl ''HS: EXT: failed setting defaults'', u)
            else
              bind_outcome (if name = [] then Done (0, u) else lws_ext_parse_options en k name u) (\<lambda>(r, u).
                if r \<noteq> 0 then Done (Inl ''HS: EXT: failed parsing defaults'', u)
                else
                  bind_outcome (case args of None \<Rightarrow> Done (0, u) | Some a \<Rightarrow> lws_ext_parse_options en k a u) (\<lambda>(r, u).
                    if r \<noteq> 0 then Done (Inl ''HS: EXT: failed parsing options'', u)
                    else
                      bind_outcome (ext_slot_call en u (UcExtOptionConfirm k)) (\<lambda>(r, u).
                        if r \<noteq> 0 then Done (Inl ''HS: EXT: Rejects server options'', u)
                        else client_ext_try en args name ks True (ext_count_up u)))))))))"

text \<open>The loop over the text of the extension header in \<open>sb\<close>, which is not written to.\<close>

function client_ext_loop ::
  "'e upgrade_env \<Rightarrow> bytes \<Rightarrow> nat \<Rightarrow> bytes \<Rightarrow> bool \<Rightarrow> nat option \<Rightarrow> 'e upgrade \<Rightarrow> (string option \<times> 'e upgrade) outcome" where
  "client_ext_loop en sb c name ignore a u =
     (if \<not> c < length sb then Fault
      else if sb ! c \<noteq> 0 \<and> sb ! c \<noteq> 44 \<and> sb ! c \<noteq> 9 then
        (let ignore = (ignore \<or> sb ! c = 59);
             a = (if sb ! c = 59 \<and> a = None then Some (c + 1) else a)
         in if ignore \<or> sb ! c = 32 then client_ext_loop en sb (c + 1) name ignore a u
            else client_ext_loop en sb (c + 1) (if length name < 127 then name @ [sb ! c] else name) ignore a u)
      else if sb ! c \<noteq> 0 \<and> name = [] then client_ext_loop en sb (c + 1) [] False a u
      else
        let c' = (if sb ! c = 0 then c else c + 1);
            args = map_option (\<lambda>a. take (c' - a) (drop a sb)) a
        in case client_ext_try en args name [0..<length (ue_extensions en)] False u of
             Fault \<Rightarrow> Fault
           | Done (Inl e, u) \<Rightarrow> Done (Some e, u)
           | Done (Inr known, u) \<Rightarrow>
               if \<not> known then Done (Some ''HS: EXT: unknown ext'', u)
               else if sb ! c = 0 then Done (None, u)
               else client_ext_loop en sb (c + 1) [] False None u)"
  by pat_completeness auto
termination
  by (relation "measure (\<lambda>(en, sb, c, name, ignore, a, u). length sb - c)") auto

declare client_ext_loop.simps [simp del]

definition client_extensions :: "'e upgrade_env \<Rightarrow> 'e upgrade \<Rightarrow> (string option \<times> 'e upgrade) outcome" where
  "client_extensions en u =
     bind_outcome (lws_hdr_total_length (up_ah u) 9) (\<lambda>len.
       if len = 0 then Done (None, u)
       else
         bind_outcome (lws_hdr_copy (up_ah u) (c_int (length (up_serv_buf u))) 9) (\<lambda>(n, text).
         bind_outcome (mem_store (up_serv_buf u) 0 (bytes_of text)) (\<lambda>sb.
           let u = u\<lparr>up_serv_buf := sb\<rparr> in
           if n < 0 then Done (Some ''HS: EXT: list too big'', u)
           else client_ext_loop en sb 0 [] False None u)))"

section \<open>The upgrade\<close>

text \<open>\<open>strtolower\<close> on the value of a header, in place.\<close>

definition hdr_lower :: "allocated_headers \<Rightarrow> nat \<Rightarrow> int list \<Rightarrow> allocated_headers" where
  "hdr_lower ah p s = ah\<lparr>ah_data := take p (ah_data ah) @ map ascii_lower s @ drop (p + length s) (ah_data ah)\<rparr>"

definition client_check_upgrade :: "allocated_headers \<Rightarrow> (string option \<times> allocated_headers) outcome" where
  "client_check_upgrade ah =
     (if ah_http_response ah = 401 then Done (Some ''HS: ws upgrade unauthorized'', ah)
      else if ah_http_response ah \<noteq> 101 then Done (Some ''HS: ws upgrade response not 101'', ah)
      else
        bind_outcome (lws_hdr_total_length (Some ah) 13) (\<lambda>len.
          if len = 0 then Done (Some ''HS: ACCEPT missing'', ah)
          else
            bind_outcome (lws_hdr_simple_ptr (Some ah) WSI_TOKEN_UPGRADE) (\<lambda>p.
              case p of None \<Rightarrow> Done (Some ''HS: UPGRADE missing'', ah)
              | Some p \<Rightarrow>
                  bind_outcome (c_str (drop p (ah_data ah))) (\<lambda>s.
                    let ah = hdr_lower ah p s in
                    if map ascii_lower s \<noteq> name_bytes ''websocket''
                    then Done (Some ''HS: Upgrade to something other than websocket'', ah)
                    else
                      bind_outcome (upgrade_conn_ok (Some ah) 64 [LWS_TOKENIZE_F_COMMA_SEP_LIST, LWS_TOKENIZE_F_MINUS_NONTERM]) (\<lambda>ok.
                        Done (if ok then None else Some ''HS: UPGRADE malformed'', ah))))))"

text \<open>From the matching hash to the user's \<open>LWS_CALLBACK_CLIENT_ESTABLISHED\<close>.\<close>

definition client_establish :: "'e upgrade_env \<Rightarrow> 'e upgrade \<Rightarrow> (int \<times> string \<times> 'e upgrade) outcome" where
  "client_establish en u =
     (let (r, u) = lws_ensure_user_space en u in
      if r \<noteq> 0 then Done (2, ''HS: OOM'', u)
      else
        case up_protocol u of None \<Rightarrow> Fault
        | Some k \<Rightarrow>
            bind_outcome (upgrade_user en u UcClientFilter) (\<lambda>(n, u).
              if n \<noteq> 0 then Done (2, ''HS: Rejected by filter cb'', u)
              else
                let w = log_event (EvTimeout NO_PENDING_TIMEOUT 0) (up_wsi u);
                    w = log_event EvValidity (w\<lparr>wsi_state := LRS_ESTABLISHED, role_client := True\<rparr>);
                    u = u\<lparr>up_ah := None, up_wsi := w\<lparr>rxflow_change_to := 1\<rparr>\<rparr>
                in case ue_rx_mem en k of None \<Rightarrow> Done (2, ''HS: OOM'', u)
                   | Some b \<Rightarrow>
                       let u = u\<lparr>up_wsi := (up_wsi u)\<lparr>rx_ubuf := b, rx_ubuf_alloc := rx_size (ue_env en k) + LWS_PRE\<rparr>\<rparr>
                       in bind_outcome (upgrade_user en u UcClientEstablished) (\<lambda>(n, u).
                            if n \<noteq> 0 then Done (3, ''HS: Rejected at CLIENT_ESTABLISHED'', u) else Done (0, [], u))))"

definition lws_client_ws_upgrade :: "'e upgrade_env \<Rightarrow> 'e upgrade \<Rightarrow> (int \<times> string \<times> 'e upgrade) outcome" where
  "lws_client_ws_upgrade en u =
     (if up_mux_substream u then Done (3, ''HS: h2 / ws upgrade unsupported'', u)
      else
        case up_ah u of None \<Rightarrow> Fault
        | Some ah \<Rightarrow>
            bind_outcome (client_check_upgrade ah) (\<lambda>(e, ah).
              let u = u\<lparr>up_ah := Some ah\<rparr> in
              case e of Some e \<Rightarrow> Done (3, e, u)
              | None \<Rightarrow>
                  bind_outcome (client_protocol en u) (\<lambda>r.
                    case r of Inl e \<Rightarrow> Done (2, e, u)
                    | Inr (n, u) \<Rightarrow>
                        bind_outcome (client_extensions en (u\<lparr>up_same_vh := Some n\<rparr>)) (\<lambda>(e, u).
                          case e of Some e \<Rightarrow> Done (2, e, u)
                          | None \<Rightarrow>
                              bind_outcome (hdr_str (up_ah u) 13) (\<lambda>p.
                              bind_outcome (c_str (up_handshake_hash u)) (\<lambda>hash.
                                case p of None \<Rightarrow> Fault
                                | Some p \<Rightarrow>
                                    if bytes_of p \<noteq> hash then Done (2, ''HS: Accept hash wrong'', u)
                                    else client_establish en u))))))"

end
