(* ===== verification/Ws_Client_Answer.thy ===== *)
theory Ws_Client_Answer
  imports Ws_Response Ws_Client_Upgrade
begin

text \<open>
  The client's side of the opening handshake: the hash it keeps for the key it sends, and which answers it accepts.
\<close>

section \<open>Lower case in place\<close>

text \<open>\<open>strtolower\<close> on the value of one header leaves the other headers alone: their values lie in other fragments.\<close>

lemma hdr_lay_step:
  assumes "hdr_lay ah k lim" and "1 \<le> i" and "i < k"
  shows "off ah i + flen ah i < off ah (Suc i)"
proof -
  obtain j where "hdr_seal ah i (if i < k then off ah (i + 1) else lim) j" using hdr_layD [OF assms(1,2)] assms(3) by fastforce
  then show ?thesis using assms(3) by (auto simp: hdr_seal_def)
qed

lemma hdr_lay_apart:
  assumes "hdr_lay ah k lim" and "1 \<le> i"
  shows "i + Suc m \<le> k \<Longrightarrow> off ah i + flen ah i < off ah (i + Suc m)"
proof (induction m)
  case 0
  then show ?case using hdr_lay_step [OF assms] by simp
next
  case (Suc m)
  have "off ah (i + Suc m) < off ah (Suc (i + Suc m))" using hdr_lay_step [OF assms(1), of "i + Suc m"] Suc.prems by simp
  then show ?case using Suc by simp
qed

lemma hdr_lower_fields [simp]:
  "ah_frags (hdr_lower ah p s) = ah_frags ah" "ah_frag_index (hdr_lower ah p s) = ah_frag_index ah" "ah_nfrag (hdr_lower ah p s) = ah_nfrag ah"
  "ah_pos (hdr_lower ah p s) = ah_pos ah" "ah_unk_ll_tail (hdr_lower ah p s) = ah_unk_ll_tail ah" "ah_http_response (hdr_lower ah p s) = ah_http_response ah"
  by (simp_all add: hdr_lower_def)

lemma hdr_lower_length: "p + length s \<le> length (ah_data ah) \<Longrightarrow> length (ah_data (hdr_lower ah p s)) = length (ah_data ah)"
  by (simp add: hdr_lower_def)

lemma hdr_lower_nth:
  assumes "p + length s \<le> length (ah_data ah)" and "j < p \<or> p + length s \<le> j"
  shows "ah_data (hdr_lower ah p s) ! j = ah_data ah ! j"
proof -
  have "length (take p (ah_data ah)) = p" using assms(1) by simp
  then show ?thesis using assms unfolding hdr_lower_def by (cases "j < p") (auto simp: nth_append)
qed


lemma hdr_lower_value:
  assumes "hdr_lay ah (ah_nfrag ah) lim" and n: "1 \<le> n" "n \<le> ah_nfrag ah" and i: "1 \<le> i" "i \<le> ah_nfrag ah" and "i \<noteq> n"
    and "length s = flen ah n" and "off ah n + flen ah n \<le> length (ah_data ah)" and "ah_data ah ! (off ah i + flen ah i) = 0"
  shows "hdr_val (hdr_lower ah (off ah n) s) i = hdr_val ah i" and "hdr_nul (hdr_lower ah (off ah n) s) i"
proof -
  have d: "off ah i + flen ah i < off ah n \<or> off ah n + flen ah n < off ah i"
    using hdr_lay_apart [OF assms(1) i(1), of "n - i - 1"] hdr_lay_apart [OF assms(1) n(1), of "i - n - 1"] assms(2-6) by (cases "i < n") auto
  have l: "off ah n + length s \<le> length (ah_data ah)" using assms(7,8) by simp
  note L = hdr_lower_length [OF l] hdr_lower_nth [OF l]
  show "hdr_val (hdr_lower ah (off ah n) s) i = hdr_val ah i"
    unfolding hdr_val_def hdr_lower_fields
  proof (rule nth_equalityI)
    fix j assume j: "j < length (take (flen ah i) (drop (off ah i) (ah_data (hdr_lower ah (off ah n) s))))"
    then have "off ah i + j < off ah n \<or> off ah n + length s \<le> off ah i + j" using d assms(7) by auto
    then show "take (flen ah i) (drop (off ah i) (ah_data (hdr_lower ah (off ah n) s))) ! j = take (flen ah i) (drop (off ah i) (ah_data ah)) ! j"
      using j L(2) [of "off ah i + j"] L(1) nth_drop [of "off ah i" "ah_data ah" j] nth_drop [of "off ah i" "ah_data (hdr_lower ah (off ah n) s)" j] by auto
  qed (simp add: L(1))
  show "hdr_nul (hdr_lower ah (off ah n) s) i" using d assms(7,9) L(2) [of "off ah i + flen ah i"] by (auto simp: hdr_nul_def)
qed

lemma hdr_lower_lay:
  assumes "hdr_lay ah (ah_nfrag ah) lim" and n: "1 \<le> n" "n \<le> ah_nfrag ah"
    and "length s = flen ah n" and "off ah n + flen ah n \<le> length (ah_data ah)"
  shows "hdr_lay (hdr_lower ah (off ah n) s) (ah_nfrag ah) lim"
  unfolding hdr_lay_def
proof (intro allI impI)
  fix i assume i: "1 \<le> i" "i \<le> ah_nfrag ah"
  obtain j where j: "hdr_seal ah i (if i < ah_nfrag ah then off ah (i + 1) else lim) j" by (rule hdr_layD [OF assms(1) i])
  have l: "off ah n + length s \<le> length (ah_data ah)" using assms(4,5) by simp
  have "j < off ah n \<or> off ah n + flen ah n \<le> j"
  proof (cases "i < n")
    case True
    then have "off ah (i + 1) \<le> off ah n" using hdr_lay_apart [OF assms(1), of "i + 1" "n - i - 2"] n True by (cases "i + 1 = n") (auto simp: Suc_diff_Suc numeral_2_eq_2)
    then show ?thesis using j True n(2) by (auto simp: hdr_seal_def)
  next
    case False
    then show ?thesis using j hdr_lay_apart [OF assms(1) n(1), of "i - n - 1"] i(2) by (cases "i = n") (auto simp: hdr_seal_def)
  qed
  then have "hdr_seal (hdr_lower ah (off ah n) s) i (if i < ah_nfrag ah then off ah (i + 1) else lim) j"
    using j assms(4) by (auto simp: hdr_seal_def hdr_lower_length [OF l] hdr_lower_nth [OF l])
  then show "\<exists>j. hdr_seal (hdr_lower ah (off ah n) s) i (if i < ah_nfrag ah then off (hdr_lower ah (off ah n) s) (i + 1) else lim) j" by auto
qed

lemma hdr_lower_ok:
  assumes "hdrs_ok mx ah" and "hdr_holds ah t s" and "t < 96"
  shows "hdrs_ok mx (hdr_lower ah (off ah (ah_frag_index ah ! t)) s)"
    and "hdr_holds ah t' v \<Longrightarrow> ah_frag_index ah ! t' \<noteq> ah_frag_index ah ! t \<Longrightarrow> hdr_holds (hdr_lower ah (off ah (ah_frag_index ah ! t)) s) t' v"
    and "hdr_holds (hdr_lower ah (off ah (ah_frag_index ah ! t)) s) t (map ascii_lower s)"
proof -
  let ?n = "ah_frag_index ah ! t" and ?ah = "hdr_lower ah (off ah (ah_frag_index ah ! t)) s"
  obtain lim where r: "hdr_resting mx lim ah" using assms(1) by (auto simp: hdrs_ok_def)
  have H: "1 \<le> ?n" "?n \<le> ah_nfrag ah" "length s = flen ah ?n" "fnext ah ?n = 0" "hdr_nul ah ?n" using assms(2) by (auto simp: hdr_holds_def Let_def)
  have lay: "hdr_lay ah (ah_nfrag ah) lim" using r by (simp add: hdr_resting_def)
  obtain j where "hdr_seal ah ?n (if ?n < ah_nfrag ah then off ah (?n + 1) else lim) j" by (rule hdr_layD [OF lay H(1,2)])
  then have b: "off ah ?n + flen ah ?n < length (ah_data ah)" by (auto simp: hdr_seal_def)
  then have l: "off ah ?n + length s \<le> length (ah_data ah)" "off ah ?n + flen ah ?n \<le> length (ah_data ah)" using H(3) by auto
  show "hdrs_ok mx ?ah"
    using r hdr_lower_lay [OF lay H(1-3) l(2)] hdr_lower_length [OF l(1)] unfolding hdrs_ok_def hdr_resting_def hdr_shape_def by auto
  show "hdr_holds ?ah t' v" if "hdr_holds ah t' v" "ah_frag_index ah ! t' \<noteq> ?n"
    using that hdr_lower_value [OF lay H(1,2) _ _ _ H(3) l(2), of "ah_frag_index ah ! t'"] by (auto simp: hdr_holds_def hdr_nul_def Let_def)
  have "hdr_val ?ah ?n = map ascii_lower s"
    using l(1) H(3) by (simp add: hdr_val_def hdr_lower_def min_def)
  moreover have "hdr_nul ?ah ?n" using H(3,5) hdr_lower_nth [OF l(1)] by (simp add: hdr_nul_def)
  ultimately show "hdr_holds ?ah t (map ascii_lower s)" using H by (simp add: hdr_holds_def Let_def)
qed

section \<open>The request of the client\<close>

lemma client_offer_loop_keeps:
  "client_offer_loop en ks n out u = Done (exts, u') \<Longrightarrow> up_ah u' = up_ah u \<and> up_wsi u' = up_wsi u \<and> up_handshake_hash u' = up_handshake_hash u"
  by (induction ks arbitrary: n out u) (auto simp: Let_def split: if_splits)

lemma b64_room:
  assumes "length (rfc4648 encode_orig x) + 1 < length b" and "n = int (length b)"
  shows "lws_b64_encode_string x b n =
    Done (int (length (rfc4648 encode_orig x)), rfc4648 encode_orig x @ 0 # drop (length (rfc4648 encode_orig x) + 1) b)"
  using lws_b64_encode_is_rfc4648 [of n b lws_b64_encode_string encode_orig x] assms by simp

lemma orig_no_nul [simp]: "0 \<notin> set (rfc4648 encode_orig x)"
  by (rule rfc4648_no_nul) (simp add: is_alphabet_def)

text \<open>The ws headers of the request, as lines.\<close>

definition client_ws_lines :: "bytes \<Rightarrow> bytes \<Rightarrow> int list option \<Rightarrow> bytes \<Rightarrow> nat \<Rightarrow> bytes" where
  "client_ws_lines conn1 key prot exts spec = bytes_of_string ''Upgrade: websocket'' @ crlf @ bytes_of_string ''Connection: '' @ conn1 @ bytes_of_string ''Upgrade'' @ crlf @
     bytes_of_string ''Sec-WebSocket-Key: '' @ key @ crlf @
     (case prot of None \<Rightarrow> [] | Some p \<Rightarrow> bytes_of_string ''Sec-WebSocket-Protocol: '' @ bytes_of p @ crlf) @ exts @
     (if spec \<noteq> 0 then bytes_of_string ''Sec-WebSocket-Version: '' @ decimal spec @ crlf else [])"

text \<open>The client keeps the hash that answers the key it sends.\<close>

lemma client_request_ok:
  assumes "length (get_random (ue_env en 0) (events (up_wsi u)) 16) = 16" and "hdr_str (up_ah u) 88 = Done prot" and "up_ah u \<noteq> None"
    and "client_offer_loop en [0..<length (ue_extensions en)] 0 [] u = Done (exts, u1)" and "length (up_handshake_hash u) = 30"
    and key: "key = rfc4648 encode_orig (get_random (ue_env en 0) (events (up_wsi u)) 16)"
  shows "\<exists>r. lws_generate_client_ws_handshake en u conn1 =
      Done (Some (client_ws_lines conn1 key prot exts (ietf_spec_revision (up_wsi u))), u1\<lparr>up_handshake_hash := ws_accept key @ 0 # r\<rparr>)"
proof -
  let ?rnd = "get_random (ue_env en 0) (events (up_wsi u)) 16"
  note K = client_offer_loop_keeps [OF assms(4)]
  have kl: "length key = 24" using assms(1) by (simp add: key rfc4648_length)
  have e: "lws_b64_encode_string ?rnd (replicate 40 0) 40 = Done (24, key @ 0 # replicate 15 0)"
    using b64_room [of ?rnd "replicate 40 0" 40] kl by (simp add: key)
  have "(key @ 0 # replicate 15 0)[39 := 0] = key @ 0 # replicate 15 0"
    using kl by (simp add: list_update_append eval_nat_numeral)
  then have c: "c_str ((key @ 0 # replicate 15 0)[39 := 0]) = Done key" "c_str (key @ 0 # replicate 15 0) = Done key" by (simp_all add: key)
  obtain b where b: "mem_store (replicate 128 0) 0 (key @ ws_guid @ [0]) = Done b" using kl by (simp add: mem_store_def ws_guid_length)
  have "take (length (key @ ws_guid)) b = take (length (key @ ws_guid)) (take (length (key @ ws_guid @ [0])) (drop 0 b))" by (simp add: min_def)
  then have bt: "take (length (key @ ws_guid)) b = key @ ws_guid" unfolding mem_store_after [OF b] by simp
  define r where "r = drop 29 (up_handshake_hash u)"
  have hl: "length (up_handshake_hash u1) = 30" using K assms(5) by simp
  have h: "lws_b64_encode_string (fips_sha1 (key @ ws_guid)) (up_handshake_hash u1) (int (length (up_handshake_hash u1))) = Done (28, ws_accept key @ 0 # r)"
    using b64_room [of "fips_sha1 (key @ ws_guid)" "up_handshake_hash u1"] ws_accept_length [of key] hl K by (simp add: ws_accept_def r_def)
  have "lws_generate_client_ws_handshake en u conn1 =
      Done (Some (client_ws_lines conn1 key prot exts (ietf_spec_revision (up_wsi u))), u1\<lparr>up_handshake_hash := ws_accept key @ 0 # r\<rparr>)"
    unfolding lws_generate_client_ws_handshake_def Let_def e bind_outcome.simps prod.case c assms(2,4) b bt lws_SHA1_fips
    using K assms(1,3) h by (simp add: client_ws_lines_def)
  then show ?thesis by blast
qed

section \<open>What the client accepts\<close>

text \<open>The steps up to the accept hash leave the headers and the expected hash alone.\<close>

definition keeps_answer :: "'e upgrade \<Rightarrow> 'e upgrade \<Rightarrow> bool" where
  "keeps_answer u u' \<longleftrightarrow> up_ah u' = up_ah u \<and> up_handshake_hash u' = up_handshake_hash u"

lemma keeps_answer_refl [simp]: "keeps_answer u u"
  by (simp add: keeps_answer_def)

lemma keeps_answer_trans [trans]: "keeps_answer u u1 \<Longrightarrow> keeps_answer u1 u2 \<Longrightarrow> keeps_answer u u2"
  by (simp add: keeps_answer_def)

lemma keeps_answer_fields [simp]:
  "keeps_answer u (u1\<lparr>up_wsi := x\<rparr>) = keeps_answer u u1" "keeps_answer u (u1\<lparr>up_calls := cs\<rparr>) = keeps_answer u u1"
  "keeps_answer u (u1\<lparr>up_protocol := k\<rparr>) = keeps_answer u u1" "keeps_answer u (u1\<lparr>up_active := ac\<rparr>) = keeps_answer u u1"
  "keeps_answer u (u1\<lparr>up_serv_buf := b\<rparr>) = keeps_answer u u1" "keeps_answer u (u1\<lparr>up_same_vh := vh\<rparr>) = keeps_answer u u1"
  by (simp_all add: keeps_answer_def)

text \<open>Going backwards through an operation: \<open>done_all P m\<close> says that \<open>P\<close> holds of the result of \<open>m\<close>, if it has one.\<close>

definition done_all :: "('a \<Rightarrow> bool) \<Rightarrow> 'a outcome \<Rightarrow> bool" where
  "done_all P m \<longleftrightarrow> (\<forall>x. m = Done x \<longrightarrow> P x)"

lemma done_all_Done [simp]: "done_all P (Done x) = P x" and done_all_Fault [simp]: "done_all P Fault"
  by (simp_all add: done_all_def)

lemma done_bind: "done_all (\<lambda>x. done_all P (f x)) m \<Longrightarrow> done_all P (bind_outcome m f)"
  by (cases m) simp_all

lemma done_if: "(b \<Longrightarrow> done_all P m) \<Longrightarrow> (\<not> b \<Longrightarrow> done_all P m') \<Longrightarrow> done_all P (if b then m else m')"
  by simp

lemma done_option: "(x = None \<Longrightarrow> done_all P m) \<Longrightarrow> (\<And>y. x = Some y \<Longrightarrow> done_all P (f y)) \<Longrightarrow>
  done_all P (case x of None \<Rightarrow> m | Some y \<Rightarrow> f y)"
  by (cases x) simp_all

lemma done_prod: "(\<And>a b. x = (a, b) \<Longrightarrow> done_all P (f a b)) \<Longrightarrow> done_all P (case x of (a, b) \<Rightarrow> f a b)"
  by (cases x) simp_all

lemma done_sum: "(\<And>e. x = Inl e \<Longrightarrow> done_all P (f e)) \<Longrightarrow> (\<And>y. x = Inr y \<Longrightarrow> done_all P (g y)) \<Longrightarrow>
  done_all P (case x of Inl e \<Rightarrow> f e | Inr y \<Rightarrow> g y)"
  by (cases x) simp_all

lemma done_case: "done_all (\<lambda>x. done_all P (f x)) m \<Longrightarrow> done_all P (case m of Done x \<Rightarrow> f x | Fault \<Rightarrow> Fault)"
  by (cases m) simp_all

lemma done_any: "(\<And>x. P x) \<Longrightarrow> done_all P m"
  by (simp add: done_all_def)

lemmas done_rules = done_bind done_case done_if done_option done_prod done_sum done_all_Done [THEN iffD2] done_all_Fault

lemma done_eq: "done_all (\<lambda>x. m = Done x \<longrightarrow> P x) m \<Longrightarrow> done_all P m"
  by (simp add: done_all_def)

lemma done_allD: "done_all P m \<Longrightarrow> m = Done x \<Longrightarrow> P x"
  by (simp add: done_all_def)

lemma upgrade_user_keeps: "(\<And>r u'. keeps_answer u u' \<Longrightarrow> P (r, u')) \<Longrightarrow> done_all P (upgrade_user en u c)"
  by (auto simp: upgrade_user_def split: option.splits)

lemma ext_slot_call_keeps: "(\<And>r u'. keeps_answer u u' \<Longrightarrow> P (r, u')) \<Longrightarrow> done_all P (ext_slot_call en u c)"
  by (auto simp: ext_slot_call_def Let_def split: prod.splits)

lemma ext_activate_keeps: "(\<And>u'. keeps_answer u u' \<Longrightarrow> P u') \<Longrightarrow> done_all P (ext_activate k u)"
  by (auto simp: ext_activate_def Let_def)

lemma ext_parse_loop_keeps: "(\<And>r u'. keeps_answer u u' \<Longrightarrow> P (r, u')) \<Longrightarrow> done_all P (ext_parse_loop en k s cs u)"
proof (induction cs arbitrary: s u P)
  case (Cons c cs)
  have next_ok: "done_all P (case step of Leap_fail \<Rightarrow> Done (-1, u1) | Leap_end \<Rightarrow> Done (0, u1) | Leap_next s \<Rightarrow> ext_parse_loop en k s cs u1)"
    if "keeps_answer u u1" for step u1
  proof -
    have "done_all P (ext_parse_loop en k s cs u1)" for s by (rule Cons.IH) (blast intro: Cons.prems keeps_answer_trans [OF that])
    then show ?thesis using that Cons.prems by (simp split: ext_parse_step.split)
  qed
  show ?case
    unfolding ext_parse_loop.simps
    by (rule done_bind [OF done_any], intro done_rules ext_slot_call_keeps next_ok) (auto simp: split_paired_all)
qed simp

lemmas ext_keeps = ext_activate_keeps ext_slot_call_keeps upgrade_user_keeps ext_parse_loop_keeps

lemma client_ext_try_keeps: "(\<And>r u'. keeps_answer u u' \<Longrightarrow> P (r, u')) \<Longrightarrow> done_all P (client_ext_try en args name ks known u)"
proof (induction ks arbitrary: name known u P)
  case (Cons k ks)
  show ?case
    unfolding client_ext_try.simps Let_def lws_ext_parse_options_def
    by (intro done_rules ext_keeps done_any [of _ "rx_flow_control_apply _ _"] Cons.IH) (auto simp: keeps_answer_def ext_count_up_def intro!: Cons.prems)
qed simp

lemma client_ext_loop_keeps: "(\<And>r u'. keeps_answer u u' \<Longrightarrow> P (r, u')) \<Longrightarrow> done_all P (client_ext_loop en sb c name ignore a u)"
proof (induction en sb c name ignore a u arbitrary: P rule: client_ext_loop.induct)
  case (1 en sb c name ignore a u)
  show ?case
    unfolding client_ext_loop.simps [of en sb c] Let_def
    by (intro impI done_rules done_eq [OF client_ext_try_keeps] 1(1-4)) (auto simp: keeps_answer_def intro!: 1(5))
qed

lemma client_extensions_keeps: "(\<And>r u'. keeps_answer u u' \<Longrightarrow> P (r, u')) \<Longrightarrow> done_all P (client_extensions en u)"
  unfolding client_extensions_def Let_def
  by (intro done_rules client_ext_loop_keeps done_any [of _ "lws_hdr_total_length _ _"] done_any [of _ "lws_hdr_copy _ _ _"] done_any [of _ "mem_store _ _ _"])
    (auto simp: keeps_answer_def)

lemma client_protocol_keeps: "client_protocol en u = Done (Inr (n, u')) \<Longrightarrow> keeps_answer u u'"
proof -
  assume e: "client_protocol en u = Done (Inr (n, u'))"
  have "done_all (\<lambda>r. r = Inr (n, u') \<longrightarrow> keeps_answer u u') (client_protocol en u)"
    unfolding client_protocol_def identify_protocol_def Let_def
    by (intro done_rules done_any [of _ "lws_hdr_total_length _ _"] done_any [of _ "hdr_str _ _"] done_any [of _ "find_protocol _ _ _"]) auto
  then show "keeps_answer u u'" using e by simp
qed

end
