(* ===== verification/Ws_Opening.thy ===== *)
theory Ws_Opening
  imports Ws_Client_Answer
begin

text \<open>
  The opening handshake of both ends: which answers the client accepts, and that a client and a server of this library
  open a connection over the bytes they send each other.
\<close>

section \<open>The checks of the client\<close>

text \<open>A parsed answer with an \<open>Upgrade\<close>, a \<open>Connection\<close> and a \<open>Sec-WebSocket-Accept\<close> header, each sent once.\<close>

definition client_answer :: "nat \<Rightarrow> allocated_headers \<Rightarrow> int list \<Rightarrow> (int list \<times> int list) list \<Rightarrow> int list \<Rightarrow> bool" where
  "client_answer mx ah upg conn acc \<longleftrightarrow> hdrs_ok mx ah \<and> hdr_apart ah \<and> hdr_holds ah 5 upg \<and> 0 \<notin> set upg \<and> hdr_holds ah 13 acc \<and> acc \<noteq> [] \<and> 0 \<notin> set acc \<and>
     hdr_holds ah 4 (list_text conn) \<and> conn \<noteq> [] \<and> list_all token_item conn \<and> length (list_text conn) < 63"

lemma holds_apart:
  assumes "hdr_apart ah" and "hdr_holds ah t v" and "hdr_holds ah t' v'" and "t < 96" and "t' < 96" and "t \<noteq> t'"
  shows "ah_frag_index ah ! t \<noteq> ah_frag_index ah ! t'"
  using assms by (force simp: hdr_apart_def hdr_holds_def Let_def)

abbreviation lowered :: "allocated_headers \<Rightarrow> int list \<Rightarrow> allocated_headers" where
  "lowered ah upg \<equiv> hdr_lower ah (off ah (ah_frag_index ah ! 5)) upg"

lemma lowered_holds:
  assumes "client_answer mx ah upg conn acc" and "hdr_holds ah t v" and "t < 96" and "t \<noteq> 5"
  shows "hdr_holds (lowered ah upg) t v"
  using hdr_lower_ok(2) [of mx ah 5 upg t v] holds_apart [of ah t v 5 upg] assms by (simp add: client_answer_def)

definition answer_accepted :: "allocated_headers \<Rightarrow> int list \<Rightarrow> (int list \<times> int list) list \<Rightarrow> bool" where
  "answer_accepted ah upg conn \<longleftrightarrow> ah_http_response ah = 101 \<and> map ascii_lower upg = name_bytes ''websocket'' \<and> list_ex (\<lambda>x. upgrade_prefix (snd x)) conn"

lemma client_check_result:
  assumes "client_answer mx ah upg conn acc"
  shows "\<exists>e ah'. client_check_upgrade ah = Done (e, ah') \<and> (e = None \<longleftrightarrow> answer_accepted ah upg conn) \<and> (e = None \<longrightarrow> ah' = lowered ah upg)"
proof (cases "ah_http_response ah = 101")
  case False
  then show ?thesis by (auto simp: client_check_upgrade_def answer_accepted_def)
next
  case True
  have h: "hdrs_ok mx ah" "hdr_holds ah 5 upg" "0 \<notin> set upg" "hdr_holds ah 13 acc" "acc \<noteq> []" "conn \<noteq> []" "list_all token_item conn" "length (list_text conn) < 63"
      "hdr_holds ah 4 (list_text conn)" using assms by (auto simp: client_answer_def)
  obtain r where d: "drop (off ah (ah_frag_index ah ! 5)) (ah_data ah) = upg @ 0 # r"
      "lws_hdr_simple_ptr (Some ah) 5 = Done (Some (off ah (ah_frag_index ah ! 5)))" by (rule hdr_data_at [OF h(1,2)]) simp_all
  have tl: "lws_hdr_total_length (Some ah) 13 = Done (length acc)" using total_length_holds [OF h(1,4)] by simp
  have lo: "hdrs_ok mx (lowered ah upg)" "hdr_holds (lowered ah upg) 4 (list_text conn)"
    using hdr_lower_ok(1) [OF h(1,2)] lowered_holds [OF assms h(9)] by simp_all
  have c: "upgrade_conn_ok (Some (lowered ah upg)) 64 [LWS_TOKENIZE_F_COMMA_SEP_LIST, LWS_TOKENIZE_F_MINUS_NONTERM] = Done (list_ex (\<lambda>x. upgrade_prefix (snd x)) conn)"
    using upgrade_conn_list [OF lo h(6,7)] h(8) by simp
  have cs: "c_str (upg @ 0 # r) = Done upg" using h(3) by simp
  show ?thesis
    unfolding client_check_upgrade_def tl bind_outcome.simps d option.case cs Let_def c using True h(5)
    by (auto simp: answer_accepted_def)
qed

text \<open>The protocol of the connection: the one the client was bound to, if the server names none or one of the client's list.\<close>

definition client_bound :: "'e upgrade_env \<Rightarrow> 'e upgrade \<Rightarrow> nat \<Rightarrow> bool" where
  "client_bound en u k \<longleftrightarrow> up_protocol u = Some k \<and> k < length (ue_protocols en) \<and> role_client (up_wsi u) \<and>
     None \<notin> set (map pr_name (ue_protocols en)) \<and> distinct (map pr_name (ue_protocols en))"

lemma find_protocol_hit:
  assumes "\<forall>i\<in>set ns. pr_name (ue_protocols en ! i) \<noteq> None" and "pr_name (ue_protocols en ! k) = Some nm" and "k \<in> set ns"
    and "\<forall>i\<in>set ns. pr_name (ue_protocols en ! i) = Some nm \<longrightarrow> i = k"
  shows "find_protocol en (Some nm) ns = Done (Some k)"
  using assms
proof (induction ns)
  case (Cons i ns)
  obtain n where n: "pr_name (ue_protocols en ! i) = Some n" using Cons.prems(1) by auto
  show ?case
  proof (cases "n = nm")
    case True
    then have "i = k" using Cons.prems(4) [rule_format, of i] n by simp
    then show ?thesis using Cons.prems(2) by (simp add: name_strcmp_def)
  next
    case False
    then have k: "k \<in> set ns" using n Cons.prems(2,3) by auto
    have "find_protocol en (Some nm) ns = Done (Some k)" using Cons.IH [OF _ Cons.prems(2) k] Cons.prems(1,4) by (meson list.set_intros(2))
    then show ?thesis using False n by (simp add: name_strcmp_def)
  qed
qed simp

lemma find_bound:
  assumes "client_bound en u k"
  shows "find_protocol en (pr_name (ue_protocols en ! k)) [0..<length (ue_protocols en)] = Done (Some k)"
proof -
  have B: "k < length (ue_protocols en)" "None \<notin> set (map pr_name (ue_protocols en))" "distinct (map pr_name (ue_protocols en))" using assms by (auto simp: client_bound_def)
  have n: "pr_name (ue_protocols en ! i) \<noteq> None" if "i < length (ue_protocols en)" for i
  proof
    assume "pr_name (ue_protocols en ! i) = None"
    moreover have "pr_name (ue_protocols en ! i) \<in> set (map pr_name (ue_protocols en))" using that by simp
    ultimately show False using B(2) by argo
  qed
  obtain nm where nm: "pr_name (ue_protocols en ! k) = Some nm" using n [OF B(1)] by blast
  have "i = k" if "i < length (ue_protocols en)" "pr_name (ue_protocols en ! i) = Some nm" for i
    using nth_eq_iff_index_eq [OF B(3), of i k] B(1) that nm by simp
  then show ?thesis
    unfolding nm by (intro find_protocol_hit ballI impI nm) (use n B(1) in \<open>simp_all only: set_upt atLeastLessThan_iff, auto\<close>)
qed

definition protocol_answered :: "allocated_headers \<Rightarrow> bool" where
  "protocol_answered ah \<longleftrightarrow> (ah_frag_index ah ! 88 = 0 \<and> ah_frag_index ah ! 12 = 0 \<or>
     (\<exists>pc. hdr_holds ah 88 pc \<and> 0 \<notin> set pc \<and> (ah_frag_index ah ! 12 = 0 \<or> (\<exists>p. hdr_holds ah 12 p \<and> p \<noteq> [] \<and> 0 \<notin> set p \<and> protocol_offered p pc))))"

lemma client_protocol_ok:
  assumes "client_bound en u k" and "hdrs_ok mx ah" and "up_ah u = Some ah" and "protocol_answered ah"
  shows "client_protocol en u = Done (Inr (k, u))"
proof -
  note B = assms(1) [unfolded client_bound_def]
  have i: "identify_protocol en u p = Done (Inr (k, u))" for p
    using B find_bound [OF assms(1)] by (simp add: identify_protocol_def Let_def)
  consider "ah_frag_index ah ! 88 = 0" "ah_frag_index ah ! 12 = 0"
    | pc where "hdr_holds ah 88 pc" "0 \<notin> set pc" "ah_frag_index ah ! 12 = 0"
    | pc p where "hdr_holds ah 88 pc" "0 \<notin> set pc" "hdr_holds ah 12 p" "p \<noteq> []" "0 \<notin> set p" "protocol_offered p pc"
    using assms(4) by (auto simp: protocol_answered_def)
  then show ?thesis
  proof cases
    case 1
    then show ?thesis using hdr_str_absent [OF assms(2)] total_length_absent [OF assms(2)] i B assms(3) by (simp add: client_protocol_def del: bind_outcome_eq_Done)
  next
    case 2
    then show ?thesis using hdr_str_holds [OF assms(2)] total_length_absent [OF assms(2)] i B assms(3) by (simp add: client_protocol_def del: bind_outcome_eq_Done)
  next
    case 3
    then show ?thesis using hdr_str_holds [OF assms(2)] total_length_holds [OF assms(2)] i B assms(3) by (simp add: client_protocol_def del: bind_outcome_eq_Done)
  qed
qed

definition client_open :: "'e upgrade_env \<Rightarrow> nat \<Rightarrow> bool" where
  "client_open en k \<longleftrightarrow> (\<forall>n. alloc (ue_env en k) n) \<and> has_callback (ue_env en k) \<and> (\<forall>cs c. ue_user en cs c = 0) \<and> ue_rx_mem en k \<noteq> None"

definition client_established :: "'e upgrade \<Rightarrow> bool" where
  "client_established u \<longleftrightarrow> wsi_state (up_wsi u) = LRS_ESTABLISHED \<and> role_client (up_wsi u) \<and> up_ah u = None \<and> UcClientEstablished \<in> set (up_calls u)"

lemma client_establish_ok:
  assumes "client_open en k" and "up_protocol u = Some k"
  shows "\<exists>u'. client_establish en u = Done (0, [], u') \<and> client_established u' \<and> up_protocol u' = Some k"
proof -
  obtain us where us: "lws_ensure_user_space en u = (0, u\<lparr>up_user_space := us\<rparr>)"
    using ensure_user_space_ok [of en k u] assms by (auto simp: client_open_def)
  obtain b where b: "ue_rx_mem en k = Some b" using assms(1) by (auto simp: client_open_def)
  show ?thesis
    unfolding client_establish_def us Let_def prod.case using b assms
    by (simp add: upgrade_user_def client_open_def client_established_def log_event_def)
qed

lemma client_upgrade_cases:
  assumes "client_answer mx ah upg conn acc" and "up_ah u = Some ah" and "\<not> up_mux_substream u" and "client_bound en u k" and "protocol_answered ah"
    and "ah_frag_index ah ! 9 = 0" and "client_open en k" and "c_str (up_handshake_hash u) = Done hash"
  shows "\<exists>r cce u'. lws_client_ws_upgrade en u = Done (r, cce, u') \<and> (r = 0 \<longleftrightarrow> answer_accepted ah upg conn \<and> bytes_of acc = hash) \<and>
    (r = 0 \<longrightarrow> client_established u' \<and> up_protocol u' = Some k)"
proof -
  obtain e ah' where c: "client_check_upgrade ah = Done (e, ah')" "e = None \<longleftrightarrow> answer_accepted ah upg conn" "e = None \<longrightarrow> ah' = lowered ah upg"
    using client_check_result [OF assms(1)] by blast
  show ?thesis
  proof (cases "answer_accepted ah upg conn")
    case False
    then obtain x where "e = Some x" using c(2) by auto
    then have "lws_client_ws_upgrade en u = Done (3, x, u\<lparr>up_ah := Some ah'\<rparr>)" using c(1) assms(2,3) by (simp add: lws_client_ws_upgrade_def)
    then show ?thesis using False by auto
  next
    case True
    let ?ah = "lowered ah upg" and ?u = "u\<lparr>up_ah := Some (lowered ah upg)\<rparr>"
    have e: "e = None" "ah' = ?ah" using True c by auto
    have A: "hdrs_ok mx ah" "hdr_holds ah 5 upg" "hdr_holds ah 13 acc" "0 \<notin> set acc" using assms(1) by (auto simp: client_answer_def)
    have h: "hdrs_ok mx ?ah" using hdr_lower_ok(1) [OF A(1,2)] by simp
    have "hdr_holds ah 88 v \<Longrightarrow> hdr_holds ?ah 88 v" "hdr_holds ah 12 v \<Longrightarrow> hdr_holds ?ah 12 v" for v using lowered_holds [OF assms(1)] by auto
    then have "protocol_answered ?ah" using assms(5) unfolding protocol_answered_def hdr_lower_fields by blast
    then have p: "client_protocol en ?u = Done (Inr (k, ?u))" using client_protocol_ok [of en ?u k mx ?ah] h assms(4) by (simp add: client_bound_def)
    have x: "client_extensions en (?u\<lparr>up_same_vh := Some k\<rparr>) = Done (None, ?u\<lparr>up_same_vh := Some k\<rparr>)"
      using total_length_absent [OF h, of 9] assms(6) by (simp add: client_extensions_def)
    have s: "hdr_str (Some ?ah) 13 = Done (Some acc)" using hdr_str_holds [OF h lowered_holds [OF assms(1) A(3)]] A(4) by simp
    obtain u' where u': "client_establish en (?u\<lparr>up_same_vh := Some k\<rparr>) = Done (0, [], u')" "client_established u'" "up_protocol u' = Some k"
      using client_establish_ok [OF assms(7), of "?u\<lparr>up_same_vh := Some k\<rparr>"] assms(4) by (auto simp: client_bound_def)
    have "lws_client_ws_upgrade en u = (if bytes_of acc \<noteq> hash then Done (2, ''HS: Accept hash wrong'', ?u\<lparr>up_same_vh := Some k\<rparr>) else Done (0, [], u'))"
      using c(1) e assms(2,3,8) p x s u'(1) by (simp add: lws_client_ws_upgrade_def Let_def del: bind_outcome_eq_Done)
    then show ?thesis using True u' by auto
  qed
qed

text \<open>C7. Which answers the client accepts.  For a parsed answer with each of the three headers once, without extensions, a
  protocol that is missing or of the client's list, a \<open>Connection\<close> header that is a list of tokens of fewer than 63 bytes in
  all, and a user who agrees, \<open>lws_client_ws_upgrade\<close> returns 0, with the
  connection established and the user told so, exactly when the status is 101, the \<open>Upgrade\<close> header is \<open>websocket\<close> in any
  case, the \<open>Connection\<close> header has a token that passes for \<open>upgrade\<close> and the \<open>Sec-WebSocket-Accept\<close> header is the
  hash the client keeps.  It always returns, and reads nothing outside the header table.\<close>

theorem client_upgrade_result:
  assumes "client_answer mx ah upg conn acc" and "up_ah u = Some ah" and "\<not> up_mux_substream u" and "client_bound en u k" and "protocol_answered ah"
    and "ah_frag_index ah ! 9 = 0" and "client_open en k" and "c_str (up_handshake_hash u) = Done hash"
  shows "\<exists>r cce u'. lws_client_ws_upgrade en u = Done (r, cce, u') \<and> (r = 0 \<longleftrightarrow> answer_accepted ah upg conn \<and> bytes_of acc = hash) \<and>
    (r = 0 \<longrightarrow> client_established u' \<and> up_protocol u' = Some k)"
  using client_upgrade_cases [OF assms] .

section \<open>The messages as header lines\<close>

lemma uint_of_string [simp]: "map uint (bytes_of_string s) = name_bytes s"
proof -
  have "uint (of_char c :: u8) = of_char c" for c
  proof -
    have "(of_char c :: u8) = of_nat (of_char c)" "(of_char c :: int) = of_nat (of_char c)" by (simp_all only: of_nat_of_char)
    then show ?thesis using nat_of_char_less_256 [of c] by (simp add: uint_nat unat_of_nat)
  qed
  then show ?thesis by (simp add: bytes_of_string_def name_bytes_def)
qed

definition byte_list :: "int list \<Rightarrow> bool" where
  "byte_list xs \<longleftrightarrow> list_all (\<lambda>c. 0 \<le> c \<and> c < 256) xs"

lemma uint_bytes_of [simp]: "byte_list xs \<Longrightarrow> map uint (bytes_of xs) = xs"
  by (induction xs) (simp_all add: byte_list_def uint_word_of_int)

lemma uint_bytes_comp [simp]: "byte_list xs \<Longrightarrow> map (uint \<circ> (word_of_int :: int \<Rightarrow> u8)) xs = xs"
  using uint_bytes_of [of xs] by simp

definition mk_field :: "string \<Rightarrow> nat \<Rightarrow> int list \<Rightarrow> header_field" where
  "mk_field nm t v = \<lparr>field_name = name_bytes nm, field_blanks = 1, field_value = v, field_token = t\<rparr>"

lemma mk_field_simps [simp]: "field_token (mk_field nm t v) = t" "field_value (mk_field nm t v) = v" "field_name (mk_field nm t v) = name_bytes nm"
    "field_line (mk_field nm t v) = name_bytes nm @ 32 # v @ [13, 10]"
  by (simp_all add: mk_field_def field_line_def)

definition plain_value :: "int list \<Rightarrow> bool" where
  "plain_value v \<longleftrightarrow> v \<noteq> [] \<and> hd v \<noteq> 32 \<and> set v \<inter> {0, 10, 13} = {}"

lemma mk_field_ok:
  "plain_value v \<Longrightarrow> field_ok (mk_field ''Upgrade:'' 5 v)" "plain_value v \<Longrightarrow> field_ok (mk_field ''Connection:'' 4 v)"
  "plain_value v \<Longrightarrow> field_ok (mk_field ''Sec-WebSocket-Key:'' 32 v)" "plain_value v \<Longrightarrow> field_ok (mk_field ''Sec-WebSocket-Protocol:'' 12 v)"
  "plain_value v \<Longrightarrow> field_ok (mk_field ''Sec-WebSocket-Version:'' 33 v)" "plain_value v \<Longrightarrow> field_ok (mk_field ''Sec-WebSocket-Accept:'' 13 v)"
  by (simp_all add: field_ok_def mk_field_def plain_value_def methods_def lextable_set_def name_bytes_def parse_to_lower_def)

lemma plain_value_names [simp]: "plain_value (name_bytes ''websocket'')" "plain_value (name_bytes ''WebSocket'')" "plain_value (name_bytes ''Upgrade'')"
  by (simp_all add: plain_value_def name_bytes_def)

lemma printable_plain:
  assumes "list_all (\<lambda>c :: u8. 32 < c) b" and "b \<noteq> []"
  shows "plain_value (map uint b)"
proof -
  have "32 < c" if "c \<in> set (map uint b)" for c using assms(1) that by (auto simp: list_all_iff word_less_def)
  then show ?thesis using assms(2) hd_in_set [of "map uint b"] by (fastforce simp: plain_value_def)
qed

lemma rfc4648_plain: "x \<noteq> [] \<Longrightarrow> plain_value (map uint (rfc4648 encode_orig x))"
proof (rule printable_plain [OF rfc4648_printable])
  assume "x \<noteq> []"
  then have "length (rfc4648 encode_orig x) \<noteq> 0" by (cases x) (simp_all add: rfc4648_length)
  then show "rfc4648 encode_orig x \<noteq> []" by auto
qed (simp add: is_alphabet_def)

lemma decimal_plain: "plain_value (map uint (decimal n))"
proof (rule printable_plain)
  show "list_all (\<lambda>c. 32 < c) (decimal n)"
  proof (induction n rule: decimal.induct)
    case (1 n)
    have d: "(32 :: u8) < of_nat (48 + k)" if "k < 10" for k
      using that by (simp add: word_less_nat_alt unat_of_nat del: of_nat_add)
    show ?case
    proof (cases "n < 10")
      case True
      then show ?thesis using d [of n] by (subst decimal.simps) simp
    next
      case False
      then show ?thesis using 1 d [of "n mod 10"] by (subst decimal.simps) simp
    qed
  qed
  show "decimal n \<noteq> []" by (subst decimal.simps) simp
qed

text \<open>The ws part of the client's request.\<close>

definition client_ws_fields :: "bytes \<Rightarrow> int list option \<Rightarrow> nat \<Rightarrow> header_field list" where
  "client_ws_fields key prot spec = [mk_field ''Upgrade:'' 5 (name_bytes ''websocket''), mk_field ''Connection:'' 4 (name_bytes ''Upgrade''),
     mk_field ''Sec-WebSocket-Key:'' 32 (map uint key)] @
     (case prot of None \<Rightarrow> [] | Some p \<Rightarrow> [mk_field ''Sec-WebSocket-Protocol:'' 12 p]) @
     (if spec \<noteq> 0 then [mk_field ''Sec-WebSocket-Version:'' 33 (map uint (decimal spec))] else [])"

lemma string_blank: "name_bytes (s @ '' '') = name_bytes s @ [32]"
  by (simp add: name_bytes_def)

lemma client_ws_lines_fields:
  assumes "case prot of None \<Rightarrow> True | Some p \<Rightarrow> byte_list p"
  shows "map uint (client_ws_lines [] key prot [] spec) = concat (map field_line (client_ws_fields key prot spec))"
  using assms string_blank [of "''Connection:''"] string_blank [of "''Sec-WebSocket-Key:''"] string_blank [of "''Sec-WebSocket-Protocol:''"]
    string_blank [of "''Sec-WebSocket-Version:''"] by (auto simp: client_ws_lines_def client_ws_fields_def name_bytes_def split: option.split)

lemma client_ws_fields_ok:
  assumes "plain_value (map uint key)" and "case prot of None \<Rightarrow> True | Some p \<Rightarrow> plain_value p"
  shows "list_all field_ok (client_ws_fields key prot spec)"
  using assms decimal_plain by (auto simp: client_ws_fields_def mk_field_ok split: option.split)

text \<open>The server's answer, with the header lines \<open>afs\<close> of its user.\<close>

definition response_fields :: "bytes \<Rightarrow> int list option \<Rightarrow> header_field list \<Rightarrow> header_field list" where
  "response_fields key prot afs = [mk_field ''Upgrade:'' 5 (name_bytes ''WebSocket''), mk_field ''Connection:'' 4 (name_bytes ''Upgrade''),
     mk_field ''Sec-WebSocket-Accept:'' 13 (map uint (ws_accept key))] @
     (case prot of None \<Rightarrow> [] | Some p \<Rightarrow> [mk_field ''Sec-WebSocket-Protocol:'' 12 p]) @ afs"

lemma ws_response_fields:
  assumes "map uint add = concat (map field_line afs)"
  shows "map uint (ws_response key prot add) = name_bytes ''HTTP/1.1 '' @ name_bytes ''101 Switching Protocols'' @ [13, 10] @
    concat (map field_line (response_fields key (map_option (map uint) prot) afs)) @ [13, 10]"
  using assms by (auto simp: ws_response_def response_head_def response_fields_def name_bytes_def split: option.split)

lemma response_fields_ok:
  assumes "list_all field_ok afs" and "case prot of None \<Rightarrow> True | Some p \<Rightarrow> plain_value p"
  shows "list_all field_ok (response_fields key prot afs)"
proof -
  have "fips_sha1 (key @ ws_guid) \<noteq> []" using fips_sha1_length [of "key @ ws_guid"] by auto
  then have "plain_value (map uint (ws_accept key))" unfolding ws_accept_def by (rule rfc4648_plain)
  then show ?thesis using assms by (auto simp: response_fields_def mk_field_ok split: option.split)
qed

section \<open>A request, from its bytes to the answer\<close>

definition field_of :: "header_field list \<Rightarrow> nat \<Rightarrow> int list option" where
  "field_of fs = map_of (map (\<lambda>f. (field_token f, field_value f)) fs)"

lemma field_of_D: "field_of fs t = Some v \<Longrightarrow> \<exists>f\<in>set fs. field_token f = t \<and> field_value f = v"
  by (auto simp: field_of_def dest!: map_of_SomeD)

lemma field_of_holds: "\<forall>f\<in>set fs. hdr_holds ah (field_token f) (field_value f) \<Longrightarrow> field_of fs t = Some v \<Longrightarrow> hdr_holds ah t v"
  by (auto dest!: field_of_D)

lemma field_of_None: "field_of fs t = None \<longleftrightarrow> t \<notin> field_token ` set fs"
  by (force simp: field_of_def map_of_eq_None_iff image_iff)

lemma field_of_plain: "list_all field_ok fs \<Longrightarrow> field_of fs t = Some v \<Longrightarrow> plain_value v"
  by (auto dest!: field_of_D simp: list_all_iff field_ok_def plain_value_def)

text \<open>The headers of an upgrade request without extensions: the tokens of its \<open>Connection\<close> header, and the protocols \<open>ps\<close> it
  asks for, if any.\<close>

definition ws_request :: "header_field list \<Rightarrow> int list \<Rightarrow> (int list \<times> int list) list \<Rightarrow> (int list \<times> int list) list \<Rightarrow> bool" where
  "ws_request fs key conn ps \<longleftrightarrow> list_all field_ok fs \<and> distinct (map field_token fs) \<and> length fs + 2 < WSI_TOKEN_COUNT \<and>
     field_of fs 3 \<noteq> None \<and> field_of fs 32 = Some key \<and> length key < 128 \<and> field_of fs 9 = None \<and>
     field_of fs 4 = Some (list_text conn) \<and> list_all token_item conn \<and> list_ex (\<lambda>x. upgrade_prefix (snd x)) conn \<and> length (list_text conn) < 127 \<and>
     field_of fs 12 = (if ps = [] then None else Some (list_text ps)) \<and> list_all token_item ps \<and> list_all (\<lambda>x. length (snd x) < 63) ps \<and>
     length (list_text ps) < 127"

text \<open>The protocol the server takes, and what it says of it.\<close>

definition server_takes :: "'e upgrade_env \<Rightarrow> (int list \<times> int list) list \<Rightarrow> nat \<Rightarrow> bool" where
  "server_takes en ps k \<longleftrightarrow> (if ps = [] then k = ue_default_protocol_index en \<and> k < length (ue_protocols en) else first_known en (map snd ps) = Some k)"

definition server_names :: "'e upgrade_env \<Rightarrow> (int list \<times> int list) list \<Rightarrow> nat \<Rightarrow> bytes option" where
  "server_names en ps k = (if ps = [] then None else case pr_name (ue_protocols en ! k) of None \<Rightarrow> None | Some p \<Rightarrow> if p = [] then None else Some p)"

definition server_ready :: "'e upgrade_env \<Rightarrow> 'e upgrade \<Rightarrow> nat \<Rightarrow> bytes option \<Rightarrow> bytes \<Rightarrow> bool" where
  "server_ready en u k prot add \<longleftrightarrow> upgrade_ready en k add \<and> upgrade_open en k \<and> wire_ready (ue_env en k) (up_wsi u) \<and> list_all mount_ok (ue_mounts en) \<and>
     \<not> up_mux_substream u \<and> (case up_protocol u of None \<Rightarrow> True | Some k0 \<Rightarrow> has_callback (ue_env en k0)) \<and>
     (case prot of None \<Rightarrow> True | Some n \<Rightarrow> length n < 128) \<and> length (up_serv_buf u) < 2 ^ 31 \<and>
     response_at + length (ws_response [] prot add) < length (up_serv_buf u)"

lemma ws_response_length: "length (ws_response key prot add) = length (ws_response [] prot add)"
  by (simp add: ws_response_def ws_accept_length)

lemma server_answers_table:
  assumes req: "ws_request fs key conn ps" and "hdr_resting mx (ah_pos ah) ah" and holds: "\<forall>f\<in>set fs. hdr_holds ah (field_token f) (field_value f)"
    and absent: "\<forall>t<96. t \<notin> {0, 15} \<union> field_token ` set fs \<longrightarrow> ah_frag_index ah ! t = 0" and path: "hdr_holds ah 0 path" "path \<noteq> []" "0 \<notin> set path"
    and "server_takes en ps k" and rdy: "server_ready en u k (server_names en ps k) add"
  shows "\<exists>u'. lws_process_ws_upgrade en (u\<lparr>up_ah := Some ah\<rparr>) = Some (Done (0, u')) \<and> up_protocol u' = Some k \<and> wsi_state (up_wsi u') = LRS_ESTABLISHED \<and>
    EvCallback LWS_CALLBACK_ESTABLISHED [] \<in> set (events (up_wsi u')) \<and>
    out_stream (up_wsi u') = out_stream (up_wsi u) @ ws_response (bytes_of key) (server_names en ps k) add"
proof -
  note Q = req [unfolded ws_request_def]
  note hf = field_of_holds [OF holds]
  have ok: "list_all field_ok fs" using Q by simp
  have pl: "v \<noteq> []" "0 \<notin> set v" if "field_of fs t = Some v" for t v using field_of_plain [OF ok that] by (auto simp: plain_value_def)
  have h: "hdrs_ok mx ah" using assms(2) by (auto simp: hdrs_ok_def)
  have ix: "ah_frag_index ah ! t = 0 \<or> (\<exists>v. hdr_holds ah t v \<and> v \<noteq> [] \<and> 0 \<notin> set v)" if "t < 96" "t \<noteq> 0" "t \<noteq> 15" for t
    using absent that hf [of t] pl [of t] field_of_None [of fs t] by (cases "field_of fs t") auto
  have "field_of fs 9 = None" using Q by simp
  then have nine: "ah_frag_index ah ! 9 = 0" using absent field_of_None [of fs 9] by auto
  have "upgrade_request mx ah key"
    unfolding upgrade_request_def using Q h hf [of 3] hf [of 32] pl [of 3] pl [of 32] nine ix [of 33] ix [of 12] by auto
  moreover have "named_protocol en ah k = server_names en ps k"
  proof (cases "ps = []")
    case True
    then have "ah_frag_index ah ! 12 = 0" using Q absent field_of_None [of fs 12] by auto
    then show ?thesis using True by (simp add: named_protocol_def server_names_def)
  next
    case False
    then have "hdr_holds ah 12 (list_text ps)" using Q hf [of 12] by simp
    then show ?thesis using False by (simp add: named_protocol_def server_names_def hdr_holds_def Let_def)
  qed
  moreover have "protocol_chosen en ah ps k"
    using Q assms(8) absent field_of_None [of fs 12] hf [of 12] by (auto simp: protocol_chosen_def server_takes_def)
  moreover have "hdr_holds ah 4 (list_text conn)" using Q hf [of 4] by simp
  ultimately show ?thesis
    using server_upgrade_answers [of "u\<lparr>up_ah := Some ah\<rparr>" ah mx key conn path en ps k add] Q path rdy
    unfolding server_ready_def ws_response_length [of "bytes_of key"] by simp
qed

lemma server_opens:
  assumes "http_env_ok cx" and "token_limits cx = None" and "length d = max_http_header_data cx"
    and "http_ah w = Some (lws_header_table_reset (lws_create_ah d))" and "map parse_to_lower method = name_bytes ''get ''"
    and "plain_path False path" and "path \<noteq> []" and "set version \<inter> {0, 10, 13} = {}" and "version \<noteq> [] \<longrightarrow> hd version \<noteq> 32"
    and "ws_request fs key conn ps" and "length method + length path + length version + fields_room fs + 36 \<le> max_http_header_data cx"
    and "server_takes en ps k" and "server_ready en u k (server_names en ps k) add"
  shows "\<exists>w' u'. lws_parse cx w (method @ path @ [32] @ version @ [13, 10] @ concat (map field_line fs) @ [13, 10] @ body) = Done (LPR_OK, w', body) \<and>
    lws_process_ws_upgrade en (u\<lparr>up_ah := http_ah w'\<rparr>) = Some (Done (0, u')) \<and> up_protocol u' = Some k \<and> wsi_state (up_wsi u') = LRS_ESTABLISHED \<and>
    EvCallback LWS_CALLBACK_ESTABLISHED [] \<in> set (events (up_wsi u')) \<and>
    out_stream (up_wsi u') = out_stream (up_wsi u) @ ws_response (bytes_of key) (server_names en ps k) add"
proof -
  have m: "0 \<in> set methods" "map parse_to_lower method = name_bytes (lextable_set ! 0)" using assms(5) by (simp_all add: methods_def lextable_set_def)
  have Q: "list_all field_ok fs" "distinct (map field_token fs)" "length fs + 2 < WSI_TOKEN_COUNT" using assms(10) by (auto simp: ws_request_def)
  obtain w' ah where r: "lws_parse cx w (method @ path @ [32] @ version @ [13, 10] @ concat (map field_line fs) @ [13, 10] @ body) = Done (LPR_OK, w', body)"
      "http_ah w' = Some ah" "hdr_resting (max_http_header_data cx) (ah_pos ah) ah" "hdr_holds ah 0 path"
      "\<forall>f\<in>set fs. hdr_holds ah (field_token f) (field_value f)" "\<forall>t<96. t \<notin> {0, 15} \<union> field_token ` set fs \<longrightarrow> ah_frag_index ah ! t = 0"
    using request_parsed [OF assms(1-4) m assms(6-9) Q assms(11), of 0 body] by auto
  show ?thesis
    using server_answers_table [OF assms(10) r(3,5,6,4) assms(7) plain_path_no_nul [OF assms(6)] assms(12,13)] r(1,2) by auto
qed


section \<open>An answer, from its bytes to the established connection\<close>

lemma http_response_fields [simp]:
  "hdrs_ok mx (ah\<lparr>ah_http_response := n\<rparr>) = hdrs_ok mx ah" "hdr_holds (ah\<lparr>ah_http_response := n\<rparr>) t v = hdr_holds ah t v"
  "hdr_apart (ah\<lparr>ah_http_response := n\<rparr>) = hdr_apart ah" "protocol_answered (ah\<lparr>ah_http_response := n\<rparr>) = protocol_answered ah"
proof -
  show h: "hdr_holds (ah\<lparr>ah_http_response := n\<rparr>) t v = hdr_holds ah t v" for t v by (simp add: hdr_holds_def hdr_val_def hdr_nul_def)
  show "hdrs_ok mx (ah\<lparr>ah_http_response := n\<rparr>) = hdrs_ok mx ah" by (simp add: hdrs_ok_def hdr_resting_def hdr_shape_def hdr_lay_def hdr_seal_def)
  show "hdr_apart (ah\<lparr>ah_http_response := n\<rparr>) = hdr_apart ah" by (simp add: hdr_apart_def)
  show "protocol_answered (ah\<lparr>ah_http_response := n\<rparr>) = protocol_answered ah" by (simp add: protocol_answered_def h)
qed

lemma client_set_status_101:
  assumes "hdrs_ok mx ah" and "hdr_holds ah 15 (name_bytes ''101 Switching Protocols'')" and "up_ah u = Some ah" and "\<not> up_mux_substream u"
  shows "client_set_status u = Done (True, u\<lparr>up_ah := Some (ah\<lparr>ah_http_response := 101\<rparr>)\<rparr>)"
proof -
  have "hdr_str (Some ah) 15 = Done (Some (name_bytes ''101 Switching Protocols''))"
    using hdr_str_holds [OF assms(1,2)] by (simp add: name_bytes_def)
  moreover have "c_atoi (name_bytes ''101 Switching Protocols'' @ [0]) = Done 101" by code_simp
  ultimately show ?thesis using assms(3,4) by (simp add: client_set_status_def client_status_def c_int_def del: bind_outcome_eq_Done)
qed

text \<open>The protocol of the answer is one the client asked for.\<close>

definition client_offers :: "allocated_headers \<Rightarrow> int list option \<Rightarrow> bool" where
  "client_offers ah prot \<longleftrightarrow> (case prot of None \<Rightarrow> ah_frag_index ah ! 88 = 0 \<or> (\<exists>pc. hdr_holds ah 88 pc \<and> 0 \<notin> set pc)
     | Some p \<Rightarrow> plain_value p \<and> (\<exists>pc. hdr_holds ah 88 pc \<and> 0 \<notin> set pc \<and> protocol_offered p pc))"

lemma client_opens_connection:
  assumes mx: "mx = max_http_header_data cx" and "http_env_ok cx" and "token_limits cx = None" and "http_ah w = Some ah0" and "line_start mx ah0" and "hdr_apart ah0"
    and z: "\<forall>t<88. ah_frag_index ah0 ! t = 0" and afs: "list_all field_ok afs" "distinct (map field_token afs)" "field_token ` set afs \<inter> {4, 5, 9, 12, 13} = {}"
    and "ah_nfrag ah0 + length afs + 5 < 96" and "ah_pos ah0 + fields_room (response_fields key prot afs) + 67 \<le> mx" and "client_offers ah0 prot"
    and "client_bound en u k" and "client_open en k" and "\<not> up_mux_substream u" and "c_str (up_handshake_hash u) = Done (ws_accept key)"
  shows "\<exists>w' u1 u2 cce. lws_parse cx w (name_bytes ''HTTP/1.1 '' @ name_bytes ''101 Switching Protocols'' @ [13, 10] @
      concat (map field_line (response_fields key prot afs)) @ [13, 10] @ body) = Done (LPR_OK, w', body) \<and>
    client_set_status (u\<lparr>up_ah := http_ah w'\<rparr>) = Done (True, u1) \<and> lws_client_ws_upgrade en u1 = Done (0, cce, u2) \<and> client_established u2 \<and> up_protocol u2 = Some k"
proof -
  let ?fs = "response_fields key prot afs" and ?v = "name_bytes ''101 Switching Protocols''"
  have pp: "case prot of None \<Rightarrow> True | Some p \<Rightarrow> plain_value p" using assms(13) by (auto simp: client_offers_def split: option.splits)
  have ok: "list_all field_ok ?fs" by (rule response_fields_ok [OF afs(1) pp])
  have ds: "distinct (map field_token ?fs)" using afs(2,3) by (auto simp: response_fields_def image_iff split: option.split)
  have zf: "\<forall>f\<in>set ?fs. ah_frag_index ah0 ! field_token f = 0" using ok z by (auto simp: list_all_iff field_ok_def)
  have nf: "ah_nfrag ah0 + length ?fs + 1 < 96" using assms(11) by (auto simp: response_fields_def split: option.split)
  have v: "set ?v \<inter> {0, 10, 13} = {}" "?v \<noteq> [] \<longrightarrow> hd ?v \<noteq> 32" "length ?v = 23" by (simp_all add: name_bytes_def)
  have z15: "ah_frag_index ah0 ! 15 = 0" using z by simp
  obtain w' ah where r: "lws_parse cx w (name_bytes ''HTTP/1.1 '' @ ?v @ [13, 10] @ concat (map field_line ?fs) @ [13, 10] @ body) = Done (LPR_OK, w', body)"
      "http_ah w' = Some ah" "hdr_resting mx (ah_pos ah) ah" "hdr_holds ah 15 ?v" "\<forall>f\<in>set ?fs. hdr_holds ah (field_token f) (field_value f)"
      "\<forall>t v. hdr_holds ah0 t v \<longrightarrow> hdr_holds ah t v" "\<forall>t. t \<notin> {15} \<union> field_token ` set ?fs \<longrightarrow> ah_frag_index ah ! t = ah_frag_index ah0 ! t" "hdr_apart ah"
    using response_parsed [OF mx assms(2-5) v(1,2) ok ds z15 zf nf, of body] assms(6,12) v(3) by auto
  have h: "hdrs_ok mx ah" using r(3) by (auto simp: hdrs_ok_def)
  have conn: "list_text [([], name_bytes ''Upgrade'')] = name_bytes ''Upgrade''" by simp
  have tok: "list_all token_item [([], name_bytes ''Upgrade'')]" by (simp add: token_item_def list_token_def token_char_def name_bytes_def)
  have n9: "ah_frag_index ah ! 9 = 0" using r(7) z afs(3) by (cases prot) (auto simp: response_fields_def)
  have n12: "ah_frag_index ah ! 12 = 0" if "prot = None" using r(7) z afs(3) that by (auto simp: response_fields_def)
  have "field_token f \<noteq> 88" if "f \<in> set ?fs" for f using ok that by (auto simp: list_all_iff field_ok_def)
  then have n88: "ah_frag_index ah ! 88 = ah_frag_index ah0 ! 88" using r(7) by force
  let ?ah = "ah\<lparr>ah_http_response := 101\<rparr>" and ?acc = "map uint (ws_accept key)"
  have "client_answer mx ah (name_bytes ''WebSocket'') [([], name_bytes ''Upgrade'')] ?acc"
    unfolding client_answer_def conn using h r(5,8) tok ws_accept_length [of key] ws_accept_no_nul [of key]
    by (auto simp: response_fields_def name_bytes_def unsigned_eq_0_iff)
  then have a: "client_answer mx ?ah (name_bytes ''WebSocket'') [([], name_bytes ''Upgrade'')] ?acc" by (simp add: client_answer_def)
  have acc: "answer_accepted ?ah (name_bytes ''WebSocket'') [([], name_bytes ''Upgrade'')]"
    by (simp add: answer_accepted_def upgrade_prefix_def name_bytes_def ascii_lower_def)
  have "protocol_answered ah"
  proof (cases prot)
    case None
    then show ?thesis using assms(13) n12 n88 r(6) by (auto simp: client_offers_def protocol_answered_def)
  next
    case (Some p)
    then have "hdr_holds ah 12 p" using r(5) by (auto simp: response_fields_def)
    then show ?thesis using Some assms(13) r(6) by (auto simp: client_offers_def protocol_answered_def plain_value_def)
  qed
  then have pa: "protocol_answered ?ah" by simp
  let ?u = "u\<lparr>up_ah := Some ?ah\<rparr>"
  have st: "client_set_status (u\<lparr>up_ah := http_ah w'\<rparr>) = Done (True, ?u)" using client_set_status_101 [OF h r(4), of "u\<lparr>up_ah := http_ah w'\<rparr>"] r(2) assms(16) by simp
  have "bytes_of ?acc = ws_accept key" by (simp add: o_def)
  then obtain cce u2 where "lws_client_ws_upgrade en ?u = Done (0, cce, u2)" "client_established u2" "up_protocol u2 = Some k"
    using client_upgrade_cases [OF a, of ?u en k "ws_accept key"] assms(14-17) pa n9 acc by (auto simp: client_bound_def)
  then show ?thesis using r(1) st by blast
qed

section \<open>Both ends\<close>

text \<open>The list of protocols a client offers, with spaces behind the commas only, and that it contains each of its items.\<close>

definition spaced_list :: "(int list \<times> int list) list \<Rightarrow> bool" where
  "spaced_list ps \<longleftrightarrow> list_all token_item ps \<and> list_all (\<lambda>x. set (fst x) \<subseteq> {32}) ps \<and> (ps \<noteq> [] \<longrightarrow> fst (hd ps) = [])"

lemma token_plain: "list_token t \<Longrightarrow> plain_value t \<and> byte_list t \<and> 44 \<notin> set t"
  by (cases t) (auto simp: list_token_def plain_value_def byte_list_def list_all_iff token_char_def)

lemma list_text_rest: "list_text ((sp, t) # xs) = sp @ t @ (if xs = [] then [] else 44 # list_text xs)"
  by (cases xs) simp_all

lemma drop_blanks: "set sp \<subseteq> {32} \<Longrightarrow> list_token t \<Longrightarrow> dropWhile (\<lambda>x. x = 32) (sp @ t @ r) = t @ r"
proof (induction sp)
  case Nil
  then show ?case by (cases t) (auto simp: list_token_def token_char_def)
qed simp

lemma dropWhile_comma: "44 \<notin> set r \<Longrightarrow> dropWhile (\<lambda>x. x \<noteq> 44) (r @ 44 # z) = 44 # z"
  by (induction r) auto

lemma protocol_offered_item:
  "t \<in> set (t0 # map snd xs) \<Longrightarrow> list_token t0 \<Longrightarrow> list_all token_item xs \<Longrightarrow> list_all (\<lambda>x. set (fst x) \<subseteq> {32}) xs \<Longrightarrow>
   protocol_offered t (list_text (([], t0) # xs))"
proof (induction xs arbitrary: t0)
  case Nil
  then obtain c r where "t0 = c # r" by (cases t0) (auto simp: list_token_def)
  then show ?case using Nil by (simp add: protocol_offered.simps)
next
  case (Cons x xs)
  obtain sp t1 where x: "x = (sp, t1)" by (cases x)
  obtain c r where t0: "t0 = c # r" using Cons.prems(2) by (cases t0) (auto simp: list_token_def)
  let ?rest = "list_text (x # xs)"
  have tx: "list_text (([], t0) # x # xs) = c # (r @ 44 # ?rest)" by (simp add: t0)
  show ?case
  proof (cases "t = t0")
    case True
    then show ?thesis unfolding tx by (simp add: protocol_offered.simps t0)
  next
    case False
    have k: "list_token t1" "set sp \<subseteq> {32}" using Cons.prems(3,4) by (auto simp: x token_item_def)
    have no: "44 \<notin> set (c # r)" using token_plain [OF Cons.prems(2)] t0 by simp
    then have "dropWhile (\<lambda>x. x \<noteq> 44) (c # (r @ 44 # ?rest)) = 44 # ?rest"
      using dropWhile_comma [of "c # r" ?rest] by simp
    then have "drop 1 (dropWhile (\<lambda>x. x \<noteq> 44) (c # (r @ 44 # ?rest))) = ?rest" by simp
    moreover have "dropWhile (\<lambda>x. x = 32) ?rest = list_text (([], t1) # xs)"
      using drop_blanks [OF k(2,1)] unfolding x list_text_rest by simp
    moreover have "protocol_offered t (list_text (([], t1) # xs))" using Cons.IH [OF _ k(1)] Cons.prems False by (auto simp: x)
    ultimately show ?thesis unfolding tx protocol_offered.simps(2) by simp
  qed
qed

lemma protocol_offered_list:
  assumes "spaced_list ps" and "t \<in> set (map snd ps)"
  shows "protocol_offered t (list_text ps)"
proof (cases ps)
  case (Cons x xs)
  obtain t0 where "x = ([], t0)" using assms(1) Cons by (cases x) (auto simp: spaced_list_def)
  then show ?thesis using protocol_offered_item [of t t0 xs] assms Cons by (auto simp: spaced_list_def token_item_def)
qed (use assms in simp)

lemma first_known_named: "first_known en ts = Some k \<Longrightarrow> \<exists>t\<in>set ts. pr_name (ue_protocols en ! k) = Some (bytes_of t)"
  by (induction ts) (auto simp: lws_vhost_name_to_protocol_def find_Some_iff split: option.splits)

lemma server_names_offered:
  assumes "server_takes en ps k" and "spaced_list ps" and "if ps = [] then ah_frag_index ah ! 88 = 0 else hdr_holds ah 88 (list_text ps)"
  shows "client_offers ah (map_option (map uint) (server_names en ps k))"
proof (cases "ps = []")
  case True
  then show ?thesis using assms(3) by (simp add: client_offers_def server_names_def)
next
  case False
  obtain t where t: "t \<in> set (map snd ps)" "pr_name (ue_protocols en ! k) = Some (bytes_of t)"
    using first_known_named [of en "map snd ps" k] assms(1) False by (auto simp: server_takes_def)
  have k: "plain_value t" "byte_list t" using t(1) assms(2) token_plain by (auto simp: spaced_list_def list_all_iff token_item_def)
  then have "server_names en ps k = Some (bytes_of t)" using t(2) False by (auto simp: server_names_def plain_value_def)
  moreover have "0 \<notin> set (list_text ps)" using list_text_no_nul assms(2) by (auto simp: spaced_list_def)
  ultimately show ?thesis using k assms(3) False protocol_offered_list [OF assms(2) t(1)] by (auto simp: client_offers_def)
qed

text \<open>A client that is about to write its request: its header table holds its own settings and no header of a response yet,
  and the protocols it offers are in \<open>_WSI_TOKEN_CLIENT_SENT_PROTOCOLS\<close>.\<close>

definition client_ready_to_open :: "http_env \<Rightarrow> http_wsi \<Rightarrow> 'e upgrade_env \<Rightarrow> 'e upgrade \<Rightarrow> nat \<Rightarrow> (int list \<times> int list) list \<Rightarrow> allocated_headers \<Rightarrow> bool" where
  "client_ready_to_open cx w en u k ps ah \<longleftrightarrow> http_env_ok cx \<and> token_limits cx = None \<and> http_ah w = Some ah \<and> up_ah u = Some ah \<and>
     line_start (max_http_header_data cx) ah \<and> hdr_apart ah \<and> (\<forall>t<88. ah_frag_index ah ! t = 0) \<and>
     (if ps = [] then ah_frag_index ah ! 88 = 0 else hdr_holds ah 88 (list_text ps)) \<and> spaced_list ps \<and>
     list_all (\<lambda>x. length (snd x) < 63) ps \<and> length (list_text ps) < 127 \<and>
     client_bound en u k \<and> client_open en k \<and> \<not> up_mux_substream u \<and> ue_extensions en = [] \<and>
     length (get_random (ue_env en 0) (events (up_wsi u)) 16) = 16 \<and> length (up_handshake_hash u) = 30"

abbreviation client_key :: "'e upgrade_env \<Rightarrow> 'e upgrade \<Rightarrow> bytes" where
  "client_key en u \<equiv> rfc4648 encode_orig (get_random (ue_env en 0) (events (up_wsi u)) 16)"

definition sent_protocols :: "(int list \<times> int list) list \<Rightarrow> int list option" where
  "sent_protocols ps = (if ps = [] then None else Some (list_text ps))"

lemma list_text_byte: "list_all token_item ps \<Longrightarrow> byte_list (list_text ps)"
proof (induction ps rule: list_text.induct)
  case (3 sp t x xs)
  then show ?case using token_plain [of t] by (fastforce simp: token_item_def byte_list_def list_all_iff)
qed (use token_plain in \<open>fastforce simp: token_item_def byte_list_def list_all_iff\<close>)+

lemma list_text_plain:
  assumes "spaced_list ps" and "ps \<noteq> []"
  shows "plain_value (list_text ps)"
proof -
  have ok: "list_all token_item ps" using assms(1) by (simp add: spaced_list_def)
  obtain t xs where ps: "ps = ([], t) # xs" "list_token t" using assms by (cases ps) (auto simp: spaced_list_def token_item_def)
  have "set (list_text ps) \<inter> {0, 10, 13} = {}"
    using ok by (induction ps rule: list_text.induct) (use token_plain in \<open>fastforce simp: token_item_def plain_value_def\<close>)+
  moreover have "list_text ps \<noteq> []" "hd (list_text ps) = hd t" using ps by (cases t; auto simp: list_text_rest list_token_def)+
  ultimately show ?thesis using token_plain [OF ps(2)] by (simp add: plain_value_def)
qed

lemma client_writes_request:
  assumes "client_ready_to_open cx w en u k ps ah"
  shows "\<exists>out u'. lws_generate_client_ws_handshake en u [] = Done (Some out, u') \<and>
    map uint out = concat (map field_line (client_ws_fields (client_key en u) (sent_protocols ps) (ietf_spec_revision (up_wsi u)))) \<and>
    c_str (up_handshake_hash u') = Done (ws_accept (client_key en u)) \<and>
    up_protocol u' = up_protocol u \<and> up_wsi u' = up_wsi u \<and> up_mux_substream u' = up_mux_substream u"
proof -
  note C = assms [unfolded client_ready_to_open_def]
  have "hdr_resting (max_http_header_data cx) (ah_pos ah) ah" using C by (auto simp: line_start_def hdr_inv_def)
  then have h: "hdrs_ok (max_http_header_data cx) ah" by (auto simp: hdrs_ok_def)
  have sp: "hdr_str (up_ah u) 88 = Done (sent_protocols ps)"
  proof (cases "ps = []")
    case True
    then show ?thesis using hdr_str_absent [OF h] C by (simp add: sent_protocols_def)
  next
    case False
    then show ?thesis using hdr_str_holds [OF h, of 88 "list_text ps"] list_text_plain [of ps] C by (auto simp: sent_protocols_def plain_value_def)
  qed
  have "client_offer_loop en [0..<length (ue_extensions en)] 0 [] u = Done ([], u)" using C by simp
  then obtain r where g: "lws_generate_client_ws_handshake en u [] =
      Done (Some (client_ws_lines [] (client_key en u) (sent_protocols ps) [] (ietf_spec_revision (up_wsi u))), u\<lparr>up_handshake_hash := ws_accept (client_key en u) @ 0 # r\<rparr>)"
    using client_request_ok [of en u "sent_protocols ps" "[]" u "client_key en u" "[]"] sp C by auto
  have "case sent_protocols ps of None \<Rightarrow> True | Some p \<Rightarrow> byte_list p" using list_text_byte [of ps] C by (simp add: sent_protocols_def spaced_list_def)
  then show ?thesis using g client_ws_lines_fields ws_accept_no_nul by auto
qed

text \<open>Its request: the request line and the header lines \<open>hfs\<close> that \<open>lws_generate_client_handshake\<close> writes before.\<close>

lemma client_request_is_ws_request:
  assumes "client_ready_to_open cx w en u k ps ah" and "list_all field_ok hfs" and "distinct (map field_token hfs)"
    and "field_token ` set hfs \<inter> {4, 5, 9, 12, 32, 33} = {}" and "3 \<in> field_token ` set hfs" and "length hfs + 7 < WSI_TOKEN_COUNT"
  shows "ws_request (hfs @ client_ws_fields (client_key en u) (sent_protocols ps) spec) (map uint (client_key en u)) [([], name_bytes ''Upgrade'')] ps"
proof -
  note C = assms(1) [unfolded client_ready_to_open_def]
  let ?fs = "client_ws_fields (client_key en u) (sent_protocols ps) spec"
  have rnd: "get_random (ue_env en 0) (events (up_wsi u)) 16 \<noteq> []" using C by auto
  have ok: "list_all field_ok ?fs"
    by (rule client_ws_fields_ok [OF rfc4648_plain [OF rnd]]) (use list_text_plain C in \<open>simp add: sent_protocols_def\<close>)
  have fo: "field_of (hfs @ gs) t = (case field_of hfs t of None \<Rightarrow> field_of gs t | Some v \<Rightarrow> Some v)" for gs t
    by (simp add: field_of_def map_add_def split: option.split)
  have kl: "length (client_key en u) = 24" using C by (simp add: rfc4648_length)
  have g: "field_of ?fs 3 = None" "field_of ?fs 9 = None" "field_of ?fs 4 = Some (name_bytes ''Upgrade'')" "field_of ?fs 32 = Some (map uint (client_key en u))"
      "field_of ?fs 12 = sent_protocols ps"
    by (auto simp: client_ws_fields_def field_of_def split: option.splits)
  have hn: "field_of hfs t = None" if "t \<in> {4, 9, 12, 32}" for t using assms(4) that by (auto simp: field_of_None)
  have tk: "field_token ` set ?fs \<subseteq> {4, 5, 12, 32, 33}" "3 \<notin> field_token ` set ?fs" by (auto simp: client_ws_fields_def split: option.splits if_splits)
  have F: "field_of (hfs @ ?fs) 3 \<noteq> None" "field_of (hfs @ ?fs) 9 = None" "field_of (hfs @ ?fs) 4 = Some (name_bytes ''Upgrade'')"
      "field_of (hfs @ ?fs) 32 = Some (map uint (client_key en u))" "field_of (hfs @ ?fs) 12 = sent_protocols ps"
    using g hn [of 9] hn [of 4] hn [of 32] hn [of 12] field_of_None [of hfs 3] assms(5) by (auto simp: fo)
  have "length (hfs @ ?fs) \<le> length hfs + 5" by (auto simp: client_ws_fields_def split: option.splits)
  moreover have "distinct (map field_token (hfs @ ?fs))"
    using assms(3,4) tk by (auto simp: client_ws_fields_def split: option.splits)
  ultimately show ?thesis
    unfolding ws_request_def using assms(2,6) ok F kl C
    by (auto simp: token_item_def list_token_def token_char_def name_bytes_def upgrade_prefix_def ascii_lower_def sent_protocols_def spaced_list_def)
qed

text \<open>C2. A client and a server of this library open a connection, the client having no extensions configured.  The client
  writes the ws headers of its request and keeps
  a hash; the request, with a request line and the other headers, is parsed and answered by the server, which is
  established; the bytes the server sends are parsed by the client, which finds status 101 and accepts the answer, so
  that it is established too, and what the server sends behind the answer is left for the frame parser.  The random key is any
  16 bytes.  The protocols the client offers are tokens of fewer than 63 bytes, none of them a number, in a list of fewer than 127 bytes, or none at
  all, and the server has one of them; the path has no percent escapes, no arguments, none of \<open>& + ; = ?\<close> and no two slashes in
  a row and no segment that begins with a dot; the further headers of the request (\<open>Host\<close> among them) and of the response are names of the table, each at most once and none of the
  handshake's own, with non-empty values; the messages fit the header tables and buffers of both ends, neither user refuses, and
  there is memory and a working socket.\<close>

theorem opening_handshake:
  fixes cen sen :: "'e upgrade_env"
  assumes client: "client_ready_to_open ccx cw cen cu ck ps ah"
    and "list_all field_ok hfs" and "distinct (map field_token hfs)" and "field_token ` set hfs \<inter> {4, 5, 9, 12, 32, 33} = {}"
    and "3 \<in> field_token ` set hfs" and "length hfs + 7 < WSI_TOKEN_COUNT"
    and "http_env_ok scx" and "token_limits scx = None" and "length d = max_http_header_data scx" and "http_ah sw = Some (lws_header_table_reset (lws_create_ah d))"
    and "plain_path False path" and "path \<noteq> []"
    and "length path + fields_room (hfs @ client_ws_fields (client_key cen cu) (sent_protocols ps) (ietf_spec_revision (up_wsi cu))) + 48 \<le> max_http_header_data scx"
    and "server_takes sen ps sk" and "server_ready sen su sk (server_names sen ps sk) add"
    and add: "map uint add = concat (map field_line afs)" "list_all field_ok afs" "distinct (map field_token afs)" "field_token ` set afs \<inter> {4, 5, 9, 12, 13} = {}"
    and "ah_nfrag ah + length afs + 5 < WSI_TOKEN_COUNT"
    and "ah_pos ah + fields_room (response_fields (client_key cen cu) (map_option (map uint) (server_names sen ps sk)) afs) + 67 \<le> max_http_header_data ccx"
  shows "\<exists>request cu1 sw' su' response cw' cu2 cu3 cce.
    lws_generate_client_ws_handshake cen cu [] = Done (Some request, cu1) \<and>
    lws_parse scx sw (name_bytes ''GET '' @ path @ name_bytes '' HTTP/1.1'' @ [13, 10] @ concat (map field_line hfs) @ map uint request @ [13, 10]) = Done (LPR_OK, sw', []) \<and>
    lws_process_ws_upgrade sen (su\<lparr>up_ah := http_ah sw'\<rparr>) = Some (Done (0, su')) \<and> wsi_state (up_wsi su') = LRS_ESTABLISHED \<and>
    EvCallback LWS_CALLBACK_ESTABLISHED [] \<in> set (events (up_wsi su')) \<and> out_stream (up_wsi su') = out_stream (up_wsi su) @ response \<and>
    lws_parse ccx cw (map uint response @ frames) = Done (LPR_OK, cw', frames) \<and>
    client_set_status (cu1\<lparr>up_ah := http_ah cw'\<rparr>) = Done (True, cu2) \<and> lws_client_ws_upgrade cen cu2 = Done (0, cce, cu3) \<and> client_established cu3"
proof -
  note C = client [unfolded client_ready_to_open_def]
  let ?key = "client_key cen cu" and ?spec = "ietf_spec_revision (up_wsi cu)" and ?prot = "server_names sen ps sk"
  let ?fs = "hfs @ client_ws_fields ?key (sent_protocols ps) ?spec" and ?resp = "ws_response ?key ?prot add"
  obtain out cu1 where g: "lws_generate_client_ws_handshake cen cu [] = Done (Some out, cu1)"
      "map uint out = concat (map field_line (client_ws_fields ?key (sent_protocols ps) ?spec))" "c_str (up_handshake_hash cu1) = Done (ws_accept ?key)"
      "up_protocol cu1 = up_protocol cu" "up_wsi cu1 = up_wsi cu" "up_mux_substream cu1 = up_mux_substream cu"
    using client_writes_request [OF client] by blast
  have req: "ws_request ?fs (map uint ?key) [([], name_bytes ''Upgrade'')] ps" by (rule client_request_is_ws_request [OF client assms(2-6)])
  have m: "map parse_to_lower (name_bytes ''GET '') = name_bytes ''get ''" by code_simp
  have v: "set (name_bytes ''HTTP/1.1'') \<inter> {0, 10, 13} = {}" "name_bytes ''HTTP/1.1'' \<noteq> [] \<longrightarrow> hd (name_bytes ''HTTP/1.1'') \<noteq> 32"
      "length (name_bytes ''GET '') + length path + length (name_bytes ''HTTP/1.1'') + fields_room ?fs + 36 \<le> max_http_header_data scx"
    using assms(13) by (simp_all add: name_bytes_def)
  obtain sw' su' where s: "lws_parse scx sw (name_bytes ''GET '' @ path @ [32] @ name_bytes ''HTTP/1.1'' @ [13, 10] @ concat (map field_line ?fs) @ [13, 10] @ []) =
        Done (LPR_OK, sw', [])" "lws_process_ws_upgrade sen (su\<lparr>up_ah := http_ah sw'\<rparr>) = Some (Done (0, su'))" "wsi_state (up_wsi su') = LRS_ESTABLISHED"
      "EvCallback LWS_CALLBACK_ESTABLISHED [] \<in> set (events (up_wsi su'))" "out_stream (up_wsi su') = out_stream (up_wsi su) @ ws_response (bytes_of (map uint ?key)) ?prot add"
    using server_opens [OF assms(7-10) m assms(11,12) v(1,2) req v(3) assms(14,15), of "[]"] by blast
  have k: "bytes_of (map uint ?key) = ?key" by (simp add: o_def)
  have off: "client_offers ah (map_option (map uint) ?prot)" by (rule server_names_offered [OF assms(14)]) (use C in auto)
  have b: "client_bound cen cu1 ck" "\<not> up_mux_substream cu1" using C g(4-6) by (auto simp: client_bound_def)
  have x: "http_env_ok ccx" "token_limits ccx = None" "http_ah cw = Some ah" "line_start (max_http_header_data ccx) ah" "hdr_apart ah"
      "\<forall>t<88. ah_frag_index ah ! t = 0" "client_open cen ck" using C by auto
  obtain cw' cu2 cu3 cce where c: "lws_parse ccx cw (name_bytes ''HTTP/1.1 '' @ name_bytes ''101 Switching Protocols'' @ [13, 10] @
        concat (map field_line (response_fields ?key (map_option (map uint) ?prot) afs)) @ [13, 10] @ frames) = Done (LPR_OK, cw', frames)"
      "client_set_status (cu1\<lparr>up_ah := http_ah cw'\<rparr>) = Done (True, cu2)" "lws_client_ws_upgrade cen cu2 = Done (0, cce, cu3)" "client_established cu3"
    using client_opens_connection [OF refl x(1-6) add(2-4) assms(20,21) off b(1) x(7) b(2) g(3), of frames] by blast
  have rq: "name_bytes ''GET '' @ path @ [32] @ name_bytes ''HTTP/1.1'' @ [13, 10] @ concat (map field_line ?fs) @ [13, 10] @ [] =
      name_bytes ''GET '' @ path @ name_bytes '' HTTP/1.1'' @ [13, 10] @ concat (map field_line hfs) @ map uint out @ [13, 10]"
    using g(2) by (simp add: name_bytes_def)
  have rp: "name_bytes ''HTTP/1.1 '' @ name_bytes ''101 Switching Protocols'' @ [13, 10] @
      concat (map field_line (response_fields ?key (map_option (map uint) ?prot) afs)) @ [13, 10] @ frames = map uint ?resp @ frames"
    unfolding ws_response_fields [OF add(1)] by simp
  show ?thesis
    using g(1) s [unfolded rq k] c [unfolded rp] by blast
qed

section \<open>A concrete vhost\<close>

text \<open>One protocol, no extensions and no mounts, a user who agrees to everything.\<close>

definition quiet_vhost :: "unit upgrade_env" where
  "quiet_vhost = \<lparr>ue_protocols = [\<lparr>pr_name = Some (bytes_of_string ''chat''), pr_per_session_data_size = 8\<rparr>], ue_default_protocol_index = 0,
     ue_extensions = [], ue_mounts = [], ue_env = (\<lambda>k. quiet_env True 64), ue_user = (\<lambda>cs c. 0), ue_add_headers = (\<lambda>cs n. []),
     ue_ext = (\<lambda>cs c e. (0, e)), ue_ext_options = (\<lambda>k. []), ue_ext_defaults = (\<lambda>cs k. []), ue_basic_auth = (\<lambda>k ah. None),
     ue_refused = (\<lambda>r u. (1, u)), ue_h2_ws_handshake = (\<lambda>u. (0, u)), ue_alloc_ws = True, ue_rx_mem = (\<lambda>k. Some (replicate 84 0))\<rparr>"

definition quiet_conn :: "bool \<Rightarrow> allocated_headers option \<Rightarrow> bytes \<Rightarrow> unit upgrade" where
  "quiet_conn client ah hash = \<lparr>up_wsi = wsi_zalloc client, up_ah = ah, up_serv_buf = replicate 4096 0, up_protocol = Some 0,
     up_bind_balance = True, up_user_space = False, up_user_space_external = False, up_same_vh = None, up_active = [], up_handshake_hash = hash,
     up_calls = []\<rparr>"

lemmas quiet_simps = quiet_vhost_def quiet_conn_def quiet_env_def wsi_zalloc_def

lemma quiet_server_ready:
  assumes "case prot of None \<Rightarrow> True | Some n \<Rightarrow> length n < 128"
  shows "server_ready quiet_vhost (quiet_conn False ah hash) 0 prot []"
  using assms
  by (auto simp: server_ready_def upgrade_ready_def upgrade_open_def wire_ready_def socket_ok_def healthy_def quiet_simps
      ws_response_def response_head_def ws_accept_length bytes_of_string_def split: option.split)

lemma quiet_client:
  "client_bound quiet_vhost (quiet_conn True ah hash) 0" "client_open quiet_vhost 0" "\<not> up_mux_substream (quiet_conn c ah hash)"
  by (auto simp: client_bound_def client_open_def quiet_simps)

abbreviation host_field :: header_field where "host_field \<equiv> mk_field ''Host:'' 3 (name_bytes ''me'')"

lemma host_field_ok: "plain_value v \<Longrightarrow> field_ok (mk_field ''Host:'' 3 v)"
  by (simp add: field_ok_def mk_field_def plain_value_def methods_def lextable_set_def name_bytes_def parse_to_lower_def)


theorem opening_handshake_witness:
  "let ah = lws_header_table_reset (lws_create_ah (replicate 512 0)); u = quiet_conn True (Some ah) (replicate 30 0) in
   \<exists>request cu1 sw' su' response cw' cu2 cu3 cce.
    lws_generate_client_ws_handshake quiet_vhost u [] = Done (Some request, cu1) \<and>
    lws_parse (http_cx 512) (http_fresh 512) (name_bytes ''GET '' @ name_bytes ''/'' @ name_bytes '' HTTP/1.1'' @ [13, 10] @ concat (map field_line [host_field]) @
      map uint request @ [13, 10]) = Done (LPR_OK, sw', []) \<and>
    lws_process_ws_upgrade quiet_vhost ((quiet_conn False None [])\<lparr>up_ah := http_ah sw'\<rparr>) = Some (Done (0, su')) \<and> wsi_state (up_wsi su') = LRS_ESTABLISHED \<and>
    EvCallback LWS_CALLBACK_ESTABLISHED [] \<in> set (events (up_wsi su')) \<and>
    out_stream (up_wsi su') = out_stream (up_wsi (quiet_conn False None [])) @ response \<and>
    lws_parse (http_cx 512) (http_fresh 512) (map uint response @ [129, 0]) = Done (LPR_OK, cw', [129, 0]) \<and>
    client_set_status (cu1\<lparr>up_ah := http_ah cw'\<rparr>) = Done (True, cu2) \<and> lws_client_ws_upgrade quiet_vhost cu2 = Done (0, cce, cu3) \<and> client_established cu3"
  unfolding Let_def
proof (rule opening_handshake [of "http_cx 512" "http_fresh 512" _ _ 0 "[]" _ "[host_field]" "http_cx 512" "replicate 512 0" "http_fresh 512"
      _ _ 0 _ "[]" "[]"])
  let ?ah = "lws_header_table_reset (lws_create_ah (replicate 512 0))" and ?rnd = "replicate 16 (0x5a :: u8)"
  let ?u = "quiet_conn True (Some ?ah) (replicate 30 0)"
  have env: "http_env_ok (http_cx 512)" "length (replicate 512 (0 :: int)) = max_http_header_data (http_cx 512)" by (simp_all add: http_env_ok_def http_cx_def)
  note z = fresh_line_start [OF env]
  have rnd: "get_random (ue_env quiet_vhost 0) (events (up_wsi ?u)) 16 = ?rnd" by (simp add: quiet_simps)
  have spec: "ietf_spec_revision (up_wsi ?u) = 13" and dec: "decimal 13 = [49, 51]" by (simp add: quiet_simps) code_simp
  have nm: "server_names quiet_vhost [] 0 = None" by (simp add: server_names_def)
  have acc: "length (rfc4648 encode_orig x) = 4 * ((length x + 2) div 3)" for x by (rule rfc4648_length)
  show "client_ready_to_open (http_cx 512) (http_fresh 512) quiet_vhost ?u 0 [] ?ah"
    unfolding client_ready_to_open_def using env z quiet_client rnd
    by (simp add: http_cx_def http_fresh_def quiet_simps spaced_list_def hdr_apart_def)
  show "http_env_ok (http_cx 512)" by (rule env)
  show "list_all field_ok [host_field]" by (simp add: host_field_ok plain_value_def name_bytes_def)
  show "plain_path False (name_bytes ''/'')" by (simp add: name_bytes_def uri_special_def)
  show "length (name_bytes ''/'') + fields_room ([host_field] @ client_ws_fields (client_key quiet_vhost ?u) (sent_protocols []) (ietf_spec_revision (up_wsi ?u))) + 48
      \<le> max_http_header_data (http_cx 512)"
    unfolding rnd spec by (simp add: fields_room_def client_ws_fields_def sent_protocols_def mk_field_def acc dec http_cx_def name_bytes_def)
  show "server_takes quiet_vhost [] 0" by (simp add: server_takes_def quiet_vhost_def)
  show "server_ready quiet_vhost (quiet_conn False None []) 0 (server_names quiet_vhost [] 0) []" by (rule quiet_server_ready) (simp add: nm)
  show "ah_pos ?ah + fields_room (response_fields (client_key quiet_vhost ?u) (map_option (map uint) (server_names quiet_vhost [] 0)) []) + 67
      \<le> max_http_header_data (http_cx 512)"
    using z(2) by (simp add: fields_room_def response_fields_def nm mk_field_def ws_accept_length http_cx_def name_bytes_def)
  show "ah_nfrag ?ah + length [] + 5 < WSI_TOKEN_COUNT" using z(1) by simp
qed (simp_all add: http_cx_def http_fresh_def name_bytes_def)

text \<open>A parsed answer: three headers in 20 bytes.\<close>

definition answer_table :: allocated_headers where
  "answer_table = (lws_create_ah (name_bytes ''WebSocket'' @ [0] @ name_bytes ''Upgrade'' @ [0] @ name_bytes ''x'' @ [0]))\<lparr>
     ah_frags := [frag_zero, \<lparr>frag_offset = 0, frag_len = 9, frag_nfrag = 0, frag_flags = 0\<rparr>, \<lparr>frag_offset = 10, frag_len = 7, frag_nfrag = 0, frag_flags = 0\<rparr>,
       \<lparr>frag_offset = 18, frag_len = 1, frag_nfrag = 0, frag_flags = 0\<rparr>] @ replicate 92 frag_zero,
     ah_frag_index := (replicate 96 0)[5 := 1, 4 := 2, 13 := 3], ah_nfrag := 3, ah_pos := 20, ah_http_response := 101\<rparr>"

lemma to_3: "1 \<le> i \<Longrightarrow> i \<le> 3 \<Longrightarrow> i = 1 \<or> i = 2 \<or> i = (3 :: nat)" and below_4: "i \<le> 3 \<longleftrightarrow> i = 0 \<or> i = 1 \<or> i = 2 \<or> i = (3 :: nat)"
  by auto

lemma answer_table_ok: "hdrs_ok 20 answer_table"
  unfolding hdrs_ok_def
proof
  have "hdr_lay answer_table 3 20"
    unfolding hdr_lay_def
  proof (intro allI impI)
    fix i :: nat assume "1 \<le> i" "i \<le> 3"
    then consider "i = 1" | "i = 2" | "i = 3" using to_3 by blast
    then show "\<exists>j. hdr_seal answer_table i (if i < 3 then off answer_table (i + 1) else 20) j"
      by cases (rule exI [of _ 9] exI [of _ 17] exI [of _ 19], simp add: hdr_seal_def answer_table_def lws_create_ah_def name_bytes_def)+
  qed
  then show "hdr_resting 20 20 answer_table"
    by (auto simp: hdr_resting_def hdr_shape_def answer_table_def lws_create_ah_def name_bytes_def frag_zero_def below_4 nth_list_update)
qed

lemma answer_table_holds: "client_answer 20 answer_table (name_bytes ''WebSocket'') [([], name_bytes ''Upgrade'')] (name_bytes ''x'')"
  unfolding client_answer_def using answer_table_ok
  by (auto simp: hdr_apart_def hdr_holds_def hdr_val_def hdr_nul_def answer_table_def lws_create_ah_def name_bytes_def nth_list_update
      token_item_def list_token_def token_char_def split: if_splits)

theorem client_upgrade_result_witness:
  "\<exists>r cce u'. lws_client_ws_upgrade quiet_vhost (quiet_conn True (Some answer_table) [120, 0]) = Done (r, cce, u') \<and>
    (r = 0 \<longleftrightarrow> answer_accepted answer_table (name_bytes ''WebSocket'') [([], name_bytes ''Upgrade'')] \<and> bytes_of (name_bytes ''x'') = [120]) \<and>
    (r = 0 \<longrightarrow> client_established u' \<and> up_protocol u' = Some 0)"
proof (rule client_upgrade_result [OF answer_table_holds])
  show "protocol_answered answer_table" "ah_frag_index answer_table ! 9 = 0" by (simp_all add: protocol_answered_def answer_table_def)
qed (simp_all add: quiet_client, simp_all add: quiet_conn_def c_str_def)

end
