(* ===== verification/Ws_Ext_Client.thy ===== *)
theory Ws_Ext_Client
  imports Ws_Opening
begin

text \<open>
  Extensions at the client: what \<open>lws_ext_parse_options\<close> makes of a list of options, the option it loses, and what
  happens when the server confirms an extension twice.
\<close>

section \<open>Names\<close>

text \<open>At most 30 options, so that the parser's bitmap of them is defined, with names that can be told apart: none is the beginning
  of another.\<close>

definition opts_ok :: "lws_ext_options list \<Rightarrow> bool" where
  "opts_ok opts \<longleftrightarrow> length opts < 31 \<and> (\<forall>n < length opts. opt_name (opts ! n) \<noteq> [] \<and> 0 \<notin> set (opt_name (opts ! n)) \<and> hd (opt_name (opts ! n)) \<notin> {32, 44} \<and>
     (\<forall>m < length opts. take (length (opt_name (opts ! m))) (opt_name (opts ! n)) = opt_name (opts ! m) \<longrightarrow> m = n))"

text \<open>The options that agree with the name of option \<open>i\<close> in its first \<open>w\<close> characters.\<close>

definition eats :: "lws_ext_options list \<Rightarrow> nat \<Rightarrow> nat \<Rightarrow> u32 \<Rightarrow> bool" where
  "eats opts i w mm \<longleftrightarrow> bit mm i \<and> (\<forall>n. bit mm n \<longrightarrow> n < length opts \<and> take w (opt_name (opts ! n)) = take w (opt_name (opts ! i)))"

lemma eat_name_here:
  assumes "opts_ok opts" and "i < length opts" and "n < length opts" and "w < length (opt_name (opts ! i))"
    and "take w (opt_name (opts ! n)) = take w (opt_name (opts ! i))"
  shows "w < length (opt_name (opts ! n) @ [0])"
    and "opt_name (opts ! i) ! w = (opt_name (opts ! n) @ [0]) ! w \<Longrightarrow>
      w < length (opt_name (opts ! n)) \<and> take (Suc w) (opt_name (opts ! n)) = take (Suc w) (opt_name (opts ! i)) \<and>
      ((opt_name (opts ! n) @ [0]) ! Suc w = 0 \<longleftrightarrow> n = i \<and> Suc w = length (opt_name (opts ! i)))"
proof -
  let ?N = "opt_name (opts ! n)" and ?I = "opt_name (opts ! i)"
  have "length (take w ?N) = w" unfolding assms(5) using assms(4) by simp
  then have l: "w \<le> length ?N" by simp
  then show "w < length (?N @ [0])" by simp
  have z: "0 \<notin> set ?N" "0 \<notin> set ?I" using assms(1-3) by (auto simp: opts_ok_def)
  assume e: "?I ! w = (?N @ [0]) ! w"
  have "?I ! w \<noteq> 0" using z(2) assms(4) by (metis nth_mem)
  then have w: "w < length ?N" using e l by (cases "w = length ?N") auto
  have t: "take (Suc w) ?N = take (Suc w) ?I" using e w assms(4,5) by (simp add: take_Suc_conv_app_nth nth_append)
  have "n = i" if "Suc w = length ?N"
  proof -
    have "take (length ?N) ?I = ?N" using t that by simp
    then show ?thesis using assms(1-3) by (auto simp: opts_ok_def)
  qed
  moreover have "(?N @ [0]) ! Suc w = 0 \<longleftrightarrow> Suc w = length ?N"
  proof (cases "Suc w < length ?N")
    case True
    then have "?N ! Suc w \<noteq> 0" using z(1) by (metis nth_mem)
    then show ?thesis using True by (simp add: nth_append)
  qed (use w in \<open>auto simp: nth_append\<close>)
  ultimately show "w < length ?N \<and> take (Suc w) ?N = take (Suc w) ?I \<and> ((?N @ [0]) ! Suc w = 0 \<longleftrightarrow> n = i \<and> Suc w = length ?I)"
    using w t by auto
qed

text \<open>The options the loop has still to look at are those of the shifted map \<open>m\<close>; it takes the bits of those that do not go on
  like option \<open>i\<close> out of the map \<open>mm\<close>.\<close>

lemma bit_without: "n < 32 \<Longrightarrow> bit (mm AND NOT (push_bit n 1) :: u32) j \<longleftrightarrow> bit mm j \<and> j \<noteq> n"
  by (auto simp: bit_simps dest: bit_imp_le_length)

lemma bit_shifted_down: "bit (drop_bit (Suc 0) m :: u32) j \<longleftrightarrow> bit m (Suc j)"
  by (simp add: bit_drop_bit_eq)

lemma eat_name_loop_ok:
  assumes "opts_ok opts" and "i < length opts" and "w < length (opt_name (opts ! i))" and "bit mm i"
    and "\<forall>j. bit m j \<longrightarrow> n + j < length opts \<and> take w (opt_name (opts ! (n + j))) = take w (opt_name (opts ! i))"
  defines "goes \<equiv> \<lambda>j. take (Suc w) (opt_name (opts ! j)) = take (Suc w) (opt_name (opts ! i))"
  shows "(Suc w < length (opt_name (opts ! i)) \<longrightarrow> (\<exists>mm'. eat_name_loop opts (opt_name (opts ! i) ! w) w mm m n = Done (Some (mm', None)) \<and>
      (\<forall>j. bit mm' j \<longleftrightarrow> bit mm j \<and> (n \<le> j \<and> bit m (j - n) \<longrightarrow> goes j)))) \<and>
    (Suc w = length (opt_name (opts ! i)) \<longrightarrow> n \<le> i \<and> bit m (i - n) \<longrightarrow>
      (\<exists>mm'. eat_name_loop opts (opt_name (opts ! i) ! w) w mm m n = Done (Some (mm', Some i))))"
  using assms(4,5)
proof (induction m arbitrary: mm n rule: measure_induct_rule [of unat])
  case (less m)
  let ?I = "opt_name (opts ! i)" and ?N = "opt_name (opts ! n)" and ?m = "drop_bit (Suc 0) m"
  let ?loop = "eat_name_loop opts (?I ! w) w"
  have rest: "\<forall>j. bit ?m j \<longrightarrow> Suc n + j < length opts \<and> take w (opt_name (opts ! (Suc n + j))) = take w ?I"
    using less.prems(2) by (metis add_Suc_shift bit_shifted_down)
  have key: "n \<le> j \<and> bit m (j - n) \<longleftrightarrow> j = n \<and> bit m 0 \<or> Suc n \<le> j \<and> bit ?m (j - Suc n)" for j
    by (cases "j = n") (auto simp: bit_shifted_down Suc_diff_Suc)
  have IH: "m \<noteq> 0 \<Longrightarrow> bit mm2 i \<Longrightarrow> (Suc w < length ?I \<longrightarrow> (\<exists>mm'. ?loop mm2 ?m (Suc n) = Done (Some (mm', None)) \<and>
        (\<forall>j. bit mm' j \<longleftrightarrow> bit mm2 j \<and> (Suc n \<le> j \<and> bit ?m (j - Suc n) \<longrightarrow> goes j)))) \<and>
      (Suc w = length ?I \<longrightarrow> Suc n \<le> i \<and> bit ?m (i - Suc n) \<longrightarrow> (\<exists>mm'. ?loop mm2 ?m (Suc n) = Done (Some (mm', Some i))))" for mm2
    using less.IH [of ?m mm2 "Suc n"] rest shifted_down_less [of m] by simp
  consider "m = 0" | "m \<noteq> 0" "\<not> bit m 0" | "m \<noteq> 0" "bit m 0" by blast
  then show ?case
  proof cases
    case 1
    then show ?thesis by (simp add: eat_name_loop.simps)
  next
    case 2
    then have "?loop mm m n = ?loop mm ?m (Suc n)" by (simp add: eat_name_loop.simps [of _ _ _ _ m])
    then show ?thesis using IH [OF 2(1) less.prems(1)] 2(2) by (simp only: key simp_thms)
  next
    case 3
    then have n: "n < length opts" "take w ?N = take w ?I" using less.prems(2) by (metis add_0_right)+
    note H = eat_name_here [OF assms(1,2) n(1) assms(3) n(2)]
    show ?thesis
    proof (cases "?I ! w = (?N @ [0]) ! w")
      case True
      note T = H(2) [OF True]
      have g: "?loop mm m n = (if n = i \<and> Suc w = length ?I then Done (Some (mm, Some n)) else ?loop mm ?m (Suc n))"
        using True H(1) T 3 n(1) by (auto simp: eat_name_loop.simps [of _ _ _ _ m] Let_def)
      have "goes n" using T by (simp add: goes_def)
      then show ?thesis unfolding g key using IH [OF 3(1) less.prems(1)] by auto
    next
      case False
      let ?mm = "mm AND NOT (push_bit n 1)"
      have ni: "n \<noteq> i" using False assms(3) by (auto simp: nth_append)
      have t: "\<not> goes n"
      proof
        assume "goes n"
        then have t: "take (Suc w) ?N = take (Suc w) ?I" by (simp add: goes_def)
        have "length (take (Suc w) ?N) = Suc w" unfolding t using assms(3) by simp
        then have "w < length ?N" by simp
        then show False using False t assms(3) by (metis lessI nth_append nth_take)
      qed
      have b: "bit ?mm j \<longleftrightarrow> bit mm j \<and> j \<noteq> n" for j using bit_without [of n] n(1) assms(1) by (simp add: opts_ok_def)
      then have bi: "bit ?mm i" using less.prems(1) ni by simp
      then have "?mm \<noteq> 0" by auto
      then have g: "?loop mm m n = ?loop ?mm ?m (Suc n)"
        using False H(1) 3 n(1) by (simp add: eat_name_loop.simps [of _ _ _ _ m] Let_def)
      have e: "(bit mm j \<and> j \<noteq> n) \<and> (Suc n \<le> j \<and> bit ?m (j - Suc n) \<longrightarrow> goes j) \<longleftrightarrow>
          bit mm j \<and> (j = n \<and> bit m 0 \<or> Suc n \<le> j \<and> bit ?m (j - Suc n) \<longrightarrow> goes j)" for j using t 3(2) by (cases "j = n") simp_all
      show ?thesis unfolding g key using IH [OF 3(1) bi, unfolded b e] ni by blast
    qed
  qed
qed

section \<open>Options\<close>

lemma ext_slot_call_ok:
  assumes "count_act_ext (up_wsi u) < length (act_ext_user (up_wsi u))"
  shows "\<exists>r u'. ext_slot_call en u c = Done (r, u') \<and> up_calls u' = up_calls u @ [c] \<and> count_act_ext (up_wsi u') < length (act_ext_user (up_wsi u'))"
  using assms by (auto simp: ext_slot_call_def Let_def split: prod.split)

text \<open>A name, up to its last character: with something behind it the parser looks for a value, at the end it sets the option.\<close>

definition seeks_val :: "nat \<Rightarrow> ext_parse \<Rightarrow> bool" where
  "seeks_val i s \<longleftrightarrow> leap s = LEAPS_SEEK_VAL \<and> option_index s = i \<and> oa_start s = None \<and> oa_len s = 0 \<and> \<not> pending_close_quote s"

lemma eat_name_step:
  assumes "opts_ok opts" and "i < length opts" and "w < length (opt_name (opts ! i))" and "eats opts i w (match_map s)" and "matched s = w"
    and "leap s = LEAPS_EAT_NAME"
  shows "Suc w < length (opt_name (opts ! i)) \<Longrightarrow> \<exists>s'. leap_eat_name opts (opt_name (opts ! i) ! w) fin s = Done (None, Leap_next s') \<and>
      eats opts i (Suc w) (match_map s') \<and> matched s' = Suc w \<and> leap s' = LEAPS_EAT_NAME"
    and "Suc w = length (opt_name (opts ! i)) \<Longrightarrow> \<exists>s'. seeks_val i s' \<and> leap_eat_name opts (opt_name (opts ! i) ! w) fin s =
      Done (if fin then (Some (i, None), Leap_next s') else (None, Leap_next s'))"
proof -
  have E: "bit (match_map s) i" "\<forall>j. bit (match_map s) j \<longrightarrow> 0 + j < length opts \<and> take w (opt_name (opts ! (0 + j))) = take w (opt_name (opts ! i))"
    using assms(4) [unfolded eats_def] unfolding add_0 by blast+
  note L = eat_name_loop_ok [OF assms(1-3) E, unfolded diff_zero]
  show "\<exists>s'. leap_eat_name opts (opt_name (opts ! i) ! w) fin s = Done (None, Leap_next s') \<and>
      eats opts i (Suc w) (match_map s') \<and> matched s' = Suc w \<and> leap s' = LEAPS_EAT_NAME" if "Suc w < length (opt_name (opts ! i))"
  proof -
    note t = that
    obtain mm where mm: "eat_name_loop opts (opt_name (opts ! i) ! w) w (match_map s) (match_map s) 0 = Done (Some (mm, None))"
      "\<forall>j. bit mm j \<longleftrightarrow> bit (match_map s) j \<and> take (Suc w) (opt_name (opts ! j)) = take (Suc w) (opt_name (opts ! i))"
      using L [THEN conjunct1, THEN mp, OF t] by auto
    then have "leap_eat_name opts (opt_name (opts ! i) ! w) fin s =
        Done (None, Leap_next (s\<lparr>oa_start := None, oa_len := 0, pending_close_quote := False, match_map := mm, matched := Suc w\<rparr>))"
      using assms(5) mm(1) by (simp add: leap_eat_name_def Let_def del: bind_outcome_eq_Done)
    moreover have "eats opts i (Suc w) mm" unfolding eats_def using E mm(2) by simp
    ultimately show ?thesis using assms(6) by simp
  qed
  show "\<exists>s'. seeks_val i s' \<and> leap_eat_name opts (opt_name (opts ! i) ! w) fin s =
      Done (if fin then (Some (i, None), Leap_next s') else (None, Leap_next s'))" if "Suc w = length (opt_name (opts ! i))"
  proof -
    note t = that
    obtain mm' where "eat_name_loop opts (opt_name (opts ! i) ! w) w (match_map s) (match_map s) 0 = Done (Some (mm', Some i))"
      using L [THEN conjunct2, THEN mp, OF t] E(1) by blast
    then show ?thesis using assms(5)
      by (cases fin) (auto simp: leap_eat_name_def leap_set_arg_def Let_def seeks_val_def oa_value_def)
  qed
qed

lemma eat_name_run:
  assumes ok: "opts_ok (ue_ext_options en k)" and i: "i < length (ue_ext_options en k)"
    and slot: "count_act_ext (up_wsi u) < length (act_ext_user (up_wsi u))"
  shows "w < length (opt_name (ue_ext_options en k ! i)) \<Longrightarrow> eats (ue_ext_options en k) i w (match_map s) \<Longrightarrow> matched s = w \<Longrightarrow> leap s = LEAPS_EAT_NAME \<Longrightarrow>
    (tail \<noteq> [] \<longrightarrow> (\<exists>s'. seeks_val i s' \<and> ext_parse_loop en k s (drop w (opt_name (ue_ext_options en k ! i)) @ tail) u = ext_parse_loop en k s' tail u)) \<and>
    (tail = [] \<longrightarrow> (\<exists>u'. ext_parse_loop en k s (drop w (opt_name (ue_ext_options en k ! i)) @ tail) u = Done (0, u') \<and>
      up_calls u' = up_calls u @ [UcExtOptionSet k i None]))"
proof (induction "length (opt_name (ue_ext_options en k ! i)) - w" arbitrary: w s)
  case (Suc d)
  let ?opts = "ue_ext_options en k" and ?I = "opt_name (ue_ext_options en k ! i)"
  have dr: "drop w ?I @ tail = ?I ! w # (drop (Suc w) ?I @ tail)" using Suc.prems(1) by (simp add: Cons_nth_drop_Suc)
  note S = eat_name_step [OF ok i Suc.prems]
  show ?case
  proof (cases "Suc w < length ?I")
    case True
    then obtain s' where s': "leap_eat_name ?opts (?I ! w) (drop (Suc w) ?I @ tail = []) s = Done (None, Leap_next s')"
        "eats ?opts i (Suc w) (match_map s')" "matched s' = Suc w" "leap s' = LEAPS_EAT_NAME" using S(1) by blast
    have g: "ext_parse_loop en k s (drop w ?I @ tail) u = ext_parse_loop en k s' (drop (Suc w) ?I @ tail) u"
      unfolding dr using s'(1) Suc.prems(4) by (simp add: leap_char_def del: bind_outcome_eq_Done)
    have d: "d = length ?I - Suc w" using Suc.hyps(2) by simp
    show ?thesis unfolding g by (rule Suc.hyps(1) [OF d True s'(2-4)])
  next
    case False
    then have e: "Suc w = length ?I" "drop (Suc w) ?I = []" using Suc.prems(1) by auto
    obtain s' where s': "seeks_val i s'" "leap_eat_name ?opts (?I ! w) (tail = []) s = Done (if tail = [] then (Some (i, None), Leap_next s') else (None, Leap_next s'))"
      using S(2) [OF e(1)] by blast
    obtain r u' where c: "ext_slot_call en u (UcExtOptionSet k i None) = Done (r, u')" "up_calls u' = up_calls u @ [UcExtOptionSet k i None]"
      using ext_slot_call_ok [OF slot] by blast
    show ?thesis
      unfolding dr e(2) append_Nil using s' c Suc.prems(4) by (auto simp: leap_char_def simp del: bind_outcome_eq_Done)
  qed
qed simp

text \<open>A decimal value, up to its last digit.\<close>

definition digits :: "bytes \<Rightarrow> bool" where
  "digits d \<longleftrightarrow> list_all (\<lambda>c. 48 \<le> c \<and> c \<le> 57) d"

definition eats_dec :: "nat \<Rightarrow> bytes \<Rightarrow> nat \<Rightarrow> ext_parse \<Rightarrow> bool" where
  "eats_dec i st j s \<longleftrightarrow> leap s = LEAPS_EAT_DEC \<and> option_index s = i \<and> matched s = j \<and> \<not> pending_close_quote s \<and> (0 < j \<longrightarrow> oa_start s = Some st)"

lemma eat_dec_run:
  "digits d \<Longrightarrow> eats_dec i (pre @ d @ tail) (length pre) s \<Longrightarrow> tail \<noteq> [] \<Longrightarrow>
   \<exists>s'. eats_dec i (pre @ d @ tail) (length pre + length d) s' \<and> ext_parse_loop en k s (d @ tail) u = ext_parse_loop en k s' tail u"
proof (induction d arbitrary: pre s)
  case (Cons c d)
  let ?s = "s\<lparr>oa_start := (if matched s = 0 then Some (c # d @ tail) else oa_start s), matched := matched s + 1\<rparr>"
  have c: "48 \<le> c \<and> c \<le> 57" and dd: "digits d" using Cons.prems(1) by (auto simp: digits_def)
  have e: "ext_parse_loop en k s ((c # d) @ tail) u = ext_parse_loop en k ?s (d @ tail) u"
    using c Cons.prems(2,3) by (auto simp: leap_char_def leap_eat_dec_def eats_dec_def Let_def simp del: bind_outcome_eq_Done)
  have "eats_dec i ((pre @ [c]) @ d @ tail) (length (pre @ [c])) ?s" using Cons.prems(2) by (auto simp: eats_dec_def)
  then show ?case using Cons.IH [OF dd _ Cons.prems(3), of "pre @ [c]" ?s] unfolding e by auto
qed auto

text \<open>The last digit of the text, and the semicolon behind a value.\<close>

lemma eat_dec_last:
  assumes "48 \<le> c \<and> c \<le> 57" and "eats_dec i (pre @ [c]) (length pre) s" and slot: "count_act_ext (up_wsi u) < length (act_ext_user (up_wsi u))"
  shows "\<exists>u'. ext_parse_loop en k s [c] u = Done (0, u') \<and> up_calls u' = up_calls u @ [UcExtOptionSet k i (Some (pre @ [c]))]"
proof -
  let ?s = "s\<lparr>oa_start := (if matched s = 0 then Some [c] else oa_start s), matched := matched s + 1\<rparr>"
  have st: "oa_start ?s = Some (pre @ [c])" using assms(2) by (cases pre) (auto simp: eats_dec_def)
  have "leap_eat_dec [c] c True s = leap_set_arg c True (?s\<lparr>leap := LEAPS_SEEK_ARG_TERM, oa_len := length (pre @ [c])\<rparr>)"
    using assms(1,2) st unfolding leap_eat_dec_def Let_def by (auto simp: eats_dec_def)
  then have l: "leap_char (ue_ext_options en k) [c] c True s =
      Done (Some (i, Some (pre @ [c])), Leap_next (?s\<lparr>leap := LEAPS_SEEK_ARG_TERM, oa_len := length (pre @ [c])\<rparr>))"
    using assms(2) st by (simp add: leap_char_def leap_set_arg_def oa_value_def eats_dec_def)
  show ?thesis using ext_slot_call_ok [OF slot] l by fastforce
qed

lemma eat_dec_end:
  assumes "eats_dec i (d @ 59 # t) (length d) s" and "d \<noteq> []" and "t \<noteq> []" and slot: "count_act_ext (up_wsi u) < length (act_ext_user (up_wsi u))"
  shows "\<exists>s' u'. ext_parse_loop en k s (59 # t) u = ext_parse_loop en k s' t u' \<and> leap s' = LEAPS_SEEK_NAME \<and>
    up_calls u' = up_calls u @ [UcExtOptionSet k i (Some d)] \<and> count_act_ext (up_wsi u') < length (act_ext_user (up_wsi u'))"
proof -
  obtain r u' where c: "ext_slot_call en u (UcExtOptionSet k i (Some d)) = Done (r, u')" "up_calls u' = up_calls u @ [UcExtOptionSet k i (Some d)]"
      "count_act_ext (up_wsi u') < length (act_ext_user (up_wsi u'))" using ext_slot_call_ok [OF slot] by blast
  have "leap_char (ue_ext_options en k) (59 # t) 59 (t = []) s =
      Done (Some (i, Some d), Leap_next (s\<lparr>leap := LEAPS_SEEK_NAME, oa_len := length d\<rparr>))"
    using assms(1-3) by (simp add: leap_char_def leap_eat_dec_def leap_set_arg_def leap_arg_term_def oa_value_def eats_dec_def Let_def)
  then have "ext_parse_loop en k s (59 # t) u = ext_parse_loop en k (s\<lparr>leap := LEAPS_SEEK_NAME, oa_len := length d\<rparr>) t u'"
    using c(1) by (simp del: bind_outcome_eq_Done)
  then show ?thesis using c(2,3) by (intro exI [of _ "s\<lparr>leap := LEAPS_SEEK_NAME, oa_len := length d\<rparr>"] exI [of _ u']) simp
qed

section \<open>Lists of options\<close>

type_synonym ext_item = "nat \<times> bytes option"

definition item_text :: "lws_ext_options list \<Rightarrow> ext_item \<Rightarrow> bytes" where
  "item_text opts x = opt_name (opts ! fst x) @ (case snd x of None \<Rightarrow> [] | Some d \<Rightarrow> 61 # d)"

definition item_ok :: "lws_ext_options list \<Rightarrow> ext_item \<Rightarrow> bool" where
  "item_ok opts x \<longleftrightarrow> fst x < length opts \<and>
     (case snd x of None \<Rightarrow> opt_type (opts ! fst x) \<noteq> EXTARG_DEC | Some d \<Rightarrow> opt_type (opts ! fst x) \<noteq> EXTARG_NONE \<and> d \<noteq> [] \<and> digits d)"

lemma blanks_skipped: "leap s = LEAPS_SEEK_NAME \<Longrightarrow> ext_parse_loop en k s (replicate n 32 @ t) u = ext_parse_loop en k s t u"
  by (induction n) (simp_all add: leap_char_def)

lemma option_name_run:
  assumes ok: "opts_ok (ue_ext_options en k)" and i: "i < length (ue_ext_options en k)"
    and slot: "count_act_ext (up_wsi u) < length (act_ext_user (up_wsi u))" and s: "leap s = LEAPS_SEEK_NAME"
  shows "tail \<noteq> [] \<Longrightarrow> \<exists>s'. seeks_val i s' \<and> ext_parse_loop en k s (replicate n 32 @ opt_name (ue_ext_options en k ! i) @ tail) u = ext_parse_loop en k s' tail u"
    and "\<exists>u'. ext_parse_loop en k s (replicate n 32 @ opt_name (ue_ext_options en k ! i)) u = Done (0, u') \<and> up_calls u' = up_calls u @ [UcExtOptionSet k i None]"
proof -
  let ?opts = "ue_ext_options en k" and ?I = "opt_name (ue_ext_options en k ! i)" and ?s = "s\<lparr>match_map := push_bit (length (ue_ext_options en k)) 1 - 1, leap := LEAPS_EAT_NAME, matched := 0\<rparr>"
  have I: "?I \<noteq> []" "hd ?I \<notin> {32, 44}" using ok i by (auto simp: opts_ok_def)
  obtain c r where cr: "?I = c # r" using I(1) by (cases ?I) auto
  have st: "ext_parse_loop en k s (replicate n 32 @ ?I @ t) u = ext_parse_loop en k ?s (drop 0 ?I @ t) u" for t
    unfolding blanks_skipped [OF s] cr using I(2) s cr ok by (simp add: leap_char_def opts_ok_def)
  have e: "eats ?opts i 0 (match_map ?s)" using i ok by (auto simp: eats_def opts_ok_def bit_simps mask_eq_exp_minus_1 [symmetric])
  have w: "0 < length ?I" using I(1) by simp
  note R = eat_name_run [OF ok i slot w e]
  show "\<exists>s'. seeks_val i s' \<and> ext_parse_loop en k s (replicate n 32 @ ?I @ tail) u = ext_parse_loop en k s' tail u" if "tail \<noteq> []"
    unfolding st using R [of tail] that by simp
  show "\<exists>u'. ext_parse_loop en k s (replicate n 32 @ ?I) u = Done (0, u') \<and> up_calls u' = up_calls u @ [UcExtOptionSet k i None]"
    using R [of "[]"] st [of "[]"] by simp
qed

lemma seek_val_eq:
  assumes "seeks_val i s" and "opt_type (ue_ext_options en k ! i) \<noteq> EXTARG_NONE" and "t \<noteq> []"
  shows "\<exists>s'. eats_dec i st 0 s' \<and> ext_parse_loop en k s (61 # t) u = ext_parse_loop en k s' t u"
proof -
  let ?s = "s\<lparr>matched := 0, pending_close_quote := False, leap := LEAPS_EAT_DEC\<rparr>"
  have "ext_parse_loop en k s (61 # t) u = ext_parse_loop en k ?s t u"
    using assms by (simp add: leap_char_def leap_seek_val_def seeks_val_def Let_def)
  moreover have "eats_dec i st 0 ?s" using assms(1) by (simp add: eats_dec_def seeks_val_def)
  ultimately show ?thesis by blast
qed

lemma seek_val_end:
  assumes "seeks_val i s" and "opt_type (ue_ext_options en k ! i) \<noteq> EXTARG_DEC" and "t \<noteq> []"
    and slot: "count_act_ext (up_wsi u) < length (act_ext_user (up_wsi u))"
  shows "\<exists>s' u'. ext_parse_loop en k s (59 # t) u = ext_parse_loop en k s' t u' \<and> leap s' = LEAPS_SEEK_NAME \<and>
    up_calls u' = up_calls u @ [UcExtOptionSet k i None] \<and> count_act_ext (up_wsi u') < length (act_ext_user (up_wsi u'))"
proof -
  obtain r u' where c: "ext_slot_call en u (UcExtOptionSet k i None) = Done (r, u')" "up_calls u' = up_calls u @ [UcExtOptionSet k i None]"
      "count_act_ext (up_wsi u') < length (act_ext_user (up_wsi u'))" using ext_slot_call_ok [OF slot] by blast
  have "ext_parse_loop en k s (59 # t) u = ext_parse_loop en k (s\<lparr>leap := LEAPS_SEEK_NAME\<rparr>) t u'"
    using assms(1-3) c(1)
    by (simp add: leap_char_def leap_seek_val_def leap_set_arg_def leap_arg_term_def oa_value_def seeks_val_def Let_def del: bind_outcome_eq_Done)
  then show ?thesis using c(2,3) by (intro exI [of _ "s\<lparr>leap := LEAPS_SEEK_NAME\<rparr>"] exI [of _ u']) simp
qed

text \<open>One option with a semicolon behind it, and the last one.\<close>

lemma item_run:
  assumes ok: "opts_ok (ue_ext_options en k)" and x: "item_ok (ue_ext_options en k) x"
    and slot: "count_act_ext (up_wsi u) < length (act_ext_user (up_wsi u))" and s: "leap s = LEAPS_SEEK_NAME"
  shows "t \<noteq> [] \<Longrightarrow> \<exists>s' u'. ext_parse_loop en k s (replicate n 32 @ item_text (ue_ext_options en k) x @ 59 # t) u = ext_parse_loop en k s' t u' \<and> leap s' = LEAPS_SEEK_NAME \<and>
      up_calls u' = up_calls u @ [UcExtOptionSet k (fst x) (snd x)] \<and> count_act_ext (up_wsi u') < length (act_ext_user (up_wsi u'))"
    and "\<exists>u'. ext_parse_loop en k s (replicate n 32 @ item_text (ue_ext_options en k) x) u = Done (0, u') \<and> up_calls u' = up_calls u @ [UcExtOptionSet k (fst x) (snd x)]"
proof -
  let ?opts = "ue_ext_options en k"
  obtain i v where iv: "x = (i, v)" by (cases x)
  have i: "i < length ?opts" using x by (simp add: iv item_ok_def)
  note N = option_name_run [OF ok i slot s]
  show "\<exists>s' u'. ext_parse_loop en k s (replicate n 32 @ item_text ?opts x @ 59 # t) u = ext_parse_loop en k s' t u' \<and> leap s' = LEAPS_SEEK_NAME \<and>
      up_calls u' = up_calls u @ [UcExtOptionSet k (fst x) (snd x)] \<and> count_act_ext (up_wsi u') < length (act_ext_user (up_wsi u'))" if t: "t \<noteq> []"
  proof (cases v)
    case None
    obtain s1 where s1: "seeks_val i s1" "ext_parse_loop en k s (replicate n 32 @ item_text ?opts x @ 59 # t) u = ext_parse_loop en k s1 (59 # t) u"
      using N(1) [of "59 # t" n] by (auto simp: item_text_def iv None)
    have "opt_type (?opts ! i) \<noteq> EXTARG_DEC" using x by (simp add: item_ok_def iv None)
    then show ?thesis unfolding s1(2) using seek_val_end [OF s1(1) _ t slot] by (simp add: iv None)
  next
    case (Some d)
    have D: "opt_type (?opts ! i) \<noteq> EXTARG_NONE" "d \<noteq> []" "digits d" using x by (auto simp: item_ok_def iv Some)
    obtain s1 where s1: "seeks_val i s1" "ext_parse_loop en k s (replicate n 32 @ item_text ?opts x @ 59 # t) u = ext_parse_loop en k s1 (61 # d @ 59 # t) u"
      using N(1) [of "61 # d @ 59 # t" n] by (auto simp: item_text_def iv Some)
    obtain s2 where s2: "eats_dec i (d @ 59 # t) 0 s2" "ext_parse_loop en k s1 (61 # d @ 59 # t) u = ext_parse_loop en k s2 (d @ 59 # t) u"
      using seek_val_eq [where st = "d @ 59 # t", OF s1(1) D(1), of "d @ 59 # t" u] D(2) by auto
    obtain s3 where s3: "eats_dec i (d @ 59 # t) (length d) s3" "ext_parse_loop en k s2 (d @ 59 # t) u = ext_parse_loop en k s3 (59 # t) u"
      using eat_dec_run [OF D(3), of i "[]" "59 # t" s2 en k u] s2(1) by auto
    show ?thesis unfolding s1(2) s2(2) s3(2) using eat_dec_end [OF s3(1) D(2) t slot] by (simp add: iv Some)
  qed
  show "\<exists>u'. ext_parse_loop en k s (replicate n 32 @ item_text ?opts x) u = Done (0, u') \<and> up_calls u' = up_calls u @ [UcExtOptionSet k (fst x) (snd x)]"
  proof (cases v)
    case None
    then show ?thesis using N(2) [of n] by (simp add: item_text_def iv)
  next
    case (Some d)
    have D: "opt_type (?opts ! i) \<noteq> EXTARG_NONE" "d \<noteq> []" "digits d" using x by (auto simp: item_ok_def iv Some)
    obtain d0 c where d: "d = d0 @ [c]" using D(2) by (metis append_butlast_last_id)
    obtain s1 where s1: "seeks_val i s1" "ext_parse_loop en k s (replicate n 32 @ item_text ?opts x) u = ext_parse_loop en k s1 (61 # d) u"
      using N(1) [of "61 # d" n] by (auto simp: item_text_def iv Some)
    obtain s2 where s2: "eats_dec i d 0 s2" "ext_parse_loop en k s1 (61 # d) u = ext_parse_loop en k s2 d u"
      using seek_val_eq [where st = d, OF s1(1) D(1,2)] by blast
    have dd: "digits d0" "48 \<le> c \<and> c \<le> 57" using D(3) by (auto simp: digits_def d)
    obtain s3 where s3: "eats_dec i (d0 @ [c]) (length d0) s3" "ext_parse_loop en k s2 d u = ext_parse_loop en k s3 [c] u"
      using eat_dec_run [OF dd(1), of i "[]" "[c]" s2 en k u] s2(1) by (auto simp: d)
    show ?thesis unfolding s1(2) s2(2) s3(2) using eat_dec_last [OF dd(2) s3(1) slot] by (simp add: iv Some d)
  qed
qed

fun options_text :: "lws_ext_options list \<Rightarrow> (nat \<times> ext_item) list \<Rightarrow> bytes" where
  "options_text opts [] = []"
| "options_text opts [(n, x)] = replicate n 32 @ item_text opts x"
| "options_text opts ((n, x) # y # xs) = replicate n 32 @ item_text opts x @ 59 # options_text opts (y # xs)"

lemma options_text_nonempty: "xs \<noteq> [] \<Longrightarrow> list_all (item_ok opts) (map snd xs) \<Longrightarrow> opts_ok opts \<Longrightarrow> options_text opts xs \<noteq> []"
  by (induction opts xs rule: options_text.induct) (auto simp: item_text_def item_ok_def opts_ok_def)

abbreviation option_calls :: "nat \<Rightarrow> (nat \<times> ext_item) list \<Rightarrow> upgrade_call list" where
  "option_calls k xs \<equiv> map (\<lambda>(n, i, v). UcExtOptionSet k i v) xs"

lemma options_run:
  assumes ok: "opts_ok (ue_ext_options en k)"
  shows "xs \<noteq> [] \<Longrightarrow> list_all (item_ok (ue_ext_options en k)) (map snd xs) \<Longrightarrow> count_act_ext (up_wsi u) < length (act_ext_user (up_wsi u)) \<Longrightarrow> leap s = LEAPS_SEEK_NAME \<Longrightarrow>
    \<exists>u'. ext_parse_loop en k s (options_text (ue_ext_options en k) xs) u = Done (0, u') \<and> up_calls u' = up_calls u @ option_calls k xs"
proof (induction "ue_ext_options en k" xs arbitrary: s u rule: options_text.induct)
  case (2 n x)
  then show ?case using item_run(2) [OF ok, of x u s n] by (cases x) auto
next
  case (3 n x y xs)
  have ne: "options_text (ue_ext_options en k) (y # xs) \<noteq> []" using options_text_nonempty [of "y # xs"] 3(3) ok by auto
  have x: "item_ok (ue_ext_options en k) x" using 3(3) by simp
  obtain s' u1 where r: "ext_parse_loop en k s (options_text (ue_ext_options en k) ((n, x) # y # xs)) u = ext_parse_loop en k s' (options_text (ue_ext_options en k) (y # xs)) u1"
      "leap s' = LEAPS_SEEK_NAME" "up_calls u1 = up_calls u @ [UcExtOptionSet k (fst x) (snd x)]" "count_act_ext (up_wsi u1) < length (act_ext_user (up_wsi u1))"
    using item_run(1) [OF ok x 3(4,5) ne, of n] by auto
  show ?case unfolding r(1) using 3(1) [OF _ _ r(4,2)] 3(3) r(3) by (cases x) auto
qed simp

text \<open>C17. The options of an extension: for a table of at most 30 options (the parser keeps a bit for each in an unsigned int it makes
  with a shift of an int, undefined for more), none of whose names begins another, a text that lists options with semicolons between
  them, blanks before them, and a decimal value behind those that take one, is parsed to its end, and the extension's callback gets
  \<open>LWS_EXT_CB_OPTION_SET\<close> for each of them, in their order, with exactly the digits of its value.\<close>

theorem lws_ext_parse_options_sets_all:
  assumes "opts_ok (ue_ext_options en k)" and "xs \<noteq> []" and "list_all (item_ok (ue_ext_options en k)) (map snd xs)"
    and "count_act_ext (up_wsi u) < length (act_ext_user (up_wsi u))"
  shows "\<exists>u'. lws_ext_parse_options en k (options_text (ue_ext_options en k) xs) u = Done (0, u') \<and> up_calls u' = up_calls u @ option_calls k xs"
  unfolding lws_ext_parse_options_def by (rule options_run [OF assms]) (simp add: ext_parse_init_def)

text \<open>An option without a value right before a comma is passed over: the parser ends there without setting it.\<close>

lemma option_before_comma_lost:
  assumes "opts_ok (ue_ext_options en k)" and "i < length (ue_ext_options en k)" and "count_act_ext (up_wsi u) < length (act_ext_user (up_wsi u))"
  shows "lws_ext_parse_options en k (replicate n 32 @ opt_name (ue_ext_options en k ! i) @ 44 # r) u = Done (0, u)"
proof -
  have "leap ext_parse_init = LEAPS_SEEK_NAME" by (simp add: ext_parse_init_def)
  from option_name_run(1) [OF assms this, of "44 # r" n] obtain s' where s': "seeks_val i s'"
      "ext_parse_loop en k ext_parse_init (replicate n 32 @ opt_name (ue_ext_options en k ! i) @ 44 # r) u = ext_parse_loop en k s' (44 # r) u" by blast
  then show ?thesis unfolding lws_ext_parse_options_def s'(2) by (simp add: leap_char_def leap_seek_val_def seeks_val_def Let_def)
qed

section \<open>An extension confirmed twice\<close>

definition ext_char :: "u8 \<Rightarrow> bool" where
  "ext_char c \<longleftrightarrow> c \<notin> {0, 9, 32, 44, 59}"

lemma client_ext_name:
  "list_all ext_char nm \<Longrightarrow> length (name @ nm) \<le> 127 \<Longrightarrow>
   client_ext_loop en (pre @ nm @ rest) (length pre) name False None u = client_ext_loop en (pre @ nm @ rest) (length (pre @ nm)) (name @ nm) False None u"
proof (induction nm arbitrary: pre name)
  case (Cons c nm)
  have "client_ext_loop en (pre @ (c # nm) @ rest) (length pre) name False None u =
      client_ext_loop en ((pre @ [c]) @ nm @ rest) (length (pre @ [c])) (name @ [c]) False None u"
    by (subst client_ext_loop.simps) (use Cons.prems in \<open>simp add: ext_char_def\<close>)
  then show ?case using Cons.IH [of "name @ [c]" "pre @ [c]"] Cons.prems by simp
qed simp

text \<open>With every slot taken, the next extension is written behind the array.\<close>

lemma client_ext_try_full:
  assumes "k \<in> set ks" and "xt_name (ue_extensions en ! k) = nm" and "length (up_active u) \<le> count_act_ext (up_wsi u)"
  shows "client_ext_try en args nm ks known u = Fault"
  using assms(1)
proof (induction ks arbitrary: known)
  case (Cons j ks)
  then show ?case using assms(2,3) by (auto simp: ext_activate_def Let_def)
qed simp

text \<open>C33. A server that confirms an extension twice: where the client takes the extension's name as the whole of the server's list, and
  has every slot of \<open>active_extensions\<close> taken then, the list with the name in it twice makes it write behind the end of that array.\<close>

theorem client_repeated_extension_overruns:
  assumes "list_all ext_char nm" and "nm \<noteq> []" and "length nm \<le> 127" and "nm = xt_name (ue_extensions en ! k)" and "k < length (ue_extensions en)"
    and "client_ext_loop en (nm @ [0]) 0 [] False None u = Done (None, u1)" and "count_act_ext (up_wsi u1) = length (up_active u1)"
  shows "client_ext_loop en (nm @ [44] @ nm @ [0]) 0 [] False None u = Fault"
proof -
  note N = client_ext_name [OF assms(1), where name = "[]", simplified, OF assms(3)]
  have k: "k \<in> set [0..<length (ue_extensions en)]" using assms(5) by simp
  have "client_ext_loop en (nm @ [0]) (length nm) nm False None u = Done (None, u1)" using N [of en "[]" "[0]" u] assms(6) by simp
  then have t: "client_ext_try en None nm [0..<length (ue_extensions en)] False u = Done (Inr True, u1)"
    by (subst (asm) client_ext_loop.simps) (auto split: outcome.splits prod.splits sum.splits if_splits)
  have "client_ext_loop en (nm @ [44] @ nm @ [0]) 0 [] False None u = client_ext_loop en (nm @ [44] @ nm @ [0]) (length nm) nm False None u"
    using N [of en "[]" "[44] @ nm @ [0]" u] by simp
  also have "\<dots> = client_ext_loop en (nm @ [44] @ nm @ [0]) (length (nm @ [44])) [] False None u1"
    by (subst client_ext_loop.simps) (use t assms(2) in simp)
  also have "\<dots> = client_ext_loop en (nm @ [44] @ nm @ [0]) (length (nm @ [44] @ nm)) nm False None u1"
    using N [of en "nm @ [44]" "[0]" u1] by simp
  also have "\<dots> = Fault"
    by (subst client_ext_loop.simps) (use client_ext_try_full [OF k assms(4) [symmetric]] assms(7) in \<open>simp add: nth_append\<close>)
  finally show ?thesis .
qed

section \<open>The options of permessage-deflate\<close>

definition lws_ext_pm_deflate_options :: "lws_ext_options list" where
  "lws_ext_pm_deflate_options = map (\<lambda>(n, t). \<lparr>opt_name = bytes_of_string n, opt_type = t\<rparr>)
     [(''server_no_context_takeover'', EXTARG_NONE), (''client_no_context_takeover'', EXTARG_NONE),
      (''server_max_window_bits'', EXTARG_OPT_DEC), (''client_max_window_bits'', EXTARG_OPT_DEC),
      (''rx_buf_size'', EXTARG_DEC), (''tx_buf_size'', EXTARG_DEC), (''compression_level'', EXTARG_DEC), (''mem_level'', EXTARG_DEC)]"

lemma opts_ok_pm_deflate: "opts_ok lws_ext_pm_deflate_options"
  by code_simp

definition pmd_vhost :: "unit upgrade_env" where
  "pmd_vhost = quiet_vhost\<lparr>ue_extensions := [\<lparr>xt_name = bytes_of_string ''permessage-deflate'', xt_client_offer = []\<rparr>],
     ue_ext_options := (\<lambda>k. lws_ext_pm_deflate_options)\<rparr>"

definition pmd_conn :: "unit upgrade" where
  "pmd_conn = (let u = quiet_conn True None [] in u\<lparr>up_wsi := (up_wsi u)\<lparr>act_ext_user := [None]\<rparr>, up_active := [None]\<rparr>)"

lemma pmd_simps [simp]:
  "ue_ext_options pmd_vhost k = lws_ext_pm_deflate_options" "count_act_ext (up_wsi pmd_conn) = 0" "act_ext_user (up_wsi pmd_conn) = [None]"
  "up_calls pmd_conn = []"
  by (simp_all add: pmd_vhost_def pmd_conn_def quiet_simps Let_def)

theorem lws_ext_parse_options_sets_all_witness:
  "\<exists>u'. lws_ext_parse_options pmd_vhost 0 (bytes_of_string ''client_no_context_takeover; server_max_window_bits=15'') pmd_conn = Done (0, u') \<and>
     up_calls u' = [UcExtOptionSet 0 1 None, UcExtOptionSet 0 2 (Some (bytes_of_string ''15''))]"
proof -
  let ?xs = "[(0 :: nat, 1 :: nat, None), (1, 2, Some (bytes_of_string ''15''))]"
  have t: "options_text lws_ext_pm_deflate_options ?xs = bytes_of_string ''client_no_context_takeover; server_max_window_bits=15''" by code_simp
  have i: "list_all (item_ok lws_ext_pm_deflate_options) (map snd ?xs)" by code_simp
  show ?thesis using lws_ext_parse_options_sets_all [of pmd_vhost 0 ?xs pmd_conn] opts_ok_pm_deflate t i by simp
qed

theorem client_repeated_extension_overruns_witness:
  "client_ext_loop pmd_vhost (bytes_of_string ''permessage-deflate'' @ [44] @ bytes_of_string ''permessage-deflate'' @ [0]) 0 [] False None pmd_conn = Fault"
proof -
  let ?u = "pmd_conn\<lparr>up_wsi := (up_wsi pmd_conn)\<lparr>count_act_ext := 1\<rparr>, up_active := [Some 0], up_calls := [UcExtConstruct 0, UcExtDefaults, UcExtOptionConfirm 0]\<rparr>"
  have c: "list_all ext_char (bytes_of_string ''permessage-deflate'')" "bytes_of_string ''permessage-deflate'' \<noteq> []" "length (bytes_of_string ''permessage-deflate'') \<le> 127"
    by code_simp+
  have x: "xt_name (ue_extensions pmd_vhost ! 0) = bytes_of_string ''permessage-deflate''" "0 < length (ue_extensions pmd_vhost)" by (simp_all add: pmd_vhost_def)
  have "client_ext_try pmd_vhost None (bytes_of_string ''permessage-deflate'') [0..<length (ue_extensions pmd_vhost)] False pmd_conn = Done (Inr True, ?u)"
    using x by (simp add: ext_activate_def ext_slot_call_def upgrade_user_def rx_flow_control_apply_def ext_count_up_def pmd_vhost_def pmd_conn_def
        quiet_simps Let_def del: bind_outcome_eq_Done)
  then have r: "client_ext_loop pmd_vhost (bytes_of_string ''permessage-deflate'' @ [0]) 0 [] False None pmd_conn = Done (None, ?u)"
    using client_ext_name [OF c(1), of "[]" pmd_vhost "[]" "[0]" pmd_conn] c(3) by (simp add: client_ext_loop.simps [of _ _ "length _"])
  show ?thesis
    by (rule client_repeated_extension_overruns [OF c x(1) [symmetric] x(2) r]) (simp add: quiet_simps)
qed

end
