(* ===== verification/Spec2Isabelle.thy ===== *)
theory Spec2Isabelle
  imports Lws_Ring Lws_Sul Lws_Sha1 Lws_Base64 Ws_Limits Ws_Roundtrip Ws_Service Http_Request Lws_Tokenize Ws_Ext_Client
begin

text \<open>
  A verification library for libwebsockets as it is packaged in \<open>Sources/Clibwebsockets\<close> (paths below are
  relative to its \<open>src\<close> directory).  It models the websocket role of the library, the path of every byte
  between the user's callbacks and the socket, and the containers that path and the event loop rest on.

  \<^bold>\<open>Reading the models.\<close>  A C routine is a function of its arguments and of the state it can reach, with the
  name it has in the sources; the parts of a long routine are separate functions, in the order of the
  code.  \<open>outcome\<close> (\<open>Lws_Prelude\<close>) is the result of a routine that may run into undefined behaviour, a
  null dereference, an access outside a buffer or a failing \<open>assert\<close> (the value \<open>Fault\<close>).  Loops whose end is not
  evident are \<open>partial_function (option)\<close>, with \<open>None\<close> for a loop that never ends, so that a theorem that says
  \<open>Some (Done ...)\<close> says that the routine returns and that it does so without a fault.  The one use of fuel
  (\<open>linear_use_loop\<close>) starts with one unit more than there are segments and is shown never to run out.  Integers have
  the width they have in C where wrapping can matter (\<open>u8\<close>, \<open>u32\<close>, \<open>u64\<close>, \<open>c_uint\<close>); \<open>size_t\<close> values are
  naturals, since the objects they measure exist in memory, and where the code converts one to \<open>int\<close> the conversion is
  written out (\<open>c_int\<close>).  The receive path asserts on such a conversion, so its theorems take buffers of fewer than
  \<open>2 ^ 31\<close> bytes.

  \<^bold>\<open>Containers.\<close>
  \<^item> \<open>Lws_Buflist\<close>: \<open>core/buflist.c\<close>, the queue of byte segments for unread input and unsent output.  It
    implements the locale \<open>fifo\<close> of \<open>Lws_Prelude\<close>.
  \<^item> \<open>Lws_Ring\<close>: \<open>misc/lws-ring.c\<close>, the ring buffer with one writer and several readers, also a \<open>fifo\<close>.
  \<^item> \<open>Lws_Dll2\<close>: \<open>core/lws_dll2.c\<close>, doubly linked lists on an explicit pointer store, shown to implement
    lists for all lists of the store at once.
  \<^item> \<open>Lws_Sul\<close>: \<open>core-net/sorted-usec-list.c\<close>, the event loop's timers on those lists: scheduling implements
    an update of a map from events to due times, and servicing fires what is due in order.

  \<^bold>\<open>The websocket role.\<close>
  \<^item> \<open>Lws_Utf8\<close>: the incremental UTF-8 checker of \<open>core/libwebsockets.c\<close>, equivalent to the definition of UTF-8.
  \<^item> \<open>Ws_Types\<close>, \<open>Ws_Core\<close>: the state of a connection (\<open>struct lws\<close> with \<open>struct _lws_websocket_related\<close>, from
    \<open>roles/ws/private-lib-roles-ws.h\<close>), the services of the library around it (user callbacks, extension callbacks,
    rx flow control of \<open>core-net/wsi.c\<close>, the rx flow cache of \<open>core-net/service.c\<close>, close reasons).
  \<^item> \<open>Ws_Client_Rx\<close>: \<open>lws_ws_client_rx_sm\<close> of \<open>roles/ws/client-parser-ws.c\<close>, total and memory safe where no
    extension is active.
  \<^item> \<open>Ws_Server_Rx\<close>: \<open>lws_ws_rx_sm\<close> of \<open>roles/ws/ops-ws.c\<close>, \<open>lws_ws_frame_rest_is_payload\<close> and \<open>lws_parse_ws\<close> of
    \<open>roles/ws/server-ws.c\<close>, total and memory safe for every stream of bytes where no extension is active; the length
    left of a frame never wraps.
  \<^item> \<open>Ws_Frame_Rules\<close>: both ends admit exactly the sequences of frames RFC 6455 admits.
  \<^item> \<open>Ws_Wire\<close>, \<open>Ws_Delivery\<close>: the RFC 6455 encoding of frames, and that a server delivers what it encodes, however the
    stream is cut into the buffers of its reads (\<open>rx_due\<close> says what is still to come between two of them), with the UTF-8 check on
    or off.
  \<^item> \<open>Ws_Control\<close>: what the server makes of a received ping, pong and close.
  \<^item> \<open>Ws_Tx\<close>: \<open>lws_write\<close> and \<open>lws_issue_raw\<close> of \<open>core-net/output.c\<close>, \<open>lws_issue_raw_ext_access\<close> of
    \<open>roles/ws/ext/extension.c\<close> and \<open>rops_write_role_protocol_ws\<close> of \<open>roles/ws/ops-ws.c\<close>: a write emits one frame,
    and pending output keeps its order and drains.
  \<^item> \<open>Ws_Service\<close>: the writable event (\<open>lws_handle_POLLOUT_event\<close> of \<open>core-net/service.c\<close>, \<open>rops_handle_POLLOUT_ws\<close>),
    closing and keepalive of \<open>roles/ws/ops-ws.c\<close> and the driver of the client's parser in \<open>roles/ws/client-ws.c\<close>.  A
    ping is answered and a close handshake completed on the wire, with its timeouts; the client's receive path is total and
    safe without extensions; and what a control frame becomes while an extension drains.
  \<^item> \<open>Ws_Roundtrip\<close>: what a client writes, a server shows its user, whatever the socket takes and gives at a time.
  \<^item> \<open>Ws_Limits\<close>: where the code does not do what it means to.

  \<^bold>\<open>HTTP/1 headers.\<close>
  \<^item> \<open>Http_Lextable\<close>: the generated table of header names (\<open>roles/http/lextable.h\<close>, in the configuration that \<open>Package.swift\<close>
    builds) and the walk through it; it recognises exactly the strings of \<open>roles/http/lextable-strings.h\<close>.
  \<^item> \<open>Http_Headers\<close>: the header table \<open>struct allocated_headers\<close> and its accessors in \<open>roles/http/parsers.c\<close>.
  \<^item> \<open>Http_Parse\<close>: \<open>lws_parse_urldecode\<close> and \<open>lws_parse\<close> of \<open>roles/http/parsers.c\<close>, the latter cut at its labels: what C reaches
    by \<open>goto\<close> is a function here.
  \<^item> \<open>Http_Inv\<close>, \<open>Http_Safe\<close>: the layout of the header buffer (sealed fragments in order, the current one behind them, the
    chain of custom headers) is kept by every operation, so the parser is total and memory safe on every input.
  \<^item> \<open>Http_Uri\<close>: a stored path has no parent segment.
  \<^item> \<open>Http_Roundtrip\<close>, \<open>Http_Request\<close>: header lines and whole requests are stored so that the accessors return what was sent;
    and a header that switches the sanitising of the path off.

  \<^bold>\<open>The opening handshake.\<close>
  \<^item> \<open>Http_Mount\<close>: the mounts of a vhost and \<open>lws_find_mount\<close> of \<open>roles/http/server/server.c\<close>, which finds the longest one that
    covers a path, callback mounts apart.
  \<^item> \<open>Ws_Upgrade\<close>: the server's side in \<open>roles/ws/server-ws.c\<close> (\<open>lws_process_ws_upgrade\<close>, \<open>lws_process_ws_upgrade2\<close>,
    \<open>handshake_0405\<close>, \<open>lws_extension_server_handshake\<close>) with the protocol binding of \<open>core-net/wsi.c\<close>.  The record \<open>upgrade\<close> has what
    \<open>struct lws\<close> and the service thread hold beyond the connection of \<open>Ws_Types\<close>, the service buffer included, in which the
    response is composed; \<open>upgrade_env\<close> is the vhost with its callbacks.
  \<^item> \<open>Ws_Response\<close>: what the server makes of the headers of a request, and the exact bytes of its answer.
  \<^item> \<open>Ws_Ext_Options\<close>: \<open>lws_ext_parse_options\<close> of \<open>roles/ws/ext/extension.c\<close>, with its bitmap of the options.
  \<^item> \<open>Ws_Client_Upgrade\<close>: the client's side in \<open>roles/ws/client-ws.c\<close> (\<open>lws_generate_client_ws_handshake\<close>,
    \<open>lws_client_ws_upgrade\<close>), with the status of the response as \<open>roles/http/client/client-http.c\<close> reads it.
  \<^item> \<open>Ws_Client_Answer\<close>: the hash the client keeps, and what its checks leave alone.
  \<^item> \<open>Ws_Opening\<close>: both ends, over the bytes they send: the server answers every request of the right form with the response of
    RFC 6455, the client accepts exactly the answers to its key, and together they establish a connection.
  \<^item> \<open>Ws_Ext_Client\<close>: the client's extensions: every option of a list is handed to the extension, with the options of
    permessage-deflate as the instance; an option before a comma that is lost, and the server that confirms an extension twice.

  \<^bold>\<open>Encodings and strings.\<close>
  \<^item> \<open>Lws_Sha1\<close>: \<open>misc/sha-1.c\<close>, which computes the digest FIPS 180 defines, for every input.
  \<^item> \<open>Lws_Base64\<close>: \<open>misc/base64-decode.c\<close>: the encoder produces RFC 4648 and the decoder inverts it.
  \<^item> \<open>Lws_Tokenize\<close>: \<open>lws_tokenize\<close> of \<open>core/libwebsockets.c\<close>, which stays inside the text it was given and ends on every
    input, with the case where it was not given its length.
  \<^item> \<open>Lws_Cstr\<close>: C strings in memory, and the functions that read and write them.

  \<^bold>\<open>Parameters.\<close>  What is not in these sources is an argument of the model: the user's callbacks, the clock, the
  allocator, the socket or TLS library, the random source, and the extension (permessage-deflate drives zlib).
  In the handshake the basic authentication and the handshake inside an h2 stream are arguments too.
  The theorems say what they need of it.

  \<^bold>\<open>Not modelled.\<close>  HTTP above its headers and HTTP/2, connection set-up and the poll loop, TLS, JSON and CBOR, the
  platform layer.  Sources that \<open>Package.swift\<close> leaves out of the build (secure streams, MQTT, CGI, event
  libraries other than poll, mbedtls) are not considered.
\<close>

end
